(* ===== verification/Prelude.thy ===== *)
theory Prelude
  imports Main "HOL-Library.Word" "HOL-Library.Monad_Syntax"
begin

text \<open>
  Shared vocabulary of the development: bytes and byte strings, the Rust slice and vector
  primitives the sources use (\<^verbatim>\<open>get\<close>, \<^verbatim>\<open>get(a..b)\<close>, \<^verbatim>\<open>copy_within\<close>, \<^verbatim>\<open>memchr\<close>, \<dots>),
  little-endian integers, and the generic lemmas about them. Conventions:
  \<^item> a \<^verbatim>\<open>u8\<close> is an \<open>8 word\<close> and a \<^verbatim>\<open>Vec<u8>\<close>, \<^verbatim>\<open>&[u8]\<close> or \<^verbatim>\<open>Bytes\<close> a list of them;
  \<^item> a \<^verbatim>\<open>usize\<close> is a \<open>nat\<close>; where the source uses \<^verbatim>\<open>checked_add\<close>/\<^verbatim>\<open>checked_mul\<close> the
    64-bit bound is written out (\<open>checked_add\<close>, \<open>checked_mul\<close> below);
  \<^item> an \<^verbatim>\<open>i64\<close> is an \<open>int\<close> in the range \<open>fits 8\<close>, and every narrowing cast is written out
    as reduction modulo the width;
  \<^item> a Rust operation that panics on a bad range returns \<open>option\<close>, with \<open>None\<close> for the panic.
\<close>

named_theorems byte_simps "little-endian encodings and slices of byte strings"

type_synonym byte = "8 word"
type_synonym bytes = "byte list"

lemma unat_byte_less [simp]: "unat (b :: byte) < 256"
  using unsigned_less [of b] by simp

subsection \<open>Slices and vectors\<close>

definition nth_opt :: "'a list \<Rightarrow> nat \<Rightarrow> 'a option" where
  "nth_opt xs i = (if i < length xs then Some (xs ! i) else None)"

definition slice_get :: "'a list \<Rightarrow> nat \<Rightarrow> nat \<Rightarrow> 'a list option" where
  "slice_get xs a b = (if a \<le> b \<and> b \<le> length xs then Some (take (b - a) (drop a xs)) else None)"

definition slice_put :: "'a list \<Rightarrow> nat \<Rightarrow> 'a list \<Rightarrow> 'a list" where
  "slice_put xs a ys =
     (if a + length ys \<le> length xs then take a xs @ ys @ drop (a + length ys) xs else xs)"

definition copy_within :: "'a list \<Rightarrow> nat \<Rightarrow> nat \<Rightarrow> nat \<Rightarrow> 'a list option" where
  "copy_within xs src_from src_to dest =
     (if src_from \<le> src_to \<and> src_to \<le> length xs \<and> dest + (src_to - src_from) \<le> length xs
      then Some (take dest xs @ take (src_to - src_from) (drop src_from xs)
                   @ drop (dest + (src_to - src_from)) xs)
      else None)"

definition vec_resize :: "bytes \<Rightarrow> nat \<Rightarrow> bytes" where
  "vec_resize xs n = take n xs @ replicate (n - length xs) 0"

definition checked_add :: "nat \<Rightarrow> nat \<Rightarrow> nat option" where
  "checked_add a b = (if a + b < 2 ^ 64 then Some (a + b) else None)"

definition checked_mul :: "nat \<Rightarrow> nat \<Rightarrow> nat option" where
  "checked_mul a b = (if a * b < 2 ^ 64 then Some (a * b) else None)"

definition checked_sub :: "nat \<Rightarrow> nat \<Rightarrow> nat option" where
  "checked_sub a b = (if b \<le> a then Some (a - b) else None)"

text \<open>Sequencing of fallible steps: the \<^verbatim>\<open>?\<close> operator.\<close>

fun rbind :: "'e + 'a \<Rightarrow> ('a \<Rightarrow> 'e + 'b) \<Rightarrow> 'e + 'b" where
  "rbind (Inl e) f = Inl e"
| "rbind (Inr x) f = f x"

definition ok_or :: "'a option \<Rightarrow> 'e \<Rightarrow> 'e + 'a" where
  "ok_or v e = (case v of Some x \<Rightarrow> Inr x | None \<Rightarrow> Inl e)"

lemma rbind_Inr_iff: "rbind r f = Inr y \<longleftrightarrow> (\<exists>x. r = Inr x \<and> f x = Inr y)"
  by (cases r) auto

lemma ok_or_simps [simp]: "ok_or (Some x) e = Inr x" "ok_or None e = Inl e"
  by (simp_all add: ok_or_def)

lemma ok_or_Inr_iff: "ok_or v e = Inr x \<longleftrightarrow> v = Some x"
  by (cases v) auto

lemma nth_opt_Some [simp]: "nth_opt xs i = Some x \<longleftrightarrow> i < length xs \<and> xs ! i = x"
  by (auto simp: nth_opt_def)

lemma nth_opt_None [simp]: "nth_opt xs i = None \<longleftrightarrow> length xs \<le> i"
  by (auto simp: nth_opt_def)

lemma nth_opt_append_right [simp]: "nth_opt (xs @ ys) (length xs + i) = nth_opt ys i"
  by (simp add: nth_opt_def)

lemma nth_opt_append_length [simp]: "nth_opt (xs @ ys) (length xs) = nth_opt ys 0"
  using nth_opt_append_right [of xs ys 0] by simp

lemma nth_opt_Nil [simp]: "nth_opt [] i = None"
  by simp

lemma nth_opt_Cons_0 [simp]: "nth_opt (x # xs) 0 = Some x"
  by (simp add: nth_opt_def)

lemma nth_opt_append_left: "i < length xs \<Longrightarrow> nth_opt (xs @ ys) i = nth_opt xs i"
  by (simp add: nth_opt_def nth_append)

lemma slice_get_Some:
  "slice_get xs a b = Some ys \<longleftrightarrow> a \<le> b \<and> b \<le> length xs \<and> ys = take (b - a) (drop a xs)"
  by (auto simp: slice_get_def)

lemma slice_get_length: "slice_get xs a b = Some ys \<Longrightarrow> length ys = b - a"
  by (auto simp: slice_get_Some)

lemma slice_get_mid [simp]:
  "slice_get (xs @ ys @ zs) (length xs) (length xs + length ys) = Some ys"
  by (simp add: slice_get_def)

lemma slice_get_midI:
  "a = length xs \<Longrightarrow> b = length xs + length ys \<Longrightarrow> slice_get (xs @ ys @ zs) a b = Some ys"
  by simp

lemma slice_put_midI:
  "a = length xs \<Longrightarrow> length ys = length ys' \<Longrightarrow> slice_put (xs @ ys @ zs) a ys' = xs @ ys' @ zs"
  by (simp add: slice_put_def)

lemma length_slice_put [simp]: "length (slice_put xs a ys) = length xs"
  by (simp add: slice_put_def)

text \<open>Reading from a longer buffer: \<open>le_opt x y\<close> says that \<open>y\<close> returns whatever \<open>x\<close> returns.\<close>

definition le_opt :: "'a option \<Rightarrow> 'a option \<Rightarrow> bool" where
  "le_opt x y \<longleftrightarrow> (\<forall>r. x = Some r \<longrightarrow> y = Some r)"

lemma le_opt_refl: "le_opt x x"
  by (simp add: le_opt_def)

lemma le_opt_if: "le_opt a a' \<Longrightarrow> le_opt b b' \<Longrightarrow> le_opt (if P then a else b) (if P then a' else b')"
  by simp

lemma le_opt_bind: "le_opt x y \<Longrightarrow> (\<And>a. le_opt (f a) (g a)) \<Longrightarrow> le_opt (Option.bind x f) (Option.bind y g)"
  by (fastforce simp: le_opt_def bind_eq_Some_conv)

lemma le_opt_nth: "le_opt (nth_opt buf i) (nth_opt (buf @ post) i)"
  by (simp add: le_opt_def nth_append)

lemma le_opt_slice: "le_opt (slice_get buf a b) (slice_get (buf @ post) a b)"
  by (auto simp: le_opt_def slice_get_def)

lemmas le_opt_intros = le_opt_if le_opt_bind le_opt_nth le_opt_slice le_opt_refl

lemma slice_get_shift: "slice_get (pre @ buf) (length pre + a) (length pre + b) = slice_get buf a b"
  by (simp add: slice_get_def)

text \<open>Opening a gap with \<^verbatim>\<open>resize\<close> and \<^verbatim>\<open>copy_within\<close>, and closing one with \<^verbatim>\<open>copy_within\<close> and
  \<^verbatim>\<open>truncate\<close>.\<close>

lemma copy_within_open:
  "\<exists>J. length J = g \<and> copy_within (vec_resize (P @ B) (length (P @ B) + g)) (length P) (length (P @ B))
     (length P + g) = Some (P @ J @ B)"
proof -
  let ?X = "P @ B @ replicate g 0"
  have "copy_within (vec_resize (P @ B) (length (P @ B) + g)) (length P) (length (P @ B)) (length P + g)
      = Some (take (length P + g) ?X @ B)"
    by (simp add: copy_within_def vec_resize_def)
  moreover have "take (length P + g) ?X = P @ take g (B @ replicate g 0)" by simp
  moreover have "length (take g (B @ replicate g 0)) = g" by simp
  ultimately show ?thesis by (metis append_assoc)
qed

lemma copy_within_close:
  "\<exists>Y. copy_within (P @ E @ B) (length P + length E) (length (P @ E @ B)) (length P) = Some (P @ B @ Y)"
  by (simp add: copy_within_def)

subsection \<open>Library code outside the repository\<close>

text \<open>The crates \<^verbatim>\<open>memchr\<close> and \<^verbatim>\<open>itoa\<close> are parameters of the definitions that call them
  (written \<open>mc\<close> and \<open>itoa\<close>). \<open>memchr_spec\<close> states what \<^verbatim>\<open>memchr::memchr\<close> documents: the index
  of the first occurrence of the needle, if there is one. \<open>find_byte\<close> is a function with that
  behaviour.\<close>

definition memchr_spec :: "(byte \<Rightarrow> bytes \<Rightarrow> nat option) \<Rightarrow> bool" where
  "memchr_spec mc \<longleftrightarrow> (\<forall>c xs i. mc c xs = Some i \<longleftrightarrow>
     i < length xs \<and> xs ! i = c \<and> c \<notin> set (take i xs))"

fun find_byte :: "byte \<Rightarrow> bytes \<Rightarrow> nat option" where
  "find_byte c [] = None"
| "find_byte c (b # bs) = (if b = c then Some 0 else map_option Suc (find_byte c bs))"

lemma find_byte_Some:
  "find_byte c xs = Some i \<longleftrightarrow> i < length xs \<and> xs ! i = c \<and> c \<notin> set (take i xs)"
proof (induction xs arbitrary: i)
  case (Cons b bs)
  show ?case by (cases i) (auto simp: Cons.IH)
qed simp

lemma find_byte_None: "find_byte c xs = None \<longleftrightarrow> c \<notin> set xs"
  by (induction xs) auto

lemma find_byte_append:
  "find_byte c (xs @ ys) = (case find_byte c xs of Some i \<Rightarrow> Some i
                          | None \<Rightarrow> map_option (\<lambda>i. length xs + i) (find_byte c ys))"
proof (induction xs)
  case Nil
  show ?case by (cases "find_byte c ys") simp_all
next
  case (Cons a xs)
  then show ?case by (cases "find_byte c ys") (auto split: option.splits)
qed

lemma find_byte_absent_append: "c \<notin> set xs \<Longrightarrow> find_byte c (xs @ c # ys) = Some (length xs)"
  by (simp add: find_byte_append find_byte_None [THEN iffD2])

lemma memchr_spec_find_byte: "memchr_spec find_byte"
  by (simp add: memchr_spec_def find_byte_Some)

lemma memchr_spec_eq: "memchr_spec mc \<Longrightarrow> mc = find_byte"
proof (intro ext)
  fix c xs assume "memchr_spec mc"
  then have "mc c xs = Some i \<longleftrightarrow> find_byte c xs = Some i" for i
    by (simp add: memchr_spec_def find_byte_Some)
  then show "mc c xs = find_byte c xs" by (metis option.exhaust)
qed

text \<open>\<open>itoa_spec\<close> states that \<^verbatim>\<open>itoa::Buffer::format\<close> prints the shortest decimal form of its
  argument.\<close>

fun digits :: "nat \<Rightarrow> bytes" where
  "digits n = (if n < 10 then [48 + word_of_nat n] else digits (n div 10) @ [48 + word_of_nat (n mod 10)])"

declare digits.simps [simp del]

definition decimal :: "int \<Rightarrow> bytes" where
  "decimal v = (if v < 0 then 45 # digits (nat (- v)) else digits (nat v))"

definition itoa_spec :: "(int \<Rightarrow> bytes) \<Rightarrow> bool" where
  "itoa_spec itoa \<longleftrightarrow> (\<forall>v. itoa v = decimal v)"

lemma itoa_spec_decimal: "itoa_spec decimal"
  by (simp add: itoa_spec_def)

text \<open>\<open>ascii\<close> writes a byte-string literal: \<open>ascii ''foo''\<close> is Rust's \<^verbatim>\<open>b"foo"\<close>.\<close>

definition ascii :: "string \<Rightarrow> bytes" where
  "ascii s = map (\<lambda>c. word_of_nat (of_char c)) s"

subsection \<open>Little-endian integers\<close>

text \<open>\<open>le_bytes n v\<close> is \<^verbatim>\<open>to_le_bytes\<close> of \<open>v\<close> cast to an \<open>n\<close>-byte integer, signed or
  unsigned alike; \<open>le_val\<close> is \<^verbatim>\<open>from_le_bytes\<close> at an unsigned type and \<open>sle_val\<close> at a signed
  one.\<close>

fun le_bytes :: "nat \<Rightarrow> int \<Rightarrow> bytes" where
  "le_bytes 0 v = []"
| "le_bytes (Suc n) v = word_of_int v # le_bytes n (v div 256)"

fun le_val :: "bytes \<Rightarrow> int" where
  "le_val [] = 0"
| "le_val (b # bs) = uint b + 256 * le_val bs"

definition sle_val :: "bytes \<Rightarrow> int" where
  "sle_val bs = (let u = le_val bs; m = 256 ^ length bs in if 2 * u < m then u else u - m)"

definition fits :: "nat \<Rightarrow> int \<Rightarrow> bool" where
  "fits n v \<longleftrightarrow> - (256 ^ n) \<le> 2 * v \<and> 2 * v < 256 ^ n"

lemma length_le_bytes [simp]: "length (le_bytes n v) = n"
  by (induction n arbitrary: v) auto

lemma le_val_nonneg [simp]: "0 \<le> le_val bs"
  by (induction bs) auto

lemma le_val_less: "le_val bs < 256 ^ length bs"
proof (induction bs)
  case (Cons b bs)
  have "uint b < 256" using uint_lt2p [of b] by simp
  with Cons show ?case by simp
qed simp

lemma le_val_le_bytes: "le_val (le_bytes n v) = v mod 256 ^ n"
proof (induction n arbitrary: v)
  case (Suc n)
  have "uint (word_of_int v :: byte) = v mod 256"
    by (simp add: uint_word_of_int)
  then show ?case
    by (simp add: Suc zmod_zmult2_eq)
qed simp

lemma word_of_int_add_256: "word_of_int (uint b + 256 * x) = (b :: byte)"
proof -
  have "word_of_int (uint b + 256 * x) = (word_of_int (uint b) + word_of_int 256 * word_of_int x :: byte)"
    by simp
  also have "(word_of_int 256 :: byte) = 0" by (simp add: word_eq_iff_unsigned)
  finally show ?thesis by simp
qed

lemma le_bytes_le_val: "le_bytes (length bs) (le_val bs) = bs"
proof (induction bs)
  case (Cons b bs)
  have "0 \<le> uint b" "uint b < 256" using uint_lt2p [of b] by simp_all
  with Cons show ?case by (simp add: word_of_int_add_256 del: of_int_add of_int_mult)
qed simp

lemma sle_val_le_bytes: "fits n v \<Longrightarrow> sle_val (le_bytes n v) = v"
proof -
  assume f: "fits n v"
  show ?thesis
  proof (cases "0 \<le> v")
    case True
    with f have "v mod 256 ^ n = v" by (intro mod_pos_pos_trivial) (auto simp: fits_def)
    with f True show ?thesis by (simp add: sle_val_def le_val_le_bytes fits_def)
  next
    case False
    with f have "(v + 256 ^ n) mod 256 ^ n = v + 256 ^ n"
      by (intro mod_pos_pos_trivial) (auto simp: fits_def)
    then have "v mod 256 ^ n = v + 256 ^ n" by simp
    with f show ?thesis by (simp add: sle_val_def le_val_le_bytes fits_def Let_def)
  qed
qed

lemma fits_sle_val: "fits (length bs) (sle_val bs)"
  using le_val_less [of bs] le_val_nonneg [of bs]
  by (auto simp: sle_val_def fits_def Let_def simp del: le_val_nonneg)

lemma fits_mono: "fits m v \<Longrightarrow> m \<le> n \<Longrightarrow> fits n v"
  using power_increasing [of m n "256 :: int"] unfolding fits_def by linarith

lemma le_val_le_bytes_small: "0 \<le> v \<Longrightarrow> v < 256 ^ n \<Longrightarrow> le_val (le_bytes n v) = v"
  by (simp add: le_val_le_bytes)

end
