(* ===== verification/Crc.thy ===== *)
theory Crc
  imports Prelude
begin

text \<open>
  The checksums of \<^verbatim>\<open>src/src/util/crc16.rs\<close> and \<^verbatim>\<open>src/src/util/crc64.rs\<close> and the
  key-to-slot function built on CRC16. Both sources run a byte at a time over a 256-entry table
  built at compile time; the reference below runs one bit at a time and uses no table. What the
  two have in common is the locale \<open>table_crc\<close>: a register step that is linear over XOR, and a
  way to split the register into the byte the table is indexed with and the rest.
\<close>

unbundle bit_operations_syntax

subsection \<open>CRC16: \<open>util/crc16.rs\<close>\<close>

definition SLOT_COUNT :: "16 word" where
  "SLOT_COUNT = 16384"

definition crc16_shift :: "16 word \<Rightarrow> 16 word" where
  "crc16_shift crc = (if crc AND 0x8000 \<noteq> 0 then push_bit 1 crc XOR 0x1021 else push_bit 1 crc)"

definition crc16_build_table :: "16 word list" where
  "crc16_build_table = map (\<lambda>i. (crc16_shift ^^ 8) (push_bit 8 (word_of_nat i))) [0..<256]"

definition crc16_index :: "16 word \<Rightarrow> byte \<Rightarrow> nat" where
  "crc16_index crc b = unat ((drop_bit 8 crc XOR ucast b) AND 0xff)"

fun crc16_loop :: "16 word \<Rightarrow> bytes \<Rightarrow> 16 word" where
  "crc16_loop crc [] = crc"
| "crc16_loop crc (b # buf) =
     crc16_loop (push_bit 8 crc XOR crc16_build_table ! crc16_index crc b) buf"

definition crc16 :: "bytes \<Rightarrow> 16 word" where
  "crc16 buf = crc16_loop 0 buf"

definition brace_open :: byte where
  "brace_open = 123"

definition brace_close :: byte where
  "brace_close = 125"

definition key_hash_slot :: "(byte \<Rightarrow> bytes \<Rightarrow> nat option) \<Rightarrow> bytes \<Rightarrow> 16 word" where
  "key_hash_slot mc key =
     (case mc brace_open key of
        None \<Rightarrow> crc16 key AND (SLOT_COUNT - 1)
      | Some open \<Rightarrow>
          (case slice_get key (open + 1) (length key) of
             None \<Rightarrow> crc16 key AND (SLOT_COUNT - 1)
           | Some rest \<Rightarrow>
               (case mc brace_close rest of
                  None \<Rightarrow> crc16 key AND (SLOT_COUNT - 1)
                | Some 0 \<Rightarrow> crc16 key AND (SLOT_COUNT - 1)
                | Some rel \<Rightarrow>
                    (let tag = (case slice_get rest 0 rel of Some t \<Rightarrow> t | None \<Rightarrow> key)
                     in crc16 tag AND (SLOT_COUNT - 1)))))"

subsection \<open>CRC64: \<open>util/crc64.rs\<close>\<close>

definition POLY :: "64 word" where
  "POLY = 0xad93d23594c935a9"

fun reverse_u64_loop :: "nat \<Rightarrow> 64 word \<Rightarrow> 64 word \<Rightarrow> 64 word" where
  "reverse_u64_loop 0 out v = out"
| "reverse_u64_loop (Suc n) out v = reverse_u64_loop n (push_bit 1 out OR (v AND 1)) (drop_bit 1 v)"

definition reverse_u64 :: "64 word \<Rightarrow> 64 word" where
  "reverse_u64 v = reverse_u64_loop 64 0 v"

definition REFLECTED_POLY :: "64 word" where
  "REFLECTED_POLY = reverse_u64 POLY"

definition crc64_shift :: "64 word \<Rightarrow> 64 word" where
  "crc64_shift crc = (if crc AND 1 \<noteq> 0 then drop_bit 1 crc XOR REFLECTED_POLY else drop_bit 1 crc)"

definition crc64_build_table :: "64 word list" where
  "crc64_build_table = map (\<lambda>i. (crc64_shift ^^ 8) (word_of_nat i)) [0..<256]"

definition crc64_index :: "64 word \<Rightarrow> byte \<Rightarrow> nat" where
  "crc64_index crc b = unat ((crc XOR ucast b) AND 0xff)"

fun crc64 :: "64 word \<Rightarrow> bytes \<Rightarrow> 64 word" where
  "crc64 crc [] = crc"
| "crc64 crc (b # buf) = crc64 (drop_bit 8 crc XOR crc64_build_table ! crc64_index crc b) buf"

definition digest :: "bytes \<Rightarrow> 64 word" where
  "digest buf = crc64 0 buf"

subsection \<open>Linear registers and their tables\<close>

text \<open>The bit-at-a-time registers of the two checksums, with no table.\<close>

fun crc16_bitwise :: "16 word \<Rightarrow> bytes \<Rightarrow> 16 word" where
  "crc16_bitwise crc [] = crc"
| "crc16_bitwise crc (b # bs) = crc16_bitwise ((crc16_shift ^^ 8) (crc XOR push_bit 8 (ucast b))) bs"

fun crc64_bitwise :: "64 word \<Rightarrow> bytes \<Rightarrow> 64 word" where
  "crc64_bitwise crc [] = crc"
| "crc64_bitwise crc (b # bs) = crc64_bitwise ((crc64_shift ^^ 8) (crc XOR ucast b)) bs"

text \<open>The interface of a byte-wise CRC: a register step that distributes over XOR (\<open>shift\<close>), the
  place where a message byte enters the register (\<open>inject\<close>), and the split of the register into
  a table index and a remainder on which eight steps are a plain shift (\<open>slide\<close>); \<open>bitwise\<close> runs
  the register over a message, \<open>run\<close> is the table-driven loop.\<close>

locale table_crc =
  fixes shift :: "'a::len word \<Rightarrow> 'a word"
    and inject :: "byte \<Rightarrow> 'a word"
    and index :: "'a word \<Rightarrow> byte \<Rightarrow> nat"
    and cell :: "nat \<Rightarrow> 'a word"
    and rest :: "'a word \<Rightarrow> 'a word"
    and slide :: "'a word \<Rightarrow> 'a word"
    and tab :: "'a word list"
    and bitwise :: "'a word \<Rightarrow> bytes \<Rightarrow> 'a word"
    and run :: "'a word \<Rightarrow> bytes \<Rightarrow> 'a word"
  assumes shift_xor: "shift (x XOR y) = shift x XOR shift y"
    and inject_xor: "inject (a XOR b) = inject a XOR inject b"
    and split: "x XOR inject b = rest x XOR cell (index x b)"
    and slide: "(shift ^^ 8) (rest x) = slide x"
    and tab: "tab ! index x b = (shift ^^ 8) (cell (index x b))"
    and bitwise: "bitwise x [] = x" "bitwise x (b # bs) = bitwise ((shift ^^ 8) (x XOR inject b)) bs"
    and run: "run x [] = x" "run x (b # bs) = run (slide x XOR tab ! index x b) bs"
begin

lemma funpow_shift_xor: "(shift ^^ n) (x XOR y) = (shift ^^ n) x XOR (shift ^^ n) y"
  by (induction n) (simp_all add: shift_xor)

lemma table_step: "(shift ^^ 8) (x XOR inject b) = slide x XOR tab ! index x b"
  by (simp only: split funpow_shift_xor slide tab)

lemma run_bitwise: "run x bs = bitwise x bs"
  by (induction bs arbitrary: x) (simp_all only: bitwise run table_step)

lemma run_append: "run x (xs @ ys) = run (run x xs) ys"
  by (induction xs arbitrary: x) (simp_all add: run)

lemma bitwise_xor:
  "length xs = length ys \<Longrightarrow>
   bitwise (a XOR b) (map2 (XOR) xs ys) = bitwise a xs XOR bitwise b ys"
proof (induction xs ys arbitrary: a b rule: list_induct2)
  case (Cons x xs y ys)
  have "(a XOR b) XOR inject (x XOR y) = (a XOR inject x) XOR (b XOR inject y)"
    by (simp only: inject_xor ac_simps)
  then have "(shift ^^ 8) ((a XOR b) XOR inject (x XOR y)) =
      (shift ^^ 8) (a XOR inject x) XOR (shift ^^ 8) (b XOR inject y)"
    by (simp only: funpow_shift_xor)
  then show ?case by (simp only: list.map zip_Cons_Cons prod.case bitwise Cons.IH)
qed (simp add: bitwise)

lemma run_xor:
  "length xs = length ys \<Longrightarrow> run (a XOR b) (map2 (XOR) xs ys) = run a xs XOR run b ys"
  by (simp only: run_bitwise bitwise_xor)

end

lemma and_top_bit: "(x AND 0x8000 \<noteq> 0) = bit (x::16 word) 15"
  using bit_iff_and_push_bit_not_eq_0 [of x 15] by simp

lemma and_low_bit: "(x AND 1 \<noteq> 0) = bit (x::64 word) 0"
  by (simp add: and_one_eq bit_0 odd_iff_mod_2_eq_one)

lemma crc16_shift_xor: "crc16_shift (x XOR y) = crc16_shift x XOR crc16_shift y"
  by (simp add: crc16_shift_def and_top_bit bit_xor_iff push_bit_xor) (simp add: ac_simps)

lemma crc64_shift_xor: "crc64_shift (x XOR y) = crc64_shift x XOR crc64_shift y"
  by (simp add: crc64_shift_def and_low_bit bit_xor_iff drop_bit_xor) (simp add: ac_simps)

lemma ff_mask: "(0xff :: 'a::len word) = mask 8"
  by (simp add: mask_eq_exp_minus_1)

lemma crc16_shift_low:
  "k \<le> 8 \<Longrightarrow> (crc16_shift ^^ k) (x AND mask 8) = push_bit k (x AND mask 8)"
proof (induction k)
  case (Suc k)
  then have "\<not> bit (push_bit k (x AND mask 8)) 15"
    by (auto simp: bit_simps)
  with Suc show ?case by (simp add: crc16_shift_def and_top_bit del: push_bit_and)
qed simp

lemma crc64_shift_high:
  "k \<le> 8 \<Longrightarrow> (crc64_shift ^^ k) (x AND NOT (mask 8)) = drop_bit k (x AND NOT (mask 8))"
proof (induction k)
  case (Suc k)
  then have "\<not> bit (drop_bit k (x AND NOT (mask 8))) 0"
    by (simp add: bit_simps)
  with Suc show ?case by (simp add: crc64_shift_def and_low_bit del: drop_bit_and)
qed simp

lemma unat_and_mask8: "unat (x AND mask 8 :: 'a::len word) < 256"
  by (simp flip: take_bit_eq_mask add: unsigned_take_bit_eq take_bit_nat_def)

lemma crc16_index_less: "crc16_index x b < 256"
  unfolding crc16_index_def ff_mask by (rule unat_and_mask8)

lemma crc64_index_less: "crc64_index x b < 256"
  unfolding crc64_index_def ff_mask by (rule unat_and_mask8)

interpretation crc16: table_crc crc16_shift "\<lambda>b. push_bit 8 (ucast b)" crc16_index
  "\<lambda>i. push_bit 8 (word_of_nat i)" "\<lambda>x. x AND mask 8" "push_bit 8" crc16_build_table
  crc16_bitwise crc16_loop
proof
  fix x y :: "16 word" and a b :: byte
  show "crc16_shift (x XOR y) = crc16_shift x XOR crc16_shift y" by (rule crc16_shift_xor)
  show "push_bit 8 (ucast (a XOR b)) = push_bit 8 (ucast a) XOR push_bit 8 (ucast b :: 16 word)"
    by (rule bit_word_eqI) (auto simp: bit_simps)
  show "x XOR push_bit 8 (ucast b) =
      (x AND mask 8) XOR push_bit 8 (word_of_nat (crc16_index x b))"
    by (rule bit_word_eqI) (auto simp: crc16_index_def ff_mask bit_simps dest: bit_imp_le_length)
  show "(crc16_shift ^^ 8) (x AND mask 8) = push_bit 8 x"
    unfolding crc16_shift_low [OF order_refl] by (rule bit_word_eqI) (auto simp: bit_simps)
  show "crc16_build_table ! crc16_index x b =
      (crc16_shift ^^ 8) (push_bit 8 (word_of_nat (crc16_index x b)))"
    by (simp add: crc16_build_table_def crc16_index_less)
qed simp_all

interpretation crc64: table_crc crc64_shift ucast crc64_index
  word_of_nat "\<lambda>x. x AND NOT (mask 8)" "drop_bit 8" crc64_build_table crc64_bitwise crc64
proof
  fix x y :: "64 word" and a b :: byte
  show "crc64_shift (x XOR y) = crc64_shift x XOR crc64_shift y" by (rule crc64_shift_xor)
  show "ucast (a XOR b) = ucast a XOR (ucast b :: 64 word)"
    by (rule bit_word_eqI) (auto simp: bit_simps)
  show "x XOR ucast b = (x AND NOT (mask 8)) XOR word_of_nat (crc64_index x b)"
    by (rule bit_word_eqI) (auto simp: crc64_index_def ff_mask bit_simps dest: bit_imp_le_length)
  show "(crc64_shift ^^ 8) (x AND NOT (mask 8)) = drop_bit 8 x"
    unfolding crc64_shift_high [OF order_refl]
    by (rule bit_word_eqI) (auto simp: bit_simps dest: bit_imp_le_length)
  show "crc64_build_table ! crc64_index x b = (crc64_shift ^^ 8) (word_of_nat (crc64_index x b))"
    by (simp add: crc64_build_table_def crc64_index_less)
qed simp_all

subsection \<open>Slots\<close>

lemma crc16_as_bitwise: "crc16 buf = crc16_bitwise 0 buf"
  by (simp add: crc16_def crc16.run_bitwise)

lemma slot_mask: "SLOT_COUNT - 1 = mask 14"
  by (simp add: SLOT_COUNT_def mask_eq_exp_minus_1)

lemma unat_slot: "unat (x AND (SLOT_COUNT - 1)) < 16384"
  unfolding slot_mask by (simp flip: take_bit_eq_mask add: unsigned_take_bit_eq take_bit_nat_def)

lemma key_hash_slot_less: "unat (key_hash_slot mc key) < 16384"
  by (auto simp: key_hash_slot_def Let_def unat_slot split: option.splits nat.splits)

lemma key_hash_slot_tag:
  assumes mc: "memchr_spec mc" and "brace_open \<notin> set pre" and "brace_close \<notin> set tag" and "tag \<noteq> []"
  shows "key_hash_slot mc (pre @ brace_open # tag @ brace_close # post) = crc16 tag AND (SLOT_COUNT - 1)"
proof -
  let ?key = "pre @ brace_open # tag @ brace_close # post"
  have "find_byte brace_open ?key = Some (length pre)"
    using assms(2) by (rule find_byte_absent_append)
  moreover have "slice_get ?key (length pre + 1) (length ?key) = Some (tag @ brace_close # post)"
    by (simp add: slice_get_def)
  moreover have "find_byte brace_close (tag @ brace_close # post) = Some (length tag)"
    using assms(3) by (rule find_byte_absent_append)
  moreover have "slice_get (tag @ brace_close # post) 0 (length tag) = Some tag"
    by (simp add: slice_get_def)
  moreover from assms(4) obtain n where "length tag = Suc n" by (cases tag) auto
  ultimately show ?thesis by (simp add: key_hash_slot_def memchr_spec_eq [OF mc])
qed

lemma key_hash_slot_plain: 
  "memchr_spec mc \<Longrightarrow> brace_open \<notin> set key \<Longrightarrow> key_hash_slot mc key = crc16 key AND (SLOT_COUNT - 1)"
  by (drule memchr_spec_eq) (simp add: key_hash_slot_def find_byte_None [THEN iffD2])

subsection \<open>Properties\<close>

text \<open>The table-driven CRC16 of the cluster slot function computes, for every message, what the
  bit-at-a-time register for polynomial 0x1021 with initial value 0 computes, so every entry of
  the generated table is right.\<close>

theorem crc16_is_bitwise: "crc16 buf = crc16_bitwise 0 buf"
  by (rule crc16_as_bitwise)

text \<open>CRC64 accumulates across buffers (feeding a file in two pieces gives the checksum of the
  whole), agrees with the bit-at-a-time reflected register from every starting value, and is
  linear: the checksum of the XOR of two equally long messages is the XOR of their checksums.\<close>

theorem crc64_correct:
  "digest (xs @ ys) = crc64 (digest xs) ys \<and> crc64 crc buf = crc64_bitwise crc buf
   \<and> (length us = length vs \<longrightarrow> digest (map2 (XOR) us vs) = digest us XOR digest vs)"
  using crc64.run_xor [of us vs 0 0] crc64.run_append [of 0 xs ys] crc64.run_bitwise [of crc buf]
  by (simp add: digest_def)

theorem crc64_correct_witness:
  "digest (map2 (XOR) (ascii ''abc'') (ascii ''xyz'')) = digest (ascii ''abc'') XOR digest (ascii ''xyz'')"
  using crc64_correct [of "[]" "[]" 0 "[]" "ascii ''abc''" "ascii ''xyz''"] by (simp add: ascii_def)

text \<open>Two keys with the same non-empty hash tag map to the same slot, whatever surrounds the
  tag, and that slot is below 16384; a key with no brace maps to the slot of the whole key.\<close>

theorem same_hash_tag_same_slot:
  assumes "memchr_spec mc"
    and "brace_open \<notin> set pre" and "brace_open \<notin> set pre'"
    and "tag \<noteq> []" and "brace_close \<notin> set tag" and "brace_open \<notin> set tag"
  shows "key_hash_slot mc (pre @ brace_open # tag @ brace_close # post) = key_hash_slot mc tag
    \<and> key_hash_slot mc (pre @ brace_open # tag @ brace_close # post)
      = key_hash_slot mc (pre' @ brace_open # tag @ brace_close # post')
    \<and> unat (key_hash_slot mc tag) < 16384"
  using assms by (simp add: key_hash_slot_tag key_hash_slot_plain unat_slot)

theorem same_hash_tag_same_slot_witness:
  "key_hash_slot find_byte (ascii ''user:'' @ brace_open # ascii ''foo'' @ brace_close # ascii '':name'')
   = key_hash_slot find_byte (ascii ''foo'')"
  using same_hash_tag_same_slot [OF memchr_spec_find_byte, of "ascii ''user:''" "[]" "ascii ''foo''" "ascii '':name''" "[]"]
  by (simp add: ascii_def brace_open_def brace_close_def)

end
