(* ===== verification/Lzf.thy ===== *)
theory Lzf
  imports Prelude
begin

text \<open>
  LZF compression, \<^verbatim>\<open>src/src/util/lzf.rs\<close>: the compressor with its hash table of candidate positions and
  output budget, the decompressor for untrusted streams, and their round trip. The appended-to
  output vector is an argument of the compressor, as in the code; a failure (\<^verbatim>\<open>false\<close>) is \<open>None\<close>, which
  leaves that vector as it was.
\<close>

unbundle bit_operations_syntax

subsection \<open>Parameters and hashing\<close>

definition HLOG :: nat where "HLOG = 16"

definition HSIZE :: "32 word" where "HSIZE = 0x10000"

definition MAX_LIT :: nat where "MAX_LIT = 32"

definition MAX_OFF :: nat where "MAX_OFF = 8192"

definition MAX_REF :: nat where "MAX_REF = 264"

definition MIN_REF :: nat where "MIN_REF = 3"

definition byte_or_0 :: "bytes \<Rightarrow> nat \<Rightarrow> 32 word" where
  "byte_or_0 p i = (case nth_opt p i of Some b \<Rightarrow> ucast b | None \<Rightarrow> 0)"

definition first_hash :: "bytes \<Rightarrow> 32 word" where
  "first_hash p = push_bit 16 (byte_or_0 p 0) OR push_bit 8 (byte_or_0 p 1) OR byte_or_0 p 2"

definition idx :: "32 word \<Rightarrow> 32 word" where
  "idx h = (drop_bit (3 * 8 - HLOG) h - h) AND (HSIZE - 1)"

subsection \<open>The compressor\<close>

function flush_literals :: "bytes \<Rightarrow> nat \<Rightarrow> nat \<Rightarrow> nat \<Rightarrow> nat \<Rightarrow> bytes \<Rightarrow> bytes option" where
  "flush_literals input budget start_len s stop out =
     (if s < stop then
        (let run = min MAX_LIT (stop - s) in
         if length out - start_len + 1 + run > budget then None
         else (case slice_get input s (s + run) of
                 None \<Rightarrow> None
               | Some lits \<Rightarrow> flush_literals input budget start_len (s + run) stop (out @ [word_of_nat (run - 1)] @ lits)))
      else Some out)"
  by pat_completeness auto
termination
  by (relation "measure (\<lambda>(input, budget, start_len, s, stop, out). stop - s)") (auto simp: MAX_LIT_def)

declare flush_literals.simps [simp del]

function match_len :: "bytes \<Rightarrow> nat \<Rightarrow> nat \<Rightarrow> nat \<Rightarrow> nat \<Rightarrow> nat" where
  "match_len input refpos ip maxlen l =
     (if l < maxlen then
        (case (nth_opt input (refpos + l), nth_opt input (ip + l)) of
           (Some a, Some b) \<Rightarrow> if a = b then match_len input refpos ip maxlen (l + 1) else l
         | _ \<Rightarrow> l)
      else l)"
  by pat_completeness auto
termination
  by (relation "measure (\<lambda>(input, refpos, ip, maxlen, l). maxlen - l)") auto

declare match_len.simps [simp del]

text \<open>The match for the candidate in the hash slot: its length, or 0, and the encoded offset. Slots are
  32 bits and biased by one, so 0 is an empty slot.\<close>

definition find_match :: "bytes \<Rightarrow> nat \<Rightarrow> 32 word \<Rightarrow> nat \<times> nat" where
  "find_match input ip candidate =
     (if candidate \<noteq> 0 then
        (let refpos = unat (candidate - 1) in
         if refpos < ip \<and> ip - refpos \<le> MAX_OFF then
           (let l = match_len input refpos ip (min MAX_REF (length input - ip)) 0 in
            if l \<ge> MIN_REF then (l, ip - refpos - 1) else (0, 0))
         else (0, 0))
      else (0, 0))"

definition slot_of :: "nat \<Rightarrow> 32 word" where
  "slot_of p = word_of_nat p + 1"

fun index_range :: "bytes \<Rightarrow> nat list \<Rightarrow> (32 word \<Rightarrow> 32 word) \<Rightarrow> 32 word \<Rightarrow> 32 word" where
  "index_range input [] htab = htab"
| "index_range input (p # ps) htab = index_range input ps (htab(idx (first_hash (drop p input)) := slot_of p))"

definition push_match :: "nat \<Rightarrow> nat \<Rightarrow> bytes" where
  "push_match matched off =
     (let len_field = matched - 2; hi = word_of_nat (off div 256) in
      (if len_field < 7 then [hi OR push_bit 5 (word_of_nat len_field)] else [hi OR push_bit 5 7, word_of_nat (len_field - 7)])
      @ [word_of_nat (off mod 256)])"

lemma match_len_correct:
  "l \<le> maxlen \<Longrightarrow> l \<le> match_len input refpos ip maxlen l \<and> match_len input refpos ip maxlen l \<le> maxlen
    \<and> (\<forall>j. l \<le> j \<longrightarrow> j < match_len input refpos ip maxlen l \<longrightarrow>
         refpos + j < length input \<and> ip + j < length input \<and> input ! (refpos + j) = input ! (ip + j))"
proof (induction "maxlen - l" arbitrary: l rule: less_induct)
  case less
  show ?case
  proof (cases "l < maxlen \<and> refpos + l < length input \<and> ip + l < length input \<and> input ! (refpos + l) = input ! (ip + l)")
    case True
    then have e: "match_len input refpos ip maxlen l = match_len input refpos ip maxlen (l + 1)"
      by (subst match_len.simps) (simp add: nth_opt_def)
    have "maxlen - (l + 1) < maxlen - l" "l + 1 \<le> maxlen" using True by auto
    note IH = less.hyps [OF this]
    have "refpos + j < length input \<and> ip + j < length input \<and> input ! (refpos + j) = input ! (ip + j)"
      if "l \<le> j" "j < match_len input refpos ip maxlen (l + 1)" for j
      using that IH True by (cases "j = l") auto
    then show ?thesis unfolding e using IH by simp
  next
    case False
    then have "match_len input refpos ip maxlen l = l"
      by (subst match_len.simps) (auto simp: nth_opt_def)
    then show ?thesis using less.prems by simp
  qed
qed

lemma find_match_len: "find_match input ip candidate = (m, off) \<Longrightarrow> m \<noteq> 0 \<Longrightarrow> MIN_REF \<le> m \<and> m \<le> min MAX_REF (length input - ip)"
  using match_len_correct [of 0 "min MAX_REF (length input - ip)" input "unat (candidate - 1)" ip]
  by (auto simp: find_match_def Let_def split: if_splits)

function compress_loop :: "bytes \<Rightarrow> nat \<Rightarrow> nat \<Rightarrow> nat \<Rightarrow> nat \<Rightarrow> (32 word \<Rightarrow> 32 word) \<Rightarrow> bytes \<Rightarrow> (nat \<times> bytes) option" where
  "compress_loop input budget start_len ip lit_start htab out =
     (if ip + MIN_REF \<le> length input then
        (let h = idx (first_hash (drop ip input)); candidate = htab h; htab = htab(h := slot_of ip)
         in case find_match input ip candidate of (matched, off) \<Rightarrow>
              if matched = 0 then compress_loop input budget start_len (ip + 1) lit_start htab out
              else (case flush_literals input budget start_len lit_start ip out of
                      None \<Rightarrow> None
                    | Some out \<Rightarrow>
                        if length out - start_len + (if matched - 2 < 7 then 2 else 3) > budget then None
                        else compress_loop input budget start_len (ip + matched) (ip + matched)
                               (index_range input [ip + 1..<min (ip + matched) (length input - (MIN_REF - 1))] htab)
                               (out @ push_match matched off)))
      else Some (lit_start, out))"
  by pat_completeness auto
termination
  by (relation "measure (\<lambda>(input, budget, start_len, ip, lit_start, htab, out). length input - ip)")
    (auto simp: MIN_REF_def dest: find_match_len)

declare compress_loop.simps [simp del]

definition compress :: "bytes \<Rightarrow> bytes \<Rightarrow> bytes option" where
  "compress input out =
     (if length input \<le> 4 then None
      else
        (let start_len = length out; budget = length input - 4 in
         case compress_loop input budget start_len 0 0 (\<lambda>_. 0) out of
           None \<Rightarrow> None
         | Some (lit_start, out') \<Rightarrow>
             (case flush_literals input budget start_len lit_start (length input) out' of
                None \<Rightarrow> None
              | Some out' \<Rightarrow> if length out' - start_len \<ge> length input then None else Some out')))"

subsection \<open>The decompressor\<close>

fun copy_match :: "nat \<Rightarrow> nat \<Rightarrow> bytes \<Rightarrow> bytes option" where
  "copy_match 0 src out = Some out"
| "copy_match (Suc n) src out = (case nth_opt out src of None \<Rightarrow> None | Some b \<Rightarrow> copy_match n (src + 1) (out @ [b]))"

definition decompress_ref :: "bytes \<Rightarrow> nat \<Rightarrow> byte \<Rightarrow> nat \<Rightarrow> bytes \<Rightarrow> (nat \<times> bytes) option" where
  "decompress_ref input ip ctrl expected_len out =
     (case (let len = unat (drop_bit 5 ctrl) in
            if len = 7 then (case nth_opt input ip of None \<Rightarrow> None | Some b \<Rightarrow> Some (len + unat b, ip + 1)) else Some (len, ip)) of
        None \<Rightarrow> None
      | Some (len, ip) \<Rightarrow>
          (case nth_opt input ip of
             None \<Rightarrow> None
           | Some b \<Rightarrow>
               (let off = unat (ctrl AND 0x1f) * 256 + unat b; n = len + 2 in
                if length out < off + 1 then None
                else if length out + n > expected_len then None
                else map_option (\<lambda>out. (ip + 1, out)) (copy_match n (length out - (off + 1)) out))))"

lemma decompress_ref_ip: "decompress_ref input ip ctrl n out = Some (ip', out') \<Longrightarrow> ip < ip'"
  by (auto simp: decompress_ref_def Let_def split: option.splits if_splits)

function decompress_loop :: "bytes \<Rightarrow> nat \<Rightarrow> nat \<Rightarrow> bytes \<Rightarrow> bytes option" where
  "decompress_loop input expected_len ip out =
     (case nth_opt input ip of
        None \<Rightarrow> Some out
      | Some ctrl \<Rightarrow>
          if unat ctrl < MAX_LIT then
            (let run = unat ctrl + 1 in
             case slice_get input (ip + 1) (ip + 1 + run) of
               None \<Rightarrow> None
             | Some lits \<Rightarrow>
                 if length out + run > expected_len then None
                 else decompress_loop input expected_len (ip + 1 + run) (out @ lits))
          else (case decompress_ref input (ip + 1) ctrl expected_len out of
                  None \<Rightarrow> None
                | Some (ip, out) \<Rightarrow> decompress_loop input expected_len ip out))"
  by pat_completeness auto
termination
  by (relation "measure (\<lambda>(input, expected_len, ip, out). length input - ip)")
    (auto simp: nth_opt_def split: if_splits dest!: decompress_ref_ip)

declare decompress_loop.simps [simp del]

definition decompress :: "bytes \<Rightarrow> nat \<Rightarrow> bytes option" where
  "decompress input expected_len =
     (case decompress_loop input expected_len 0 [] of
        None \<Rightarrow> None
      | Some out \<Rightarrow> if length out = expected_len then Some out else None)"


subsection \<open>What a stream decodes to\<close>

definition decodes :: "nat \<Rightarrow> bytes \<Rightarrow> bytes \<Rightarrow> bool" where
  "decodes n z out \<longleftrightarrow> (\<forall>rest. decompress_loop (z @ rest) n 0 [] = decompress_loop (z @ rest) n (length z) out)"

lemma decodes_Nil: "decodes n [] []"
  by (simp add: decodes_def)

lemma decodes_literal:
  assumes "decodes n z out" "lits \<noteq> []" "length lits \<le> MAX_LIT" "length out + length lits \<le> n"
  shows "decodes n (z @ [word_of_nat (length lits - 1)] @ lits) (out @ lits)"
  unfolding decodes_def
proof
  fix rest
  obtain a ls where lits: "lits = a # ls" using assms(2) by (cases lits) auto
  let ?c = "word_of_nat (length ls) :: byte" and ?s = "z @ [word_of_nat (length ls)] @ lits @ rest"
  have c: "unat ?c = length ls" "length ls < MAX_LIT" using assms(3) by (simp_all add: lits MAX_LIT_def unat_of_nat)
  have "decompress_loop ?s n 0 [] = decompress_loop ?s n (length z) out" using assms(1) by (simp only: decodes_def)
  also have "\<dots> = decompress_loop ?s n (length z + 1 + length lits) (out @ lits)"
  proof -
    have h: "nth_opt ?s (length z) = Some ?c" by (simp add: nth_opt_def nth_append)
    have g: "slice_get ?s (length z + 1) (length z + 1 + (length ls + 1)) = Some lits"
      using slice_get_midI [of "length z + 1" "z @ [?c]" _ lits rest] by (simp add: lits)
    show ?thesis using c assms(4) by (subst decompress_loop.simps) (simp only: h g option.case Let_def if_True, simp add: lits)
  qed
  finally show "decompress_loop ((z @ [word_of_nat (length lits - 1)] @ lits) @ rest) n 0 [] =
      decompress_loop ((z @ [word_of_nat (length lits - 1)] @ lits) @ rest) n (length (z @ [word_of_nat (length lits - 1)] @ lits)) (out @ lits)"
    by (simp add: lits)
qed

lemma ctrl_fields:
  assumes "a < 32" "l < 8"
  shows "unat (drop_bit 5 (word_of_nat a OR push_bit 5 (word_of_nat l) :: byte)) = l"
    and "unat ((word_of_nat a OR push_bit 5 (word_of_nat l) :: byte) AND 0x1f) = a"
    and "0 < l \<Longrightarrow> \<not> unat (word_of_nat a OR push_bit 5 (word_of_nat l) :: byte) < MAX_LIT"
proof -
  have na: "\<not> bit a n" if "n \<ge> 5" for n
  proof
    assume "bit a n"
    then have "bit (take_bit 5 a) n" using assms(1) by (simp add: take_bit_nat_eq_self)
    then show False using that by (simp add: bit_take_bit_iff)
  qed
  have nl: "n < 3" if "bit l n" for n
  proof -
    have "bit (take_bit 3 l) n" using that assms(2) by (simp add: take_bit_nat_eq_self)
    then show ?thesis by (simp add: bit_take_bit_iff)
  qed
  let ?w = "word_of_nat a OR push_bit 5 (word_of_nat l) :: byte"
  have "drop_bit 5 ?w = (word_of_nat l :: byte)"
    by (rule bit_word_eqI) (use na nl in \<open>auto simp: bit_simps not_less\<close>)
  then show d: "unat (drop_bit 5 ?w) = l" using assms(2) by (simp add: unat_of_nat)
  have "?w AND 0x1f = (word_of_nat a :: byte)"
  proof (rule bit_word_eqI)
    fix n assume n: "n < LENGTH(8)"
    have m: "(0x1f :: byte) = mask 5" by (simp add: mask_eq_exp_minus_1)
    show "bit (?w AND 0x1f) n = bit (word_of_nat a :: byte) n" unfolding m using na n by (auto simp: bit_simps not_less) (meson not_le)
  qed
  then show "unat (?w AND 0x1f) = a" using assms(1) by (simp add: unat_of_nat)
  assume "0 < l"
  moreover have "unat (drop_bit 5 x) = unat x div 32" for x :: byte by (simp add: drop_bit_eq_div unat_div)
  ultimately show "\<not> unat ?w < MAX_LIT" using d by (metis MAX_LIT_def div_less neq0_conv)
qed


lemma decompress_ref_short:
  assumes "unat (drop_bit 5 c) = l" "l \<noteq> 7" "nth_opt input ip = Some b" "unat (c AND 0x1f) * 256 + unat b = off" "off < length out"
    "length out + (l + 2) \<le> n" "copy_match (l + 2) (length out - (off + 1)) out = Some out'"
  shows "decompress_ref input ip c n out = Some (ip + 1, out')"
  using assms by (simp add: decompress_ref_def Let_def del: nth_opt_Some)

lemma decompress_ref_long:
  assumes "unat (drop_bit 5 c) = 7" "nth_opt input ip = Some b1" "nth_opt input (ip + 1) = Some b" "unat (c AND 0x1f) * 256 + unat b = off" "off < length out"
    "length out + (7 + unat b1 + 2) \<le> n" "copy_match (7 + unat b1 + 2) (length out - (off + 1)) out = Some out'"
  shows "decompress_ref input ip c n out = Some (ip + 2, out')"
  using assms by (simp add: decompress_ref_def Let_def del: nth_opt_Some)

lemma decompress_ref_match:
  assumes "3 \<le> m" "m \<le> MAX_REF" "off < MAX_OFF" "off < length out" "length out + m \<le> n" "copy_match m (length out - (off + 1)) out = Some out'"
  shows "\<exists>c cs. push_match m off = c # cs \<and> \<not> unat c < MAX_LIT
    \<and> decompress_ref (z @ push_match m off @ rest) (length z + 1) c n out = Some (length z + length (push_match m off), out')"
proof -
  have o: "off div 256 < 32" "off div 256 * 256 + unat (word_of_nat (off mod 256) :: byte) = off"
    using assms(3) by (auto simp: MAX_OFF_def unat_of_nat)
  show ?thesis
  proof (cases "m - 2 < 7")
    case True
    let ?c = "word_of_nat (off div 256) OR push_bit 5 (word_of_nat (m - 2)) :: byte"
    have f: "unat (drop_bit 5 ?c) = m - 2" "unat (?c AND 0x1f) = off div 256" "\<not> unat ?c < MAX_LIT"
      using ctrl_fields [OF o(1), of "m - 2"] True assms(1) by auto
    have pm: "push_match m off = [?c, word_of_nat (off mod 256)]" using True by (simp add: push_match_def Let_def)
    have b: "nth_opt (z @ push_match m off @ rest) (length z + 1) = Some (word_of_nat (off mod 256))"
      by (simp add: pm nth_opt_def nth_append)
    have m2: "m - 2 + 2 = m" using assms(1) by simp
    have "decompress_ref (z @ push_match m off @ rest) (length z + 1) ?c n out = Some (length z + 1 + 1, out')"
    proof (rule decompress_ref_short [OF f(1) _ b, of off, unfolded m2])
      show "unat (?c AND 0x1f) * 256 + unat (word_of_nat (off mod 256) :: byte) = off" unfolding f(2) by (rule o(2))
    qed (use assms True in auto)
    then show ?thesis using f(3) by (simp add: pm)
  next
    case False
    let ?c = "word_of_nat (off div 256) OR push_bit 5 (word_of_nat 7) :: byte"
    have f: "unat (drop_bit 5 ?c) = 7" "unat (?c AND 0x1f) = off div 256" "\<not> unat ?c < MAX_LIT"
      using ctrl_fields [OF o(1), of 7] by auto
    obtain k where k: "m = 7 + k + 2" "k < 256" using False assms(2) by (intro that [of "m - 9"]) (auto simp: MAX_REF_def)
    have u: "unat (word_of_nat k :: byte) = k" using k(2) by (simp add: unat_of_nat)
    have pm: "push_match m off = [?c, word_of_nat k, word_of_nat (off mod 256)]" by (simp add: push_match_def Let_def k(1))
    have b: "nth_opt (z @ push_match m off @ rest) (length z + 1) = Some (word_of_nat k)"
      "nth_opt (z @ push_match m off @ rest) (length z + 1 + 1) = Some (word_of_nat (off mod 256))"
      by (simp_all add: pm nth_opt_def nth_append)
    have "decompress_ref (z @ push_match m off @ rest) (length z + 1) ?c n out = Some (length z + 1 + 2, out')"
    proof (rule decompress_ref_long [OF f(1) b, of off, unfolded u])
      show "unat (?c AND 0x1f) * 256 + unat (word_of_nat (off mod 256) :: byte) = off" unfolding f(2) by (rule o(2))
    qed (use assms in \<open>auto simp: k(1)\<close>)
    then show ?thesis using f(3) by (simp add: pm)
  qed
qed


lemma decodes_match:
  assumes "decodes n z out" "3 \<le> m" "m \<le> MAX_REF" "off < MAX_OFF" "off < length out" "length out + m \<le> n"
    "copy_match m (length out - (off + 1)) out = Some out'"
  shows "decodes n (z @ push_match m off) out'"
  unfolding decodes_def
proof
  fix rest
  let ?s = "z @ push_match m off @ rest"
  obtain c cs where c: "push_match m off = c # cs" "\<not> unat c < MAX_LIT"
    "decompress_ref ?s (length z + 1) c n out = Some (length z + length (push_match m off), out')"
    using decompress_ref_match [OF assms(2-7)] by blast
  have h: "nth_opt ?s (length z) = Some c" by (simp add: nth_opt_def nth_append c(1))
  have "decompress_loop ?s n 0 [] = decompress_loop ?s n (length z) out" using assms(1) by (simp only: decodes_def)
  also have "\<dots> = decompress_loop ?s n (length z + length (push_match m off)) out'"
    by (subst decompress_loop.simps) (simp only: h option.case c(2,3) if_False prod.case)
  finally show "decompress_loop ((z @ push_match m off) @ rest) n 0 [] =
      decompress_loop ((z @ push_match m off) @ rest) n (length (z @ push_match m off)) out'" by simp
qed

lemma copy_match_correct:
  assumes "refpos < ip" "ip + m \<le> length input" "\<forall>j < m. input ! (refpos + j) = input ! (ip + j)"
  shows "copy_match m refpos (take ip input) = Some (take (ip + m) input)"
proof -
  have "i + k = m \<Longrightarrow> copy_match k (refpos + i) (take (ip + i) input) = Some (take (ip + m) input)" for i k
  proof (induction k arbitrary: i)
    case (Suc k)
    have "nth_opt (take (ip + i) input) (refpos + i) = Some (input ! (ip + i))" using assms Suc.prems by (simp add: nth_opt_def)
    moreover have "take (ip + i) input @ [input ! (ip + i)] = take (ip + (i + 1)) input"
      using assms(2) Suc.prems by (simp add: take_Suc_conv_app_nth)
    ultimately show ?case using Suc.IH [of "i + 1"] Suc.prems by (simp del: nth_opt_Some)
  qed simp
  from this [of 0 m] show ?thesis by simp
qed

subsection \<open>The compressor emits a decodable stream\<close>

lemma flush_literals_correct:
  "flush_literals input budget start_len s stop out = Some out' \<Longrightarrow> s \<le> stop \<Longrightarrow> stop \<le> length input \<Longrightarrow> start_len \<le> length out \<Longrightarrow>
     length out - start_len \<le> budget \<Longrightarrow>
     \<exists>w. out' = out @ w \<and> length out' - start_len \<le> budget \<and>
       (\<forall>z. decodes (length input) z (take s input) \<longrightarrow> decodes (length input) (z @ w) (take stop input))"
proof (induction "stop - s" arbitrary: s out rule: less_induct)
  case less
  show ?case
  proof (cases "s < stop")
    case False
    then show ?thesis using less.prems by (subst (asm) flush_literals.simps) (auto intro: exI [of _ "[]"])
  next
    case True
    define run where "run = min MAX_LIT (stop - s)"
    have run: "0 < run" "run \<le> MAX_LIT" "s + run \<le> stop" using True by (auto simp: run_def MAX_LIT_def)
    define lits where "lits = take run (drop s input)"
    have lits: "length lits = run" "take s input @ lits = take (s + run) input" "slice_get input s (s + run) = Some lits"
      using run less.prems(3) by (auto simp: lits_def take_add slice_get_def)
    let ?out = "out @ [word_of_nat (run - 1)] @ lits"
    have e: "flush_literals input budget start_len s stop out =
        (if length out - start_len + 1 + run > budget then None else flush_literals input budget start_len (s + run) stop ?out)"
      using True lits(3) by (subst flush_literals.simps) (simp add: Let_def run_def [symmetric])
    have step: "\<not> length out - start_len + 1 + run > budget" "flush_literals input budget start_len (s + run) stop ?out = Some out'"
      using less.prems(1) unfolding e by (simp_all split: if_splits)
    have "stop - (s + run) < stop - s" "start_len \<le> length ?out" "length ?out - start_len \<le> budget" using run less.prems(4) step(1) lits(1) by auto
    from less.hyps [OF this(1) step(2) run(3) less.prems(3) this(2,3)] obtain w where
      w: "out' = ?out @ w" "length out' - start_len \<le> budget"
      "\<forall>z. decodes (length input) z (take (s + run) input) \<longrightarrow> decodes (length input) (z @ w) (take stop input)" by blast
    have "decodes (length input) (z @ ([word_of_nat (run - 1)] @ lits) @ w) (take stop input)" if "decodes (length input) z (take s input)" for z
    proof -
      have "lits \<noteq> []" "length (take s input) + length lits \<le> length input" using lits(1) run less.prems(3) by auto
      from decodes_literal [OF that this(1) _ this(2)] have "decodes (length input) (z @ [word_of_nat (run - 1)] @ lits) (take (s + run) input)"
        using lits run by simp
      with w(3) have "decodes (length input) ((z @ [word_of_nat (run - 1)] @ lits) @ w) (take stop input)" by blast
      then show ?thesis by simp
    qed
    then show ?thesis using w(1,2) by (intro exI [of _ "([word_of_nat (run - 1)] @ lits) @ w"]) auto
  qed
qed


lemma find_match_correct:
  assumes "find_match input ip candidate = (m, off)" "m \<noteq> 0" "ip \<le> length input"
  shows "3 \<le> m" "m \<le> MAX_REF" "ip + m \<le> length input" "off < MAX_OFF" "off < ip"
    "copy_match m (ip - (off + 1)) (take ip input) = Some (take (ip + m) input)"
proof -
  show m: "3 \<le> m" "m \<le> MAX_REF" "ip + m \<le> length input" using find_match_len [OF assms(1,2)] assms(3) by (auto simp: MIN_REF_def)
  let ?r = "unat (candidate - 1)"
  have r: "?r < ip" "ip - ?r \<le> MAX_OFF" "off = ip - ?r - 1" "m = match_len input ?r ip (min MAX_REF (length input - ip)) 0"
    using assms(1,2) by (auto simp: find_match_def Let_def split: if_splits)
  then show "off < MAX_OFF" "off < ip" by linarith+
  have "\<forall>j < m. input ! (?r + j) = input ! (ip + j)"
    using match_len_correct [of 0 "min MAX_REF (length input - ip)" input ?r ip] r(4) by simp
  from copy_match_correct [OF r(1) m(3) this] show "copy_match m (ip - (off + 1)) (take ip input) = Some (take (ip + m) input)"
    using r(1,3) by simp
qed

text \<open>The result does not depend on what the hash table holds: every candidate is compared byte by byte.\<close>

lemma compress_loop_correct:
  "compress_loop input budget start_len ip lit_start htab out = Some (lit', out') \<Longrightarrow> lit_start \<le> ip \<Longrightarrow> ip \<le> length input \<Longrightarrow>
     start_len \<le> length out \<Longrightarrow> length out - start_len \<le> budget \<Longrightarrow>
     \<exists>w. out' = out @ w \<and> length out' - start_len \<le> budget \<and> lit' \<le> length input \<and>
       (\<forall>z. decodes (length input) z (take lit_start input) \<longrightarrow> decodes (length input) (z @ w) (take lit' input))"
proof (induction "length input - ip" arbitrary: ip lit_start htab out rule: less_induct)
  case less
  show ?case
  proof (cases "ip + MIN_REF \<le> length input")
    case False
    then have "lit' = lit_start" "out' = out" using less.prems(1) by (subst (asm) compress_loop.simps; simp)+
    then show ?thesis using less.prems by (intro exI [of _ "[]"]) auto
  next
    case True
    define h where "h = idx (first_hash (drop ip input))"
    define ht where "ht = htab(h := slot_of ip)"
    obtain m off where f: "find_match input ip (htab h) = (m, off)" by (rule prod.exhaust)
    have e: "compress_loop input budget start_len ip lit_start htab out =
        (if m = 0 then compress_loop input budget start_len (ip + 1) lit_start ht out
         else (case flush_literals input budget start_len lit_start ip out of
                 None \<Rightarrow> None
               | Some out \<Rightarrow>
                   if length out - start_len + (if m - 2 < 7 then 2 else 3) > budget then None
                   else compress_loop input budget start_len (ip + m) (ip + m)
                          (index_range input [ip + 1..<min (ip + m) (length input - (MIN_REF - 1))] ht) (out @ push_match m off)))"
      using True by (subst compress_loop.simps) (simp only: Let_def h_def [symmetric] ht_def [symmetric] f prod.case if_True)
    note step = less.prems(1) [unfolded e]
    show ?thesis
    proof (cases "m = 0")
      case True': True
      have "length input - (ip + 1) < length input - ip" "ip + 1 \<le> length input" using True by (auto simp: MIN_REF_def)
      from less.hyps [OF this(1) _ _ this(2), of lit_start ht out] show ?thesis using step True' less.prems(2,4,5) by simp
    next
      case False
      note fm = find_match_correct [OF f False less.prems(3)]
      obtain out1 where o1: "flush_literals input budget start_len lit_start ip out = Some out1"
        "\<not> length out1 - start_len + (if m - 2 < 7 then 2 else 3) > budget"
        "compress_loop input budget start_len (ip + m) (ip + m)
           (index_range input [ip + 1..<min (ip + m) (length input - (MIN_REF - 1))] ht) (out1 @ push_match m off) = Some (lit', out')"
        using step False by (auto split: option.splits if_splits)
      obtain w1 where w1: "out1 = out @ w1" "\<forall>z. decodes (length input) z (take lit_start input) \<longrightarrow> decodes (length input) (z @ w1) (take ip input)"
        using flush_literals_correct [OF o1(1) less.prems(2-5)] by blast
      have pl: "length (push_match m off) = (if m - 2 < 7 then 2 else 3)" by (simp add: push_match_def Let_def)
      have "length input - (ip + m) < length input - ip" "start_len \<le> length (out1 @ push_match m off)"
        "length (out1 @ push_match m off) - start_len \<le> budget"
        using fm(1,3) less.prems(4) w1(1) o1(2) by (auto simp: pl)
      from less.hyps [OF this(1) o1(3) _ fm(3) this(2,3)] obtain w where w: "out' = (out1 @ push_match m off) @ w"
        "length out' - start_len \<le> budget" "lit' \<le> length input"
        "\<forall>z. decodes (length input) z (take (ip + m) input) \<longrightarrow> decodes (length input) (z @ w) (take lit' input)" by auto
      have "decodes (length input) (z @ w1 @ push_match m off @ w) (take lit' input)" if z: "decodes (length input) z (take lit_start input)" for z
      proof -
        have "decodes (length input) (z @ w1) (take ip input)" using w1(2) z by blast
        from decodes_match [OF this fm(1,2,4)] have "decodes (length input) ((z @ w1) @ push_match m off) (take (ip + m) input)"
          using fm(3,5,6) less.prems(3) by simp
        with w(4) have "decodes (length input) (((z @ w1) @ push_match m off) @ w) (take lit' input)" by blast
        then show ?thesis by simp
      qed
      then show ?thesis using w w1(1) by (intro exI [of _ "w1 @ push_match m off @ w"]) auto
    qed
  qed
qed

subsection \<open>Properties\<close>

text \<open>C32. LZF round trip: when the compressor succeeds it has appended to the output a stream at least four
  bytes shorter than the input, and decompressing that stream to the input's length gives the input
  back, whatever the bytes, the length and the collisions of the hash table are.\<close>

theorem lzf_roundtrip:
  assumes "compress input out = Some out'"
  shows "\<exists>z. out' = out @ z \<and> length z + 4 \<le> length input \<and> decompress z (length input) = Some input"
proof -
  from assms obtain lit out1 where l: "length input > 4"
    "compress_loop input (length input - 4) (length out) 0 0 (\<lambda>_. 0) out = Some (lit, out1)"
    "flush_literals input (length input - 4) (length out) lit (length input) out1 = Some out'"
    by (auto simp: compress_def Let_def split: if_splits option.splits)
  obtain w1 where w1: "out1 = out @ w1" "length out1 - length out \<le> length input - 4" "lit \<le> length input"
    "\<forall>z. decodes (length input) z [] \<longrightarrow> decodes (length input) (z @ w1) (take lit input)"
    using compress_loop_correct [OF l(2)] by auto
  obtain w2 where w2: "out' = out1 @ w2" "length out' - length out \<le> length input - 4"
    "\<forall>z. decodes (length input) z (take lit input) \<longrightarrow> decodes (length input) (z @ w2) input"
    using flush_literals_correct [OF l(3) w1(3) _ _ w1(2)] w1(1) by auto
  have "decodes (length input) (w1 @ w2) input" using w1(4) w2(3) decodes_Nil by fastforce
  then have "decompress_loop (w1 @ w2) (length input) 0 [] = decompress_loop (w1 @ w2) (length input) (length (w1 @ w2)) input"
    unfolding decodes_def by (metis append_Nil2)
  also have "\<dots> = Some input" by (subst decompress_loop.simps) (simp add: nth_opt_def)
  finally have "decompress (w1 @ w2) (length input) = Some input" by (simp add: decompress_def)
  then show ?thesis using w1(1) w2(1,2) l(1) by (intro exI [of _ "w1 @ w2"]) auto
qed


theorem lzf_roundtrip_witness: "\<exists>z. compress (replicate 12 97) [7] = Some ([7] @ z) \<and> decompress z 12 = Some (replicate 12 97)"
proof -
  have i: "replicate 12 (97 :: byte) = [97, 97, 97, 97, 97, 97, 97, 97, 97, 97, 97, 97]" by (simp add: numeral_eq_Suc)
  have m: "match_len (replicate 12 (97 :: byte)) 0 1 11 0 = 11" by (simp add: i match_len.simps nth_opt_def)
  have h: "idx (first_hash (replicate n (97 :: byte))) = 0" if "2 < n" for n
    using that by (simp add: idx_def first_hash_def byte_or_0_def nth_opt_def HLOG_def HSIZE_def)
  have f: "find_match (replicate 12 (97 :: byte)) 1 1 = (11, 0)" using m by (simp add: find_match_def MAX_OFF_def MAX_REF_def MIN_REF_def)
  have l: "flush_literals (replicate 12 97) 8 1 0 1 [7] = Some [7, 0, 97]"
    by (simp add: flush_literals.simps MAX_LIT_def slice_get_def i)
  have e: "flush_literals (replicate 12 97) 8 1 12 12 x = Some x" "compress_loop (replicate 12 97) 8 1 12 12 ht x = Some (12, x)" for x ht
    by (simp_all add: flush_literals.simps compress_loop.simps MIN_REF_def)
  have "compress_loop (replicate 12 97) 8 1 1 0 (\<lambda>x. if x = 0 then 1 else 0) [7] = Some (12, [7, 0, 97, 224, 2, 0])"
    using e(2) by (subst compress_loop.simps) (simp add: h f [unfolded One_nat_def] l [unfolded One_nat_def] MIN_REF_def push_match_def)
  then have "compress_loop (replicate 12 97) 8 1 0 0 (\<lambda>_. 0) [7] = Some (12, [7, 0, 97, 224, 2, 0])"
    by (subst compress_loop.simps) (simp add: h find_match_def slot_of_def MIN_REF_def fun_upd_def)
  then have "compress (replicate 12 97) [7] = Some [7, 0, 97, 224, 2, 0]" using e(1) by (simp add: compress_def)
  from lzf_roundtrip [OF this] this show ?thesis by auto
qed

end
