(* ===== verification/Strnum.thy ===== *)
theory Strnum
  imports Prelude
begin

text \<open>
  Number and string conversions, \<^verbatim>\<open>src/src/util/strnum.rs\<close>: \<^verbatim>\<open>string2ll\<close> and
  \<^verbatim>\<open>string2ull\<close> with every acceptance rule and overflow guard of the source, and \<^verbatim>\<open>ll2string\<close>
  over the \<^verbatim>\<open>itoa\<close> parameter. The lemmas say exactly which strings are accepted: the canonical
  decimal form of a number in range, and nothing else.
\<close>

subsection \<open>Definitions\<close>

definition U64_MAX :: nat where
  "U64_MAX = 2 ^ 64 - 1"

definition is_digit :: "byte \<Rightarrow> bool" where
  "is_digit c \<longleftrightarrow> 48 \<le> c \<and> c \<le> 57"

definition digit_val :: "byte \<Rightarrow> nat" where
  "digit_val c = unat (c - 48)"

text \<open>Casting a \<^verbatim>\<open>u64\<close> to \<^verbatim>\<open>i64\<close>, and \<^verbatim>\<open>i64::wrapping_neg\<close>.\<close>

definition as_i64 :: "nat \<Rightarrow> int" where
  "as_i64 v = (if v < 2 ^ 63 then int v else int v - 2 ^ 64)"

definition wrapping_neg :: "int \<Rightarrow> int" where
  "wrapping_neg v = (if v = - (2 ^ 63) then v else - v)"

fun string2ll_loop :: "nat \<Rightarrow> bytes \<Rightarrow> nat option" where
  "string2ll_loop v [] = Some v"
| "string2ll_loop v (c # cs) =
     (if \<not> is_digit c then None
      else if v > U64_MAX div 10 then None
      else let v = v * 10; d = digit_val c
           in if v > U64_MAX - d then None else string2ll_loop (v + d) cs)"

definition string2ll :: "bytes \<Rightarrow> int option" where
  "string2ll s =
     (let slen = length s in
      if slen = 0 then None
      else if slen = 1 \<and> nth_opt s 0 = Some 48 then Some 0
      else let negative = (nth_opt s 0 = Some 45); plen = (if negative then 1 else 0)
        in if negative \<and> plen = slen then None
           else (case nth_opt s plen of
               None \<Rightarrow> None
             | Some c \<Rightarrow>
                 if 49 \<le> c \<and> c \<le> 57 then
                   (case string2ll_loop (digit_val c) (drop (plen + 1) s) of
                      None \<Rightarrow> None
                    | Some v \<Rightarrow>
                        if negative then
                          (if v > 2 ^ 63 then None else Some (wrapping_neg (as_i64 v)))
                        else (if v > 2 ^ 63 - 1 then None else Some (as_i64 v)))
                 else None))"

fun string2ull_loop :: "nat \<Rightarrow> bytes \<Rightarrow> nat option" where
  "string2ull_loop v [] = Some v"
| "string2ull_loop v (c # cs) =
     (if \<not> is_digit c then None
      else do { w \<leftarrow> checked_mul v 10; x \<leftarrow> checked_add w (digit_val c); string2ull_loop x cs })"

definition string2ull :: "bytes \<Rightarrow> nat option" where
  "string2ull s =
     (if s = [] then None
      else if length s = 1 \<and> nth_opt s 0 = Some 48 then Some 0
      else (case nth_opt s 0 of
          None \<Rightarrow> None
        | Some c \<Rightarrow> if 49 \<le> c \<and> c \<le> 57 then string2ull_loop (digit_val c) (drop 1 s) else None))"

definition LL_STR_SIZE :: nat where
  "LL_STR_SIZE = 21"

definition ll2string :: "(int \<Rightarrow> bytes) \<Rightarrow> bytes \<Rightarrow> int \<Rightarrow> nat \<times> bytes" where
  "ll2string itoa buf v =
     (let s = itoa v; n = min (length s) (length buf) in (n, slice_put buf 0 (take n s)))"

subsection \<open>Decimal digits\<close>

definition dec_val :: "nat \<Rightarrow> bytes \<Rightarrow> nat" where
  "dec_val v cs = foldl (\<lambda>v c. v * 10 + digit_val c) v cs"

lemma dec_val_simps [simp]:
  "dec_val v [] = v" "dec_val v (c # cs) = dec_val (v * 10 + digit_val c) cs"
  "dec_val v (cs @ ds) = dec_val (dec_val v cs) ds"
  by (simp_all add: dec_val_def)

lemma dec_val_ge: "v \<le> dec_val v cs"
proof (induction cs arbitrary: v)
  case (Cons c cs)
  from Cons [of "v * 10 + digit_val c"] show ?case by simp
qed simp

lemma is_digit_unat: "is_digit c \<longleftrightarrow> 48 \<le> unat c \<and> unat c \<le> 57"
  by (simp add: is_digit_def word_le_nat_alt)

lemma digit_val_unat: "is_digit c \<Longrightarrow> digit_val c = unat c - 48"
  by (simp add: is_digit_def digit_val_def unat_sub)

lemma digit_val_less: "is_digit c \<Longrightarrow> digit_val c < 10"
  by (auto simp: digit_val_unat is_digit_unat)

lemma digit_of_nat: "d < 10 \<Longrightarrow> is_digit (48 + word_of_nat d) \<and> digit_val (48 + word_of_nat d) = d"
  by (simp add: is_digit_unat digit_val_def unat_word_ariths unat_of_nat)

lemma digit_roundtrip: "is_digit c \<Longrightarrow> 48 + word_of_nat (digit_val c) = c"
  by (simp add: digit_val_def)

lemma digit_nonzero: "is_digit c \<Longrightarrow> 0 < digit_val c \<longleftrightarrow> 49 \<le> c"
  by (simp add: digit_val_unat is_digit_unat word_le_nat_alt) arith

lemma is_digit_49: "49 \<le> c \<and> c \<le> 57 \<longleftrightarrow> is_digit c \<and> 0 < digit_val c"
  by (auto simp: digit_val_unat is_digit_unat word_le_nat_alt)

lemma digits_ne [simp]: "digits n \<noteq> []"
  by (subst digits.simps) simp

lemma dec_val_digits [simp]: "dec_val 0 (digits n) = n"
proof (induction n rule: digits.induct)
  case (1 n)
  then show ?case by (subst digits.simps) (simp add: digit_of_nat)
qed

lemma digits_all_digit: "list_all is_digit (digits n)"
proof (induction n rule: digits.induct)
  case (1 n)
  then show ?case by (subst digits.simps) (simp add: digit_of_nat)
qed

lemma digits_no_minus: "digits n \<noteq> 45 # cs"
  using digits_all_digit [of n] by (auto simp: is_digit_def)

lemmas digits_shape [simp] = digits_ne [symmetric] digits_no_minus digits_no_minus [symmetric]

lemma digits_hd: "0 < n \<Longrightarrow> 0 < digit_val (hd (digits n))"
proof (induction n rule: digits.induct)
  case (1 n)
  show ?case
  proof (cases "n < 10")
    case True
    with 1 show ?thesis by (subst digits.simps) (simp add: digit_of_nat)
  next
    case False
    with 1 have "0 < digit_val (hd (digits (n div 10)))" by simp
    with False show ?thesis by (subst digits.simps) simp
  qed
qed

lemma digits_dec_val:
  "cs \<noteq> [] \<Longrightarrow> list_all is_digit cs \<Longrightarrow> 0 < digit_val (hd cs) \<Longrightarrow> digits (dec_val 0 cs) = cs"
proof (induction cs rule: rev_induct)
  case (snoc c cs)
  show ?case
  proof (cases "cs = []")
    case True
    with snoc.prems show ?thesis
      by (subst digits.simps) (simp add: digit_val_less digit_roundtrip)
  next
    case False
    with snoc have IH: "digits (dec_val 0 cs) = cs" by simp
    have "0 < dec_val 0 cs"
    proof -
      obtain d ds where cs: "cs = d # ds" using False by (cases cs) auto
      with snoc.prems dec_val_ge [of "digit_val d" ds] show ?thesis by simp
    qed
    moreover have "is_digit c" using snoc.prems by simp
    ultimately show ?thesis
      by (subst digits.simps) (simp add: IH digit_val_less digit_roundtrip div_add1_eq)
  qed
qed simp

lemma length_digits_le: "n < 10 ^ k \<Longrightarrow> 0 < k \<Longrightarrow> length (digits n) \<le> k"
proof (induction n arbitrary: k rule: digits.induct)
  case (1 n)
  show ?case
  proof (cases "n < 10")
    case True
    with 1 show ?thesis by (subst digits.simps) simp
  next
    case False
    then obtain j where k: "k = Suc j" "0 < j"
      using 1 by (cases k; cases "k - 1") auto
    with 1 False have "length (digits (n div 10)) \<le> j"
      by (intro "1.IH") (auto simp: div_less_iff_less_mult mult.commute)
    with False k show ?thesis by (subst digits.simps) simp
  qed
qed

subsection \<open>What the parsers accept\<close>

lemma string2ll_loop_iff:
  "v \<le> U64_MAX \<Longrightarrow>
   string2ll_loop v cs = Some r \<longleftrightarrow> list_all is_digit cs \<and> r = dec_val v cs \<and> r \<le> U64_MAX"
proof (induction cs arbitrary: v)
  case (Cons c cs)
  have big: "\<not> v * 10 + digit_val c \<le> U64_MAX \<Longrightarrow> \<not> dec_val (v * 10 + digit_val c) cs \<le> U64_MAX"
    using dec_val_ge [of "v * 10 + digit_val c" cs] by linarith
  have guard: "is_digit c \<Longrightarrow> (v > U64_MAX div 10 \<or> v * 10 > U64_MAX - digit_val c)
      \<longleftrightarrow> \<not> v * 10 + digit_val c \<le> U64_MAX"
    using digit_val_less [of c] by (auto simp: U64_MAX_def)
  show ?case using Cons big guard by (auto simp: Let_def)
qed auto

lemma string2ull_loop_iff:
  "v \<le> U64_MAX \<Longrightarrow>
   string2ull_loop v cs = Some r \<longleftrightarrow> list_all is_digit cs \<and> r = dec_val v cs \<and> r \<le> U64_MAX"
proof (induction cs arbitrary: v)
  case (Cons c cs)
  have "\<not> v * 10 + digit_val c \<le> U64_MAX \<Longrightarrow> \<not> dec_val (v * 10 + digit_val c) cs \<le> U64_MAX"
    using dec_val_ge [of "v * 10 + digit_val c" cs] by linarith
  with Cons show ?case
    by (auto simp: checked_mul_def checked_add_def U64_MAX_def bind_eq_Some_conv)
qed auto

lemma digits_eq_Cons:
  assumes "0 < n"
  shows "digits n = c # cs \<longleftrightarrow>
    is_digit c \<and> 0 < digit_val c \<and> list_all is_digit cs \<and> n = dec_val (digit_val c) cs"
proof
  assume eq: "digits n = c # cs"
  then show "is_digit c \<and> 0 < digit_val c \<and> list_all is_digit cs \<and> n = dec_val (digit_val c) cs"
    using digits_all_digit [of n] digits_hd [OF assms] dec_val_digits [of n] by simp
next
  assume "is_digit c \<and> 0 < digit_val c \<and> list_all is_digit cs \<and> n = dec_val (digit_val c) cs"
  then show "digits n = c # cs" using digits_dec_val [of "c # cs"] by simp
qed

lemma digits_0 [simp]: "digits 0 = [48]"
  by (subst digits.simps) simp

lemma first_digit_iff:
  assumes loop: "digit_val c \<le> U64_MAX \<Longrightarrow> lp = Some r \<longleftrightarrow>
    list_all is_digit cs \<and> r = dec_val (digit_val c) cs \<and> r \<le> U64_MAX"
  shows "((49 \<le> c \<and> c \<le> 57) \<and> lp = Some r) \<longleftrightarrow> 0 < r \<and> r \<le> U64_MAX \<and> digits r = c # cs"
proof (cases "is_digit c \<and> 0 < digit_val c")
  case True
  then have lp: "lp = Some r \<longleftrightarrow>
      list_all is_digit cs \<and> r = dec_val (digit_val c) cs \<and> r \<le> U64_MAX"
    using digit_val_less [of c] by (intro loop) (simp add: U64_MAX_def)
  have "0 < dec_val (digit_val c) cs" using True dec_val_ge [of "digit_val c" cs] by linarith
  with True lp show ?thesis unfolding is_digit_49 by (cases "0 < r") (simp_all add: digits_eq_Cons, blast)
next
  case False
  then show ?thesis unfolding is_digit_49 by (cases "0 < r") (auto simp: digits_eq_Cons)
qed

lemma string2ll_first_digit_iff:
  "((49 \<le> c \<and> c \<le> 57) \<and> string2ll_loop (digit_val c) cs = Some r) \<longleftrightarrow>
   0 < r \<and> r \<le> U64_MAX \<and> digits r = c # cs"
  by (intro first_digit_iff string2ll_loop_iff)

lemma string2ull_first_digit_iff:
  "((49 \<le> c \<and> c \<le> 57) \<and> string2ull_loop (digit_val c) cs = Some r) \<longleftrightarrow>
   0 < r \<and> r \<le> U64_MAX \<and> digits r = c # cs"
  by (intro first_digit_iff string2ull_loop_iff)

lemma string2ull_iff: "string2ull s = Some v \<longleftrightarrow> v \<le> U64_MAX \<and> s = digits v"
proof (cases s)
  case (Cons c cs)
  show ?thesis
  proof (cases "c = 48 \<and> cs = []")
    case True
    with Cons show ?thesis
      using string2ull_first_digit_iff [of 48 "[]" v] by (cases "v = 0") (auto simp: string2ull_def)
  next
    case False
    then have nz: "0 < v \<or> digits v \<noteq> c # cs" by (cases "v = 0") auto
    from False Cons have "string2ull s = Some v \<longleftrightarrow>
        (49 \<le> c \<and> c \<le> 57) \<and> string2ull_loop (digit_val c) cs = Some v"
      by (auto simp: string2ull_def)
    also have "\<dots> \<longleftrightarrow> 0 < v \<and> v \<le> U64_MAX \<and> digits v = c # cs"
      by (rule string2ull_first_digit_iff)
    finally show ?thesis using nz Cons by auto
  qed
qed (simp add: string2ull_def)

text \<open>The sign and range handling at the end of \<^verbatim>\<open>string2ll\<close>.\<close>

definition ll_of_digits :: "bool \<Rightarrow> nat \<Rightarrow> int option" where
  "ll_of_digits negative v =
     (if negative then (if v > 2 ^ 63 then None else Some (wrapping_neg (as_i64 v)))
      else (if v > 2 ^ 63 - 1 then None else Some (as_i64 v)))"

lemma ll_of_digits_iff:
  "0 < n \<Longrightarrow> ll_of_digits negative n = Some v \<longleftrightarrow>
   fits 8 v \<and> v = (if negative then - int n else int n)"
  by (auto simp: ll_of_digits_def wrapping_neg_def as_i64_def fits_def)

lemma string2ll_signed:
  "(c # cs \<noteq> [48]) \<Longrightarrow> c \<noteq> 45 \<Longrightarrow>
   string2ll (c # cs) = (if 49 \<le> c \<and> c \<le> 57 then
     Option.bind (string2ll_loop (digit_val c) cs) (ll_of_digits False) else None)"
  "string2ll (45 # c # cs) = (if 49 \<le> c \<and> c \<le> 57 then
     Option.bind (string2ll_loop (digit_val c) cs) (ll_of_digits True) else None)"
  by (auto simp: string2ll_def ll_of_digits_def Let_def nth_opt_def split: option.splits)

lemma string2ll_Some_iff: "string2ll s = Some v \<longleftrightarrow> fits 8 v \<and> s = decimal v"
proof -
  have ne: "decimal v \<noteq> []" by (simp add: decimal_def)
  have range: "fits 8 v \<Longrightarrow> nat (- v) \<le> U64_MAX \<and> nat v \<le> U64_MAX"
    by (auto simp: fits_def U64_MAX_def)
  consider "s = []" | "s = [48]" | "s = [45]" | c cs where "s = 45 # c # cs"
    | c cs where "s = c # cs" "c # cs \<noteq> [48]" "c \<noteq> 45"
    by (metis neq_Nil_conv)
  then show ?thesis
  proof cases
    case 1
    with ne show ?thesis by (auto simp: string2ll_def)
  next
    case 2
    have "digits n \<noteq> [48]" if "0 < n" for n
      using that by (simp add: digits_eq_Cons digit_val_def)
    from this [of "nat v"] have "decimal v = [48] \<longleftrightarrow> v = 0"
      by (cases v "0 :: int" rule: linorder_cases) (auto simp: decimal_def)
    with 2 show ?thesis by (auto simp: string2ll_def fits_def)
  next
    case 3
    then show ?thesis by (auto simp: string2ll_def decimal_def)
  next
    case (4 c cs)
    have "string2ll s = Some v \<longleftrightarrow>
        (\<exists>n. ((49 \<le> c \<and> c \<le> 57) \<and> string2ll_loop (digit_val c) cs = Some n) \<and> ll_of_digits True n = Some v)"
      unfolding 4 string2ll_signed(2) by (auto simp: bind_eq_Some_conv)
    also have "\<dots> \<longleftrightarrow> (\<exists>n > 0. n \<le> U64_MAX \<and> digits n = c # cs \<and> fits 8 v \<and> v = - int n)"
      unfolding string2ll_first_digit_iff using ll_of_digits_iff [of _ True v] by auto
    also have "\<dots> \<longleftrightarrow> fits 8 v \<and> v < 0 \<and> digits (nat (- v)) = c # cs"
      using range by (auto intro!: exI [of _ "nat (- v)"])
    also have "\<dots> \<longleftrightarrow> fits 8 v \<and> s = decimal v"
      using 4 by (auto simp: decimal_def)
    finally show ?thesis .
  next
    case (5 c cs)
    have "string2ll s = Some v \<longleftrightarrow>
        (\<exists>n. ((49 \<le> c \<and> c \<le> 57) \<and> string2ll_loop (digit_val c) cs = Some n) \<and> ll_of_digits False n = Some v)"
      unfolding 5(1) string2ll_signed(1) [OF 5(2,3)] by (auto simp: bind_eq_Some_conv)
    also have "\<dots> \<longleftrightarrow> (\<exists>n > 0. n \<le> U64_MAX \<and> digits n = c # cs \<and> fits 8 v \<and> v = int n)"
      unfolding string2ll_first_digit_iff using ll_of_digits_iff [of _ False v] by auto
    also have "\<dots> \<longleftrightarrow> fits 8 v \<and> 0 < v \<and> digits (nat v) = c # cs"
      using range by (metis nat_int of_nat_0_less_iff zero_less_imp_eq_int)
    also have "\<dots> \<longleftrightarrow> fits 8 v \<and> s = decimal v"
      using 5 by (cases "v = 0") (auto simp: decimal_def)
    finally show ?thesis .
  qed
qed

lemma length_decimal: "fits 8 v \<Longrightarrow> length (decimal v) \<le> 20"
proof -
  assume v: "fits 8 v"
  have "nat (- v) < 10 ^ 19" "nat v < 10 ^ 19" using v by (auto simp: fits_def)
  then have "length (digits (nat (- v))) \<le> 19" "length (digits (nat v)) \<le> 19"
    by (auto intro: length_digits_le)
  then show ?thesis by (simp add: decimal_def)
qed

subsection \<open>Properties\<close>

text \<open>C40. \<^verbatim>\<open>string2ll\<close> accepts exactly the canonical decimal forms of the 64-bit signed integers and
  returns the number they denote: no leading zeros, no sign but a single minus, no empty string,
  no \<^verbatim>\<open>-0\<close>, no overflow (the most negative number included).\<close>

theorem string2ll_iff: "string2ll s = Some v \<longleftrightarrow> fits 8 v \<and> s = decimal v"
  by (rule string2ll_Some_iff)

text \<open>\<^verbatim>\<open>string2ull\<close> accepts exactly the canonical decimal forms of the 64-bit unsigned
  integers.\<close>

theorem string2ull_accepts: "string2ull s = Some v \<longleftrightarrow> v < 2 ^ 64 \<and> s = digits v"
  using string2ull_iff [of s v] by (auto simp: U64_MAX_def)

text \<open>Printing with \<^verbatim>\<open>ll2string\<close> into a buffer of \<^verbatim>\<open>LL_STR_SIZE\<close> bytes never truncates, and
  what it wrote parses back to the same number.\<close>

theorem ll2string_roundtrip:
  assumes "itoa_spec itoa" and "fits 8 v" and "LL_STR_SIZE \<le> length buf"
  shows "(case ll2string itoa buf v of (n, buf') \<Rightarrow>
    string2ll (take n buf') = Some v \<and> length buf' = length buf \<and> drop n buf' = drop n buf)"
proof -
  have "length (decimal v) \<le> length buf"
    using length_decimal [OF assms(2)] assms(3) by (simp add: LL_STR_SIZE_def)
  with assms show ?thesis
    by (simp add: ll2string_def itoa_spec_def Let_def slice_put_def string2ll_Some_iff min_def)
qed

theorem ll2string_roundtrip_witness:
  "case ll2string decimal (replicate 21 0) (- 9223372036854775808) of (n, buf') \<Rightarrow>
     string2ll (take n buf') = Some (- 9223372036854775808)"
  using ll2string_roundtrip [OF itoa_spec_decimal, of "- 9223372036854775808" "replicate 21 0"]
  by (auto simp: fits_def LL_STR_SIZE_def split: prod.splits)

end
