(* ===== verification/Intset.thy ===== *)
theory Intset
  imports Prelude
begin

text \<open>
  The intset of \<^verbatim>\<open>src/src/encoding/intset.rs\<close>: one byte buffer holding a 4-byte element width,
  a 4-byte element count and the elements, little-endian and strictly ascending. The operations
  below work on the bytes, as the source does. \<open>intset_rep s enc xs\<close> says that the buffer of \<open>s\<close>
  is the serialisation of the ascending list \<open>xs\<close> at width \<open>enc\<close>; the lemmas show that every
  operation keeps a buffer of that form, that none of them panics on one, and what it does to
  \<open>xs\<close>. The client contract is the locale \<open>int_set\<close>, interpreted at the end on the byte-level
  operations.
\<close>

subsection \<open>Operations\<close>

definition ENC_INT16 :: nat where "ENC_INT16 = 2"

definition ENC_INT32 :: nat where "ENC_INT32 = 4"

definition ENC_INT64 :: nat where "ENC_INT64 = 8"

definition HDR :: nat where "HDR = 8"

definition value_encoding :: "int \<Rightarrow> nat" where
  "value_encoding v =
     (if v < - (2 ^ 31) \<or> v > 2 ^ 31 - 1 then ENC_INT64
      else if v < - (2 ^ 15) \<or> v > 2 ^ 15 - 1 then ENC_INT32
      else ENC_INT16)"

record intset =
  is_buf :: bytes

definition intset_new :: intset where
  "intset_new = \<lparr>is_buf = le_bytes 4 (int ENC_INT16) @ le_bytes 4 0\<rparr>"

definition intset_encoding :: "intset \<Rightarrow> nat" where
  "intset_encoding s = (case slice_get (is_buf s) 0 4 of Some b \<Rightarrow> nat (le_val b) | None \<Rightarrow> ENC_INT16)"

definition intset_len :: "intset \<Rightarrow> nat" where
  "intset_len s = (case slice_get (is_buf s) 4 8 of Some b \<Rightarrow> nat (le_val b) | None \<Rightarrow> 0)"

definition intset_is_empty :: "intset \<Rightarrow> bool" where
  "intset_is_empty s \<longleftrightarrow> intset_len s = 0"

definition intset_set_len :: "intset \<Rightarrow> nat \<Rightarrow> intset" where
  "intset_set_len s n = s\<lparr>is_buf := slice_put (is_buf s) 4 (le_bytes 4 (int n))\<rparr>"

definition intset_set_encoding :: "intset \<Rightarrow> nat \<Rightarrow> intset" where
  "intset_set_encoding s enc = s\<lparr>is_buf := slice_put (is_buf s) 0 (le_bytes 4 (int enc))\<rparr>"

text \<open>The last arm of the width match reads eight bytes; a width other than 2, 4 or 8 never
  reaches it, since \<open>intset_rep\<close> is an invariant.\<close>

definition intset_get :: "intset \<Rightarrow> nat \<Rightarrow> int option" where
  "intset_get s index =
     (let enc = intset_encoding s in do {
        m \<leftarrow> checked_mul index enc;
        at \<leftarrow> checked_add HDR m;
        to \<leftarrow> checked_add at enc;
        b \<leftarrow> slice_get (is_buf s) at to;
        Some (if enc = 2 then sle_val (take 2 b)
              else if enc = 4 then sle_val (take 4 b)
              else sle_val (take 8 b)) })"

definition push_le :: "int \<Rightarrow> nat \<Rightarrow> bytes" where
  "push_le v width = (if width = 2 then le_bytes 2 v else if width = 4 then le_bytes 4 v else le_bytes 8 v)"

definition intset_put :: "intset \<Rightarrow> nat \<Rightarrow> int \<Rightarrow> intset" where
  "intset_put s index v =
     (let enc = intset_encoding s; at = HDR + index * enc
      in if at + enc \<le> length (is_buf s)
         then s\<lparr>is_buf := slice_put (is_buf s) at (push_le v enc)\<rparr> else s)"

text \<open>\<^verbatim>\<open>Result<usize, usize>\<close>: \<open>Inr\<close> for \<^verbatim>\<open>Ok(index)\<close>, \<open>Inl\<close> for \<^verbatim>\<open>Err(insert_position)\<close>.\<close>

function search_loop :: "intset \<Rightarrow> int \<Rightarrow> nat \<Rightarrow> nat \<Rightarrow> nat + nat" where
  "search_loop s v lo hi =
     (if lo < hi then
        (let mid = lo + (hi - lo) div 2
         in case intset_get s mid of
              Some cur \<Rightarrow> if cur < v then search_loop s v (mid + 1) hi
                          else if cur > v then search_loop s v lo mid
                          else Inr mid
            | None \<Rightarrow> Inl lo)
      else Inl lo)"
  by pat_completeness auto
termination
  by (relation "measure (\<lambda>(s, v, lo, hi). hi - lo)") auto

declare search_loop.simps [simp del]

definition intset_search :: "intset \<Rightarrow> int \<Rightarrow> nat + nat" where
  "intset_search s v =
     (let n = intset_len s in
      if n = 0 then Inl 0
      else if (case intset_get s (n - 1) of Some mx \<Rightarrow> v > mx | None \<Rightarrow> False) then Inl n
      else if (case intset_get s 0 of Some mn \<Rightarrow> v < mn | None \<Rightarrow> False) then Inl 0
      else search_loop s v 0 n)"

definition intset_contains :: "intset \<Rightarrow> int \<Rightarrow> bool" where
  "intset_contains s v = (case intset_search s v of Inr _ \<Rightarrow> True | Inl _ \<Rightarrow> False)"

text \<open>Mutating operations return \<open>None\<close> where the source would panic
  (\<^verbatim>\<open>copy_within\<close> out of range, subtraction below zero).\<close>

definition insert_at :: "intset \<Rightarrow> nat \<Rightarrow> int \<Rightarrow> intset option" where
  "insert_at s pos v =
     (let enc = intset_encoding s; n = intset_len s; old = length (is_buf s);
          buf = vec_resize (is_buf s) (old + enc); at = HDR + pos * enc in do {
        buf \<leftarrow> copy_within buf at old (at + enc);
        Some (intset_put (intset_set_len (s\<lparr>is_buf := buf\<rparr>) (n + 1)) pos v) })"

definition upgrade_and_add :: "intset \<Rightarrow> int \<Rightarrow> nat \<Rightarrow> intset" where
  "upgrade_and_add s v new_enc =
     (let n = intset_len s; prepend = (v < 0);
          out = le_bytes 4 (int new_enc) @ le_bytes 4 (int (n + 1))
            @ (if prepend then push_le v new_enc else [])
            @ concat (map (\<lambda>i. push_le (case intset_get s i of Some x \<Rightarrow> x | None \<Rightarrow> 0) new_enc) [0..<n])
            @ (if \<not> prepend then push_le v new_enc else [])
      in intset_set_encoding (s\<lparr>is_buf := out\<rparr>) new_enc)"

definition intset_add :: "intset \<Rightarrow> int \<Rightarrow> (bool \<times> intset) option" where
  "intset_add s v =
     (let need = value_encoding v in
      if need > intset_encoding s then Some (True, upgrade_and_add s v need)
      else (case intset_search s v of
              Inr _ \<Rightarrow> Some (False, s)
            | Inl pos \<Rightarrow> map_option (\<lambda>s'. (True, s')) (insert_at s pos v)))"

definition intset_remove :: "intset \<Rightarrow> int \<Rightarrow> (bool \<times> intset) option" where
  "intset_remove s v =
     (if value_encoding v > intset_encoding s then Some (False, s)
      else (case intset_search s v of
              Inl _ \<Rightarrow> Some (False, s)
            | Inr pos \<Rightarrow>
                (let enc = intset_encoding s; n = intset_len s;
                     from = HDR + (pos + 1) * enc; to = HDR + pos * enc;
                     end = length (is_buf s) in do {
                   buf \<leftarrow> copy_within (is_buf s) from end to;
                   keep \<leftarrow> checked_sub end enc;
                   n' \<leftarrow> checked_sub n 1;
                   Some (True, intset_set_len (s\<lparr>is_buf := take keep buf\<rparr>) n') })))"

definition intset_clear :: "intset \<Rightarrow> intset" where
  "intset_clear s = intset_set_len (s\<lparr>is_buf := take HDR (is_buf s)\<rparr>) 0"

definition intset_min :: "intset \<Rightarrow> int option" where
  "intset_min s = intset_get s 0"

definition intset_max :: "intset \<Rightarrow> int option" where
  "intset_max s = do { i \<leftarrow> checked_sub (intset_len s) 1; intset_get s i }"

text \<open>\<open>below\<close> is the random index \<^verbatim>\<open>util::rand::below\<close> draws.\<close>

definition intset_random :: "(nat \<Rightarrow> nat) \<Rightarrow> intset \<Rightarrow> int option" where
  "intset_random below s = (let n = intset_len s in if n = 0 then None else intset_get s (below n))"

fun from_iter_loop :: "intset \<Rightarrow> int list \<Rightarrow> intset option" where
  "from_iter_loop s [] = Some s"
| "from_iter_loop s (v # items) = do { (_, s') \<leftarrow> intset_add s v; from_iter_loop s' items }"

definition from_iter_i64 :: "int list \<Rightarrow> intset option" where
  "from_iter_i64 items = from_iter_loop intset_new items"

fun ascending_from :: "intset \<Rightarrow> int option \<Rightarrow> nat list \<Rightarrow> bool" where
  "ascending_from s prev [] = True"
| "ascending_from s prev (i # is) =
     (case intset_get s i of
        None \<Rightarrow> False
      | Some v \<Rightarrow> (case prev of Some p \<Rightarrow> if v \<le> p then False else ascending_from s (Some v) is
                               | None \<Rightarrow> ascending_from s (Some v) is))"

definition intset_from_bytes :: "bytes \<Rightarrow> intset option" where
  "intset_from_bytes buf = do {
     h \<leftarrow> slice_get buf 0 HDR;
     let enc = nat (le_val (take 4 h));
     if enc \<noteq> ENC_INT16 \<and> enc \<noteq> ENC_INT32 \<and> enc \<noteq> ENC_INT64 then None
     else do {
       let len = nat (le_val (drop 4 h));
       m \<leftarrow> checked_mul len enc;
       want \<leftarrow> checked_add m HDR;
       if want \<noteq> length buf then None
       else (let s = \<lparr>is_buf = buf\<rparr> in if ascending_from s None [0..<len] then Some s else None) } }"

text \<open>The double-ended iterator: the window \<open>i..j\<close> over the elements.\<close>

record intset_iter =
  it_i :: nat
  it_j :: nat

definition intset_iter_start :: "intset \<Rightarrow> intset_iter" where
  "intset_iter_start s = \<lparr>it_i = 0, it_j = intset_len s\<rparr>"

definition iter_next :: "intset \<Rightarrow> intset_iter \<Rightarrow> int option \<times> intset_iter" where
  "iter_next s it =
     (if it_i it \<ge> it_j it then (None, it)
      else (case intset_get s (it_i it) of
              None \<Rightarrow> (None, it)
            | Some v \<Rightarrow> (Some v, it\<lparr>it_i := it_i it + 1\<rparr>)))"

definition iter_next_back :: "intset \<Rightarrow> intset_iter \<Rightarrow> int option \<times> intset_iter" where
  "iter_next_back s it =
     (if it_i it \<ge> it_j it then (None, it)
      else (let j = it_j it - 1 in (intset_get s j, it\<lparr>it_j := j\<rparr>)))"

subsection \<open>The representation\<close>

definition intset_rep :: "intset \<Rightarrow> nat \<Rightarrow> int list \<Rightarrow> bool" where
  "intset_rep s enc xs \<longleftrightarrow>
     is_buf s = le_bytes 4 (int enc) @ le_bytes 4 (int (length xs)) @ concat (map (le_bytes enc) xs)
     \<and> enc \<in> {2, 4, 8} \<and> sorted_wrt (<) xs \<and> (\<forall>x \<in> set xs. fits enc x) \<and> length xs < 2 ^ 32"

definition intset_elems :: "intset \<Rightarrow> int list" where
  "intset_elems s = map (\<lambda>i. the (intset_get s i)) [0..<intset_len s]"

definition intset_inv :: "intset \<Rightarrow> bool" where
  "intset_inv s \<longleftrightarrow> intset_rep s (intset_encoding s) (intset_elems s)"

lemma length_concat_le_bytes: "length (concat (map (le_bytes w) xs)) = length xs * w"
  by (induction xs) auto

lemma concat_le_bytes_split:
  "i < length xs \<Longrightarrow> concat (map (le_bytes w) xs) =
   concat (map (le_bytes w) (take i xs)) @ le_bytes w (xs ! i) @ concat (map (le_bytes w) (drop (Suc i) xs))"
  by (subst id_take_nth_drop [of i xs]) simp_all

lemma push_le_eq: "enc \<in> {2, 4, 8} \<Longrightarrow> push_le v enc = le_bytes enc v"
  by (auto simp: push_le_def)

lemma value_encoding_fits: "fits 8 v \<Longrightarrow> fits (value_encoding v) v"
  by (auto simp: value_encoding_def fits_def ENC_INT16_def ENC_INT32_def ENC_INT64_def)

lemma value_encoding_least: "w \<in> {2, 4, 8} \<Longrightarrow> value_encoding v \<le> w \<longleftrightarrow> fits w v \<or> w = 8"
  by (auto simp: value_encoding_def fits_def ENC_INT16_def ENC_INT32_def ENC_INT64_def)

lemma value_encoding_cases: "value_encoding v \<in> {2, 4, 8}"
  by (auto simp: value_encoding_def ENC_INT16_def ENC_INT32_def ENC_INT64_def)

lemma rep_encoding:
  assumes rep: "intset_rep s enc xs" shows "intset_encoding s = enc"
proof -
  have "le_val (le_bytes 4 (int enc)) = int enc"
    using rep by (intro le_val_le_bytes_small) (auto simp: intset_rep_def)
  moreover have "slice_get (is_buf s) 0 4 = Some (le_bytes 4 (int enc))"
    using rep by (simp add: intset_rep_def slice_get_def)
  ultimately show ?thesis by (simp add: intset_encoding_def)
qed

lemma rep_len:
  assumes rep: "intset_rep s enc xs" shows "intset_len s = length xs"
proof -
  have "le_val (le_bytes 4 (int (length xs))) = int (length xs)"
    using rep by (intro le_val_le_bytes_small) (auto simp: intset_rep_def)
  moreover have "slice_get (is_buf s) 4 8 = Some (le_bytes 4 (int (length xs)))"
    using rep unfolding intset_rep_def by (auto intro!: slice_get_midI)
  ultimately show ?thesis by (simp add: intset_len_def)
qed

lemma rep_length_buf: "intset_rep s enc xs \<Longrightarrow> length (is_buf s) = 8 + length xs * enc"
  by (simp add: intset_rep_def length_concat_le_bytes)

lemma rep_get:
  assumes rep: "intset_rep s enc xs" shows "intset_get s i = nth_opt xs i"
proof (cases "i < length xs")
  case True
  have enc: "enc \<in> {2, 4, 8}" and n: "length xs < 2 ^ 32" and fit: "fits enc (xs ! i)"
    using rep True by (auto simp: intset_rep_def)
  have "8 + Suc i * enc \<le> 8 + 2 ^ 32 * 8"
    using True n enc by (intro add_mono mult_mono) auto
  then have small: "8 + i * enc + enc < 2 ^ 64" by simp
  let ?pre = "le_bytes 4 (int enc) @ le_bytes 4 (int (length xs)) @ concat (map (le_bytes enc) (take i xs))"
  have "is_buf s = ?pre @ le_bytes enc (xs ! i) @ concat (map (le_bytes enc) (drop (Suc i) xs))"
    using rep True by (simp add: intset_rep_def concat_le_bytes_split)
  moreover have "length ?pre = 8 + i * enc"
    using True by (simp add: length_concat_le_bytes)
  ultimately have "slice_get (is_buf s) (8 + i * enc) (8 + i * enc + enc) = Some (le_bytes enc (xs ! i))"
    using slice_get_midI [of "8 + i * enc" ?pre "8 + i * enc + enc" "le_bytes enc (xs ! i)"
        "concat (map (le_bytes enc) (drop (Suc i) xs))"] by (simp only: length_le_bytes)
  moreover have "sle_val (le_bytes enc (xs ! i)) = xs ! i"
    using fit by (rule sle_val_le_bytes)
  ultimately show ?thesis
    using True small enc
    by (auto simp: intset_get_def rep_encoding [OF rep] checked_mul_def checked_add_def HDR_def nth_opt_def)
next
  case False
  have enc: "2 \<le> enc" using rep by (auto simp: intset_rep_def)
  have "slice_get (is_buf s) (8 + i * enc) (8 + i * enc + enc) = None"
  proof -
    have "length xs * enc < i * enc + enc"
      using False enc by (metis add.commute mult_Suc mult_le_mono1 not_less less_Suc_eq_le
          mult_less_cancel2 zero_less_numeral less_le_trans)
    then show ?thesis by (simp add: slice_get_def rep_length_buf [OF rep])
  qed
  with False show ?thesis
    by (simp add: intset_get_def rep_encoding [OF rep] checked_mul_def checked_add_def HDR_def nth_opt_def)
qed

lemma rep_elems: "intset_rep s enc xs \<Longrightarrow> intset_elems s = xs"
  by (auto simp: intset_elems_def rep_len rep_get nth_opt_def intro: nth_equalityI)

lemma rep_inv: "intset_rep s enc xs \<Longrightarrow> intset_inv s"
  by (simp add: intset_inv_def rep_elems rep_encoding)

lemmas rep_reads = rep_encoding rep_len rep_get rep_elems

lemma rep_new: "intset_rep intset_new 2 []"
  by (simp add: intset_rep_def intset_new_def ENC_INT16_def)

subsection \<open>Binary search\<close>

definition splits_at :: "int list \<Rightarrow> int \<Rightarrow> nat \<Rightarrow> bool" where
  "splits_at xs v p \<longleftrightarrow> p \<le> length xs \<and> (\<forall>x \<in> set (take p xs). x < v) \<and> (\<forall>x \<in> set (drop p xs). v < x)"

lemma splits_at_alt:
  "splits_at xs v p \<longleftrightarrow> p \<le> length xs \<and> (\<forall>j < p. xs ! j < v) \<and> (\<forall>j. p \<le> j \<and> j < length xs \<longrightarrow> v < xs ! j)"
proof -
  have "(\<forall>x \<in> set (drop p xs). v < x) \<longleftrightarrow> (\<forall>j. p \<le> j \<and> j < length xs \<longrightarrow> v < xs ! j)" if "p \<le> length xs"
  proof safe
    fix j assume "\<forall>x \<in> set (drop p xs). v < x" "p \<le> j" "j < length xs"
    moreover have "drop p xs ! (j - p) = xs ! j" "j - p < length (drop p xs)"
      using \<open>p \<le> j\<close> \<open>j < length xs\<close> that by auto
    ultimately show "v < xs ! j" by (metis nth_mem)
  next
    fix x assume "\<forall>j. p \<le> j \<and> j < length xs \<longrightarrow> v < xs ! j" "x \<in> set (drop p xs)"
    then show "v < x" by (auto simp: in_set_conv_nth)
  qed
  moreover have "(\<forall>x \<in> set (take p xs). x < v) \<longleftrightarrow> (\<forall>j < p. xs ! j < v)" if "p \<le> length xs"
    using that by (auto simp: all_set_conv_all_nth)
  ultimately show ?thesis by (auto simp: splits_at_def)
qed

lemma splits_at_notin: "splits_at xs v p \<Longrightarrow> v \<notin> set xs"
  by (metis append_take_drop_id less_irrefl set_append splits_at_def Un_iff)

lemma search_loop_correct:
  "intset_rep s enc xs \<Longrightarrow> lo \<le> hi \<Longrightarrow> hi \<le> length xs \<Longrightarrow> (\<forall>j < lo. xs ! j < v) \<Longrightarrow>
   (\<forall>j. hi \<le> j \<and> j < length xs \<longrightarrow> v < xs ! j) \<Longrightarrow>
   (case search_loop s v lo hi of Inr i \<Rightarrow> i < length xs \<and> xs ! i = v | Inl p \<Rightarrow> splits_at xs v p)"
proof (induction s v lo hi rule: search_loop.induct)
  case (1 s v lo hi)
  note rep = 1(3)
  have mono: "i < j \<Longrightarrow> j < length xs \<Longrightarrow> xs ! i < xs ! j" for i j
    using rep by (auto simp: intset_rep_def sorted_wrt_iff_nth_less)
  show ?case
  proof (cases "lo < hi")
    case False
    with 1(4-) show ?thesis by (subst search_loop.simps) (auto simp: splits_at_alt)
  next
    case True
    define mid where "mid = lo + (hi - lo) div 2"
    have mid: "lo \<le> mid" "mid < hi" "mid < length xs" using True 1(5) by (auto simp: mid_def)
    have get: "intset_get s mid = Some (xs ! mid)"
      using rep mid by (simp add: rep_get)
    have unfold: "search_loop s v lo hi =
        (if xs ! mid < v then search_loop s v (mid + 1) hi
         else if xs ! mid > v then search_loop s v lo mid else Inr mid)"
      using True get by (subst search_loop.simps) (simp add: mid_def [symmetric] Let_def)
    consider "xs ! mid < v" | "v < xs ! mid" | "xs ! mid = v" by linarith
    then show ?thesis
    proof cases
      case 1
      have "\<forall>j < mid + 1. xs ! j < v" using 1 mid mono by (metis less_Suc_eq Suc_eq_plus1 less_trans)
      then show ?thesis
        using "1.IH"(1) [OF True mid_def get 1 rep] "1.prems" mid by (simp add: unfold 1)
    next
      case 2
      have "\<forall>j. mid \<le> j \<and> j < length xs \<longrightarrow> v < xs ! j"
        using 2 mono by (metis le_neq_implies_less less_trans)
      then show ?thesis
        using "1.IH"(2) [OF True mid_def get _ 2 rep] "1.prems" mid 2
        by (auto simp: unfold)
    next
      case 3
      then show ?thesis using mid by (simp add: unfold)
    qed
  qed
qed

lemma search_correct:
  assumes rep: "intset_rep s enc xs"
  shows "case intset_search s v of Inr i \<Rightarrow> i < length xs \<and> xs ! i = v | Inl p \<Rightarrow> splits_at xs v p"
proof (cases "xs = []")
  case True
  then show ?thesis using rep by (simp add: intset_search_def rep_len splits_at_def)
next
  case False
  then have get: "intset_get s (length xs - 1) = Some (last xs)" "intset_get s 0 = Some (hd xs)"
    using rep by (auto simp: rep_get last_conv_nth hd_conv_nth)
  have sorted: "sorted_wrt (<) xs" using rep by (simp add: intset_rep_def)
  have le_last: "x \<le> last xs" if "x \<in> set xs" for x
    using sorted False that by (metis append_butlast_last_id in_set_conv_decomp_last le_less
        list.set_intros(1) set_ConsD sorted_wrt_append Un_iff set_append empty_iff list.set(1))
  have hd_le: "hd xs \<le> x" if "x \<in> set xs" for x
    using sorted False that by (cases xs) auto
  consider "last xs < v" | "v < hd xs" "\<not> last xs < v" | "\<not> last xs < v" "\<not> v < hd xs" by blast
  then show ?thesis
  proof cases
    case 1
    then have "\<forall>x \<in> set xs. x < v" using le_last by force
    with 1 False get show ?thesis
      by (simp add: intset_search_def rep_len [OF rep] splits_at_def)
  next
    case 2
    then have "\<forall>x \<in> set xs. v < x" using hd_le by force
    with 2 False get show ?thesis
      by (simp add: intset_search_def rep_len [OF rep] splits_at_def)
  next
    case 3
    with False get have "intset_search s v = search_loop s v 0 (length xs)"
      by (simp add: intset_search_def rep_len [OF rep])
    then show ?thesis using search_loop_correct [OF rep, of 0 "length xs" v] by simp
  qed
qed

lemma contains_correct: "intset_rep s enc xs \<Longrightarrow> intset_contains s v \<longleftrightarrow> v \<in> set xs"
  using search_correct [of s enc xs v] splits_at_notin [of xs v]
  by (auto simp: intset_contains_def split: sum.splits)

subsection \<open>Mutation\<close>

lemma encoding_of_prefix:
  "is_buf s = le_bytes 4 (int enc) @ r \<Longrightarrow> enc \<in> {2, 4, 8} \<Longrightarrow> intset_encoding s = enc"
  by (auto simp: intset_encoding_def slice_get_def le_val_le_bytes)

lemma set_len_buf:
  "is_buf s = le_bytes 4 a @ le_bytes 4 b @ r \<Longrightarrow>
   is_buf (intset_set_len s n) = le_bytes 4 a @ le_bytes 4 (int n) @ r"
  by (auto simp: intset_set_len_def intro!: slice_put_midI)

lemma put_buf:
  assumes "is_buf s = le_bytes 4 (int enc) @ le_bytes 4 b @ A @ J @ B" and "enc \<in> {2, 4, 8}"
    and "length A = i * enc" and "length J = enc"
  shows "is_buf (intset_put s i v) = le_bytes 4 (int enc) @ le_bytes 4 b @ A @ le_bytes enc v @ B"
proof -
  let ?P = "le_bytes 4 (int enc) @ le_bytes 4 b @ A"
  have "slice_put (?P @ J @ B) (8 + i * enc) (le_bytes enc v) = ?P @ le_bytes enc v @ B"
    using assms by (intro slice_put_midI) auto
  then show ?thesis
    using assms encoding_of_prefix [of s enc "le_bytes 4 b @ A @ J @ B"]
    by (simp add: intset_put_def HDR_def Let_def push_le_eq)
qed

lemma sorted_insert_at: "sorted_wrt (<) xs \<Longrightarrow> splits_at xs v p \<Longrightarrow> sorted_wrt (<) (take p xs @ v # drop p xs)"
proof -
  assume a: "sorted_wrt (<) xs" "splits_at xs v p"
  then have "sorted_wrt (<) (take p xs @ drop p xs)" by simp
  with a show ?thesis by (auto simp: splits_at_def sorted_wrt_append simp del: append_take_drop_id)
qed

lemma insert_at_rep:
  assumes rep: "intset_rep s enc xs" and p: "splits_at xs v p" and v: "fits enc v"
    and n: "length xs + 1 < 2 ^ 32"
  shows "\<exists>s'. insert_at s p v = Some s' \<and> intset_rep s' enc (take p xs @ v # drop p xs)"
proof -
  have enc: "enc \<in> {2, 4, 8}" using rep by (simp add: intset_rep_def)
  let ?A = "concat (map (le_bytes enc) (take p xs))" and ?B = "concat (map (le_bytes enc) (drop p xs))"
  let ?P = "le_bytes 4 (int enc) @ le_bytes 4 (int (length xs)) @ ?A"
  have pn: "p \<le> length xs" using p by (simp add: splits_at_def)
  have "concat (map (le_bytes enc) (take p xs @ drop p xs)) = ?A @ ?B" by (simp only: map_append concat_append)
  then have buf: "is_buf s = ?P @ ?B" using rep by (simp add: intset_rep_def)
  have lenA: "length ?A = p * enc" using pn by (simp add: length_concat_le_bytes)
  then have lenP: "length ?P = 8 + p * enc" by simp
  obtain J where J: "length J = enc"
    and cw: "copy_within (vec_resize (?P @ ?B) (length (?P @ ?B) + enc)) (length ?P) (length (?P @ ?B)) (length ?P + enc)
      = Some (?P @ J @ ?B)"
    using copy_within_open by blast
  let ?s2 = "intset_set_len (s\<lparr>is_buf := ?P @ J @ ?B\<rparr>) (length xs + 1)"
  have "is_buf ?s2 = le_bytes 4 (int enc) @ le_bytes 4 (int (length xs + 1)) @ ?A @ J @ ?B"
    by (rule set_len_buf) simp
  then have "is_buf (intset_put ?s2 p v) = le_bytes 4 (int enc) @ le_bytes 4 (int (length xs + 1)) @ ?A @ le_bytes enc v @ ?B"
    using enc lenA J by (rule put_buf)
  moreover have "sorted_wrt (<) (take p xs @ v # drop p xs)"
    using rep p by (intro sorted_insert_at) (auto simp: intset_rep_def)
  ultimately have "intset_rep (intset_put ?s2 p v) enc (take p xs @ v # drop p xs)"
    using rep enc v n pn by (auto simp: intset_rep_def dest: in_set_takeD in_set_dropD)
  moreover have "insert_at s p v = Some (intset_put ?s2 p v)"
    using cw unfolding insert_at_def rep_encoding [OF rep] rep_len [OF rep] HDR_def Let_def lenP [symmetric]
    by (simp only: buf bind.bind_lunit lenP)
  ultimately show ?thesis by blast
qed

lemma rep_blocks:
  assumes rep: "intset_rep s enc xs" and e: "e \<in> {2, 4, 8}"
  shows "concat (map (\<lambda>i. push_le (case intset_get s i of Some x \<Rightarrow> x | None \<Rightarrow> 0) e) [0..<intset_len s])
    = concat (map (le_bytes e) xs)"
proof -
  have "map (\<lambda>i. push_le (case intset_get s i of Some x \<Rightarrow> x | None \<Rightarrow> 0) e) [0..<length xs]
      = map (\<lambda>i. le_bytes e (xs ! i)) [0..<length xs]"
    by (rule map_cong) (simp_all add: rep_get [OF rep] nth_opt_def push_le_eq [OF e])
  also have "\<dots> = map (le_bytes e) xs" by (rule nth_equalityI) auto
  finally show ?thesis by (simp add: rep_len [OF rep])
qed

lemma upgrade_rep:
  assumes rep: "intset_rep s enc xs" and v: "fits 8 v" and need: "enc < value_encoding v"
    and n: "length xs + 1 < 2 ^ 32"
  shows "intset_rep (upgrade_and_add s v (value_encoding v)) (value_encoding v)
    (if v < 0 then v # xs else xs @ [v])"
proof -
  let ?e = "value_encoding v"
  have enc: "enc \<in> {2, 4, 8}" and fit: "\<forall>x \<in> set xs. fits enc x" and sorted: "sorted_wrt (<) xs"
    using rep by (auto simp: intset_rep_def)
  have e: "?e \<in> {2, 4, 8}" by (rule value_encoding_cases)
  have "\<not> fits enc v" using need value_encoding_least [OF enc, of v] by auto
  then have outside: "(if v < 0 then \<forall>x \<in> set xs. v < x else \<forall>x \<in> set xs. x < v)"
    using fit by (fastforce simp: fits_def)
  have fit_e: "\<forall>x \<in> set xs. fits ?e x" using fit need by (auto intro: fits_mono)
  have "is_buf (upgrade_and_add s v ?e) = le_bytes 4 (int ?e) @ le_bytes 4 (int (length xs + 1))
      @ concat (map (le_bytes ?e) (if v < 0 then v # xs else xs @ [v]))"
    using rep_blocks [OF rep e, unfolded push_le_eq [OF e] rep_len [OF rep]]
    unfolding upgrade_and_add_def Let_def rep_len [OF rep] push_le_eq [OF e]
    by (simp add: intset_set_encoding_def slice_put_def)
  then show ?thesis
    using e sorted outside fit_e n value_encoding_fits [OF v]
    by (auto simp: intset_rep_def sorted_wrt_append add.commute)
qed

lemma splits_at_outside:
  "\<forall>x \<in> set xs. v < x \<Longrightarrow> splits_at xs v 0" "\<forall>x \<in> set xs. x < v \<Longrightarrow> splits_at xs v (length xs)"
  by (simp_all add: splits_at_def)

lemma set_insert_at: "set (take p xs @ v # drop p xs) = insert v (set xs)"
  by (metis Un_insert_right append_take_drop_id list.simps(15) set_append)

lemma add_rep:
  assumes rep: "intset_rep s enc xs" and v: "fits 8 v" and n: "length xs + 1 < 2 ^ 32"
  shows "\<exists>s' ys. intset_add s v = Some (v \<notin> set xs, s') \<and>
    intset_rep s' (max enc (value_encoding v)) ys \<and> set ys = insert v (set xs)"
proof (cases "enc < value_encoding v")
  case True
  have enc: "enc \<in> {2, 4, 8}" and fit: "\<forall>x \<in> set xs. fits enc x" using rep by (auto simp: intset_rep_def)
  have "\<not> fits enc v" using True value_encoding_least [OF enc, of v] by auto
  then have "v \<notin> set xs" using fit by auto
  moreover have "set (if v < 0 then v # xs else xs @ [v]) = insert v (set xs)" by simp
  moreover have "intset_add s v = Some (True, upgrade_and_add s v (value_encoding v))"
    using True by (simp add: intset_add_def rep_encoding [OF rep])
  moreover have "max enc (value_encoding v) = value_encoding v" using True by simp
  ultimately show ?thesis using upgrade_rep [OF rep v True n] by metis
next
  case False
  have enc: "enc \<in> {2, 4, 8}" using rep by (simp add: intset_rep_def)
  have fit: "fits enc v" using False v value_encoding_least [OF enc, of v] by auto
  have add: "intset_add s v = (case intset_search s v of Inr _ \<Rightarrow> Some (False, s)
      | Inl pos \<Rightarrow> map_option (\<lambda>s'. (True, s')) (insert_at s pos v))"
    using False by (simp add: intset_add_def rep_encoding [OF rep])
  show ?thesis
  proof (cases "intset_search s v")
    case (Inr i)
    then have "v \<in> set xs" using search_correct [OF rep, of v] by auto
    then show ?thesis using rep add Inr False by (intro exI [of _ s] exI [of _ xs]) (auto simp: max_def)
  next
    case (Inl p)
    then have p: "splits_at xs v p" using search_correct [OF rep, of v] by simp
    obtain s' where "insert_at s p v = Some s'" "intset_rep s' enc (take p xs @ v # drop p xs)"
      using insert_at_rep [OF rep p fit n] by blast
    then show ?thesis using add Inl False splits_at_notin [OF p] set_insert_at [of p xs v]
      by (intro exI [of _ s'] exI [of _ "take p xs @ v # drop p xs"]) (auto simp: max_def)
  qed
qed

lemma remove_rep:
  assumes rep: "intset_rep s enc xs"
  shows "\<exists>s' ys. intset_remove s v = Some (v \<in> set xs, s') \<and> intset_rep s' enc ys \<and> set ys = set xs - {v}"
proof (cases "v \<in> set xs")
  case False
  then have "intset_remove s v = Some (False, s)"
    using search_correct [OF rep, of v] by (auto simp: intset_remove_def split: sum.splits)
  with False rep show ?thesis by (intro exI [of _ s] exI [of _ xs]) simp
next
  case True
  have enc: "enc \<in> {2, 4, 8}" and sorted: "sorted_wrt (<) xs" using rep by (auto simp: intset_rep_def)
  have "fits enc v" using True rep by (simp add: intset_rep_def)
  then have le: "\<not> value_encoding v > enc" using value_encoding_least [OF enc, of v] by simp
  obtain i where search: "intset_search s v = Inr i" and i: "i < length xs" and iv: "xs ! i = v"
    using search_correct [OF rep, of v] True splits_at_notin [of xs v]
    by (cases "intset_search s v") auto
  let ?A = "concat (map (le_bytes enc) (take i xs))" and ?B = "concat (map (le_bytes enc) (drop (Suc i) xs))"
  let ?P = "le_bytes 4 (int enc) @ le_bytes 4 (int (length xs)) @ ?A" and ?E = "le_bytes enc v"
  let ?ys = "take i xs @ drop (Suc i) xs"
  have buf: "is_buf s = ?P @ ?E @ ?B"
    using rep i iv by (simp add: intset_rep_def concat_le_bytes_split)
  have lenP: "length ?P = 8 + i * enc" using i by (simp add: length_concat_le_bytes)
  obtain Y where Y: "copy_within (?P @ ?E @ ?B) (length ?P + length ?E) (length (?P @ ?E @ ?B)) (length ?P) = Some (?P @ ?B @ Y)"
    using copy_within_close by blast
  let ?s' = "intset_set_len (s\<lparr>is_buf := ?P @ ?B\<rparr>) (length xs - 1)"
  have len: "length (is_buf s) = length (?P @ ?B) + enc" by (simp add: buf)
  have cut: "take (length (is_buf s) - enc) (?P @ ?B @ Y) = ?P @ ?B" unfolding len by simp
  have from_to: "HDR + (i + 1) * enc = length ?P + length ?E" "HDR + i * enc = length ?P"
    using lenP by (simp_all add: HDR_def)
  have "checked_sub (length (is_buf s)) enc = Some (length (is_buf s) - enc)"
    "checked_sub (length xs) 1 = Some (length xs - 1)"
    using len i by (simp_all add: checked_sub_def)
  with Y le search cut have "intset_remove s v = Some (True, ?s')"
    unfolding intset_remove_def rep_encoding [OF rep] rep_len [OF rep] Let_def
    by (simp only: search sum.case from_to if_False buf bind.bind_lunit)
  moreover have "is_buf ?s' = le_bytes 4 (int enc) @ le_bytes 4 (int (length xs - 1)) @ ?A @ ?B"
    by (rule set_len_buf) simp
  moreover have split: "xs = take i xs @ v # drop (Suc i) xs" using i iv by (metis id_take_nth_drop)
  moreover have "sorted_wrt (<) ?ys"
    by (metis split sorted sorted_wrt_append sorted_wrt.simps(2) list.set_intros(2))
  moreover have "set ?ys = set xs - {v}"
  proof -
    have "sorted_wrt (<) (take i xs @ v # drop (Suc i) xs)" using split sorted by metis
    then have "v \<notin> set ?ys" by (auto simp: sorted_wrt_append)
    moreover have "set xs = insert v (set ?ys)" using split by (metis Un_insert_right list.simps(15) set_append)
    ultimately show ?thesis by auto
  qed
  ultimately show ?thesis
    using rep enc True i by (intro exI [of _ ?s'] exI [of _ ?ys])
      (auto simp: intset_rep_def dest: in_set_takeD in_set_dropD)
qed

lemma clear_rep: "intset_rep s enc xs \<Longrightarrow> intset_rep (intset_clear s) enc []"
proof -
  assume rep: "intset_rep s enc xs"
  let ?s = "s\<lparr>is_buf := le_bytes 4 (int enc) @ le_bytes 4 (int (length xs))\<rparr>"
  have "intset_clear s = intset_set_len ?s 0" using rep by (simp add: intset_clear_def intset_rep_def HDR_def)
  moreover have "is_buf (intset_set_len ?s 0) = le_bytes 4 (int enc) @ le_bytes 4 (int 0) @ []"
    by (rule set_len_buf) simp
  ultimately show ?thesis using rep by (simp add: intset_rep_def)
qed

subsection \<open>Validation of untrusted bytes\<close>

lemma ascending_from_iff:
  assumes "\<And>i. i \<in> set is \<Longrightarrow> \<exists>v. intset_get s i = Some v"
  shows "ascending_from s prev is \<longleftrightarrow>
    sorted_wrt (<) ((case prev of Some p \<Rightarrow> [p] | None \<Rightarrow> []) @ map (\<lambda>i. the (intset_get s i)) is)"
  using assms
proof (induction "is" arbitrary: prev)
  case (Cons i js)
  obtain v where v: "intset_get s i = Some v" using Cons.prems by force
  have IH: "ascending_from s (Some v) js \<longleftrightarrow> sorted_wrt (<) (v # map (\<lambda>i. the (intset_get s i)) js)"
    using Cons.IH [of "Some v"] Cons.prems by simp
  show ?case using v IH by (cases prev) (auto simp: not_le intro: less_trans)
qed (simp split: option.splits)

lemma get_raw:
  assumes "8 \<le> length buf" and "enc \<in> {2, 4, 8}" and "nat (le_val (take 4 buf)) = enc"
    and "length buf = 8 + n * enc" and "n < 2 ^ 32" and "i < n"
  shows "intset_get \<lparr>is_buf = buf\<rparr> i = Some (sle_val (take enc (drop (8 + i * enc) buf)))"
proof -
  have enc: "intset_encoding \<lparr>is_buf = buf\<rparr> = enc" using assms by (simp add: intset_encoding_def slice_get_def)
  have le: "8 + i * enc + enc \<le> length buf"
    using assms(4,6) mult_le_mono1 [of "Suc i" n enc] by simp
  have "length buf \<le> 8 + 2 ^ 32 * 8" using assms(2,4,5) mult_mono [of n "2 ^ 32" enc 8] by auto
  with le have "8 + i * enc + enc < 2 ^ 64" by simp
  with le assms(2) show ?thesis
    by (auto simp: intset_get_def enc checked_mul_def checked_add_def HDR_def slice_get_def)
qed

lemma blocks_of_bytes:
  "length r = n * w \<Longrightarrow> concat (map (\<lambda>i. take w (drop (i * w) r)) [0..<n]) = r"
proof (induction n arbitrary: r)
  case (Suc n)
  have "map (\<lambda>i. take w (drop (i * w) r)) [0..<Suc n]
      = take w r # map (\<lambda>i. take w (drop (i * w) (drop w r))) [0..<n]"
    by (simp add: map_upt_Suc add.commute del: upt_Suc)
  moreover have "concat (map (\<lambda>i. take w (drop (i * w) (drop w r))) [0..<n]) = drop w r"
    using Suc.prems by (intro Suc.IH) simp
  ultimately have "concat (map (\<lambda>i. take w (drop (i * w) r)) [0..<Suc n]) = take w r @ drop w r"
    by (simp only: concat.simps)
  then show ?case by simp
qed simp

lemma le_bytes_sle_val: "length b = w \<Longrightarrow> le_bytes w (sle_val b) = b"
proof -
  assume b: "length b = w"
  have "le_val (le_bytes w (sle_val b)) = le_val b"
    using b le_val_less [of b] by (auto simp: le_val_le_bytes sle_val_def Let_def)
  then show ?thesis
    using le_bytes_le_val [of b] le_bytes_le_val [of "le_bytes w (sle_val b)"] b by simp
qed

lemma from_bytes_sound:
  assumes "intset_from_bytes buf = Some s"
  shows "is_buf s = buf \<and> intset_rep s (intset_encoding s) (intset_elems s)"
proof -
  define enc where "enc = nat (le_val (take 4 (take 8 buf)))"
  define n where "n = nat (le_val (drop 4 (take 8 buf)))"
  have f: "8 \<le> length buf" "enc \<in> {2, 4, 8}" "length buf = 8 + n * enc" "s = \<lparr>is_buf = buf\<rparr>"
    "ascending_from \<lparr>is_buf = buf\<rparr> None [0..<n]"
    using assms by (auto simp: intset_from_bytes_def Let_def slice_get_def HDR_def ENC_INT16_def ENC_INT32_def
        ENC_INT64_def checked_mul_def checked_add_def enc_def n_def bind_eq_Some_conv split: if_splits)
  have hdr: "take 4 buf = le_bytes 4 (int enc)" "take 4 (drop 4 buf) = le_bytes 4 (int n)"
    using f(1) le_bytes_le_val [of "take 4 buf"] le_bytes_le_val [of "take 4 (drop 4 buf)"]
    by (simp_all add: enc_def n_def drop_take)
  have enc: "nat (le_val (take 4 buf)) = enc" by (simp add: enc_def)
  have "le_val (take 4 (drop 4 buf)) < 256 ^ 4" using le_val_less [of "take 4 (drop 4 buf)"] f(1) by simp
  then have n: "n < 2 ^ 32" by (simp add: n_def drop_take)
  define xs where "xs = map (\<lambda>i. sle_val (take enc (drop (8 + i * enc) buf))) [0..<n]"
  have get: "intset_get s i = Some (sle_val (take enc (drop (8 + i * enc) buf)))" if "i < n" for i
    using get_raw [OF f(1,2) enc f(3) n that] f(4) by simp
  have blk: "length (take enc (drop (8 + i * enc) buf)) = enc" if "i < n" for i
    using f(3) that mult_le_mono1 [of "Suc i" n enc] by simp
  have "concat (map (le_bytes enc) xs) = concat (map (\<lambda>i. take enc (drop (i * enc) (drop 8 buf))) [0..<n])"
    unfolding xs_def using blk by (auto simp: le_bytes_sle_val add.commute intro!: arg_cong [where f = concat])
  also have "\<dots> = drop 8 buf" using f(3) by (intro blocks_of_bytes) simp
  finally have body: "concat (map (le_bytes enc) xs) = drop 8 buf" .
  have "buf = take 4 buf @ take 4 (drop 4 buf) @ drop 8 buf"
    by (metis append_take_drop_id drop_drop numeral_Bit0 add.commute)
  then have "is_buf s = le_bytes 4 (int enc) @ le_bytes 4 (int (length xs)) @ concat (map (le_bytes enc) xs)"
    using f(4) hdr body by (simp add: xs_def)
  moreover have "sorted_wrt (<) xs"
  proof -
    have "sorted_wrt (<) (map (\<lambda>i. the (intset_get s i)) [0..<n])"
      using f(4,5) get ascending_from_iff [of "[0..<n]" s None] by auto
    also have "map (\<lambda>i. the (intset_get s i)) [0..<n] = xs" using get by (simp add: xs_def)
    finally show ?thesis .
  qed
  moreover have "fits enc (sle_val (take enc (drop (8 + i * enc) buf)))" if "i < n" for i
    using fits_sle_val [of "take enc (drop (8 + i * enc) buf)"] unfolding blk [OF that] .
  then have "\<forall>x \<in> set xs. fits enc x" by (auto simp: xs_def)
  ultimately have "intset_rep s enc xs" using f(2) n by (simp add: intset_rep_def xs_def)
  then show ?thesis using f(4) by (simp add: rep_reads)
qed

lemma from_bytes_complete:
  assumes rep: "intset_rep s enc xs" shows "intset_from_bytes (is_buf s) = Some s"
proof -
  have enc: "enc \<in> {2, 4, 8}" and n: "length xs < 2 ^ 32" and sorted: "sorted_wrt (<) xs"
    and buf: "is_buf s = le_bytes 4 (int enc) @ le_bytes 4 (int (length xs)) @ concat (map (le_bytes enc) xs)"
    using rep by (auto simp: intset_rep_def)
  have hdr: "slice_get (is_buf s) 0 8 = Some (le_bytes 4 (int enc) @ le_bytes 4 (int (length xs)))"
    by (simp add: buf slice_get_def)
  have e: "nat (le_val (le_bytes 4 (int enc))) = enc" "nat (le_val (le_bytes 4 (int (length xs)))) = length xs"
    using enc n by (auto simp: le_val_le_bytes)
  have "length xs * enc + 8 \<le> 2 ^ 32 * 8 + 8" using enc n by (intro add_mono mult_mono) auto
  then have small: "length xs * enc + 8 < 2 ^ 64" by simp
  have get: "\<And>i. i \<in> set [0..<length xs] \<Longrightarrow> \<exists>v. intset_get s i = Some v" by (simp add: rep_get [OF rep])
  have "map (\<lambda>i. the (intset_get s i)) [0..<length xs] = xs"
    by (rule nth_equalityI) (simp_all add: rep_get [OF rep] nth_opt_def)
  then have asc: "ascending_from s None [0..<length xs]"
    using ascending_from_iff [of "[0..<length xs]" s None] get sorted by simp
  have eta: "\<lparr>is_buf = is_buf s\<rparr> = s" by simp
  show ?thesis
    using enc small asc hdr e rep_length_buf [OF rep]
    by (auto simp: eta intset_from_bytes_def HDR_def Let_def checked_mul_def checked_add_def
        ENC_INT16_def ENC_INT32_def ENC_INT64_def add.commute)
qed

subsection \<open>The interface of an integer set\<close>

text \<open>What a client of an integer set may rely on: the ascending list of elements, the answers of the
  three operations on it, and room for \<open>cap - 1\<close> elements. \<open>build\<close> adds a list of values one by
  one.\<close>

locale int_set =
  fixes empty :: 's
    and add remove :: "'s \<Rightarrow> int \<Rightarrow> (bool \<times> 's) option"
    and contains :: "'s \<Rightarrow> int \<Rightarrow> bool"
    and build :: "'s \<Rightarrow> int list \<Rightarrow> 's option"
    and elems :: "'s \<Rightarrow> int list"
    and inv :: "'s \<Rightarrow> bool"
    and cap :: nat
  assumes empty: "inv empty" "elems empty = []"
    and elems: "inv s \<Longrightarrow> sorted_wrt (<) (elems s)"
    and contains: "inv s \<Longrightarrow> contains s v \<longleftrightarrow> v \<in> set (elems s)"
    and add: "inv s \<Longrightarrow> fits 8 v \<Longrightarrow> length (elems s) + 1 < cap \<Longrightarrow>
      \<exists>s'. add s v = Some (v \<notin> set (elems s), s') \<and> inv s' \<and> set (elems s') = insert v (set (elems s))"
    and remove: "inv s \<Longrightarrow>
      \<exists>s'. remove s v = Some (v \<in> set (elems s), s') \<and> inv s' \<and> set (elems s') = set (elems s) - {v}"
    and build: "build s [] = Some s" "build s (v # vs) = Option.bind (add s v) (\<lambda>(_, s'). build s' vs)"
begin

lemma elems_eq: "inv s \<Longrightarrow> elems s = sorted_list_of_set (set (elems s))"
  by (rule sym, rule sorted_list_of_set.idem_if_sorted_distinct)
    (auto dest!: elems simp: strict_sorted_iff)

lemma length_elems: "inv s \<Longrightarrow> length (elems s) = card (set (elems s))"
  by (metis elems distinct_card strict_sorted_iff)

lemma build_elems:
  "inv s \<Longrightarrow> \<forall>v \<in> set vs. fits 8 v \<Longrightarrow> length (elems s) + length vs < cap \<Longrightarrow>
   \<exists>s'. build s vs = Some s' \<and> inv s' \<and> elems s' = sorted_list_of_set (set (elems s) \<union> set vs)"
proof (induction vs arbitrary: s)
  case Nil
  then show ?case using elems_eq [of s] by (auto simp: build)
next
  case (Cons v vs)
  then obtain s' where s': "add s v = Some (v \<notin> set (elems s), s')" "inv s'"
    "set (elems s') = insert v (set (elems s))" using add [of s v] by auto
  have "length (elems s') \<le> length (elems s) + 1"
    using s' Cons.prems(1) by (simp add: length_elems card_insert_if)
  with Cons s' have "\<exists>t. build s' vs = Some t \<and> inv t \<and>
      elems t = sorted_list_of_set (insert v (set (elems s)) \<union> set vs)"
    using Cons.IH [of s'] by auto
  with s' show ?case by (simp only: build) (simp only: bind.bind_lunit prod.case list.simps Un_insert_left Un_insert_right)
qed

lemma build_from_empty:
  "\<forall>v \<in> set vs. fits 8 v \<Longrightarrow> length vs < cap \<Longrightarrow>
   \<exists>s. build empty vs = Some s \<and> inv s \<and> elems s = sorted_list_of_set (set vs)"
  using build_elems [of empty vs] by (simp add: empty)

end

lemma inv_repD: "intset_inv s \<Longrightarrow> intset_rep s (intset_encoding s) (intset_elems s)"
  by (simp add: intset_inv_def)

interpretation intset: int_set intset_new intset_add intset_remove intset_contains from_iter_loop
  intset_elems intset_inv "2 ^ 32"
proof
  show "intset_inv intset_new" "intset_elems intset_new = []"
    using rep_new by (auto simp: rep_elems intro: rep_inv)
  fix s v vs
  show "from_iter_loop s [] = Some s" by simp
  show "from_iter_loop s (v # vs) = Option.bind (intset_add s v) (\<lambda>(_, s'). from_iter_loop s' vs)" by simp
  assume inv: "intset_inv s"
  note rep = inv_repD [OF inv]
  show "sorted_wrt (<) (intset_elems s)" using rep by (simp add: intset_rep_def)
  show "intset_contains s v \<longleftrightarrow> v \<in> set (intset_elems s)" using rep by (rule contains_correct)
  show "\<exists>s'. intset_remove s v = Some (v \<in> set (intset_elems s), s') \<and> intset_inv s' \<and>
      set (intset_elems s') = set (intset_elems s) - {v}"
    using remove_rep [OF rep, of v] by (metis rep_inv rep_elems)
  assume "fits 8 v" "length (intset_elems s) + 1 < 2 ^ 32"
  then show "\<exists>s'. intset_add s v = Some (v \<notin> set (intset_elems s), s') \<and> intset_inv s' \<and>
      set (intset_elems s') = insert v (set (intset_elems s))"
    using add_rep [OF rep] by (metis rep_inv rep_elems)
qed

subsection \<open>Iteration\<close>

fun drain :: "intset \<Rightarrow> bool list \<Rightarrow> intset_iter \<Rightarrow> (bool \<times> int) list" where
  "drain s [] it = []"
| "drain s (b # bs) it =
     (case (if b then iter_next_back s it else iter_next s it) of
        (None, it') \<Rightarrow> drain s bs it'
      | (Some v, it') \<Rightarrow> (b, v) # drain s bs it')"

lemma drain_window:
  assumes rep: "intset_rep s enc xs"
  shows "it_i it \<le> it_j it \<Longrightarrow> it_j it \<le> length xs \<Longrightarrow> length bs \<ge> it_j it - it_i it \<Longrightarrow>
    (let ds = drain s bs it in
      map snd (filter (\<lambda>d. \<not> fst d) ds) @ rev (map snd (filter fst ds))
      = take (it_j it - it_i it) (drop (it_i it) xs))"
proof (induction bs arbitrary: it)
  case (Cons b bs)
  show ?case
  proof (cases "it_i it = it_j it")
    case True
    then have "iter_next s it = (None, it)" "iter_next_back s it = (None, it)"
      by (simp_all add: iter_next_def iter_next_back_def)
    with True Cons.IH [of it] Cons.prems show ?thesis by (cases b) (simp_all add: Let_def)
  next
    case False
    then have lt: "it_i it < it_j it" using Cons.prems by simp
    let ?w = "take (it_j it - it_i it) (drop (it_i it) xs)"
    show ?thesis
    proof (cases b)
      case True
      have "iter_next_back s it = (Some (xs ! (it_j it - 1)), it\<lparr>it_j := it_j it - 1\<rparr>)"
        using lt Cons.prems by (simp add: iter_next_back_def rep_get [OF rep] Let_def)
      moreover have "?w = take (it_j it - 1 - it_i it) (drop (it_i it) xs) @ [xs ! (it_j it - 1)]"
        using lt Cons.prems take_Suc_conv_app_nth [of "it_j it - 1 - it_i it" "drop (it_i it) xs"]
        by (simp add: Suc_diff_Suc)
      ultimately show ?thesis
        using True lt Cons.prems Cons.IH [of "it\<lparr>it_j := it_j it - 1\<rparr>"] by (simp add: Let_def)
    next
      case False
      have "iter_next s it = (Some (xs ! it_i it), it\<lparr>it_i := it_i it + 1\<rparr>)"
        using lt Cons.prems by (simp add: iter_next_def rep_get [OF rep] nth_opt_def)
      moreover have "?w = xs ! it_i it # take (it_j it - Suc (it_i it)) (drop (Suc (it_i it)) xs)"
        using lt Cons.prems Cons_nth_drop_Suc [of "it_i it" xs]
        by (metis Suc_diff_Suc less_le_trans take_Suc_Cons)
      ultimately show ?thesis
        using False lt Cons.prems Cons.IH [of "it\<lparr>it_i := it_i it + 1\<rparr>"] by (simp add: Let_def)
    qed
  qed
qed simp

subsection \<open>Properties\<close>

text \<open>C39. Adding a 64-bit value to a well-formed intset never panics, says whether the value was new,
  leaves a well-formed intset (same layout, strictly ascending, wide enough) and adds exactly that
  value to the set; the width grows to what the value needs and never shrinks.\<close>

theorem intset_add_correct:
  assumes "intset_inv s" and "fits 8 v" and "intset_len s + 1 < 2 ^ 32"
  shows "\<exists>s'. intset_add s v = Some (v \<notin> set (intset_elems s), s') \<and> intset_inv s' \<and>
    set (intset_elems s') = insert v (set (intset_elems s)) \<and>
    intset_encoding s' = max (intset_encoding s) (value_encoding v)"
  using add_rep [OF inv_repD [OF assms(1)] assms(2)] assms(3) rep_len [OF inv_repD [OF assms(1)]]
  by (auto simp: rep_reads intro: rep_inv)

theorem intset_add_correct_witness:
  "\<exists>s'. intset_add intset_new 70000 = Some (True, s') \<and> intset_inv s' \<and> set (intset_elems s') = {70000}"
  using intset_add_correct [OF intset.empty(1), of 70000] rep_len [OF rep_new] intset.empty(2)
  by (auto simp: fits_def)

text \<open>Removing a value from a well-formed intset never panics, says whether it was there, and
  leaves a well-formed intset with exactly that value taken out and the width unchanged.\<close>

theorem intset_remove_correct:
  assumes "intset_inv s"
  shows "\<exists>s'. intset_remove s v = Some (v \<in> set (intset_elems s), s') \<and> intset_inv s' \<and>
    set (intset_elems s') = set (intset_elems s) - {v} \<and> intset_encoding s' = intset_encoding s"
  using remove_rep [OF inv_repD [OF assms], of v] by (metis rep_inv rep_elems rep_encoding)

theorem intset_remove_correct_witness:
  "\<exists>s'. intset_remove intset_new 5 = Some (False, s') \<and> intset_inv s'"
  using intset_remove_correct [OF intset.empty(1), of 5] intset.empty(2) by auto

text \<open>The binary search over the packed bytes, shortcuts included, finds an element exactly when
  it is in the set, and otherwise returns the position that keeps the order.\<close>

theorem intset_search_correct:
  assumes "intset_inv s"
  shows "(case intset_search s v of
      Inr i \<Rightarrow> i < intset_len s \<and> intset_get s i = Some v
    | Inl p \<Rightarrow> v \<notin> set (intset_elems s) \<and> sorted_wrt (<) (take p (intset_elems s) @ v # drop p (intset_elems s)))"
proof -
  note rep = inv_repD [OF assms]
  then have "sorted_wrt (<) (intset_elems s)" by (simp add: intset_rep_def)
  then show ?thesis
    using search_correct [OF rep, of v] sorted_insert_at [of "intset_elems s" v] splits_at_notin
    by (auto simp: rep_len [OF rep] rep_get [OF rep] split: sum.splits)
qed

theorem intset_search_correct_witness:
  "case intset_search intset_new 3 of Inr i \<Rightarrow> False | Inl p \<Rightarrow> 3 \<notin> set (intset_elems intset_new)"
  using intset_search_correct [OF intset.empty(1), of 3] rep_len [OF rep_new] by (auto split: sum.splits)

text \<open>The validator for untrusted bytes accepts exactly the serialisations of well-formed
  intsets: what it accepts is well-formed with those bytes, and every well-formed intset survives a
  trip through its bytes.\<close>

theorem intset_from_bytes_iff:
  "intset_from_bytes buf = Some s \<longleftrightarrow> is_buf s = buf \<and> intset_inv s"
  using from_bytes_sound [of buf s] from_bytes_complete [OF inv_repD, of s] by (auto simp: intset_inv_def)

text \<open>Building an intset from any sequence of 64-bit values never panics and gives a well-formed
  intset whose elements are the distinct values in ascending order.\<close>

theorem from_iter_i64_sorted:
  assumes "\<forall>v \<in> set items. fits 8 v" and "length items < 2 ^ 32"
  shows "\<exists>s. from_iter_i64 items = Some s \<and> intset_inv s \<and> intset_elems s = sorted_list_of_set (set items)"
  unfolding from_iter_i64_def using assms by (rule intset.build_from_empty)

theorem from_iter_i64_sorted_witness:
  "\<exists>s. from_iter_i64 [300, -5, 300] = Some s \<and> intset_elems s = sorted_list_of_set (set [300, -5, 300])"
  using from_iter_i64_sorted [of "[300, -5, 300]"] by (auto simp: fits_def)

text \<open>The double-ended iterator over a well-formed intset, called often enough from either end in
  any interleaving, yields every element once: the values taken from the front followed by the
  reverse of those taken from the back are the ascending elements.\<close>

theorem intset_iter_complete:
  assumes "intset_inv s" and "intset_len s \<le> length calls"
  shows "(let ds = drain s calls (intset_iter_start s) in
    map snd (filter (\<lambda>d. \<not> fst d) ds) @ rev (map snd (filter fst ds)) = intset_elems s)"
  using drain_window [OF inv_repD [OF assms(1)], of "intset_iter_start s" calls] assms(2)
    rep_len [OF inv_repD [OF assms(1)]] by (simp add: intset_iter_start_def)

theorem intset_iter_complete_witness:
  "(let ds = drain intset_new [True, False] (intset_iter_start intset_new) in
    map snd (filter (\<lambda>d. \<not> fst d) ds) @ rev (map snd (filter fst ds)) = intset_elems intset_new)"
  using intset_iter_complete [OF intset.empty(1), of "[True, False]"] rep_len [OF rep_new] by simp

end
