(* ===== verification/Listpack.thy ===== *)
theory Listpack
  imports Strnum
begin

text \<open>
  The listpack of \<^verbatim>\<open>src/src/encoding/listpack.rs\<close>: a byte buffer with a 4-byte total size, a
  2-byte element count, the entries, and a terminator. An entry is an encoded value followed by its
  length written so that it can be read backwards. Every operation is modelled on the bytes: the
  encoder with its ladder of integer and string encodings, the two decoders, the walks in both
  directions, the validator for untrusted bytes and every mutation. A mutation that would panic in
  the source (\<^verbatim>\<open>copy_within\<close> out of range) returns \<open>None\<close>. Where the source joins bit fields that do
  not overlap with \<^verbatim>\<open>|\<close>, the model adds them.
\<close>

unbundle bit_operations_syntax

subsection \<open>Entries and their encoding\<close>

definition LP_HDR_SIZE :: nat where "LP_HDR_SIZE = 6"

definition LP_EOF :: byte where "LP_EOF = 0xFF"

definition LP_HDR_NUMELE_UNKNOWN :: nat where "LP_HDR_NUMELE_UNKNOWN = 65535"

definition LP_MAX_SAFETY_SIZE :: nat where "LP_MAX_SAFETY_SIZE = 2 ^ 30"

datatype lp_entry = EInt int | EStr bytes

datatype payload = PInt int | PStr bytes

definition entry_to_int :: "lp_entry \<Rightarrow> int option" where
  "entry_to_int e = (case e of EInt v \<Rightarrow> Some v | EStr s \<Rightarrow> string2ll s)"

definition entry_write_to :: "(int \<Rightarrow> bytes) \<Rightarrow> lp_entry \<Rightarrow> bytes \<Rightarrow> bytes" where
  "entry_write_to itoa e out = (case e of EStr s \<Rightarrow> out @ s | EInt v \<Rightarrow> out @ itoa v)"

definition entry_byte_len :: "(int \<Rightarrow> bytes) \<Rightarrow> lp_entry \<Rightarrow> nat" where
  "entry_byte_len itoa e = (case e of EStr s \<Rightarrow> length s | EInt v \<Rightarrow> length (itoa v))"

definition eq_bytes :: "lp_entry \<Rightarrow> bytes \<Rightarrow> bool" where
  "eq_bytes e needle =
     (case e of EStr s \<Rightarrow> s = needle
              | EInt v \<Rightarrow> (case string2ll needle of Some n \<Rightarrow> n = v | None \<Rightarrow> False))"

definition entry_eq :: "lp_entry \<Rightarrow> lp_entry \<Rightarrow> bool" where
  "entry_eq x y =
     (case (x, y) of
        (EInt a, EInt b) \<Rightarrow> a = b
      | (EStr a, EStr b) \<Rightarrow> a = b
      | (EInt a, EStr b) \<Rightarrow> string2ll b = Some a
      | (EStr b, EInt a) \<Rightarrow> string2ll b = Some a)"

definition canonicalize :: "lp_entry \<Rightarrow> payload" where
  "canonicalize v =
     (case v of EInt i \<Rightarrow> PInt i
              | EStr s \<Rightarrow> (case string2ll s of Some i \<Rightarrow> PInt i | None \<Rightarrow> PStr s))"

definition payload_enclen :: "payload \<Rightarrow> nat" where
  "payload_enclen p =
     (case p of
        PInt v \<Rightarrow>
          if 0 \<le> v \<and> v \<le> 127 then 1
          else if - 4096 \<le> v \<and> v \<le> 4095 then 2
          else if - 32768 \<le> v \<and> v \<le> 32767 then 3
          else if - 8388608 \<le> v \<and> v \<le> 8388607 then 4
          else if - 2147483648 \<le> v \<and> v \<le> 2147483647 then 5
          else 9
      | PStr s \<Rightarrow>
          (let n = length s in if n < 64 then 1 + n else if n < 4096 then 2 + n else 5 + n))"

definition backlen_size :: "nat \<Rightarrow> nat" where
  "backlen_size l =
     (if l \<le> 127 then 1 else if l < 16383 then 2 else if l < 2097151 then 3
      else if l < 268435455 then 4 else 5)"

text \<open>The bytes \<^verbatim>\<open>write_backlen\<close> stores: seven bits each, most significant first, with the
  continuation bit on every byte but the first.\<close>

definition write_backlen :: "nat \<Rightarrow> bytes" where
  "write_backlen l =
     (let n = backlen_size l in
      map (\<lambda>i. let b = word_of_nat ((l div 2 ^ (7 * (n - 1 - i))) mod 128) :: byte
               in if i \<noteq> 0 then b OR 128 else b) [0..<n])"

function decode_backlen_loop :: "bytes \<Rightarrow> nat \<Rightarrow> nat \<Rightarrow> nat \<Rightarrow> nat \<Rightarrow> (nat \<times> nat) option" where
  "decode_backlen_loop buf p val shift n =
     (case nth_opt buf p of
        None \<Rightarrow> None
      | Some b \<Rightarrow>
          (let val = val + unat (b AND 127) * 2 ^ shift; n = n + 1 in
           if b AND 128 = 0 then Some (val, n)
           else let shift = shift + 7 in
             if shift > 28 then None
             else (case checked_sub p 1 of
                     None \<Rightarrow> None
                   | Some p \<Rightarrow> decode_backlen_loop buf p val shift n)))"
  by pat_completeness auto
termination
  by (relation "measure (\<lambda>(buf, p, val, shift, n). 35 - shift)") auto

declare decode_backlen_loop.simps [simp del]

definition decode_backlen :: "bytes \<Rightarrow> nat \<Rightarrow> (nat \<times> nat) option" where
  "decode_backlen buf lst = decode_backlen_loop buf lst 0 0 0"

text \<open>The encoding and data bytes of \<^verbatim>\<open>write_payload\<close>, one branch per arm of its match.\<close>

definition payload_bytes :: "payload \<Rightarrow> bytes" where
  "payload_bytes p =
     (case p of
        PInt v \<Rightarrow>
          (let enclen = payload_enclen p in
           if enclen = 1 then [word_of_int v AND 0x7f]
           else if enclen = 2 then
             (let u = word_of_int (if v < 0 then 2 ^ 13 + v else v) :: 16 word
              in [ucast (drop_bit 8 u) OR 0xC0, ucast (u AND 0xff)])
           else if enclen = 3 then 0xF1 # le_bytes 2 v
           else if enclen = 4 then 0xF2 # take 3 (le_bytes 4 (if v < 0 then 2 ^ 24 + v else v))
           else if enclen = 5 then 0xF3 # le_bytes 4 v
           else 0xF4 # le_bytes 8 v)
      | PStr b \<Rightarrow>
          (let n = length b in
           if n < 64 then (0x80 OR word_of_nat n) # b
           else if n < 4096 then [0xE0 OR word_of_nat (n div 256), word_of_nat (n mod 256)] @ b
           else 0xF0 # le_bytes 4 (int n) @ b))"

definition write_payload :: "bytes \<Rightarrow> payload \<Rightarrow> bytes" where
  "write_payload dst p =
     (let enclen = payload_enclen p in
      slice_put (slice_put dst 0 (payload_bytes p)) enclen (write_backlen enclen))"

definition enclen_at :: "bytes \<Rightarrow> nat \<Rightarrow> nat option" where
  "enclen_at buf off = do {
     b0 \<leftarrow> nth_opt buf off;
     if b0 AND 0x80 = 0 then Some 1
     else if b0 AND 0xC0 = 0x80 then Some (1 + unat (b0 AND 0x3f))
     else if b0 AND 0xE0 = 0xC0 then Some 2
     else if b0 AND 0xF0 = 0xE0 then do {
       b1 \<leftarrow> nth_opt buf (off + 1);
       Some (2 + (unat (b0 AND 0x0f) * 256 + unat b1)) }
     else if b0 = 0xF1 then Some 3
     else if b0 = 0xF2 then Some 4
     else if b0 = 0xF3 then Some 5
     else if b0 = 0xF4 then Some 9
     else if b0 = 0xF0 then do {
       h \<leftarrow> slice_get buf (off + 1) (off + 5);
       Some (5 + nat (le_val h)) }
     else None }"

definition decode_at :: "bytes \<Rightarrow> nat \<Rightarrow> (lp_entry \<times> nat) option" where
  "decode_at buf off = do {
     b0 \<leftarrow> nth_opt buf off;
     if b0 AND 0x80 = 0 then Some (EInt (uint (b0 AND 0x7f)), 1)
     else if b0 AND 0xC0 = 0x80 then do {
       let n = unat (b0 AND 0x3f);
       s \<leftarrow> slice_get buf (off + 1) (off + 1 + n);
       Some (EStr s, 1 + n) }
     else if b0 AND 0xE0 = 0xC0 then do {
       b1 \<leftarrow> nth_opt buf (off + 1);
       let uval = uint (b0 AND 0x1f) * 256 + uint b1;
       Some (EInt (if uval \<ge> 2 ^ 12 then uval - 8192 else uval), 2) }
     else if b0 AND 0xF0 = 0xE0 then do {
       b1 \<leftarrow> nth_opt buf (off + 1);
       let n = unat (b0 AND 0x0f) * 256 + unat b1;
       s \<leftarrow> slice_get buf (off + 2) (off + 2 + n);
       Some (EStr s, 2 + n) }
     else if b0 = 0xF1 then do {
       s \<leftarrow> slice_get buf (off + 1) (off + 3);
       Some (EInt (sle_val s), 3) }
     else if b0 = 0xF2 then do {
       s \<leftarrow> slice_get buf (off + 1) (off + 4);
       Some (EInt (sle_val (0 # s) div 256), 4) }
     else if b0 = 0xF3 then do {
       s \<leftarrow> slice_get buf (off + 1) (off + 5);
       Some (EInt (sle_val s), 5) }
     else if b0 = 0xF4 then do {
       s \<leftarrow> slice_get buf (off + 1) (off + 9);
       Some (EInt (sle_val s), 9) }
     else if b0 = 0xF0 then do {
       h \<leftarrow> slice_get buf (off + 1) (off + 5);
       let n = nat (le_val h);
       s \<leftarrow> slice_get buf (off + 5) (off + 5 + n);
       Some (EStr s, 5 + n) }
     else None }"

lemma decode_at_pos: "decode_at buf off = Some (e, n) \<Longrightarrow> 0 < n"
  by (auto simp: decode_at_def Let_def bind_eq_Some_conv split: if_splits)

lemma enclen_at_pos: "enclen_at buf off = Some n \<Longrightarrow> 0 < n"
  by (auto simp: enclen_at_def bind_eq_Some_conv split: if_splits)

subsection \<open>The listpack and its walks\<close>

record listpack =
  lp_buf :: bytes

definition lp_new :: listpack where
  "lp_new = \<lparr>lp_buf = le_bytes 4 7 @ le_bytes 2 0 @ [LP_EOF]\<rparr>"

definition header_count :: "listpack \<Rightarrow> nat" where
  "header_count lp = (case slice_get (lp_buf lp) 4 6 of Some s \<Rightarrow> nat (le_val s) | None \<Rightarrow> 0)"

text \<open>\<^verbatim>\<open>eof_offset\<close> subtracts from the buffer length; a listpack always holds its seven bytes of
  header and terminator.\<close>

definition eof_offset :: "listpack \<Rightarrow> nat" where
  "eof_offset lp = length (lp_buf lp) - 1"

definition lp_is_empty :: "listpack \<Rightarrow> bool" where
  "lp_is_empty lp \<longleftrightarrow> length (lp_buf lp) \<le> LP_HDR_SIZE + 1"

definition safe_to_add :: "listpack \<Rightarrow> nat \<Rightarrow> bool" where
  "safe_to_add lp add \<longleftrightarrow> min (length (lp_buf lp) + add) (2 ^ 64 - 1) \<le> LP_MAX_SAFETY_SIZE"

definition entry_span :: "listpack \<Rightarrow> nat \<Rightarrow> nat option" where
  "entry_span lp off = do { enclen \<leftarrow> enclen_at (lp_buf lp) off; Some (enclen + backlen_size enclen) }"

definition next_offset :: "listpack \<Rightarrow> nat \<Rightarrow> nat option" where
  "next_offset lp off =
     (if off \<ge> eof_offset lp then None
      else do { span \<leftarrow> entry_span lp off;
                let n = off + span;
                if n > eof_offset lp then None else Some n })"

definition prev_offset :: "listpack \<Rightarrow> nat \<Rightarrow> nat option" where
  "prev_offset lp off =
     (if off \<le> LP_HDR_SIZE then None
      else do { (prevlen, _) \<leftarrow> decode_backlen (lp_buf lp) (off - 1);
                start \<leftarrow> checked_sub off (prevlen + backlen_size prevlen);
                if start < LP_HDR_SIZE then None else Some start })"

fun seek_fwd_loop :: "listpack \<Rightarrow> nat \<Rightarrow> nat \<Rightarrow> nat option" where
  "seek_fwd_loop lp 0 off = (if off \<ge> eof_offset lp then None else Some off)"
| "seek_fwd_loop lp (Suc n) off =
     (if off \<ge> eof_offset lp then None
      else do { span \<leftarrow> entry_span lp off; seek_fwd_loop lp n (off + span) })"

definition seek_fwd :: "listpack \<Rightarrow> nat \<Rightarrow> nat option" where
  "seek_fwd lp n = seek_fwd_loop lp n LP_HDR_SIZE"

text \<open>\<^verbatim>\<open>seek_back\<close> counts a negative index up to 0; its first argument here is the number of steps.\<close>

fun seek_back_loop :: "listpack \<Rightarrow> nat \<Rightarrow> nat \<Rightarrow> nat option" where
  "seek_back_loop lp 0 off = Some off"
| "seek_back_loop lp (Suc n) off = do { off \<leftarrow> prev_offset lp off; seek_back_loop lp n off }"

definition seek_back :: "listpack \<Rightarrow> int \<Rightarrow> nat option" where
  "seek_back lp n = seek_back_loop lp (nat (- n)) (eof_offset lp)"

definition seek :: "listpack \<Rightarrow> int \<Rightarrow> nat option" where
  "seek lp index =
     (let numele = header_count lp in
      if numele \<noteq> LP_HDR_NUMELE_UNKNOWN then
        (let n = int numele; i = (if index < 0 then index + n else index) in
         if i < 0 \<or> i \<ge> n then None
         else if i > n div 2 then seek_back lp (i - n)
         else seek_fwd lp (nat i))
      else if index < 0 then seek_back lp index else seek_fwd lp (nat index))"

definition entry_at :: "listpack \<Rightarrow> nat \<Rightarrow> lp_entry option" where
  "entry_at lp off =
     (if off \<ge> eof_offset lp then None else map_option fst (decode_at (lp_buf lp) off))"

definition lp_get :: "listpack \<Rightarrow> int \<Rightarrow> lp_entry option" where
  "lp_get lp index = do { off \<leftarrow> seek lp index; entry_at lp off }"

definition lp_first :: "listpack \<Rightarrow> lp_entry option" where
  "lp_first lp = entry_at lp LP_HDR_SIZE"

definition lp_last :: "listpack \<Rightarrow> lp_entry option" where
  "lp_last lp = do { off \<leftarrow> prev_offset lp (eof_offset lp); entry_at lp off }"

text \<open>The forward iterator run to its end, and the reverse one.\<close>

definition iter_step :: "listpack \<Rightarrow> nat \<Rightarrow> (lp_entry \<times> nat) option" where
  "iter_step lp off =
     (if off \<ge> eof_offset lp then None
      else do { (e, enclen) \<leftarrow> decode_at (lp_buf lp) off; Some (e, off + (enclen + backlen_size enclen)) })"

function lp_iter_from :: "listpack \<Rightarrow> nat \<Rightarrow> lp_entry list" where
  "lp_iter_from lp off =
     (case iter_step lp off of None \<Rightarrow> [] | Some (e, off') \<Rightarrow> e # lp_iter_from lp off')"
  by pat_completeness auto
termination
  by (relation "measure (\<lambda>(lp, off). eof_offset lp - off)")
    (auto simp: iter_step_def bind_eq_Some_conv dest!: decode_at_pos split: if_splits)

declare lp_iter_from.simps [simp del]

definition lp_iter :: "listpack \<Rightarrow> lp_entry list" where
  "lp_iter lp = lp_iter_from lp LP_HDR_SIZE"

definition rev_iter_step :: "listpack \<Rightarrow> nat \<Rightarrow> (lp_entry \<times> nat) option" where
  "rev_iter_step lp off = do { prev \<leftarrow> prev_offset lp off; e \<leftarrow> entry_at lp prev; Some (e, prev) }"

lemma prev_offset_less: "prev_offset lp off = Some p \<Longrightarrow> p < off"
  by (auto simp: prev_offset_def bind_eq_Some_conv checked_sub_def backlen_size_def split: if_splits)

function lp_iter_rev_from :: "listpack \<Rightarrow> nat \<Rightarrow> lp_entry list" where
  "lp_iter_rev_from lp off =
     (case rev_iter_step lp off of None \<Rightarrow> [] | Some (e, off') \<Rightarrow> e # lp_iter_rev_from lp off')"
  by pat_completeness auto
termination
  by (relation "measure (\<lambda>(lp, off). off)")
    (auto simp: rev_iter_step_def bind_eq_Some_conv dest!: prev_offset_less)

declare lp_iter_rev_from.simps [simp del]

definition lp_iter_rev :: "listpack \<Rightarrow> lp_entry list" where
  "lp_iter_rev lp = lp_iter_rev_from lp (eof_offset lp)"

definition lp_len :: "listpack \<Rightarrow> nat" where
  "lp_len lp =
     (let n = header_count lp in if n \<noteq> LP_HDR_NUMELE_UNKNOWN then n else length (lp_iter lp))"

fun skip_entries :: "listpack \<Rightarrow> nat \<Rightarrow> nat \<Rightarrow> nat \<Rightarrow> (nat \<times> nat) option" where
  "skip_entries lp 0 off idx = Some (off, idx)"
| "skip_entries lp (Suc k) off idx =
     (if off \<ge> eof_offset lp then None
      else do { span \<leftarrow> entry_span lp off; skip_entries lp k (off + span) (idx + 1) })"

lemma skip_entries_ge: "skip_entries lp k off idx = Some (off', idx') \<Longrightarrow> off \<le> off'"
  by (induction lp k off idx rule: skip_entries.induct) (force simp: bind_eq_Some_conv split: if_splits)+

definition entry_hit :: "payload \<Rightarrow> lp_entry \<Rightarrow> bool" where
  "entry_hit canon e =
     (case (canon, e) of (PInt a, EInt b) \<Rightarrow> a = b | (PStr a, EStr b) \<Rightarrow> a = b | _ \<Rightarrow> False)"

function find_loop :: "listpack \<Rightarrow> payload \<Rightarrow> nat \<Rightarrow> nat \<Rightarrow> nat \<Rightarrow> nat option" where
  "find_loop lp canon skip off idx =
     (if off \<ge> eof_offset lp then None
      else (case decode_at (lp_buf lp) off of
              None \<Rightarrow> None
            | Some (e, enclen) \<Rightarrow>
                if entry_hit canon e then Some idx
                else (case skip_entries lp skip (off + (enclen + backlen_size enclen)) (idx + 1) of
                        None \<Rightarrow> None
                      | Some (off', idx') \<Rightarrow> find_loop lp canon skip off' idx')))"
  by pat_completeness auto
termination
  by (relation "measure (\<lambda>(lp, canon, skip, off, idx). eof_offset lp - off)")
    (auto dest!: decode_at_pos skip_entries_ge)

declare find_loop.simps [simp del]

definition find_from :: "listpack \<Rightarrow> nat \<Rightarrow> bytes \<Rightarrow> nat \<Rightarrow> nat option" where
  "find_from lp start needle skip = do {
     off \<leftarrow> seek_fwd lp start;
     find_loop lp (canonicalize (EStr needle)) skip off start }"

definition lp_find :: "listpack \<Rightarrow> bytes \<Rightarrow> nat option" where
  "lp_find lp needle = find_from lp 0 needle 0"

subsection \<open>Validation\<close>

function validate_loop :: "bytes \<Rightarrow> nat \<Rightarrow> nat \<Rightarrow> (nat \<times> nat) option" where
  "validate_loop buf off count =
     (let end = length buf - 1 in
      if off < end then
        (case decode_at buf off of
           None \<Rightarrow> None
         | Some (_, enclen) \<Rightarrow>
             (let bl = backlen_size enclen in
              case Option.bind (checked_add off enclen) (\<lambda>x. checked_add x bl) of
                None \<Rightarrow> None
              | Some nxt \<Rightarrow>
                  if nxt > end then None
                  else if decode_backlen buf (nxt - 1) \<noteq> Some (enclen, bl) then None
                  else if count + 1 > 2 ^ 32 - 1 then None
                  else validate_loop buf nxt (count + 1)))
      else Some (off, count))"
  by pat_completeness auto
termination
  by (relation "measure (\<lambda>(buf, off, count). length buf - off)")
    (auto simp: bind_eq_Some_conv checked_add_def dest!: decode_at_pos split: if_splits)

declare validate_loop.simps [simp del]

definition validate :: "bytes \<Rightarrow> bool" where
  "validate buf =
     (if length buf < LP_HDR_SIZE + 1 then False
      else (case slice_get buf 0 LP_HDR_SIZE of
              None \<Rightarrow> False
            | Some h \<Rightarrow>
                (let total = nat (le_val (take 4 h)) in
                 if total \<noteq> length buf then False
                 else if last buf \<noteq> LP_EOF then False
                 else (let declared = nat (le_val (drop 4 h)); end = length buf - 1 in
                   case validate_loop buf LP_HDR_SIZE 0 of
                     None \<Rightarrow> False
                   | Some (off, count) \<Rightarrow>
                       if off \<noteq> end then False
                       else if declared \<noteq> LP_HDR_NUMELE_UNKNOWN \<and> declared \<noteq> count then False
                       else True))))"

definition lp_from_bytes :: "bytes \<Rightarrow> listpack option" where
  "lp_from_bytes buf = (if \<not> validate buf then None else Some \<lparr>lp_buf = buf\<rparr>)"

subsection \<open>Mutation\<close>

definition sync_header :: "listpack \<Rightarrow> int \<Rightarrow> listpack" where
  "sync_header lp delta =
     (let lp = lp\<lparr>lp_buf := slice_put (lp_buf lp) 0 (le_bytes 4 (int (length (lp_buf lp))))\<rparr>;
          cur = header_count lp in
      if cur = LP_HDR_NUMELE_UNKNOWN then lp
      else (let n = max 0 (min (int cur + delta) (int LP_HDR_NUMELE_UNKNOWN))
            in lp\<lparr>lp_buf := slice_put (lp_buf lp) 4 (le_bytes 2 n)\<rparr>))"

definition lp_clear :: "listpack \<Rightarrow> listpack" where
  "lp_clear lp = sync_header (lp\<lparr>lp_buf := take LP_HDR_SIZE (lp_buf lp) @ [LP_EOF]\<rparr>) 0"

definition splice :: "listpack \<Rightarrow> nat \<Rightarrow> nat \<Rightarrow> nat \<Rightarrow> listpack option" where
  "splice lp at rm ins =
     (let buf = lp_buf lp; old = length buf; tail = at + rm in
      if ins > rm then
        map_option (\<lambda>b. lp\<lparr>lp_buf := b\<rparr>)
          (copy_within (vec_resize buf (old + (ins - rm))) tail old (at + ins))
      else if ins < rm then
        do { b \<leftarrow> copy_within buf tail old (at + ins);
             keep \<leftarrow> checked_sub old (rm - ins);
             Some (lp\<lparr>lp_buf := take keep b\<rparr>) }
      else Some lp)"

definition write_at :: "listpack \<Rightarrow> nat \<Rightarrow> payload \<Rightarrow> nat \<Rightarrow> listpack" where
  "write_at lp off p tot =
     (case slice_get (lp_buf lp) off (off + tot) of
        None \<Rightarrow> lp
      | Some dst \<Rightarrow> lp\<lparr>lp_buf := slice_put (lp_buf lp) off (write_payload dst p)\<rparr>)"

definition insert_at_offset :: "listpack \<Rightarrow> nat \<Rightarrow> lp_entry \<Rightarrow> (bool \<times> listpack) option" where
  "insert_at_offset lp off v =
     (let p = canonicalize v; enclen = payload_enclen p; total = enclen + backlen_size enclen in
      if \<not> safe_to_add lp total then Some (False, lp)
      else do {
        lp \<leftarrow> splice lp off 0 total;
        Some (True, sync_header (write_at lp off p total) 1) })"

definition lp_append :: "listpack \<Rightarrow> lp_entry \<Rightarrow> (bool \<times> listpack) option" where
  "lp_append lp v = insert_at_offset lp (eof_offset lp) v"

definition lp_prepend :: "listpack \<Rightarrow> lp_entry \<Rightarrow> (bool \<times> listpack) option" where
  "lp_prepend lp v = insert_at_offset lp LP_HDR_SIZE v"

definition lp_insert :: "listpack \<Rightarrow> nat \<Rightarrow> lp_entry \<Rightarrow> (bool \<times> listpack) option" where
  "lp_insert lp index v =
     (if index \<ge> lp_len lp then insert_at_offset lp (eof_offset lp) v
      else (case seek_fwd lp index of
              Some off \<Rightarrow> insert_at_offset lp off v
            | None \<Rightarrow> Some (False, lp)))"

definition lp_replace :: "listpack \<Rightarrow> nat \<Rightarrow> lp_entry \<Rightarrow> (bool \<times> listpack) option" where
  "lp_replace lp index v =
     (case seek lp (int index) of
        None \<Rightarrow> Some (False, lp)
      | Some off \<Rightarrow>
          (case entry_span lp off of
             None \<Rightarrow> Some (False, lp)
           | Some old_span \<Rightarrow>
               (let p = canonicalize v; enclen = payload_enclen p; total = enclen + backlen_size enclen in
                if total > old_span \<and> \<not> safe_to_add lp (total - old_span) then Some (False, lp)
                else do {
                  lp \<leftarrow> splice lp off old_span total;
                  Some (True, sync_header (write_at lp off p total) 0) })))"

definition lp_delete :: "listpack \<Rightarrow> int \<Rightarrow> (bool \<times> listpack) option" where
  "lp_delete lp index =
     (case seek lp index of
        None \<Rightarrow> Some (False, lp)
      | Some off \<Rightarrow>
          (case entry_span lp off of
             None \<Rightarrow> Some (False, lp)
           | Some span \<Rightarrow> do { lp \<leftarrow> splice lp off span 0; Some (True, sync_header lp (- 1)) }))"

fun delete_range_loop :: "listpack \<Rightarrow> nat \<Rightarrow> nat \<Rightarrow> nat \<Rightarrow> nat \<times> nat" where
  "delete_range_loop lp 0 end removed = (end, removed)"
| "delete_range_loop lp (Suc count) end removed =
     (if end < eof_offset lp then
        (case entry_span lp end of
           Some s \<Rightarrow> delete_range_loop lp count (end + s) (removed + 1)
         | None \<Rightarrow> (end, removed))
      else (end, removed))"

definition delete_range :: "listpack \<Rightarrow> nat \<Rightarrow> nat \<Rightarrow> (nat \<times> listpack) option" where
  "delete_range lp index count =
     (if count = 0 then Some (0, lp)
      else (case seek_fwd lp index of
              None \<Rightarrow> Some (0, lp)
            | Some start \<Rightarrow>
                (case delete_range_loop lp count start 0 of (end, removed) \<Rightarrow>
                   if removed = 0 then Some (0, lp)
                   else do { lp \<leftarrow> splice lp start (end - start) 0;
                             Some (removed, sync_header lp (- int removed)) })))"

definition delete_byte_range :: "listpack \<Rightarrow> nat \<Rightarrow> nat \<Rightarrow> nat \<Rightarrow> listpack option" where
  "delete_byte_range lp from to count =
     (if to \<le> from then Some lp
      else do { lp \<leftarrow> splice lp from (to - from) 0; Some (sync_header lp (- int count)) })"

definition append_all :: "listpack \<Rightarrow> listpack \<Rightarrow> (bool \<times> listpack) option" where
  "append_all lp other =
     (let extra = length (lp_buf other) - (LP_HDR_SIZE + 1) in
      if \<not> safe_to_add lp extra then Some (False, lp)
      else (let at = eof_offset lp; n = lp_len other in do {
        lp \<leftarrow> splice lp at 0 extra;
        let lp = (case (slice_get (lp_buf lp) at (at + extra), slice_get (lp_buf other) LP_HDR_SIZE (LP_HDR_SIZE + extra)) of
                    (Some _, Some src) \<Rightarrow> lp\<lparr>lp_buf := slice_put (lp_buf lp) at src\<rparr>
                  | _ \<Rightarrow> lp);
        Some (True, sync_header lp (int n)) }))"

fun from_entries_loop :: "listpack \<Rightarrow> lp_entry list \<Rightarrow> listpack option" where
  "from_entries_loop lp [] = Some lp"
| "from_entries_loop lp (e # es) = do { (_, lp') \<leftarrow> lp_append lp e; from_entries_loop lp' es }"

definition from_entries :: "lp_entry list \<Rightarrow> listpack option" where
  "from_entries items = from_entries_loop lp_new items"

end
