(* ===== verification/Quicklist.thy ===== *)
theory Quicklist
  imports Listpack
begin

text \<open>
  The quicklist, \<^verbatim>\<open>src/src/encoding/quicklist.rs\<close>: a deque of nodes, each a listpack or one large element, with
  the number of elements beside it. Operations that change a listpack return \<open>None\<close> where a slice operation or a
  subtraction of the source would panic; the proofs in \<^verbatim>\<open>Quicklist_Proofs\<close> show that this never happens. The
  deque's front is the head of the node list. \<^verbatim>\<open>mem_usage\<close>, which sums allocator capacities, is left out.
\<close>

subsection \<open>Node limits\<close>

definition OPTIMIZATION_LEVEL :: "nat list" where "OPTIMIZATION_LEVEL = [4096, 8192, 16384, 32768, 65536]"

definition SIZE_SAFETY_LIMIT :: nat where "SIZE_SAFETY_LIMIT = 8192"

definition SIZE_ESTIMATE_OVERHEAD :: nat where "SIZE_ESTIMATE_OVERHEAD = 11"

definition DEFAULT_FILL :: int where "DEFAULT_FILL = 128"

definition node_limit :: "int \<Rightarrow> nat \<times> nat" where
  "node_limit fill =
     (if fill \<ge> 0 then (0, if fill = 0 then 1 else nat fill)
      else (let idx = min (max (nat (- fill)) 1) (length OPTIMIZATION_LEVEL) - 1 in
            (case nth_opt OPTIMIZATION_LEVEL idx of Some n \<Rightarrow> n | None \<Rightarrow> 8192, 0)))"

definition exceeds_limit :: "int \<Rightarrow> nat \<Rightarrow> nat \<Rightarrow> bool" where
  "exceeds_limit fill new_sz new_count =
     (case node_limit fill of (sz_limit, count_limit) \<Rightarrow>
        if sz_limit \<noteq> 0 then new_sz > sz_limit
        else if count_limit \<noteq> 0 then (if new_sz > SIZE_SAFETY_LIMIT then True else new_count > count_limit)
        else False)"

definition is_large_element :: "nat \<Rightarrow> int \<Rightarrow> bool" where
  "is_large_element sz fill = (if fill \<ge> 0 then sz > SIZE_SAFETY_LIMIT else sz > fst (node_limit fill))"

subsection \<open>Nodes\<close>

datatype ql_node = Packed listpack | Plain bytes

fun node_count :: "ql_node \<Rightarrow> nat" where
  "node_count (Packed lp) = lp_len lp"
| "node_count (Plain b) = 1"

fun node_bytes :: "ql_node \<Rightarrow> nat" where
  "node_bytes (Packed lp) = length (lp_buf lp)"
| "node_bytes (Plain b) = length b"

fun is_plain :: "ql_node \<Rightarrow> bool" where
  "is_plain (Packed lp) = False"
| "is_plain (Plain b) = True"

fun node_get :: "ql_node \<Rightarrow> nat \<Rightarrow> lp_entry option" where
  "node_get (Packed lp) i = lp_get lp (int i)"
| "node_get (Plain b) i = (if i = 0 then Some (EStr b) else None)"

definition allows_insert :: "ql_node \<Rightarrow> int \<Rightarrow> nat \<Rightarrow> bool" where
  "allows_insert n fill sz =
     (if is_plain n \<or> is_large_element sz fill then False
      else \<not> exceeds_limit fill (node_bytes n + sz + SIZE_ESTIMATE_OVERHEAD) (node_count n + 1))"

definition allows_merge :: "ql_node \<Rightarrow> ql_node \<Rightarrow> int \<Rightarrow> bool" where
  "allows_merge a b fill =
     (if is_plain a \<or> is_plain b then False
      else \<not> exceeds_limit fill (node_bytes a + node_bytes b - 11) (node_count a + node_count b))"

subsection \<open>The list\<close>

record quicklist =
  ql_nodes :: "ql_node list"
  ql_count :: nat
  ql_fill :: int
  ql_compress_depth :: nat

definition ql_new :: "int \<Rightarrow> quicklist" where
  "ql_new fill = \<lparr>ql_nodes = [], ql_count = 0, ql_fill = fill, ql_compress_depth = 0\<rparr>"

definition ql_default :: quicklist where
  "ql_default = ql_new DEFAULT_FILL"

definition ql_len :: "quicklist \<Rightarrow> nat" where
  "ql_len q = ql_count q"

definition ql_is_empty :: "quicklist \<Rightarrow> bool" where
  "ql_is_empty q \<longleftrightarrow> ql_count q = 0"

definition ql_node_count :: "quicklist \<Rightarrow> nat" where
  "ql_node_count q = length (ql_nodes q)"

definition set_fill :: "quicklist \<Rightarrow> int \<Rightarrow> quicklist" where
  "set_fill q fill = q\<lparr>ql_fill := fill\<rparr>"

definition set_compress_depth :: "quicklist \<Rightarrow> nat \<Rightarrow> quicklist" where
  "set_compress_depth q d = q\<lparr>ql_compress_depth := d\<rparr>"

definition ql_clear :: "quicklist \<Rightarrow> quicklist" where
  "ql_clear q = q\<lparr>ql_nodes := [], ql_count := 0\<rparr>"

definition new_node :: "quicklist \<Rightarrow> bytes \<Rightarrow> ql_node option" where
  "new_node q v =
     (if is_large_element (length v) (ql_fill q) then Some (Plain v)
      else do { (_, lp) \<leftarrow> lp_append lp_new (EStr v); Some (Packed lp) })"

text \<open>The guard chain of the pushes and of \<^verbatim>\<open>ql_insert_at\<close>: the node exists, is packed, has room under the fill
  limit, and its listpack accepts the element.\<close>

definition insert_in :: "quicklist \<Rightarrow> nat \<Rightarrow> bytes \<Rightarrow> (listpack \<Rightarrow> (bool \<times> listpack) option) \<Rightarrow> (bool \<times> quicklist) option" where
  "insert_in q ni v f =
     (case nth_opt (ql_nodes q) ni of
        Some (Packed lp) \<Rightarrow>
          if allows_insert (Packed lp) (ql_fill q) (length v)
          then do { (ok, lp) \<leftarrow> f lp; Some (ok, q\<lparr>ql_nodes := (ql_nodes q)[ni := Packed lp]\<rparr>) }
          else Some (False, q)
      | _ \<Rightarrow> Some (False, q))"

definition push_head :: "quicklist \<Rightarrow> bytes \<Rightarrow> (bool \<times> quicklist) option" where
  "push_head q v = do {
     (ok, q) \<leftarrow> insert_in (q\<lparr>ql_count := ql_count q + 1\<rparr>) 0 v (\<lambda>lp. lp_prepend lp (EStr v));
     if ok then Some (False, q)
     else do { node \<leftarrow> new_node q v; Some (True, q\<lparr>ql_nodes := node # ql_nodes q\<rparr>) } }"

definition push_tail :: "quicklist \<Rightarrow> bytes \<Rightarrow> (bool \<times> quicklist) option" where
  "push_tail q v = do {
     (ok, q) \<leftarrow> insert_in (q\<lparr>ql_count := ql_count q + 1\<rparr>) (length (ql_nodes q) - 1) v (\<lambda>lp. lp_append lp (EStr v));
     if ok then Some (False, q)
     else do { node \<leftarrow> new_node q v; Some (True, q\<lparr>ql_nodes := ql_nodes q @ [node]\<rparr>) } }"

fun push_all :: "quicklist \<Rightarrow> bytes list \<Rightarrow> quicklist option" where
  "push_all q [] = Some q"
| "push_all q (v # vs) = do { (_, q) \<leftarrow> push_tail q v; push_all q vs }"

definition from_values :: "int \<Rightarrow> bytes list \<Rightarrow> quicklist option" where
  "from_values fill items = push_all (ql_new fill) items"

definition ql_head :: "quicklist \<Rightarrow> lp_entry option" where
  "ql_head q = do { n \<leftarrow> nth_opt (ql_nodes q) 0; node_get n 0 }"

definition ql_tail :: "quicklist \<Rightarrow> lp_entry option" where
  "ql_tail q = do {
     n \<leftarrow> nth_opt (ql_nodes q) (length (ql_nodes q) - 1);
     (case n of Packed lp \<Rightarrow> lp_last lp | Plain b \<Rightarrow> Some (EStr b)) }"

text \<open>\<^verbatim>\<open>drop_head\<close> and \<^verbatim>\<open>drop_tail\<close> delete the element \<open>i\<close> (0 or \<open>-1\<close>) of the first or last node, and the node when it
  is left empty.\<close>

definition node_remove :: "quicklist \<Rightarrow> nat \<Rightarrow> quicklist" where
  "node_remove q ni = q\<lparr>ql_nodes := take ni (ql_nodes q) @ drop (Suc ni) (ql_nodes q)\<rparr>"

definition ql_uncount :: "quicklist \<Rightarrow> nat \<Rightarrow> quicklist option" where
  "ql_uncount q n = do { c \<leftarrow> checked_sub (ql_count q) n; Some (q\<lparr>ql_count := c\<rparr>) }"

definition drop_end :: "quicklist \<Rightarrow> nat \<Rightarrow> int \<Rightarrow> (bool \<times> quicklist) option" where
  "drop_end q ni i =
     (case nth_opt (ql_nodes q) ni of
        None \<Rightarrow> Some (False, q)
      | Some (Packed lp) \<Rightarrow> do {
          (ok, lp) \<leftarrow> lp_delete lp i;
          if \<not> ok then Some (False, q)
          else do {
            q \<leftarrow> ql_uncount (if lp_is_empty lp then node_remove q ni else q\<lparr>ql_nodes := (ql_nodes q)[ni := Packed lp]\<rparr>) 1;
            Some (True, q) } }
      | Some (Plain _) \<Rightarrow> do { q \<leftarrow> ql_uncount (node_remove q ni) 1; Some (True, q) })"

definition drop_head :: "quicklist \<Rightarrow> (bool \<times> quicklist) option" where
  "drop_head q = drop_end q 0 0"

definition drop_tail :: "quicklist \<Rightarrow> (bool \<times> quicklist) option" where
  "drop_tail q = drop_end q (length (ql_nodes q) - 1) (- 1)"

definition pop_head :: "(int \<Rightarrow> bytes) \<Rightarrow> quicklist \<Rightarrow> (bytes option \<times> quicklist) option" where
  "pop_head itoa q =
     (case ql_head q of
        None \<Rightarrow> Some (None, q)
      | Some e \<Rightarrow> do { (_, q) \<leftarrow> drop_head q; Some (Some (entry_write_to itoa e []), q) })"

definition pop_tail :: "(int \<Rightarrow> bytes) \<Rightarrow> quicklist \<Rightarrow> (bytes option \<times> quicklist) option" where
  "pop_tail itoa q =
     (case ql_tail q of
        None \<Rightarrow> Some (None, q)
      | Some e \<Rightarrow> do { (_, q) \<leftarrow> drop_tail q; Some (Some (entry_write_to itoa e []), q) })"

subsection \<open>Positions\<close>

definition normalize :: "quicklist \<Rightarrow> int \<Rightarrow> nat option" where
  "normalize q index =
     (let i = (if index < 0 then index + int (ql_count q) else index) in
      if i < 0 \<or> nat i \<ge> ql_count q then None else Some (nat i))"

fun locate_fwd :: "ql_node list \<Rightarrow> nat \<Rightarrow> nat \<Rightarrow> nat \<Rightarrow> (nat \<times> nat) option" where
  "locate_fwd [] i ni acc = None"
| "locate_fwd (n # ns) i ni acc =
     (let c = node_count n in if i < acc + c then Some (ni, i - acc) else locate_fwd ns i (Suc ni) (acc + c))"

text \<open>The backward walk visits the nodes from the last; its argument is the reversed deque, so the index of the
  visited node is the number of nodes that remain.\<close>

fun locate_back :: "ql_node list \<Rightarrow> nat \<Rightarrow> nat \<Rightarrow> (nat \<times> nat) option" where
  "locate_back [] i acc = None"
| "locate_back (n # ns) i acc =
     (let acc = acc - node_count n in if i \<ge> acc then Some (length ns, i - acc) else locate_back ns i acc)"

definition locate :: "quicklist \<Rightarrow> nat \<Rightarrow> (nat \<times> nat) option" where
  "locate q i =
     (if i \<ge> ql_count q then None
      else if i \<le> ql_count q div 2 then locate_fwd (ql_nodes q) i 0 0
      else locate_back (rev (ql_nodes q)) i (ql_count q))"

definition ql_index :: "quicklist \<Rightarrow> int \<Rightarrow> lp_entry option" where
  "ql_index q index = do { i \<leftarrow> normalize q index; (ni, off) \<leftarrow> locate q i; n \<leftarrow> nth_opt (ql_nodes q) ni; node_get n off }"

subsection \<open>Merging\<close>

definition try_merge :: "quicklist \<Rightarrow> nat \<Rightarrow> (bool \<times> quicklist) option" where
  "try_merge q i =
     (case (nth_opt (ql_nodes q) i, nth_opt (ql_nodes q) (i + 1)) of
        (Some a, Some b) \<Rightarrow>
          if \<not> allows_merge a b (ql_fill q) then Some (False, q)
          else (let q = node_remove q (i + 1) in
                case (b, a) of
                  (Packed src, Packed dst) \<Rightarrow> do {
                    (_, dst) \<leftarrow> append_all dst src;
                    Some (True, q\<lparr>ql_nodes := (ql_nodes q)[i := Packed dst]\<rparr>) }
                | (Packed _, Plain _) \<Rightarrow> Some (True, q)
                | (Plain _, _) \<Rightarrow> Some (False, q))
      | _ \<Rightarrow> Some (False, q))"

definition merge_around :: "quicklist \<Rightarrow> nat \<Rightarrow> quicklist option" where
  "merge_around q ni = do {
     (at, q) \<leftarrow> (if ni > 0 then do { (ok, q) \<leftarrow> try_merge q (ni - 1); Some (if ok then ni - 1 else ni, q) } else Some (ni, q));
     (_, q) \<leftarrow> try_merge q at;
     Some q }"

subsection \<open>Insertion\<close>

definition node_insert :: "quicklist \<Rightarrow> nat \<Rightarrow> ql_node \<Rightarrow> quicklist" where
  "node_insert q ni n = q\<lparr>ql_nodes := take ni (ql_nodes q) @ [n] @ drop ni (ql_nodes q)\<rparr>"

definition ql_inc :: "quicklist \<Rightarrow> quicklist" where
  "ql_inc q = q\<lparr>ql_count := ql_count q + 1\<rparr>"

text \<open>The last case of \<^verbatim>\<open>ql_insert_at\<close>: split the listpack of node \<open>ni\<close> before its element \<open>off\<close> and put the new
  element into a node of its own between the halves.\<close>

definition split_insert :: "quicklist \<Rightarrow> nat \<Rightarrow> nat \<Rightarrow> bytes \<Rightarrow> listpack \<Rightarrow> (bool \<times> quicklist) option" where
  "split_insert q ni off v lp = do {
     let total = lp_len lp;
     tail \<leftarrow> from_entries (drop off (lp_iter lp));
     removed \<leftarrow> checked_sub total off;
     lp \<leftarrow> (case seek lp (int off) of Some from \<Rightarrow> delete_byte_range lp from (eof_offset lp) removed | None \<Rightarrow> Some lp);
     let q = q\<lparr>ql_nodes := (ql_nodes q)[ni := Packed lp]\<rparr>;
     mid \<leftarrow> new_node q v;
     let q = ql_inc (node_insert (node_insert q (ni + 1) (Packed tail)) (ni + 1) mid);
     q \<leftarrow> merge_around q (ni + 1);
     Some (True, q) }"

definition ql_insert_at :: "quicklist \<Rightarrow> nat \<Rightarrow> bytes \<Rightarrow> (bool \<times> quicklist) option" where
  "ql_insert_at q i v =
     (if i = 0 then do { (_, q) \<leftarrow> push_head q v; Some (True, q) }
      else if i \<ge> ql_count q then do { (_, q) \<leftarrow> push_tail q v; Some (True, q) }
      else (case locate q i of
              None \<Rightarrow> Some (False, q)
            | Some (ni, off) \<Rightarrow> do {
                (ok, q) \<leftarrow> insert_in q ni v (\<lambda>lp. lp_insert lp off (EStr v));
                if ok then Some (True, ql_inc q)
                else do {
                  (ok, q) \<leftarrow> (if off = 0 \<and> ni > 0 then insert_in q (ni - 1) v (\<lambda>lp. lp_append lp (EStr v)) else Some (False, q));
                  if ok then Some (True, ql_inc q)
                  else (case nth_opt (ql_nodes q) ni of
                          None \<Rightarrow> Some (False, q)
                        | Some n \<Rightarrow>
                            if off = 0 \<or> is_plain n
                            then do { node \<leftarrow> new_node q v; q \<leftarrow> merge_around (ql_inc (node_insert q ni node)) ni; Some (True, q) }
                            else (case n of Plain _ \<Rightarrow> Some (False, q) | Packed lp \<Rightarrow> split_insert q ni off v lp)) } }))"

definition insert_before :: "quicklist \<Rightarrow> int \<Rightarrow> bytes \<Rightarrow> (bool \<times> quicklist) option" where
  "insert_before q index v = (case normalize q index of None \<Rightarrow> Some (False, q) | Some i \<Rightarrow> ql_insert_at q i v)"

definition insert_after :: "quicklist \<Rightarrow> int \<Rightarrow> bytes \<Rightarrow> (bool \<times> quicklist) option" where
  "insert_after q index v = (case normalize q index of None \<Rightarrow> Some (False, q) | Some i \<Rightarrow> ql_insert_at q (i + 1) v)"

subsection \<open>Deletion\<close>

text \<open>The loop of \<^verbatim>\<open>delete_range\<close>: the number of elements still to delete and the list, at its end.\<close>

function delete_loop :: "quicklist \<Rightarrow> nat \<Rightarrow> nat \<Rightarrow> (nat \<times> quicklist) option" where
  "delete_loop q i left =
     (if left = 0 then Some (0, q)
      else (case locate q i of
              None \<Rightarrow> Some (left, q)
            | Some (ni, off) \<Rightarrow>
                (case nth_opt (ql_nodes q) ni of
                   None \<Rightarrow> Some (left, q)
                 | Some (Plain _) \<Rightarrow> Option.bind (ql_uncount (node_remove q ni) 1) (\<lambda>q. delete_loop q i (left - 1))
                 | Some (Packed lp) \<Rightarrow>
                     Option.bind (checked_sub (lp_len lp) off) (\<lambda>avail.
                     Option.bind (Listpack.delete_range lp off (min avail left)) (\<lambda>(got, lp).
                       if got = 0 then Some (left, q\<lparr>ql_nodes := (ql_nodes q)[ni := Packed lp]\<rparr>)
                       else if left < got then None
                       else Option.bind (ql_uncount (if lp_is_empty lp then node_remove q ni else q\<lparr>ql_nodes := (ql_nodes q)[ni := Packed lp]\<rparr>) got)
                              (\<lambda>q. delete_loop q i (left - got)))))))"
  by pat_completeness auto
termination
  by (relation "measure (\<lambda>(q, i, left). left)") auto

declare delete_loop.simps [simp del]

definition ql_delete_range :: "quicklist \<Rightarrow> int \<Rightarrow> nat \<Rightarrow> (nat \<times> quicklist) option" where
  "ql_delete_range q start count =
     (if count = 0 \<or> ql_count q = 0 then Some (0, q)
      else (case normalize q start of
              None \<Rightarrow> Some (0, q)
            | Some i \<Rightarrow>
                (let want = min count (ql_count q - i) in do {
                   (left, q) \<leftarrow> delete_loop q i want;
                   let removed = want - left;
                   q \<leftarrow> (if removed > 0 \<and> ql_nodes q \<noteq> []
                          then (case locate q (min i (ql_count q - 1)) of Some (ni, _) \<Rightarrow> merge_around q ni | None \<Rightarrow> Some q)
                          else Some q);
                   Some (removed, q) })))"

definition ql_set :: "quicklist \<Rightarrow> int \<Rightarrow> bytes \<Rightarrow> (bool \<times> quicklist) option" where
  "ql_set q index v =
     (case normalize q index of
        None \<Rightarrow> Some (False, q)
      | Some i \<Rightarrow>
          (case locate q i of
             None \<Rightarrow> Some (False, q)
           | Some (ni, off) \<Rightarrow>
               (case nth_opt (ql_nodes q) ni of
                  None \<Rightarrow> Some (False, q)
                | Some n \<Rightarrow>
                    (case (n, is_large_element (length v) (ql_fill q)) of
                       (Plain _, True) \<Rightarrow> Some (True, q\<lparr>ql_nodes := (ql_nodes q)[ni := Plain v]\<rparr>)
                     | (Packed lp, False) \<Rightarrow> do {
                         (ok, lp) \<leftarrow> lp_replace lp off (EStr v);
                         Some (ok, q\<lparr>ql_nodes := (ql_nodes q)[ni := Packed lp]\<rparr>) }
                     | _ \<Rightarrow> do { (_, q) \<leftarrow> ql_delete_range q (int i) 1; ql_insert_at q i v }))))"

subsection \<open>Iteration\<close>

datatype cursor = CPacked listpack nat | CPlain "bytes option"

fun node_cursor :: "ql_node \<Rightarrow> nat \<Rightarrow> cursor" where
  "node_cursor (Packed lp) off = CPacked lp (case seek lp (int off) of Some s \<Rightarrow> s | None \<Rightarrow> eof_offset lp)"
| "node_cursor (Plain b) off = CPlain (if off = 0 then Some b else None)"

fun cursor_next :: "cursor \<Rightarrow> lp_entry option \<times> cursor" where
  "cursor_next (CPacked lp off) = (case iter_step lp off of None \<Rightarrow> (None, CPacked lp off) | Some (e, off) \<Rightarrow> (Some e, CPacked lp off))"
| "cursor_next (CPlain v) = (map_option EStr v, CPlain None)"

record ql_fwd_iter =
  it_node :: nat
  it_cur :: "cursor option"
  it_remaining :: nat

definition ql_iter :: "quicklist \<Rightarrow> ql_fwd_iter" where
  "ql_iter q = \<lparr>it_node = 0, it_cur = None, it_remaining = ql_count q\<rparr>"

definition ql_iter_from :: "quicklist \<Rightarrow> int \<Rightarrow> ql_fwd_iter" where
  "ql_iter_from q index =
     (case normalize q index of
        None \<Rightarrow> \<lparr>it_node = length (ql_nodes q), it_cur = None, it_remaining = 0\<rparr>
      | Some i \<Rightarrow>
          (let it = \<lparr>it_node = 0, it_cur = None, it_remaining = ql_count q - i\<rparr> in
           case locate q i of
             None \<Rightarrow> it
           | Some (ni, off) \<Rightarrow> it\<lparr>it_node := ni + 1, it_cur := map_option (\<lambda>n. node_cursor n off) (nth_opt (ql_nodes q) ni)\<rparr>))"

text \<open>The loop of \<^verbatim>\<open>next\<close>: advance the cursor, or open the next node when it is exhausted.\<close>

function next_loop :: "quicklist \<Rightarrow> ql_fwd_iter \<Rightarrow> lp_entry option \<times> ql_fwd_iter" where
  "next_loop q it =
     (case (case it_cur it of None \<Rightarrow> (None, None) | Some c \<Rightarrow> (case cursor_next c of (e, c) \<Rightarrow> (e, Some c))) of
        (Some e, c) \<Rightarrow> (Some e, it\<lparr>it_cur := c, it_remaining := it_remaining it - 1\<rparr>)
      | (None, c) \<Rightarrow>
          (case nth_opt (ql_nodes q) (it_node it) of
             None \<Rightarrow> (None, it\<lparr>it_cur := c\<rparr>)
           | Some n \<Rightarrow> next_loop q (it\<lparr>it_cur := Some (node_cursor n 0), it_node := it_node it + 1\<rparr>)))"
  by pat_completeness auto
termination
  by (relation "measure (\<lambda>(q, it). length (ql_nodes q) - it_node it)") (auto simp: nth_opt_def split: if_splits)

declare next_loop.simps [simp del]

definition ql_next :: "quicklist \<Rightarrow> ql_fwd_iter \<Rightarrow> lp_entry option \<times> ql_fwd_iter" where
  "ql_next q it = (if it_remaining it = 0 then (None, it) else next_loop q it)"

record ql_rev_iter =
  rit_node :: nat
  rit_buf :: "nat list"
  rit_pos :: nat
  rit_remaining :: nat

definition ql_iter_rev :: "quicklist \<Rightarrow> ql_rev_iter" where
  "ql_iter_rev q = \<lparr>rit_node = length (ql_nodes q), rit_buf = [], rit_pos = 0, rit_remaining = ql_count q\<rparr>"

lemma next_offset_less: "next_offset lp off = Some n \<Longrightarrow> off < n"
  by (auto simp: next_offset_def entry_span_def bind_eq_Some_conv Let_def backlen_size_def split: if_splits)

lemma next_offset_le_eof: "next_offset lp off = Some n \<Longrightarrow> off < eof_offset lp"
  by (auto simp: next_offset_def split: if_splits)

function entry_offsets :: "listpack \<Rightarrow> nat \<Rightarrow> nat list" where
  "entry_offsets lp off =
     (if off < eof_offset lp then off # (case next_offset lp off of Some o' \<Rightarrow> entry_offsets lp o' | None \<Rightarrow> []) else [])"
  by pat_completeness auto
termination
  by (relation "measure (\<lambda>(lp, off). eof_offset lp - off)") (auto dest: next_offset_less)

declare entry_offsets.simps [simp del]

fun node_offsets :: "ql_node \<Rightarrow> nat list" where
  "node_offsets (Packed lp) = entry_offsets lp LP_HDR_SIZE"
| "node_offsets (Plain b) = [0]"

function rev_next_loop :: "quicklist \<Rightarrow> ql_rev_iter \<Rightarrow> lp_entry option \<times> ql_rev_iter" where
  "rev_next_loop q it =
     (if rit_pos it > 0 then
        (let it = it\<lparr>rit_pos := rit_pos it - 1\<rparr> in
         case nth_opt (rit_buf it) (rit_pos it) of
           None \<Rightarrow> (None, it)
         | Some off \<Rightarrow>
             (case nth_opt (ql_nodes q) (rit_node it) of
                None \<Rightarrow> (None, it)
              | Some n \<Rightarrow>
                  (case n of Packed lp \<Rightarrow> entry_at lp off | Plain b \<Rightarrow> Some (EStr b), it\<lparr>rit_remaining := rit_remaining it - 1\<rparr>)))
      else if rit_node it = 0 then (None, it)
      else
        (let it = it\<lparr>rit_node := rit_node it - 1\<rparr> in
         case nth_opt (ql_nodes q) (rit_node it) of
           None \<Rightarrow> (None, it)
         | Some n \<Rightarrow> rev_next_loop q (it\<lparr>rit_buf := node_offsets n, rit_pos := length (node_offsets n)\<rparr>)))"
  by pat_completeness auto
termination
  by (relation "measure (\<lambda>(q, it). rit_node it)") auto

declare rev_next_loop.simps [simp del]

definition ql_rev_next :: "quicklist \<Rightarrow> ql_rev_iter \<Rightarrow> lp_entry option \<times> ql_rev_iter" where
  "ql_rev_next q it = (if rit_remaining it = 0 then (None, it) else rev_next_loop q it)"

subsection \<open>Search by value\<close>

text \<open>\<^verbatim>\<open>Iterator::position\<close> on both iterators: call \<^verbatim>\<open>next\<close> until an element equals the needle or the iterator ends.
  Every element returned lowers the number of remaining elements, so this ends.\<close>

lemma next_loop_remaining: "next_loop q it = (Some e, it') \<Longrightarrow> it_remaining it' = it_remaining it - 1"
proof (induction "length (ql_nodes q) - it_node it" arbitrary: it rule: less_induct)
  case less
  have IH: "it_remaining it' = it_remaining it - 1"
    if "next_loop q (it\<lparr>it_cur := c, it_node := Suc (it_node it)\<rparr>) = (Some e, it')" "it_node it < length (ql_nodes q)" for c
    using less.hyps [OF _ that(1)] that(2) by simp
  show ?case using less.prems by (subst (asm) next_loop.simps) (auto simp: nth_opt_def split: option.splits prod.splits if_splits dest: IH)
qed

lemma ql_next_remaining: "ql_next q it = (Some e, it') \<Longrightarrow> it_remaining it' < it_remaining it"
  by (auto simp: ql_next_def dest: next_loop_remaining split: if_splits)

lemma rev_next_loop_remaining: "rev_next_loop q it = (Some e, it') \<Longrightarrow> rit_remaining it' = rit_remaining it - 1"
proof (induction "rit_node it" arbitrary: it rule: less_induct)
  case less
  have IH: "rit_remaining it' = rit_remaining it - 1"
    if "rev_next_loop q (it\<lparr>rit_node := rit_node it - Suc 0, rit_buf := b, rit_pos := p\<rparr>) = (Some e, it')" "0 < rit_node it" for b p
    using less.hyps [OF _ that(1)] that(2) by simp
  show ?case using less.prems by (subst (asm) rev_next_loop.simps) (auto simp: Let_def split: option.splits if_splits dest: IH)
qed

lemma ql_rev_next_remaining: "ql_rev_next q it = (Some e, it') \<Longrightarrow> rit_remaining it' < rit_remaining it"
  by (auto simp: ql_rev_next_def dest: rev_next_loop_remaining split: if_splits)

function iter_position :: "quicklist \<Rightarrow> ql_fwd_iter \<Rightarrow> bytes \<Rightarrow> nat \<Rightarrow> nat option" where
  "iter_position q it v k =
     (case ql_next q it of
        (None, _) \<Rightarrow> None
      | (Some e, it) \<Rightarrow> if eq_bytes e v then Some k else iter_position q it v (k + 1))"
  by pat_completeness auto
termination
  by (relation "measure (\<lambda>(q, it, v, k). it_remaining it)") (auto dest!: ql_next_remaining [OF sym])

declare iter_position.simps [simp del]

definition position :: "quicklist \<Rightarrow> bytes \<Rightarrow> nat option" where
  "position q v = iter_position q (ql_iter q) v 0"

function rev_position :: "quicklist \<Rightarrow> ql_rev_iter \<Rightarrow> bytes \<Rightarrow> nat \<Rightarrow> nat option" where
  "rev_position q it v k =
     (case ql_rev_next q it of
        (None, _) \<Rightarrow> None
      | (Some e, it) \<Rightarrow> if eq_bytes e v then Some k else rev_position q it v (k + 1))"
  by pat_completeness auto
termination
  by (relation "measure (\<lambda>(q, it, v, k). rit_remaining it)") (auto dest!: ql_rev_next_remaining [OF sym])

declare rev_position.simps [simp del]

definition rposition :: "quicklist \<Rightarrow> bytes \<Rightarrow> nat option" where
  "rposition q v = map_option (\<lambda>k. ql_count q - 1 - k) (rev_position q (ql_iter_rev q) v 0)"

function remove_loop :: "quicklist \<Rightarrow> bytes \<Rightarrow> bool \<Rightarrow> nat \<Rightarrow> nat \<Rightarrow> (nat \<times> quicklist) option" where
  "remove_loop q v backward limit removed =
     (if removed < limit then
        (case if backward then rposition q v else position q v of
           None \<Rightarrow> Some (removed, q)
         | Some idx \<Rightarrow>
             Option.bind (ql_delete_range q (int idx) 1) (\<lambda>(n, q).
               if n = 0 then Some (removed, q) else remove_loop q v backward limit (removed + 1)))
      else Some (removed, q))"
  by pat_completeness auto
termination
  by (relation "measure (\<lambda>(q, v, backward, limit, removed). limit - removed)") auto

declare remove_loop.simps [simp del]

definition remove_value :: "quicklist \<Rightarrow> bytes \<Rightarrow> int \<Rightarrow> (nat \<times> quicklist) option" where
  "remove_value q v count =
     remove_loop q v (count < 0) (if count = 0 then 2 ^ 64 - 1 else nat \<bar>count\<bar>) 0"

end
