(* ===== verification/Listpack_Proofs.thy ===== *)
theory Listpack_Proofs
  imports Listpack
begin

text \<open>
  Correctness of the listpack model: decoding inverts encoding for every entry, backward lengths
  read back what was written, and \<open>lp_rep lp bs\<close> (the buffer is a header, the entry blocks \<open>bs\<close>
  and the terminator) is kept by every operation, with its effect on the list of decoded entries.
\<close>

unbundle bit_operations_syntax

subsection \<open>Tag bytes\<close>

lemma unat_and_low: "unat (b AND mask n :: byte) = unat b mod 2 ^ n"
  by (simp flip: take_bit_eq_mask add: unsigned_take_bit_eq take_bit_nat_def)

lemma unat_and_high: "unat (b AND NOT (mask n) :: byte) = unat b div 2 ^ n * 2 ^ n"
proof -
  have eq: "b AND NOT (mask n) = push_bit n (drop_bit n b)"
    by (rule bit_word_eqI) (auto simp: bit_simps)
  have "unat b < 2 ^ 8" using unat_byte_less [of b] by simp
  then have lt: "unat b div 2 ^ n * 2 ^ n < 2 ^ 8"
    using div_times_less_eq_dividend [of "unat b" "2 ^ n"] by linarith
  have "unat (push_bit n (drop_bit n b)) = take_bit 8 (push_bit n (drop_bit n (unat b)))"
    by (simp only: unsigned_push_bit_eq unsigned_drop_bit_eq) (simp add: take_bit_nat_eq_self drop_bit_eq_div less_le_trans)
  with lt show ?thesis by (simp add: eq drop_bit_eq_div push_bit_eq_mult take_bit_nat_eq_self)
qed

lemma byte_masks:
  "0x7f = (mask 7 :: byte)" "0x3f = (mask 6 :: byte)" "0x1f = (mask 5 :: byte)" "0x0f = (mask 4 :: byte)"
  "0x80 = NOT (mask 7 :: byte)" "0xC0 = NOT (mask 6 :: byte)" "0xE0 = NOT (mask 5 :: byte)" "0xF0 = NOT (mask 4 :: byte)"
  by (simp_all add: mask_eq_exp_minus_1)

lemma tag_bits:
  fixes b :: byte
  shows "b AND 0x80 = 0 \<longleftrightarrow> unat b < 128"
    "b AND 0xC0 = 0x80 \<longleftrightarrow> 128 \<le> unat b \<and> unat b < 192"
    "b AND 0xE0 = 0xC0 \<longleftrightarrow> 192 \<le> unat b \<and> unat b < 224"
    "b AND 0xF0 = 0xE0 \<longleftrightarrow> 224 \<le> unat b \<and> unat b < 240"
    "unat (b AND 0x7f) = unat b mod 128" "unat (b AND 0x3f) = unat b mod 64"
    "unat (b AND 0x1f) = unat b mod 32" "unat (b AND 0x0f) = unat b mod 16"
proof -
  have h: "unat (b AND 0x80) = unat b div 128 * 128" "unat (b AND 0xC0) = unat b div 64 * 64"
    "unat (b AND 0xE0) = unat b div 32 * 32" "unat (b AND 0xF0) = unat b div 16 * 16"
    by (simp_all only: byte_masks unat_and_high) simp_all
  show "b AND 0x80 = 0 \<longleftrightarrow> unat b < 128" using h(1) by (simp add: word_unat_eq_iff) arith
  show "b AND 0xC0 = 0x80 \<longleftrightarrow> 128 \<le> unat b \<and> unat b < 192" using h(2) by (simp add: word_unat_eq_iff) arith
  show "b AND 0xE0 = 0xC0 \<longleftrightarrow> 192 \<le> unat b \<and> unat b < 224" using h(3) by (simp add: word_unat_eq_iff) arith
  show "b AND 0xF0 = 0xE0 \<longleftrightarrow> 224 \<le> unat b \<and> unat b < 240" using h(4) by (simp add: word_unat_eq_iff) arith
  show "unat (b AND 0x7f) = unat b mod 128" "unat (b AND 0x3f) = unat b mod 64"
    "unat (b AND 0x1f) = unat b mod 32" "unat (b AND 0x0f) = unat b mod 16"
    by (simp_all only: byte_masks unat_and_low) simp_all
qed

lemma unat_or_disjoint:
  fixes t w :: byte
  assumes "unat t mod 2 ^ k = 0" and "unat w < 2 ^ k" and "unat t + 2 ^ k \<le> 256"
  shows "unat (t OR w) = unat t + unat w"
proof -
  have t: "t AND mask k = 0" using unat_and_low [of t k] assms(1) by (simp add: word_unat_eq_iff)
  have w: "w AND mask k = w" using unat_and_low [of w k] assms(2) by (simp add: word_unat_eq_iff)
  have "t AND w = (t AND mask k) AND w" by (subst w [symmetric]) (simp only: ac_simps)
  then have "t AND w = 0" using t by simp
  then have "t OR w = t + w" by (simp add: disjunctive_add_eq_or)
  then show ?thesis using assms(2,3) by (simp add: unat_word_ariths)
qed

subsection \<open>Encoding and decoding one entry\<close>

definition payload_entry :: "payload \<Rightarrow> lp_entry" where
  "payload_entry p = (case p of PInt v \<Rightarrow> EInt v | PStr s \<Rightarrow> EStr s)"

definition payload_ok :: "payload \<Rightarrow> bool" where
  "payload_ok p = (case p of PInt v \<Rightarrow> fits 8 v | PStr s \<Rightarrow> length s < 2 ^ 32)"

lemma length_payload_bytes: "length (payload_bytes p) = payload_enclen p"
  by (auto simp: payload_bytes_def payload_enclen_def Let_def split: payload.splits)

lemma decode_at_nth:
  assumes "nth_opt buf off = Some b0"
  shows "decode_at buf off =
    (if unat b0 < 128 then Some (EInt (int (unat b0 mod 128)), 1)
     else if 128 \<le> unat b0 \<and> unat b0 < 192 then
       Option.bind (slice_get buf (off + 1) (off + 1 + unat b0 mod 64)) (\<lambda>s. Some (EStr s, 1 + unat b0 mod 64))
     else if 192 \<le> unat b0 \<and> unat b0 < 224 then
       Option.bind (nth_opt buf (off + 1)) (\<lambda>b1. Some (EInt (let u = int (unat b0 mod 32) * 256 + uint b1
         in if u \<ge> 2 ^ 12 then u - 8192 else u), 2))
     else if 224 \<le> unat b0 \<and> unat b0 < 240 then
       Option.bind (nth_opt buf (off + 1)) (\<lambda>b1.
         Option.bind (slice_get buf (off + 2) (off + 2 + (unat b0 mod 16 * 256 + unat b1)))
           (\<lambda>s. Some (EStr s, 2 + (unat b0 mod 16 * 256 + unat b1))))
     else if b0 = 0xF1 then Option.bind (slice_get buf (off + 1) (off + 3)) (\<lambda>s. Some (EInt (sle_val s), 3))
     else if b0 = 0xF2 then Option.bind (slice_get buf (off + 1) (off + 4)) (\<lambda>s. Some (EInt (sle_val (0 # s) div 256), 4))
     else if b0 = 0xF3 then Option.bind (slice_get buf (off + 1) (off + 5)) (\<lambda>s. Some (EInt (sle_val s), 5))
     else if b0 = 0xF4 then Option.bind (slice_get buf (off + 1) (off + 9)) (\<lambda>s. Some (EInt (sle_val s), 9))
     else if b0 = 0xF0 then Option.bind (slice_get buf (off + 1) (off + 5)) (\<lambda>h.
         Option.bind (slice_get buf (off + 5) (off + 5 + nat (le_val h))) (\<lambda>s. Some (EStr s, 5 + nat (le_val h))))
     else None)"
proof -
  have u: "uint (b0 AND 0x7f) = int (unat b0 mod 128)" "uint (b0 AND 0x1f) = int (unat b0 mod 32)"
    by (simp_all add: uint_nat tag_bits)
  show ?thesis
    unfolding decode_at_def assms bind.bind_lunit Let_def u tag_bits by (rule refl)
qed

lemma decode_tags:
  assumes "nth_opt buf off = Some b0"
  shows "unat b0 < 128 \<Longrightarrow> decode_at buf off = Some (EInt (int (unat b0 mod 128)), 1)"
    "128 \<le> unat b0 \<Longrightarrow> unat b0 < 192 \<Longrightarrow> decode_at buf off =
       Option.bind (slice_get buf (off + 1) (off + 1 + unat b0 mod 64)) (\<lambda>s. Some (EStr s, 1 + unat b0 mod 64))"
    "192 \<le> unat b0 \<Longrightarrow> unat b0 < 224 \<Longrightarrow> decode_at buf off =
       Option.bind (nth_opt buf (off + 1)) (\<lambda>b1. Some (EInt (let u = int (unat b0 mod 32) * 256 + uint b1
         in if u \<ge> 2 ^ 12 then u - 8192 else u), 2))"
    "224 \<le> unat b0 \<Longrightarrow> unat b0 < 240 \<Longrightarrow> decode_at buf off =
       Option.bind (nth_opt buf (off + 1)) (\<lambda>b1.
         Option.bind (slice_get buf (off + 2) (off + 2 + (unat b0 mod 16 * 256 + unat b1)))
           (\<lambda>s. Some (EStr s, 2 + (unat b0 mod 16 * 256 + unat b1))))"
  unfolding decode_at_nth [OF assms] by (auto simp only: if_True if_False not_less simp_thms split: if_split)

lemma enclen_at_decode: "decode_at buf off = Some (e, n) \<Longrightarrow> enclen_at buf off = Some n"
  by (auto simp: decode_at_def enclen_at_def Let_def bind_eq_Some_conv split: if_splits)

lemma decode_at_shift: "decode_at (pre @ buf) (length pre + off) = decode_at buf off"
  by (simp only: decode_at_def add.assoc nth_opt_append_right slice_get_shift cong: if_cong)

lemma decode_at_extend: "decode_at buf off = Some r \<Longrightarrow> decode_at (buf @ post) off = Some r"
proof -
  have "le_opt (decode_at buf off) (decode_at (buf @ post) off)"
    unfolding decode_at_def Let_def by (intro le_opt_intros)
  then show "decode_at buf off = Some r \<Longrightarrow> decode_at (buf @ post) off = Some r" by (simp add: le_opt_def)
qed

lemma decode_at_bound: "decode_at buf off = Some (e, n) \<Longrightarrow> off + n \<le> length buf"
  by (auto simp: decode_at_def Let_def bind_eq_Some_conv slice_get_Some split: if_splits)

lemma decode_13bit:
  assumes "- 4096 \<le> v" "v \<le> 4095" and "x = (word_of_int (if v < 0 then 2 ^ 13 + v else v) :: 16 word)"
  shows "decode_at [ucast (drop_bit 8 x) OR 0xC0, ucast (x AND 0xff)] 0 = Some (EInt v, 2)"
proof -
  define u where "u = nat (if v < 0 then 2 ^ 13 + v else v)"
  have u: "u < 8192" "v = (if u \<ge> 4096 then int u - 8192 else int u)" using assms by (auto simp: u_def)
  have xu: "unat x = u"
    using assms by (auto simp: u_def unat_eq_nat_uint uint_word_of_int)
  have "unat (ucast (drop_bit 8 x) :: byte) = u div 256"
    using u xu by (simp add: unsigned_ucast_eq drop_bit_eq_div unat_div take_bit_nat_eq_self)
  then have b0: "unat (ucast (drop_bit 8 x) OR 0xC0 :: byte) = 192 + u div 256"
    using u unat_or_disjoint [of "0xC0" 6 "ucast (drop_bit 8 x)"] by (simp add: or.commute)
  have "x AND 0xff = take_bit 8 x" by (simp add: take_bit_eq_mask mask_eq_exp_minus_1)
  then have b1: "uint (ucast (x AND 0xff) :: byte) = int (u mod 256)"
    using xu by (simp add: uint_nat unsigned_ucast_eq unsigned_take_bit_eq take_bit_nat_def)
  have "u div 256 < 32" using u by simp
  then have "(192 + u div 256) mod 32 = u div 256" using mod_mult_self3 [of 6 32 "u div 256"] by simp
  moreover have "int (u div 256) * 256 + int (u mod 256) = int u"
    by (metis div_mult_mod_eq of_nat_add of_nat_mult of_nat_numeral)
  ultimately show ?thesis
    using u b0 b1 \<open>u div 256 < 32\<close>
    by (subst decode_tags(3) [where ?b0.0 = "ucast (drop_bit 8 x) OR 0xC0"]) (simp_all add: nth_opt_def Let_def)
qed

lemma decode_24bit:
  assumes "- 8388608 \<le> v" "v \<le> 8388607"
  shows "sle_val (0 # take 3 (le_bytes 4 (if v < 0 then 2 ^ 24 + v else v))) div 256 = v"
proof -
  let ?u = "if v < 0 then 2 ^ 24 + v else v"
  have t: "take 3 (le_bytes 4 w) = le_bytes 3 w" for w by (simp add: numeral_eq_Suc)
  have "le_val (le_bytes 3 ?u) = ?u" using assms by (intro le_val_le_bytes_small) auto
  then show ?thesis using assms by (auto simp: sle_val_def t Let_def)
qed

lemma decode_wide_int:
  "length b = 2 \<Longrightarrow> decode_at (0xF1 # b) 0 = Some (EInt (sle_val b), 3)"
  "length b = 3 \<Longrightarrow> decode_at (0xF2 # b) 0 = Some (EInt (sle_val (0 # b) div 256), 4)"
  "length b = 4 \<Longrightarrow> decode_at (0xF3 # b) 0 = Some (EInt (sle_val b), 5)"
  "length b = 8 \<Longrightarrow> decode_at (0xF4 # b) 0 = Some (EInt (sle_val b), 9)"
  by (simp_all add: decode_at_def slice_get_def)

lemma decode_7bit: "unat b < 128 \<Longrightarrow> decode_at [b] 0 = Some (EInt (int (unat b)), 1)"
  using decode_tags(1) [of "[b]" 0 b] by simp

lemma decode_payload_int:
  assumes "fits 8 v"
  shows "decode_at (payload_bytes (PInt v)) 0 = Some (EInt v, payload_enclen (PInt v))"
proof -
  consider (a) "0 \<le> v" "v \<le> 127" | (b) "\<not> (0 \<le> v \<and> v \<le> 127)" "- 4096 \<le> v" "v \<le> 4095"
    | (c) "\<not> (- 4096 \<le> v \<and> v \<le> 4095)" "- 32768 \<le> v" "v \<le> 32767"
    | (d) "\<not> (- 32768 \<le> v \<and> v \<le> 32767)" "- 8388608 \<le> v" "v \<le> 8388607"
    | (e) "\<not> (- 8388608 \<le> v \<and> v \<le> 8388607)" "- 2147483648 \<le> v" "v \<le> 2147483647"
    | (f) "\<not> (- 2147483648 \<le> v \<and> v \<le> 2147483647)" by linarith
  then show ?thesis
  proof cases
    case a
    then have "unat (word_of_int v :: byte) = nat v" by (simp add: unat_eq_nat_uint uint_word_of_int)
    with a have "unat (word_of_int v AND 0x7f :: byte) = nat v" by (simp only: tag_bits) simp
    with a show ?thesis by (simp add: payload_bytes_def payload_enclen_def decode_7bit)
  next
    case b
    then show ?thesis
      using decode_13bit [OF b(2,3) refl] by (auto simp: payload_bytes_def payload_enclen_def Let_def)
  next
    case c
    then have "sle_val (le_bytes 2 v) = v" by (intro sle_val_le_bytes) (auto simp: fits_def)
    with c show ?thesis by (auto simp: payload_bytes_def payload_enclen_def decode_wide_int)
  next
    case d
    then have "payload_enclen (PInt v) = 4" by (auto simp: payload_enclen_def)
    with d show ?thesis by (simp add: payload_bytes_def decode_wide_int decode_24bit)
  next
    case e
    then have "sle_val (le_bytes 4 v) = v" by (intro sle_val_le_bytes) (auto simp: fits_def)
    moreover have "payload_enclen (PInt v) = 5" using e by (auto simp: payload_enclen_def)
    ultimately show ?thesis by (simp add: payload_bytes_def decode_wide_int)
  next
    case f
    have "sle_val (le_bytes 8 v) = v" using assms by (rule sle_val_le_bytes)
    moreover have "payload_enclen (PInt v) = 9" using f by (auto simp: payload_enclen_def)
    ultimately show ?thesis by (simp add: payload_bytes_def decode_wide_int)
  qed
qed

lemma decode_short_str:
  assumes "n < 64" and "length b = n"
  shows "decode_at ((0x80 OR word_of_nat n) # b) 0 = Some (EStr b, 1 + n)"
proof -
  have u: "unat (0x80 OR word_of_nat n :: byte) = 128 + n"
    using assms unat_or_disjoint [of "0x80" 6 "word_of_nat n"] by (simp add: unat_of_nat)
  have "(128 + n) mod 64 = n" using assms mod_mult_self3 [of 2 64 n] by simp
  moreover have "slice_get (t # b) 1 (1 + n) = Some b" for t using assms by (simp add: slice_get_def)
  ultimately show ?thesis using assms
    by (subst decode_tags(2) [where ?b0.0 = "0x80 OR word_of_nat n"]) (simp_all add: u)
qed

lemma decode_medium_str:
  assumes "n < 4096" and "length b = n"
  shows "decode_at ((0xE0 OR word_of_nat (n div 256)) # word_of_nat (n mod 256) # b) 0 = Some (EStr b, 2 + n)"
proof -
  have d: "n div 256 < 16" using assms by simp
  have u: "unat (0xE0 OR word_of_nat (n div 256) :: byte) = 224 + n div 256"
    using d unat_or_disjoint [of "0xE0" 4 "word_of_nat (n div 256)"] by (simp add: unat_of_nat)
  have "(224 + n div 256) mod 16 = n div 256" using d mod_mult_self3 [of 14 16 "n div 256"] by simp
  then have m: "(224 + n div 256) mod 16 * 256 + unat (word_of_nat (n mod 256) :: byte) = n"
    by (simp add: unat_of_nat)
  show ?thesis using d
    by (subst decode_tags(4) [where ?b0.0 = "0xE0 OR word_of_nat (n div 256)"]) (simp_all add: u nth_opt_def m [simplified] slice_get_def assms)
qed

lemma decode_long_str:
  assumes "length b < 2 ^ 32"
  shows "decode_at (0xF0 # le_bytes 4 (int (length b)) @ b) 0 = Some (EStr b, 5 + length b)"
proof -
  let ?n = "length b"
  have "le_val (le_bytes 4 (int ?n)) = int ?n" using assms by (intro le_val_le_bytes_small) auto
  moreover have "slice_get (0xF0 # le_bytes 4 (int ?n) @ b) 1 5 = Some (le_bytes 4 (int ?n))"
    using slice_get_midI [of 1 "[0xF0]" 5 "le_bytes 4 (int ?n)" b] by simp
  moreover have "slice_get (0xF0 # le_bytes 4 (int ?n) @ b) 5 (5 + ?n) = Some b"
    using slice_get_midI [of 5 "0xF0 # le_bytes 4 (int ?n)" "5 + ?n" b "[]"] by simp
  ultimately show ?thesis by (simp add: decode_at_def)
qed

lemma decode_payload_str:
  assumes "length b < 2 ^ 32"
  shows "decode_at (payload_bytes (PStr b)) 0 = Some (EStr b, payload_enclen (PStr b))"
  using assms by (simp add: payload_bytes_def payload_enclen_def decode_short_str decode_medium_str
      decode_long_str Let_def del: Suc_eq_plus1)

lemma decode_payload:
  "payload_ok p \<Longrightarrow> decode_at (payload_bytes p) 0 = Some (payload_entry p, payload_enclen p)"
  by (cases p) (simp_all add: payload_ok_def payload_entry_def decode_payload_int decode_payload_str)

subsection \<open>Backward lengths\<close>

fun groups :: "nat \<Rightarrow> nat \<Rightarrow> nat list" where
  "groups 0 l = []"
| "groups (Suc n) l = groups n (l div 128) @ [l mod 128]"

definition group_val :: "nat list \<Rightarrow> nat" where
  "group_val gs = foldl (\<lambda>a g. a * 128 + g) 0 gs"

lemma group_val_simps [simp]: "group_val [] = 0" "group_val (gs @ [g]) = group_val gs * 128 + g"
  by (simp_all add: group_val_def)

lemma length_groups [simp]: "length (groups n l) = n"
  by (induction n arbitrary: l) auto

lemma groups_small: "\<forall>g \<in> set (groups n l). g < 128"
  by (induction n arbitrary: l) auto

lemma group_val_groups: "group_val (groups n l) = l mod 128 ^ n"
proof (induction n arbitrary: l)
  case (Suc n)
  have "l mod (128 * 128 ^ n) = 128 * (l div 128 mod 128 ^ n) + l mod 128" by (rule mod_mult2_eq)
  with Suc show ?case by simp
qed simp

lemma groups_alt: "groups n l = map (\<lambda>i. l div 2 ^ (7 * (n - 1 - i)) mod 128) [0..<n]"
proof (induction n arbitrary: l)
  case (Suc n)
  have "(l div 128) div 2 ^ (7 * (n - 1 - i)) = l div 2 ^ (7 * (n - i))" if "i < n" for i
  proof -
    have "(128 :: nat) * 2 ^ (7 * (n - 1 - i)) = 2 ^ (7 + 7 * (n - 1 - i))" by (simp add: power_add)
    also have "7 + 7 * (n - 1 - i) = 7 * (n - i)" using that by simp
    finally show ?thesis by (simp only: div_mult2_eq [symmetric])
  qed
  then show ?case by (simp add: Suc)
qed simp

text \<open>The bytes of a list of seven-bit groups, first one without the continuation bit.\<close>

definition group_bytes :: "nat list \<Rightarrow> bytes" where
  "group_bytes gs = (case gs of [] \<Rightarrow> [] | g # gs \<Rightarrow> word_of_nat g # map (\<lambda>g. word_of_nat g OR 128) gs)"

lemma backlen_size_pos: "0 < backlen_size l" "backlen_size l \<le> 5"
  by (auto simp: backlen_size_def)

lemma write_backlen_groups: "write_backlen l = group_bytes (groups (backlen_size l) l)"
proof -
  obtain n where n: "backlen_size l = Suc n" using backlen_size_pos(1) [of l] gr0_conv_Suc by blast
  have "[0..<Suc n] = 0 # map Suc [0..<n]" by (simp add: map_Suc_upt upt_conv_Cons del: upt_Suc)
  then show ?thesis
    unfolding write_backlen_def groups_alt group_bytes_def n Let_def by (simp add: o_def)
qed

lemma group_byte: "g < 128 \<Longrightarrow> (word_of_nat g :: byte) AND 128 = 0 \<and> unat ((word_of_nat g :: byte) AND 127) = g"
  by (simp only: tag_bits) (simp add: unat_of_nat)

lemma group_byte_cont:
  assumes "g < 128"
  shows "(word_of_nat g OR 128 :: byte) AND 128 \<noteq> 0 \<and> unat ((word_of_nat g OR 128 :: byte) AND 127) = g"
proof -
  have "unat (word_of_nat g OR 128 :: byte) = 128 + g"
    using assms unat_or_disjoint [of 128 7 "word_of_nat g"] by (simp add: unat_of_nat or.commute)
  then show ?thesis using assms mod_mult_self3 [of 1 128 g] by (simp only: tag_bits) simp
qed

lemma decode_groups:
  "\<forall>h \<in> set (g # gs). h < 128 \<Longrightarrow> shift + 7 * length gs \<le> 28 \<Longrightarrow>
   decode_backlen_loop (pre @ group_bytes (g # gs) @ post) (length pre + length gs) val shift n =
   Some (val + 2 ^ shift * group_val (g # gs), n + length gs + 1)"
proof (induction gs arbitrary: val shift n post rule: rev_induct)
  case Nil
  then show ?case
    using group_byte [of g] by (subst decode_backlen_loop.simps) (simp add: group_bytes_def group_val_def)
next
  case (snoc h gs)
  let ?buf = "pre @ group_bytes (g # gs @ [h]) @ post"
  have buf: "?buf = pre @ group_bytes (g # gs) @ (word_of_nat h OR 128) # post"
    by (simp add: group_bytes_def)
  have "?buf = (pre @ group_bytes (g # gs)) @ (word_of_nat h OR 128) # post" by (simp add: group_bytes_def)
  moreover have "length pre + length (gs @ [h]) = length (pre @ group_bytes (g # gs))"
    by (simp add: group_bytes_def)
  ultimately have nth: "nth_opt ?buf (length pre + length (gs @ [h])) = Some (word_of_nat h OR 128)"
    by (metis nth_opt_append_length nth_opt_Cons_0)
  have "decode_backlen_loop ?buf (length pre + length (gs @ [h])) val shift n =
      decode_backlen_loop ?buf (length pre + length gs) (val + h * 2 ^ shift) (shift + 7) (n + 1)"
    using snoc.prems group_byte_cont [of h]
    by (subst decode_backlen_loop.simps, subst nth) (simp add: checked_sub_def Let_def)
  also have "\<dots> = Some ((val + h * 2 ^ shift) + 2 ^ (shift + 7) * group_val (g # gs), (n + 1) + length gs + 1)"
    unfolding buf using snoc.prems by (intro snoc.IH) auto
  finally show ?case
    using group_val_simps(2) [of "g # gs" h] by (simp add: power_add algebra_simps)
qed

lemma backlen_enough: "l < 2 ^ 35 \<Longrightarrow> l < 128 ^ backlen_size l"
  by (auto simp: backlen_size_def)

lemma length_write_backlen [simp]: "length (write_backlen l) = backlen_size l"
  by (simp add: write_backlen_def Let_def)

lemma decode_write_backlen:
  assumes "l < 2 ^ 35"
  shows "decode_backlen (pre @ write_backlen l @ post) (length pre + backlen_size l - 1) = Some (l, backlen_size l)"
proof -
  obtain g gs where gs: "groups (backlen_size l) l = g # gs"
    using backlen_size_pos(1) [of l] by (cases "groups (backlen_size l) l") (auto dest: arg_cong [where f = length])
  have len: "backlen_size l = Suc (length gs)" using arg_cong [OF gs, of length] by simp
  have "group_val (g # gs) = l" using group_val_groups [of "backlen_size l" l] backlen_enough [OF assms] gs by simp
  moreover have "\<forall>h \<in> set (g # gs). h < 128" using groups_small [of "backlen_size l" l] gs by simp
  moreover have "0 + 7 * length gs \<le> 28" using backlen_size_pos(2) [of l] len by simp
  ultimately show ?thesis
    using decode_groups [of g gs 0 pre post 0 0] gs len
    by (simp add: decode_backlen_def write_backlen_groups)
qed

subsection \<open>Entry blocks and the representation\<close>

definition block_val :: "bytes \<Rightarrow> lp_entry" where
  "block_val b = fst (the (decode_at b 0))"

definition is_block :: "bytes \<Rightarrow> bool" where
  "is_block b \<longleftrightarrow> (\<exists>e n. decode_at b 0 = Some (e, n) \<and> length b = n + backlen_size n \<and>
     decode_backlen b (length b - 1) = Some (n, backlen_size n))"

definition block_of :: "payload \<Rightarrow> bytes" where
  "block_of p = payload_bytes p @ write_backlen (payload_enclen p)"

lemma is_blockE:
  assumes "is_block b"
  obtains n where "decode_at b 0 = Some (block_val b, n)" "0 < n" "length b = n + backlen_size n"
    "decode_backlen b (length b - 1) = Some (n, backlen_size n)"
proof -
  obtain e n where "decode_at b 0 = Some (e, n)" "length b = n + backlen_size n"
    "decode_backlen b (length b - 1) = Some (n, backlen_size n)"
    using assms by (auto simp: is_block_def)
  moreover from this have "0 < n" "block_val b = e" by (simp_all add: decode_at_pos block_val_def)
  ultimately show ?thesis using that by simp
qed

lemma is_block_nonempty: "is_block b \<Longrightarrow> b \<noteq> []"
  by (auto elim!: is_blockE)

lemma payload_enclen_small: "payload_ok p \<Longrightarrow> payload_enclen p < 2 ^ 35"
  by (auto simp: payload_ok_def payload_enclen_def Let_def split: payload.splits)

lemma length_block_of: "length (block_of p) = payload_enclen p + backlen_size (payload_enclen p)"
  by (simp add: block_of_def length_payload_bytes)

lemma block_of_correct:
  assumes "payload_ok p" shows "is_block (block_of p) \<and> block_val (block_of p) = payload_entry p"
proof -
  have "decode_at (block_of p) 0 = Some (payload_entry p, payload_enclen p)"
    unfolding block_of_def using decode_payload [OF assms] by (rule decode_at_extend)
  moreover have "decode_backlen (block_of p) (length (block_of p) - 1) = Some (payload_enclen p, backlen_size (payload_enclen p))"
    using decode_write_backlen [OF payload_enclen_small [OF assms], of "payload_bytes p" "[]"]
    by (simp add: block_of_def length_payload_bytes)
  ultimately show ?thesis by (simp add: is_block_def block_val_def length_block_of)
qed

lemma decode_backlen_loop_local:
  "decode_backlen_loop b p val sh n = Some r \<Longrightarrow>
   decode_backlen_loop (pre @ b @ post) (length pre + p) val sh n = Some r"
proof (induction b p val sh n rule: decode_backlen_loop.induct)
  case (1 b p val sh n)
  obtain x where x: "nth_opt b p = Some x"
    using "1.prems" by (subst (asm) decode_backlen_loop.simps) (cases "nth_opt b p", auto)
  then have x': "nth_opt (pre @ b @ post) (length pre + p) = Some x"
    by (auto simp: nth_opt_def nth_append)
  let ?v = "val + unat (x AND 127) * 2 ^ sh"
  have A: "decode_backlen_loop b p val sh n = (if x AND 128 = 0 then Some (?v, n + 1)
      else if sh + 7 > 28 then None else if p = 0 then None else decode_backlen_loop b (p - 1) ?v (sh + 7) (n + 1))"
    by (subst decode_backlen_loop.simps, subst x) (simp add: Let_def checked_sub_def)
  have B: "decode_backlen_loop (pre @ b @ post) (length pre + p) val sh n = (if x AND 128 = 0 then Some (?v, n + 1)
      else if sh + 7 > 28 then None else if length pre + p = 0 then None
      else decode_backlen_loop (pre @ b @ post) (length pre + p - 1) ?v (sh + 7) (n + 1))"
    by (subst decode_backlen_loop.simps, subst x') (simp add: Let_def checked_sub_def Suc_le_eq)
  have "decode_backlen_loop (pre @ b @ post) (length pre + p - 1) ?v (sh + 7) (n + 1) = Some r"
    if "x AND 128 \<noteq> 0" "sh + 7 \<le> 28" "p \<noteq> 0"
    using "1.IH" [OF x refl refl that(1) refl _ , of "p - 1"] "1.prems" that
    by (simp add: A checked_sub_def)
  then show ?case using "1.prems" by (auto simp: A B split: if_splits)
qed

lemma block_at:
  assumes "is_block b" and buf: "buf = pre @ b @ post"
  shows "\<exists>n. decode_at buf (length pre) = Some (block_val b, n) \<and> n + backlen_size n = length b
    \<and> decode_backlen buf (length pre + length b - 1) = Some (n, backlen_size n)"
proof -
  obtain n where n: "decode_at b 0 = Some (block_val b, n)" "0 < n" "length b = n + backlen_size n"
    "decode_backlen b (length b - 1) = Some (n, backlen_size n)"
    using assms(1) by (rule is_blockE)
  have "decode_at (pre @ b @ post) (length pre + 0) = Some (block_val b, n)"
    unfolding decode_at_shift using n(1) by (rule decode_at_extend)
  moreover have "decode_backlen (pre @ b @ post) (length pre + (length b - 1)) = Some (n, backlen_size n)"
    unfolding decode_backlen_def by (rule decode_backlen_loop_local) (use n(4) in \<open>simp add: decode_backlen_def\<close>)
  ultimately show ?thesis using n(2,3) buf by auto
qed

definition lp_rep :: "listpack \<Rightarrow> bytes list \<Rightarrow> nat \<Rightarrow> bool" where
  "lp_rep lp bs cnt \<longleftrightarrow>
     lp_buf lp = le_bytes 4 (int (7 + length (concat bs))) @ le_bytes 2 (int cnt) @ concat bs @ [LP_EOF]
     \<and> (\<forall>b \<in> set bs. is_block b) \<and> (cnt = LP_HDR_NUMELE_UNKNOWN \<or> cnt = length bs)
     \<and> cnt \<le> LP_HDR_NUMELE_UNKNOWN \<and> 7 + length (concat bs) < 2 ^ 32"

definition off :: "bytes list \<Rightarrow> nat \<Rightarrow> nat" where
  "off bs k = LP_HDR_SIZE + length (concat (take k bs))"

lemma off_0: "off bs 0 = LP_HDR_SIZE"
  by (simp add: off_def)

lemma off_Suc: "k < length bs \<Longrightarrow> off bs (Suc k) = off bs k + length (bs ! k)"
  by (simp add: off_def take_Suc_conv_app_nth)

lemma rep_block_ne: "lp_rep lp bs cnt \<Longrightarrow> k < length bs \<Longrightarrow> bs ! k \<noteq> []"
  using nth_mem [of k bs] is_block_nonempty [of "bs ! k"] by (simp add: lp_rep_def)

lemma rep_eof: "lp_rep lp bs cnt \<Longrightarrow> eof_offset lp = off bs (length bs)"
  by (simp add: lp_rep_def eof_offset_def off_def LP_HDR_SIZE_def)

lemma off_mono: "j \<le> k \<Longrightarrow> k \<le> length bs \<Longrightarrow> off bs j \<le> off bs k"
  by (metis off_def add_le_cancel_left concat_append le_add1 length_append le_add_diff_inverse take_add)

lemma rep_off_less_eof:
  assumes "lp_rep lp bs cnt" and "k \<le> length bs"
  shows "off bs k < eof_offset lp \<longleftrightarrow> k < length bs"
proof (cases "k < length bs")
  case True
  have "off bs k < off bs (Suc k)" using True assms by (simp add: off_Suc rep_block_ne)
  also have "\<dots> \<le> off bs (length bs)" using True by (intro off_mono) auto
  finally show ?thesis using True assms by (simp add: rep_eof)
next
  case False
  then show ?thesis using assms by (simp add: rep_eof)
qed

lemma rep_split:
  assumes "lp_rep lp bs cnt" and "k \<le> length bs"
  shows "\<exists>pre. lp_buf lp = pre @ concat (drop k bs) @ [LP_EOF] \<and> length pre = off bs k
    \<and> pre = le_bytes 4 (int (7 + length (concat bs))) @ le_bytes 2 (int cnt) @ concat (take k bs)"
proof -
  have "concat bs = concat (take k bs) @ concat (drop k bs)" by (simp flip: concat_append)
  then show ?thesis using assms by (simp add: lp_rep_def off_def LP_HDR_SIZE_def)
qed

lemma rep_at:
  assumes "lp_rep lp bs cnt" and k: "k < length bs"
  shows "\<exists>n. decode_at (lp_buf lp) (off bs k) = Some (block_val (bs ! k), n) \<and> n + backlen_size n = length (bs ! k)
    \<and> decode_backlen (lp_buf lp) (off bs (Suc k) - 1) = Some (n, backlen_size n)"
proof -
  obtain pre where pre: "lp_buf lp = pre @ concat (drop k bs) @ [LP_EOF]" "length pre = off bs k"
    using rep_split [OF assms(1), of k] k by auto
  have "concat (drop k bs) = bs ! k @ concat (drop (Suc k) bs)" using k by (simp flip: Cons_nth_drop_Suc)
  with pre have "lp_buf lp = pre @ bs ! k @ (concat (drop (Suc k) bs) @ [LP_EOF])" by simp
  from block_at [OF _ this] show ?thesis using assms pre k by (simp add: lp_rep_def off_Suc)
qed

lemma rep_entry_span:
  assumes "lp_rep lp bs cnt" "k < length bs" shows "entry_span lp (off bs k) = Some (length (bs ! k))"
proof -
  obtain n where "decode_at (lp_buf lp) (off bs k) = Some (block_val (bs ! k), n)" "n + backlen_size n = length (bs ! k)"
    using rep_at [OF assms] by blast
  then show ?thesis by (simp add: entry_span_def enclen_at_decode)
qed

subsection \<open>Walks\<close>

lemma rep_next_offset:
  assumes "lp_rep lp bs cnt" "k < length bs" shows "next_offset lp (off bs k) = Some (off bs (Suc k))"
  using rep_entry_span [OF assms] rep_off_less_eof [OF assms(1), of k] assms off_mono [of "Suc k" "length bs" bs]
  by (simp add: next_offset_def off_Suc rep_eof)

lemma rep_prev_offset:
  assumes "lp_rep lp bs cnt" "k < length bs" shows "prev_offset lp (off bs (Suc k)) = Some (off bs k)"
proof -
  obtain n where "decode_backlen (lp_buf lp) (off bs (Suc k) - 1) = Some (n, backlen_size n)" "n + backlen_size n = length (bs ! k)"
    using rep_at [OF assms] by blast
  moreover have "LP_HDR_SIZE \<le> off bs k" by (simp add: off_def)
  moreover have "\<not> off bs k + length (bs ! k) \<le> LP_HDR_SIZE"
    using rep_block_ne [OF assms] length_greater_0_conv [of "bs ! k"] by (simp add: off_def)
  ultimately show ?thesis using assms(2) by (simp add: prev_offset_def off_Suc checked_sub_def)
qed

lemma rep_seek_fwd_loop:
  assumes "lp_rep lp bs cnt"
  shows "k \<le> length bs \<Longrightarrow> seek_fwd_loop lp n (off bs k) = (if k + n < length bs then Some (off bs (k + n)) else None)"
proof (induction n arbitrary: k)
  case 0 then show ?case using rep_off_less_eof [OF assms, of k] by auto
next
  case (Suc n)
  show ?case
  proof (cases "k < length bs")
    case True
    then show ?thesis using Suc.IH [of "Suc k"] rep_off_less_eof [OF assms, of k] rep_entry_span [OF assms True]
      by (simp add: off_Suc)
  next
    case False
    then show ?thesis using Suc.prems rep_off_less_eof [OF assms, of k] by simp
  qed
qed

lemma rep_seek_fwd:
  assumes "lp_rep lp bs cnt" shows "seek_fwd lp n = (if n < length bs then Some (off bs n) else None)"
  using rep_seek_fwd_loop [OF assms, of 0 n] by (simp add: seek_fwd_def off_0)

lemma rep_prev_offset_0: "prev_offset lp (off bs 0) = None"
  by (simp add: prev_offset_def off_0)

lemma rep_seek_back_loop:
  assumes "lp_rep lp bs cnt"
  shows "k \<le> length bs \<Longrightarrow> seek_back_loop lp n (off bs k) = (if n \<le> k then Some (off bs (k - n)) else None)"
proof (induction n arbitrary: k)
  case (Suc n)
  show ?case
  proof (cases k)
    case (Suc j)
    then show ?thesis using Suc.prems Suc.IH [of j] rep_prev_offset [OF assms, of j] by simp
  qed (simp add: rep_prev_offset_0)
qed simp

lemma rep_seek_back:
  assumes "lp_rep lp bs cnt" "i < 0"
  shows "seek_back lp i = (if nat (- i) \<le> length bs then Some (off bs (length bs - nat (- i))) else None)"
  using rep_seek_back_loop [OF assms(1), of "length bs" "nat (- i)"] by (simp add: seek_back_def rep_eof [OF assms(1)])

lemma header_count_le: "nat (le_val (le_bytes 2 (int n))) = n mod 65536"
  by (simp add: le_val_le_bytes nat_mod_distrib)

lemma rep_header_count: "lp_rep lp bs cnt \<Longrightarrow> header_count lp = cnt"
  using slice_get_midI [of 4 "le_bytes 4 (int (7 + length (concat bs)))" 6 "le_bytes 2 (int cnt)" "concat bs @ [LP_EOF]"]
  by (simp add: lp_rep_def header_count_def header_count_le LP_HDR_NUMELE_UNKNOWN_def)

definition norm_index :: "nat \<Rightarrow> int \<Rightarrow> nat option" where
  "norm_index n i =
     (if 0 \<le> i \<and> i < int n then Some (nat i)
      else if i < 0 \<and> - int n \<le> i then Some (nat (i + int n)) else None)"

lemma norm_index_less: "norm_index n i = Some k \<Longrightarrow> k < n"
  by (auto simp: norm_index_def split: if_splits)

lemma rep_seek:
  assumes rep: "lp_rep lp bs cnt" shows "seek lp i = map_option (off bs) (norm_index (length bs) i)"
proof (cases "cnt = LP_HDR_NUMELE_UNKNOWN")
  case True
  have "length bs - nat (- i) = nat (i + int (length bs))" if "i < 0" using that by simp
  then show ?thesis
    using True rep_seek_fwd [OF rep, of "nat i"] rep_seek_back [OF rep, of i]
    by (auto simp: seek_def rep_header_count [OF rep] norm_index_def nat_less_iff)
next
  case False
  then have cnt: "cnt = length bs" using rep by (simp add: lp_rep_def)
  let ?i = "if i < 0 then i + int (length bs) else i"
  have *: "seek lp i = (if ?i < 0 \<or> ?i \<ge> int (length bs) then None else if ?i > int (length bs) div 2 then seek_back lp (?i - int (length bs)) else seek_fwd lp (nat ?i))"
    using False by (simp add: seek_def rep_header_count [OF rep] cnt)
  have both: "seek_back lp (j - int (length bs)) = Some (off bs (nat j))" "seek_fwd lp (nat j) = Some (off bs (nat j))"
    if j: "\<not> (j < 0 \<or> int (length bs) \<le> j)" for j
  proof -
    have "length bs - nat (- (j - int (length bs))) = nat j" "nat (- (j - int (length bs))) \<le> length bs" "nat j < length bs"
      using j by arith+
    then show "seek_back lp (j - int (length bs)) = Some (off bs (nat j))" "seek_fwd lp (nat j) = Some (off bs (nat j))"
      using rep_seek_back [OF rep, of "j - int (length bs)"] rep_seek_fwd [OF rep, of "nat j"] j by simp_all
  qed
  have "seek lp i = (if ?i < 0 \<or> ?i \<ge> int (length bs) then None else Some (off bs (nat ?i)))"
    unfolding * by (rule if_cong [OF refl refl], subst both(1), assumption, subst both(2), assumption) (rule if_cancel)
  then show ?thesis by (auto simp: norm_index_def)
qed

subsection \<open>Reading the entries\<close>

definition lp_vals :: "bytes list \<Rightarrow> lp_entry list" where
  "lp_vals bs = map block_val bs"

lemma rep_entry_at:
  assumes "lp_rep lp bs cnt" "k < length bs" shows "entry_at lp (off bs k) = Some (lp_vals bs ! k)"
  using rep_at [OF assms] rep_off_less_eof [OF assms(1), of k] assms(2) by (auto simp: entry_at_def lp_vals_def)

lemma lp_rep_get:
  assumes "lp_rep lp bs cnt" shows "lp_get lp i = map_option ((!) (lp_vals bs)) (norm_index (length bs) i)"
  using rep_entry_at [OF assms] norm_index_less [of "length bs" i]
  by (cases "norm_index (length bs) i") (auto simp: lp_get_def rep_seek [OF assms])

lemma rep_iter_from:
  assumes "lp_rep lp bs cnt" shows "k \<le> length bs \<Longrightarrow> lp_iter_from lp (off bs k) = drop k (lp_vals bs)"
proof (induction "length bs - k" arbitrary: k)
  case 0
  then show ?case using rep_off_less_eof [OF assms, of k] by (subst lp_iter_from.simps) (simp add: iter_step_def lp_vals_def)
next
  case (Suc m)
  then have k: "k < length bs" by simp
  obtain n where n: "decode_at (lp_buf lp) (off bs k) = Some (block_val (bs ! k), n)" "n + backlen_size n = length (bs ! k)"
    using rep_at [OF assms k] by blast
  have "iter_step lp (off bs k) = Some (block_val (bs ! k), off bs (Suc k))"
    using n rep_off_less_eof [OF assms, of k] k by (simp add: iter_step_def off_Suc)
  with Suc.hyps(1) [of "Suc k"] Suc.hyps(2) k show ?case
    by (subst lp_iter_from.simps) (simp add: lp_vals_def flip: Cons_nth_drop_Suc)
qed

lemma rep_iter: "lp_rep lp bs cnt \<Longrightarrow> lp_iter lp = lp_vals bs"
  using rep_iter_from [of lp bs cnt 0] by (simp add: lp_iter_def off_0)

lemma rep_iter_rev_from:
  assumes "lp_rep lp bs cnt" shows "k \<le> length bs \<Longrightarrow> lp_iter_rev_from lp (off bs k) = rev (take k (lp_vals bs))"
proof (induction k)
  case 0
  then show ?case by (subst lp_iter_rev_from.simps) (simp add: rev_iter_step_def rep_prev_offset_0)
next
  case (Suc k)
  then show ?case using rep_prev_offset [OF assms, of k] rep_entry_at [OF assms, of k]
    by (subst lp_iter_rev_from.simps) (simp add: rev_iter_step_def lp_vals_def take_Suc_conv_app_nth)
qed

lemma rep_iter_rev: "lp_rep lp bs cnt \<Longrightarrow> lp_iter_rev lp = rev (lp_vals bs)"
  using rep_iter_rev_from [of lp bs cnt "length bs"] by (simp add: lp_iter_rev_def rep_eof lp_vals_def)

lemma lp_rep_len: "lp_rep lp bs cnt \<Longrightarrow> lp_len lp = length bs"
  by (auto simp: lp_len_def rep_header_count rep_iter lp_vals_def) (auto simp: lp_rep_def)

lemma rep_first: "lp_rep lp bs cnt \<Longrightarrow> lp_first lp = (if bs = [] then None else Some (lp_vals bs ! 0))"
  using rep_entry_at [of lp bs cnt 0] rep_off_less_eof [of lp bs cnt 0]
  by (auto simp: lp_first_def off_0 entry_at_def)

lemma rep_last: "lp_rep lp bs cnt \<Longrightarrow> lp_last lp = (if bs = [] then None else Some (last (lp_vals bs)))"
  using rep_entry_at [of lp bs cnt "length bs - 1"] rep_prev_offset [of lp bs cnt "length bs - 1"]
    rep_prev_offset_0 [of lp bs]
  by (auto simp: lp_last_def rep_eof lp_vals_def last_conv_nth)

lemma rep_skip:
  assumes "lp_rep lp bs cnt"
  shows "k \<le> length bs \<Longrightarrow> skip_entries lp s (off bs k) i = (if k + s \<le> length bs then Some (off bs (k + s), i + s) else None)"
proof (induction s arbitrary: k i)
  case (Suc s)
  show ?case
  proof (cases "k < length bs")
    case True
    then show ?thesis using Suc.IH [of "Suc k" "i + 1"] rep_off_less_eof [OF assms, of k] rep_entry_span [OF assms True]
      by (simp add: off_Suc)
  next
    case False
    then show ?thesis using Suc.prems rep_off_less_eof [OF assms, of k] by simp
  qed
qed simp

text \<open>What \<^verbatim>\<open>find\<close> returns on the decoded entries: the first hit at or after position \<open>k\<close>, looking at
  every \<open>s + 1\<close>-th entry.\<close>

function first_hit :: "payload \<Rightarrow> nat \<Rightarrow> lp_entry list \<Rightarrow> nat \<Rightarrow> nat option" where
  "first_hit canon s es k =
     (if k \<ge> length es then None
      else if entry_hit canon (es ! k) then Some k else first_hit canon s es (k + Suc s))"
  by pat_completeness auto
termination
  by (relation "measure (\<lambda>(c, s, es, k). length es - k)") auto

declare first_hit.simps [simp del]

lemma first_hit_Some:
  "first_hit c s es k = Some j \<longleftrightarrow> (\<exists>m. j = k + m * Suc s \<and> j < length es \<and> entry_hit c (es ! j)
     \<and> (\<forall>m' < m. \<not> entry_hit c (es ! (k + m' * Suc s))))"
proof (induction c s es k rule: first_hit.induct)
  case (1 c s es k)
  show ?case
  proof (cases "k \<ge> length es \<or> entry_hit c (es ! k)")
    case True
    have "m = 0" if "entry_hit c (es ! k)" "\<forall>m' < m. \<not> entry_hit c (es ! (k + m' * Suc s))" for m
      using that by (cases m) (auto dest: spec [of _ 0])
    then show ?thesis using True by (subst first_hit.simps) (force intro: exI [of _ 0])
  next
    case False
    then have "first_hit c s es k = Some j \<longleftrightarrow> (\<exists>m. j = k + Suc s + m * Suc s \<and> j < length es \<and> entry_hit c (es ! j)
       \<and> (\<forall>m' < m. \<not> entry_hit c (es ! (k + Suc s + m' * Suc s))))"
      using 1 by (subst first_hit.simps) simp
    also have "\<dots> \<longleftrightarrow> (\<exists>m. j = k + Suc m * Suc s \<and> j < length es \<and> entry_hit c (es ! j)
       \<and> (\<forall>m' < Suc m. \<not> entry_hit c (es ! (k + m' * Suc s))))"
      using False by (simp add: All_less_Suc2 ac_simps)
    also have "\<dots> \<longleftrightarrow> (\<exists>m. j = k + m * Suc s \<and> j < length es \<and> entry_hit c (es ! j)
     \<and> (\<forall>m' < m. \<not> entry_hit c (es ! (k + m' * Suc s))))"
      using False by (metis add.right_neutral mult_0 not0_implies_Suc)
    finally show ?thesis .
  qed
qed

lemma rep_find_loop:
  assumes "lp_rep lp bs cnt" shows "k \<le> length bs \<Longrightarrow> find_loop lp c s (off bs k) k = first_hit c s (lp_vals bs) k"
proof (induction "length bs - k" arbitrary: k rule: less_induct)
  case less
  show ?case
  proof (cases "k < length bs")
    case True
    obtain n where n: "decode_at (lp_buf lp) (off bs k) = Some (block_val (bs ! k), n)" "n + backlen_size n = length (bs ! k)"
      using rep_at [OF assms True] by blast
    have o: "off bs k + (n + backlen_size n) = off bs (Suc k)" using n True by (simp add: off_Suc)
    have "\<not> eof_offset lp \<le> off bs k" using rep_off_less_eof [OF assms, of k] True by simp
    then have "find_loop lp c s (off bs k) k = (if entry_hit c (block_val (bs ! k)) then Some k
        else case skip_entries lp s (off bs (Suc k)) (Suc k) of None \<Rightarrow> None | Some (o', i') \<Rightarrow> find_loop lp c s o' i')"
      by (subst find_loop.simps) (simp add: n(1) o)
    also have "\<dots> = first_hit c s (lp_vals bs) k"
      using True less.hyps [of "Suc k + s"] rep_skip [OF assms, of "Suc k" s "Suc k"]
      by (subst first_hit.simps) (auto simp: lp_vals_def first_hit.simps [of c s _ "Suc (k + s)"])
    finally show ?thesis .
  next
    case False
    then show ?thesis using less.prems rep_off_less_eof [OF assms, of k]
      by (subst find_loop.simps, subst first_hit.simps) (simp add: lp_vals_def)
  qed
qed

lemma rep_find_from:
  assumes "lp_rep lp bs cnt"
  shows "find_from lp start needle s = first_hit (canonicalize (EStr needle)) s (lp_vals bs) start"
  using rep_find_loop [OF assms, of start "canonicalize (EStr needle)" s]
  by (subst first_hit.simps) (simp add: find_from_def rep_seek_fwd [OF assms] lp_vals_def first_hit.simps)

subsection \<open>Mutation\<close>

lemma splice_correct:
  assumes buf: "lp_buf lp = P @ R @ T" "length R = rm"
  shows "\<exists>J. length J = ins \<and> splice lp (length P) rm ins = Some (lp\<lparr>lp_buf := P @ J @ T\<rparr>)"
proof (cases ins rm rule: linorder_cases)
  case greater
  obtain J where "length J = ins - rm"
    "copy_within (vec_resize ((P @ R) @ T) (length ((P @ R) @ T) + (ins - rm))) (length (P @ R)) (length ((P @ R) @ T))
      (length (P @ R) + (ins - rm)) = Some ((P @ R) @ J @ T)"
    using copy_within_open [of "ins - rm" "P @ R" T] by blast
  then show ?thesis using greater buf by (intro exI [of _ "R @ J"]) (simp add: splice_def Let_def add.assoc)
next
  case less
  obtain Y where "copy_within ((P @ take ins R) @ drop ins R @ T) (length (P @ take ins R) + length (drop ins R))
      (length ((P @ take ins R) @ drop ins R @ T)) (length (P @ take ins R)) = Some ((P @ take ins R) @ T @ Y)"
    using copy_within_close [of "P @ take ins R" "drop ins R" T] by blast
  then have "copy_within (P @ R @ T) (length P + rm) (length P + (rm + length T)) (length P + ins) = Some (P @ take ins R @ T @ Y)"
    using less buf(2) by (simp add: append_assoc [symmetric] del: append_assoc) (simp add: min_absorb2 add.assoc)
  then show ?thesis using less buf by (intro exI [of _ "take ins R"]) (simp add: splice_def Let_def checked_sub_def)
next
  case equal
  then show ?thesis using buf by (intro exI [of _ R]) (simp add: splice_def Let_def)
qed

lemma write_payload_block:
  assumes "length J = length (block_of p)" shows "write_payload J p = block_of p"
proof -
  obtain J1 J2 where J: "J = J1 @ J2" "length J1 = payload_enclen p" "length J2 = backlen_size (payload_enclen p)"
    using assms that [of "take (payload_enclen p) J" "drop (payload_enclen p) J"] by (simp add: length_block_of)
  have "slice_put J 0 (payload_bytes p) = payload_bytes p @ J2"
    using slice_put_midI [of 0 "[]" J1 "payload_bytes p" J2] J by (simp add: length_payload_bytes)
  then show ?thesis
    using slice_put_midI [of "payload_enclen p" "payload_bytes p" J2 "write_backlen (payload_enclen p)" "[]"] J
    by (simp add: write_payload_def block_of_def length_payload_bytes)
qed

lemma write_at_correct:
  assumes "lp_buf lp = P @ J @ T" and "length J = length (block_of p)"
  shows "write_at lp (length P) p (length (block_of p)) = lp\<lparr>lp_buf := P @ block_of p @ T\<rparr>"
proof -
  have "write_payload J p = block_of p" using assms(2) by (rule write_payload_block)
  then show ?thesis
    using assms slice_put_midI [of "length P" P J "block_of p" T] slice_get_midI [of "length P" P "length P + length (block_of p)" J T]
    by (simp add: write_at_def)
qed

lemma sync_header_correct:
  assumes buf: "lp_buf lp = H @ le_bytes 2 (int cnt) @ R" "length H = 4" and cnt: "cnt \<le> LP_HDR_NUMELE_UNKNOWN"
  shows "lp_buf (sync_header lp d) = le_bytes 4 (int (length (lp_buf lp)))
    @ le_bytes 2 (int (if cnt = LP_HDR_NUMELE_UNKNOWN then cnt else nat (max 0 (min (int cnt + d) (int LP_HDR_NUMELE_UNKNOWN))))) @ R"
proof -
  let ?L = "le_bytes 4 (int (length (lp_buf lp)))"
  have 1: "slice_put (lp_buf lp) 0 ?L = ?L @ le_bytes 2 (int cnt) @ R"
    using slice_put_midI [of 0 "[]" H ?L "le_bytes 2 (int cnt) @ R"] buf by simp
  have "slice_get (?L @ le_bytes 2 (int cnt) @ R) 4 6 = Some (le_bytes 2 (int cnt))" by (rule slice_get_midI) auto
  moreover have "slice_put (?L @ le_bytes 2 (int cnt) @ R) 4 (le_bytes 2 n) = ?L @ le_bytes 2 n @ R" for n
    by (rule slice_put_midI) auto
  ultimately show ?thesis using 1 cnt
    by (simp add: sync_header_def Let_def header_count_def header_count_le LP_HDR_NUMELE_UNKNOWN_def)
qed

lemma rep_change:
  assumes rep: "lp_rep lp (A @ M @ B) cnt" and M': "\<forall>b \<in> set M'. is_block b"
    and small: "7 + length (concat (A @ M' @ B)) < 2 ^ 32"
    and lp': "lp_buf lp' = take 6 (lp_buf lp) @ concat A @ concat M' @ concat B @ [LP_EOF]"
    and d: "d = int (length M') - int (length M)"
  shows "\<exists>cnt'. lp_rep (sync_header lp' d) (A @ M' @ B) cnt'"
proof -
  let ?c = "if cnt = LP_HDR_NUMELE_UNKNOWN then cnt else nat (max 0 (min (int cnt + d) (int LP_HDR_NUMELE_UNKNOWN)))"
  have buf: "lp_buf lp' = le_bytes 4 (int (7 + length (concat (A @ M @ B)))) @ le_bytes 2 (int cnt) @ (concat (A @ M' @ B) @ [LP_EOF])"
    and cnt: "cnt \<le> LP_HDR_NUMELE_UNKNOWN" "cnt = LP_HDR_NUMELE_UNKNOWN \<or> cnt = length (A @ M @ B)"
    using rep lp' by (simp_all add: lp_rep_def)
  have "length (lp_buf lp') = 7 + length (concat (A @ M' @ B))" by (simp add: buf)
  then have "lp_buf (sync_header lp' d) = le_bytes 4 (int (7 + length (concat (A @ M' @ B)))) @ le_bytes 2 (int ?c) @ concat (A @ M' @ B) @ [LP_EOF]"
    using sync_header_correct [OF buf _ cnt(1), of d] by simp
  moreover have "?c = LP_HDR_NUMELE_UNKNOWN \<or> ?c = length (A @ M' @ B)" "?c \<le> LP_HDR_NUMELE_UNKNOWN"
    using cnt d by auto
  moreover have "\<forall>b \<in> set (A @ M' @ B). is_block b" using rep M' by (auto simp: lp_rep_def)
  ultimately have "lp_rep (sync_header lp' d) (A @ M' @ B) ?c" using small unfolding lp_rep_def by blast
  then show ?thesis by blast
qed

definition entry_ok :: "lp_entry \<Rightarrow> bool" where
  "entry_ok v = (case v of EInt i \<Rightarrow> fits 8 i | EStr s \<Rightarrow> True)"

definition canon_entry :: "lp_entry \<Rightarrow> lp_entry" where
  "canon_entry v = payload_entry (canonicalize v)"

definition entry_size :: "lp_entry \<Rightarrow> nat" where
  "entry_size v = (let n = payload_enclen (canonicalize v) in n + backlen_size n)"

lemma length_block_canon: "length (block_of (canonicalize v)) = entry_size v"
  by (simp add: entry_size_def length_block_of Let_def)

lemma canonicalize_ok:
  assumes "entry_ok v" "entry_size v < 2 ^ 32" shows "payload_ok (canonicalize v)"
  using assms string2ll_Some_iff [THEN iffD1, THEN conjunct1]
  by (auto simp: entry_ok_def entry_size_def canonicalize_def payload_ok_def payload_enclen_def Let_def
      split: lp_entry.splits option.splits if_splits)

lemma rep_length: "lp_rep lp bs cnt \<Longrightarrow> length (lp_buf lp) = 7 + length (concat bs)"
  by (simp add: lp_rep_def)

lemma rep_parts:
  assumes "lp_rep lp (A @ M @ B) cnt"
  shows "lp_buf lp = (take 6 (lp_buf lp) @ concat A) @ concat M @ (concat B @ [LP_EOF])"
    and "length (take 6 (lp_buf lp) @ concat A) = off (A @ M @ B) (length A)"
  using assms by (simp_all add: lp_rep_def off_def LP_HDR_SIZE_def)

lemma rep_write:
  assumes rep: "lp_rep lp (A @ M @ B) cnt" and v: "entry_ok v" 
    and small: "7 + length (concat (A @ B)) + entry_size v < 2 ^ 32"
  shows "\<exists>lp1. splice lp (off (A @ M @ B) (length A)) (length (concat M)) (entry_size v) = Some lp1 \<and>
    (\<exists>cnt'. lp_rep (sync_header (write_at lp1 (off (A @ M @ B) (length A)) (canonicalize v) (entry_size v)) (1 - int (length M)))
       (A @ [block_of (canonicalize v)] @ B) cnt')"
proof -
  let ?b = "block_of (canonicalize v)" and ?P = "take 6 (lp_buf lp) @ concat A" and ?T = "concat B @ [LP_EOF]"
  obtain J where J: "length J = entry_size v"
      "splice lp (length ?P) (length (concat M)) (entry_size v) = Some (lp\<lparr>lp_buf := ?P @ J @ ?T\<rparr>)"
    using splice_correct [OF rep_parts(1) [OF rep] refl, of "entry_size v"] by blast
  have "write_at (lp\<lparr>lp_buf := ?P @ J @ ?T\<rparr>) (length ?P) (canonicalize v) (entry_size v) = lp\<lparr>lp_buf := ?P @ ?b @ ?T\<rparr>"
    using write_at_correct [of "lp\<lparr>lp_buf := ?P @ J @ ?T\<rparr>" ?P J ?T "canonicalize v"] J by (simp add: length_block_canon)
  moreover have "\<exists>cnt'. lp_rep (sync_header (lp\<lparr>lp_buf := ?P @ ?b @ ?T\<rparr>) (1 - int (length M))) (A @ [?b] @ B) cnt'"
    by (rule rep_change [OF rep]) (use block_of_correct [OF canonicalize_ok [OF v]] small in \<open>simp_all add: length_block_canon\<close>)
  ultimately show ?thesis using J unfolding rep_parts(2) [OF rep] by auto
qed

lemma rep_erase:
  assumes rep: "lp_rep lp (A @ M @ B) cnt"
  shows "\<exists>lp1. splice lp (off (A @ M @ B) (length A)) (length (concat M)) 0 = Some lp1 \<and>
    (\<exists>cnt'. lp_rep (sync_header lp1 (- int (length M))) (A @ B) cnt')"
proof -
  let ?P = "take 6 (lp_buf lp) @ concat A" and ?T = "concat B @ [LP_EOF]"
  have "splice lp (length ?P) (length (concat M)) 0 = Some (lp\<lparr>lp_buf := ?P @ ?T\<rparr>)"
    using splice_correct [OF rep_parts(1) [OF rep] refl, of 0] by auto
  moreover have "\<exists>cnt'. lp_rep (sync_header (lp\<lparr>lp_buf := ?P @ ?T\<rparr>) (- int (length M))) (A @ [] @ B) cnt'"
    by (rule rep_change [OF rep]) (use rep in \<open>simp_all add: lp_rep_def\<close>)
  ultimately show ?thesis unfolding rep_parts(2) [OF rep] by auto
qed

text \<open>\<open>result_rep r lp bs' ok\<close>: the operation returned \<open>True\<close> with a listpack of the blocks \<open>bs'\<close> when
  \<open>ok\<close>, and otherwise \<open>False\<close> with the listpack unchanged.\<close>

definition result_rep :: "(bool \<times> listpack) option \<Rightarrow> listpack \<Rightarrow> bytes list \<Rightarrow> bool \<Rightarrow> bool" where
  "result_rep r lp bs' ok \<longleftrightarrow>
     (if ok then \<exists>lp' cnt'. r = Some (True, lp') \<and> lp_rep lp' bs' cnt' else r = Some (False, lp))"

lemma rep_insert_at_offset:
  assumes rep: "lp_rep lp bs cnt" and k: "k \<le> length bs" and v: "entry_ok v"
  shows "result_rep (insert_at_offset lp (off bs k) v) lp (take k bs @ [block_of (canonicalize v)] @ drop k bs)
     (safe_to_add lp (entry_size v))"
proof (cases "safe_to_add lp (entry_size v)")
  case True
  then have s: "7 + length (concat bs) + entry_size v \<le> 2 ^ 30" using rep_length [OF rep]
    by (auto simp: safe_to_add_def LP_MAX_SAFETY_SIZE_def min_def split: if_splits)
  have "length (concat bs) = length (concat (take k bs @ drop k bs))" by simp
  then obtain lp1 cnt' where "splice lp (off bs k) 0 (entry_size v) = Some lp1"
    "lp_rep (sync_header (write_at lp1 (off bs k) (canonicalize v) (entry_size v)) 1)
       (take k bs @ [block_of (canonicalize v)] @ drop k bs) cnt'"
    using s rep_write [of lp "take k bs" "[]" "drop k bs" cnt v] rep v k by auto
  moreover from this have "insert_at_offset lp (off bs k) v
      = Some (True, sync_header (write_at lp1 (off bs k) (canonicalize v) (entry_size v)) 1)"
    using True by (simp add: insert_at_offset_def Let_def entry_size_def)
  ultimately show ?thesis using True by (auto simp: result_rep_def)
next
  case False then show ?thesis by (simp add: insert_at_offset_def Let_def entry_size_def result_rep_def)
qed

lemma rep_append:
  assumes "lp_rep lp bs cnt" "entry_ok v"
  shows "result_rep (lp_append lp v) lp (bs @ [block_of (canonicalize v)]) (safe_to_add lp (entry_size v))"
  using rep_insert_at_offset [OF assms(1) order.refl assms(2)] by (simp add: lp_append_def rep_eof [OF assms(1)])

lemma rep_prepend:
  assumes "lp_rep lp bs cnt" "entry_ok v"
  shows "result_rep (lp_prepend lp v) lp (block_of (canonicalize v) # bs) (safe_to_add lp (entry_size v))"
  using rep_insert_at_offset [OF assms(1) _ assms(2), of 0] by (simp add: lp_prepend_def off_0)

lemma rep_insert:
  assumes "lp_rep lp bs cnt" "entry_ok v"
  shows "result_rep (lp_insert lp i v) lp (take i bs @ [block_of (canonicalize v)] @ drop i bs) (safe_to_add lp (entry_size v))"
proof (cases "i < length bs")
  case True
  then show ?thesis using rep_insert_at_offset [OF assms(1) _ assms(2), of i]
    by (simp add: lp_insert_def lp_rep_len [OF assms(1)] rep_seek_fwd [OF assms(1)])
next
  case False
  then show ?thesis using rep_insert_at_offset [OF assms(1) order.refl assms(2)]
    by (simp add: lp_insert_def lp_rep_len [OF assms(1)] rep_eof [OF assms(1)])
qed

lemma take_nth_drop: "k < length bs \<Longrightarrow> bs = take k bs @ [bs ! k] @ drop (Suc k) bs"
  by (simp add: id_take_nth_drop [symmetric])

lemma rep_delete:
  assumes rep: "lp_rep lp bs cnt"
  shows "case norm_index (length bs) i of
      Some k \<Rightarrow> result_rep (lp_delete lp i) lp (take k bs @ drop (Suc k) bs) True
    | None \<Rightarrow> lp_delete lp i = Some (False, lp)"
proof (cases "norm_index (length bs) i")
  case None
  then show ?thesis by (simp add: lp_delete_def rep_seek [OF rep])
next
  case (Some k)
  then have k: "k < length bs" by (rule norm_index_less)
  note bs = take_nth_drop [OF k]
  obtain lp1 cnt' where "splice lp (off bs k) (length (bs ! k)) 0 = Some lp1"
    "lp_rep (sync_header lp1 (- 1)) (take k bs @ drop (Suc k) bs) cnt'"
    using rep_erase [of lp "take k bs" "[bs ! k]" "drop (Suc k) bs" cnt] rep k bs [symmetric] by auto
  then show ?thesis using Some k by (auto simp: lp_delete_def rep_seek [OF rep] rep_entry_span [OF rep] result_rep_def)
qed

lemma rep_replace:
  assumes rep: "lp_rep lp bs cnt" and v: "entry_ok v"
  shows "if i < length bs
     then result_rep (lp_replace lp i v) lp (bs[i := block_of (canonicalize v)])
       (entry_size v \<le> length (bs ! i) \<or> safe_to_add lp (entry_size v - length (bs ! i)))
     else lp_replace lp i v = Some (False, lp)"
proof (cases "i < length bs")
  case False
  then have "norm_index (length bs) (int i) = None" by (simp add: norm_index_def)
  with False show ?thesis by (simp add: lp_replace_def rep_seek [OF rep])
next
  case k: True
  note bs = take_nth_drop [OF k]
  have n: "norm_index (length bs) (int i) = Some i" using k by (simp add: norm_index_def)
  let ?ok = "entry_size v \<le> length (bs ! i) \<or> safe_to_add lp (entry_size v - length (bs ! i))"
  show ?thesis
  proof (cases ?ok)
    case True
    have len: "length (concat bs) = length (concat (take i bs @ drop (Suc i) bs)) + length (bs ! i)" by (subst bs) simp
    have s: "7 + length (concat (take i bs @ drop (Suc i) bs)) + entry_size v < 2 ^ 32"
      using True rep_length [OF rep] rep unfolding len
      by (auto simp: safe_to_add_def LP_MAX_SAFETY_SIZE_def lp_rep_def len min_def simp del: concat_append split: if_splits)
    obtain lp1 cnt' where "splice lp (off bs i) (length (bs ! i)) (entry_size v) = Some lp1"
      "lp_rep (sync_header (write_at lp1 (off bs i) (canonicalize v) (entry_size v)) 0)
         (take i bs @ [block_of (canonicalize v)] @ drop (Suc i) bs) cnt'"
      using rep_write [of lp "take i bs" "[bs ! i]" "drop (Suc i) bs" cnt v] s rep v k bs [symmetric] by auto
    then show ?thesis using k True
      by (auto simp: lp_replace_def rep_seek [OF rep] n rep_entry_span [OF rep] result_rep_def upd_conv_take_nth_drop
          Let_def entry_size_def [unfolded Let_def])
  next
    case False
    then show ?thesis using k
      by (auto simp: lp_replace_def rep_seek [OF rep] n rep_entry_span [OF rep] result_rep_def Let_def entry_size_def [unfolded Let_def])
  qed
qed

lemma rep_delete_range_loop:
  assumes rep: "lp_rep lp bs cnt"
  shows "k \<le> length bs \<Longrightarrow> delete_range_loop lp c (off bs k) r = (off bs (min (k + c) (length bs)), r + min c (length bs - k))"
proof (induction c arbitrary: k r)
  case 0 then show ?case by (simp add: min_def)
next
  case (Suc c)
  show ?case
  proof (cases "k < length bs")
    case True
    then show ?thesis using Suc.IH [of "Suc k" "r + 1"] rep_off_less_eof [OF rep, of k] rep_entry_span [OF rep True]
      by (auto simp: off_Suc min_def)
  next
    case False
    then show ?thesis using Suc.prems rep_off_less_eof [OF rep, of k] by (simp add: min_def)
  qed
qed

lemma rep_delete_range:
  assumes rep: "lp_rep lp bs cnt"
  shows "\<exists>lp' cnt'. delete_range lp i c = Some (min c (length bs - i), lp') \<and> lp_rep lp' (take i bs @ drop (i + c) bs) cnt'"
proof (cases "c = 0 \<or> length bs \<le> i")
  case True
  then show ?thesis using rep by (auto simp: delete_range_def rep_seek_fwd [OF rep])
next
  case False
  let ?j = "min (i + c) (length bs)"
  let ?M = "take (?j - i) (drop i bs)"
  have bs: "bs = take i bs @ ?M @ drop (i + c) bs"
  proof -
    have "drop i bs = ?M @ drop (?j - i) (drop i bs)" by (rule append_take_drop_id [symmetric])
    moreover have "drop (?j - i) (drop i bs) = drop (i + c) bs" using False by (auto simp: min_def add.commute)
    ultimately show ?thesis by (metis append_take_drop_id)
  qed
  have M: "length ?M = min c (length bs - i)" using False by (auto simp: min_def)
  have "take ?j bs = take i bs @ ?M" using False by (simp add: take_add [symmetric] min_def)
  then have o: "off bs ?j - off bs i = length (concat ?M)" by (simp add: off_def)
  obtain lp1 cnt' where "splice lp (off bs i) (length (concat ?M)) 0 = Some lp1"
    "lp_rep (sync_header lp1 (- int (length ?M))) (take i bs @ drop (i + c) bs) cnt'"
    using rep_erase [of lp "take i bs" ?M "drop (i + c) bs" cnt] rep False bs [symmetric] by (auto simp: min_def)
  then show ?thesis using False o M
    by (auto simp: delete_range_def rep_seek_fwd [OF rep] rep_delete_range_loop [OF rep])
qed

lemma rep_append_all:
  assumes rep: "lp_rep lp bs cnt" and other: "lp_rep lp2 bs2 cnt2"
  shows "result_rep (append_all lp lp2) lp (bs @ bs2) (safe_to_add lp (length (concat bs2)))"
proof (cases "safe_to_add lp (length (concat bs2))")
  case True
  let ?P = "take 6 (lp_buf lp) @ concat bs" and ?x = "length (concat bs2)"
  have x: "length (lp_buf lp2) - Suc LP_HDR_SIZE = ?x" using rep_length [OF other] by (simp add: LP_HDR_SIZE_def)
  have eof: "eof_offset lp = length ?P" using rep_eof [OF rep] rep by (simp add: off_def lp_rep_def LP_HDR_SIZE_def)
  have src: "slice_get (lp_buf lp2) LP_HDR_SIZE (LP_HDR_SIZE + ?x) = Some (concat bs2)"
    using other by (simp add: lp_rep_def LP_HDR_SIZE_def slice_get_def)
  obtain J where J: "length J = ?x" "splice lp (length ?P) 0 ?x = Some (lp\<lparr>lp_buf := ?P @ J @ [LP_EOF]\<rparr>)"
    using splice_correct [of lp ?P "[]" "[LP_EOF]" 0 ?x] rep by (auto simp: lp_rep_def)
  have "slice_put (?P @ J @ [LP_EOF]) (length ?P) (concat bs2) = ?P @ concat bs2 @ [LP_EOF]"
    using J by (intro slice_put_midI) simp_all
  moreover have "slice_get (?P @ J @ [LP_EOF]) (length ?P) (length ?P + ?x) = Some J" using J by (intro slice_get_midI) simp_all
  ultimately have res: "append_all lp lp2 = Some (True, sync_header (lp\<lparr>lp_buf := ?P @ concat bs2 @ [LP_EOF]\<rparr>) (int (length bs2)))"
    using True J src by (simp add: append_all_def x eof lp_rep_len [OF other] Let_def del: append_assoc length_append)
  have "\<exists>cnt'. lp_rep (sync_header (lp\<lparr>lp_buf := ?P @ concat bs2 @ [LP_EOF]\<rparr>) (int (length bs2))) (bs @ bs2 @ []) cnt'"
  proof (rule rep_change [of lp bs "[]" "[]" cnt])
    show "7 + length (concat (bs @ bs2 @ [])) < 2 ^ 32"
      using True rep_length [OF rep] by (auto simp: safe_to_add_def LP_MAX_SAFETY_SIZE_def min_def split: if_splits)
  qed (use rep other in \<open>auto simp: lp_rep_def\<close>)
  then show ?thesis using res True by (auto simp: result_rep_def)
next
  case False
  then show ?thesis using rep_length [OF other] by (simp add: append_all_def result_rep_def LP_HDR_SIZE_def)
qed

lemma lp_rep_new: "lp_rep lp_new [] 0"
  by (simp add: lp_rep_def lp_new_def)

lemma clear_buf:
  assumes "lp_rep lp bs cnt" shows "lp_buf (lp_clear lp) = le_bytes 4 7 @ le_bytes 2 (int cnt) @ [LP_EOF]"
proof -
  have buf: "lp_buf (lp\<lparr>lp_buf := take LP_HDR_SIZE (lp_buf lp) @ [LP_EOF]\<rparr>)
      = le_bytes 4 (int (7 + length (concat bs))) @ le_bytes 2 (int cnt) @ [LP_EOF]"
    using assms by (simp add: lp_rep_def LP_HDR_SIZE_def)
  have "cnt \<le> LP_HDR_NUMELE_UNKNOWN" using assms by (simp add: lp_rep_def)
  from sync_header_correct [OF buf _ this, of 0] this show ?thesis
    using assms by (auto simp: lp_clear_def lp_rep_def LP_HDR_SIZE_def min_def)
qed

subsection \<open>Validation\<close>

text \<open>A decoder that succeeds within a prefix does not look past it.\<close>

definition upto_opt :: "nat \<Rightarrow> ('a \<times> nat) option \<Rightarrow> ('a \<times> nat) option \<Rightarrow> bool" where
  "upto_opt L x y \<longleftrightarrow> (\<forall>e n. y = Some (e, n) \<and> n \<le> L \<longrightarrow> x = Some (e, n))"

lemma upto_refl: "upto_opt L x x"
  by (simp add: upto_opt_def)

lemma upto_if: "upto_opt L a a' \<Longrightarrow> upto_opt L b b' \<Longrightarrow> upto_opt L (if P then a else b) (if P then a' else b')"
  by (simp add: upto_opt_def)

lemma upto_nth:
  "(\<And>a. upto_opt (length b) (f a) (g a)) \<Longrightarrow> (\<And>a e n. g a = Some (e, n) \<Longrightarrow> i < n) \<Longrightarrow>
   upto_opt (length b) (Option.bind (nth_opt b i) f) (Option.bind (nth_opt (b @ post) i) g)"
  by (fastforce simp: upto_opt_def bind_eq_Some_conv nth_opt_append_left nth_append split: if_splits)

lemma upto_slice:
  "(\<And>a. upto_opt (length b) (f a) (g a)) \<Longrightarrow> (\<And>a e n. g a = Some (e, n) \<Longrightarrow> j \<le> n) \<Longrightarrow>
   upto_opt (length b) (Option.bind (slice_get b i j) f) (Option.bind (slice_get (b @ post) i j) g)"
  by (fastforce simp: upto_opt_def bind_eq_Some_conv slice_get_def)

lemma decode_at_restrict:
  assumes "decode_at (b @ post) 0 = Some (e, n)" "n \<le> length b" shows "decode_at b 0 = Some (e, n)"
proof -
  have "b \<noteq> []" using decode_at_pos [OF assms(1)] assms(2) by auto
  then have nth: "nth_opt (b @ post) 0 = Some (hd b)" "nth_opt b 0 = Some (hd b)" by (auto simp: hd_conv_nth nth_append)
  have "upto_opt (length b) (decode_at b 0) (decode_at (b @ post) 0)"
    unfolding decode_at_def Let_def nth bind.bind_lunit
    by (intro upto_if upto_nth upto_slice upto_refl) (auto simp: bind_eq_Some_conv simp del: nth_opt_Some)
  then show ?thesis using assms by (simp add: upto_opt_def)
qed

lemma decode_backlen_count: "decode_backlen_loop buf q val sh n = Some (v, n') \<Longrightarrow> n < n'"
proof (induction buf q val sh n rule: decode_backlen_loop.induct)
  case (1 buf q val sh n)
  from 1(2) show ?case
    by (subst (asm) decode_backlen_loop.simps) (auto simp: Let_def split: option.splits if_splits dest!: 1(1) [rotated -1])
qed
lemma decode_backlen_restrict:
  "decode_backlen_loop buf q val sh n = Some (v, n') \<Longrightarrow> buf = pre @ b @ post \<Longrightarrow> q = length pre + p \<Longrightarrow> p < length b \<Longrightarrow> n' \<le> n + p + 1 \<Longrightarrow>
   decode_backlen_loop b p val sh n = Some (v, n')"
proof (induction buf q val sh n arbitrary: p rule: decode_backlen_loop.induct)
  case (1 buf q val sh n)
  define x where "x = b ! p"
  have x: "nth_opt b p = Some x" and x': "nth_opt buf q = Some x" using 1 by (auto simp: nth_append x_def)
  let ?v = "val + unat (x AND 127) * 2 ^ sh"
  have A: "decode_backlen_loop b p val sh n = (if x AND 128 = 0 then Some (?v, n + 1)
      else if sh + 7 > 28 then None else if p = 0 then None else decode_backlen_loop b (p - 1) ?v (sh + 7) (n + 1))"
    by (subst decode_backlen_loop.simps, subst x) (simp add: Let_def checked_sub_def)
  have B: "decode_backlen_loop buf q val sh n = (if x AND 128 = 0 then Some (?v, n + 1)
      else if sh + 7 > 28 then None else if q = 0 then None
      else decode_backlen_loop buf (q - 1) ?v (sh + 7) (n + 1))"
    by (subst decode_backlen_loop.simps, subst x') (simp add: Let_def checked_sub_def Suc_le_eq)
  show ?case
  proof (cases "x AND 128 = 0")
    case True then show ?thesis using 1(2) A B by simp
  next
    case False
    with 1(2) B have rec: "decode_backlen_loop buf (q - 1) ?v (sh + 7) (n + 1) = Some (v, n')" and sh: "\<not> sh + 7 > 28" and q: "q \<noteq> 0"
      by (auto split: if_splits)
    have "n + 1 < n'" using decode_backlen_count [OF rec] by simp
    then have p: "p \<noteq> 0" using 1 by simp
    then have "decode_backlen_loop b (p - 1) ?v (sh + 7) (n + 1) = Some (v, n')"
      using "1.IH" [OF x' refl refl False refl sh _ rec, of "p - 1"] 1(3-) q by (simp add: checked_sub_def)
    then show ?thesis using A False sh p by simp
  qed
qed

lemma block_of_slice:
  assumes buf: "buf = pre @ b @ post" and d: "decode_at buf (length pre) = Some (e, n)"
    and len: "length b = n + backlen_size n"
    and bl: "decode_backlen buf (length pre + length b - 1) = Some (n, backlen_size n)"
  shows "is_block b"
proof -
  have pos: "0 < length b" using len backlen_size_pos [of n] by simp
  have "decode_at b 0 = Some (e, n)"
    using d len decode_at_shift [of pre "b @ post" 0] by (intro decode_at_restrict [of b post]) (simp_all add: buf)
  moreover have "decode_backlen b (length b - 1) = Some (n, backlen_size n)"
    unfolding decode_backlen_def
    by (rule decode_backlen_restrict [OF bl [unfolded decode_backlen_def] buf]) (use pos len in auto)
  ultimately show ?thesis using len by (simp add: is_block_def)
qed

lemma validate_loop_sound:
  "validate_loop buf o1 c = Some (o2, c') \<Longrightarrow> o1 \<le> length buf - 1 \<Longrightarrow>
   \<exists>bs pre post. buf = pre @ concat bs @ post \<and> length pre = o1 \<and> o2 = o1 + length (concat bs) \<and> length buf - 1 \<le> o2
     \<and> c' = c + length bs \<and> (\<forall>b \<in> set bs. is_block b)"
proof (induction buf o1 c rule: validate_loop.induct)
  case (1 buf o1 c)
  show ?case
  proof (cases "o1 < length buf - 1")
    case False
    with 1(2) have "o2 = o1" "c' = c" by (subst (asm) validate_loop.simps; simp)+
    then show ?thesis using False 1(3) by (intro exI [of _ "[]"] exI [of _ "take o1 buf"] exI [of _ "drop o1 buf"]) auto
  next
    case True
    obtain e n where d: "decode_at buf o1 = Some (e, n)"
      using 1(2) True by (subst (asm) validate_loop.simps) (auto split: option.splits)
    let ?s = "n + backlen_size n"
    from 1(2) True d have nxt: "Option.bind (checked_add o1 n) (\<lambda>x. checked_add x (backlen_size n)) = Some (o1 + ?s)"
      and le: "\<not> o1 + ?s > length buf - 1" and bl: "decode_backlen buf (o1 + ?s - 1) = Some (n, backlen_size n)"
      and c: "\<not> c + 1 > 2 ^ 32 - 1" and rec: "validate_loop buf (o1 + ?s) (c + 1) = Some (o2, c')"
      by (subst (asm) validate_loop.simps; auto simp: Let_def checked_add_def bind_eq_Some_conv add.assoc split: option.splits if_splits)+
    obtain bs pre post where IH: "buf = pre @ concat bs @ post" "length pre = o1 + ?s" "o2 = o1 + ?s + length (concat bs)"
      "length buf - 1 \<le> o2" "c' = c + 1 + length bs" "\<forall>b \<in> set bs. is_block b"
      using "1.IH" [OF refl True d refl refl nxt le _ c rec] le bl by auto
    have "is_block (drop o1 pre)"
      by (rule block_of_slice [of buf "take o1 pre" _ "concat bs @ post" e n]) (use IH d bl in \<open>simp_all add: min_absorb2\<close>)
    then show ?thesis
      by (intro exI [of _ "drop o1 pre # bs"] exI [of _ "take o1 pre"] exI [of _ post]) (use IH in auto)
  qed
qed

lemma length_concat_ge: "\<forall>b \<in> set bs. b \<noteq> [] \<Longrightarrow> length bs \<le> length (concat bs)"
proof (induction bs)
  case (Cons b bs)
  then show ?case by (cases b) auto
qed simp

lemma validate_loop_complete:
  assumes rep: "lp_rep lp bs cnt"
  shows "k \<le> length bs \<Longrightarrow> validate_loop (lp_buf lp) (off bs k) k = Some (off bs (length bs), length bs)"
proof (induction "length bs - k" arbitrary: k)
  case 0
  then show ?case using rep_off_less_eof [OF rep, of k] by (subst validate_loop.simps) (simp add: Let_def eof_offset_def)
next
  case (Suc m)
  then have k: "k < length bs" by simp
  obtain n where n: "decode_at (lp_buf lp) (off bs k) = Some (block_val (bs ! k), n)" "n + backlen_size n = length (bs ! k)"
      "decode_backlen (lp_buf lp) (off bs (Suc k) - 1) = Some (n, backlen_size n)"
    using rep_at [OF rep k] by blast
  have le: "off bs (Suc k) \<le> length (lp_buf lp) - 1" using off_mono [of "Suc k" "length bs" bs] k rep_eof [OF rep] by (simp add: eof_offset_def)
  have small: "length (lp_buf lp) < 2 ^ 32" using rep by (simp add: lp_rep_def)
  have "length bs \<le> length (concat bs)" using rep is_block_nonempty by (intro length_concat_ge) (auto simp: lp_rep_def)
  then have c: "\<not> k + 1 > 2 ^ 32 - 1" using k rep by (simp add: lp_rep_def)
  have lt: "off bs k < length (lp_buf lp) - 1" using rep_off_less_eof [OF rep, of k] k by (simp add: eof_offset_def)
  have o: "off bs (Suc k) = off bs k + n + backlen_size n" using n(2) k by (simp add: off_Suc)
  have add: "Option.bind (checked_add (off bs k) n) (\<lambda>x. checked_add x (backlen_size n)) = Some (off bs (Suc k))"
    using o le small by (simp add: checked_add_def)
  show ?case using Suc.hyps(1) [of "Suc k"] Suc.hyps(2) k lt le n c
    by (subst validate_loop.simps) (simp add: Let_def add)
qed

lemma validate_iff_rep: "validate buf \<longleftrightarrow> (\<exists>bs cnt. lp_rep \<lparr>lp_buf = buf\<rparr> bs cnt)"
proof
  assume v: "validate buf"
  then have len: "7 \<le> length buf" and tot: "nat (le_val (take 4 buf)) = length buf" and eof: "last buf = LP_EOF"
    by (auto simp: validate_def LP_HDR_SIZE_def slice_get_def Let_def min_def split: if_splits)
  from v obtain o2 c where loop: "validate_loop buf 6 0 = Some (o2, c)" and o2: "o2 = length buf - 1"
    and cnt: "nat (le_val (drop 4 (take 6 buf))) = LP_HDR_NUMELE_UNKNOWN \<or> nat (le_val (drop 4 (take 6 buf))) = c"
    by (auto simp: validate_def LP_HDR_SIZE_def slice_get_def Let_def split: if_splits option.splits)
  obtain bs pre post where b: "buf = pre @ concat bs @ post" "length pre = 6" "o2 = 6 + length (concat bs)" "c = length bs"
    "\<forall>b \<in> set bs. is_block b" proof -
    have "6 \<le> length buf - 1" using len by simp
    from validate_loop_sound [OF loop this] that show ?thesis by auto
  qed
  let ?cnt = "nat (le_val (drop 4 (take 6 buf)))"
  have "length post = 1" using b o2 len by simp
  then have post: "post = [LP_EOF]" using eof b by (cases post) auto
  have h4: "le_bytes 4 (le_val (take 4 buf)) = take 4 buf" and h2: "le_bytes 2 (le_val (drop 4 (take 6 buf))) = drop 4 (take 6 buf)"
    using le_bytes_le_val [of "take 4 buf"] le_bytes_le_val [of "drop 4 (take 6 buf)"] len by (simp_all add: min_def)
  have split: "take 4 buf @ drop 4 (take 6 buf) = pre" 
  proof -
    have "take 6 buf = pre" using b by simp
    moreover have "take 4 buf = take 4 (take 6 buf)" by (simp add: min_def)
    ultimately show ?thesis by (metis append_take_drop_id)
  qed
  have "?cnt \<le> LP_HDR_NUMELE_UNKNOWN" "le_val (take 4 buf) < 2 ^ 32"
    using le_val_less [of "drop 4 (take 6 buf)"] le_val_less [of "take 4 buf"] len
    by (simp_all add: LP_HDR_NUMELE_UNKNOWN_def min_def)
  then have "lp_rep \<lparr>lp_buf = buf\<rparr> bs ?cnt"
    unfolding lp_rep_def
  proof (intro conjI)
    have "int (7 + length (concat bs)) = le_val (take 4 buf)" "int ?cnt = le_val (drop 4 (take 6 buf))" using tot o2 b len by simp_all
    then show "lp_buf \<lparr>lp_buf = buf\<rparr> = le_bytes 4 (int (7 + length (concat bs))) @ le_bytes 2 (int ?cnt) @ concat bs @ [LP_EOF]"
      using h4 h2 split b(1) post by (metis append_assoc listpack.select_convs(1))
  qed (use b cnt tot o2 len in auto)
  then show "\<exists>bs cnt. lp_rep \<lparr>lp_buf = buf\<rparr> bs cnt" by blast
next
  assume "\<exists>bs cnt. lp_rep \<lparr>lp_buf = buf\<rparr> bs cnt"
  then obtain bs cnt where rep: "lp_rep \<lparr>lp_buf = buf\<rparr> bs cnt" by blast
  then have buf: "buf = le_bytes 4 (int (7 + length (concat bs))) @ le_bytes 2 (int cnt) @ concat bs @ [LP_EOF]" by (simp add: lp_rep_def)
  have "slice_get buf 0 6 = Some (le_bytes 4 (int (7 + length (concat bs))) @ le_bytes 2 (int cnt))"
    by (simp add: buf slice_get_def)
  moreover have "validate_loop buf 6 0 = Some (length buf - 1, length bs)"
    using validate_loop_complete [OF rep, of 0] rep_eof [OF rep] by (simp add: off_0 LP_HDR_SIZE_def eof_offset_def)
  moreover have "le_val (le_bytes 4 (int (7 + length (concat bs)))) = int (7 + length (concat bs))"
    using rep by (intro le_val_le_bytes_small) (simp_all add: lp_rep_def)
  moreover have "nat (le_val (le_bytes 2 (int cnt))) = cnt" using rep by (simp add: header_count_le lp_rep_def LP_HDR_NUMELE_UNKNOWN_def)
  moreover have "length buf = 7 + length (concat bs)" "last buf = LP_EOF" by (simp_all add: buf)
  ultimately show "validate buf" using rep by (auto simp: validate_def LP_HDR_SIZE_def Let_def lp_rep_def)
qed

end
