(* ===== verification/Listpack_Seq.thy ===== *)
theory Listpack_Seq
  imports Listpack_Proofs "HOL-Library.Sublist"
begin

text \<open>
  What the listpack promises its callers: a sequence of entries. The locale \<open>packed_seq\<close> states the
  contract (an invariant, the abstract sequence, appending and reading by signed index) and proves
  its consequences once; the listpack interprets it with its own validator as the invariant and its
  iterator as the abstract sequence. The properties of the listpack follow.
\<close>

subsection \<open>The sequence contract\<close>

definition seq_get :: "'e list \<Rightarrow> int \<Rightarrow> 'e option" where
  "seq_get es i = map_option ((!) es) (norm_index (length es) i)"

locale packed_seq =
  fixes inv :: "'s \<Rightarrow> bool" and vals :: "'s \<Rightarrow> 'e list"
    and room :: "'s \<Rightarrow> 'e \<Rightarrow> bool" and ok :: "'e \<Rightarrow> bool" and canon :: "'e \<Rightarrow> 'e"
    and mt :: 's and append :: "'s \<Rightarrow> 'e \<Rightarrow> (bool \<times> 's) option" and get :: "'s \<Rightarrow> int \<Rightarrow> 'e option"
  assumes inv_mt: "inv mt" and vals_mt: "vals mt = []"
    and append_room: "inv s \<Longrightarrow> ok e \<Longrightarrow> room s e \<Longrightarrow>
      \<exists>s'. append s e = Some (True, s') \<and> inv s' \<and> vals s' = vals s @ [canon e]"
    and append_full: "inv s \<Longrightarrow> ok e \<Longrightarrow> \<not> room s e \<Longrightarrow> append s e = Some (False, s)"
    and get_vals: "inv s \<Longrightarrow> get s i = seq_get (vals s) i"
begin

fun append_list :: "'s \<Rightarrow> 'e list \<Rightarrow> 's option" where
  "append_list s [] = Some s"
| "append_list s (e # es) = Option.bind (append s e) (\<lambda>(_, s'). append_list s' es)"

lemma append_get_last:
  assumes "inv s" "ok e" "append s e = Some (True, s')" shows "get s' (- 1) = Some (canon e)"
proof -
  from assms append_full have "room s e" by force
  with append_room assms have s': "inv s'" "vals s' = vals s @ [canon e]" by force+
  then show ?thesis by (simp add: get_vals seq_get_def norm_index_def nat_add_distrib)
qed

lemma append_get_old:
  assumes "inv s" "ok e" "append s e = Some (True, s')" "0 \<le> i" "i < int (length (vals s))" shows "get s' i = get s i"
proof -
  from assms append_full have "room s e" by force
  with append_room assms have s': "inv s'" "vals s' = vals s @ [canon e]" by force+
  then show ?thesis using assms by (simp add: get_vals seq_get_def norm_index_def nth_append nat_less_iff)
qed

text \<open>Appending a list keeps, in order, the entries for which there was room, never fails, and keeps
  everything when there is always room.\<close>

lemma append_list_subseq:
  "inv s \<Longrightarrow> list_all ok es \<Longrightarrow>
   \<exists>s' ks. append_list s es = Some s' \<and> inv s' \<and> vals s' = vals s @ map canon ks \<and> subseq ks es"
proof (induction es arbitrary: s)
  case (Cons e es)
  show ?case
  proof (cases "room s e")
    case True
    then obtain s1 where s1: "append s e = Some (True, s1)" "inv s1" "vals s1 = vals s @ [canon e]"
      using append_room Cons.prems by fastforce
    then obtain s' ks where "append_list s1 es = Some s'" "inv s'" "vals s' = vals s1 @ map canon ks" "subseq ks es"
      using Cons.IH [of s1] Cons.prems by auto
    then show ?thesis using s1 by (intro exI [of _ s'] exI [of _ "e # ks"]) simp
  next
    case False
    then show ?thesis using append_full [of s e] Cons.IH [of s] Cons.prems by auto
  qed
qed (auto intro: exI [of _ "[]"])

end

subsection \<open>The listpack as a sequence\<close>

lemma validate_rep: "validate (lp_buf lp) \<longleftrightarrow> (\<exists>bs cnt. lp_rep lp bs cnt)"
  using validate_iff_rep [of "lp_buf lp"] by (cases lp) simp

lemma rep_valid: "lp_rep lp bs cnt \<Longrightarrow> validate (lp_buf lp) \<and> lp_iter lp = lp_vals bs"
  by (auto simp: validate_rep rep_iter)

lemma result_rep_room:
  "result_rep r lp bs' ok \<Longrightarrow> ok \<Longrightarrow> \<exists>lp'. r = Some (True, lp') \<and> validate (lp_buf lp') \<and> lp_iter lp' = lp_vals bs'"
  by (auto simp: result_rep_def dest: rep_valid)

lemma result_rep_full: "result_rep r lp bs' ok \<Longrightarrow> \<not> ok \<Longrightarrow> r = Some (False, lp)"
  by (simp add: result_rep_def)

lemma canon_block: "entry_ok v \<Longrightarrow> safe_to_add lp (entry_size v) \<Longrightarrow> block_val (block_of (canonicalize v)) = canon_entry v"
  using block_of_correct [OF canonicalize_ok [of v]]
  by (auto simp: canon_entry_def safe_to_add_def LP_MAX_SAFETY_SIZE_def min_def split: if_splits)

interpretation listpack: packed_seq "\<lambda>lp :: listpack. validate (lp_buf lp)" lp_iter "\<lambda>lp v. safe_to_add lp (entry_size v)"
    entry_ok canon_entry lp_new lp_append lp_get
proof unfold_locales
  show "validate (lp_buf lp_new)" "lp_iter lp_new = []" using rep_valid [OF lp_rep_new] by (simp_all add: lp_vals_def)
next
  fix lp :: listpack and v assume v: "validate (lp_buf lp)" "entry_ok v"
  then obtain bs cnt where rep: "lp_rep lp bs cnt" by (auto simp: validate_rep)
  note app = rep_append [OF rep v(2)]
  show "safe_to_add lp (entry_size v) \<Longrightarrow>
      \<exists>s'. lp_append lp v = Some (True, s') \<and> validate (lp_buf s') \<and> lp_iter s' = lp_iter lp @ [canon_entry v]"
    using result_rep_room [OF app] canon_block [OF v(2)] by (simp add: rep_iter [OF rep] lp_vals_def)
  show "\<not> safe_to_add lp (entry_size v) \<Longrightarrow> lp_append lp v = Some (False, lp)" by (rule result_rep_full [OF app])
next
  fix lp :: listpack and i assume "validate (lp_buf lp)"
  then obtain bs cnt where rep: "lp_rep lp bs cnt" by (auto simp: validate_rep)
  show "lp_get lp i = seq_get (lp_iter lp) i" by (simp add: lp_rep_get [OF rep] rep_iter [OF rep] seq_get_def lp_vals_def)
qed

lemma from_entries_append_list: "from_entries_loop lp es = listpack.append_list lp es"
  by (induction es arbitrary: lp) simp_all

subsection \<open>Properties\<close>

lemma repE:
  assumes "validate (lp_buf lp)"
  obtains bs cnt where "lp_rep lp bs cnt" "lp_iter lp = map block_val bs" "length bs = length (lp_iter lp)"
proof -
  obtain bs cnt where "lp_rep lp bs cnt" using assms by (auto simp: validate_rep)
  then show ?thesis using that rep_iter [of lp bs cnt] by (simp add: lp_vals_def)
qed

text \<open>A listpack of the integer 5 and the string \<open>a\<close>, for the concrete instances below.\<close>

abbreviation demo_lp :: listpack where
  "demo_lp \<equiv> \<lparr>lp_buf = [12, 0, 0, 0, 2, 0, 5, 1, 0x81, 97, 2, 255]\<rparr>"

lemma demo_blocks: "block_of (PInt 5) = [5, 1]" "block_of (PStr [97]) = [0x81, 97, 2]"
  by (simp_all add: block_of_def payload_bytes_def payload_enclen_def write_backlen_def backlen_size_def upt_rec)

lemma demo_rep: "lp_rep demo_lp [block_of (PInt 5), block_of (PStr [97])] 2"
proof -
  have "is_block (block_of (PInt 5))" "is_block (block_of (PStr [97]))"
    using block_of_correct [of "PInt 5"] block_of_correct [of "PStr [97]"] by (simp_all add: payload_ok_def fits_def)
  moreover have "le_bytes 4 12 = [12, 0, 0, 0]" "le_bytes 2 2 = [2, 0]" by (simp_all add: eval_nat_numeral)
  ultimately show ?thesis by (simp add: lp_rep_def demo_blocks LP_EOF_def LP_HDR_NUMELE_UNKNOWN_def)
qed

lemma demo_42: "string2ll [52, 50] = Some 42"
  unfolding string2ll_Some_iff by (simp add: fits_def decimal_def digits.simps)

lemma demo_entry:
  "entry_ok (EStr [52, 50])" "safe_to_add demo_lp (entry_size (EStr [52, 50]))" "canon_entry (EStr [52, 50]) = EInt 42"
proof -
  have "canonicalize (EStr [52, 50]) = PInt 42" by (simp add: canonicalize_def demo_42)
  then show "entry_ok (EStr [52, 50])" "safe_to_add demo_lp (entry_size (EStr [52, 50]))" "canon_entry (EStr [52, 50]) = EInt 42"
    by (simp_all add: entry_ok_def safe_to_add_def entry_size_def payload_enclen_def backlen_size_def LP_MAX_SAFETY_SIZE_def
        canon_entry_def payload_entry_def)
qed

lemma length_nth_concat: "i < length bs \<Longrightarrow> length (bs ! i) \<le> length (concat bs)"
  by (induction bs arbitrary: i) (auto simp: nth_Cons trans_le_add2 split: nat.splits)

lemma demo_valid: "validate (lp_buf demo_lp)" "lp_iter demo_lp = [EInt 5, EStr [97]]"
  using rep_valid [OF demo_rep] block_of_correct [of "PInt 5"] block_of_correct [of "PStr [97]"]
  by (simp_all add: lp_vals_def payload_ok_def fits_def payload_entry_def)

text \<open>An entry written by \<^verbatim>\<open>write_payload\<close> reads back in both directions: \<^verbatim>\<open>decode_at\<close> returns the
  value and its encoded length, and \<^verbatim>\<open>decode_backlen\<close> at the last byte returns that length, for
  every 64-bit integer and every string a listpack can hold.\<close>

theorem write_payload_roundtrip:
  assumes "payload_ok p" and "length dst = payload_enclen p + backlen_size (payload_enclen p)"
  shows "decode_at (write_payload dst p) 0 = Some (payload_entry p, payload_enclen p)
    \<and> enclen_at (write_payload dst p) 0 = Some (payload_enclen p)
    \<and> decode_backlen (write_payload dst p) (length dst - 1) = Some (payload_enclen p, backlen_size (payload_enclen p))"
proof -
  have "write_payload dst p = block_of p" by (rule write_payload_block) (use assms in \<open>simp add: length_block_of\<close>)
  moreover from block_of_correct [OF assms(1)] obtain n where "decode_at (block_of p) 0 = Some (payload_entry p, n)"
    "length (block_of p) = n + backlen_size n" "decode_backlen (block_of p) (length (block_of p) - 1) = Some (n, backlen_size n)"
    by (metis is_blockE)
  moreover have "decode_at (block_of p) 0 = Some (payload_entry p, payload_enclen p)"
    unfolding block_of_def using decode_payload [OF assms(1)] by (rule decode_at_extend)
  ultimately show ?thesis using assms(2) enclen_at_decode [of "block_of p" 0] by (simp add: length_block_of)
qed

theorem write_payload_roundtrip_witness:
  "decode_at (write_payload (replicate 5 0) (PInt (- 70000))) 0 = Some (EInt (- 70000), 4)"
proof -
  have e: "payload_enclen (PInt (- 70000)) = 4" by (simp add: payload_enclen_def)
  show ?thesis
    using write_payload_roundtrip [of "PInt (- 70000)" "replicate 5 0"]
    by (simp add: payload_ok_def fits_def payload_entry_def backlen_size_def e)
qed

text \<open>On a listpack that the validator accepts, \<^verbatim>\<open>get\<close> reads entry \<open>i\<close> of the forward iteration,
  negative indices counting from the end, and returns nothing out of range; \<^verbatim>\<open>len\<close> counts the
  entries, \<^verbatim>\<open>first\<close> and \<^verbatim>\<open>last\<close> are the ends, and the reverse iteration is the forward one reversed.\<close>

theorem listpack_reads_agree:
  assumes "validate (lp_buf lp)"
  shows "lp_get lp i = (if 0 \<le> i \<and> i < int (length (lp_iter lp)) then Some (lp_iter lp ! nat i)
           else if i < 0 \<and> - int (length (lp_iter lp)) \<le> i then Some (lp_iter lp ! nat (i + int (length (lp_iter lp)))) else None)
    \<and> lp_len lp = length (lp_iter lp) \<and> lp_iter_rev lp = rev (lp_iter lp)
    \<and> lp_first lp = (if lp_iter lp = [] then None else Some (hd (lp_iter lp)))
    \<and> lp_last lp = (if lp_iter lp = [] then None else Some (last (lp_iter lp)))"
proof -
  obtain bs cnt where r: "lp_rep lp bs cnt" "lp_iter lp = map block_val bs" "length bs = length (lp_iter lp)"
    using assms by (rule repE)
  have "lp_get lp i = seq_get (lp_iter lp) i" by (rule listpack.get_vals [OF assms])
  then show ?thesis using lp_rep_len [OF r(1)] rep_iter_rev [OF r(1)] rep_first [OF r(1)] rep_last [OF r(1)] r(2)
    by (auto simp: seq_get_def norm_index_def lp_vals_def hd_conv_nth)
qed

theorem listpack_reads_agree_witness:
  "lp_get demo_lp (- 2) = Some (EInt 5)"
  using listpack_reads_agree [OF demo_valid(1), of "- 2"] by (simp add: demo_valid(2))

text \<open>C38. \<^verbatim>\<open>insert\<close> on a listpack the validator accepts puts the entry (in canonical form: a decimal
  string becomes an integer) before entry \<open>i\<close>, or at the end when \<open>i\<close> is past it, and the result is
  accepted again; when the grown buffer would pass the safety limit it refuses and changes nothing.
  \<^verbatim>\<open>append\<close> and \<^verbatim>\<open>prepend\<close> are its two ends.\<close>

theorem listpack_insert_correct:
  assumes "validate (lp_buf lp)" and "entry_ok v"
  shows "(if safe_to_add lp (entry_size v)
          then \<exists>lp'. lp_insert lp i v = Some (True, lp') \<and> validate (lp_buf lp')
            \<and> lp_iter lp' = take i (lp_iter lp) @ [canon_entry v] @ drop i (lp_iter lp)
          else lp_insert lp i v = Some (False, lp))
    \<and> lp_append lp v = lp_insert lp (length (lp_iter lp)) v \<and> lp_prepend lp v = lp_insert lp 0 v"
proof -
  obtain bs cnt where r: "lp_rep lp bs cnt" "lp_iter lp = map block_val bs" "length bs = length (lp_iter lp)"
    using assms(1) by (rule repE)
  note ins = rep_insert [OF r(1) assms(2), of i]
  have "lp_append lp v = lp_insert lp (length (lp_iter lp)) v"
    by (simp add: lp_append_def lp_insert_def lp_rep_len [OF r(1)] r(2))
  moreover have "lp_prepend lp v = lp_insert lp 0 v"
    using rep_eof [OF r(1)] by (simp add: lp_prepend_def lp_insert_def lp_rep_len [OF r(1)] rep_seek_fwd [OF r(1)] off_0)
  ultimately show ?thesis
    using result_rep_room [OF ins] result_rep_full [OF ins] canon_block [OF assms(2)]
    by (auto simp: r(2) lp_vals_def take_map drop_map)
qed

theorem listpack_insert_correct_witness:
  "\<exists>lp'. lp_insert demo_lp 1 (EStr [52, 50]) = Some (True, lp') \<and> lp_iter lp' = [EInt 5, EInt 42, EStr [97]]"
  using listpack_insert_correct [OF demo_valid(1) demo_entry(1), of 1] demo_entry by (auto simp: demo_valid(2))

text \<open>\<^verbatim>\<open>delete\<close> (by signed index) and \<^verbatim>\<open>delete_range\<close> on a listpack the validator accepts: each has its
  list effect on the iterated entries and keeps the listpack acceptable to the validator; \<^verbatim>\<open>delete\<close>
  refuses exactly when the index is out of range and \<^verbatim>\<open>delete_range\<close> returns how many it removed.\<close>

theorem listpack_delete_correct:
  assumes "validate (lp_buf lp)"
  shows "(case norm_index (length (lp_iter lp)) i of
            Some k \<Rightarrow> \<exists>lp'. lp_delete lp i = Some (True, lp') \<and> validate (lp_buf lp')
              \<and> lp_iter lp' = take k (lp_iter lp) @ drop (Suc k) (lp_iter lp)
          | None \<Rightarrow> lp_delete lp i = Some (False, lp))
    \<and> (\<exists>lp'. delete_range lp j c = Some (min c (length (lp_iter lp) - j), lp') \<and> validate (lp_buf lp')
         \<and> lp_iter lp' = take j (lp_iter lp) @ drop (j + c) (lp_iter lp))"
proof -
  obtain bs cnt where r: "lp_rep lp bs cnt" "lp_iter lp = map block_val bs" "length bs = length (lp_iter lp)"
    using assms(1) by (rule repE)
  have "\<exists>lp'. delete_range lp j c = Some (min c (length (lp_iter lp) - j), lp') \<and> validate (lp_buf lp')
         \<and> lp_iter lp' = take j (lp_iter lp) @ drop (j + c) (lp_iter lp)"
    using rep_delete_range [OF r(1), of j c] rep_valid by (fastforce simp: r(2) lp_vals_def take_map drop_map)
  then show ?thesis using rep_delete [OF r(1), of i] result_rep_room [OF _ TrueI]
    by (fastforce simp: r(2) lp_vals_def take_map drop_map split: option.splits)
qed

theorem listpack_delete_correct_witness: "\<exists>lp'. lp_delete demo_lp (- 1) = Some (True, lp') \<and> lp_iter lp' = [EInt 5]"
  using listpack_delete_correct [OF demo_valid(1), of "- 1" 0 0] by (auto simp: demo_valid(2) norm_index_def)

text \<open>\<^verbatim>\<open>replace\<close> on a listpack the validator accepts overwrites entry \<open>i\<close> with the canonical form of
  the value, whatever the two sizes are, and the result is accepted again; it refuses, leaving the
  listpack untouched, when \<open>i\<close> is out of range or when growing would pass the safety limit.\<close>

theorem listpack_replace_correct:
  assumes "validate (lp_buf lp)" and "entry_ok v"
  shows "(\<exists>lp'. lp_replace lp i v = Some (True, lp') \<and> i < length (lp_iter lp) \<and> validate (lp_buf lp')
            \<and> lp_iter lp' = (lp_iter lp)[i := canon_entry v])
    \<or> (lp_replace lp i v = Some (False, lp) \<and> (length (lp_iter lp) \<le> i \<or> \<not> safe_to_add lp (entry_size v)))"
proof -
  obtain bs cnt where r: "lp_rep lp bs cnt" "lp_iter lp = map block_val bs" "length bs = length (lp_iter lp)"
    using assms(1) by (rule repE)
  note rep = rep_replace [OF r(1) assms(2), of i]
  show ?thesis
  proof (cases "i < length bs \<and> (entry_size v \<le> length (bs ! i) \<or> safe_to_add lp (entry_size v - length (bs ! i)))")
    case True
    have "length (bs ! i) \<le> length (concat bs)" using True by (auto intro: length_nth_concat)
    then have "entry_size v < 2 ^ 32"
      using True rep_length [OF r(1)] r(1) by (auto simp: safe_to_add_def LP_MAX_SAFETY_SIZE_def lp_rep_def min_def split: if_splits)
    then have "block_val (block_of (canonicalize v)) = canon_entry v"
      using block_of_correct [OF canonicalize_ok [OF assms(2)]] by (simp add: canon_entry_def)
    then show ?thesis using rep True result_rep_room by (fastforce simp: r(2) lp_vals_def map_update)
  next
    case False
    then show ?thesis using rep result_rep_full
      by (auto simp: r(2) safe_to_add_def min_def not_less split: if_splits)
  qed
qed

theorem listpack_replace_correct_witness: "\<exists>lp'. lp_replace demo_lp 0 (EStr [52, 50]) = Some (True, lp') \<and> lp_iter lp' = [EInt 42, EStr [97]]"
  using listpack_replace_correct [OF demo_valid(1), of "EStr [52, 50]" 0] demo_entry by (auto simp: demo_valid(2))

text \<open>\<^verbatim>\<open>find_from\<close> on a listpack the validator accepts returns the first position at or after the start,
  stepping over \<open>skip\<close> entries between comparisons, whose entry equals the needle (as an integer when
  the needle is a decimal integer), and nothing when there is none.\<close>

theorem listpack_find_correct:
  assumes "validate (lp_buf lp)"
  shows "find_from lp start needle skip = Some j \<longleftrightarrow>
    (\<exists>m. j = start + m * Suc skip \<and> j < length (lp_iter lp) \<and> entry_hit (canonicalize (EStr needle)) (lp_iter lp ! j)
      \<and> (\<forall>m' < m. \<not> entry_hit (canonicalize (EStr needle)) (lp_iter lp ! (start + m' * Suc skip))))"
proof -
  obtain bs cnt where r: "lp_rep lp bs cnt" "lp_iter lp = map block_val bs" "length bs = length (lp_iter lp)"
    using assms(1) by (rule repE)
  show ?thesis unfolding rep_find_from [OF r(1)] first_hit_Some r(2) lp_vals_def ..
qed

theorem listpack_find_correct_witness: "find_from demo_lp 0 [97] 0 = Some 1"
proof -
  have "string2ll [97] = None" by (simp add: string2ll_def)
  then show ?thesis
    using listpack_find_correct [OF demo_valid(1), of 0 "[97]" 0 1]
    by (simp add: demo_valid(2) canonicalize_def entry_hit_def)
qed

text \<open>\<^verbatim>\<open>clear\<close> empties the entries of a listpack but leaves the element count of the header as it
  was: iteration yields nothing, while \<^verbatim>\<open>len\<close> still returns the old number of entries (unless the
  count was the \<^verbatim>\<open>unknown\<close> marker), so a cleared listpack that held entries is not one the
  validator accepts.\<close>

theorem listpack_clear_stale_count:
  assumes "validate (lp_buf lp)" and "header_count lp \<noteq> LP_HDR_NUMELE_UNKNOWN"
  shows "lp_iter (lp_clear lp) = [] \<and> lp_len (lp_clear lp) = length (lp_iter lp)
    \<and> (lp_iter lp \<noteq> [] \<longrightarrow> \<not> validate (lp_buf (lp_clear lp)))"
proof -
  obtain bs cnt where r: "lp_rep lp bs cnt" "lp_iter lp = map block_val bs" "length bs = length (lp_iter lp)"
    using assms(1) by (rule repE)
  have buf: "lp_buf (lp_clear lp) = le_bytes 4 7 @ le_bytes 2 (int cnt) @ [LP_EOF]" by (rule clear_buf [OF r(1)])
  have cnt: "cnt \<noteq> LP_HDR_NUMELE_UNKNOWN" "cnt = length bs" using assms(2) rep_header_count [OF r(1)] r(1) by (auto simp: lp_rep_def)
  have hc: "header_count (lp_clear lp) = cnt"
    using slice_get_midI [of 4 "le_bytes 4 7" 6 "le_bytes 2 (int cnt)" "[LP_EOF]"] r(1)
    by (simp add: header_count_def buf header_count_le lp_rep_def LP_HDR_NUMELE_UNKNOWN_def)
  have it: "lp_iter (lp_clear lp) = []"
    by (simp add: lp_iter_def, subst lp_iter_from.simps) (simp add: iter_step_def eof_offset_def buf LP_HDR_SIZE_def)
  have len: "lp_len (lp_clear lp) = length (lp_iter lp)" using hc cnt r(3) by (simp add: lp_len_def)
  have "\<not> validate (lp_buf (lp_clear lp))" if "lp_iter lp \<noteq> []"
    using that len it lp_rep_len rep_iter by (metis length_0_conv length_map lp_vals_def validate_rep)
  with it len show ?thesis by blast
qed

theorem listpack_clear_stale_count_witness: "lp_iter (lp_clear demo_lp) = [] \<and> lp_len (lp_clear demo_lp) = 2"
proof -
  have "header_count demo_lp = 2" by (rule rep_header_count [OF demo_rep])
  then show ?thesis using listpack_clear_stale_count [OF demo_valid(1)] by (simp add: demo_valid(2) LP_HDR_NUMELE_UNKNOWN_def)
qed

text \<open>\<^verbatim>\<open>from_entries\<close> always returns a listpack the validator accepts; it holds, in order, the
  canonical forms of a subsequence of the given entries (those for which there was room).\<close>

theorem listpack_from_entries:
  assumes "list_all entry_ok es"
  shows "\<exists>lp ks. from_entries es = Some lp \<and> validate (lp_buf lp) \<and> subseq ks es \<and> lp_iter lp = map canon_entry ks"
  using listpack.append_list_subseq [OF listpack.inv_mt assms] by (auto simp: from_entries_def from_entries_append_list listpack.vals_mt)

theorem listpack_from_entries_witness:
  "\<exists>lp ks. from_entries [EStr [97], EInt (- 7)] = Some lp \<and> subseq ks [EStr [97], EInt (- 7)] \<and> lp_iter lp = map canon_entry ks"
  using listpack_from_entries [of "[EStr [97], EInt (- 7)]"] by (auto simp: entry_ok_def fits_def)

end
