(* ===== verification/Quicklist_Proofs.thy ===== *)
theory Quicklist_Proofs
  imports Quicklist Listpack_Seq
begin

text \<open>
  The quicklist refines a list of byte strings. \<open>node_rep\<close> and \<open>ql_rep\<close> relate nodes and the list to the strings they
  hold (a packed node is a listpack of the canonical encodings of its strings, never empty and within the
  listpack's size limit); \<open>ql_holds\<close> forgets the node boundaries. Every operation then has its effect on that
  list, whatever the fill limit, the splits and the merges are.
\<close>

subsection \<open>Entries and the strings they stand for\<close>

definition vblock :: "bytes \<Rightarrow> bytes" where
  "vblock v = block_of (canonicalize (EStr v))"

definition entry_val :: "lp_entry \<Rightarrow> bytes" where
  "entry_val e = (case e of EStr s \<Rightarrow> s | EInt i \<Rightarrow> decimal i)"

definition is_val :: "lp_entry \<Rightarrow> bytes \<Rightarrow> bool" where
  "is_val e v \<longleftrightarrow> entry_ok e \<and> entry_val e = v"

lemma is_val_str [simp]: "is_val (EStr b) v \<longleftrightarrow> b = v"
  by (simp add: is_val_def entry_ok_def entry_val_def)

lemma is_val_canon: "is_val (canon_entry (EStr v)) v"
  by (auto simp: is_val_def canon_entry_def canonicalize_def payload_entry_def entry_ok_def entry_val_def string2ll_Some_iff
      split: option.split)

lemma string2ll_decimal: "fits 8 i \<Longrightarrow> string2ll (decimal i) = Some i"
  by (simp add: string2ll_Some_iff)

lemma is_val_eq_bytes: "is_val e v \<Longrightarrow> eq_bytes e w \<longleftrightarrow> v = w"
  using string2ll_Some_iff [of w] string2ll_decimal
  by (cases e) (force simp: is_val_def eq_bytes_def entry_val_def entry_ok_def split: option.split)+

lemma is_val_write: "itoa_spec itoa \<Longrightarrow> is_val e v \<Longrightarrow> entry_write_to itoa e [] = v"
  by (cases e) (auto simp: is_val_def entry_write_to_def entry_val_def entry_ok_def itoa_spec_def)

lemma is_val_canonicalize: "is_val e v \<Longrightarrow> canonicalize e = canonicalize (EStr v)"
  by (cases e) (auto simp: is_val_def canonicalize_def entry_val_def entry_ok_def string2ll_decimal)

lemma entry_ok_str [simp]: "entry_ok (EStr v)"
  by (simp add: entry_ok_def)

lemma length_vblock: "length (vblock v) = entry_size (EStr v)"
  by (simp add: vblock_def length_block_canon)

lemma entry_size_le: "entry_size (EStr v) \<le> length v + 14"
proof -
  have "payload_enclen (canonicalize (EStr v)) \<le> length v + 9"
    by (auto simp: canonicalize_def payload_enclen_def Let_def split: option.split)
  then show ?thesis using backlen_size_pos(2) [of "payload_enclen (canonicalize (EStr v))"] by (simp add: entry_size_def Let_def)
qed

lemma entry_size_pos: "0 < entry_size v"
  using backlen_size_pos(1) by (simp add: entry_size_def Let_def)

lemma vblock_val: "length (vblock v) < 2 ^ 32 \<Longrightarrow> is_val (block_val (vblock v)) v"
  using block_of_correct [OF canonicalize_ok, of "EStr v"] is_val_canon [of v]
  by (simp add: length_vblock [unfolded vblock_def] vblock_def canon_entry_def)

subsection \<open>Nodes\<close>

fun node_rep :: "ql_node \<Rightarrow> bytes list \<Rightarrow> bool" where
  "node_rep (Packed lp) vs \<longleftrightarrow> vs \<noteq> [] \<and> length (lp_buf lp) \<le> LP_MAX_SAFETY_SIZE \<and> (\<exists>cnt. lp_rep lp (map vblock vs) cnt)"
| "node_rep (Plain b) vs \<longleftrightarrow> vs = [b]"

lemma node_repE:
  assumes "node_rep (Packed lp) vs"
  obtains cnt where "lp_rep lp (map vblock vs) cnt" "vs \<noteq> []" "7 + length (concat (map vblock vs)) \<le> LP_MAX_SAFETY_SIZE"
  using assms rep_length by fastforce

lemma node_rep_ne: "node_rep n vs \<Longrightarrow> vs \<noteq> []"
  by (cases n) auto

lemma node_rep_count [simp]: "node_rep n vs \<Longrightarrow> node_count n = length vs"
  by (cases n) (auto dest: lp_rep_len)

lemma vals_of_rep:
  assumes "lp_rep lp (map vblock vs) cnt" shows "list_all2 is_val (lp_vals (map vblock vs)) vs"
proof -
  have "is_val (block_val (vblock v)) v" if v: "v \<in> set vs" for v
  proof (rule vblock_val)
    have "length (vblock v) \<le> length (concat (map vblock vs))" using v by (auto simp: in_set_conv_decomp)
    then show "length (vblock v) < 2 ^ 32" using assms by (simp add: lp_rep_def)
  qed
  then show ?thesis by (auto simp: lp_vals_def list_all2_conv_all_nth)
qed

lemma node_get_rep: "node_rep n vs \<Longrightarrow> rel_option is_val (node_get n i) (nth_opt vs i)"
proof (cases n)
  case (Packed lp)
  assume "node_rep n vs"
  then obtain cnt where rep: "lp_rep lp (map vblock vs) cnt" using Packed by auto
  show ?thesis
    using list_all2_nthD [OF vals_of_rep [OF rep], of i] list_all2_lengthD [OF vals_of_rep [OF rep]]
    by (simp add: Packed lp_rep_get [OF rep] norm_index_def nth_opt_def)
qed (auto simp: nth_opt_def)

lemma node_last_rep:
  "node_rep n vs \<Longrightarrow> rel_option is_val (case n of Packed lp \<Rightarrow> lp_last lp | Plain b \<Rightarrow> Some (EStr b)) (Some (last vs))"
proof (cases n)
  case (Packed lp)
  assume "node_rep n vs"
  then obtain cnt where rep: "lp_rep lp (map vblock vs) cnt" "vs \<noteq> []" using Packed by auto
  have "is_val (last (lp_vals (map vblock vs))) (last vs)"
    using list_all2_nthD [OF vals_of_rep [OF rep(1)], of "length vs - 1"] rep(2)
    by (simp add: last_conv_nth lp_vals_def)
  then show ?thesis using rep(2) by (simp add: Packed rep_last [OF rep(1)])
qed auto

text \<open>A listpack operation that adds strings: it is refused and changes nothing, or has the effect \<open>g\<close>.\<close>

definition grows_by :: "(listpack \<Rightarrow> (bool \<times> listpack) option) \<Rightarrow> (bytes list \<Rightarrow> bytes list) \<Rightarrow> bool" where
  "grows_by f g \<longleftrightarrow> (\<forall>lp vs. node_rep (Packed lp) vs \<longrightarrow>
     f lp = Some (False, lp) \<or> (\<exists>lp'. f lp = Some (True, lp') \<and> node_rep (Packed lp') (g vs)))"

lemma result_rep_node:
  assumes "result_rep r lp (map vblock vs') ok" and "vs' \<noteq> []" and "ok \<Longrightarrow> 7 + length (concat (map vblock vs')) \<le> LP_MAX_SAFETY_SIZE"
  shows "r = Some (False, lp) \<or> (\<exists>lp'. r = Some (True, lp') \<and> node_rep (Packed lp') vs')"
  using assms rep_length [of _ "map vblock vs'"] by (cases ok) (auto simp: result_rep_def)

lemma safe_to_add_iff: "safe_to_add lp k \<longleftrightarrow> length (lp_buf lp) + k \<le> LP_MAX_SAFETY_SIZE"
  by (auto simp: safe_to_add_def LP_MAX_SAFETY_SIZE_def min_def)

lemma length_concat_insert: "length (concat (map f (take k xs @ ys @ drop k xs))) = length (concat (map f xs)) + length (concat (map f ys))"
proof -
  have "length (concat (map f xs)) = length (concat (map f (take k xs))) + length (concat (map f (drop k xs)))"
    by (metis append_take_drop_id concat_append length_append map_append)
  then show ?thesis by simp
qed

lemma lp_insert_grows: "grows_by (\<lambda>lp. lp_insert lp k (EStr v)) (\<lambda>vs. take k vs @ [v] @ drop k vs)"
  unfolding grows_by_def
proof (intro allI impI)
  fix lp vs assume "node_rep (Packed lp) vs"
  then obtain cnt where rep: "lp_rep lp (map vblock vs) cnt" by (rule node_repE)
  show "lp_insert lp k (EStr v) = Some (False, lp) \<or> (\<exists>lp'. lp_insert lp k (EStr v) = Some (True, lp') \<and> node_rep (Packed lp') (take k vs @ [v] @ drop k vs))"
  proof (rule result_rep_node)
    show "result_rep (lp_insert lp k (EStr v)) lp (map vblock (take k vs @ [v] @ drop k vs)) (safe_to_add lp (entry_size (EStr v)))"
      using rep_insert [OF rep entry_ok_str, of k v] by (simp add: take_map drop_map vblock_def)
    show "7 + length (concat (map vblock (take k vs @ [v] @ drop k vs))) \<le> LP_MAX_SAFETY_SIZE" if "safe_to_add lp (entry_size (EStr v))"
      using that rep_length [OF rep] unfolding length_concat_insert by (simp add: safe_to_add_iff length_vblock)
  qed simp
qed

lemma grows_byD:
  "grows_by f g \<Longrightarrow> node_rep (Packed lp) vs \<Longrightarrow> f lp = Some (False, lp) \<or> (\<exists>lp'. f lp = Some (True, lp') \<and> node_rep (Packed lp') (g vs))"
  unfolding grows_by_def by (elim allE impE)

lemma lp_append_grows: "grows_by (\<lambda>lp. lp_append lp (EStr v)) (\<lambda>vs. vs @ [v])"
  unfolding grows_by_def
proof (intro allI impI)
  fix lp vs assume n: "node_rep (Packed lp) vs"
  then obtain cnt where "lp_rep lp (map vblock vs) cnt" by (rule node_repE)
  then have "lp_append lp (EStr v) = lp_insert lp (length vs) (EStr v)" by (simp add: lp_append_def lp_insert_def lp_rep_len)
  then show "lp_append lp (EStr v) = Some (False, lp) \<or> (\<exists>lp'. lp_append lp (EStr v) = Some (True, lp') \<and> node_rep (Packed lp') (vs @ [v]))"
    using grows_byD [OF lp_insert_grows n, of "length vs" v] by (simp del: node_rep.simps)
qed

lemma lp_prepend_grows: "grows_by (\<lambda>lp. lp_prepend lp (EStr v)) (\<lambda>vs. v # vs)"
  unfolding grows_by_def
proof (intro allI impI)
  fix lp vs assume n: "node_rep (Packed lp) vs"
  then obtain cnt where "lp_rep lp (map vblock vs) cnt" "vs \<noteq> []" by (rule node_repE)
  then have "lp_prepend lp (EStr v) = lp_insert lp 0 (EStr v)" by (simp add: lp_prepend_def lp_insert_def lp_rep_len rep_seek_fwd off_0)
  then show "lp_prepend lp (EStr v) = Some (False, lp) \<or> (\<exists>lp'. lp_prepend lp (EStr v) = Some (True, lp') \<and> node_rep (Packed lp') (v # vs))"
    using grows_byD [OF lp_insert_grows n, of 0 v] by (simp del: node_rep.simps)
qed

lemma lp_replace_rep:
  assumes "node_rep (Packed lp) vs" "k < length vs"
  shows "lp_replace lp k (EStr v) = Some (False, lp) \<or> (\<exists>lp'. lp_replace lp k (EStr v) = Some (True, lp') \<and> node_rep (Packed lp') (vs[k := v]))"
proof -
  from assms(1) obtain cnt where rep: "lp_rep lp (map vblock vs) cnt" "7 + length (concat (map vblock vs)) \<le> LP_MAX_SAFETY_SIZE"
    by (rule node_repE)
  let ?ok = "entry_size (EStr v) \<le> length (vblock (vs ! k)) \<or> safe_to_add lp (entry_size (EStr v) - length (vblock (vs ! k)))"
  show ?thesis
  proof (rule result_rep_node)
    show "result_rep (lp_replace lp k (EStr v)) lp (map vblock (vs[k := v])) ?ok"
      using rep_replace [OF rep(1) entry_ok_str, of k v] assms(2) by (simp add: map_update vblock_def)
    show "7 + length (concat (map vblock (vs[k := v]))) \<le> LP_MAX_SAFETY_SIZE" if ?ok
    proof -
      have "length (concat (map vblock (vs[k := v]))) + length (vblock (vs ! k)) = length (concat (map vblock vs)) + length (vblock v)"
        using assms(2) arg_cong [OF id_take_nth_drop [OF assms(2)], of "\<lambda>xs. length (concat (map vblock xs))"]
        by (simp add: upd_conv_take_nth_drop)
      then show ?thesis using that rep(2) rep_length [OF rep(1)] by (auto simp: safe_to_add_iff length_vblock)
    qed
    show "vs[k := v] \<noteq> []" using assms(2) by (metis length_list_update list.size(3) not_less0)
  qed
qed

lemma lp_empty_iff: "lp_rep lp (map vblock vs) cnt \<Longrightarrow> lp_is_empty lp \<longleftrightarrow> vs = []"
  using entry_size_pos by (cases vs) (auto simp: lp_is_empty_def rep_length LP_HDR_SIZE_def length_vblock)

text \<open>A shrunk listpack is a node again unless it is empty.\<close>

lemma node_rep_sub:
  assumes "lp_rep lp (map vblock vs) cnt" "7 + length (concat (map vblock vs)) \<le> LP_MAX_SAFETY_SIZE"
  shows "if lp_is_empty lp then vs = [] else node_rep (Packed lp) vs"
  using assms rep_length [OF assms(1)] by (auto simp: lp_empty_iff)

lemma length_concat_cut: "length (concat (map f (take i xs @ drop (i + c) xs))) \<le> length (concat (map f xs))"
proof -
  have "xs = take i xs @ take c (drop i xs) @ drop (i + c) xs" by (metis append_take_drop_id drop_drop add.commute)
  then have "length (concat (map f xs)) = length (concat (map f (take i xs @ take c (drop i xs) @ drop (i + c) xs)))" by simp
  then show ?thesis by simp
qed

lemma lp_delete_range_rep:
  assumes "node_rep (Packed lp) vs"
  shows "\<exists>lp'. Listpack.delete_range lp i c = Some (min c (length vs - i), lp')
    \<and> (if lp_is_empty lp' then take i vs @ drop (i + c) vs = [] else node_rep (Packed lp') (take i vs @ drop (i + c) vs))"
proof -
  from assms obtain cnt where rep: "lp_rep lp (map vblock vs) cnt" "7 + length (concat (map vblock vs)) \<le> LP_MAX_SAFETY_SIZE"
    by (rule node_repE)
  obtain lp' cnt' where l: "Listpack.delete_range lp i c = Some (min c (length vs - i), lp')"
    "lp_rep lp' (map vblock (take i vs @ drop (i + c) vs)) cnt'"
    using rep_delete_range [OF rep(1), of i c] by (auto simp: take_map drop_map)
  have "7 + length (concat (map vblock (take i vs @ drop (i + c) vs))) \<le> LP_MAX_SAFETY_SIZE"
    using length_concat_cut [of vblock i vs c] rep(2) by linarith
  from node_rep_sub [OF l(2) this] l(1) show ?thesis by blast
qed

lemma lp_delete_rep:
  assumes "node_rep (Packed lp) vs" "norm_index (length vs) j = Some i"
  shows "\<exists>lp'. lp_delete lp j = Some (True, lp')
    \<and> (if lp_is_empty lp' then take i vs @ drop (Suc i) vs = [] else node_rep (Packed lp') (take i vs @ drop (Suc i) vs))"
proof -
  from assms(1) obtain cnt where rep: "lp_rep lp (map vblock vs) cnt" "7 + length (concat (map vblock vs)) \<le> LP_MAX_SAFETY_SIZE"
    by (rule node_repE)
  obtain lp' cnt' where l: "lp_delete lp j = Some (True, lp')" "lp_rep lp' (map vblock (take i vs @ drop (Suc i) vs)) cnt'"
    using rep_delete [OF rep(1), of j] assms(2) by (auto simp: take_map drop_map result_rep_def)
  have "7 + length (concat (map vblock (take i vs @ drop (Suc i) vs))) \<le> LP_MAX_SAFETY_SIZE"
    using length_concat_cut [of vblock i vs 1] rep(2) by simp
  from node_rep_sub [OF l(2) this] l(1) show ?thesis by blast
qed

lemma from_entries_loop_rep:
  assumes "lp_rep lp (map vblock us) cnt" "list_all2 is_val es vs" "7 + length (concat (map vblock (us @ vs))) \<le> LP_MAX_SAFETY_SIZE"
  shows "\<exists>lp' cnt'. from_entries_loop lp es = Some lp' \<and> lp_rep lp' (map vblock (us @ vs)) cnt'"
  using assms
proof (induction es arbitrary: lp us vs cnt)
  case (Cons e es)
  from Cons.prems(2) obtain v vs' where vs: "vs = v # vs'" "is_val e v" "list_all2 is_val es vs'" by (auto simp: list_all2_Cons1)
  have c: "canonicalize e = canonicalize (EStr v)" "entry_ok e"
    using is_val_canonicalize [OF vs(2)] vs(2) by (simp_all add: is_val_def)
  then have sz: "entry_size e = entry_size (EStr v)" by (simp add: entry_size_def)
  have "safe_to_add lp (entry_size e)"
    using Cons.prems(3) rep_length [OF Cons.prems(1)] by (simp add: safe_to_add_iff sz vs length_vblock)
  then obtain lp1 cnt1 where l: "lp_append lp e = Some (True, lp1)" "lp_rep lp1 (map vblock (us @ [v])) cnt1"
    using rep_append [OF Cons.prems(1) c(2)] by (auto simp: result_rep_def c(1) simp flip: vblock_def)
  show ?case using Cons.IH [OF l(2) vs(3)] Cons.prems(3) l(1) by (simp add: vs)
qed auto

lemma new_node_rep: "\<exists>n. new_node q v = Some n \<and> node_rep n [v]"
proof (cases "is_large_element (length v) (ql_fill q)")
  case False
  then have "length v \<le> 65536"
    by (auto simp: is_large_element_def SIZE_SAFETY_LIMIT_def node_limit_def OPTIMIZATION_LEVEL_def nth_opt_def Let_def nth_Cons'
        split: if_splits)
  then have "entry_size (EStr v) \<le> 65550" using entry_size_le [of v] by linarith
  moreover have "length (lp_buf lp_new) = 7" by (simp add: lp_new_def)
  ultimately have "safe_to_add lp_new (entry_size (EStr v))" by (simp add: safe_to_add_iff LP_MAX_SAFETY_SIZE_def)
  then obtain lp cnt where l: "lp_append lp_new (EStr v) = Some (True, lp)" "lp_rep lp [vblock v] cnt"
    using rep_append [OF lp_rep_new entry_ok_str, of v] by (auto simp: result_rep_def simp flip: vblock_def)
  moreover have "length (lp_buf lp) \<le> LP_MAX_SAFETY_SIZE"
    using rep_length [OF l(2)] \<open>entry_size (EStr v) \<le> 65550\<close> by (simp add: length_vblock LP_MAX_SAFETY_SIZE_def)
  ultimately show ?thesis using False by (auto simp: new_node_def)
qed (simp add: new_node_def)

subsection \<open>The list of nodes\<close>

definition ql_rep :: "quicklist \<Rightarrow> bytes list list \<Rightarrow> bool" where
  "ql_rep q vss \<longleftrightarrow> list_all2 node_rep (ql_nodes q) vss \<and> ql_count q = length (concat vss)"

definition ql_holds :: "quicklist \<Rightarrow> bytes list \<Rightarrow> bool" where
  "ql_holds q vs \<longleftrightarrow> (\<exists>vss. ql_rep q vss \<and> concat vss = vs)"

lemma ql_holdsI: "list_all2 node_rep (ql_nodes q) vss \<Longrightarrow> concat vss = vs \<Longrightarrow> ql_count q = length vs \<Longrightarrow> ql_holds q vs"
  by (auto simp: ql_holds_def ql_rep_def)

lemma ql_holdsE:
  assumes "ql_holds q vs" obtains vss where "list_all2 node_rep (ql_nodes q) vss" "concat vss = vs" "ql_count q = length vs"
  using assms by (auto simp: ql_holds_def ql_rep_def)

lemma ql_holds_count: "ql_holds q vs \<Longrightarrow> ql_count q = length vs"
  by (auto elim: ql_holdsE)

lemma reps_ne: "list_all2 node_rep ns vss \<Longrightarrow> concat vss = [] \<longleftrightarrow> ns = []"
  by (cases ns; cases vss) (auto dest: node_rep_ne)

lemma concat_split: "ni < length vss \<Longrightarrow> concat vss = concat (take ni vss) @ vss ! ni @ concat (drop (Suc ni) vss)"
  by (metis concat.simps(2) concat_append id_take_nth_drop)

lemma concat_update: "ni < length vss \<Longrightarrow> concat (vss[ni := ws]) = concat (take ni vss) @ ws @ concat (drop (Suc ni) vss)"
  by (simp add: upd_conv_take_nth_drop)

text \<open>\<open>at_pos vss i ni p\<close>: the element \<open>i\<close> of the whole list is the element \<open>p\<close> of node \<open>ni\<close>.\<close>

definition at_pos :: "'a list list \<Rightarrow> nat \<Rightarrow> nat \<Rightarrow> nat \<Rightarrow> bool" where
  "at_pos vss i ni p \<longleftrightarrow> ni < length vss \<and> p < length (vss ! ni) \<and> i = length (concat (take ni vss)) + p"

lemma at_pos_take_drop:
  assumes "at_pos vss i ni p" and "k \<le> length (vss ! ni) - p"
  shows "take i (concat vss) = concat (take ni vss) @ take p (vss ! ni)"
    and "drop (i + k) (concat vss) = drop (p + k) (vss ! ni) @ concat (drop (Suc ni) vss)"
    and "concat vss ! i = vss ! ni ! p" and "i < length (concat vss)"
proof -
  have c: "concat vss = concat (take ni vss) @ vss ! ni @ concat (drop (Suc ni) vss)" using assms(1) by (simp add: at_pos_def concat_split)
  show "take i (concat vss) = concat (take ni vss) @ take p (vss ! ni)"
    and "drop (i + k) (concat vss) = drop (p + k) (vss ! ni) @ concat (drop (Suc ni) vss)"
    and "concat vss ! i = vss ! ni ! p" and "i < length (concat vss)"
    using assms unfolding c at_pos_def by (auto simp: nth_append)
qed

lemma locate_fwd_rep:
  assumes "list_all2 node_rep ns vss"
  shows "acc \<le> i \<Longrightarrow> i < acc + length (concat vss) \<Longrightarrow> \<exists>ni p. locate_fwd ns i m acc = Some (m + ni, p) \<and> at_pos vss (i - acc) ni p"
  using assms
proof (induction arbitrary: m acc rule: list_all2_induct)
  case (Cons n ns vs vss)
  show ?case
  proof (cases "i < acc + length vs")
    case True
    then have "at_pos (vs # vss) (i - acc) 0 (i - acc)" using Cons.prems by (simp add: at_pos_def)
    moreover have "locate_fwd (n # ns) i m acc = Some (m + 0, i - acc)" using True Cons.hyps by (simp add: Let_def)
    ultimately show ?thesis by blast
  next
    case False
    with Cons.IH [of "acc + length vs" "Suc m"] Cons.prems obtain ni p where
      l: "locate_fwd ns i (Suc m) (acc + length vs) = Some (Suc m + ni, p)" "at_pos vss (i - (acc + length vs)) ni p" by auto
    have "at_pos (vs # vss) (i - acc) (Suc ni) p" using l(2) False by (auto simp: at_pos_def)
    moreover have "locate_fwd (n # ns) i m acc = Some (m + Suc ni, p)" using l(1) False Cons.hyps by (simp add: Let_def)
    ultimately show ?thesis by blast
  qed
qed simp

lemma locate_back_rep:
  assumes "list_all2 node_rep ns vss"
  shows "i < length (concat vss) \<Longrightarrow> \<exists>ni p. locate_back (rev ns) i (length (concat vss)) = Some (ni, p) \<and> at_pos vss i ni p"
  using assms
proof (induction ns arbitrary: vss rule: rev_induct)
  case (snoc n ns)
  from snoc.prems(2) obtain us vs where v: "vss = us @ [vs]" "list_all2 node_rep ns us" "node_rep n vs"
    by (auto simp: list_all2_append1 list_all2_Cons1)
  show ?case
  proof (cases "length (concat us) \<le> i")
    case True
    then have "at_pos vss i (length us) (i - length (concat us))" using snoc.prems(1) by (simp add: at_pos_def v)
    moreover have "length ns = length us" using v(2) by (rule list_all2_lengthD)
    ultimately show ?thesis using True v by (auto simp: Let_def)
  next
    case False
    with snoc.IH [OF _ v(2)] obtain ni p where
      l: "locate_back (rev ns) i (length (concat us)) = Some (ni, p)" "at_pos us i ni p" by auto
    have "at_pos vss i ni p" using l(2) by (auto simp: at_pos_def v nth_append)
    then show ?thesis using l(1) False v by (auto simp: Let_def)
  qed
qed simp

lemma locate_rep:
  assumes "list_all2 node_rep (ql_nodes q) vss" "ql_count q = length (concat vss)" "i < ql_count q"
  obtains ni p n where "locate q i = Some (ni, p)" "at_pos vss i ni p" "nth_opt (ql_nodes q) ni = Some n" "node_rep n (vss ! ni)"
    "ni < length (ql_nodes q)" "ql_nodes q ! ni = n"
proof -
  from locate_fwd_rep [OF assms(1), of 0 i 0] locate_back_rep [OF assms(1), of i] assms(2,3)
  obtain ni p where l: "locate q i = Some (ni, p)" "at_pos vss i ni p"
    by (cases "i \<le> ql_count q div 2") (auto simp: locate_def)
  moreover have "ni < length (ql_nodes q)" using l(2) list_all2_lengthD [OF assms(1)] by (simp add: at_pos_def)
  ultimately show ?thesis using that list_all2_nthD [OF assms(1), of ni] by (auto simp: nth_opt_def)
qed

lemma normalize_rep: "ql_holds q vs \<Longrightarrow> normalize q i = norm_index (length vs) i"
  by (auto simp: normalize_def norm_index_def ql_holds_count Let_def)

lemma ql_index_rep: "ql_holds q vs \<Longrightarrow> rel_option is_val (ql_index q i) (seq_get vs i)"
proof (elim ql_holdsE)
  fix vss assume r: "list_all2 node_rep (ql_nodes q) vss" "concat vss = vs" "ql_count q = length vs"
  then have n: "normalize q i = norm_index (length vs) i" by (intro normalize_rep ql_holdsI)
  show ?thesis
  proof (cases "norm_index (length vs) i")
    case (Some k)
    then have "k < ql_count q" using norm_index_less r(3) by simp
    from locate_rep [OF r(1) _ this] r obtain ni p nd where
      l: "locate q k = Some (ni, p)" "at_pos vss k ni p" "nth_opt (ql_nodes q) ni = Some nd" "node_rep nd (vss ! ni)" by metis
    have "vs ! k = vss ! ni ! p" using at_pos_take_drop(3) [OF l(2), of 0] r(2) by simp
    moreover have "p < length (vss ! ni)" using l(2) by (simp add: at_pos_def)
    ultimately show ?thesis using node_get_rep [OF l(4), of p] l n Some 
      by (simp add: ql_index_def seq_get_def nth_opt_def del: nth_opt_Some)
  qed (simp add: ql_index_def n seq_get_def)
qed

subsection \<open>Pushing and popping\<close>

text \<open>The guard chain: refused, or the node \<open>ni\<close> now holds \<open>g\<close> of what it held.\<close>

lemma insert_in_rep:
  assumes "list_all2 node_rep (ql_nodes q) vss" and "grows_by f g"
  shows "insert_in q ni v f = Some (False, q) \<or>
    (\<exists>ns. insert_in q ni v f = Some (True, q\<lparr>ql_nodes := ns\<rparr>) \<and> ni < length vss \<and> list_all2 node_rep ns (vss[ni := g (vss ! ni)]))"
proof (cases "ni < length (ql_nodes q) \<and> (\<exists>lp. ql_nodes q ! ni = Packed lp)")
  case True
  then obtain lp where lp: "ni < length (ql_nodes q)" "ql_nodes q ! ni = Packed lp" by blast
  then have "node_rep (Packed lp) (vss ! ni)" and len: "ni < length vss"
    using assms(1) list_all2_nthD list_all2_lengthD by fastforce+
  from grows_byD [OF assms(2) this(1)] show ?thesis
  proof
    assume "f lp = Some (False, lp)"
    moreover have "(ql_nodes q)[ni := Packed lp] = ql_nodes q" using lp by (metis list_update_id)
    ultimately show ?thesis using lp by (auto simp: insert_in_def nth_opt_def)
  next
    assume "\<exists>lp'. f lp = Some (True, lp') \<and> node_rep (Packed lp') (g (vss ! ni))"
    then show ?thesis using lp len list_all2_update_cong [OF assms(1)] by (auto simp: insert_in_def nth_opt_def simp del: node_rep.simps)
  qed
qed (auto simp: insert_in_def nth_opt_def split: ql_node.split)

lemma insert_in_count [simp]: "insert_in (q\<lparr>ql_count := c\<rparr>) ni v f = map_option (\<lambda>(ok, q). (ok, q\<lparr>ql_count := c\<rparr>)) (insert_in q ni v f)"
  by (auto simp: insert_in_def Option.bind_eq_None_conv split: option.split ql_node.split Option.bind_split)

lemma push_head_rep:
  assumes "ql_holds q vs" shows "\<exists>b q'. push_head q v = Some (b, q') \<and> ql_holds q' (v # vs) \<and> ql_fill q' = ql_fill q"
proof -
  from assms obtain vss where r: "list_all2 node_rep (ql_nodes q) vss" "concat vss = vs" "ql_count q = length vs" by (rule ql_holdsE)
  from insert_in_rep [OF r(1) lp_prepend_grows, of 0 v v] show ?thesis
  proof
    assume i: "insert_in q 0 v (\<lambda>lp. lp_prepend lp (EStr v)) = Some (False, q)"
    obtain n where "new_node (q\<lparr>ql_count := ql_count q + 1\<rparr>) v = Some n" "node_rep n [v]" using new_node_rep by blast
    then show ?thesis using i r by (auto simp: push_head_def intro!: ql_holdsI [of _ "[v] # vss"])
  next
    assume "\<exists>ns. insert_in q 0 v (\<lambda>lp. lp_prepend lp (EStr v)) = Some (True, q\<lparr>ql_nodes := ns\<rparr>) \<and> 0 < length vss
      \<and> list_all2 node_rep ns (vss[0 := v # (vss ! 0)])"
    then obtain ns ws vss' where "insert_in q 0 v (\<lambda>lp. lp_prepend lp (EStr v)) = Some (True, q\<lparr>ql_nodes := ns\<rparr>)" "vss = ws # vss'"
      "list_all2 node_rep ns ((v # ws) # vss')" by (cases vss) auto
    then show ?thesis using r by (auto simp: push_head_def intro!: ql_holdsI [of _ "(v # ws) # vss'"])
  qed
qed

lemma push_tail_rep:
  assumes "ql_holds q vs" shows "\<exists>b q'. push_tail q v = Some (b, q') \<and> ql_holds q' (vs @ [v]) \<and> ql_fill q' = ql_fill q"
proof -
  from assms obtain vss where r: "list_all2 node_rep (ql_nodes q) vss" "concat vss = vs" "ql_count q = length vs" by (rule ql_holdsE)
  have len: "length (ql_nodes q) = length vss" using r(1) by (rule list_all2_lengthD)
  from insert_in_rep [OF r(1) lp_append_grows, of "length vss - 1" v v] show ?thesis
  proof
    assume i: "insert_in q (length vss - 1) v (\<lambda>lp. lp_append lp (EStr v)) = Some (False, q)"
    obtain n where "new_node (q\<lparr>ql_count := ql_count q + 1\<rparr>) v = Some n" "node_rep n [v]" using new_node_rep by blast
    then show ?thesis using i r by (auto simp: push_tail_def len intro!: ql_holdsI [of _ "vss @ [[v]]"] list_all2_appendI)
  next
    let ?vss = "vss[length vss - 1 := (vss ! (length vss - 1)) @ [v]]"
    assume "\<exists>ns. insert_in q (length vss - 1) v (\<lambda>lp. lp_append lp (EStr v)) = Some (True, q\<lparr>ql_nodes := ns\<rparr>) \<and> length vss - 1 < length vss
      \<and> list_all2 node_rep ns ?vss"
    then obtain ns where n: "insert_in q (length vss - 1) v (\<lambda>lp. lp_append lp (EStr v)) = Some (True, q\<lparr>ql_nodes := ns\<rparr>)"
      "length vss - 1 < length vss" "list_all2 node_rep ns ?vss" by blast
    have "concat ?vss = vs @ [v]" using concat_update [OF n(2)] concat_split [OF n(2)] r(2) by simp
    then show ?thesis using n(1,3) r by (auto simp: push_tail_def len intro!: ql_holdsI [of _ ?vss])
  qed
qed

lemma ql_holds_new: "ql_holds (ql_new fill) []"
  by (rule ql_holdsI [of _ "[]"]) (simp_all add: ql_new_def)

lemma push_all_rep: "ql_holds q us \<Longrightarrow> \<exists>q'. push_all q vs = Some q' \<and> ql_holds q' (us @ vs)"
proof (induction vs arbitrary: q us)
  case (Cons v vs)
  from push_tail_rep [OF Cons.prems, of v] obtain b q1 where "push_tail q v = Some (b, q1)" "ql_holds q1 (us @ [v])" by blast
  with Cons.IH [of q1 "us @ [v]"] show ?case by auto
qed simp

lemma node_update_holds:
  assumes r: "list_all2 node_rep (ql_nodes q) vss" and ni: "ni < length vss"
    and ws: "if b then ws = [] else node_rep n ws" and c: "ql_count q' = length (concat (take ni vss) @ ws @ concat (drop (Suc ni) vss))"
    and q': "ql_nodes q' = (if b then take ni (ql_nodes q) @ drop (Suc ni) (ql_nodes q) else (ql_nodes q)[ni := n])"
  shows "ql_holds q' (concat (take ni vss) @ ws @ concat (drop (Suc ni) vss))"
proof (cases b)
  case True
  have "list_all2 node_rep (ql_nodes q') (take ni vss @ drop (Suc ni) vss)"
    using r True q' by (auto intro!: list_all2_appendI list_all2_takeI list_all2_dropI)
  then show ?thesis by (rule ql_holdsI) (use True ws c in auto)
next
  case False
  have "list_all2 node_rep (ql_nodes q') (vss[ni := ws])" using r False ws q' by (auto intro: list_all2_update_cong)
  then show ?thesis by (rule ql_holdsI) (use c ni in \<open>auto simp: concat_update\<close>)
qed

lemma drop_end_rep:
  assumes r: "list_all2 node_rep (ql_nodes q) vss" "ql_count q = length (concat vss)" and ni: "ni < length vss"
    and j: "norm_index (length (vss ! ni)) j = Some k"
  shows "\<exists>q'. drop_end q ni j = Some (True, q') \<and> ql_holds q' (concat (take ni vss) @ (take k (vss ! ni) @ drop (Suc k) (vss ! ni)) @ concat (drop (Suc ni) vss))"
proof -
  have k: "k < length (vss ! ni)" using j by (rule norm_index_less)
  have c: "ql_count q - 1 = length (concat (take ni vss) @ (take k (vss ! ni) @ drop (Suc k) (vss ! ni)) @ concat (drop (Suc ni) vss))" "1 \<le> ql_count q"
    using r(2) k arg_cong [OF concat_split [OF ni], of length] by auto
  have n: "ni < length (ql_nodes q)" "node_rep (ql_nodes q ! ni) (vss ! ni)"
    using r(1) ni list_all2_nthD list_all2_lengthD by fastforce+
  show ?thesis
  proof (cases "ql_nodes q ! ni")
    case (Packed lp)
    from lp_delete_rep [OF _ j] n(2) Packed obtain lp' where l: "lp_delete lp j = Some (True, lp')"
      "if lp_is_empty lp' then take k (vss ! ni) @ drop (Suc k) (vss ! ni) = [] else node_rep (Packed lp') (take k (vss ! ni) @ drop (Suc k) (vss ! ni))"
      by metis
    let ?q = "(if lp_is_empty lp' then node_remove q ni else q\<lparr>ql_nodes := (ql_nodes q)[ni := Packed lp']\<rparr>)\<lparr>ql_count := ql_count q - 1\<rparr>"
    have "drop_end q ni j = Some (True, ?q)"
      using l(1) n(1) Packed c(2) by (simp add: drop_end_def nth_opt_def ql_uncount_def checked_sub_def node_remove_def)
    moreover have "ql_holds ?q (concat (take ni vss) @ (take k (vss ! ni) @ drop (Suc k) (vss ! ni)) @ concat (drop (Suc ni) vss))"
      by (rule node_update_holds [OF r(1) ni l(2)]) (use c(1) in \<open>simp_all add: node_remove_def\<close>)
    ultimately show ?thesis by blast
  next
    case (Plain b)
    let ?q = "(node_remove q ni)\<lparr>ql_count := ql_count q - 1\<rparr>"
    have "drop_end q ni j = Some (True, ?q)"
      using n(1) Plain c(2) by (simp add: drop_end_def nth_opt_def ql_uncount_def checked_sub_def node_remove_def)
    moreover have "vss ! ni = [b]" "k = 0" using n(2) Plain k by auto
    then have "take k (vss ! ni) @ drop (Suc k) (vss ! ni) = []" by simp
    then have "ql_holds ?q (concat (take ni vss) @ (take k (vss ! ni) @ drop (Suc k) (vss ! ni)) @ concat (drop (Suc ni) vss))"
      by (intro node_update_holds [OF r(1) ni, where b = True]) (use c(1) in \<open>simp_all add: node_remove_def\<close>)
    ultimately show ?thesis by blast
  qed
qed

lemma ends_empty:
  assumes "ql_holds q []" shows "ql_head q = None" "ql_tail q = None" "drop_head q = Some (False, q)" "drop_tail q = Some (False, q)"
proof -
  from assms have "ql_nodes q = []" by (rule ql_holdsE) (simp only: reps_ne [THEN iffD1])
  then show "ql_head q = None" "ql_tail q = None" "drop_head q = Some (False, q)" "drop_tail q = Some (False, q)"
    by (simp_all add: ql_head_def ql_tail_def drop_head_def drop_tail_def drop_end_def nth_opt_def)
qed

lemma drop_head_rep:
  assumes "ql_holds q (v # vs)" shows "(\<exists>e. ql_head q = Some e \<and> is_val e v) \<and> (\<exists>q'. drop_head q = Some (True, q') \<and> ql_holds q' vs)"
proof -
  from assms obtain vss where r: "list_all2 node_rep (ql_nodes q) vss" "concat vss = v # vs" "ql_count q = length (v # vs)" by (rule ql_holdsE)
  then obtain n ns ws vss' where n: "ql_nodes q = n # ns" "vss = ws # vss'" "node_rep n ws" by (cases vss; cases "ql_nodes q") auto
  then obtain ws' where ws: "ws = v # ws'" "vs = ws' @ concat vss'" using r(2) node_rep_ne [OF n(3)] by (cases ws) auto
  have "\<exists>e. ql_head q = Some e \<and> is_val e v" using node_get_rep [OF n(3), of 0] by (auto simp: ql_head_def n ws nth_opt_def option_rel_Some2)
  moreover have "\<exists>q'. drop_head q = Some (True, q') \<and> ql_holds q' vs"
    using drop_end_rep [OF r(1), of 0 0 0] r by (auto simp: drop_head_def n ws norm_index_def)
  ultimately show ?thesis ..
qed

lemma drop_tail_rep:
  assumes "ql_holds q (vs @ [v])" shows "(\<exists>e. ql_tail q = Some e \<and> is_val e v) \<and> (\<exists>q'. drop_tail q = Some (True, q') \<and> ql_holds q' vs)"
proof -
  from assms obtain vss where r: "list_all2 node_rep (ql_nodes q) vss" "concat vss = vs @ [v]" "ql_count q = length (vs @ [v])" by (rule ql_holdsE)
  then obtain vss' ws where v: "vss = vss' @ [ws]" by (cases vss rule: rev_cases) auto
  then obtain ns n where n: "ql_nodes q = ns @ [n]" "length ns = length vss'" "node_rep n ws"
    using r(1) by (auto simp: list_all2_append2 list_all2_Cons2 dest: list_all2_lengthD)
  then obtain ws' where ws: "ws = ws' @ [v]" "vs = concat vss' @ ws'" using r(2) v node_rep_ne [OF n(3)] by (cases ws rule: rev_cases) auto
  have "\<exists>e. ql_tail q = Some e \<and> is_val e v" using node_last_rep [OF n(3)] by (auto simp: ql_tail_def n(1,3) ws nth_opt_def option_rel_Some2)
  moreover have "\<exists>q'. drop_tail q = Some (True, q') \<and> ql_holds q' vs"
    using drop_end_rep [OF r(1), of "length vss'" "- 1" "length ws'"] r n by (auto simp: drop_tail_def v ws norm_index_def nat_add_distrib)
  ultimately show ?thesis ..
qed

subsection \<open>Merging\<close>

lemma exceeds_limit_size: "\<not> exceeds_limit fill sz c \<Longrightarrow> sz \<le> 65536"
  by (auto simp: exceeds_limit_def node_limit_def OPTIMIZATION_LEVEL_def SIZE_SAFETY_LIMIT_def nth_opt_def Let_def nth_Cons'
      split: if_splits prod.splits)

lemma append_all_rep:
  assumes "node_rep (Packed a) us" "node_rep (Packed b) vs" "allows_merge (Packed a) (Packed b) fill"
  shows "\<exists>c. append_all a b = Some (True, c) \<and> node_rep (Packed c) (us @ vs)"
proof -
  from assms(1) obtain ca where ra: "lp_rep a (map vblock us) ca" "us \<noteq> []" by (rule node_repE)
  from assms(2) obtain cb where rb: "lp_rep b (map vblock vs) cb" by (rule node_repE)
  have "length (lp_buf a) + length (lp_buf b) - 11 \<le> 65536" using assms(3) by (auto simp: allows_merge_def dest: exceeds_limit_size)
  then have sz: "length (lp_buf a) + length (concat (map vblock vs)) \<le> LP_MAX_SAFETY_SIZE"
    using rep_length [OF rb] by (simp add: LP_MAX_SAFETY_SIZE_def)
  then obtain c cc where c: "append_all a b = Some (True, c)" "lp_rep c (map vblock (us @ vs)) cc"
    using rep_append_all [OF ra(1) rb] by (auto simp: result_rep_def safe_to_add_iff)
  moreover have "length (lp_buf c) \<le> LP_MAX_SAFETY_SIZE" using sz rep_length [OF c(2)] rep_length [OF ra(1)] by simp
  ultimately show ?thesis using ra(2) by auto
qed

lemma try_merge_rep:
  assumes "ql_holds q vs" shows "\<exists>b q'. try_merge q i = Some (b, q') \<and> ql_holds q' vs"
proof (cases "Suc i < length (ql_nodes q) \<and> allows_merge (ql_nodes q ! i) (ql_nodes q ! Suc i) (ql_fill q)")
  case False
  then have "try_merge q i = Some (False, q)" by (auto simp: try_merge_def nth_opt_def)
  then show ?thesis using assms by blast
next
  case True
  from assms obtain vss where r: "list_all2 node_rep (ql_nodes q) vss" "concat vss = vs" "ql_count q = length vs" by (rule ql_holdsE)
  have len: "Suc i < length vss" using r(1) True list_all2_lengthD by fastforce
  obtain a b where ab: "ql_nodes q ! i = Packed a" "ql_nodes q ! Suc i = Packed b"
    using True by (cases "ql_nodes q ! i"; cases "ql_nodes q ! Suc i") (auto simp: allows_merge_def)
  have "node_rep (Packed a) (vss ! i)" "node_rep (Packed b) (vss ! Suc i)"
    using ab True list_all2_nthD [OF r(1), of i] list_all2_nthD [OF r(1), of "Suc i"] by auto
  then obtain c where c: "append_all a b = Some (True, c)" "node_rep (Packed c) (vss ! i @ vss ! Suc i)"
    using append_all_rep [of a "vss ! i" b "vss ! Suc i"] True ab by metis
  let ?q = "(node_remove q (i + 1))\<lparr>ql_nodes := (take (i + 1) (ql_nodes q) @ drop (Suc (i + 1)) (ql_nodes q))[i := Packed c]\<rparr>"
  have "try_merge q i = Some (True, ?q)" using True ab c(1) by (simp add: try_merge_def nth_opt_def node_remove_def)
  moreover have "ql_holds ?q vs"
  proof (rule ql_holdsI)
    have "list_all2 node_rep (take (i + 1) (ql_nodes q) @ drop (Suc (i + 1)) (ql_nodes q)) (take (i + 1) vss @ drop (Suc (i + 1)) vss)"
      using r(1) by (intro list_all2_appendI list_all2_takeI list_all2_dropI)
    then show "list_all2 node_rep (ql_nodes ?q) ((take (i + 1) vss @ drop (Suc (i + 1)) vss)[i := vss ! i @ vss ! Suc i])"
      using c(2) by (auto intro: list_all2_update_cong simp del: node_rep.simps)
    have "vss = take i vss @ vss ! i # vss ! Suc i # drop (Suc (Suc i)) vss" using len by (metis Cons_nth_drop_Suc Suc_lessD id_take_nth_drop)
    then have "vs = concat (take i vss @ vss ! i # vss ! Suc i # drop (Suc (Suc i)) vss)" using r(2) by simp
    then show "concat ((take (i + 1) vss @ drop (Suc (i + 1)) vss)[i := vss ! i @ vss ! Suc i]) = vs"
      using len by (simp add: take_Suc_conv_app_nth list_update_append)
  qed (use r in \<open>simp add: node_remove_def\<close>)
  ultimately show ?thesis by blast
qed

lemma merge_around_rep: "ql_holds q vs \<Longrightarrow> \<exists>q'. merge_around q ni = Some q' \<and> ql_holds q' vs"
proof -
  assume h: "ql_holds q vs"
  from try_merge_rep [OF h, of "ni - 1"] obtain b q1 where q1: "try_merge q (ni - 1) = Some (b, q1)" "ql_holds q1 vs" by blast
  show ?thesis using try_merge_rep [OF q1(2), of "if b then ni - 1 else ni"] try_merge_rep [OF h, of ni] q1(1)
    by (auto simp: merge_around_def)
qed

subsection \<open>Insertion\<close>

lemma node_insert_holds:
  assumes "list_all2 node_rep (ql_nodes q) vss" "node_rep n ws" "ni \<le> length vss" "ql_count q' = length (concat (take ni vss) @ ws @ concat (drop ni vss))"
    "ql_nodes q' = take ni (ql_nodes q) @ [n] @ drop ni (ql_nodes q)"
  shows "ql_holds q' (concat (take ni vss) @ ws @ concat (drop ni vss))"
  by (rule ql_holdsI [of _ "take ni vss @ [ws] @ drop ni vss"])
    (use assms in \<open>auto intro!: list_all2_appendI list_all2_takeI list_all2_dropI\<close>)

lemma split_halves:
  assumes "node_rep (Packed lp) ws" "0 < p" "p < length ws"
  obtains lt st lf where "from_entries (drop p (lp_iter lp)) = Some lt" "node_rep (Packed lt) (drop p ws)"
    "seek lp (int p) = Some st" "delete_byte_range lp st (eof_offset lp) (length ws - p) = Some lf" "node_rep (Packed lf) (take p ws)"
    "lp_len lp = length ws"
proof -
  from assms(1) obtain cnt where rep: "lp_rep lp (map vblock ws) cnt" "7 + length (concat (map vblock ws)) \<le> LP_MAX_SAFETY_SIZE"
    by (rule node_repE)
  let ?A = "map vblock (take p ws)" and ?M = "map vblock (drop p ws)"
  have ws: "map vblock ws = ?A @ ?M @ []" by (simp flip: map_append)
  have len: "length (concat (map vblock ws)) = length (concat ?A) + length (concat ?M)" unfolding ws by simp
  have rep': "lp_rep lp (?A @ ?M @ []) cnt" using rep(1) unfolding ws .
  have pA: "length ?A = p" using assms(3) by simp
  have lv: "list_all2 is_val (drop p (lp_iter lp)) (drop p ws)" using vals_of_rep [OF rep(1)] rep_iter [OF rep(1)] by (simp add: list_all2_dropI)
  have "7 + length (concat (map vblock ([] @ drop p ws))) \<le> LP_MAX_SAFETY_SIZE" using rep(2) len by simp
  from from_entries_loop_rep [of lp_new "[]" 0, OF _ lv this] lp_rep_new obtain lt cnt1 where
    lt: "from_entries (drop p (lp_iter lp)) = Some lt" "lp_rep lt (map vblock (drop p ws)) cnt1"
    by (auto simp only: from_entries_def list.map append.simps)
  have "7 + length (concat (map vblock (drop p ws))) \<le> LP_MAX_SAFETY_SIZE" "7 + length (concat (map vblock (take p ws))) \<le> LP_MAX_SAFETY_SIZE"
    using rep(2) len by linarith+
  note sub = node_rep_sub [OF lt(2) this(1)] node_rep_sub [OF _ this(2)]
  have nt: "node_rep (Packed lt) (drop p ws)" using sub(1) assms(3) by (cases "lp_is_empty lt") auto
  have sk: "seek lp (int p) = Some (off (map vblock ws) p)"
    using assms(3) by (simp add: rep_seek [OF rep(1)] norm_index_def)
  have e: "eof_offset lp - off (map vblock ws) p = length (concat ?M)" "off (map vblock ws) p < eof_offset lp"
    using rep_off_less_eof [OF rep(1), of p] assms(3) by (simp_all add: rep_eof [OF rep(1)] off_def len take_map del: length_concat)
  obtain lp1 cnt2 where l1: "splice lp (off (map vblock ws) p) (length (concat ?M)) 0 = Some lp1" "lp_rep (sync_header lp1 (- int (length ?M))) (?A @ []) cnt2"
    using rep_erase [OF rep', folded ws] pA by auto
  have d: "delete_byte_range lp (off (map vblock ws) p) (eof_offset lp) (length ws - p) = Some (sync_header lp1 (- int (length ws - p)))"
    using e l1(1) by (simp add: delete_byte_range_def)
  have "lp_rep (sync_header lp1 (- int (length ws - p))) (map vblock (take p ws)) cnt2" using l1(2) by simp
  from sub(2) [OF this] have nf: "node_rep (Packed (sync_header lp1 (- int (length ws - p)))) (take p ws)"
    using assms(2,3) by (cases "lp_is_empty (sync_header lp1 (- int (length ws - p)))") auto
  show ?thesis by (rule that [OF lt(1) nt sk d nf]) (simp add: lp_rep_len [OF rep(1)])
qed

lemma split_insert_rep:
  assumes r: "list_all2 node_rep (ql_nodes q) vss" "ql_count q = length (concat vss)" and p: "at_pos vss i ni p" "0 < p"
    and n: "ql_nodes q ! ni = Packed lp"
  shows "\<exists>q'. split_insert q ni p v lp = Some (True, q') \<and> ql_holds q' (take i (concat vss) @ [v] @ drop i (concat vss))"
proof -
  let ?ws = "vss ! ni"
  have ni: "ni < length vss" "ni < length (ql_nodes q)" and pl: "p < length ?ws" using p r(1) by (auto simp: at_pos_def dest: list_all2_lengthD)
  have "node_rep (Packed lp) ?ws" using list_all2_nthD [OF r(1) ni(2)] n by simp
  from split_halves [OF this p(2) pl] obtain lt st lf where h: "from_entries (drop p (lp_iter lp)) = Some lt" "node_rep (Packed lt) (drop p ?ws)"
    "seek lp (int p) = Some st" "delete_byte_range lp st (eof_offset lp) (length ?ws - p) = Some lf" "node_rep (Packed lf) (take p ?ws)"
    "lp_len lp = length ?ws" .
  let ?q1 = "q\<lparr>ql_nodes := (ql_nodes q)[ni := Packed lf]\<rparr>"
  obtain mid where mid: "new_node ?q1 v = Some mid" "node_rep mid [v]" using new_node_rep by blast
  let ?q2 = "ql_inc (node_insert (node_insert ?q1 (ni + 1) (Packed lt)) (ni + 1) mid)"
  have nodes: "ql_nodes ?q2 = take ni (ql_nodes q) @ [Packed lf, mid, Packed lt] @ drop (Suc ni) (ql_nodes q)"
    using ni(2) by (simp add: ql_inc_def node_insert_def take_Suc_conv_app_nth list_update_append upd_conv_take_nth_drop min_def)
  have "ql_holds ?q2 (take i (concat vss) @ [v] @ drop i (concat vss))"
  proof (rule ql_holdsI)
    show "list_all2 node_rep (ql_nodes ?q2) (take ni vss @ [take p ?ws, [v], drop p ?ws] @ drop (Suc ni) vss)"
      unfolding nodes using r(1) h(2,5) mid(2) by (intro list_all2_appendI list_all2_takeI list_all2_dropI) (simp_all del: node_rep.simps)
    show "concat (take ni vss @ [take p ?ws, [v], drop p ?ws] @ drop (Suc ni) vss) = take i (concat vss) @ [v] @ drop i (concat vss)"
      using at_pos_take_drop(1,2) [OF p(1), of 0] by simp
  qed (use r at_pos_take_drop(4) [OF p(1), of 0] in \<open>simp add: ql_inc_def node_insert_def\<close>)
  from merge_around_rep [OF this, of "ni + 1"] h mid(1) pl show ?thesis
    by (auto simp: split_insert_def checked_sub_def Let_def)
qed

lemma concat_drop_nth: "ni < length vss \<Longrightarrow> concat (drop ni vss) = vss ! ni @ concat (drop (Suc ni) vss)"
  by (metis Cons_nth_drop_Suc concat.simps(2))

lemma insert_prev_concat:
  assumes "at_pos vss i ni 0" "0 < ni"
  shows "concat (vss[ni - 1 := vss ! (ni - 1) @ [v]]) = take i (concat vss) @ [v] @ drop i (concat vss)"
proof -
  obtain m where m: "ni = Suc m" "m < length vss" using assms by (cases ni) (auto simp: at_pos_def)
  have "concat (take ni vss) = concat (take m vss) @ vss ! m" using m by (simp add: take_Suc_conv_app_nth)
  moreover have "vss ! ni @ concat (drop (Suc ni) vss) = concat (drop ni vss)" using assms(1) by (simp add: at_pos_def concat_drop_nth)
  ultimately show ?thesis using at_pos_take_drop(1,2) [OF assms(1), of 0] m by (simp add: concat_update)
qed

text \<open>The two last cases of \<^verbatim>\<open>ql_insert_at\<close>: a new node before the located one, or a split of it.\<close>

lemma insert_new_or_split:
  assumes r: "list_all2 node_rep (ql_nodes q) vss" "ql_count q = length (concat vss)" and p: "at_pos vss i ni p" and n: "node_rep n (vss ! ni)" "ql_nodes q ! ni = n"
  shows "\<exists>q'. (if p = 0 \<or> is_plain n then do { node \<leftarrow> new_node q v; q \<leftarrow> merge_around (ql_inc (node_insert q ni node)) ni; Some (True, q) }
      else (case n of Plain _ \<Rightarrow> Some (False, q) | Packed lp \<Rightarrow> split_insert q ni p v lp)) = Some (True, q')
    \<and> ql_holds q' (take i (concat vss) @ [v] @ drop i (concat vss))"
proof (cases "p = 0 \<or> is_plain n")
  case True
  have "p = 0" using True n p by (cases n) (auto simp: at_pos_def)
  then have e: "take i (concat vss) @ [v] @ drop i (concat vss) = concat (take ni vss) @ [v] @ concat (drop ni vss)"
    using p at_pos_take_drop(1,2) [OF p, of 0] by (simp add: at_pos_def concat_drop_nth)
  obtain nd where nd: "new_node q v = Some nd" "node_rep nd [v]" using new_node_rep by blast
  have "ql_holds (ql_inc (node_insert q ni nd)) (concat (take ni vss) @ [v] @ concat (drop ni vss))"
  proof (rule node_insert_holds [OF r(1) nd(2)])
    have "concat vss = concat (take ni vss) @ concat (drop ni vss)" by (simp flip: concat_append)
    then show "ql_count (ql_inc (node_insert q ni nd)) = length (concat (take ni vss) @ [v] @ concat (drop ni vss))"
      using r(2) by (simp add: ql_inc_def node_insert_def)
  qed (use p in \<open>simp_all add: at_pos_def ql_inc_def node_insert_def\<close>)
  from merge_around_rep [OF this, of ni] nd(1) True e show ?thesis by auto
next
  case False
  then obtain lp where "n = Packed lp" by (cases n) auto
  then show ?thesis using False split_insert_rep [OF r p, of lp v] n(2) by simp
qed

lemma insert_at_inside:
  assumes h: "ql_holds q vs" and i: "0 < i" "i < length vs"
  shows "\<exists>q'. ql_insert_at q i v = Some (True, q') \<and> ql_holds q' (take i vs @ [v] @ drop i vs)"
proof -
  from h obtain vss where r: "list_all2 node_rep (ql_nodes q) vss" "concat vss = vs" "ql_count q = length vs" by (rule ql_holdsE)
  have i': "i < ql_count q" and c: "ql_count q = length (concat vss)" using i r by auto
  from locate_rep [OF r(1) c i'] obtain ni p n where
    l: "locate q i = Some (ni, p)" "at_pos vss i ni p" "nth_opt (ql_nodes q) ni = Some n" "node_rep n (vss ! ni)" "ni < length (ql_nodes q)" "ql_nodes q ! ni = n" .
  note td = at_pos_take_drop(1,2) [OF l(2), of 0, simplified, unfolded r(2)]
  have ni: "ni < length vss" "p < length (vss ! ni)" using l(2) by (auto simp: at_pos_def)
  have unroll: "ql_insert_at q i v =
     Option.bind (insert_in q ni v (\<lambda>lp. lp_insert lp p (EStr v))) (\<lambda>(ok, q). if ok then Some (True, ql_inc q)
        else Option.bind (if p = 0 \<and> ni > 0 then insert_in q (ni - 1) v (\<lambda>lp. lp_append lp (EStr v)) else Some (False, q)) (\<lambda>(ok, q).
          if ok then Some (True, ql_inc q)
          else (case nth_opt (ql_nodes q) ni of
                  None \<Rightarrow> Some (False, q)
                | Some n \<Rightarrow> if p = 0 \<or> is_plain n
                    then do { node \<leftarrow> new_node q v; q \<leftarrow> merge_around (ql_inc (node_insert q ni node)) ni; Some (True, q) }
                    else (case n of Plain _ \<Rightarrow> Some (False, q) | Packed lp \<Rightarrow> split_insert q ni p v lp))))"
    using i i' l(1) by (simp add: ql_insert_at_def)
  from insert_in_rep [OF r(1) lp_insert_grows, of ni v p v] show ?thesis
  proof
    assume "\<exists>ns. insert_in q ni v (\<lambda>lp. lp_insert lp p (EStr v)) = Some (True, q\<lparr>ql_nodes := ns\<rparr>) \<and> ni < length vss
      \<and> list_all2 node_rep ns (vss[ni := take p (vss ! ni) @ [v] @ drop p (vss ! ni)])"
    then obtain ns where s: "insert_in q ni v (\<lambda>lp. lp_insert lp p (EStr v)) = Some (True, q\<lparr>ql_nodes := ns\<rparr>)"
      "list_all2 node_rep ns (vss[ni := take p (vss ! ni) @ [v] @ drop p (vss ! ni)])" by blast
    have "ql_holds (ql_inc (q\<lparr>ql_nodes := ns\<rparr>)) (take i vs @ [v] @ drop i vs)"
      by (rule ql_holdsI [of _ "vss[ni := take p (vss ! ni) @ [v] @ drop p (vss ! ni)]"])
        (use s(2) in \<open>simp add: ql_inc_def\<close>, use td ni in \<open>simp add: concat_update\<close>, use i r(3) in \<open>simp add: ql_inc_def\<close>)
    then show ?thesis using s(1) by (simp add: unroll)
  next
    assume f1: "insert_in q ni v (\<lambda>lp. lp_insert lp p (EStr v)) = Some (False, q)"
    from insert_in_rep [OF r(1) lp_append_grows, of "ni - 1" v v] show ?thesis
    proof (rule disjE)
      assume "\<exists>ns. insert_in q (ni - 1) v (\<lambda>lp. lp_append lp (EStr v)) = Some (True, q\<lparr>ql_nodes := ns\<rparr>) \<and> ni - 1 < length vss
        \<and> list_all2 node_rep ns (vss[ni - 1 := vss ! (ni - 1) @ [v]])"
      then obtain ns where s: "insert_in q (ni - 1) v (\<lambda>lp. lp_append lp (EStr v)) = Some (True, q\<lparr>ql_nodes := ns\<rparr>)"
        "list_all2 node_rep ns (vss[ni - 1 := vss ! (ni - 1) @ [v]])" by blast
      show ?thesis
      proof (cases "p = 0 \<and> ni > 0")
        case True
        then have e: "concat (vss[ni - 1 := vss ! (ni - 1) @ [v]]) = take i vs @ [v] @ drop i vs"
          using insert_prev_concat [of vss i ni v] l(2) r(2) by simp
        have "ql_holds (ql_inc (q\<lparr>ql_nodes := ns\<rparr>)) (take i vs @ [v] @ drop i vs)"
          by (rule ql_holdsI [OF _ e]) (use s(2) r(3) i in \<open>simp_all add: ql_inc_def\<close>)
        then show ?thesis using s(1) f1 True by (simp add: unroll)
      next
        case False
        then show ?thesis using insert_new_or_split [OF r(1) c l(2,4,6), of v] f1 l(5,6) r(2) by (auto simp: unroll nth_opt_def)
      qed
    next
      assume f2: "insert_in q (ni - 1) v (\<lambda>lp. lp_append lp (EStr v)) = Some (False, q)"
      then show ?thesis using insert_new_or_split [OF r(1) c l(2,4,6), of v] f1 l(5,6) r(2) by (auto simp: unroll nth_opt_def)
    qed
  qed
qed

end
