(* ===== verification/Quicklist_Seq.thy ===== *)
theory Quicklist_Seq
  imports Quicklist_Proofs
begin

text \<open>
  The remaining operations of the quicklist as list operations (insertion at both ends and inside, deletion of
  ranges, overwriting, both iterators, search and removal by value), the queue contract it fulfils, and
  the properties.
\<close>

lemma ql_insert_at_rep:
  assumes "ql_holds q vs" shows "\<exists>q'. ql_insert_at q i v = Some (True, q') \<and> ql_holds q' (take i vs @ [v] @ drop i vs)"
proof -
  consider "i = 0" | "0 < i" "i < length vs" | "0 < i" "length vs \<le> i" by linarith
  then show ?thesis
  proof cases
    case 1 then show ?thesis using push_head_rep [OF assms, of v] by (auto simp: ql_insert_at_def)
  next
    case 2 then show ?thesis by (rule insert_at_inside [OF assms])
  next
    case 3 then show ?thesis using push_tail_rep [OF assms, of v] ql_holds_count [OF assms] by (auto simp: ql_insert_at_def)
  qed
qed

subsection \<open>Deletion\<close>

text \<open>One round of the loop of \<^verbatim>\<open>delete_range\<close>: it removes \<open>k\<close> elements from the located position, at least one.\<close>

lemma delete_loop_step:
  assumes h: "ql_holds q vs" and i: "0 < left" "i + left \<le> length vs"
  obtains k q' where "0 < k" "k \<le> left" "delete_loop q i left = delete_loop q' i (left - k)" "ql_holds q' (take i vs @ drop (i + k) vs)"
proof -
  from h obtain vss where r: "list_all2 node_rep (ql_nodes q) vss" "concat vss = vs" "ql_count q = length vs" by (rule ql_holdsE)
  have c: "ql_count q = length (concat vss)" and i': "i < ql_count q" using r i by auto
  from locate_rep [OF r(1) c i'] obtain ni p n where
    l: "locate q i = Some (ni, p)" "at_pos vss i ni p" "node_rep n (vss ! ni)" "ni < length (ql_nodes q)" "ql_nodes q ! ni = n" by metis
  let ?ws = "vss ! ni"
  have ni: "ni < length vss" "p < length ?ws" using l(2) by (auto simp: at_pos_def)
  define k where "k = min (length ?ws - p) left"
  have k: "0 < k" "k \<le> left" "k \<le> length ?ws - p" using ni i by (auto simp: k_def)
  have e: "concat (take ni vss) @ (take p ?ws @ drop (p + k) ?ws) @ concat (drop (Suc ni) vss) = take i vs @ drop (i + k) vs"
    using at_pos_take_drop(1,2) [OF l(2) k(3)] r(2) by simp
  have cnt: "ql_count q - k = length (concat (take ni vss) @ (take p ?ws @ drop (p + k) ?ws) @ concat (drop (Suc ni) vss))" "k \<le> ql_count q"
    unfolding e using r(3) i k by auto
  show ?thesis
  proof (cases n)
    case (Plain b)
    then have one: "?ws = [b]" "p = 0" using l(3) ni by auto
    then have k1: "k = 1" using i by (simp add: k_def)
    let ?q = "(node_remove q ni)\<lparr>ql_count := ql_count q - 1\<rparr>"
    have "delete_loop q i left = delete_loop ?q i (left - k)"
      using l(1,4,5) Plain i cnt(2) k1 by (subst delete_loop.simps) (simp add: nth_opt_def ql_uncount_def checked_sub_def node_remove_def)
    moreover have "ql_holds ?q (take i vs @ drop (i + k) vs)" unfolding e [symmetric]
      by (rule node_update_holds [OF r(1) ni(1), where b = True])
        (use one k1 cnt(1) in \<open>simp_all add: node_remove_def\<close>)
    ultimately show ?thesis using that k by blast
  next
    case (Packed lp)
    from lp_delete_range_rep [of lp ?ws p k] l(3) Packed obtain lp' where d: "Listpack.delete_range lp p k = Some (k, lp')"
      "if lp_is_empty lp' then take p ?ws @ drop (p + k) ?ws = [] else node_rep (Packed lp') (take p ?ws @ drop (p + k) ?ws)"
      using k(3) by (auto simp: min_absorb1 simp del: node_rep.simps)
    have len: "lp_len lp = length ?ws" using node_rep_count [OF l(3)] Packed by simp
    let ?q = "(if lp_is_empty lp' then node_remove q ni else q\<lparr>ql_nodes := (ql_nodes q)[ni := Packed lp']\<rparr>)\<lparr>ql_count := ql_count q - k\<rparr>"
    have "delete_loop q i left = delete_loop ?q i (left - k)"
      using l(1,4,5) Packed i cnt(2) k d(1) ni(2) len
      by (subst delete_loop.simps) (simp add: nth_opt_def ql_uncount_def checked_sub_def node_remove_def flip: k_def)
    moreover have "ql_holds ?q (take i vs @ drop (i + k) vs)" unfolding e [symmetric]
      by (rule node_update_holds [OF r(1) ni(1) d(2)]) (use cnt(1) in \<open>simp_all add: node_remove_def\<close>)
    ultimately show ?thesis using that k by blast
  qed
qed

lemma delete_loop_rep:
  "ql_holds q vs \<Longrightarrow> i + left \<le> length vs \<Longrightarrow> \<exists>q'. delete_loop q i left = Some (0, q') \<and> ql_holds q' (take i vs @ drop (i + left) vs)"
proof (induction left arbitrary: q vs rule: less_induct)
  case (less left)
  show ?case
  proof (cases "left = 0")
    case True then show ?thesis using less.prems by (subst delete_loop.simps) auto
  next
    case False
    then obtain k q' where k: "0 < k" "k \<le> left" "delete_loop q i left = delete_loop q' i (left - k)" "ql_holds q' (take i vs @ drop (i + k) vs)"
      using delete_loop_step [OF less.prems(1) _ less.prems(2)] by blast
    have "take i (take i vs @ drop (i + k) vs) @ drop (i + (left - k)) (take i vs @ drop (i + k) vs) = take i vs @ drop (i + left) vs"
      using k(1,2) less.prems(2) by (simp add: add.commute)
    moreover have "i + (left - k) \<le> length (take i vs @ drop (i + k) vs)" using k(1,2) less.prems(2) by simp
    ultimately show ?thesis using less.IH [OF _ k(4), of "left - k"] k(1-3) by (simp only: diff_less)
  qed
qed

lemma ql_delete_range_rep:
  assumes h: "ql_holds q vs"
  shows "\<exists>q'. ql_delete_range q start c =
      Some (case norm_index (length vs) start of Some i \<Rightarrow> min c (length vs - i) | None \<Rightarrow> 0, q')
    \<and> ql_holds q' (case norm_index (length vs) start of Some i \<Rightarrow> take i vs @ drop (i + c) vs | None \<Rightarrow> vs)"
proof (cases "c = 0 \<or> norm_index (length vs) start = None")
  case True
  then show ?thesis using h ql_holds_count [OF h] by (auto simp: ql_delete_range_def normalize_rep [OF h] norm_index_def split: option.split)
next
  case False
  then obtain i where i: "norm_index (length vs) start = Some i" "i < length vs" "0 < c" using norm_index_less by fastforce
  let ?w = "min c (length vs - i)"
  have w: "0 < ?w" "i + ?w \<le> length vs" "drop (i + ?w) vs = drop (i + c) vs" using i by (auto simp: min_def)
  from delete_loop_rep [OF h w(2)] obtain q1 where q1: "delete_loop q i ?w = Some (0, q1)" "ql_holds q1 (take i vs @ drop (i + c) vs)" using w(3) by auto
  have "\<exists>q'. (if ql_nodes q1 \<noteq> [] then (case locate q1 (min i (ql_count q1 - 1)) of Some (ni, _) \<Rightarrow> merge_around q1 ni | None \<Rightarrow> Some q1) else Some q1) = Some q'
      \<and> ql_holds q' (take i vs @ drop (i + c) vs)"
    using q1(2) merge_around_rep [OF q1(2)] by (auto split: option.split)
  then obtain q2 where q2: "(if ql_nodes q1 \<noteq> [] then (case locate q1 (min i (ql_count q1 - 1)) of Some (ni, _) \<Rightarrow> merge_around q1 ni | None \<Rightarrow> Some q1) else Some q1) = Some q2"
    "ql_holds q2 (take i vs @ drop (i + c) vs)" by blast
  have "ql_delete_range q start c = Some (?w, q2)"
    using i length_greater_0_conv [of vs] q1(1) q2(1) w(1) by (auto simp: ql_delete_range_def normalize_rep [OF h] ql_holds_count [OF h] Let_def)
  then show ?thesis using i(1) q2(2) by auto
qed

subsection \<open>Overwriting\<close>

text \<open>\<^verbatim>\<open>set\<close> is refused at a position out of range, or when a listpack would pass its size limit; then nothing changes.\<close>

lemma ql_set_rep:
  assumes h: "ql_holds q vs"
  shows "\<exists>ok q'. ql_set q index v = Some (ok, q')
    \<and> (if ok then \<exists>i. norm_index (length vs) index = Some i \<and> ql_holds q' (vs[i := v]) else q' = q)"
proof (cases "norm_index (length vs) index")
  case None
  then have "ql_set q index v = Some (False, q)" by (simp add: ql_set_def normalize_rep [OF h])
  then show ?thesis by (intro exI [of _ False]) simp
next
  case (Some i)
  from h obtain vss where r: "list_all2 node_rep (ql_nodes q) vss" "concat vss = vs" "ql_count q = length vs" by (rule ql_holdsE)
  have c: "ql_count q = length (concat vss)" and i': "i < ql_count q" using r norm_index_less [OF Some] by auto
  from locate_rep [OF r(1) c i'] obtain ni p n where
    l: "locate q i = Some (ni, p)" "at_pos vss i ni p" "node_rep n (vss ! ni)" "ni < length (ql_nodes q)" "ql_nodes q ! ni = n" by metis
  let ?ws = "vss ! ni"
  have ni: "ni < length vss" "p < length ?ws" using l(2) by (auto simp: at_pos_def)
  have u: "concat (vss[ni := ?ws[p := v]]) = vs[i := v]"
    using l(2) r(2) concat_split [OF ni(1)] by (auto simp: concat_update [OF ni(1)] at_pos_def list_update_append)
  have upd: "ql_holds (q\<lparr>ql_nodes := (ql_nodes q)[ni := n']\<rparr>) (vs[i := v])" if "node_rep n' (?ws[p := v])" for n'
    by (rule ql_holdsI [OF _ u]) (use r that in \<open>auto intro: list_all2_update_cong\<close>)
  have unroll: "ql_set q index v = (case (n, is_large_element (length v) (ql_fill q)) of
      (Plain _, True) \<Rightarrow> Some (True, q\<lparr>ql_nodes := (ql_nodes q)[ni := Plain v]\<rparr>)
    | (Packed lp, False) \<Rightarrow> do { (ok, lp) \<leftarrow> lp_replace lp p (EStr v); Some (ok, q\<lparr>ql_nodes := (ql_nodes q)[ni := Packed lp]\<rparr>) }
    | _ \<Rightarrow> do { (_, q) \<leftarrow> ql_delete_range q (int i) 1; ql_insert_at q i v })"
    using Some l by (simp add: ql_set_def normalize_rep [OF h] nth_opt_def)
  have other: "\<exists>q'. Option.bind (ql_delete_range q (int i) 1) (\<lambda>(_, q). ql_insert_at q i v) = Some (True, q') \<and> ql_holds q' (vs[i := v])"
  proof -
    have "norm_index (length vs) (int i) = Some i" using i' r(3) by (simp add: norm_index_def)
    then obtain k q1 where q1: "ql_delete_range q (int i) 1 = Some (k, q1)" "ql_holds q1 (take i vs @ drop (Suc i) vs)"
      using ql_delete_range_rep [OF h, of "int i" 1] by auto
    have "take i (take i vs @ drop (Suc i) vs) @ [v] @ drop i (take i vs @ drop (Suc i) vs) = vs[i := v]"
      using i' r(3) by (simp add: upd_conv_take_nth_drop)
    then show ?thesis using ql_insert_at_rep [OF q1(2), of i v] q1(1) by auto
  qed
  show ?thesis
  proof (cases n)
    case (Plain b)
    then have "?ws = [b]" "p = 0" using l(3) ni by auto
    then show ?thesis using upd [of "Plain v"] other Plain Some by (cases "is_large_element (length v) (ql_fill q)") (auto simp: unroll)
  next
    case (Packed lp)
    have same: "(ql_nodes q)[ni := Packed lp] = ql_nodes q" using l(5) Packed by (metis list_update_id)
    from lp_replace_rep [of lp ?ws p v] l(3) Packed ni(2) have
      "lp_replace lp p (EStr v) = Some (False, lp) \<or> (\<exists>lp'. lp_replace lp p (EStr v) = Some (True, lp') \<and> node_rep (Packed lp') (?ws[p := v]))" by simp
    then show ?thesis using upd other Packed Some same by (cases "is_large_element (length v) (ql_fill q)") (auto simp: unroll simp del: node_rep.simps)
  qed
qed

subsection \<open>The forward iterator\<close>

text \<open>What a cursor and an iterator have still to return.\<close>

fun cursor_left :: "cursor \<Rightarrow> bytes list \<Rightarrow> bool" where
  "cursor_left (CPacked lp o') us \<longleftrightarrow> (\<exists>vs cnt k. lp_rep lp (map vblock vs) cnt \<and> k \<le> length vs \<and> o' = off (map vblock vs) k \<and> us = drop k vs)"
| "cursor_left (CPlain b) us \<longleftrightarrow> us = (case b of Some b \<Rightarrow> [b] | None \<Rightarrow> [])"

definition iter_left :: "quicklist \<Rightarrow> ql_fwd_iter \<Rightarrow> bytes list \<Rightarrow> bool" where
  "iter_left q it us \<longleftrightarrow> (\<exists>vss ws. list_all2 node_rep (ql_nodes q) vss \<and> (case it_cur it of None \<Rightarrow> ws = [] | Some c \<Rightarrow> cursor_left c ws)
     \<and> us = ws @ concat (drop (it_node it) vss) \<and> it_remaining it = length us)"

lemma cursor_leftI: "lp_rep lp (map vblock vs) cnt \<Longrightarrow> k \<le> length vs \<Longrightarrow> cursor_left (CPacked lp (off (map vblock vs) k)) (drop k vs)"
  unfolding cursor_left.simps by blast

lemma node_cursor_left: "node_rep n vs \<Longrightarrow> k < length vs \<Longrightarrow> cursor_left (node_cursor n k) (drop k vs)"
proof (cases n)
  case (Packed lp)
  assume "node_rep n vs" and k: "k < length vs"
  then obtain cnt where rep: "lp_rep lp (map vblock vs) cnt" using Packed by auto
  then have "seek lp (int k) = Some (off (map vblock vs) k)" using k by (simp add: rep_seek [OF rep] norm_index_def)
  then show ?thesis using cursor_leftI [OF rep, of k] k by (simp add: Packed del: cursor_left.simps)
qed auto

lemma cursor_next_left:
  assumes "cursor_left c us"
  shows "case us of [] \<Rightarrow> fst (cursor_next c) = None
    | u # us' \<Rightarrow> \<exists>e. fst (cursor_next c) = Some e \<and> is_val e u \<and> cursor_left (snd (cursor_next c)) us'"
proof (cases c)
  case (CPacked lp o')
  with assms obtain vs cnt k where v: "lp_rep lp (map vblock vs) cnt" "k \<le> length vs" "o' = off (map vblock vs) k" "us = drop k vs" by auto
  show ?thesis
  proof (cases "k < length vs")
    case True
    obtain n where n: "decode_at (lp_buf lp) o' = Some (block_val (vblock (vs ! k)), n)" "n + backlen_size n = length (vblock (vs ! k))"
      using rep_at [OF v(1), of k] True v(3) by auto
    have e: "o' < eof_offset lp" using rep_off_less_eof [OF v(1), of k] True v(3) by simp
    have "is_val (block_val (vblock (vs ! k))) (vs ! k)" using list_all2_nthD [OF vals_of_rep [OF v(1)], of k] True by (simp add: lp_vals_def)
    moreover have "us = vs ! k # drop (Suc k) vs" using True v(4) by (simp add: Cons_nth_drop_Suc)
    moreover have "cursor_next c = (Some (block_val (vblock (vs ! k))), CPacked lp (off (map vblock vs) (Suc k)))"
      using e n True v(3) by (simp add: CPacked iter_step_def off_Suc)
    ultimately show ?thesis using cursor_leftI [OF v(1), of "Suc k"] True by (simp del: cursor_left.simps)
  next
    case False
    then have "\<not> o' < eof_offset lp" using rep_off_less_eof [OF v(1), of k] v(2,3) by simp
    then show ?thesis using False v(4) by (simp add: CPacked iter_step_def)
  qed
next
  case (CPlain b)
  then show ?thesis using assms by (cases b) auto
qed

lemma next_loop_left:
  "iter_left q it us \<Longrightarrow> us \<noteq> [] \<Longrightarrow> \<exists>e it'. next_loop q it = (Some e, it') \<and> is_val e (hd us) \<and> iter_left q it' (tl us)"
proof (induction "length (ql_nodes q) - it_node it" arbitrary: it rule: less_induct)
  case less
  from less.prems(1) obtain vss ws where v: "list_all2 node_rep (ql_nodes q) vss" "case it_cur it of None \<Rightarrow> ws = [] | Some c \<Rightarrow> cursor_left c ws"
    "us = ws @ concat (drop (it_node it) vss)" "it_remaining it = length us" by (auto simp: iter_left_def)
  show ?case
  proof (cases ws)
    case (Cons w ws')
    then obtain c where c: "it_cur it = Some c" "cursor_left c (w # ws')" using v(2) by (cases "it_cur it") auto
    then obtain e c' where "cursor_next c = (Some e, c')" "is_val e w" "cursor_left c' ws'" using cursor_next_left [OF c(2)] by (cases "cursor_next c") auto
    moreover from this have "iter_left q (it\<lparr>it_cur := Some c', it_remaining := it_remaining it - 1\<rparr>) (tl us)"
      using v Cons by (auto simp: iter_left_def intro!: exI [of _ vss])
    ultimately show ?thesis using c(1) v(3) Cons by (subst next_loop.simps) simp
  next
    case Nil
    then have "concat (drop (it_node it) vss) \<noteq> []" using v(3) less.prems(2) by simp
    then have len: "it_node it < length vss" by (metis concat.simps(1) drop_all not_le)
    then have len': "it_node it < length (ql_nodes q)" using v(1) by (simp add: list_all2_lengthD)
    let ?n = "ql_nodes q ! it_node it" and ?it = "\<lambda>n. it\<lparr>it_cur := Some (node_cursor n 0), it_node := it_node it + 1\<rparr>"
    have n: "node_rep ?n (vss ! it_node it)" using list_all2_nthD [OF v(1) len'] .
    have "iter_left q (?it ?n) us"
      using v n node_cursor_left [OF n, of 0] node_rep_ne [OF n] Nil len
      by (auto simp: iter_left_def concat_drop_nth intro!: exI [of _ vss])
    moreover have "next_loop q it = next_loop q (?it ?n)"
    proof -
      have "\<exists>c. (case it_cur it of None \<Rightarrow> (None, None) | Some c \<Rightarrow> (case cursor_next c of (e, c) \<Rightarrow> (e, Some c))) = (None, c)"
        using v(2) cursor_next_left Nil by (force split: option.splits prod.splits)
      then show ?thesis using len' by (subst next_loop.simps) (auto simp: nth_opt_def)
    qed
    ultimately show ?thesis using less.hyps [of "?it ?n"] less.prems(2) len' by simp
  qed
qed

lemma ql_next_left:
  assumes "iter_left q it us"
  shows "case us of [] \<Rightarrow> fst (ql_next q it) = None
    | u # us' \<Rightarrow> \<exists>e it'. ql_next q it = (Some e, it') \<and> is_val e u \<and> iter_left q it' us'"
proof (cases us)
  case Nil
  then have "it_remaining it = 0" using assms by (auto simp: iter_left_def)
  then show ?thesis by (simp add: Nil ql_next_def)
next
  case (Cons u us')
  then have "it_remaining it \<noteq> 0" using assms by (auto simp: iter_left_def)
  then show ?thesis using next_loop_left [OF assms] by (simp add: Cons ql_next_def)
qed

lemma ql_iter_left: "ql_holds q vs \<Longrightarrow> iter_left q (ql_iter q) vs"
  by (erule ql_holdsE) (auto simp: iter_left_def ql_iter_def)

lemma ql_iter_from_left:
  assumes h: "ql_holds q vs"
  shows "case norm_index (length vs) index of Some i \<Rightarrow> iter_left q (ql_iter_from q index) (drop i vs) | None \<Rightarrow> it_remaining (ql_iter_from q index) = 0"
proof (cases "norm_index (length vs) index")
  case (Some i)
  from h obtain vss where r: "list_all2 node_rep (ql_nodes q) vss" "concat vss = vs" "ql_count q = length vs" by (rule ql_holdsE)
  have c: "ql_count q = length (concat vss)" and i': "i < ql_count q" using r norm_index_less [OF Some] by auto
  from locate_rep [OF r(1) c i'] obtain ni p n where
    l: "locate q i = Some (ni, p)" "at_pos vss i ni p" "node_rep n (vss ! ni)" "ni < length (ql_nodes q)" "ql_nodes q ! ni = n" by metis
  have "cursor_left (node_cursor n p) (drop p (vss ! ni))" using node_cursor_left [OF l(3)] l(2) by (simp add: at_pos_def)
  moreover have "drop i vs = drop p (vss ! ni) @ concat (drop (Suc ni) vss)" using at_pos_take_drop(2) [OF l(2), of 0] r(2) by simp
  moreover from arg_cong [OF this, of length] have "length vs - i = length (vss ! ni) - p + length (concat (drop (Suc ni) vss))" by simp
  ultimately show ?thesis using Some l r
    by (auto simp: ql_iter_from_def normalize_rep [OF h] iter_left_def nth_opt_def intro!: exI [of _ vss])
qed (simp add: ql_iter_from_def normalize_rep [OF h])

subsection \<open>The reverse iterator\<close>

lemma entry_offsets_rep:
  assumes "lp_rep lp bs cnt" shows "k \<le> length bs \<Longrightarrow> entry_offsets lp (off bs k) = map (off bs) [k..<length bs]"
proof (induction "length bs - k" arbitrary: k)
  case 0
  then show ?case using rep_off_less_eof [OF assms, of k] by (subst entry_offsets.simps) simp
next
  case (Suc m)
  then have k: "k < length bs" by simp
  have "entry_offsets lp (off bs (Suc k)) = map (off bs) [Suc k..<length bs]" using Suc.hyps(1) [of "Suc k"] Suc.hyps(2) k by simp
  then show ?case using k rep_off_less_eof [OF assms, of k] rep_next_offset [OF assms k]
    by (subst entry_offsets.simps) (simp add: upt_conv_Cons)
qed

definition rev_left :: "quicklist \<Rightarrow> ql_rev_iter \<Rightarrow> bytes list \<Rightarrow> bool" where
  "rev_left q it us \<longleftrightarrow> (\<exists>vss. list_all2 node_rep (ql_nodes q) vss \<and> rit_node it \<le> length vss \<and> rit_remaining it = length us
     \<and> us = rev (concat (take (rit_node it) vss) @ (if rit_pos it = 0 then [] else take (rit_pos it) (vss ! rit_node it)))
     \<and> (rit_pos it = 0 \<or> rit_node it < length vss \<and> rit_pos it \<le> length (vss ! rit_node it) \<and> rit_buf it = node_offsets (ql_nodes q ! rit_node it)))"

lemma node_offsets_rep:
  assumes "node_rep n vs"
  shows "length (node_offsets n) = length vs"
    and "k < length vs \<Longrightarrow> \<exists>e. (case n of Packed lp \<Rightarrow> entry_at lp (node_offsets n ! k) | Plain b \<Rightarrow> Some (EStr b)) = Some e \<and> is_val e (vs ! k)"
proof -
  have "length (node_offsets n) = length vs \<and> (k < length vs \<longrightarrow>
      (\<exists>e. (case n of Packed lp \<Rightarrow> entry_at lp (node_offsets n ! k) | Plain b \<Rightarrow> Some (EStr b)) = Some e \<and> is_val e (vs ! k)))" for k
  proof (cases n)
    case (Packed lp)
    then obtain cnt where rep: "lp_rep lp (map vblock vs) cnt" using assms by auto
    have o': "entry_offsets lp LP_HDR_SIZE = map (off (map vblock vs)) [0..<length vs]" using entry_offsets_rep [OF rep, of 0] by (simp add: off_0)
    show ?thesis using rep_entry_at [OF rep, of k] list_all2_nthD [OF vals_of_rep [OF rep], of k] by (auto simp: Packed o' lp_vals_def)
  qed (use assms in auto)
  then show "length (node_offsets n) = length vs"
    and "k < length vs \<Longrightarrow> \<exists>e. (case n of Packed lp \<Rightarrow> entry_at lp (node_offsets n ! k) | Plain b \<Rightarrow> Some (EStr b)) = Some e \<and> is_val e (vs ! k)" by auto
qed

lemma rev_next_loop_left:
  "rev_left q it us \<Longrightarrow> us \<noteq> [] \<Longrightarrow> \<exists>e it'. rev_next_loop q it = (Some e, it') \<and> is_val e (hd us) \<and> rev_left q it' (tl us)"
proof (induction "rit_node it" arbitrary: it rule: less_induct)
  case less
  from less.prems(1) obtain vss where v: "list_all2 node_rep (ql_nodes q) vss" "rit_node it \<le> length vss" "rit_remaining it = length us"
    "us = rev (concat (take (rit_node it) vss) @ (if rit_pos it = 0 then [] else take (rit_pos it) (vss ! rit_node it)))"
    "rit_pos it = 0 \<or> rit_node it < length vss \<and> rit_pos it \<le> length (vss ! rit_node it) \<and> rit_buf it = node_offsets (ql_nodes q ! rit_node it)"
    by (auto simp: rev_left_def)
  have len: "length (ql_nodes q) = length vss" using v(1) by (rule list_all2_lengthD)
  show ?case
  proof (cases "rit_pos it")
    case (Suc p)
    let ?n = "ql_nodes q ! rit_node it" and ?ws = "vss ! rit_node it"
    have b: "rit_node it < length vss" "p < length ?ws" "rit_buf it = node_offsets ?n" using v(5) Suc by auto
    have n: "node_rep ?n ?ws" using list_all2_nthD [OF v(1)] b(1) len by simp
    obtain e where e: "(case ?n of Packed lp \<Rightarrow> entry_at lp (node_offsets ?n ! p) | Plain b \<Rightarrow> Some (EStr b)) = Some e" "is_val e (?ws ! p)"
      using node_offsets_rep(2) [OF n b(2)] by blast
    have u: "us = ?ws ! p # rev (concat (take (rit_node it) vss) @ take p ?ws)" using v(4) Suc b(2) by (simp add: take_Suc_conv_app_nth)
    let ?it = "it\<lparr>rit_pos := p, rit_remaining := rit_remaining it - 1\<rparr>"
    have "rev_next_loop q it = (Some e, ?it)"
      using Suc b len e(1) node_offsets_rep(1) [OF n] by (subst rev_next_loop.simps) (simp add: nth_opt_def)
    moreover have "rev_left q ?it (tl us)"
      using v(1-3) b u unfolding rev_left_def by (intro exI [of _ vss]) auto
    ultimately show ?thesis using e(2) u by simp
  next
    case 0
    have "rit_node it \<noteq> 0" using v(4) 0 less.prems(2) by (intro notI) simp
    then obtain m where m: "rit_node it = Suc m" by (cases "rit_node it") auto
    let ?n = "ql_nodes q ! m"
    let ?it = "it\<lparr>rit_node := m, rit_buf := node_offsets ?n, rit_pos := length (node_offsets ?n)\<rparr>"
    have ml: "m < length vss" using v(2) m by simp
    have n: "node_rep ?n (vss ! m)" using list_all2_nthD [OF v(1), of m] ml len by simp
    have "rev_next_loop q it = rev_next_loop q ?it" using 0 m ml len by (subst rev_next_loop.simps) (simp add: nth_opt_def)
    moreover have "rev_left q ?it us" unfolding rev_left_def
      using v(1-4) 0 m ml n node_offsets_rep(1) [OF n] node_rep_ne [OF n] by (intro exI [of _ vss]) (auto simp: take_Suc_conv_app_nth)
    ultimately show ?thesis using less.hyps [of ?it] less.prems(2) m by simp
  qed
qed

lemma ql_rev_next_left:
  assumes "rev_left q it us"
  shows "case us of [] \<Rightarrow> fst (ql_rev_next q it) = None
    | u # us' \<Rightarrow> \<exists>e it'. ql_rev_next q it = (Some e, it') \<and> is_val e u \<and> rev_left q it' us'"
proof (cases us)
  case Nil
  then have "rit_remaining it = 0" using assms by (auto simp: rev_left_def)
  then show ?thesis by (simp add: Nil ql_rev_next_def)
next
  case (Cons u us')
  then have "rit_remaining it \<noteq> 0" using assms by (auto simp: rev_left_def)
  then show ?thesis using rev_next_loop_left [OF assms] by (simp add: Cons ql_rev_next_def)
qed

lemma ql_iter_rev_left: "ql_holds q vs \<Longrightarrow> rev_left q (ql_iter_rev q) (rev vs)"
  by (erule ql_holdsE) (auto simp: rev_left_def ql_iter_rev_def list_all2_lengthD intro!: exI)

subsection \<open>Search and removal by value\<close>

fun find_first :: "'a \<Rightarrow> 'a list \<Rightarrow> nat option" where
  "find_first v [] = None"
| "find_first v (x # xs) = (if x = v then Some 0 else map_option Suc (find_first v xs))"

fun remove_n :: "nat \<Rightarrow> 'a \<Rightarrow> 'a list \<Rightarrow> 'a list" where
  "remove_n 0 v xs = xs"
| "remove_n (Suc n) v [] = []"
| "remove_n (Suc n) v (x # xs) = (if x = v then remove_n n v xs else x # remove_n (Suc n) v xs)"

lemma iter_position_left: "iter_left q it us \<Longrightarrow> iter_position q it v k = map_option ((+) k) (find_first v us)"
proof (induction us arbitrary: it k)
  case Nil
  then show ?case using ql_next_left [OF Nil] by (subst iter_position.simps) (auto split: prod.split)
next
  case (Cons u us)
  from ql_next_left [OF Cons.prems] obtain e it' where n: "ql_next q it = (Some e, it')" "is_val e u" "iter_left q it' us" by auto
  show ?case using Cons.IH [OF n(3)] n(1) is_val_eq_bytes [OF n(2)] by (subst iter_position.simps) (auto simp: option.map_comp comp_def)
qed

lemma rev_position_left: "rev_left q it us \<Longrightarrow> rev_position q it v k = map_option ((+) k) (find_first v us)"
proof (induction us arbitrary: it k)
  case Nil
  then show ?case using ql_rev_next_left [OF Nil] by (subst rev_position.simps) (auto split: prod.split)
next
  case (Cons u us)
  from ql_rev_next_left [OF Cons.prems] obtain e it' where n: "ql_rev_next q it = (Some e, it')" "is_val e u" "rev_left q it' us" by auto
  show ?case using Cons.IH [OF n(3)] n(1) is_val_eq_bytes [OF n(2)] by (subst rev_position.simps) (auto simp: option.map_comp comp_def)
qed

lemma plus_0_id: "(+) (0 :: nat) = id"
  by auto

lemma position_rep: "ql_holds q vs \<Longrightarrow> position q v = find_first v vs"
  by (simp add: position_def iter_position_left [OF ql_iter_left] plus_0_id option.map_id)

lemma rposition_rep: "ql_holds q vs \<Longrightarrow> rposition q v = map_option (\<lambda>k. length vs - 1 - k) (find_first v (rev vs))"
  by (simp add: rposition_def rev_position_left [OF ql_iter_rev_left] plus_0_id option.map_id ql_holds_count)

lemma find_first_None: "find_first v xs = None \<longleftrightarrow> v \<notin> set xs"
  by (induction xs) auto

lemma find_first_Some: "find_first v xs = Some i \<Longrightarrow> i < length xs \<and> v \<in> set xs \<and> take i xs @ drop (Suc i) xs = remove1 v xs"
  by (induction xs arbitrary: i) (auto split: if_splits)

lemma remove_n_absent: "v \<notin> set xs \<Longrightarrow> remove_n n v xs = xs"
  by (induction n v xs rule: remove_n.induct) auto

lemma remove_n_Suc: "remove_n (Suc n) v xs = remove_n n v (remove1 v xs)"
  by (induction xs) (cases n; simp)+

lemma count_remove1: "v \<in> set xs \<Longrightarrow> count_list xs v = Suc (count_list (remove1 v xs) v)"
  by (induction xs) auto

lemma remove_n_all: "count_list xs v \<le> n \<Longrightarrow> remove_n n v xs = filter (\<lambda>x. x \<noteq> v) xs"
  by (induction n v xs rule: remove_n.induct) (auto simp: count_list_0_iff intro!: filter_True [symmetric])

lemma count_list_rev [simp]: "count_list (rev xs) v = count_list xs v"
  by (induction xs) auto

text \<open>The elements as the search meets them: from the tail when the count is negative.\<close>

definition seen :: "bool \<Rightarrow> 'a list \<Rightarrow> 'a list" where
  "seen backward vs = (if backward then rev vs else vs)"

lemma remove_loop_rep:
  "ql_holds q vs \<Longrightarrow> removed \<le> limit \<Longrightarrow>
    \<exists>q'. remove_loop q v backward limit removed = Some (removed + min (limit - removed) (count_list vs v), q')
      \<and> ql_holds q' (seen backward (remove_n (limit - removed) v (seen backward vs)))"
proof (induction "limit - removed" arbitrary: q vs removed)
  case 0
  then show ?case by (subst remove_loop.simps) (auto simp: seen_def)
next
  case (Suc m)
  then have lt: "removed < limit" and m: "limit - Suc removed = m" by auto
  have found: "(if backward then rposition q v else position q v) =
      map_option (\<lambda>k. if backward then length vs - 1 - k else k) (find_first v (seen backward vs))"
    using Suc.prems(1) by (simp add: seen_def position_rep rposition_rep option.map_ident)
  show ?case
  proof (cases "find_first v (seen backward vs)")
    case None
    then have "v \<notin> set vs" by (simp add: find_first_None seen_def split: if_splits)
    then have "seen backward (remove_n (limit - removed) v (seen backward vs)) = vs" "count_list vs v = 0"
      by (simp_all add: remove_n_absent seen_def count_list_0_iff)
    then show ?thesis using lt None found Suc.prems(1) by (subst remove_loop.simps) simp
  next
    case (Some k)
    let ?i = "if backward then length vs - 1 - k else k" and ?ws = "seen backward (remove1 v (seen backward vs))"
    note k = find_first_Some [OF Some]
    have i: "?i < length vs" "v \<in> set vs" using k by (auto simp: seen_def split: if_splits)
    have ws: "take ?i vs @ drop (Suc ?i) vs = ?ws"
    proof (cases backward)
      case True
      have "take k (rev vs) @ drop (Suc k) (rev vs) = rev (take ?i vs @ drop (Suc ?i) vs)"
        using True k by (simp add: rev_drop rev_take seen_def Suc_diff_Suc)
      also have "take k (rev vs) @ drop (Suc k) (rev vs) = remove1 v (rev vs)" using k True by (simp only: seen_def if_True)
      finally show ?thesis using True by (metis rev_rev_ident seen_def)
    qed (use k in \<open>simp add: seen_def\<close>)
    have "norm_index (length vs) (int ?i) = Some ?i" using i(1) by (simp add: norm_index_def)
    then obtain q1 where q1: "ql_delete_range q (int ?i) 1 = Some (1, q1)" "ql_holds q1 ?ws"
      using ql_delete_range_rep [OF Suc.prems(1), of "int ?i" 1] i(1) ws by (auto simp: min_def)
    have c: "count_list vs v = Suc (count_list ?ws v)"
      using count_remove1 [of v "seen backward vs"] i(2) by (cases backward) (simp_all add: seen_def)
    have r: "remove_n (limit - removed) v (seen backward vs) = remove_n m v (seen backward ?ws)"
      using Suc.hyps(2) by (simp add: remove_n_Suc seen_def flip: Suc.hyps(2))
    from Suc.hyps(1) [of "Suc removed" q1 ?ws] m q1(2) lt obtain q2 where q2:
      "remove_loop q1 v backward limit (Suc removed) = Some (Suc removed + min m (count_list ?ws v), q2)"
      "ql_holds q2 (seen backward (remove_n m v (seen backward ?ws)))" by auto
    have "remove_loop q v backward limit removed = Some (removed + min (limit - removed) (count_list vs v), q2)"
      using q2(1) q1(1) lt found Some c Suc.hyps(2) by (subst remove_loop.simps) (auto simp flip: Suc.hyps(2))
    then show ?thesis using q2(2) r by auto
  qed
qed

subsection \<open>The contract of a double-ended queue\<close>

locale deque =
  fixes holds :: "'q \<Rightarrow> 'v list \<Rightarrow> bool" and empty :: 'q
    and pushh :: "'q \<Rightarrow> 'v \<Rightarrow> (bool \<times> 'q) option" and pusht :: "'q \<Rightarrow> 'v \<Rightarrow> (bool \<times> 'q) option"
    and poph :: "'q \<Rightarrow> ('v option \<times> 'q) option" and popt :: "'q \<Rightarrow> ('v option \<times> 'q) option"
  assumes holds_empty: "holds empty []"
    and pushh: "holds q vs \<Longrightarrow> \<exists>b q'. pushh q v = Some (b, q') \<and> holds q' (v # vs)"
    and pusht: "holds q vs \<Longrightarrow> \<exists>b q'. pusht q v = Some (b, q') \<and> holds q' (vs @ [v])"
    and poph: "holds q (v # vs) \<Longrightarrow> \<exists>q'. poph q = Some (Some v, q') \<and> holds q' vs"
    and popt: "holds q (vs @ [v]) \<Longrightarrow> \<exists>q'. popt q = Some (Some v, q') \<and> holds q' vs"
    and pop_empty: "holds q [] \<Longrightarrow> poph q = Some (None, q) \<and> popt q = Some (None, q)"
begin

text \<open>Pushing a list at one end, and popping until the queue is empty or \<open>n\<close> elements are out.\<close>

fun push_list :: "('q \<Rightarrow> 'v \<Rightarrow> (bool \<times> 'q) option) \<Rightarrow> 'q \<Rightarrow> 'v list \<Rightarrow> 'q option" where
  "push_list f q [] = Some q"
| "push_list f q (v # vs) = Option.bind (f q v) (\<lambda>(_, q). push_list f q vs)"

fun pop_list :: "('q \<Rightarrow> ('v option \<times> 'q) option) \<Rightarrow> nat \<Rightarrow> 'q \<Rightarrow> ('v list \<times> 'q) option" where
  "pop_list f 0 q = Some ([], q)"
| "pop_list f (Suc n) q = Option.bind (f q) (\<lambda>(r, q). case r of None \<Rightarrow> Some ([], q)
     | Some v \<Rightarrow> Option.bind (pop_list f n q) (\<lambda>(vs, q). Some (v # vs, q)))"

lemma push_list_tail: "holds q us \<Longrightarrow> \<exists>q'. push_list pusht q vs = Some q' \<and> holds q' (us @ vs)"
proof (induction vs arbitrary: q us)
  case (Cons v vs)
  from pusht [OF Cons.prems, of v] obtain b q1 where "pusht q v = Some (b, q1)" "holds q1 (us @ [v])" by blast
  with Cons.IH [of q1 "us @ [v]"] show ?case by auto
qed simp

lemma push_list_head: "holds q us \<Longrightarrow> \<exists>q'. push_list pushh q vs = Some q' \<and> holds q' (rev vs @ us)"
proof (induction vs arbitrary: q us)
  case (Cons v vs)
  from pushh [OF Cons.prems, of v] obtain b q1 where "pushh q v = Some (b, q1)" "holds q1 (v # us)" by blast
  with Cons.IH [of q1 "v # us"] show ?case by auto
qed simp

lemma pop_list_head: "holds q us \<Longrightarrow> \<exists>q'. pop_list poph n q = Some (take n us, q') \<and> holds q' (drop n us)"
proof (induction n arbitrary: q us)
  case (Suc n)
  show ?case
  proof (cases us)
    case Nil
    then show ?thesis using pop_empty [of q] Suc.prems by simp
  next
    case (Cons u us')
    from poph [of q u us'] Suc.prems Cons obtain q1 where "poph q = Some (Some u, q1)" "holds q1 us'" by auto
    with Suc.IH [of q1 us'] Cons show ?thesis by auto
  qed
qed simp

lemma pop_list_tail: "holds q us \<Longrightarrow> \<exists>q'. pop_list popt n q = Some (take n (rev us), q') \<and> holds q' (rev (drop n (rev us)))"
proof (induction n arbitrary: q us)
  case (Suc n)
  show ?case
  proof (cases us rule: rev_cases)
    case Nil
    then show ?thesis using pop_empty [of q] Suc.prems by simp
  next
    case (snoc us' u)
    from popt [of q us' u] Suc.prems snoc obtain q1 where "popt q = Some (Some u, q1)" "holds q1 us'" by auto
    with Suc.IH [of q1 us'] snoc show ?thesis by auto
  qed
qed simp

lemma queue_order: "\<exists>q1 q2. push_list pusht empty vs = Some q1 \<and> pop_list poph (length vs) q1 = Some (vs, q2) \<and> holds q2 []"
proof -
  from push_list_tail [OF holds_empty, of vs] obtain q1 where "push_list pusht empty vs = Some q1" "holds q1 vs" by auto
  with pop_list_head [of q1 vs "length vs"] show ?thesis by auto
qed

end

interpretation quicklist_deque: deque ql_holds "ql_new fill" push_head push_tail "pop_head decimal" "pop_tail decimal" for fill
proof unfold_locales
  show "ql_holds (ql_new fill) []" by (rule ql_holds_new)
next
  fix q vs v assume h: "ql_holds q vs"
  show "\<exists>b q'. push_head q v = Some (b, q') \<and> ql_holds q' (v # vs)" "\<exists>b q'. push_tail q v = Some (b, q') \<and> ql_holds q' (vs @ [v])"
    using push_head_rep [OF h, of v] push_tail_rep [OF h, of v] by blast+
next
  fix q v vs assume h: "ql_holds q (v # vs)"
  show "\<exists>q'. pop_head decimal q = Some (Some v, q') \<and> ql_holds q' vs"
    using drop_head_rep [OF h] is_val_write [OF itoa_spec_decimal] by (auto simp: pop_head_def)
next
  fix q vs v assume h: "ql_holds q (vs @ [v])"
  show "\<exists>q'. pop_tail decimal q = Some (Some v, q') \<and> ql_holds q' vs"
    using drop_tail_rep [OF h] is_val_write [OF itoa_spec_decimal] by (auto simp: pop_tail_def)
next
  fix q assume "ql_holds q []"
  from ends_empty [OF this] show "pop_head decimal q = Some (None, q) \<and> pop_tail decimal q = Some (None, q)"
    by (simp add: pop_head_def pop_tail_def)
qed

lemma itoa_decimal: "itoa_spec itoa \<Longrightarrow> itoa = decimal"
  by (auto simp: itoa_spec_def)

lemma from_values_rep: "\<exists>q. from_values fill vs = Some q \<and> ql_holds q vs"
  using push_all_rep [OF ql_holds_new, of fill vs] by (simp add: from_values_def)

subsection \<open>Properties\<close>

text \<open>C34. The ends of a quicklist that holds the strings \<open>vs\<close>: building one from values holds exactly these; a push
  never fails and adds the string at its end; a pop returns the string at its end, text of integers
  included, and removes it, or returns nothing on the empty list, whatever the fill limit makes of the nodes.\<close>

theorem quicklist_ends:
  assumes "itoa_spec itoa" and "ql_holds q vs"
  shows "(\<exists>q0. from_values fill ws = Some q0 \<and> ql_holds q0 ws)
    \<and> (\<exists>b q'. push_head q v = Some (b, q') \<and> ql_holds q' (v # vs)) \<and> (\<exists>b q'. push_tail q v = Some (b, q') \<and> ql_holds q' (vs @ [v]))
    \<and> (if vs = [] then pop_head itoa q = Some (None, q) \<and> pop_tail itoa q = Some (None, q)
       else (\<exists>q'. pop_head itoa q = Some (Some (hd vs), q') \<and> ql_holds q' (tl vs))
         \<and> (\<exists>q'. pop_tail itoa q = Some (Some (last vs), q') \<and> ql_holds q' (butlast vs)))"
proof -
  have it: "itoa = decimal" using assms(1) by (rule itoa_decimal)
  have "\<exists>q'. pop_head itoa q = Some (Some (hd vs), q') \<and> ql_holds q' (tl vs)" if "vs \<noteq> []"
    using that assms quicklist_deque.poph [of q "hd vs" "tl vs"] by (simp add: it)
  moreover have "\<exists>q'. pop_tail itoa q = Some (Some (last vs), q') \<and> ql_holds q' (butlast vs)" if "vs \<noteq> []"
    using that assms quicklist_deque.popt [of q "butlast vs" "last vs"] by (simp add: it)
  ultimately show ?thesis using from_values_rep [of fill ws] quicklist_deque.pushh [OF assms(2), of v] quicklist_deque.pusht [OF assms(2), of v]
    quicklist_deque.pop_empty [of q] assms by (cases vs) (simp_all add: it)
qed

theorem quicklist_ends_witness:
  "\<exists>q q'. from_values 1 [[97], [52, 50]] = Some q \<and> pop_tail decimal q = Some (Some [52, 50], q') \<and> ql_holds q' [[97]]"
proof -
  obtain q where q: "from_values 1 [[97], [52, 50]] = Some q" "ql_holds q [[97], [52, 50]]" using from_values_rep by blast
  from quicklist_ends [OF itoa_spec_decimal q(2)] q(1) show ?thesis by auto
qed



text \<open>C35. \<^verbatim>\<open>remove_value\<close> (\<^verbatim>\<open>LREM\<close>) removes the first occurrences of the string from the head, or the last ones when the
  count is negative, up to that many, or all of them for count 0, and returns how many there were; every other
  string keeps its place.\<close>

theorem quicklist_remove_value:
  assumes "ql_holds q vs" and "length vs < 2 ^ 64"
  shows "\<exists>q'. remove_value q v count = Some (if count = 0 then count_list vs v else min (nat \<bar>count\<bar>) (count_list vs v), q')
    \<and> ql_holds q' (if count = 0 then filter (\<lambda>x. x \<noteq> v) vs else if count < 0 then rev (remove_n (nat \<bar>count\<bar>) v (rev vs)) else remove_n (nat count) v vs)"
proof (cases "count = 0")
  case True
  have "count_list vs v \<le> 2 ^ 64 - 1" using assms(2) count_le_length [of vs v] by linarith
  then show ?thesis using remove_loop_rep [OF assms(1), of 0 "2 ^ 64 - 1" v False] True
    by (simp add: remove_value_def seen_def remove_n_all min_absorb2)
next
  case False
  then show ?thesis using remove_loop_rep [OF assms(1), of 0 "nat \<bar>count\<bar>" v "count < 0"] by (auto simp: remove_value_def seen_def)
qed

theorem quicklist_remove_value_witness:
  "\<exists>q q'. from_values 2 [[97], [98], [97]] = Some q \<and> remove_value q [97] (- 1) = Some (1, q') \<and> ql_holds q' [[97], [98]]"
proof -
  obtain q where q: "from_values 2 [[97], [98], [97]] = Some q" "ql_holds q [[97], [98], [97]]" using from_values_rep by blast
  have "length [[97 :: byte], [98], [97]] < 2 ^ 64" by simp
  from quicklist_remove_value [OF q(2) this, of "[97]" "- 1"] q(1) show ?thesis by auto
qed

text \<open>Reading a quicklist: the index operation, both iterators (run by the searches from either end) and the
  search for a string agree with the list of strings.\<close>

theorem quicklist_reads:
  assumes "ql_holds q vs"
  shows "rel_option is_val (ql_index q index) (seq_get vs index) \<and> ql_len q = length vs
    \<and> position q v = find_first v vs \<and> rposition q v = map_option (\<lambda>k. length vs - 1 - k) (find_first v (rev vs))"
  using ql_index_rep [OF assms] position_rep [OF assms] rposition_rep [OF assms] ql_holds_count [OF assms] by (simp add: ql_len_def)

theorem quicklist_reads_witness:
  "\<exists>q. from_values 1 [[97], [98], [97]] = Some q \<and> position q [97] = Some 0 \<and> rposition q [97] = Some 2 \<and> rposition q [99] = None"
proof -
  obtain q where q: "from_values 1 [[97], [98], [97]] = Some q" "ql_holds q [[97], [98], [97]]" using from_values_rep by blast
  from quicklist_reads [OF q(2), of 0 "[97]"] quicklist_reads [OF q(2), of 0 "[99]"] q(1) show ?thesis by simp
qed

end
