(* ===== verification/Rax.thy ===== *)
theory Rax
  imports Prelude "HOL-Library.Monad_Syntax"
begin

text \<open>
  The compressed radix tree of \<^verbatim>\<open>src/src/encoding/rax.rs\<close>: an arena of nodes with a free list. A node's \<open>chars\<close> are the one-byte labels
  of its children or, when it is compressed, the longer label of its only child. Indexing out of range panics, which is
  \<open>None\<close>; so is a walk that would not return. Node indices are naturals (the code casts them to 32 bits). The borrowed keys
  and values an iterator lends are its results here; \<^verbatim>\<open>mem_usage\<close>, which sums capacities, is left out.
\<close>

subsection \<open>Nodes\<close>

definition ROOT :: nat where "ROOT = 0"

datatype seek_op = Ge | Gt | Le | Lt

record 'v rnode =
  chars :: bytes
  children :: "nat list"
  compressed :: bool
  rvalue :: "'v option"

definition leaf_node :: "'v rnode" where
  "leaf_node = \<lparr>chars = [], children = [], compressed = False, rvalue = None\<rparr>"

record rframe =
  fr_node :: nat
  fr_child :: nat
  fr_klen :: nat

record 'v rax =
  rx_nodes :: "'v rnode list"
  rx_free :: "nat list"
  numele :: nat

definition rax_new :: "'v rax" where
  "rax_new = \<lparr>rx_nodes = [leaf_node], rx_free = [], numele = 0\<rparr>"

definition rax_len :: "'v rax \<Rightarrow> nat" where
  "rax_len r = numele r"

definition rax_is_empty :: "'v rax \<Rightarrow> bool" where
  "rax_is_empty r \<longleftrightarrow> numele r = 0"

definition rax_node_count :: "'v rax \<Rightarrow> nat" where
  "rax_node_count r = length (rx_nodes r) - length (rx_free r)"

definition node :: "'v rax \<Rightarrow> nat \<Rightarrow> 'v rnode option" where
  "node r i = nth_opt (rx_nodes r) i"

definition set_node :: "'v rax \<Rightarrow> nat \<Rightarrow> 'v rnode \<Rightarrow> 'v rax option" where
  "set_node r i n = (if i < length (rx_nodes r) then Some (r\<lparr>rx_nodes := (rx_nodes r)[i := n]\<rparr>) else None)"

definition rax_alloc :: "'v rax \<Rightarrow> 'v rnode \<Rightarrow> (nat \<times> 'v rax) option" where
  "rax_alloc r n =
     (if rx_free r \<noteq> [] then
        (let i = last (rx_free r) in
         do { r \<leftarrow> set_node (r\<lparr>rx_free := butlast (rx_free r)\<rparr>) i n; Some (i, r) })
      else Some (length (rx_nodes r), r\<lparr>rx_nodes := rx_nodes r @ [n]\<rparr>))"

definition rax_release :: "'v rax \<Rightarrow> nat \<Rightarrow> 'v rax option" where
  "rax_release r i = do { r \<leftarrow> set_node r i leaf_node; Some (r\<lparr>rx_free := rx_free r @ [i]\<rparr>) }"

definition labelled :: "'v rax \<Rightarrow> bytes \<Rightarrow> nat \<Rightarrow> (nat \<times> 'v rax) option" where
  "labelled r label child = rax_alloc r \<lparr>chars = label, children = [child], compressed = length label > 1, rvalue = None\<rparr>"

subsection \<open>Lookup\<close>

text \<open>The library's binary search and partition point, on ascending slices.\<close>

definition partition_point :: "bytes \<Rightarrow> byte \<Rightarrow> nat" where
  "partition_point cs c = length (takeWhile (\<lambda>x. x < c) cs)"

definition bsearch :: "bytes \<Rightarrow> byte \<Rightarrow> nat + nat" where
  "bsearch cs c = (let p = partition_point cs c in if nth_opt cs p = Some c then Inr p else Inl p)"

text \<open>How many bytes a label shares with the key.\<close>

fun matched :: "bytes \<Rightarrow> bytes \<Rightarrow> nat" where
  "matched (a # as) (b # bs) = (if a = b then Suc (matched as bs) else 0)"
| "matched _ _ = 0"

partial_function (option) walk :: "'v rax \<Rightarrow> bytes \<Rightarrow> nat \<Rightarrow> nat \<Rightarrow> rframe list \<Rightarrow> (nat \<times> nat \<times> nat \<times> rframe list) option" where
  "walk r key cur i stack = do {
     n \<leftarrow> node r cur;
     if children n = [] \<or> i = length key then Some (cur, i, 0, stack)
     else if compressed n then
       (let j = matched (chars n) (drop i key) in
        if j \<noteq> length (chars n) then Some (cur, i + j, j, stack)
        else do {
          c \<leftarrow> nth_opt (children n) 0;
          walk r key c (i + length (chars n)) (\<lparr>fr_node = cur, fr_child = 0, fr_klen = i\<rparr> # stack) })
     else do {
       k \<leftarrow> nth_opt key i;
       (case bsearch (chars n) k of
          Inl _ \<Rightarrow> Some (cur, i, 0, stack)
        | Inr j \<Rightarrow> do {
            c \<leftarrow> nth_opt (children n) j;
            walk r key c (i + 1) (\<lparr>fr_node = cur, fr_child = j, fr_klen = i\<rparr> # stack) }) } }"

definition rax_find :: "'v rax \<Rightarrow> bytes \<Rightarrow> 'v option option" where
  "rax_find r key = do {
     (n, consumed, split, _) \<leftarrow> walk r key ROOT 0 [];
     if consumed \<noteq> length key \<or> split \<noteq> 0 then Some None
     else do { nd \<leftarrow> node r n; Some (rvalue nd) } }"

text \<open>The mutable lookup, with what its caller does to the value.\<close>

definition rax_find_mut :: "'v rax \<Rightarrow> bytes \<Rightarrow> ('v \<Rightarrow> 'v) \<Rightarrow> 'v rax option" where
  "rax_find_mut r key f = do {
     (n, consumed, split, _) \<leftarrow> walk r key ROOT 0 [];
     if consumed \<noteq> length key \<or> split \<noteq> 0 then Some r
     else do { nd \<leftarrow> node r n; set_node r n (nd\<lparr>rvalue := map_option f (rvalue nd)\<rparr>) } }"

definition rax_contains_key :: "'v rax \<Rightarrow> bytes \<Rightarrow> bool option" where
  "rax_contains_key r key = do { v \<leftarrow> rax_find r key; Some (v \<noteq> None) }"

subsection \<open>Insertion\<close>

text \<open>The walk of \<^verbatim>\<open>insert\<close>: the node it stops at, the bytes consumed and, when it diverges inside a label, after how many bytes.\<close>

partial_function (option) insert_walk :: "'v rax \<Rightarrow> bytes \<Rightarrow> nat \<Rightarrow> nat \<Rightarrow> (nat \<times> nat \<times> nat option) option" where
  "insert_walk r key cur i =
     (if i = length key then Some (cur, i, None)
      else do {
        n \<leftarrow> node r cur;
        if children n = [] then Some (cur, i, None)
        else if compressed n then
          (let m = matched (chars n) (drop i key) in
           if m = length (chars n) then do { c \<leftarrow> nth_opt (children n) 0; insert_walk r key c (i + m) }
           else Some (cur, i + m, Some m))
        else do {
          k \<leftarrow> nth_opt key i;
          (case bsearch (chars n) k of
             Inl _ \<Rightarrow> Some (cur, i, None)
           | Inr j \<Rightarrow> do { c \<leftarrow> nth_opt (children n) j; insert_walk r key c (i + 1) }) } })"

definition split_compressed :: "'v rax \<Rightarrow> nat \<Rightarrow> nat \<Rightarrow> (nat \<times> 'v rax) option" where
  "split_compressed r i m = do {
     n \<leftarrow> node r i;
     (let label = chars n in do {
        child \<leftarrow> nth_opt (children n) 0;
        (tail, r) \<leftarrow> (if m + 1 < length label then labelled r (drop (m + 1) label) child else Some (child, r));
        n \<leftarrow> node r i;
        if m = 0 then do {
          r \<leftarrow> set_node r i (n\<lparr>chars := take 1 label, children := [tail], compressed := False\<rparr>);
          Some (i, r) }
        else do {
          (mid, r) \<leftarrow> rax_alloc r \<lparr>chars = take 1 (drop m label), children = [tail], compressed = False, rvalue = None\<rparr>;
          n \<leftarrow> node r i;
          r \<leftarrow> set_node r i (n\<lparr>chars := take m label, children := [mid], compressed := m > 1\<rparr>);
          Some (mid, r) } }) }"

definition vec_insert :: "nat \<Rightarrow> 'a \<Rightarrow> 'a list \<Rightarrow> 'a list" where
  "vec_insert i x xs = take i xs @ x # drop i xs"

text \<open>Hanging the rest of the key, which is not empty, under the node where the walk ended.\<close>

definition extend :: "'v rax \<Rightarrow> nat \<Rightarrow> bytes \<Rightarrow> 'v \<Rightarrow> 'v rax option" where
  "extend r cur rest v = do {
     (leaf, r) \<leftarrow> rax_alloc r leaf_node;
     n \<leftarrow> node r cur;
     r \<leftarrow> (if children n = [] \<and> length rest > 1
           then set_node r cur (n\<lparr>chars := rest, children := [leaf], compressed := True\<rparr>)
           else do {
             first \<leftarrow> nth_opt rest 0;
             (child, r) \<leftarrow> (if length rest > 1 then labelled r (drop 1 rest) leaf else Some (leaf, r));
             n \<leftarrow> node r cur;
             (let at = partition_point (chars n) first in
              set_node r cur (n\<lparr>chars := vec_insert at first (chars n), children := vec_insert at child (children n), compressed := False\<rparr>)) });
     l \<leftarrow> node r leaf;
     r \<leftarrow> set_node r leaf (l\<lparr>rvalue := Some v\<rparr>);
     Some (r\<lparr>numele := numele r + 1\<rparr>) }"

definition rax_insert :: "'v rax \<Rightarrow> bytes \<Rightarrow> 'v \<Rightarrow> ('v option \<times> 'v rax) option" where
  "rax_insert r key v = do {
     (cur, i, sp) \<leftarrow> insert_walk r key ROOT 0;
     (cur, r) \<leftarrow> (case sp of None \<Rightarrow> Some (cur, r) | Some m \<Rightarrow> split_compressed r cur m);
     if i = length key then do {
       n \<leftarrow> node r cur;
       r \<leftarrow> set_node r cur (n\<lparr>rvalue := Some v\<rparr>);
       Some (rvalue n, if rvalue n = None then r\<lparr>numele := numele r + 1\<rparr> else r) }
     else do { r \<leftarrow> extend r cur (drop i key) v; Some (None, r) } }"

subsection \<open>Removal\<close>

text \<open>Pruning the dead leaves up the path, then merging chains up the rest of it.\<close>

definition remove_edge :: "'v rnode \<Rightarrow> nat \<Rightarrow> 'v rnode option" where
  "remove_edge p idx =
     (if idx < length (chars p) \<and> idx < length (children p) then
        (let p = p\<lparr>chars := take idx (chars p) @ drop (idx + 1) (chars p), children := take idx (children p) @ drop (idx + 1) (children p)\<rparr>
         in Some (if compressed p then p\<lparr>chars := [], compressed := False\<rparr> else p))
      else None)"

fun prune :: "'v rax \<Rightarrow> nat \<Rightarrow> rframe list \<Rightarrow> (nat \<times> rframe list \<times> 'v rax) option" where
  "prune r i [] = do { n \<leftarrow> node r i; Some (i, [], r) }"
| "prune r i (f # fs) = do {
     n \<leftarrow> node r i;
     if i \<noteq> ROOT \<and> children n = [] \<and> rvalue n = None then do {
       p \<leftarrow> node r (fr_node f);
       p \<leftarrow> remove_edge p (fr_child f);
       r \<leftarrow> set_node r (fr_node f) p;
       r \<leftarrow> rax_release r i;
       prune r (fr_node f) fs }
     else Some (i, f # fs, r) }"

partial_function (option) merge_chain :: "'v rax \<Rightarrow> nat \<Rightarrow> 'v rax option" where
  "merge_chain r i = do {
     n \<leftarrow> node r i;
     if length (children n) \<noteq> 1 then Some r
     else do {
       child \<leftarrow> nth_opt (children n) 0;
       c \<leftarrow> node r child;
       if rvalue c \<noteq> None \<or> length (children c) \<noteq> 1 then Some r
       else do {
         cchild \<leftarrow> nth_opt (children c) 0;
         (let label = chars n @ chars c in do {
            r \<leftarrow> set_node r i (n\<lparr>chars := label, children := [cchild], compressed := length label > 1\<rparr>);
            r \<leftarrow> rax_release r child;
            merge_chain r i }) } } }"

fun merge_up :: "'v rax \<Rightarrow> rframe list \<Rightarrow> 'v rax option" where
  "merge_up r [] = Some r"
| "merge_up r (f # fs) = do { r \<leftarrow> merge_chain r (fr_node f); merge_up r fs }"

definition rax_remove :: "'v rax \<Rightarrow> bytes \<Rightarrow> ('v option \<times> 'v rax) option" where
  "rax_remove r key = do {
     (cur, consumed, split, stack) \<leftarrow> walk r key ROOT 0 [];
     if consumed \<noteq> length key \<or> split \<noteq> 0 then Some (None, r)
     else do {
       n \<leftarrow> node r cur;
       (case rvalue n of
          None \<Rightarrow> Some (None, r)
        | Some old \<Rightarrow> do {
            r \<leftarrow> set_node r cur (n\<lparr>rvalue := None\<rparr>);
            (let r = r\<lparr>numele := numele r - 1\<rparr> in do {
               (i, stack, r) \<leftarrow> prune r cur stack;
               r \<leftarrow> merge_chain r i;
               r \<leftarrow> merge_up r stack;
               Some (Some old, r) }) }) } }"

definition rax_clear :: "'v rax \<Rightarrow> 'v rax" where
  "rax_clear r = \<lparr>rx_nodes = [leaf_node], rx_free = [], numele = 0\<rparr>"

declare walk.simps [code] insert_walk.simps [code] merge_chain.simps [code]

end
