(* ===== verification/Rax_Tree.thy ===== *)
theory Rax_Tree
  imports Rax "HOL-Library.Sublist" "HOL-Library.List_Lexorder" "HOL-Library.Multiset"
begin

text \<open>
  The radix tree is a finite map from byte strings. The arena is read as a tree whose nodes carry their indices; a position in
  it is a subtree and the path of contexts above it, which is what the code's stacks of frames stand for.
\<close>

subsection \<open>Trees\<close>

datatype 'v rt = RT (tid: nat) (tval: "'v option") (edges: "(bytes \<times> 'v rt) list")

definition node_of :: "'v rt \<Rightarrow> 'v rnode" where
  "node_of t = \<lparr>chars = concat (map fst (edges t)), children = map (tid \<circ> snd) (edges t),
     compressed = length (concat (map fst (edges t))) > length (edges t), rvalue = tval t\<rparr>"

fun ids :: "'v rt \<Rightarrow> nat list" where
  "ids (RT i v es) = i # concat (map (\<lambda>(l, s). ids s) es)"

fun owns :: "'v rax \<Rightarrow> 'v rt \<Rightarrow> bool" where
  "owns r (RT i v es) \<longleftrightarrow> node r i = Some (node_of (RT i v es)) \<and> (\<forall>(l, s) \<in> set es. owns r s)"

definition alive :: "'v rt \<Rightarrow> bool" where
  "alive t \<longleftrightarrow> tval t \<noteq> None \<or> edges t \<noteq> []"

text \<open>The labels of a node: one label of any length, or single bytes in ascending order.\<close>

definition labels_ok :: "bytes list \<Rightarrow> bool" where
  "labels_ok ls \<longleftrightarrow> [] \<notin> set ls \<and> (length ls \<noteq> 1 \<longrightarrow> (\<forall>l \<in> set ls. length l = 1)) \<and> sorted_wrt (<) (map hd ls)"

fun rt_wf :: "'v rt \<Rightarrow> bool" where
  "rt_wf (RT i v es) \<longleftrightarrow> labels_ok (map fst es) \<and> (\<forall>(l, s) \<in> set es. rt_wf s \<and> alive s)"

definition below :: "bytes \<Rightarrow> (bytes \<times> 'v) list \<Rightarrow> (bytes \<times> 'v) list" where
  "below p xs = map (\<lambda>(k, x). (p @ k, x)) xs"

definition own :: "'v option \<Rightarrow> (bytes \<times> 'v) list" where
  "own v = (case v of None \<Rightarrow> [] | Some x \<Rightarrow> [([], x)])"

text \<open>What a tree rax_holds, in order.\<close>

fun pairs :: "'v rt \<Rightarrow> (bytes \<times> 'v) list" where
  "pairs (RT i v es) = own v @ concat (map (\<lambda>(l, s). below l (pairs s)) es)"

definition kids :: "(bytes \<times> 'v rt) list \<Rightarrow> (bytes \<times> 'v) list" where
  "kids es = concat (map (\<lambda>(l, s). below l (pairs s)) es)"

lemma pairs_RT [simp]: "pairs (RT i v es) = own v @ kids es"
  by (simp add: kids_def)

declare pairs.simps [simp del]

lemma kids_simps [simp]: "kids [] = []" "kids ((l, s) # es) = below l (pairs s) @ kids es" "kids (es @ es') = kids es @ kids es'"
  by (simp_all add: kids_def)

lemma rt_induct [case_names RT]: "(\<And>i v es. (\<And>l s. (l, s) \<in> set es \<Longrightarrow> P s) \<Longrightarrow> P (RT i v es)) \<Longrightarrow> P t"
  by (induction t) (metis snds.intros snd_conv)

lemma below_simps [simp]: "below p [] = []" "below p (x # xs) = (p @ fst x, snd x) # below p xs" "below p (xs @ ys) = below p xs @ below p ys" "below [] xs = xs"
  "below p (below q xs) = below (p @ q) xs" "length (below p xs) = length xs" "below p xs = [] \<longleftrightarrow> xs = []"
  by (simp_all add: below_def case_prod_beta comp_def)

lemma below_concat: "below p (concat xss) = concat (map (below p) xss)"
  by (induction xss) simp_all

subsection \<open>Positions\<close>

datatype 'v cx = Cx nat "'v option" "(bytes \<times> 'v rt) list" bytes "(bytes \<times> 'v rt) list"

fun plug :: "'v cx list \<Rightarrow> 'v rt \<Rightarrow> 'v rt" where
  "plug [] s = s"
| "plug (Cx i v L l R # fs) s = plug fs (RT i v (L @ (l, s) # R))"

fun pos :: "'v cx list \<Rightarrow> bytes" where
  "pos [] = []"
| "pos (Cx i v L l R # fs) = pos fs @ l"

fun frames :: "'v cx list \<Rightarrow> rframe list" where
  "frames [] = []"
| "frames (Cx i v L l R # fs) = \<lparr>fr_node = i, fr_child = length L, fr_klen = length (pos fs)\<rparr> # frames fs"

fun before :: "'v cx list \<Rightarrow> (bytes \<times> 'v) list" where
  "before [] = []"
| "before (Cx i v L l R # fs) = before fs @ below (pos fs) (own v @ kids L)"

fun after :: "'v cx list \<Rightarrow> (bytes \<times> 'v) list" where
  "after [] = []"
| "after (Cx i v L l R # fs) = below (pos fs) (kids R) @ after fs"

lemma pairs_plug: "pairs (plug fs s) = before fs @ below (pos fs) (pairs s) @ after fs"
  by (induction fs s rule: plug.induct) simp_all

fun cx_wf :: "'v cx list \<Rightarrow> bool" where
  "cx_wf [] \<longleftrightarrow> True"
| "cx_wf (Cx i v L l R # fs) \<longleftrightarrow> labels_ok (map fst L @ l # map fst R) \<and> (\<forall>(l, s) \<in> set (L @ R). rt_wf s \<and> alive s) \<and> cx_wf fs"

lemma wf_plug: "rt_wf (plug fs s) \<longleftrightarrow> cx_wf fs \<and> rt_wf s \<and> (fs = [] \<or> alive s)"
  by (induction fs s rule: plug.induct) (auto simp: alive_def)

fun cx_ids :: "'v cx list \<Rightarrow> nat list" where
  "cx_ids [] = []"
| "cx_ids (Cx i v L l R # fs) = i # concat (map (\<lambda>(l, s). ids s) (L @ R)) @ cx_ids fs"

lemma ids_plug: "mset (ids (plug fs s)) = mset (ids s) + mset (cx_ids fs)"
  by (induction fs s rule: plug.induct) (simp_all add: ac_simps)

fun cx_owns :: "'v rax \<Rightarrow> 'v cx list \<Rightarrow> nat \<Rightarrow> bool" where
  "cx_owns r [] j \<longleftrightarrow> True"
| "cx_owns r (Cx i v L l R # fs) j \<longleftrightarrow> node r i = Some (node_of (RT i v (L @ (l, RT j None []) # R))) \<and> (\<forall>(l, s) \<in> set (L @ R). owns r s) \<and> cx_owns r fs i"

lemma owns_plug: "owns r (plug fs s) \<longleftrightarrow> owns r s \<and> cx_owns r fs (tid s)"
  by (induction fs s rule: plug.induct) (auto simp: node_of_def)

lemma ids_root: "tid s \<in> set (ids s)"
  by (cases s) simp


lemma owns_cong: "(\<forall>j \<in> set (ids t). node r' j = node r j) \<Longrightarrow> owns r t \<Longrightarrow> owns r' t"
proof (induction t rule: rt_induct)
  case (RT i v es)
  have "owns r' s" if "(l, s) \<in> set es" for l s
    by (rule RT.IH [OF that]) (use RT.prems that in force)+
  then show ?case using RT.prems by auto
qed

lemma cx_owns_cong: "(\<forall>j \<in> set (cx_ids fs). node r' j = node r j) \<Longrightarrow> cx_owns r fs i \<Longrightarrow> cx_owns r' fs i"
proof (induction fs arbitrary: i)
  case (Cons f fs)
  obtain j v L l R where f: "f = Cx j v L l R" by (cases f) auto
  have "owns r' s" if "(l', s) \<in> set (L @ R)" for l' s
  proof (rule owns_cong)
    have "set (ids s) \<subseteq> set (cx_ids (f # fs))" using that by (force simp: f)
    then show "\<forall>j\<in>set (ids s). node r' j = node r j" using Cons.prems(1) by blast
    show "owns r s" using Cons.prems(2) that f by auto
  qed
  moreover have "cx_owns r' fs j" using Cons f by auto
  ultimately show ?case using Cons.prems f by auto
qed simp

subsection \<open>The arena\<close>

text \<open>The nodes in use and the free list are exactly the arena's indices, each once.\<close>

definition covers :: "'v rax \<Rightarrow> nat multiset \<Rightarrow> bool" where
  "covers r M \<longleftrightarrow> M + mset (rx_free r) = mset [0..<length (rx_nodes r)]"

lemma coversD:
  assumes "covers r M"
  shows covers_count: "count M j \<le> 1" and covers_lt: "j \<in># M \<Longrightarrow> j < length (rx_nodes r)"
    and covers_free: "j \<in> set (rx_free r) \<Longrightarrow> j < length (rx_nodes r) \<and> j \<notin># M"
proof -
  let ?A = "mset [0..<length (rx_nodes r)]"
  have A: "M + mset (rx_free r) = ?A" using assms by (simp add: covers_def)
  have c: "count ?A x \<le> 1" for x by (subst distinct_count_atmost_1 [THEN iffD1]) auto
  have m: "x \<in># M + mset (rx_free r) \<longleftrightarrow> x < length (rx_nodes r)" for x unfolding A by simp
  show "count M j \<le> 1" using c [of j] A by (metis count_union le_add1 le_trans)
  show "j \<in># M \<Longrightarrow> j < length (rx_nodes r)" using m [of j] by simp
  assume f: "j \<in> set (rx_free r)"
  have "count M j + count (mset (rx_free r)) j \<le> 1" using c [of j] A by (metis count_union)
  moreover have "0 < count (mset (rx_free r)) j" using f by (metis count_greater_zero_iff set_mset_mset)
  ultimately have "count M j = 0" by linarith
  then have "j \<notin># M" by (simp add: not_in_iff)
  then show "j < length (rx_nodes r) \<and> j \<notin># M" using f m [of j] by simp
qed

lemma node_Some: "node r i = Some n \<longleftrightarrow> i < length (rx_nodes r) \<and> rx_nodes r ! i = n"
  by (auto simp: node_def nth_opt_def)

lemma node_upd [simp]: "node (numele_update f r) = node r" "node (rx_free_update g r) = node r"
  by (simp_all add: node_def fun_eq_iff)

lemma covers_upd [simp]: "covers (numele_update f r) = covers r"
  by (simp add: covers_def fun_eq_iff)

lemma set_node_ok:
  assumes "covers r M" "i \<in># M"
  obtains r' where "set_node r i n = Some r'" "covers r' M" "node r' i = Some n" "\<And>j. j \<noteq> i \<Longrightarrow> node r' j = node r j" "numele r' = numele r"
proof
  show "set_node r i n = Some (r\<lparr>rx_nodes := (rx_nodes r)[i := n]\<rparr>)" using covers_lt [OF assms] by (simp add: set_node_def)
  show "node (r\<lparr>rx_nodes := (rx_nodes r)[i := n]\<rparr>) i = Some n" using covers_lt [OF assms] by (simp add: node_Some)
qed (use assms in \<open>simp_all add: covers_def node_def nth_opt_def\<close>)

lemma rax_alloc_ok:
  assumes "covers r M"
  obtains i r' where "rax_alloc r n = Some (i, r')" "covers r' (add_mset i M)" "i \<notin># M" "node r' i = Some n"
    "\<And>j. j \<in># M \<Longrightarrow> node r' j = node r j" "numele r' = numele r"
proof (cases "rx_free r = []")
  case True
  let ?i = "length (rx_nodes r)"
  have ni: "?i \<notin># M" using covers_lt [OF assms] by blast
  show thesis
  proof (rule that)
    show "rax_alloc r n = Some (?i, r\<lparr>rx_nodes := rx_nodes r @ [n]\<rparr>)" using True by (simp add: rax_alloc_def)
    show "node (r\<lparr>rx_nodes := rx_nodes r @ [n]\<rparr>) j = node r j" if "j \<in># M" for j
      using covers_lt [OF assms that] by (simp add: node_def nth_opt_def nth_append)
  qed (use assms True ni in \<open>simp_all add: covers_def node_Some\<close>)
next
  case False
  let ?i = "last (rx_free r)"
  let ?r = "r\<lparr>rx_free := butlast (rx_free r)\<rparr>"
  have f: "rx_free r = butlast (rx_free r) @ [?i]" using False by simp
  have i: "?i < length (rx_nodes r)" "?i \<notin># M" using covers_free [OF assms, of ?i] False by simp_all
  have "mset (rx_free r) = add_mset ?i (mset (butlast (rx_free r)))" by (subst f) simp
  then have c: "covers ?r (add_mset ?i M)" using assms by (simp add: covers_def)
  obtain r' where r': "set_node ?r ?i n = Some r'" "covers r' (add_mset ?i M)" "node r' ?i = Some n" "\<And>j. j \<noteq> ?i \<Longrightarrow> node r' j = node ?r j" "numele r' = numele ?r"
    using set_node_ok [OF c, of ?i n] by auto
  show thesis
    by (rule that [of ?i r']) (use r' i False in \<open>simp_all add: rax_alloc_def, metis\<close>)
qed

lemma rax_release_ok:
  assumes "covers r (add_mset i M)"
  obtains r' where "rax_release r i = Some r'" "covers r' M" "\<And>j. j \<in># M \<Longrightarrow> node r' j = node r j" "numele r' = numele r"
proof -
  obtain r' where r': "set_node r i leaf_node = Some r'" "covers r' (add_mset i M)" "\<And>j. j \<noteq> i \<Longrightarrow> node r' j = node r j" "numele r' = numele r"
    using set_node_ok [OF assms, of i leaf_node] by auto
  have ni: "i \<notin># M" using covers_count [OF assms, of i] by (simp add: not_in_iff)
  show thesis
    by (rule that [of "r'\<lparr>rx_free := rx_free r' @ [i]\<rparr>"]) (use r' ni in \<open>simp_all add: rax_release_def covers_def, metis\<close>)
qed

subsection \<open>Order\<close>

lemma less_append_same [simp]: "p @ a < p @ b \<longleftrightarrow> a < (b :: bytes)"
  by (induction p) simp_all

lemma less_hd: "a \<noteq> [] \<Longrightarrow> b \<noteq> [] \<Longrightarrow> hd a < hd b \<Longrightarrow> a @ x < b @ (y :: bytes)"
  by (cases a; cases b) simp_all

lemma less_prefix [simp]: "a < a @ (b :: bytes) \<longleftrightarrow> b \<noteq> []"
  using less_append_same [of a "[]" b] by (cases b) simp_all

lemma in_below [simp]: "(k, x) \<in> set (below p xs) \<longleftrightarrow> (\<exists>k'. k = p @ k' \<and> (k', x) \<in> set xs)"
  by (force simp: below_def)

lemma in_own [simp]: "(k, x) \<in> set (own v) \<longleftrightarrow> k = [] \<and> v = Some x"
  by (auto simp: own_def split: option.splits)

lemma own_None [simp]: "own None = []" and own_Some [simp]: "own (Some x) = [([], x)]"
  by (simp_all add: own_def)

lemma in_kids: "(k, x) \<in> set (kids es) \<longleftrightarrow> (\<exists>l s k'. (l, s) \<in> set es \<and> k = l @ k' \<and> (k', x) \<in> set (pairs s))"
  by (force simp: kids_def)

lemma labels_ok_split:
  "labels_ok (K @ l # K') \<longleftrightarrow> l \<noteq> [] \<and> [] \<notin> set K \<and> [] \<notin> set K' \<and> (K @ K' \<noteq> [] \<longrightarrow> length l = 1 \<and> (\<forall>m \<in> set (K @ K'). length m = 1)) \<and>
     (\<forall>m \<in> set K. hd m < hd l) \<and> (\<forall>m \<in> set K'. hd l < hd m) \<and> sorted_wrt (<) (map hd (K @ K'))"
  by (auto simp: labels_ok_def sorted_wrt_append)

lemma labels_ok_remove: "labels_ok (K @ l # K') \<Longrightarrow> labels_ok (K @ K')"
  by (auto simp: labels_ok_def sorted_wrt_append)

lemma edge_less:
  assumes "labels_ok (map fst L @ l # map fst R)"
  shows "(m, s) \<in> set L \<Longrightarrow> m @ x < l @ y" "(m, s) \<in> set R \<Longrightarrow> l @ x < m @ y"
proof -
  have "l \<noteq> []" "\<forall>m \<in> set (map fst L). m \<noteq> [] \<and> hd m < hd l" "\<forall>m \<in> set (map fst R). m \<noteq> [] \<and> hd l < hd m"
    using assms by (auto simp: labels_ok_split simp del: set_map)
  then show "(m, s) \<in> set L \<Longrightarrow> m @ x < l @ y" "(m, s) \<in> set R \<Longrightarrow> l @ x < m @ y"
    by (auto intro!: less_hd)
qed

lemma before_less: "cx_wf fs \<Longrightarrow> (k, x) \<in> set (before fs) \<Longrightarrow> k < pos fs @ z"
proof (induction fs arbitrary: z)
  case (Cons f fs)
  obtain i v L l R where f: "f = Cx i v L l R" by (cases f) auto
  have w: "labels_ok (map fst L @ l # map fst R)" "cx_wf fs" using Cons.prems f by simp_all
  have "l \<noteq> []" using w by (simp add: labels_ok_split)
  then have "[] < l @ z" by (cases l) simp_all
  then show ?case using Cons.prems Cons.IH [of "l @ z"] edge_less(1) [OF w(1)] by (auto simp: f in_kids)
qed simp

lemma after_greater: "cx_wf fs \<Longrightarrow> (k, x) \<in> set (after fs) \<Longrightarrow> pos fs @ z < k"
proof (induction fs arbitrary: z)
  case (Cons f fs)
  obtain i v L l R where f: "f = Cx i v L l R" by (cases f) auto
  have w: "labels_ok (map fst L @ l # map fst R)" "cx_wf fs" using Cons.prems f by simp_all
  then show ?case using Cons.prems Cons.IH [of "l @ z"] edge_less(2) [OF w(1)] by (auto simp: f in_kids)
qed simp

lemma sorted_below: "sorted_wrt (<) (map fst (below p xs)) \<longleftrightarrow> sorted_wrt (<) (map fst (xs :: (bytes \<times> 'v) list))"
  by (induction xs) (auto simp: below_def)

lemma sorted_wrt_app_fst:
  "sorted_wrt (<) (map fst (xs @ ys)) \<longleftrightarrow> sorted_wrt (<) (map fst xs) \<and> sorted_wrt (<) (map fst ys) \<and> (\<forall>k x k' x'. (k, x) \<in> set xs \<longrightarrow> (k', x') \<in> set ys \<longrightarrow> k < k')"
  by (force simp: sorted_wrt_append)

lemma sorted_kids: "labels_ok (map fst es) \<Longrightarrow> (\<And>l s. (l, s) \<in> set es \<Longrightarrow> sorted_wrt (<) (map fst (pairs s))) \<Longrightarrow> sorted_wrt (<) (map fst (kids es))"
proof (induction es)
  case (Cons e es)
  obtain l s where e: "e = (l, s)" by (cases e)
  have w: "labels_ok (map fst [] @ l # map fst es)" "labels_ok (map fst es)" using Cons.prems(1) labels_ok_remove [of "[]" l] by (simp_all add: e)
  have "sorted_wrt (<) (map fst (kids es))" by (rule Cons.IH [OF w(2)]) (use Cons.prems(2) in auto)
  moreover have "sorted_wrt (<) (map fst (pairs s))" by (rule Cons.prems(2) [of l]) (simp add: e)
  moreover have "k < k'" if "(k, x) \<in> set (below l (pairs s))" "(k', x') \<in> set (kids es)" for k k' x x'
    using that edge_less(2) [OF w(1)] by (auto simp: in_kids)
  ultimately show ?case unfolding e kids_simps sorted_wrt_app_fst sorted_below by blast
qed simp

lemma kids_nonempty: "labels_ok (map fst es) \<Longrightarrow> (k, x) \<in> set (kids es) \<Longrightarrow> k \<noteq> []"
  by (force simp: in_kids labels_ok_def)

theorem pairs_sorted: "rt_wf t \<Longrightarrow> sorted_wrt (<) (map fst (pairs t))"
proof (induction t rule: rt_induct)
  case (RT i v es)
  have l: "labels_ok (map fst es)" using RT.prems by simp
  have "sorted_wrt (<) (map fst (kids es))"
    by (rule sorted_kids [OF l]) (use RT in auto)
  then show ?case using kids_nonempty [OF l] unfolding pairs_RT sorted_wrt_app_fst by (cases v) (auto simp: neq_Nil_conv, force)
qed

lemma distinct_pairs: "rt_wf t \<Longrightarrow> distinct (map fst (pairs t))"
  using pairs_sorted [of t] by (simp add: strict_sorted_iff)

subsection \<open>Descending\<close>

text \<open>One key's way down: along a label while it is a prefix of what is left of the key. The code's walks follow it.\<close>

inductive descends :: "'v cx list \<Rightarrow> 'v rt \<Rightarrow> bytes \<Rightarrow> 'v cx list \<Rightarrow> 'v rt \<Rightarrow> bytes \<Rightarrow> bool" where
  here: "descends fs s k fs s k"
| down: "descends (Cx i v L l R # fs) c k fs' s' k' \<Longrightarrow> descends fs (RT i v (L @ (l, c) # R)) (l @ k) fs' s' k'"

definition stuck :: "'v rt \<Rightarrow> bytes \<Rightarrow> bool" where
  "stuck s k \<longleftrightarrow> k = [] \<or> (\<forall>(l, c) \<in> set (edges s). \<not> prefix l k)"

lemma descends_plug: "descends fs s k fs' s' k' \<Longrightarrow> plug fs' s' = plug fs s \<and> pos fs' @ k' = pos fs @ k"
  by (induction rule: descends.induct) simp_all

lemma descends_stuck: "\<exists>fs' s' k'. descends fs s k fs' s' k' \<and> stuck s' k'"
proof (induction s arbitrary: fs k rule: rt_induct)
  case (RT i v es)
  show ?case
  proof (cases "stuck (RT i v es) k")
    case False
    then obtain l c where lc: "(l, c) \<in> set es" "prefix l k" by (auto simp: stuck_def)
    then obtain L R k1 where "es = L @ (l, c) # R" "k = l @ k1" by (metis prefixE split_list)
    then show ?thesis using RT.IH [OF lc(1), of "Cx i v L l R # fs" k1] by (auto intro: descends.down)
  qed (auto intro: descends.here)
qed

lemma stuck_absent: "rt_wf s \<Longrightarrow> stuck s k \<Longrightarrow> k \<noteq> [] \<Longrightarrow> (k, x) \<notin> set (pairs s)"
  by (cases s) (force simp: stuck_def in_kids)

lemma labels_cases:
  assumes "labels_ok (map fst es)"
  obtains (compressed) l c where "es = [(l, c)]" "length l > 1" | (branching) bs where "map fst es = map (\<lambda>b. [b]) bs" "sorted_wrt (<) bs"
proof (cases "\<exists>l c. es = [(l, c)] \<and> length l > 1")
  case False
  have "length l = 1" if "l \<in> set (map fst es)" for l
  proof (cases "length es = 1")
    case True
    then obtain m c where e: "es = [(m, c)]" by (auto simp: length_Suc_conv)
    then have "m \<noteq> []" "\<not> length m > 1" "l = m" using assms False that by (simp_all add: labels_ok_def)
    then show ?thesis by (cases m) simp_all
  qed (use assms that in \<open>auto simp: labels_ok_def\<close>)
  then have "map fst es = map (\<lambda>b. [b]) (map (hd \<circ> fst) es)" by (simp add: map_eq_conv) (metis (no_types, lifting) One_nat_def length_0_conv length_Suc_conv list.sel(1) image_eqI set_map)
  then show thesis using branching assms by (force simp: labels_ok_def)
qed blast

lemma branching_length: "map fst es = map (\<lambda>b. [b]) bs \<Longrightarrow> length es = length bs"
  by (metis length_map)

lemma concat_bytes [simp]: "concat (map (\<lambda>b. [b]) bs) = bs"
  by (induction bs) simp_all

lemma node_of_compressed: "es = [(l, c)] \<Longrightarrow> length l > 1 \<Longrightarrow> node_of (RT i v es) = \<lparr>chars = l, children = [tid c], compressed = True, rvalue = v\<rparr>"
  by (simp add: node_of_def)

lemma node_of_branching: "map fst es = map (\<lambda>b. [b]) bs \<Longrightarrow> node_of (RT i v es) = \<lparr>chars = bs, children = map (tid \<circ> snd) es, compressed = False, rvalue = v\<rparr>"
  using branching_length [of es bs] by (simp add: node_of_def)

lemma matched_le: "matched l k \<le> length l"
  by (induction l k rule: matched.induct) simp_all

lemma matched_full: "matched l k = length l \<longleftrightarrow> prefix l k"
  by (induction l k rule: matched.induct) auto

lemma matched_take: "take (matched l k) l = take (matched l k) k"
  by (induction l k rule: matched.induct) simp_all

lemma matched_le2: "matched l k \<le> length k"
  by (induction l k rule: matched.induct) simp_all

lemma matched_differs: "matched l k < length l \<Longrightarrow> matched l k < length k \<Longrightarrow> l ! matched l k \<noteq> k ! matched l k"
  by (induction l k rule: matched.induct) (auto split: if_splits)

lemma partition_point_split: "\<forall>x \<in> set bs. x < b \<Longrightarrow> \<forall>x \<in> set cs. \<not> x < b \<Longrightarrow> partition_point (bs @ cs) b = length bs"
  by (cases cs) (simp_all add: partition_point_def takeWhile_eq_all_conv [THEN iffD2])

lemma bsearch_found: "sorted_wrt (<) (bs @ b # cs) \<Longrightarrow> bsearch (bs @ b # cs) b = Inr (length bs)"
  by (subst bsearch_def, subst partition_point_split) (auto simp: sorted_wrt_append Let_def)

lemma bsearch_absent: "b \<notin> set bs \<Longrightarrow> bsearch bs b = Inl (partition_point bs b)"
  by (auto simp: bsearch_def Let_def dest: nth_mem)

text \<open>How far into the label of a compressed node the walk gets before it diverges.\<close>

definition diverges :: "'v rt \<Rightarrow> bytes \<Rightarrow> bool" where
  "diverges s k \<longleftrightarrow> k \<noteq> [] \<and> compressed (node_of s)"

definition over :: "'v rt \<Rightarrow> bytes \<Rightarrow> nat" where
  "over s k = (if diverges s k then matched (chars (node_of s)) k else 0)"

lemma edge_cases:
  assumes "labels_ok (map fst (L @ (l, c) # R))"
  obtains (compressed) "L = []" "R = []" "length l > 1" "node_of (RT i v (L @ (l, c) # R)) = \<lparr>chars = l, children = [tid c], compressed = True, rvalue = v\<rparr>"
    | (branching) bs b cs where "l = [b]" "sorted_wrt (<) (bs @ b # cs)" "length bs = length L" "map fst L = map (\<lambda>b. [b]) bs" "map fst R = map (\<lambda>b. [b]) cs"
      "node_of (RT i v (L @ (l, c) # R)) = \<lparr>chars = bs @ b # cs, children = map (tid \<circ> snd) L @ tid c # map (tid \<circ> snd) R, compressed = False, rvalue = v\<rparr>"
  using assms
proof (cases rule: labels_cases)
  case (compressed m d)
  then show ?thesis using that(1) node_of_compressed [OF compressed] by (auto simp: append_eq_Cons_conv)
next
  case (branching ds)
  obtain bs b cs where d: "ds = bs @ b # cs" "map fst L = map (\<lambda>b. [b]) bs" "l = [b]" "map fst R = map (\<lambda>b. [b]) cs"
    using branching(1) by (auto simp: append_eq_map_conv Cons_eq_map_conv)
  then show ?thesis using that(2) node_of_branching [OF branching(1)] branching(2) branching_length [OF d(2)] by auto
qed

lemma walk_step:
  assumes "rt_wf (RT i v (L @ (l, c) # R))" "owns r (RT i v (L @ (l, c) # R))"
  shows "walk r (p @ l @ k) i (length p) st = walk r (p @ l @ k) (tid c) (length p + length l) (\<lparr>fr_node = i, fr_child = length L, fr_klen = length p\<rparr> # st)"
    and "insert_walk r (p @ l @ k) i (length p) = insert_walk r (p @ l @ k) (tid c) (length p + length l)"
proof -
  have l: "labels_ok (map fst (L @ (l, c) # R))" and n: "node r i = Some (node_of (RT i v (L @ (l, c) # R)))" and ne: "l \<noteq> []"
    using assms by (auto simp: labels_ok_def)
  from l have "walk r (p @ l @ k) i (length p) st = walk r (p @ l @ k) (tid c) (length p + length l) (\<lparr>fr_node = i, fr_child = length L, fr_klen = length p\<rparr> # st)
     \<and> insert_walk r (p @ l @ k) i (length p) = insert_walk r (p @ l @ k) (tid c) (length p + length l)"
  proof (cases rule: edge_cases [where i = i and v = v])
    case compressed
    have "matched l (l @ k) = length l" by (simp add: matched_full)
    then show ?thesis using compressed n ne by (simp add: walk.simps [of r _ i] insert_walk.simps [of r _ i] Let_def)
  next
    case (branching bs b cs)
    then show ?thesis using n bsearch_found [OF branching(2)]
      by (simp add: walk.simps [of r _ i] insert_walk.simps [of r _ i] nth_opt_def nth_append)
  qed
  then show "walk r (p @ l @ k) i (length p) st = walk r (p @ l @ k) (tid c) (length p + length l) (\<lparr>fr_node = i, fr_child = length L, fr_klen = length p\<rparr> # st)"
    "insert_walk r (p @ l @ k) i (length p) = insert_walk r (p @ l @ k) (tid c) (length p + length l)" by simp_all
qed

lemma walk_stuck:
  assumes "rt_wf s" "owns r s" "stuck s k"
  shows "walk r (p @ k) (tid s) (length p) st = Some (tid s, length p + over s k, over s k, st)"
    and "insert_walk r (p @ k) (tid s) (length p) = Some (tid s, length p + over s k, if diverges s k then Some (over s k) else None)"
proof -
  obtain i v es where s: "s = RT i v es" by (cases s)
  have l: "labels_ok (map fst es)" and n: "node r i = Some (node_of (RT i v es))" using assms by (simp_all add: s)
  from l have "walk r (p @ k) i (length p) st = Some (i, length p + over s k, over s k, st) \<and>
     insert_walk r (p @ k) i (length p) = Some (i, length p + over s k, if diverges s k then Some (over s k) else None)"
  proof (cases rule: labels_cases)
    case (compressed m c)
    have "k \<noteq> [] \<Longrightarrow> matched m k \<noteq> length m" using assms(3) compressed by (simp add: stuck_def s matched_full)
    then show ?thesis using n node_of_compressed [OF compressed, of i v]
      by (auto simp: walk.simps [of r _ i] insert_walk.simps [of r _ i] Let_def over_def diverges_def s)
  next
    case (branching bs)
    have "b \<notin> set bs" if "k = b # k'" for b k'
    proof
      assume "b \<in> set bs"
      then have "[b] \<in> set (map fst es)" unfolding branching(1) by simp
      then obtain c where "([b], c) \<in> set es" by auto
      then show False using assms(3) that by (force simp: stuck_def s)
    qed
    then show ?thesis using n node_of_branching [OF branching(1), of i v]
      by (cases k) (auto simp: walk.simps [of r _ i] insert_walk.simps [of r _ i] over_def diverges_def s bsearch_absent nth_opt_def)
  qed
  then show "walk r (p @ k) (tid s) (length p) st = Some (tid s, length p + over s k, over s k, st)"
    "insert_walk r (p @ k) (tid s) (length p) = Some (tid s, length p + over s k, if diverges s k then Some (over s k) else None)" by (simp_all add: s)
qed

lemma walk_descends:
  assumes "descends fs s k fs' s' k'" "rt_wf s" "owns r s"
  shows "walk r (pos fs @ k) (tid s) (length (pos fs)) (frames fs) = walk r (pos fs' @ k') (tid s') (length (pos fs')) (frames fs')
    \<and> insert_walk r (pos fs @ k) (tid s) (length (pos fs)) = insert_walk r (pos fs' @ k') (tid s') (length (pos fs')) \<and> rt_wf s' \<and> owns r s'"
  using assms
proof (induction rule: descends.induct)
  case (down i v L l R fs c k fs' s' k')
  then show ?case using walk_step [OF down.prems, of "pos fs" k] by simp
qed simp

subsection \<open>What the tree represents\<close>

text \<open>The tree at a position of the arena; and an arena that is a tree holding a map.\<close>

definition sits :: "'v rax \<Rightarrow> 'v cx list \<Rightarrow> 'v rt \<Rightarrow> bool" where
  "sits r fs s \<longleftrightarrow> owns r s \<and> cx_owns r fs (tid s) \<and> covers r (mset (ids s) + mset (cx_ids fs)) \<and> tid (plug fs s) = ROOT"

lemma sits_plug: "sits r [] (plug fs s) \<longleftrightarrow> sits r fs s"
  by (simp add: sits_def owns_plug ids_plug)

definition rax_holds :: "'v rax \<Rightarrow> 'v rt \<Rightarrow> bool" where
  "rax_holds r t \<longleftrightarrow> sits r [] t \<and> rt_wf t \<and> numele r = length (pairs t)"

definition represents :: "'v rax \<Rightarrow> (bytes \<rightharpoonup> 'v) \<Rightarrow> bool" where
  "represents r m \<longleftrightarrow> (\<exists>t. rax_holds r t \<and> map_of (pairs t) = m)"

lemma numele_card: "rt_wf t \<Longrightarrow> length (pairs t) = card (dom (map_of (pairs t)))"
  using distinct_card [OF distinct_pairs, of t] by (simp add: dom_map_of_conv_image_fst)

lemma map_of_below: "map_of (below p xs) k = (if prefix p k then map_of xs (drop (length p) k) else None)"
  by (induction xs) (auto simp: prefix_def)

lemma map_of_plug:
  assumes "cx_wf fs"
  shows "map_of (pairs (plug fs s)) k = (if prefix (pos fs) k then map_of (pairs s) (drop (length (pos fs)) k) else map_of (before fs @ after fs) k)"
proof (cases "prefix (pos fs) k")
  case True
  then obtain z where k: "k = pos fs @ z" by (auto simp: prefix_def)
  have "map_of (before fs) k = None" using before_less [OF assms, of k _ z] by (auto simp: k map_of_eq_None_iff)
  moreover have "map_of (after fs) k = None" using after_greater [OF assms, of k _ z] by (auto simp: k map_of_eq_None_iff)
  ultimately show ?thesis using True by (simp add: pairs_plug map_of_below map_add_def split: option.splits)
qed (simp add: pairs_plug map_of_below map_add_def split: option.splits)

lemma map_of_plug_upd:
  assumes "cx_wf fs" "map_of (pairs s') = (map_of (pairs s))(k := v)"
  shows "map_of (pairs (plug fs s')) = (map_of (pairs (plug fs s)))(pos fs @ k := v)"
  using assms by (auto simp: fun_eq_iff map_of_plug prefix_def)

lemma located:
  assumes "sits r [] t" "rt_wf t"
  obtains fs s k where "plug fs s = t" "pos fs @ k = key" "sits r fs s" "rt_wf s" "cx_wf fs" "fs = [] \<or> alive s" "stuck s k"
    "walk r key ROOT 0 [] = Some (tid s, length (pos fs) + over s k, over s k, frames fs)"
    "insert_walk r key ROOT 0 = Some (tid s, length (pos fs) + over s k, if diverges s k then Some (over s k) else None)"
proof -
  obtain fs s k where d: "descends [] t key fs s k" "stuck s k" using descends_stuck by blast
  have t: "tid t = ROOT" "owns r t" using assms by (simp_all add: sits_def)
  have p: "plug fs s = t" "pos fs @ k = key" using descends_plug [OF d(1)] by simp_all
  have w: "rt_wf s" "cx_wf fs" "fs = [] \<or> alive s" using assms(2) wf_plug [of fs s] p by auto
  have a: "sits r fs s" using assms(1) p sits_plug [of r fs s] by simp
  then have o: "owns r s" by (simp add: sits_def)
  note e = walk_descends [OF d(1) assms(2) t(2)]
  show thesis
  proof (rule that [OF p a w d(2)])
    show "walk r key ROOT 0 [] = Some (tid s, length (pos fs) + over s k, over s k, frames fs)"
      using e walk_stuck(1) [OF w(1) o d(2), of "pos fs" "frames fs"] t(1) by simp
    show "insert_walk r key ROOT 0 = Some (tid s, length (pos fs) + over s k, if diverges s k then Some (over s k) else None)"
      using e walk_stuck(2) [OF w(1) o d(2), of "pos fs"] t(1) by simp
  qed
qed

lemma find_ok:
  assumes "sits r [] t" "rt_wf t"
  shows "rax_find r key = Some (map_of (pairs t) key)"
proof -
  obtain fs s k where l: "plug fs s = t" "pos fs @ k = key" "sits r fs s" "rt_wf s" "cx_wf fs" "stuck s k"
    "walk r key ROOT 0 [] = Some (tid s, length (pos fs) + over s k, over s k, frames fs)"
    using located [OF assms, of key] by metis
  obtain i v es where s: "s = RT i v es" by (cases s)
  have m: "map_of (pairs t) key = map_of (pairs s) k" using map_of_plug [OF l(5), of s key] l(1,2) by auto
  show ?thesis
  proof (cases "k = []")
    case True
    have "map_of (kids es) [] = None" using kids_nonempty [of es] l(4) by (force simp: s map_of_eq_None_iff)
    moreover have "node r i = Some (node_of s)" using l(3) by (simp add: sits_def s)
    ultimately show ?thesis using True l(2,7) m by (cases v) (auto simp: rax_find_def over_def diverges_def s node_of_def)
  next
    case False
    have "map_of (pairs s) k = None" using stuck_absent [OF l(4,6) False] by (force simp: map_of_eq_None_iff)
    then show ?thesis using False l(2,7) m by (auto simp: rax_find_def)
  qed
qed

end
