(* ===== verification/Rax_Proofs.thy ===== *)
theory Rax_Proofs
  imports Rax_Tree
begin

text \<open>
  Insertion and removal act on the tree's contents as on a map: splitting, extending, pruning and merging keep the arena a well-formed tree.
\<close>

subsection \<open>Rebuilding a node\<close>

text \<open>A node in hand and the subtrees from which it is being rebuilt.\<close>

definition stock :: "'v rax \<Rightarrow> 'v rt list \<Rightarrow> 'v cx list \<Rightarrow> nat \<Rightarrow> bool" where
  "stock r ss fs i \<longleftrightarrow> (\<forall>s \<in> set ss. owns r s) \<and> cx_owns r fs i \<and> covers r (add_mset i (mset (concat (map ids ss)) + mset (cx_ids fs))) \<and>
     tid (plug fs (RT i None [])) = ROOT"

lemma tid_plug: "tid s = tid s' \<Longrightarrow> tid (plug fs s) = tid (plug fs s')"
proof (induction fs arbitrary: s s')
  case (Cons f fs)
  then show ?case by (cases f) simp
qed simp

lemma ids_RT [simp]: "ids (RT i v es) = i # concat (map ids (map snd es))"
  by (simp add: comp_def case_prod_beta')

declare ids.simps [simp del]

lemma sits_stock: "sits r fs (RT i v es) \<longleftrightarrow> node r i = Some (node_of (RT i v es)) \<and> stock r (map snd es) fs i"
  using tid_plug [of "RT i v es" "RT i None []" fs] by (auto simp: sits_def stock_def)

lemma stock_perm:
  assumes "stock r ss fs i" "mset ss = mset ss'"
  shows "stock r ss' fs i"
proof -
  have "mset (concat (map ids xs)) = (\<Sum>x \<in># mset xs. mset (ids x))" for xs :: "'a rt list"
    by (induction xs) simp_all
  then show ?thesis using assms mset_eq_setD [OF assms(2)] by (simp add: stock_def)
qed

lemma loose_agree:
  assumes "\<forall>s \<in> set ss. owns r s" "cx_owns r fs i" "\<forall>j \<in># mset (concat (map ids ss)) + mset (cx_ids fs). node r' j = node r j"
  shows "\<forall>s \<in> set ss. owns r' s" "cx_owns r' fs i"
  proof -
  show "\<forall>s \<in> set ss. owns r' s"
  proof
    fix s assume "s \<in> set ss"
    then show "owns r' s" using assms(1,3) by (intro owns_cong [of s r' r]) auto
  qed
  show "cx_owns r' fs i" using assms(2,3) by (intro cx_owns_cong [of fs r' r i]) auto
qed

lemma stock_numele [simp]: "stock (numele_update f r) ss fs i \<longleftrightarrow> stock r ss fs i" "sits (numele_update f r) fs s \<longleftrightarrow> sits r fs s"
proof -
  have o: "owns (numele_update f r) = owns r" 
    by (rule ext, rule iffI; rule owns_cong) simp_all
  have c: "cx_owns (numele_update f r) = cx_owns r" 
    by (intro ext, rule iffI; rule cx_owns_cong) simp_all
  show "stock (numele_update f r) ss fs i \<longleftrightarrow> stock r ss fs i" "sits (numele_update f r) fs s \<longleftrightarrow> sits r fs s"
    by (simp_all add: stock_def sits_def o c)
qed

lemma stock_set:
  assumes "stock r ss fs i"
  obtains r' where "set_node r i n = Some r'" "stock r' ss fs i" "node r' i = Some n" "numele r' = numele r"
proof -
  let ?M = "mset (concat (map ids ss)) + mset (cx_ids fs)"
  have c: "covers r (add_mset i ?M)" using assms by (simp add: stock_def)
  obtain r' where r': "set_node r i n = Some r'" "covers r' (add_mset i ?M)" "node r' i = Some n" "\<And>j. j \<noteq> i \<Longrightarrow> node r' j = node r j" "numele r' = numele r"
    using set_node_ok [OF c, of i n] by auto
  have "i \<notin># ?M" using covers_count [OF c, of i] by (simp add: not_in_iff)
  then have "\<forall>j \<in># ?M. node r' j = node r j" using r'(4) by metis
  then have "stock r' ss fs i" using assms r'(2) loose_agree [of ss r fs i r'] by (simp add: stock_def)
  from that [OF r'(1) this r'(3,5)] show thesis .
qed

lemma stock_alloc:
  assumes "stock r (map snd es @ ss) fs i"
  obtains j r' where "rax_alloc r (node_of (RT 0 v es)) = Some (j, r')" "stock r' (RT j v es # ss) fs i" "node r' i = node r i" "numele r' = numele r"
proof -
  let ?M = "mset (concat (map ids (map snd es @ ss))) + mset (cx_ids fs)"
  have c: "covers r (add_mset i ?M)" using assms by (simp add: stock_def)
  have n: "node_of (RT k v es) = node_of (RT 0 v es)" for k by (simp add: node_of_def)
  obtain j r' where r': "rax_alloc r (node_of (RT 0 v es)) = Some (j, r')" "covers r' (add_mset j (add_mset i ?M))" "node r' j = Some (node_of (RT 0 v es))"
    "\<And>l. l \<in># add_mset i ?M \<Longrightarrow> node r' l = node r l" "numele r' = numele r"
    using rax_alloc_ok [OF c, of "node_of (RT 0 v es)"] by metis
  have "\<forall>s \<in> set (map snd es @ ss). owns r' s" "cx_owns r' fs i"
    using assms loose_agree [of "map snd es @ ss" r fs i r'] r'(4) by (simp_all add: stock_def)
  moreover have "owns r' b" if "(a, b) \<in> set es" for a b using calculation(1) that by force
  ultimately have "stock r' (RT j v es # ss) fs i"
    using assms r'(2,3) n [of j] by (auto simp: stock_def add_mset_commute)
  moreover have "node r' i = node r i" using r'(4) by simp
  ultimately show thesis using that r'(1,5) by blast
qed

lemma stock_release:
  assumes "stock r (RT j v es # ss) fs i"
  obtains r' where "rax_release r j = Some r'" "stock r' (map snd es @ ss) fs i" "node r' i = node r i" "numele r' = numele r"
proof -
  let ?M = "add_mset i (mset (concat (map ids (map snd es @ ss))) + mset (cx_ids fs))"
  have c: "covers r (add_mset j ?M)" using assms by (simp add: stock_def add_mset_commute)
  obtain r' where r': "rax_release r j = Some r'" "covers r' ?M" "\<And>l. l \<in># ?M \<Longrightarrow> node r' l = node r l" "numele r' = numele r"
    using rax_release_ok [OF c] by metis
  have "\<forall>s \<in> set (map snd es @ ss). owns r s" "cx_owns r fs i" using assms by (auto simp: stock_def)
  then have "stock r' (map snd es @ ss) fs i"
    using assms loose_agree [of "map snd es @ ss" r fs i r'] r'(2,3) by (simp add: stock_def)
  then show thesis using that r' by simp
qed

lemma sits_child: "sits r fs (RT i v (L @ (l, c) # R)) \<longleftrightarrow> sits r (Cx i v L l R # fs) c"
  using sits_plug [of r fs "RT i v (L @ (l, c) # R)"] sits_plug [of r "Cx i v L l R # fs" c] by simp

lemma node_of_value: "(node_of (RT i v es))\<lparr>rvalue := w\<rparr> = node_of (RT i w es)"
  by (simp add: node_of_def)

lemma sits_value:
  assumes "sits r fs (RT i v es)"
  obtains r' where "set_node r i (node_of (RT i w es)) = Some r'" "sits r' fs (RT i w es)" "numele r' = numele r"
proof -
  have "stock r (map snd es) fs i" using assms by (simp add: sits_stock)
  then obtain r' where "set_node r i (node_of (RT i w es)) = Some r'" "stock r' (map snd es) fs i" "node r' i = Some (node_of (RT i w es))" "numele r' = numele r"
    by (rule stock_set)
  then show thesis using that by (simp add: sits_stock)
qed

lemma labels_single [simp]: "labels_ok [l] \<longleftrightarrow> l \<noteq> []"
  by (auto simp: labels_ok_def)

lemma plug_append: "plug (gs @ fs) s = plug fs (plug gs s)" and pos_append: "pos (gs @ fs) = pos fs @ pos gs"
proof -
  show "plug (gs @ fs) s = plug fs (plug gs s)" by (induction gs s rule: plug.induct) simp_all
  show "pos (gs @ fs) = pos fs @ pos gs" by (induction gs rule: pos.induct) simp_all
qed

lemma sits_append: "sits r fs (plug gs s) \<longleftrightarrow> sits r (gs @ fs) s"
  using sits_plug [of r fs "plug gs s"] sits_plug [of r "gs @ fs" s] by (simp add: plug_append)

text \<open>The rest of a label after its byte \<open>m\<close>, over a subtree: a node of its own unless nothing is left.\<close>

lemma rest_of_label:
  assumes "stock r (c # ss) fs i" "m < length l"
  obtains gs r' where "(if m + 1 < length l then labelled r (drop (m + 1) l) (tid c) else Some (tid c, r)) = Some (tid (plug gs c), r')"
    "stock r' (plug gs c # ss) fs i" "node r' i = node r i" "numele r' = numele r" "cx_wf gs" "[l ! m] @ pos gs = drop m l" "before gs = []" "after gs = []"
proof (cases "m + 1 < length l")
  case True
  let ?d = "drop (m + 1) l"
  have "stock r (map snd [(?d, c)] @ ss) fs i" using assms(1) by simp
  then obtain j r' where r': "rax_alloc r (node_of (RT 0 None [(?d, c)])) = Some (j, r')" "stock r' (RT j None [(?d, c)] # ss) fs i" "node r' i = node r i" "numele r' = numele r"
    by (rule stock_alloc [where v = None])
  show thesis
    by (rule that [of "[Cx j None [] ?d []]" r'])
      (use r' True assms in \<open>simp_all add: labelled_def node_of_def Cons_nth_drop_Suc\<close>)
next
  case False
  then have "drop m l = [l ! m]" using assms(2) by (metis Cons_nth_drop_Suc drop_all linorder_not_less Suc_eq_plus1)
  then show thesis using that [of "[]" r] False assms by simp
qed

lemma pairs_rest: "before gs = [] \<Longrightarrow> after gs = [] \<Longrightarrow> below l (pairs (plug gs c)) = below (l @ pos gs) (pairs c)"
  by (simp add: pairs_plug)

lemma alive_plug: "alive c \<or> gs \<noteq> [] \<Longrightarrow> alive (plug gs c)"
proof (induction gs arbitrary: c)
  case (Cons g gs)
  then show ?case by (cases g) (simp add: alive_def)
qed simp

lemma split_ok:
  assumes "sits r fs (RT i v [(l, c)])" "m < length l" "rt_wf c" "alive c" "cx_wf fs"
  obtains fs' s' r' s where "split_compressed r i m = Some (tid s', r')" "sits r' fs' s'" "numele r' = numele r" "rt_wf s'" "cx_wf fs'" "pos fs' = pos fs @ take m l"
    "edges s' = [([l ! m], s)]" "pairs (plug fs' s') = pairs (plug fs (RT i v [(l, c)]))"
proof -
  have "stock r [c] fs i" and n: "node r i = Some (node_of (RT i v [(l, c)]))" using assms(1) by (simp_all add: sits_stock)
  then obtain gs r1 where g: "(if m + 1 < length l then labelled r (drop (m + 1) l) (tid c) else Some (tid c, r)) = Some (tid (plug gs c), r1)"
    "stock r1 [plug gs c] fs i" "node r1 i = node r i" "numele r1 = numele r" "cx_wf gs" "[l ! m] @ pos gs = drop m l" "before gs = []" "after gs = []"
    using assms(2) rest_of_label [of r c "[]" fs i m l] by blast
  define s where "s = plug gs c"
  have s: "(if m + 1 < length l then labelled r (drop (m + 1) l) (tid c) else Some (tid c, r)) = Some (tid s, r1)"
    "stock r1 [s] fs i" "node r1 i = node r i" "numele r1 = numele r" "rt_wf s" "alive s" "below [l ! m] (pairs s) = below (drop m l) (pairs c)"
    using g assms(3,4) wf_plug [of gs c] alive_plug [of c gs] pairs_rest [OF g(7,8), of "[l ! m]" c] by (simp_all add: s_def)
  show thesis
  proof (cases "m = 0")
    case True
    let ?s = "RT i v [([l ! 0], s)]"
    obtain r2 where r2: "set_node r1 i (node_of ?s) = Some r2" "stock r2 [s] fs i" "node r2 i = Some (node_of ?s)" "numele r2 = numele r1"
      using stock_set [OF s(2)] by metis
    have t: "take 1 l = [l ! 0]" using assms(2) by (cases l) simp_all
    show thesis
    proof (rule that [of ?s r2 fs s])
      show "split_compressed r i m = Some (tid ?s, r2)" using s(1,3) n r2(1) True t by (simp add: split_compressed_def node_of_def Let_def cong: if_cong split del: if_split)
      show "pairs (plug fs ?s) = pairs (plug fs (RT i v [(l, c)]))" using s(7) True by (simp add: pairs_plug)
    qed (use True r2 s assms in \<open>simp_all add: sits_stock\<close>)
  next
    case False
    have t: "take 1 (drop m l) = [l ! m]" using assms(2) by (metis Cons_nth_drop_Suc One_nat_def take0 take_Suc_Cons)
    have "stock r1 (map snd [([l ! m], s)] @ []) fs i" using s(2) by simp
    then obtain j r2 where r2: "rax_alloc r1 (node_of (RT 0 None [([l ! m], s)])) = Some (j, r2)" "stock r2 [RT j None [([l ! m], s)]] fs i" "node r2 i = node r1 i" "numele r2 = numele r1"
      by (rule stock_alloc [where v = None])
    let ?s = "RT j None [([l ! m], s)]" and ?t = "\<lambda>s. RT i v [(take m l, s)]"
    obtain r3 where r3: "set_node r2 i (node_of (?t ?s)) = Some r3" "stock r3 [?s] fs i" "node r3 i = Some (node_of (?t ?s))" "numele r3 = numele r2"
      using stock_set [OF r2(2)] by metis
    have "sits r3 fs (?t ?s)" using r3 by (simp add: sits_stock)
    then have "sits r3 (Cx i v [] (take m l) [] # fs) ?s" using sits_child [of r3 fs i v "[]"] by simp
    then show thesis
    proof (rule that [rotated])
      show "split_compressed r i m = Some (tid ?s, r3)" using s(1,3) n r2(1) r2(3) r3(1) False t assms(2)
        by (simp add: split_compressed_def node_of_def Let_def cong: if_cong split del: if_split)
      have "below (take m l) (below [l ! m] (pairs s)) = below l (pairs c)" unfolding s(7) by simp
      then show "pairs (plug (Cx i v [] (take m l) [] # fs) ?s) = pairs (plug fs (RT i v [(l, c)]))" by (simp add: pairs_plug)
    qed (use False r2 r3 s assms in \<open>auto simp: sits_stock\<close>)
  qed
qed

lemma leaf_value:
  assumes "sits r fs (RT i v (L @ (l, plug gs (RT j None [])) # R))"
  obtains r' where "node r j = Some leaf_node" "set_node r j (leaf_node\<lparr>rvalue := Some x\<rparr>) = Some r'" "sits r' fs (RT i v (L @ (l, plug gs (RT j (Some x) [])) # R))" "numele r' = numele r"
proof -
  let ?fs = "gs @ Cx i v L l R # fs"
  have a: "sits r ?fs (RT j None [])" using assms unfolding sits_child sits_append .
  then obtain r' where r': "set_node r j (node_of (RT j (Some x) [])) = Some r'" "sits r' ?fs (RT j (Some x) [])" "numele r' = numele r" by (rule sits_value)
  have "sits r' fs (RT i v (L @ (l, plug gs (RT j (Some x) [])) # R))" using r'(2) unfolding sits_child sits_append .
  then show thesis using that r' a by (simp add: sits_stock leaf_node_def node_of_def)
qed

lemma map_of_kids_insert:
  assumes "labels_ok (map fst (L @ (l, s) # R))" "pairs s = below k [([], x)]" "l @ k = k'"
  shows "map_of (pairs (RT i v (L @ (l, s) # R))) = (map_of (pairs (RT i v (L @ R))))(k' \<mapsto> x)"
proof -
  have l: "labels_ok (map fst L @ l # map fst R)" "l \<noteq> []" using assms(1) by (simp_all add: labels_ok_split)
  have "k' \<notin> fst ` set (own v @ kids L)" using edge_less(1) [OF l(1), of _ _ _ k] l(2) assms(3) by (fastforce simp: in_kids own_def split: option.splits)
  then have "map_of (own v) k' = None" "map_of (kids L) k' = None" unfolding map_of_eq_None_iff by auto
  then show ?thesis using assms(2,3) by (auto simp: fun_eq_iff map_add_def split: option.splits)
qed

lemma labels_ok_insert:
  assumes "map fst es = map (\<lambda>b. [b]) bs" "sorted_wrt (<) bs" "b \<notin> set bs"
  obtains L R where "es = L @ R" "labels_ok (map fst L @ [b] # map fst R)" "bs = takeWhile (\<lambda>x. x < b) bs @ dropWhile (\<lambda>x. x < b) bs" "length L = partition_point bs b"
    "map fst L = map (\<lambda>b. [b]) (take (length L) bs)" "map fst R = map (\<lambda>b. [b]) (drop (length L) bs)"
proof -
  let ?n = "partition_point bs b" let ?B = "take ?n bs" and ?C = "drop ?n bs"
  have n: "?n \<le> length bs" by (simp add: partition_point_def length_takeWhile_le)
  have B: "?B = takeWhile (\<lambda>x. x < b) bs" and C: "?C = dropWhile (\<lambda>x. x < b) bs"
    by (simp_all add: partition_point_def takeWhile_eq_take [symmetric] dropWhile_eq_drop [symmetric])
  have lo: "\<forall>x \<in> set ?B. x < b" unfolding B by (auto dest: set_takeWhileD)
  have "\<forall>x \<in> set ?C. b < x"
  proof (cases "?C")
    case (Cons c cs)
    have "\<not> c < b" using C Cons by (metis dropWhile_eq_Cons_conv)
    moreover have "c \<in> set bs" "sorted_wrt (<) (c # cs)" using Cons assms(2) by (metis in_set_dropD list.set_intros(1), metis append_take_drop_id sorted_wrt_append)
    ultimately show ?thesis using assms(3) Cons by (auto simp: not_less_iff_gr_or_eq intro: less_trans)
  qed simp
  moreover have "sorted_wrt (<) (?B @ ?C)" using assms(2) by simp
  ultimately have "labels_ok (map (\<lambda>b. [b]) ?B @ [b] # map (\<lambda>b. [b]) ?C)"
    using lo by (auto simp: labels_ok_def sorted_wrt_append comp_def) (meson less_trans)
  moreover have "map fst (take ?n es) = map (\<lambda>b. [b]) ?B" "map fst (drop ?n es) = map (\<lambda>b. [b]) ?C"
    using assms(1) by (metis take_map, metis drop_map)
  moreover have "length (take ?n es) = ?n" using n branching_length [OF assms(1)] by simp
  ultimately show thesis using that [of "take ?n es" "drop ?n es"] by (simp add: takeWhile_dropWhile_id)
qed

text \<open>The last steps of \<^verbatim>\<open>insert\<close> when it grows the tree: the value of the new leaf and the element count.\<close>

definition finish_leaf :: "'v rax \<Rightarrow> nat \<Rightarrow> 'v \<Rightarrow> 'v rax option" where
  "finish_leaf r j x = do { l \<leftarrow> node r j; r \<leftarrow> set_node r j (l\<lparr>rvalue := Some x\<rparr>); Some (r\<lparr>numele := numele r + 1\<rparr>) }"

lemma graft_ok:
  assumes "sits r fs (RT i v (L @ (l, plug gs (RT j None [])) # R))" "rt_wf (RT i v (L @ R))" "labels_ok (map fst (L @ (l, plug gs (RT j None [])) # R))"
    and "l @ pos gs = k" "before gs = []" "after gs = []" "cx_wf gs"
  obtains r' es' where "finish_leaf r j x = Some r'" "sits r' fs (RT i v es')" "numele r' = numele r + 1" "rt_wf (RT i v es')" "es' \<noteq> []"
    "map_of (pairs (RT i v es')) = (map_of (pairs (RT i v (L @ R))))(k \<mapsto> x)"
proof -
  let ?s = "plug gs (RT j (Some x) [])"
  obtain r1 where r1: "node r j = Some leaf_node" "set_node r j (leaf_node\<lparr>rvalue := Some x\<rparr>) = Some r1" "sits r1 fs (RT i v (L @ (l, ?s) # R))" "numele r1 = numele r"
    using leaf_value [OF assms(1), of x] by metis
  have "rt_wf ?s \<and> alive ?s" using wf_plug [of gs "RT j (Some x) []"] assms(7) alive_plug [of "RT j (Some x) []" gs] by (simp add: alive_def labels_ok_def)
  then have "rt_wf (RT i v (L @ (l, ?s) # R))" using assms(2,3) by auto
  moreover have "pairs ?s = below (pos gs) [([], x)]" using assms(5,6) by (simp add: pairs_plug)
  ultimately show thesis
    using that [of "r1\<lparr>numele := numele r1 + 1\<rparr>" "L @ (l, ?s) # R"] r1 map_of_kids_insert [of L l ?s R "pos gs" x k i v] assms(3,4) by (simp add: finish_leaf_def)
qed

lemma extend_ok:
  assumes "sits r fs (RT i v es)" "rt_wf (RT i v es)" "map fst es = map (\<lambda>b. [b]) bs" "sorted_wrt (<) bs" "k \<noteq> []" "hd k \<notin> set bs"
  obtains r' es' where "extend r i k x = Some r'" "sits r' fs (RT i v es')" "numele r' = numele r + 1" "rt_wf (RT i v es')" "es' \<noteq> []"
    "map_of (pairs (RT i v es')) = (map_of (pairs (RT i v es)))(k \<mapsto> x)"
proof -
  have st: "stock r (map snd [] @ map snd es) fs i" and n: "node r i = Some (node_of (RT i v es))" using assms(1) by (simp_all add: sits_stock)
  obtain j r1 where r1: "rax_alloc r (node_of (RT 0 None [])) = Some (j, r1)" "stock r1 (RT j None [] # map snd es) fs i" "node r1 i = node r i" "numele r1 = numele r"
    by (rule stock_alloc [OF st])
  have lf: "rax_alloc r leaf_node = Some (j, r1)" using r1(1) by (simp add: node_of_def leaf_node_def)
  show thesis
  proof (cases "es = [] \<and> length k > 1")
    case True
    let ?t = "RT i v [(k, RT j None [])]"
    obtain r2 where r2: "set_node r1 i (node_of ?t) = Some r2" "stock r2 (RT j None [] # map snd es) fs i" "node r2 i = Some (node_of ?t)" "numele r2 = numele r1"
      using stock_set [OF r1(2)] by metis
    have "sits r2 fs (RT i v ([] @ (k, plug [] (RT j None [])) # []))" using r2 True by (simp add: sits_stock)
    then obtain r' es' where "finish_leaf r2 j x = Some r'" "sits r' fs (RT i v es')" "numele r' = numele r2 + 1" "rt_wf (RT i v es')" "es' \<noteq> []"
      "map_of (pairs (RT i v es')) = (map_of (pairs (RT i v ([] @ []))))(k \<mapsto> x)"
      by (rule graft_ok) (use assms(2,5) in \<open>simp_all add: labels_ok_def\<close>)
    moreover have "extend r i k x = finish_leaf r2 j x" using True r1(3) r2(1) n lf by (simp add: extend_def finish_leaf_def node_of_def)
    ultimately show thesis using that [of r' es'] r1(4) r2(4) True by simp
  next
    case False
    obtain L R where lr: "es = L @ R" "labels_ok (map fst L @ [hd k] # map fst R)" "length L = partition_point bs (hd k)"
      "map fst L = map (\<lambda>b. [b]) (take (length L) bs)" "map fst R = map (\<lambda>b. [b]) (drop (length L) bs)"
      using labels_ok_insert [OF assms(3,4,6)] by metis
    have kl: "0 < length k" using assms(5) by simp
    obtain gs r2 where g: "(if 0 + 1 < length k then labelled r1 (drop (0 + 1) k) j else Some (j, r1)) = Some (tid (plug gs (RT j None [])), r2)"
      "stock r2 (plug gs (RT j None []) # map snd es) fs i" "node r2 i = node r1 i" "numele r2 = numele r1" "cx_wf gs" "[k ! 0] @ pos gs = drop 0 k" "before gs = []" "after gs = []"
      by (rule rest_of_label [OF r1(2) kl, unfolded rt.sel(1)])
    let ?s = "plug gs (RT j None [])" let ?t = "RT i v (L @ ([hd k], ?s) # R)"
    have "stock r2 (map snd L @ ?s # map snd R) fs i" by (rule stock_perm [OF g(2)]) (simp add: lr(1))
    then obtain r3 where r3: "set_node r2 i (node_of ?t) = Some r3" "stock r3 (map snd L @ ?s # map snd R) fs i" "node r3 i = Some (node_of ?t)" "numele r3 = numele r2"
      by (rule stock_set)
    have t: "node_of ?t = \<lparr>chars = vec_insert (partition_point bs (hd k)) (hd k) bs, children = vec_insert (partition_point bs (hd k)) (tid ?s) (children (node_of (RT i v es))), compressed = False, rvalue = v\<rparr>"
      using node_of_branching [of "L @ ([hd k], ?s) # R" "take (length L) bs @ hd k # drop (length L) bs" i v] lr by (simp add: vec_insert_def node_of_def)
    have x: "extend r i k x = finish_leaf r3 j x"
      using lf r1(3) n False g(1,3) node_of_branching [OF assms(3), of i v] r3(1) t kl
      by (cases "1 < length k") (simp_all add: extend_def finish_leaf_def hd_conv_nth Let_def nth_opt_def)
    have "sits r3 fs ?t" using r3 by (simp add: sits_stock)
    then obtain r' es' where "finish_leaf r3 j x = Some r'" "sits r' fs (RT i v es')" "numele r' = numele r3 + 1" "rt_wf (RT i v es')" "es' \<noteq> []"
      "map_of (pairs (RT i v es')) = (map_of (pairs (RT i v (L @ R))))(k \<mapsto> x)"
      by (rule graft_ok) (use assms(2) lr(1,2) g kl in \<open>simp_all add: hd_conv_nth\<close>)
    then show thesis using that [of r' es'] x r1(4) g(4) r3(4) lr(1) by simp
  qed
qed

lemma length_pairs_upd:
  assumes "rt_wf t" "rt_wf t'" "map_of (pairs t') = (map_of (pairs t))(k \<mapsto> x)"
  shows "length (pairs t') = (if map_of (pairs t) k = None then length (pairs t) + 1 else length (pairs t))"
proof -
  have "length (pairs t') = card (insert k (dom (map_of (pairs t))))" using numele_card [OF assms(2)] assms(3) by simp
  then show ?thesis using numele_card [OF assms(1)] by (auto simp: card_insert_if finite_dom_map_of domIff simp del: dom_fun_upd)
qed

lemma root_value: "rt_wf (RT i v es) \<Longrightarrow> map_of (pairs (RT i v es)) [] = v"
  using kids_nonempty [of es "[]"] map_of_SomeD [of "kids es" "[]"] by (cases v; cases "map_of (kids es) []") auto

lemma stuck_branching:
  assumes "rt_wf (RT i v es)" "stuck (RT i v es) k" "\<not> diverges (RT i v es) k" "k \<noteq> []"
  obtains bs where "map fst es = map (\<lambda>b. [b]) bs" "sorted_wrt (<) bs" "hd k \<notin> set bs"
proof -
  have "labels_ok (map fst es)" using assms(1) by simp
  then show thesis
  proof (cases rule: labels_cases)
    case (compressed l c)
    then show thesis using assms(3,4) node_of_compressed [OF compressed, of i v] by (simp add: diverges_def)
  next
    case (branching bs)
    have "hd k \<notin> set bs"
    proof
      assume "hd k \<in> set bs"
      then have "[hd k] \<in> set (map fst es)" unfolding branching(1) by simp
      then obtain c where "([hd k], c) \<in> set es" by auto
      moreover have "prefix [hd k] k" using assms(4) by (cases k) simp_all
      ultimately show False using assms(2,4) by (force simp: stuck_def)
    qed
    then show thesis using that branching by blast
  qed
qed

text \<open>The last steps of \<^verbatim>\<open>insert\<close>, once the position is found.\<close>

definition put :: "'v rax \<Rightarrow> nat \<Rightarrow> bytes \<Rightarrow> 'v \<Rightarrow> ('v option \<times> 'v rax) option" where
  "put r cur rest v =
     (if rest = [] then do {
        n \<leftarrow> node r cur;
        r \<leftarrow> set_node r cur (n\<lparr>rvalue := Some v\<rparr>);
        Some (rvalue n, if rvalue n = None then r\<lparr>numele := numele r + 1\<rparr> else r) }
      else do { r \<leftarrow> extend r cur rest v; Some (None, r) })"

lemma put_ok:
  assumes "sits r fs s" "rt_wf s" "cx_wf fs" "stuck s k" "\<not> diverges s k" "numele r = length (pairs (plug fs s))" "rt_wf (plug fs s)"
  obtains r' t where "put r (tid s) k x = Some (map_of (pairs (plug fs s)) (pos fs @ k), r')" "rax_holds r' t" "map_of (pairs t) = (map_of (pairs (plug fs s)))(pos fs @ k \<mapsto> x)"
proof -
  obtain i v es where s: "s = RT i v es" by (cases s)
  have m: "map_of (pairs (plug fs s)) (pos fs @ k) = map_of (pairs s) k" using map_of_plug [OF assms(3)] by simp
  have fin: "\<exists>t. rax_holds r' t \<and> map_of (pairs t) = (map_of (pairs (plug fs s)))(pos fs @ k \<mapsto> x)"
    if r: "sits r' fs s'" "rt_wf s'" "alive s'" "map_of (pairs s') = (map_of (pairs s))(k \<mapsto> x)" "numele r' = (if map_of (pairs s) k = None then numele r + 1 else numele r)" for r' s'
  proof -
    have u: "map_of (pairs (plug fs s')) = (map_of (pairs (plug fs s)))(pos fs @ k \<mapsto> x)" by (rule map_of_plug_upd [OF assms(3) r(4)])
    have w: "rt_wf (plug fs s')" using r(2,3) assms(3) wf_plug by blast
    have "rax_holds r' (plug fs s')" using length_pairs_upd [OF assms(7) w u] r(1,5) w m assms(6) sits_plug [of r' fs s'] by (simp add: rax_holds_def)
    then show ?thesis using u by blast
  qed
  show thesis
  proof (cases "k = []")
    case True
    obtain r1 where r1: "set_node r i (node_of (RT i (Some x) es)) = Some r1" "sits r1 fs (RT i (Some x) es)" "numele r1 = numele r"
      using sits_value assms(1) unfolding s by blast
    let ?r = "if v = None then r1\<lparr>numele := numele r1 + 1\<rparr> else r1"
    have v: "map_of (pairs s) [] = v" using root_value assms(2) s by blast
    have "map_of (pairs (RT i (Some x) es)) = (map_of (pairs s))([] \<mapsto> x)" by (cases v) (auto simp: s)
    then have "\<exists>t. rax_holds ?r t \<and> map_of (pairs t) = (map_of (pairs (plug fs s)))(pos fs @ k \<mapsto> x)"
      by (intro fin [of ?r "RT i (Some x) es"]) (use r1(2,3) assms(2) v True in \<open>simp_all add: alive_def s del: pairs_RT\<close>)
    moreover have "put r (tid s) k x = Some (v, ?r)"
      using True assms(1) r1(1) by (simp add: put_def s sits_stock node_of_value) (simp add: node_of_def)
    ultimately show thesis using that v m True by auto
  next
    case False
    obtain bs where b: "map fst es = map (\<lambda>b. [b]) bs" "sorted_wrt (<) bs" "hd k \<notin> set bs"
      using stuck_branching assms(2,4,5) False unfolding s by blast
    obtain r' es' where e: "extend r i k x = Some r'" "sits r' fs (RT i v es')" "numele r' = numele r + 1" "rt_wf (RT i v es')" "es' \<noteq> []"
      "map_of (pairs (RT i v es')) = (map_of (pairs (RT i v es)))(k \<mapsto> x)"
      using extend_ok [OF _ _ b(1,2) False b(3)] assms(1,2) unfolding s by metis
    have n: "map_of (pairs s) k = None" using stuck_absent [OF assms(2,4) False] by (force simp: map_of_eq_None_iff)
    have "\<exists>t. rax_holds r' t \<and> map_of (pairs t) = (map_of (pairs (plug fs s)))(pos fs @ k \<mapsto> x)"
      using fin [of r' "RT i v es'"] e n by (simp add: alive_def s)
    then show thesis using that m n e(1) False by (auto simp: put_def s simp del: pairs_RT)
  qed
qed

lemma insert_ok:
  assumes "rax_holds r t"
  obtains r' t' where "rax_insert r key x = Some (map_of (pairs t) key, r')" "rax_holds r' t'" "map_of (pairs t') = (map_of (pairs t))(key \<mapsto> x)"
proof -
  have h: "sits r [] t" "rt_wf t" "numele r = length (pairs t)" using assms by (simp_all add: rax_holds_def)
  obtain fs s k where l: "plug fs s = t" "pos fs @ k = key" "sits r fs s" "rt_wf s" "cx_wf fs" "fs = [] \<or> alive s" "stuck s k"
    "walk r key ROOT 0 [] = Some (tid s, length (pos fs) + over s k, over s k, frames fs)"
    "insert_walk r key ROOT 0 = Some (tid s, length (pos fs) + over s k, if diverges s k then Some (over s k) else None)"
    by (rule located [OF h(1,2), of key])
  have key: "length key = length (pos fs) + length k" "\<And>m. drop (length (pos fs) + m) key = drop m k" using l(2) by auto
  show thesis
  proof (cases "diverges s k")
    case False
    have n: "numele r = length (pairs (plug fs s))" "rt_wf (plug fs s)" using h(2,3) l(1) by simp_all
    have "rax_insert r key x = put r (tid s) k x" using l(9) key(1) key(2) [of 0] False by (simp add: rax_insert_def put_def over_def)
    moreover obtain r' t' where "put r (tid s) k x = Some (map_of (pairs (plug fs s)) (pos fs @ k), r')" "rax_holds r' t'" "map_of (pairs t') = (map_of (pairs (plug fs s)))(pos fs @ k \<mapsto> x)"
      by (rule put_ok [OF l(3,4,5,7) False n])
    ultimately show thesis using that l(1,2) by simp
  next
    case True
    then have kn: "k \<noteq> []" by (simp add: diverges_def)
    obtain i v es where s: "s = RT i v es" by (cases s)
    have lo: "labels_ok (map fst es)" using l(4) s by simp
    obtain lb c where c: "es = [(lb, c)]" "length lb > 1"
      by (rule labels_cases [OF lo]) (use True in \<open>auto simp: diverges_def s node_of_branching\<close>)
    define m where "m = matched lb k"
    have o: "over s k = m" using True c by (simp add: over_def s node_of_def m_def)
    have ml: "m < length lb" using l(7) kn c matched_le [of lb k] matched_full [of lb k] by (force simp: stuck_def s m_def)
    have w: "rt_wf c" "alive c" using l(4) by (simp_all add: s c)
    obtain fs' s' r' b where p: "split_compressed r i m = Some (tid s', r')" "sits r' fs' s'" "numele r' = numele r" "rt_wf s'" "cx_wf fs'" "pos fs' = pos fs @ take m lb"
      "edges s' = [([lb ! m], b)]" "pairs (plug fs' s') = pairs (plug fs (RT i v [(lb, c)]))"
      by (rule split_ok [OF l(3) [unfolded s c] ml w l(5)])
    have q: "pos fs' @ drop m k = key" using l(2) p(6) matched_take [of lb k] by (simp add: m_def)
    have st: "stuck s' (drop m k)" using p(7) ml matched_differs [of lb k] by (cases "m < length k") (auto simp: stuck_def m_def Cons_nth_drop_Suc [symmetric])
    have nd: "\<not> diverges s' (drop m k)" using p(7) by (simp add: diverges_def node_of_def)
    have w': "rt_wf (plug fs' s')" using p(4,5,7) wf_plug [of fs' s'] by (auto simp: alive_def)
    have n: "numele r' = length (pairs (plug fs' s'))" "pairs (plug fs' s') = pairs t" using p(3,8) h(3) l(1) by (simp_all add: s c)
    have "rax_insert r key x = put r' (tid s') (drop m k) x"
      using l(9) key True o p(1) matched_le2 [of lb k] by (auto simp: rax_insert_def put_def s m_def)
    moreover obtain r2 t' where "put r' (tid s') (drop m k) x = Some (map_of (pairs (plug fs' s')) (pos fs' @ drop m k), r2)" "rax_holds r2 t'" "map_of (pairs t') = (map_of (pairs (plug fs' s')))(pos fs' @ drop m k \<mapsto> x)"
      by (rule put_ok [OF p(2,4,5) st nd n(1) w'])
    ultimately show thesis using that n(2) q by simp
  qed
qed

subsection \<open>Removal\<close>

lemma tid_in_cx: "fs \<noteq> [] \<Longrightarrow> tid (plug fs s) \<in> set (cx_ids fs)"
proof (induction fs arbitrary: s)
  case (Cons f fs)
  then show ?case by (cases f; cases "fs = []") auto
qed simp

lemma child_not_root:
  assumes "sits r (f # fs) s"
  shows "tid s \<noteq> ROOT"
proof
  assume "tid s = ROOT"
  then have "tid s \<in> set (cx_ids (f # fs))" using assms tid_in_cx [of "f # fs" s] by (simp add: sits_def)
  then have "0 < count (mset (ids s)) (tid s)" "0 < count (mset (cx_ids (f # fs))) (tid s)"
    using ids_root [of s] by (metis count_greater_zero_iff set_mset_mset)+
  moreover have "count (mset (ids s) + mset (cx_ids (f # fs))) (tid s) \<le> 1" by (rule covers_count [of r]) (use assms in \<open>simp add: sits_def\<close>)
  ultimately show False unfolding count_union by linarith
qed

lemma remove_edge_ok:
  assumes "labels_ok (map fst (L @ (l, c) # R))"
  shows "remove_edge (node_of (RT i v (L @ (l, c) # R))) (length L) = Some (node_of (RT i v (L @ R)))"
  using assms
proof (cases rule: edge_cases [where i = i and v = v])
  case compressed
  then show ?thesis by (auto simp: remove_edge_def node_of_def Let_def)
next
  case (branching bs b cs)
  have "node_of (RT i v (L @ R)) = \<lparr>chars = bs @ cs, children = map (tid \<circ> snd) L @ map (tid \<circ> snd) R, compressed = False, rvalue = v\<rparr>"
    using node_of_branching [of "L @ R" "bs @ cs" i v] branching(4,5) by simp
  then show ?thesis using branching(3,6) by (simp add: remove_edge_def)
qed

lemma prune_ok:
  "sits r fs s \<Longrightarrow> rt_wf s \<Longrightarrow> cx_wf fs \<Longrightarrow> \<exists>r' fs' s'. prune r (tid s) (frames fs) = Some (tid s', frames fs', r') \<and> sits r' fs' s' \<and>
     rt_wf (plug fs' s') \<and> pairs (plug fs' s') = pairs (plug fs s) \<and> numele r' = numele r"
proof (induction fs arbitrary: s r)
  case Nil
  have "node r (tid s) = Some (node_of s)" using Nil.prems(1) by (cases s) (simp add: sits_stock)
  then show ?case using Nil.prems by (intro exI [of _ r] exI [of _ "[]"] exI [of _ s]) simp
next
  case (Cons f fs)
  obtain i v L l R where f: "f = Cx i v L l R" by (cases f)
  obtain j w es where s: "s = RT j w es" by (cases s)
  have n: "node r j = Some (node_of s)" using Cons.prems(1) by (simp add: s sits_stock)
  have j: "j \<noteq> ROOT" using child_not_root [OF Cons.prems(1)] by (simp add: s)
  show ?case
  proof (cases "alive s")
    case True
    have "rt_wf (plug (f # fs) s)" using Cons.prems True wf_plug [of "f # fs" s] by simp
    moreover have "prune r (tid s) (frames (f # fs)) = Some (tid s, frames (f # fs), r)" using n True by (simp add: f s alive_def) (auto simp: node_of_def)
    ultimately show ?thesis using Cons.prems(1) by blast
  next
    case False
    then have d: "w = None" "es = []" by (simp_all add: alive_def s)
    let ?p = "RT i v (L @ (l, s) # R)" let ?q = "RT i v (L @ R)"
    have lo: "labels_ok (map fst (L @ (l, s) # R))" using Cons.prems(3) by (simp add: f)
    have "sits r fs ?p" using Cons.prems(1) by (simp only: f sits_child)
    then have p: "node r i = Some (node_of ?p)" "stock r (s # map snd (L @ R)) fs i"
      using stock_perm [of r "map snd (L @ (l, s) # R)" fs i "s # map snd (L @ R)"] by (simp_all add: sits_stock)
    obtain r1 where r1: "set_node r i (node_of ?q) = Some r1" "stock r1 (s # map snd (L @ R)) fs i" "node r1 i = Some (node_of ?q)" "numele r1 = numele r"
      by (rule stock_set [OF p(2)])
    obtain r2 where r2: "rax_release r1 j = Some r2" "stock r2 (map snd es @ map snd (L @ R)) fs i" "node r2 i = node r1 i" "numele r2 = numele r1"
      by (rule stock_release [OF r1(2) [unfolded s]])
    have q: "sits r2 fs ?q" using r2(2,3) r1(3) d by (simp add: sits_stock)
    have w: "rt_wf ?q" using labels_ok_remove lo Cons.prems(3) by (fastforce simp: f)
    have "prune r (tid s) (frames (f # fs)) = prune r2 i (frames fs)"
      using n j d p(1) remove_edge_ok [OF lo, of i v] r1(1) r2(1) by (simp add: f s) (simp add: node_of_def [of "RT j None []"])
    moreover have "pairs (plug fs ?q) = pairs (plug (f # fs) s)" by (simp add: f s d pairs_plug)
    ultimately show ?thesis using Cons.IH [OF q w] Cons.prems(3) r1(4) r2(4) by (simp add: f)
  qed
qed

lemma merge_chain_ok:
  "sits r fs s \<Longrightarrow> rt_wf s \<Longrightarrow> \<exists>r' s'. merge_chain r (tid s) = Some r' \<and> sits r' fs s' \<and> rt_wf s' \<and> (alive s \<longrightarrow> alive s') \<and> pairs s' = pairs s \<and> numele r' = numele r"
proof (induction "length (ids s)" arbitrary: s r rule: less_induct)
  case less
  obtain i v es where s: "s = RT i v es" by (cases s)
  have n: "node r i = Some (node_of s)" "\<forall>(l, c) \<in> set es. node r (tid c) = Some (node_of c)"
    using less.prems(1) by (auto simp: s sits_stock stock_def, metis owns.elims(2) rt.sel(1) image_eqI snd_conv)
  show ?case
  proof (cases "\<exists>l j m c. es = [(l, RT j None [(m, c)])]")
    case True
    then obtain l j m c where es: "es = [(l, RT j None [(m, c)])]" by blast
    let ?q = "RT i v [(l @ m, c)]"
    have st: "stock r [RT j None [(m, c)]] fs i" using less.prems(1) by (simp add: s es sits_stock)
    obtain r1 where r1: "set_node r i (node_of ?q) = Some r1" "stock r1 [RT j None [(m, c)]] fs i" "node r1 i = Some (node_of ?q)" "numele r1 = numele r"
      by (rule stock_set [OF st])
    obtain r2 where r2: "rax_release r1 j = Some r2" "stock r2 (map snd [(m, c)] @ []) fs i" "node r2 i = node r1 i" "numele r2 = numele r1"
      by (rule stock_release [OF r1(2)])
    have q: "sits r2 fs ?q" using r2(2,3) r1(3) by (simp add: sits_stock)
    have w: "rt_wf ?q" using less.prems(2) by (simp add: s es)
    have "merge_chain r (tid s) = merge_chain r2 i"
      using n r1(1) r2(1) by (subst merge_chain.simps) (simp add: s es node_of_def Let_def)
    then show ?thesis using less.hyps [OF _ q w] r1(4) r2(4) by (simp add: s es alive_def)
  next
    case False
    have "merge_chain r (tid s) = Some r"
    proof (cases "\<exists>l c. es = [(l, c)]")
      case True
      then obtain l j w ds where es: "es = [(l, RT j w ds)]" by (metis rt.exhaust)
      have "w \<noteq> None \<or> length ds \<noteq> 1" using False es by (cases w) (auto simp: length_Suc_conv)
      then show ?thesis using n by (subst merge_chain.simps) (auto simp: s es node_of_def)
    next
      case False
      then have "length es \<noteq> 1" by (auto simp: length_Suc_conv)
      then show ?thesis using n by (subst merge_chain.simps) (simp add: s node_of_def)
    qed
    then show ?thesis using less.prems by blast
  qed
qed

lemma merge_up_ok:
  "sits r fs s \<Longrightarrow> rt_wf (plug fs s) \<Longrightarrow> \<exists>r' t. merge_up r (frames fs) = Some r' \<and> sits r' [] t \<and> rt_wf t \<and> pairs t = pairs (plug fs s) \<and> numele r' = numele r"
proof (induction fs arbitrary: s r)
  case (Cons f fs)
  obtain i v L l R where f: "f = Cx i v L l R" by (cases f)
  let ?p = "RT i v (L @ (l, s) # R)"
  have p: "sits r fs ?p" "rt_wf ?p" "cx_wf fs" using Cons.prems wf_plug [of fs ?p] by (simp_all add: f sits_child)
  then obtain r1 s1 where r1: "merge_chain r i = Some r1" "sits r1 fs s1" "rt_wf s1" "alive ?p \<longrightarrow> alive s1" "pairs s1 = pairs ?p" "numele r1 = numele r"
    using merge_chain_ok [OF p(1,2)] by auto
  have "rt_wf (plug fs s1)" "pairs (plug fs s1) = pairs (plug (f # fs) s)" using r1(3,4,5) p(3) wf_plug [of fs s1] by (simp_all add: alive_def f pairs_plug)
  then show ?case using Cons.IH [OF r1(2)] r1(1,6) by (simp add: f)
qed auto

lemma map_of_drop_root: "rt_wf (RT i v es) \<Longrightarrow> map_of (pairs (RT i None es)) = (map_of (pairs (RT i v es)))([] := None)"
  using root_value [of i None es] by (cases v) (auto simp: fun_eq_iff)

lemma remove_ok:
  assumes "rax_holds r t"
  obtains r' t' where "rax_remove r key = Some (map_of (pairs t) key, r')" "rax_holds r' t'" "map_of (pairs t') = (map_of (pairs t))(key := None)"
proof -
  have h: "sits r [] t" "rt_wf t" "numele r = length (pairs t)" using assms by (simp_all add: rax_holds_def)
  obtain fs s k where l: "plug fs s = t" "pos fs @ k = key" "sits r fs s" "rt_wf s" "cx_wf fs" "fs = [] \<or> alive s" "stuck s k"
    "walk r key ROOT 0 [] = Some (tid s, length (pos fs) + over s k, over s k, frames fs)"
    "insert_walk r key ROOT 0 = Some (tid s, length (pos fs) + over s k, if diverges s k then Some (over s k) else None)"
    by (rule located [OF h(1,2), of key])
  obtain i v es where s: "s = RT i v es" by (cases s)
  have n: "node r i = Some (node_of s)" using l(3) by (simp add: s sits_stock)
  have key: "length key = length (pos fs) + length k" using l(2) by auto
  have m: "map_of (pairs t) key = map_of (pairs s) k" using map_of_plug [OF l(5), of s key] l(1,2) by auto
  show thesis
  proof (cases "map_of (pairs t) key")
    case None
    have "k \<noteq> [] \<or> v = None" using None m root_value [of i v es] l(4) by (auto simp: s simp del: pairs_RT)
    then have "rax_remove r key = Some (None, r)" using l(8) key n by (auto simp: rax_remove_def s over_def diverges_def node_of_def)
    then show thesis using that [of r t] assms None by (simp add: fun_upd_idem)
  next
    case (Some x)
    have k: "k = []"
    proof (rule ccontr)
      assume "k \<noteq> []"
      then show False using stuck_absent [OF l(4,7)] Some m map_of_SomeD by fastforce
    qed
    then have v: "v = Some x" using Some m root_value [of i v es] l(4) by (simp add: s)
    let ?s = "RT i None es"
    obtain r1 where r1: "set_node r i (node_of ?s) = Some r1" "sits r1 fs ?s" "numele r1 = numele r"
      by (rule sits_value [OF l(3) [unfolded s]])
    let ?r = "r1\<lparr>numele := numele r1 - 1\<rparr>"
    have "sits ?r fs ?s" "rt_wf ?s" using r1(2) l(4) by (simp_all add: s)
    then obtain r2 fs2 s2 where r2: "prune ?r i (frames fs) = Some (tid s2, frames fs2, r2)" "sits r2 fs2 s2" "rt_wf (plug fs2 s2)" "pairs (plug fs2 s2) = pairs (plug fs ?s)" "numele r2 = numele r1 - 1"
      using prune_ok [of ?r fs ?s] l(5) by auto
    have w2: "rt_wf s2" "cx_wf fs2" "fs2 = [] \<or> alive s2" using r2(3) wf_plug [of fs2 s2] by auto
    obtain r3 s3 where r3: "merge_chain r2 (tid s2) = Some r3" "sits r3 fs2 s3" "rt_wf s3" "alive s2 \<longrightarrow> alive s3" "pairs s3 = pairs s2" "numele r3 = numele r2"
      using merge_chain_ok [OF r2(2) w2(1)] by auto
    have w3: "rt_wf (plug fs2 s3)" "pairs (plug fs2 s3) = pairs (plug fs ?s)" using r3(3,4,5) w2 wf_plug [of fs2 s3] r2(4) by (auto simp: pairs_plug)
    obtain r4 t4 where r4: "merge_up r3 (frames fs2) = Some r4" "sits r4 [] t4" "rt_wf t4" "pairs t4 = pairs (plug fs ?s)" "numele r4 = numele r3"
      using merge_up_ok [OF r3(2) w3(1)] w3(2) by auto
    have "rax_remove r key = Some (Some x, r4)"
      using l(8) key k n v r1(1) r2(1) r3(1) r4(1) node_of_value [of None i v es] by (simp add: rax_remove_def s over_def diverges_def node_of_value [symmetric]) (simp add: node_of_def)
    moreover have u: "map_of (pairs t4) = (map_of (pairs t))(key := None)"
      using map_of_plug_upd [OF l(5) map_of_drop_root [of i v es]] l(1,2,4) r4(4) k by (simp add: s del: pairs_RT)
    moreover have "length (pairs t4) = length (pairs t) - 1" using numele_card [OF h(2)] numele_card [OF r4(3)] Some by (auto simp: u domIff)
    ultimately show thesis using that [of r4 t4] Some r4 r3(6) r2(5) r1(3) h(3) by (simp add: rax_holds_def)
  qed
qed

lemma new_ok: "rax_holds rax_new (RT 0 None [])"
  by (simp add: rax_holds_def sits_def rax_new_def covers_def node_def nth_opt_def node_of_def leaf_node_def ROOT_def labels_ok_def)

lemma find_mut_ok:
  assumes "rax_holds r t"
  obtains r' t' where "rax_find_mut r key f = Some r'" "rax_holds r' t'" "map_of (pairs t') = (map_of (pairs t))(key := map_option f (map_of (pairs t) key))"
proof -
  have h: "sits r [] t" "rt_wf t" "numele r = length (pairs t)" using assms by (simp_all add: rax_holds_def)
  obtain fs s k where l: "plug fs s = t" "pos fs @ k = key" "sits r fs s" "rt_wf s" "cx_wf fs" "fs = [] \<or> alive s" "stuck s k"
    "walk r key ROOT 0 [] = Some (tid s, length (pos fs) + over s k, over s k, frames fs)"
    "insert_walk r key ROOT 0 = Some (tid s, length (pos fs) + over s k, if diverges s k then Some (over s k) else None)"
    by (rule located [OF h(1,2), of key])
  obtain i v es where s: "s = RT i v es" by (cases s)
  have key: "length key = length (pos fs) + length k" using l(2) by auto
  have m: "map_of (pairs t) key = map_of (pairs s) k" using map_of_plug [OF l(5), of s key] l(1,2) by auto
  show thesis
  proof (cases "k = []")
    case False
    have "map_of (pairs s) k = None" using stuck_absent [OF l(4,7) False] by (force simp: map_of_eq_None_iff)
    moreover have "rax_find_mut r key f = Some r" using l(8) key False by (auto simp: rax_find_mut_def over_def)
    ultimately show thesis using that [of r t] assms m by (simp add: fun_upd_idem)
  next
    case True
    let ?s = "RT i (map_option f v) es"
    obtain r1 where r1: "set_node r i (node_of ?s) = Some r1" "sits r1 fs ?s" "numele r1 = numele r"
      by (rule sits_value [OF l(3) [unfolded s]])
    have n: "node r i = Some (node_of (RT i v es))" using l(3) by (simp add: s sits_stock)
    have "rax_find_mut r key f = Some r1" using l(8) key True n r1(1) node_of_value [of "map_option f v" i v es]
      by (simp add: rax_find_mut_def over_def diverges_def s) (simp add: node_of_def)
    moreover have w: "rt_wf (plug fs ?s)" using l(4,5,6) wf_plug [of fs ?s] by (auto simp: s alive_def)
    moreover have "length (pairs (plug fs ?s)) = length (pairs t)" using l(1) by (cases v) (auto simp: s pairs_plug)
    moreover have "map_of (pairs ?s) = (map_of (pairs s))([] := map_option f v)" using root_value [of i None es] l(4) by (cases v) (auto simp: s fun_eq_iff)
    then have "map_of (pairs (plug fs ?s)) = (map_of (pairs t))(key := map_option f (map_of (pairs t) key))"
      using map_of_plug_upd [OF l(5), of ?s s "[]" "map_option f v"] l(1,2,4) True m root_value [of i v es] by (simp add: s del: pairs_RT)
    moreover have "sits r1 [] (plug fs ?s)" using r1(2) sits_plug by blast
    ultimately show thesis using that [of r1 "plug fs ?s"] r1(3) h(3) by (simp add: rax_holds_def)
  qed
qed

end
