(* ===== verification/Rax_Iter.thy ===== *)
theory Rax_Iter
  imports Rax
begin

text \<open>
  The cursor over a radix tree (\<^verbatim>\<open>RaxIter\<close> of \<^verbatim>\<open>src/src/encoding/rax.rs\<close>): the key under it, the path of frames above its node, and the
  flags. The tree it borrows is the first argument of every operation; the key and value it lends are results.
\<close>

record riter =
  it_key :: bytes
  it_stack :: "rframe list"
  it_cur :: nat
  it_pending :: bool
  it_eof :: bool
  it_forward :: bool

definition iter_new :: riter where
  "iter_new = \<lparr>it_key = [], it_stack = [], it_cur = ROOT, it_pending = False, it_eof = True, it_forward = True\<rparr>"

subsection \<open>Movement\<close>

definition descend :: "'v rax \<Rightarrow> riter \<Rightarrow> nat \<Rightarrow> riter option" where
  "descend r it i = do {
     n \<leftarrow> node r (it_cur it);
     (let st = \<lparr>fr_node = it_cur it, fr_child = i, fr_klen = length (it_key it)\<rparr> # it_stack it;
          key = (if compressed n then it_key it @ chars n
                 else case nth_opt (chars n) i of Some c \<Rightarrow> it_key it @ [c] | None \<Rightarrow> it_key it) in do {
        c \<leftarrow> nth_opt (children n) i;
        Some (it\<lparr>it_stack := st, it_key := key, it_cur := c\<rparr>) }) }"

text \<open>Stepping up; nothing at the root.\<close>

definition ascend :: "riter \<Rightarrow> (rframe \<times> riter) option" where
  "ascend it = (case it_stack it of
     [] \<Rightarrow> None
   | f # fs \<Rightarrow> Some (f, it\<lparr>it_stack := fs, it_key := take (fr_klen f) (it_key it), it_cur := fr_node f\<rparr>))"

partial_function (option) descend_rightmost :: "'v rax \<Rightarrow> riter \<Rightarrow> riter option" where
  "descend_rightmost r it = do {
     n \<leftarrow> node r (it_cur it);
     if children n = [] then Some it
     else do { it \<leftarrow> descend r it (length (children n) - 1); descend_rightmost r it } }"

text \<open>The inner loop of \<^verbatim>\<open>step_forward\<close>: up to the first node with a later child, then down to that child; false when there is none.\<close>

partial_function (option) climb :: "'v rax \<Rightarrow> riter \<Rightarrow> (bool \<times> riter) option" where
  "climb r it = (case ascend it of
     None \<Rightarrow> Some (False, it)
   | Some (f, it) \<Rightarrow> do {
       n \<leftarrow> node r (it_cur it);
       if fr_child f + 1 < length (children n) then do { it \<leftarrow> descend r it (fr_child f + 1); Some (True, it) }
       else climb r it })"

definition has_child :: "'v rax \<Rightarrow> riter \<Rightarrow> bool option" where
  "has_child r it = do { n \<leftarrow> node r (it_cur it); Some (children n \<noteq> []) }"

definition has_value :: "'v rax \<Rightarrow> riter \<Rightarrow> bool option" where
  "has_value r it = do { n \<leftarrow> node r (it_cur it); Some (rvalue n \<noteq> None) }"

partial_function (option) step_forward :: "'v rax \<Rightarrow> bool \<Rightarrow> riter \<Rightarrow> (bool \<times> riter) option" where
  "step_forward r descend_first it = do {
     dn \<leftarrow> (if descend_first then has_child r it else Some False);
     (moved, it) \<leftarrow> (if dn then do { it \<leftarrow> descend r it 0; Some (True, it) } else climb r it);
     if \<not> moved then Some (False, it)
     else do {
       v \<leftarrow> has_value r it;
       if v then Some (True, it) else step_forward r True it } }"

partial_function (option) step_backward_loop :: "'v rax \<Rightarrow> riter \<Rightarrow> (bool \<times> riter) option" where
  "step_backward_loop r it = (case ascend it of
     None \<Rightarrow> Some (False, it)
   | Some (f, it) \<Rightarrow>
       if fr_child f > 0 then do {
         it \<leftarrow> descend r it (fr_child f - 1);
         it \<leftarrow> descend_rightmost r it;
         v \<leftarrow> has_value r it;
         if v then Some (True, it) else step_backward_loop r it }
       else do {
         v \<leftarrow> has_value r it;
         if v then Some (True, it) else step_backward_loop r it })"

definition step_backward :: "'v rax \<Rightarrow> bool \<Rightarrow> riter \<Rightarrow> (bool \<times> riter) option" where
  "step_backward r check_self it = do {
     v \<leftarrow> (if check_self then has_value r it else Some False);
     if v then Some (True, it) else step_backward_loop r it }"

text \<open>Advancing and yielding. The code ends a cursor that has no value under it without marking it exhausted.\<close>

definition riter_next :: "'v rax \<Rightarrow> riter \<Rightarrow> ((bytes \<times> 'v) option \<times> riter) option" where
  "riter_next r it =
     (if it_eof it then Some (None, it)
      else do {
        (ok, it) \<leftarrow> (if it_pending it then Some (True, it\<lparr>it_pending := False\<rparr>)
                    else if it_forward it then step_forward r True it else step_backward r False it);
        if \<not> ok then Some (None, it\<lparr>it_eof := True\<rparr>)
        else do {
          n \<leftarrow> node r (it_cur it);
          Some (map_option (\<lambda>v. (it_key it, v)) (rvalue n), it) } })"

partial_function (option) collect_pairs :: "'v rax \<Rightarrow> riter \<Rightarrow> ((bytes \<times> 'v) list \<times> riter) option" where
  "collect_pairs r it = do {
     (x, it) \<leftarrow> riter_next r it;
     (case x of
        None \<Rightarrow> Some ([], it)
      | Some kv \<Rightarrow> do { (xs, it) \<leftarrow> collect_pairs r it; Some (kv # xs, it) }) }"

subsection \<open>Positioning\<close>

definition iter_reset :: "riter \<Rightarrow> riter" where
  "iter_reset it = it\<lparr>it_key := [], it_stack := [], it_cur := ROOT, it_pending := False, it_eof := False\<rparr>"

text \<open>How every positioning ends.\<close>

definition settle :: "bool \<times> riter \<Rightarrow> riter" where
  "settle = (\<lambda>(found, it). if found then it\<lparr>it_pending := True, it_eof := False\<rparr> else it\<lparr>it_eof := True\<rparr>)"

definition start_first :: "'v rax \<Rightarrow> riter \<Rightarrow> riter option" where
  "start_first r it = (let it = (iter_reset it)\<lparr>it_forward := True\<rparr> in do {
     n \<leftarrow> node r ROOT;
     if rvalue n \<noteq> None then Some (it\<lparr>it_pending := True\<rparr>)
     else do { p \<leftarrow> step_forward r True it; Some (settle p) } })"

definition start_last :: "'v rax \<Rightarrow> riter \<Rightarrow> riter option" where
  "start_last r it = do {
     it \<leftarrow> descend_rightmost r ((iter_reset it)\<lparr>it_forward := False\<rparr>);
     p \<leftarrow> step_backward r True it;
     Some (settle p) }"

datatype seek_outcome = AtTarget | Below | Diverge (above: "nat option") (below_child: "nat option")

partial_function (option) seek_walk :: "'v rax \<Rightarrow> bytes \<Rightarrow> riter \<Rightarrow> nat \<Rightarrow> (seek_outcome \<times> riter) option" where
  "seek_walk r target it i = do {
     n \<leftarrow> node r (it_cur it);
     if i = length target then Some (AtTarget, it)
     else if children n = [] then Some (Below, it)
     else if compressed n then
       (let lab = chars n; m = matched lab (drop i target) in
        if m = length lab then do { it \<leftarrow> descend r it 0; seek_walk r target it (i + m) }
        else do {
          up \<leftarrow> (if i + m = length target then Some True
                 else do { a \<leftarrow> nth_opt lab m; b \<leftarrow> nth_opt target (i + m); Some (a > b) });
          Some (Diverge (if up then Some 0 else None) (if up then None else Some 0), it) })
     else do {
       b \<leftarrow> nth_opt target i;
       (case bsearch (chars n) b of
          Inr j \<Rightarrow> do { it \<leftarrow> descend r it j; seek_walk r target it (i + 1) }
        | Inl j \<Rightarrow> Some (Diverge (if j < length (children n) then Some j else None) (if j = 0 then None else Some (j - 1)), it)) } }"

definition seek_found :: "'v rax \<Rightarrow> seek_op \<Rightarrow> seek_outcome \<Rightarrow> riter \<Rightarrow> (bool \<times> riter) option" where
  "seek_found r op oc it =
     (if op = Ge \<or> op = Gt then
        (case oc of
           AtTarget \<Rightarrow> do {
             v \<leftarrow> (if op = Ge then has_value r it else Some False);
             if v then Some (True, it) else step_forward r True it }
         | Below \<Rightarrow> step_forward r False it
         | Diverge (Some j) _ \<Rightarrow> do {
             it \<leftarrow> descend r it j;
             v \<leftarrow> has_value r it;
             if v then Some (True, it) else step_forward r True it }
         | Diverge None _ \<Rightarrow> step_forward r False it)
      else
        (case oc of
           AtTarget \<Rightarrow> do {
             v \<leftarrow> (if op = Le then has_value r it else Some False);
             if v then Some (True, it) else step_backward r False it }
         | Below \<Rightarrow> step_backward r True it
         | Diverge _ (Some j) \<Rightarrow> do {
             it \<leftarrow> descend r it j;
             it \<leftarrow> descend_rightmost r it;
             step_backward r True it }
         | Diverge _ None \<Rightarrow> step_backward r True it))"

definition do_seek :: "'v rax \<Rightarrow> riter \<Rightarrow> seek_op \<Rightarrow> bytes \<Rightarrow> riter option" where
  "do_seek r it op target = do {
     (oc, it) \<leftarrow> seek_walk r target (iter_reset it) 0;
     p \<leftarrow> seek_found r op oc it;
     Some (settle p) }"

subsection \<open>The tree's iterators\<close>

definition rax_iter :: "'v rax \<Rightarrow> riter option" where
  "rax_iter r = start_first r iter_new"

definition rax_iter_rev :: "'v rax \<Rightarrow> riter option" where
  "rax_iter_rev r = start_last r iter_new"

definition rax_seek :: "'v rax \<Rightarrow> seek_op \<Rightarrow> bytes \<Rightarrow> riter option" where
  "rax_seek r op key = do { it \<leftarrow> do_seek r iter_new op key; Some (it\<lparr>it_forward := True\<rparr>) }"

definition rax_seek_rev :: "'v rax \<Rightarrow> seek_op \<Rightarrow> bytes \<Rightarrow> riter option" where
  "rax_seek_rev r op key = do { it \<leftarrow> do_seek r iter_new op key; Some (it\<lparr>it_forward := False\<rparr>) }"

definition rax_first :: "'v rax \<Rightarrow> (bytes \<times> 'v) option option" where
  "rax_first r = do { it \<leftarrow> rax_iter r; (x, _) \<leftarrow> riter_next r it; Some x }"

definition rax_last :: "'v rax \<Rightarrow> (bytes \<times> 'v) option option" where
  "rax_last r = do { it \<leftarrow> rax_iter_rev r; (x, _) \<leftarrow> riter_next r it; Some x }"

declare descend_rightmost.simps [code] climb.simps [code] step_forward.simps [code] step_backward_loop.simps [code] collect_pairs.simps [code] seek_walk.simps [code]

end
