(* ===== verification/Rax_Iter_Proofs.thy ===== *)
theory Rax_Iter_Proofs
  imports Rax_Proofs Rax_Iter
begin

text \<open>A cursor is a position of the tree; moving it moves through the ordered contents.\<close>

subsection \<open>Movement\<close>

definition points :: "'v rax \<Rightarrow> riter \<Rightarrow> 'v cx list \<Rightarrow> 'v rt \<Rightarrow> bool" where
  "points r it fs s \<longleftrightarrow> it_cur it = tid s \<and> it_key it = pos fs \<and> it_stack it = frames fs \<and> sits r fs s \<and> rt_wf (plug fs s)"

text \<open>The flags of the cursor do not move.\<close>

definition flags :: "riter \<Rightarrow> bool \<times> bool \<times> bool" where
  "flags it = (it_pending it, it_eof it, it_forward it)"

lemma points_node: "points r it fs s \<Longrightarrow> node r (it_cur it) = Some (node_of s)"
  by (cases s) (simp add: points_def sits_stock)

lemma points_wf: "points r it fs s \<Longrightarrow> rt_wf s \<and> cx_wf fs \<and> (fs = [] \<or> alive s)"
  using wf_plug [of fs s] by (auto simp: points_def)

lemma node_of_rvalue [simp]: "rvalue (node_of s) = tval s" and node_of_children [simp]: "children (node_of s) = map (tid \<circ> snd) (edges s)"
  by (simp_all add: node_of_def)

lemma points_value: "points r it fs s \<Longrightarrow> has_value r it = Some (tval s \<noteq> None)"
  by (simp add: has_value_def points_node)

lemma points_child: "points r it fs s \<Longrightarrow> has_child r it = Some (edges s \<noteq> [])"
  by (simp add: has_child_def points_node)

lemma descend_ok:
  assumes "points r it fs (RT i v (L @ (l, c) # R))"
  obtains it' where "descend r it (length L) = Some it'" "points r it' (Cx i v L l R # fs) c" "flags it' = flags it"
proof -
  have lo: "labels_ok (map fst (L @ (l, c) # R))" using points_wf [OF assms] by simp
  have n: "node r (it_cur it) = Some (node_of (RT i v (L @ (l, c) # R)))" by (rule points_node [OF assms])
  let ?it = "it\<lparr>it_stack := frames (Cx i v L l R # fs), it_key := pos fs @ l, it_cur := tid c\<rparr>"
  have p: "points r ?it (Cx i v L l R # fs) c" using assms by (simp add: points_def sits_child)
  have "descend r it (length L) = Some ?it"
    using lo
  proof (cases rule: edge_cases [where i = i and v = v])
    case compressed
    then show ?thesis using n assms by (simp add: descend_def points_def)
  next
    case (branching bs b cs)
    then show ?thesis using n assms by (simp add: descend_def points_def nth_append nth_opt_def)
  qed
  then show thesis using that p by (simp add: flags_def)
qed

lemma ascend_root: "points r it [] s \<Longrightarrow> ascend it = None"
  by (simp add: ascend_def points_def)

lemma ascend_ok:
  assumes "points r it (Cx i v L l R # fs) c"
  obtains f it' where "ascend it = Some (f, it')" "fr_child f = length L" "points r it' fs (RT i v (L @ (l, c) # R))" "flags it' = flags it"
proof -
  let ?it = "it\<lparr>it_stack := frames fs, it_key := take (length (pos fs)) (it_key it), it_cur := i\<rparr>"
  have "ascend it = Some (\<lparr>fr_node = i, fr_child = length L, fr_klen = length (pos fs)\<rparr>, ?it)" using assms by (simp add: ascend_def points_def)
  moreover have "points r ?it fs (RT i v (L @ (l, c) # R))" using assms by (simp add: points_def sits_child)
  ultimately show thesis using that by (simp add: flags_def)
qed

lemma alive_pairs: "rt_wf t \<Longrightarrow> alive t \<Longrightarrow> pairs t \<noteq> []"
proof (induction t rule: rt_induct)
  case (RT i v es)
  show ?case
  proof (cases "\<exists>x. v = Some x")
    case False
    then obtain l c es' where "es = (l, c) # es'" using RT.prems(2) by (cases es) (auto simp: alive_def)
    then show ?thesis using RT.IH [of l c] RT.prems(1) by auto
  qed auto
qed

lemma rightmost_ok:
  "points r it fs s \<Longrightarrow> \<exists>it' fs' s'. descend_rightmost r it = Some it' \<and> points r it' fs' s' \<and> flags it' = flags it \<and> edges s' = [] \<and> plug fs' s' = plug fs s \<and>
     (alive s \<longrightarrow> tval s' \<noteq> None) \<and> before fs' @ below (pos fs') (own (tval s')) = before fs @ below (pos fs) (pairs s)"
proof (induction s arbitrary: it fs rule: rt_induct)
  case (RT i v es)
  show ?case
  proof (cases es rule: rev_cases)
    case Nil
    have "descend_rightmost r it = Some it" using points_node [OF RT.prems] Nil by (subst descend_rightmost.simps) (simp add: node_of_def)
    then show ?thesis using RT.prems Nil by (intro exI [of _ it] exI [of _ fs] exI [of _ "RT i v es"]) (auto simp: alive_def)
  next
    case (snoc L e)
    obtain l c where e: "e = (l, c)" by (cases e)
    have p: "points r it fs (RT i v (L @ (l, c) # []))" using RT.prems snoc e by simp
    obtain it1 where it1: "descend r it (length L) = Some it1" "points r it1 (Cx i v L l [] # fs) c" "flags it1 = flags it" by (rule descend_ok [OF p])
    have a: "alive c" using points_wf [OF p] by simp
    have d: "descend_rightmost r it = descend_rightmost r it1"
      using points_node [OF p] it1(1) by (subst descend_rightmost.simps) simp
    have "(l, c) \<in> set es" by (simp add: snoc e)
    from RT.IH [OF this it1(2)] show ?thesis using a it1(3) unfolding d by (auto simp: snoc e)
  qed
qed

lemma climb_ok:
  "points r it fs s \<Longrightarrow> (if after fs = [] then \<exists>it'. climb r it = Some (False, it') \<and> it_key it' = [] \<and> flags it' = flags it
     else \<exists>it' fs' s'. climb r it = Some (True, it') \<and> points r it' fs' s' \<and> flags it' = flags it \<and> fs' \<noteq> [] \<and> plug fs' s' = plug fs s \<and> below (pos fs') (pairs s') @ after fs' = after fs)"
proof (induction fs arbitrary: it s)
  case Nil
  then show ?case using ascend_root [OF Nil] by (subst (1 2) climb.simps) (simp add: points_def)
next
  case (Cons f fs)
  obtain i v L l R where f: "f = Cx i v L l R" by (cases f)
  obtain g it1 where a: "ascend it = Some (g, it1)" "fr_child g = length L" "points r it1 fs (RT i v (L @ (l, s) # R))" "flags it1 = flags it"
    using Cons.prems f by (auto elim: ascend_ok)
  note n = points_node [OF a(3)]
  show ?case
  proof (cases R)
    case Nil
    have "climb r it = climb r it1" using a(1,2) n Nil by (subst climb.simps) simp
    then show ?thesis using Cons.IH [OF a(3)] a(4) Nil by (cases "after fs = []") (auto simp: f)
  next
    case (Cons e R')
    obtain m c where e: "e = (m, c)" by (cases e)
    have "points r it1 fs (RT i v ((L @ [(l, s)]) @ (m, c) # R'))" using a(3) Cons e by simp
    then obtain it2 where it2: "descend r it1 (length (L @ [(l, s)])) = Some it2" "points r it2 (Cx i v (L @ [(l, s)]) m R' # fs) c" "flags it2 = flags it1" by (rule descend_ok)
    have "climb r it = Some (True, it2)" using a(1,2) n Cons it2(1) by (subst climb.simps) simp
    moreover have "pairs c \<noteq> []" using points_wf [OF it2(2)] by (intro alive_pairs) simp_all
    ultimately show ?thesis using it2(2,3) a(4) Cons e
      by (auto simp: f intro!: exI [of _ "Cx i v (L @ [(l, s)]) m R' # fs"] exI [of _ c])
  qed
qed

subsection \<open>The next and the previous key\<close>

text \<open>A cursor on a key.\<close>

definition on_key :: "'v rax \<Rightarrow> riter \<Rightarrow> 'v cx list \<Rightarrow> 'v rt \<Rightarrow> bool" where
  "on_key r it fs s \<longleftrightarrow> points r it fs s \<and> tval s \<noteq> None"

text \<open>Stepping on until the cursor is on a key, from a node that has one at or below it.\<close>

definition to_key :: "'v rax \<Rightarrow> riter \<Rightarrow> (bool \<times> riter) option" where
  "to_key r it = do { v \<leftarrow> has_value r it; if v then Some (True, it) else step_forward r True it }"

lemma step_forward_unfold:
  "step_forward r d it = do {
     dn \<leftarrow> (if d then has_child r it else Some False);
     (moved, it) \<leftarrow> (if dn then do { it \<leftarrow> descend r it 0; Some (True, it) } else climb r it);
     if \<not> moved then Some (False, it) else to_key r it }"
  unfolding to_key_def by (rule step_forward.simps)

lemma to_key_ok:
  "points r it fs s \<Longrightarrow> alive s \<Longrightarrow> \<exists>it' fs' s'. to_key r it = Some (True, it') \<and> on_key r it' fs' s' \<and> flags it' = flags it \<and> plug fs' s' = plug fs s \<and>
     below (pos fs') (pairs s') @ after fs' = below (pos fs) (pairs s) @ after fs"
proof (induction s arbitrary: it fs rule: rt_induct)
  case (RT i v es)
  note val = points_value [OF RT.prems(1)]
  show ?case
  proof (cases "v = None")
    case False
    then show ?thesis using RT.prems val by (intro exI [of _ it] exI [of _ fs] exI [of _ "RT i v es"]) (simp add: to_key_def on_key_def)
  next
    case True
    then obtain l c R where es: "es = [] @ (l, c) # R" using RT.prems(2) by (cases es) (auto simp: alive_def)
    obtain it1 where it1: "descend r it (length ([] :: (bytes \<times> 'a rt) list)) = Some it1" "points r it1 (Cx i v [] l R # fs) c" "flags it1 = flags it"
      using descend_ok [OF RT.prems(1) [unfolded es]] by metis
    have m: "(l, c) \<in> set es" and a: "alive c" using points_wf [OF RT.prems(1)] by (simp_all add: es)
    have "to_key r it = to_key r it1"
      using val True points_child [OF RT.prems(1)] it1(1) es by (simp add: to_key_def [of r it] step_forward_unfold)
    then show ?thesis using RT.IH [OF m it1(2) a] it1(3) True by (simp add: es)
  qed
qed

lemma step_forward_ok:
  assumes "points r it fs s" "ys = (if d then below (pos fs) (kids (edges s)) else []) @ after fs"
  shows "if ys = [] then \<exists>it'. step_forward r d it = Some (False, it') \<and> it_key it' = [] \<and> flags it' = flags it
     else \<exists>it' fs' s'. step_forward r d it = Some (True, it') \<and> on_key r it' fs' s' \<and> flags it' = flags it \<and> plug fs' s' = plug fs s \<and> below (pos fs') (pairs s') @ after fs' = ys"
proof -
  obtain i v es where s: "s = RT i v es" by (cases s)
  show ?thesis
  proof (cases "d \<and> es \<noteq> []")
    case True
    then obtain l c R where es: "es = [] @ (l, c) # R" by (cases es) auto
    obtain it1 where it1: "descend r it (length ([] :: (bytes \<times> 'a rt) list)) = Some it1" "points r it1 (Cx i v [] l R # fs) c" "flags it1 = flags it"
      using descend_ok [OF assms(1) [unfolded s es]] by metis
    have a: "alive c" "rt_wf c" using points_wf [OF assms(1)] by (simp_all add: s es)
    have "step_forward r d it = to_key r it1" using True points_child [OF assms(1)] it1(1) by (simp add: step_forward_unfold s)
    moreover have "ys \<noteq> []" using alive_pairs [OF a(2,1)] assms(2) True by (auto simp: s es)
    moreover have "below (pos (Cx i v [] l R # fs)) (pairs c) @ after (Cx i v [] l R # fs) = ys" using assms(2) True by (simp add: s es)
    ultimately show ?thesis using to_key_ok [OF it1(2) a(1)] it1(3) by (simp add: s es)
  next
    case False
    then have ys: "ys = after fs" using assms(2) s by auto
    have sf: "step_forward r d it = do { (moved, it) \<leftarrow> climb r it; if \<not> moved then Some (False, it) else to_key r it }"
      using False points_child [OF assms(1)] by (auto simp: step_forward_unfold s)
    show ?thesis
    proof (cases "ys = []")
      case True
      then show ?thesis using climb_ok [OF assms(1)] ys sf by auto
    next
      case False
      then obtain it1 fs1 s1 where c: "climb r it = Some (True, it1)" "points r it1 fs1 s1" "flags it1 = flags it" "fs1 \<noteq> []" "plug fs1 s1 = plug fs s" "below (pos fs1) (pairs s1) @ after fs1 = after fs"
        using climb_ok [OF assms(1)] ys by auto
      have "alive s1" using points_wf [OF c(2)] c(4) by simp
      then show ?thesis using to_key_ok [OF c(2)] c False ys sf by simp
    qed
  qed
qed

lemma step_backward_loop_ok:
  "points r it fs s \<Longrightarrow> (if before fs = [] then \<exists>it'. step_backward_loop r it = Some (False, it') \<and> it_key it' = [] \<and> flags it' = flags it
     else \<exists>it' fs' s'. step_backward_loop r it = Some (True, it') \<and> on_key r it' fs' s' \<and> flags it' = flags it \<and> plug fs' s' = plug fs s \<and> before fs' @ below (pos fs') (own (tval s')) = before fs)"
proof (induction fs arbitrary: it s)
  case Nil
  then show ?case using ascend_root [OF Nil] by (subst (1 2) step_backward_loop.simps) (simp add: points_def)
next
  case (Cons f fs)
  obtain i v L l R where f: "f = Cx i v L l R" by (cases f)
  obtain g it1 where a: "ascend it = Some (g, it1)" "fr_child g = length L" "points r it1 fs (RT i v (L @ (l, s) # R))" "flags it1 = flags it"
    using Cons.prems f by (auto elim: ascend_ok)
  show ?case
  proof (cases L rule: rev_cases)
    case Nil
    have u: "step_backward_loop r it = (if v \<noteq> None then Some (True, it1) else step_backward_loop r it1)"
      using a(1,2) points_value [OF a(3)] Nil by (subst step_backward_loop.simps) simp
    show ?thesis
    proof (cases "v = None")
      case True
      then show ?thesis using Cons.IH [OF a(3)] a(4) u Nil by (cases "before fs = []") (auto simp: f)
    next
      case False
      then have "on_key r it1 fs (RT i v (L @ (l, s) # R))" using a(3) by (simp add: on_key_def)
      then show ?thesis using u a(4) Nil False by (auto simp: f intro!: exI [of _ fs] exI [of _ "RT i v (L @ (l, s) # R)"])
    qed
  next
    case (snoc L' e)
    obtain m c where e: "e = (m, c)" by (cases e)
    have "points r it1 fs (RT i v (L' @ (m, c) # (l, s) # R))" using a(3) snoc e by simp
    then obtain it2 where it2: "descend r it1 (length L') = Some it2" "points r it2 (Cx i v L' m ((l, s) # R) # fs) c" "flags it2 = flags it1" by (rule descend_ok)
    have al: "alive c" "rt_wf c" using points_wf [OF it2(2)] by simp_all
    obtain it3 fs3 s3 where it3: "descend_rightmost r it2 = Some it3" "points r it3 fs3 s3" "flags it3 = flags it2" "plug fs3 s3 = plug (Cx i v L' m ((l, s) # R) # fs) c" "tval s3 \<noteq> None"
      "before fs3 @ below (pos fs3) (own (tval s3)) = before (Cx i v L' m ((l, s) # R) # fs) @ below (pos (Cx i v L' m ((l, s) # R) # fs)) (pairs c)"
      using rightmost_ok [OF it2(2)] al(1) by blast
    have "step_backward_loop r it = Some (True, it3)"
      using a(1,2) it2(1) it3(1,5) points_value [OF it3(2)] snoc by (subst step_backward_loop.simps) simp
    moreover have "on_key r it3 fs3 s3" using it3(2,5) by (simp add: on_key_def)
    moreover have "before fs3 @ below (pos fs3) (own (tval s3)) = before (f # fs)" using it3(6) by (simp add: f snoc e)
    moreover have "before (f # fs) \<noteq> []" using alive_pairs [OF al(2,1)] by (simp add: f snoc e)
    ultimately show ?thesis using it3(3,4) it2(3) a(4) by (auto simp: f snoc e)
  qed
qed

subsection \<open>Yielding\<close>

definition upcoming :: "'v cx list \<Rightarrow> 'v rt \<Rightarrow> (bytes \<times> 'v) list" where
  "upcoming fs s = below (pos fs) (pairs s) @ after fs"

definition so_far :: "'v cx list \<Rightarrow> 'v rt \<Rightarrow> (bytes \<times> 'v) list" where
  "so_far fs s = before fs @ below (pos fs) (own (tval s))"

lemma on_key_lists:
  assumes "on_key r it fs s"
  obtains x where "tval s = Some x" "upcoming fs s = (pos fs, x) # below (pos fs) (kids (edges s)) @ after fs" "so_far fs s = before fs @ [(pos fs, x)]"
    "pairs (plug fs s) = before fs @ upcoming fs s" "pairs (plug fs s) = so_far fs s @ below (pos fs) (kids (edges s)) @ after fs"
proof -
  obtain x where "tval s = Some x" using assms by (auto simp: on_key_def)
  then show thesis using that [of x] by (cases s) (simp add: upcoming_def so_far_def pairs_plug)
qed

lemma flags_upd: "flags it = (p, e, d) \<longleftrightarrow> it_pending it = p \<and> it_eof it = e \<and> it_forward it = d"
  by (auto simp: flags_def)

lemma points_upd [simp]: "points r (it_pending_update g it) fs s \<longleftrightarrow> points r it fs s" "points r (it_eof_update g it) fs s \<longleftrightarrow> points r it fs s"
  "points r (it_forward_update g it) fs s \<longleftrightarrow> points r it fs s"
  by (simp_all add: points_def)

lemma collect_eof: "it_eof it \<Longrightarrow> collect_pairs r it = Some ([], it)"
  by (subst collect_pairs.simps) (simp add: riter_next_def)

lemma collect_on_key:
  assumes "on_key r it fs s" "tval s = Some x"
    "riter_next r it0 = do { n \<leftarrow> node r (it_cur it); Some (map_option (\<lambda>v. (it_key it, v)) (rvalue n), it) }"
  shows "riter_next r it0 = Some (Some (pos fs, x), it)"
    and "collect_pairs r it0 = do { (xs, it) \<leftarrow> collect_pairs r it; Some ((pos fs, x) # xs, it) }"
proof -
  have "points r it fs s" using assms(1) by (simp add: on_key_def)
  then show n: "riter_next r it0 = Some (Some (pos fs, x), it)" using points_node [of r it fs s] assms(2,3) by (simp add: points_def)
  then show "collect_pairs r it0 = do { (xs, it) \<leftarrow> collect_pairs r it; Some ((pos fs, x) # xs, it) }" by (subst collect_pairs.simps) simp
qed

lemma collect_forward:
  "on_key r it fs s \<Longrightarrow> flags it = (False, False, True) \<Longrightarrow> \<exists>it'. collect_pairs r it = Some (below (pos fs) (kids (edges s)) @ after fs, it') \<and> it_key it' = []"
proof (induction "below (pos fs) (kids (edges s)) @ after fs" arbitrary: it fs s)
  case Nil
  have p: "points r it fs s" using Nil.prems(1) by (simp add: on_key_def)
  have e: "kids (edges s) = []" "after fs = []" using Nil.hyps by simp_all
  from step_forward_ok [OF p refl, of True] obtain it' where "step_forward r True it = Some (False, it')" "it_key it' = []" using e by auto
  then show ?case using Nil.prems(2) e by (subst collect_pairs.simps) (simp add: riter_next_def flags_upd)
next
  case (Cons y ys)
  have p: "points r it fs s" using Cons.prems(1) by (simp add: on_key_def)
  have ne: "below (pos fs) (kids (edges s)) @ after fs \<noteq> []" by (simp flip: Cons.hyps(2) del: append_is_Nil_conv)
  from step_forward_ok [OF p refl, of True] obtain it' fs' s' where st: "step_forward r True it = Some (True, it')" "on_key r it' fs' s'" "flags it' = flags it" "upcoming fs' s' = y # ys"
    using ne Cons.hyps(2) unfolding upcoming_def by (auto split: if_splits)
  obtain x where x: "tval s' = Some x" "upcoming fs' s' = (pos fs', x) # below (pos fs') (kids (edges s')) @ after fs'" by (rule on_key_lists [OF st(2)])
  have y: "y = (pos fs', x)" and ys: "ys = below (pos fs') (kids (edges s')) @ after fs'" using st(4) x(2) by simp_all
  have "collect_pairs r it = do { (xs, it) \<leftarrow> collect_pairs r it'; Some ((pos fs', x) # xs, it) }"
    by (rule collect_on_key(2) [OF st(2) x(1)]) (use st(1) Cons.prems(2) in \<open>simp add: riter_next_def flags_upd\<close>)
  moreover obtain it2 where "collect_pairs r it' = Some (ys, it2)" "it_key it2 = []" using Cons.hyps(1) [OF ys st(2)] st(3) Cons.prems(2) ys by auto
  ultimately show ?case unfolding Cons.hyps(2) [symmetric] y by simp
qed

lemma collect_backward:
  "on_key r it fs s \<Longrightarrow> flags it = (False, False, False) \<Longrightarrow> \<exists>it'. collect_pairs r it = Some (rev (before fs), it') \<and> it_key it' = []"
proof (induction "rev (before fs)" arbitrary: it fs s)
  case Nil
  have p: "points r it fs s" using Nil.prems(1) by (simp add: on_key_def)
  from step_backward_loop_ok [OF p] obtain it' where "step_backward_loop r it = Some (False, it')" "it_key it' = []" using Nil.hyps by auto
  then show ?case using Nil.prems(2) Nil.hyps by (subst collect_pairs.simps) (simp add: riter_next_def step_backward_def flags_upd)
next
  case (Cons y ys)
  have p: "points r it fs s" using Cons.prems(1) by (simp add: on_key_def)
  have b: "before fs = rev ys @ [y]" using Cons.hyps(2) by (metis rev.simps(2) rev_rev_ident)
  from step_backward_loop_ok [OF p] obtain it' fs' s' where st: "step_backward_loop r it = Some (True, it')" "on_key r it' fs' s'" "flags it' = flags it" "so_far fs' s' = rev ys @ [y]"
    unfolding so_far_def b by auto
  obtain x where x: "tval s' = Some x" "so_far fs' s' = before fs' @ [(pos fs', x)]" by (rule on_key_lists [OF st(2)])
  have y: "y = (pos fs', x)" and ys: "ys = rev (before fs')" using st(4) x(2) by auto
  have "collect_pairs r it = do { (xs, it) \<leftarrow> collect_pairs r it'; Some ((pos fs', x) # xs, it) }"
    by (rule collect_on_key(2) [OF st(2) x(1)]) (use st(1) Cons.prems(2) in \<open>simp add: riter_next_def step_backward_def flags_upd\<close>)
  moreover obtain it2 where "collect_pairs r it' = Some (ys, it2)" "it_key it2 = []" using Cons.hyps(1) [OF ys st(2)] st(3) Cons.prems(2) ys by auto
  ultimately show ?case using b y by simp
qed

text \<open>A cursor that has just been positioned on a key, and what it yields in either direction.\<close>

lemma collect_pending:
  assumes "on_key r it fs s" "flags it = (True, False, d)"
  shows "\<exists>it'. collect_pairs r it = Some (if d then upcoming fs s else rev (so_far fs s), it') \<and> it_key it' = []"
    and "\<exists>it' x. riter_next r it = Some (Some (pos fs, x), it') \<and> tval s = Some x"
proof -
  obtain x where x: "tval s = Some x" "upcoming fs s = (pos fs, x) # below (pos fs) (kids (edges s)) @ after fs" "so_far fs s = before fs @ [(pos fs, x)]" by (rule on_key_lists [OF assms(1)])
  let ?it = "it\<lparr>it_pending := False\<rparr>"
  have k: "on_key r ?it fs s" and f: "flags ?it = (False, False, d)" using assms by (simp_all add: on_key_def flags_upd)
  have n: "riter_next r it = do { n \<leftarrow> node r (it_cur ?it); Some (map_option (\<lambda>v. (it_key ?it, v)) (rvalue n), ?it) }" using assms(2) by (simp add: riter_next_def flags_upd)
  note c = collect_on_key [OF k x(1) n]
  show "\<exists>it' x. riter_next r it = Some (Some (pos fs, x), it') \<and> tval s = Some x" using c(1) x(1) by blast
  show "\<exists>it'. collect_pairs r it = Some (if d then upcoming fs s else rev (so_far fs s), it') \<and> it_key it' = []"
  proof (cases d)
    case True
    then show ?thesis using collect_forward [OF k] f c(2) x(2) by auto
  next
    case False
    then show ?thesis using collect_backward [OF k] f c(2) x(3) by auto
  qed
qed

subsection \<open>Seeking\<close>

lemma seek_walk_step:
  assumes "points r it fs (RT i v (L @ (l, c) # R))"
  obtains it' where "points r it' (Cx i v L l R # fs) c" "flags it' = flags it"
    "seek_walk r (pos fs @ l @ k) it (length (pos fs)) = seek_walk r (pos fs @ l @ k) it' (length (pos fs) + length l)"
proof -
  obtain it' where d: "descend r it (length L) = Some it'" "points r it' (Cx i v L l R # fs) c" "flags it' = flags it" by (rule descend_ok [OF assms])
  have lo: "labels_ok (map fst (L @ (l, c) # R))" "l \<noteq> []" using points_wf [OF assms] by (auto simp: labels_ok_def)
  note n = points_node [OF assms]
  have "seek_walk r (pos fs @ l @ k) it (length (pos fs)) = seek_walk r (pos fs @ l @ k) it' (length (pos fs) + length l)"
    using lo(1)
  proof (cases rule: edge_cases [where i = i and v = v])
    case compressed
    have "matched l (l @ k) = length l" by (simp add: matched_full)
    then show ?thesis using compressed n lo(2) d(1) by (simp add: seek_walk.simps [of r _ it] Let_def)
  next
    case (branching bs b cs)
    then show ?thesis using n d(1) bsearch_found [OF branching(2)] by (simp add: seek_walk.simps [of r _ it] nth_opt_def nth_append)
  qed
  then show thesis using that d by blast
qed

lemma seek_walk_descends:
  assumes "descends fs s k fs' s' k'" "points r it fs s"
  shows "\<exists>it'. points r it' fs' s' \<and> flags it' = flags it \<and> seek_walk r (pos fs @ k) it (length (pos fs)) = seek_walk r (pos fs' @ k') it' (length (pos fs'))"
  using assms
proof (induction arbitrary: it rule: descends.induct)
  case (down i v L l R fs c k fs' s' k')
  obtain it1 where it1: "points r it1 (Cx i v L l R # fs) c" "flags it1 = flags it"
    "seek_walk r (pos fs @ l @ k) it (length (pos fs)) = seek_walk r (pos fs @ l @ k) it1 (length (pos fs) + length l)"
    by (rule seek_walk_step [OF down.prems, of k])
  then show ?case using down.IH [OF it1(1)] by simp
qed auto

text \<open>Where the walk ends at a node that is a proper prefix of the target: the children on either side of it.\<close>

definition diverge_at :: "(bytes \<times> 'v rt) list \<Rightarrow> (bytes \<times> 'v rt) list \<Rightarrow> seek_outcome" where
  "diverge_at L R = (if L @ R = [] then Below else Diverge (if R = [] then None else Some (length L)) (if L = [] then None else Some (length L - 1)))"

lemma less_at:
  assumes "m < length a" "m < length b" "take m a = take m b" "a ! m < b ! m"
  shows "a @ z < b @ (y :: bytes)"
proof -
  have e: "a = take m b @ a ! m # drop (Suc m) a" "b = take m b @ b ! m # drop (Suc m) b" using assms(1,2,3) by (metis id_take_nth_drop)+
  have "(take m b @ a ! m # drop (Suc m) a) @ z < (take m b @ b ! m # drop (Suc m) b) @ y" using assms(4) by simp
  then show ?thesis using e by simp
qed

lemma seek_walk_stuck:
  assumes "points r it fs (RT i v es)" "stuck (RT i v es) k" "k \<noteq> []"
  obtains L R where "es = L @ R" "\<And>l c z. (l, c) \<in> set L \<Longrightarrow> l @ z < k" "\<And>l c z. (l, c) \<in> set R \<Longrightarrow> k < l @ z"
    "seek_walk r (pos fs @ k) it (length (pos fs)) = Some (diverge_at L R, it)"
proof -
  have wf: "rt_wf (RT i v es)" and lo: "labels_ok (map fst es)" using points_wf [OF assms(1)] by simp_all
  note n = points_node [OF assms(1)]
  show thesis
    using lo
  proof (cases rule: labels_cases)
    case (compressed l c)
    define m where "m = matched l k"
    have ml: "m < length l" using assms(2,3) compressed(1) matched_le [of l k] matched_full [of l k] by (force simp: stuck_def m_def)
    have tk: "take m l = take m k" by (simp add: m_def matched_take)
    let ?up = "m = length k \<or> k ! m < l ! m"
    have w: "seek_walk r (pos fs @ k) it (length (pos fs)) = Some (Diverge (if ?up then Some 0 else None) (if ?up then None else Some 0), it)"
      using n node_of_compressed [OF compressed, of i v] ml matched_le2 [of l k] compressed(1) assms(3)
      by (subst seek_walk.simps) (auto simp: Let_def m_def [symmetric] nth_opt_def nth_append)
    show thesis
    proof (cases ?up)
      case True
      have "k < l @ z" for z
      proof (cases "m = length k")
        case eq: True
        then have "l = k @ drop m l" using tk by (metis append_take_drop_id take_all_iff le_refl)
        moreover have "drop m l \<noteq> []" using ml by simp
        ultimately show ?thesis by (metis append.assoc append_is_Nil_conv less_prefix)
      next
        case False
        then have "m < length k" using matched_le2 [of l k] by (simp add: m_def)
        then show ?thesis using less_at [of m k l "[]" z] ml tk True False by simp
      qed
      then show thesis using that [of "[]" es] w True compressed(1) by (simp add: diverge_at_def)
    next
      case False
      then have mk: "m < length k" using matched_le2 [of l k] by (simp add: m_def le_neq_implies_less)
      have "l ! m < k ! m" using False mk ml matched_differs [of l k] by (auto simp: m_def not_less_iff_gr_or_eq)
      then have "l @ z < k" for z using less_at [of m l k z "[]"] ml mk tk by simp
      then show thesis using that [of es "[]"] w False compressed(1) by (simp add: diverge_at_def)
    qed
  next
    case (branching bs)
    have nd: "\<not> diverges (RT i v es) k" using node_of_branching [OF branching(1), of i v] by (simp add: diverges_def)
    obtain cs where "map fst es = map (\<lambda>b. [b]) cs" "hd k \<notin> set cs" by (rule stuck_branching [OF wf assms(2) nd assms(3)])
    then have h: "hd k \<notin> set bs" using branching(1) by (metis (no_types, lifting) list.inject map_injective inj_onI injI)
    obtain L R where lr: "es = L @ R" "labels_ok (map fst L @ [hd k] # map fst R)" "length L = partition_point bs (hd k)"
      using labels_ok_insert [OF branching h] by metis
    obtain b k' where k: "k = b # k'" using assms(3) by (cases k) auto
    have "l @ z < k" if "(l, c) \<in> set L" for l c z using edge_less(1) [OF lr(2) that, of z k'] by (simp add: k)
    moreover have "k < l @ z" if "(l, c) \<in> set R" for l c z using edge_less(2) [OF lr(2) that, of k' z] by (simp add: k)
    moreover have "seek_walk r (pos fs @ k) it (length (pos fs)) = Some (diverge_at L R, it)"
      using n node_of_branching [OF branching(1), of i v] lr(1,3) h
      by (subst seek_walk.simps) (auto simp: k bsearch_absent diverge_at_def nth_opt_def nth_append)
    ultimately show thesis using that lr(1) by blast
  qed
qed

text \<open>The keys on the two sides of a seek: those below the cut, and the rest.\<close>

definition cut :: "seek_op \<Rightarrow> bytes \<Rightarrow> bytes \<Rightarrow> bool" where
  "cut op target k \<longleftrightarrow> (if op = Ge \<or> op = Lt then k < target else k \<le> target)"

definition lows :: "seek_op \<Rightarrow> bytes \<Rightarrow> (bytes \<times> 'v) list \<Rightarrow> (bytes \<times> 'v) list" where
  "lows op target xs = filter (\<lambda>kv. cut op target (fst kv)) xs"

definition highs :: "seek_op \<Rightarrow> bytes \<Rightarrow> (bytes \<times> 'v) list \<Rightarrow> (bytes \<times> 'v) list" where
  "highs op target xs = filter (\<lambda>kv. \<not> cut op target (fst kv)) xs"

lemma cut_less: "k < target \<Longrightarrow> cut op target k" and cut_greater: "target < k \<Longrightarrow> \<not> cut op target k"
  by (simp_all add: cut_def linorder_not_le linorder_not_less order.strict_implies_order)

lemma split_at_cut:
  assumes "\<forall>kv \<in> set A. cut op target (fst kv)" "\<forall>kv \<in> set B. \<not> cut op target (fst kv)"
  shows "lows op target (A @ B) = A" "highs op target (A @ B) = B"
proof -
  have "filter (\<lambda>kv. cut op target (fst kv)) A = A" "filter (\<lambda>kv. \<not> cut op target (fst kv)) B = B" using assms by (auto simp: filter_id_conv)
  moreover have "filter (\<lambda>kv. \<not> cut op target (fst kv)) A = []" "filter (\<lambda>kv. cut op target (fst kv)) B = []" using assms by (auto simp: filter_empty_conv)
  ultimately show "lows op target (A @ B) = A" "highs op target (A @ B) = B" by (simp_all add: lows_def highs_def)
qed

text \<open>A position found by a seek.\<close>

definition lands :: "'v rax \<Rightarrow> 'v rt \<Rightarrow> (bool \<times> riter) option \<Rightarrow> riter \<Rightarrow> ('v cx list \<Rightarrow> 'v rt \<Rightarrow> (bytes \<times> 'v) list) \<Rightarrow> (bytes \<times> 'v) list \<Rightarrow> bool" where
  "lands r t res it view ys \<longleftrightarrow> (if ys = [] then \<exists>it'. res = Some (False, it') \<and> it_key it' = [] \<and> flags it' = flags it
     else \<exists>it' fs s. res = Some (True, it') \<and> on_key r it' fs s \<and> flags it' = flags it \<and> plug fs s = t \<and> view fs s = ys)"

lemma lands_forward: "points r it fs s \<Longrightarrow> plug fs s = t \<Longrightarrow> flags it = flags it0 \<Longrightarrow> ys = (if d then below (pos fs) (kids (edges s)) else []) @ after fs \<Longrightarrow>
    lands r t (step_forward r d it) it0 upcoming ys"
  using step_forward_ok [of r it fs s ys d] by (auto simp: lands_def upcoming_def split: if_splits)

lemma lands_to_key: "points r it fs s \<Longrightarrow> alive s \<Longrightarrow> plug fs s = t \<Longrightarrow> flags it = flags it0 \<Longrightarrow> ys = upcoming fs s \<Longrightarrow> lands r t (to_key r it) it0 upcoming ys"
  using to_key_ok [of r it fs s] alive_pairs [of s] points_wf [of r it fs s] by (auto simp: lands_def upcoming_def)

lemma lands_self: "points r it fs s \<Longrightarrow> tval s \<noteq> None \<Longrightarrow> plug fs s = t \<Longrightarrow> flags it = flags it0 \<Longrightarrow> ys = view fs s \<Longrightarrow> ys \<noteq> [] \<Longrightarrow> lands r t (Some (True, it)) it0 view ys"
  by (auto simp: lands_def on_key_def)

lemma lands_backward:
  assumes "points r it fs s" "plug fs s = t" "flags it = flags it0" "ys = (if check then so_far fs s else before fs)"
  shows "lands r t (step_backward r check it) it0 so_far ys"
proof (cases "check \<and> tval s \<noteq> None")
  case True
  then have "ys \<noteq> []" using assms(4) by (auto simp: so_far_def)
  then show ?thesis using True assms lands_self [OF assms(1), of t it0 ys so_far] points_value [OF assms(1)] by (simp add: step_backward_def)
next
  case False
  then have ys: "ys = before fs" using assms(4) by (auto simp: so_far_def)
  have "step_backward r check it = step_backward_loop r it" using False points_value [OF assms(1)] by (auto simp: step_backward_def)
  then show ?thesis using step_backward_loop_ok [OF assms(1)] ys assms(2,3) by (auto simp: lands_def so_far_def split: if_splits)
qed

definition forward_op :: "seek_op \<Rightarrow> bool" where
  "forward_op op \<longleftrightarrow> op = Ge \<or> op = Gt"

definition found_list :: "seek_op \<Rightarrow> bytes \<Rightarrow> (bytes \<times> 'v) list \<Rightarrow> (bytes \<times> 'v) list" where
  "found_list op target xs = (if forward_op op then highs op target xs else lows op target xs)"

definition found_view :: "seek_op \<Rightarrow> 'v cx list \<Rightarrow> 'v rt \<Rightarrow> (bytes \<times> 'v) list" where
  "found_view op = (if forward_op op then upcoming else so_far)"

lemma seek_at_target:
  assumes "points r it fs s" "flags it = flags it0"
  shows "lands r (plug fs s) (seek_found r op AtTarget it) it0 (found_view op) (found_list op (pos fs) (pairs (plug fs s)))"
proof -
  obtain i v es where s: "s = RT i v es" by (cases s)
  have w: "labels_ok (map fst es)" "cx_wf fs" using points_wf [OF assms(1)] by (simp_all add: s)
  let ?A = "before fs" and ?M = "below (pos fs) (own v)" and ?B = "below (pos fs) (kids es) @ after fs"
  have t: "pairs (plug fs s) = ?A @ ?M @ ?B" by (simp add: pairs_plug s)
  have A: "k < pos fs" if "(k, x) \<in> set ?A" for k x using before_less [OF w(2) that, of "[]"] by simp
  have B: "pos fs < k" if "(k, x) \<in> set ?B" for k x using that after_greater [OF w(2), of k x "[]"] kids_nonempty [OF w(1)] by auto
  have M: "k = pos fs" if "(k, x) \<in> set ?M" for k x using that by auto
  have cA: "\<forall>kv \<in> set ?A. cut op (pos fs) (fst kv)" using A cut_less by (metis prod.collapse)
  have cB: "\<forall>kv \<in> set ?B. \<not> cut op (pos fs) (fst kv)" using B cut_greater by (metis prod.collapse)
  have cM: "\<forall>kv \<in> set ?M. cut op (pos fs) (fst kv) \<longleftrightarrow> op = Gt \<or> op = Le" using M by (cases op) (auto simp: cut_def)
  have strict: "lows op (pos fs) (?A @ ?M @ ?B) = ?A \<and> highs op (pos fs) (?A @ ?M @ ?B) = ?M @ ?B" if "op = Ge \<or> op = Lt"
  proof -
    have "\<forall>kv \<in> set (?M @ ?B). \<not> cut op (pos fs) (fst kv)" using that cB cM unfolding set_append by auto
    then show ?thesis using split_at_cut [OF cA] by blast
  qed
  have weak: "lows op (pos fs) ((?A @ ?M) @ ?B) = ?A @ ?M \<and> highs op (pos fs) ((?A @ ?M) @ ?B) = ?B" if "op = Gt \<or> op = Le"
  proof -
    have "\<forall>kv \<in> set (?A @ ?M). cut op (pos fs) (fst kv)" using that cA cM unfolding set_append by auto
    then show ?thesis using split_at_cut [OF _ cB] by blast
  qed
  note val = points_value [OF assms(1)]
  show ?thesis
  proof (cases op)
    case Ge
    have "lands r (plug fs s) (seek_found r op AtTarget it) it0 upcoming (?M @ ?B)"
    proof (cases "v = None")
      case True
      then show ?thesis using lands_forward [OF assms(1) refl assms(2), of "?M @ ?B" True] val by (simp add: seek_found_def Ge s)
    next
      case False
      then show ?thesis using lands_self [OF assms(1) _ refl assms(2), of "?M @ ?B" upcoming] val by (auto simp: seek_found_def Ge s upcoming_def)
    qed
    then show ?thesis using strict t Ge by (simp add: found_list_def found_view_def forward_op_def)
  next
    case Gt
    then show ?thesis using lands_forward [OF assms(1) refl assms(2), of ?B True] weak t by (simp add: seek_found_def s found_list_def found_view_def forward_op_def)
  next
    case Le
    have "lands r (plug fs s) (seek_found r op AtTarget it) it0 so_far (?A @ ?M)"
    proof (cases "v = None")
      case True
      then show ?thesis using lands_backward [OF assms(1) refl assms(2), of "?A @ ?M" False] val by (simp add: seek_found_def Le s)
    next
      case False
      then show ?thesis using lands_self [OF assms(1) _ refl assms(2), of "?A @ ?M" so_far] val by (auto simp: seek_found_def Le s so_far_def)
    qed
    then show ?thesis using weak t Le by (simp add: found_list_def found_view_def forward_op_def)
  next
    case Lt
    then show ?thesis using lands_backward [OF assms(1) refl assms(2), of ?A False] strict t by (simp add: seek_found_def found_list_def found_view_def forward_op_def)
  qed
qed

lemma seek_diverged:
  assumes "points r it fs (RT i v (L @ R))" "flags it = flags it0"
    and "\<And>l c z. (l, c) \<in> set L \<Longrightarrow> l @ z < k" "\<And>l c z. (l, c) \<in> set R \<Longrightarrow> k < l @ z" "k \<noteq> []"
  shows "lands r (plug fs (RT i v (L @ R))) (seek_found r op (diverge_at L R) it) it0 (found_view op) (found_list op (pos fs @ k) (pairs (plug fs (RT i v (L @ R)))))"
proof -
  let ?s = "RT i v (L @ R)"
  let ?A = "before fs @ below (pos fs) (own v) @ below (pos fs) (kids L)" and ?B = "below (pos fs) (kids R) @ after fs"
  have w: "cx_wf fs" using points_wf [OF assms(1)] by simp
  have t: "pairs (plug fs ?s) = ?A @ ?B" by (simp add: pairs_plug)
  have A: "q < pos fs @ k" if "(q, x) \<in> set ?A" for q x using that before_less [OF w, of q x k] assms(3,5) by (auto simp: in_kids)
  have B: "pos fs @ k < q" if "(q, x) \<in> set ?B" for q x using that after_greater [OF w, of q x k] assms(4) by (auto simp: in_kids)
  have cA: "\<forall>kv \<in> set ?A. cut op (pos fs @ k) (fst kv)" using A cut_less by (metis prod.collapse)
  have cB: "\<forall>kv \<in> set ?B. \<not> cut op (pos fs @ k) (fst kv)" using B cut_greater by (metis prod.collapse)
  note lh = split_at_cut [OF cA cB]
  show ?thesis
  proof (cases "forward_op op")
    case True
    have "lands r (plug fs ?s) (seek_found r op (diverge_at L R) it) it0 upcoming ?B"
    proof (cases R)
      case Nil
      have "seek_found r op (diverge_at L R) it = step_forward r False it" using True Nil by (auto simp: seek_found_def diverge_at_def forward_op_def)
      then show ?thesis using lands_forward [OF assms(1) refl assms(2), of ?B False] Nil by simp
    next
      case (Cons e R')
      obtain l c where e: "e = (l, c)" by (cases e)
      obtain it1 where it1: "descend r it (length L) = Some it1" "points r it1 (Cx i v L l R' # fs) c" "flags it1 = flags it"
        using assms(1) descend_ok [of r it fs i v L l c R'] by (auto simp: Cons e)
      have a: "alive c" using points_wf [OF it1(2)] by simp
      have "seek_found r op (diverge_at L R) it = to_key r it1" using True it1(1) Cons by (auto simp: seek_found_def diverge_at_def to_key_def forward_op_def)
      then show ?thesis using lands_to_key [OF it1(2) a, of "plug fs ?s" it0 ?B] it1(3) assms(2) by (simp add: Cons e upcoming_def)
    qed
    then show ?thesis using lh t True by (simp add: found_list_def found_view_def)
  next
    case False
    have "lands r (plug fs ?s) (seek_found r op (diverge_at L R) it) it0 so_far ?A"
    proof (cases L rule: rev_cases)
      case Nil
      have "seek_found r op (diverge_at L R) it = step_backward r True it" using False Nil by (auto simp: seek_found_def diverge_at_def forward_op_def)
      then show ?thesis using lands_backward [OF assms(1) refl assms(2), of ?A True] Nil by (simp add: so_far_def)
    next
      case (snoc L' e)
      obtain l c where e: "e = (l, c)" by (cases e)
      obtain it1 where it1: "descend r it (length L') = Some it1" "points r it1 (Cx i v L' l R # fs) c" "flags it1 = flags it"
        using assms(1) descend_ok [of r it fs i v L' l c R] by (auto simp: snoc e)
      obtain it2 fs2 s2 where it2: "descend_rightmost r it1 = Some it2" "points r it2 fs2 s2" "flags it2 = flags it1" "plug fs2 s2 = plug fs ?s" "so_far fs2 s2 = ?A"
        using rightmost_ok [OF it1(2)] by (auto simp: so_far_def snoc e)
      have "seek_found r op (diverge_at L R) it = step_backward r True it2" using False it1(1) it2(1) snoc by (auto simp: seek_found_def diverge_at_def forward_op_def)
      then show ?thesis using lands_backward [OF it2(2,4), of it0 ?A True] it2(3,5) it1(3) assms(2) by simp
    qed
    then show ?thesis using lh t False by (simp add: found_list_def found_view_def)
  qed
qed

lemma points_start:
  assumes "sits r [] t" "rt_wf t"
  shows "points r (iter_reset it) [] t" "points r ((iter_reset it)\<lparr>it_forward := d\<rparr>) [] t"
  using assms by (simp_all add: points_def iter_reset_def sits_def)

lemma do_seek_ok:
  assumes "sits r [] t" "rt_wf t"
  obtains p where "do_seek r it op target = Some (settle p)" "lands r t (Some p) (iter_reset it) (found_view op) (found_list op target (pairs t))"
proof -
  obtain fs s k where d: "descends [] t target fs s k" "stuck s k" using descends_stuck by blast
  have p: "plug fs s = t" "pos fs @ k = target" using descends_plug [OF d(1)] by simp_all
  obtain it1 where it1: "points r it1 fs s" "flags it1 = flags (iter_reset it)" "seek_walk r target (iter_reset it) 0 = seek_walk r target it1 (length (pos fs))"
    using seek_walk_descends [OF d(1) points_start(1) [OF assms, of it]] p(2) by auto
  obtain i v es where s: "s = RT i v es" by (cases s)
  have "\<exists>oc. seek_walk r target it1 (length (pos fs)) = Some (oc, it1) \<and> lands r t (seek_found r op oc it1) (iter_reset it) (found_view op) (found_list op target (pairs t))"
  proof (cases "k = []")
    case True
    then have "seek_walk r target it1 (length (pos fs)) = Some (AtTarget, it1)" using p(2) points_node [OF it1(1)] by (subst seek_walk.simps) simp
    then show ?thesis using seek_at_target [OF it1(1,2), of op] p True by auto
  next
    case False
    obtain L R where lr: "es = L @ R" "\<And>l c z. (l, c) \<in> set L \<Longrightarrow> l @ z < k" "\<And>l c z. (l, c) \<in> set R \<Longrightarrow> k < l @ z"
      "seek_walk r (pos fs @ k) it1 (length (pos fs)) = Some (diverge_at L R, it1)"
      using seek_walk_stuck [OF it1(1) [unfolded s] d(2) [unfolded s] False] by metis
    have "points r it1 fs (RT i v (L @ R))" using it1(1) by (simp add: s lr(1))
    from seek_diverged [OF this it1(2) lr(2,3) False, where op = op] show ?thesis using lr(4) p by (auto simp: s lr(1))
  qed
  then obtain oc where oc: "seek_walk r target (iter_reset it) 0 = Some (oc, it1)" "lands r t (seek_found r op oc it1) (iter_reset it) (found_view op) (found_list op target (pairs t))"
    using it1(3) by auto
  then obtain q where "seek_found r op oc it1 = Some q" by (auto simp: lands_def split: if_splits)
  then show thesis using that [of q] oc by (simp add: do_seek_def)
qed

text \<open>What a scan yields: from the key it lands on, upwards or downwards.\<close>

definition scan :: "seek_op \<Rightarrow> bool \<Rightarrow> bytes \<Rightarrow> (bytes \<times> 'v) list \<Rightarrow> (bytes \<times> 'v) list" where
  "scan op up target xs = (let lo = lows op target xs; hi = highs op target xs in
     if forward_op op then (if hi = [] then [] else if up then hi else hd hi # rev lo)
     else (if lo = [] then [] else if up then last lo # hi else rev lo))"

lemma lows_highs: "sorted_wrt (<) (map fst xs) \<Longrightarrow> lows op target xs @ highs op target xs = xs"
proof (induction xs)
  case (Cons x xs)
  show ?case
  proof (cases "cut op target (fst x)")
    case False
    then have "\<not> cut op target (fst y)" if "y \<in> set xs" for y using Cons.prems that by (auto simp: cut_def split: if_splits)
    then have "lows op target xs = []" "highs op target xs = xs" by (auto simp: lows_def highs_def filter_empty_conv filter_id_conv)
    then show ?thesis using False by (simp add: lows_def highs_def)
  qed (use Cons in \<open>simp add: lows_def highs_def\<close>)
qed (simp add: lows_def highs_def)

lemma scan_landed:
  assumes "lands r t (Some p) it0 (found_view op) (found_list op target (pairs t))" "rt_wf t"
  shows "\<exists>it'. collect_pairs r ((settle p)\<lparr>it_forward := d\<rparr>) = Some (scan op d target (pairs t), it') \<and> it_key it' = []"
proof -
  let ?lo = "lows op target (pairs t)" and ?hi = "highs op target (pairs t)"
  have t: "?lo @ ?hi = pairs t" by (rule lows_highs [OF pairs_sorted [OF assms(2)]])
  show ?thesis
  proof (cases "found_list op target (pairs t) = []")
    case True
    then obtain it where "p = (False, it)" "it_key it = []" using assms(1) by (auto simp: lands_def)
    then show ?thesis using True by (auto simp: settle_def collect_eof scan_def found_list_def Let_def split: if_splits)
  next
    case False
    then obtain it fs s where k: "p = (True, it)" "on_key r it fs s" "plug fs s = t" "found_view op fs s = found_list op target (pairs t)"
      using assms(1) by (auto simp: lands_def)
    obtain x where x: "upcoming fs s = (pos fs, x) # below (pos fs) (kids (edges s)) @ after fs" "so_far fs s = before fs @ [(pos fs, x)]"
      "pairs t = before fs @ upcoming fs s" "pairs t = so_far fs s @ below (pos fs) (kids (edges s)) @ after fs"
      using on_key_lists [OF k(2)] k(3) by metis
    have "on_key r ((settle p)\<lparr>it_forward := d\<rparr>) fs s" "flags ((settle p)\<lparr>it_forward := d\<rparr>) = (True, False, d)" using k(1,2) by (simp_all add: settle_def on_key_def flags_upd)
    from collect_pending(1) [OF this] obtain it' where c: "collect_pairs r ((settle p)\<lparr>it_forward := d\<rparr>) = Some (if d then upcoming fs s else rev (so_far fs s), it')" "it_key it' = []" by blast
    have "(if d then upcoming fs s else rev (so_far fs s)) = scan op d target (pairs t)"
    proof (cases "forward_op op")
      case True
      then have u: "upcoming fs s = ?hi" using k(4) by (simp add: found_view_def found_list_def)
      then have "before fs = ?lo" using t x(3) by simp
      then show ?thesis using True False u x(1,2) by (auto simp: scan_def found_list_def Let_def dest: sym)
    next
      case no: False
      then have u: "so_far fs s = ?lo" using k(4) by (simp add: found_view_def found_list_def)
      then have "below (pos fs) (kids (edges s)) @ after fs = ?hi" using t x(4) by simp
      then show ?thesis using no False u x(1,2) by (auto simp: scan_def found_list_def Let_def dest: sym)
    qed
    then show ?thesis using c by auto
  qed
qed

lemma seek_ok:
  assumes "sits r [] t" "rt_wf t"
  shows "\<exists>it it'. rax_seek r op target = Some it \<and> collect_pairs r it = Some (scan op True target (pairs t), it') \<and> it_key it' = []"
    and "\<exists>it it'. rax_seek_rev r op target = Some it \<and> collect_pairs r it = Some (scan op False target (pairs t), it') \<and> it_key it' = []"
proof -
  obtain p where p: "do_seek r iter_new op target = Some (settle p)" "lands r t (Some p) (iter_reset iter_new) (found_view op) (found_list op target (pairs t))"
    by (rule do_seek_ok [OF assms])
  show "\<exists>it it'. rax_seek r op target = Some it \<and> collect_pairs r it = Some (scan op True target (pairs t), it') \<and> it_key it' = []"
    "\<exists>it it'. rax_seek_rev r op target = Some it \<and> collect_pairs r it = Some (scan op False target (pairs t), it') \<and> it_key it' = []"
    using p(1) scan_landed [OF p(2) assms(2)] by (simp_all add: rax_seek_def rax_seek_rev_def)
qed

lemma iter_landed:
  assumes "lands r t (Some p) it0 (if d then upcoming else so_far) (pairs t)" "flags it0 = (False, False, d)" "rt_wf t"
  shows "\<exists>it'. collect_pairs r (settle p) = Some (if d then pairs t else rev (pairs t), it') \<and> it_key it' = []"
    and "\<exists>it'. riter_next r (settle p) = Some (if pairs t = [] then None else Some (if d then hd (pairs t) else last (pairs t)), it')"
proof -
  have "(\<exists>it'. collect_pairs r (settle p) = Some (if d then pairs t else rev (pairs t), it') \<and> it_key it' = []) \<and>
    (\<exists>it'. riter_next r (settle p) = Some (if pairs t = [] then None else Some (if d then hd (pairs t) else last (pairs t)), it'))"
  proof (cases "pairs t = []")
    case True
    then obtain it where "p = (False, it)" "it_key it = []" using assms(1) by (auto simp: lands_def)
    then show ?thesis using True by (simp add: settle_def collect_eof riter_next_def)
  next
    case False
    then obtain it fs s where k: "p = (True, it)" "on_key r it fs s" "flags it = (False, False, d)" "(if d then upcoming else so_far) fs s = pairs t"
      using assms(1,2) by (auto simp: lands_def)
    have o: "on_key r (settle p) fs s" "flags (settle p) = (True, False, d)" using k(1,2,3) by (simp_all add: settle_def on_key_def flags_upd)
    obtain x where x: "tval s = Some x" "upcoming fs s = (pos fs, x) # below (pos fs) (kids (edges s)) @ after fs" "so_far fs s = before fs @ [(pos fs, x)]"
      by (rule on_key_lists [OF k(2)])
    have e: "(pos fs, x) = (if d then hd (pairs t) else last (pairs t))" "(if d then upcoming fs s else rev (so_far fs s)) = (if d then pairs t else rev (pairs t))"
      using k(4) x(2,3) by (cases d; auto dest: sym)+
    from collect_pending [OF o] show ?thesis unfolding e(2) using False x(1) e(1) by auto
  qed
  then show "\<exists>it'. collect_pairs r (settle p) = Some (if d then pairs t else rev (pairs t), it') \<and> it_key it' = []"
    "\<exists>it'. riter_next r (settle p) = Some (if pairs t = [] then None else Some (if d then hd (pairs t) else last (pairs t)), it')" by blast+
qed

lemma start_first_ok:
  assumes "sits r [] t" "rt_wf t"
  obtains p it0 where "start_first r it = Some (settle p)" "lands r t (Some p) it0 upcoming (pairs t)" "flags it0 = (False, False, True)"
proof -
  let ?it = "(iter_reset it)\<lparr>it_forward := True\<rparr>"
  obtain i v es where t: "t = RT i v es" by (cases t)
  have p: "points r ?it [] t" by (rule points_start(2) [OF assms])
  have f: "flags ?it = (False, False, True)" by (simp add: flags_upd iter_reset_def)
  have n: "node r ROOT = Some (node_of t)" using points_node [OF p] by (simp add: iter_reset_def)
  show thesis
  proof (cases "v = None")
    case True
    have l: "lands r t (step_forward r True ?it) ?it upcoming (pairs t)" using lands_forward [OF p, of t ?it "pairs t" True] True by (simp add: t)
    then obtain q where "step_forward r True ?it = Some q" by (auto simp: lands_def split: if_splits)
    then show thesis using that [of q ?it] l f n True by (simp add: start_first_def t)
  next
    case False
    have "lands r t (Some (True, ?it)) ?it upcoming (pairs t)" using lands_self [OF p, of t ?it "pairs t" upcoming] False by (auto simp: t upcoming_def)
    moreover have "start_first r it = Some (settle (True, ?it))" using n False by (simp add: start_first_def t settle_def iter_reset_def)
    ultimately show thesis using that f by blast
  qed
qed

lemma start_last_ok:
  assumes "sits r [] t" "rt_wf t"
  obtains p it0 where "start_last r it = Some (settle p)" "lands r t (Some p) it0 so_far (pairs t)" "flags it0 = (False, False, False)"
proof -
  let ?it = "(iter_reset it)\<lparr>it_forward := False\<rparr>"
  have p: "points r ?it [] t" by (rule points_start(2) [OF assms])
  have f: "flags ?it = (False, False, False)" by (simp add: flags_upd iter_reset_def)
  obtain it1 fs s where d: "descend_rightmost r ?it = Some it1" "points r it1 fs s" "flags it1 = flags ?it" "plug fs s = t" "so_far fs s = pairs t"
    using rightmost_ok [OF p] by (auto simp: so_far_def)
  have l: "lands r t (step_backward r True it1) ?it so_far (pairs t)" using lands_backward [OF d(2,4,3), of "pairs t" True] d(5) by simp
  then obtain q where "step_backward r True it1 = Some q" by (auto simp: lands_def split: if_splits)
  then show thesis using that [of q ?it] l f d(1) by (simp add: start_last_def)
qed

lemma rax_iter_ok:
  assumes "sits r [] t" "rt_wf t"
  shows "\<exists>it it'. rax_iter r = Some it \<and> collect_pairs r it = Some (pairs t, it')"
    and "\<exists>it it'. rax_iter_rev r = Some it \<and> collect_pairs r it = Some (rev (pairs t), it')"
    and "rax_first r = Some (if pairs t = [] then None else Some (hd (pairs t)))"
    and "rax_last r = Some (if pairs t = [] then None else Some (last (pairs t)))"
proof -
  obtain p it0 where p: "start_first r iter_new = Some (settle p)" "lands r t (Some p) it0 upcoming (pairs t)" "flags it0 = (False, False, True)" by (rule start_first_ok [OF assms])
  obtain q it1 where q: "start_last r iter_new = Some (settle q)" "lands r t (Some q) it1 so_far (pairs t)" "flags it1 = (False, False, False)" by (rule start_last_ok [OF assms])
  note P = iter_landed [of r t p it0 True] and Q = iter_landed [of r t q it1 False]
  show "\<exists>it it'. rax_iter r = Some it \<and> collect_pairs r it = Some (pairs t, it')" using P p assms(2) by (auto simp: rax_iter_def)
  show "\<exists>it it'. rax_iter_rev r = Some it \<and> collect_pairs r it = Some (rev (pairs t), it')" using Q q assms(2) by (auto simp: rax_iter_rev_def)
  show "rax_first r = Some (if pairs t = [] then None else Some (hd (pairs t)))" using P(2) p assms(2) by (auto simp: rax_first_def rax_iter_def)
  show "rax_last r = Some (if pairs t = [] then None else Some (last (pairs t)))" using Q(2) q assms(2) by (auto simp: rax_last_def rax_iter_rev_def)
qed

end
