(* ===== verification/Rax_Map.thy ===== *)
theory Rax_Map
  imports Rax_Iter_Proofs
begin

text \<open>
  The contract of the radix tree, a finite map from byte strings with ordered scans, stated as a locale, and the properties of
  every tree that insertions and removals build from the empty one.
\<close>

subsection \<open>The contract\<close>

datatype 'v map_op = Put bytes 'v | Del bytes

fun run_map :: "('r \<Rightarrow> bytes \<Rightarrow> 'v \<Rightarrow> ('v option \<times> 'r) option) \<Rightarrow> ('r \<Rightarrow> bytes \<Rightarrow> ('v option \<times> 'r) option) \<Rightarrow> 'r \<Rightarrow> 'v map_op list \<Rightarrow> ('v option list \<times> 'r) option" where
  "run_map ins del r [] = Some ([], r)"
| "run_map ins del r (oper # ops) = do {
     (old, r) \<leftarrow> (case oper of Put k v \<Rightarrow> ins r k v | Del k \<Rightarrow> del r k);
     (olds, r) \<leftarrow> run_map ins del r ops;
     Some (old # olds, r) }"

fun spec_map :: "(bytes \<rightharpoonup> 'v) \<Rightarrow> 'v map_op list \<Rightarrow> 'v option list \<times> (bytes \<rightharpoonup> 'v)" where
  "spec_map m [] = ([], m)"
| "spec_map m (Put k v # ops) = (let (olds, m') = spec_map (m(k \<mapsto> v)) ops in (m k # olds, m'))"
| "spec_map m (Del k # ops) = (let (olds, m') = spec_map (m(k := None)) ops in (m k # olds, m'))"

text \<open>The entries of a finite map in the order of their keys.\<close>

definition entries :: "(bytes \<rightharpoonup> 'v) \<Rightarrow> (bytes \<times> 'v) list" where
  "entries m = map (\<lambda>k. (k, the (m k))) (sorted_list_of_set (dom m))"

locale byte_map =
  fixes rep :: "'r \<Rightarrow> (bytes \<rightharpoonup> 'v) \<Rightarrow> bool"
    and ins :: "'r \<Rightarrow> bytes \<Rightarrow> 'v \<Rightarrow> ('v option \<times> 'r) option"
    and del :: "'r \<Rightarrow> bytes \<Rightarrow> ('v option \<times> 'r) option"
  assumes rep_ins: "rep r m \<Longrightarrow> \<exists>r'. ins r k v = Some (m k, r') \<and> rep r' (m(k \<mapsto> v))"
    and rep_del: "rep r m \<Longrightarrow> \<exists>r'. del r k = Some (m k, r') \<and> rep r' (m(k := None))"
begin

lemma run_ok: "rep r m \<Longrightarrow> \<exists>r'. run_map ins del r ops = Some (fst (spec_map m ops), r') \<and> rep r' (snd (spec_map m ops))"
proof (induction ops arbitrary: r m)
  case (Cons oper ops)
  show ?case
  proof (cases oper)
    case (Put k v)
    obtain r1 where r1: "ins r k v = Some (m k, r1)" "rep r1 (m(k \<mapsto> v))" using rep_ins [OF Cons.prems] by blast
    then show ?thesis using Cons.IH [OF r1(2)] Put by (auto simp: fun_upd_def split: prod.splits)
  next
    case (Del k)
    obtain r1 where r1: "del r k = Some (m k, r1)" "rep r1 (m(k := None))" using rep_del [OF Cons.prems] by blast
    then show ?thesis using Cons.IH [OF r1(2)] Del by (auto simp: fun_upd_def split: prod.splits)
  qed
qed simp

end

locale ordered_byte_map = byte_map rep ins del
  for rep :: "'r \<Rightarrow> (bytes \<rightharpoonup> 'v) \<Rightarrow> bool" and ins and del +
  fixes look :: "'r \<Rightarrow> bytes \<Rightarrow> 'v option option"
    and seek_all :: "'r \<Rightarrow> seek_op \<Rightarrow> bool \<Rightarrow> bytes \<Rightarrow> (bytes \<times> 'v) list option"
  assumes rep_look: "rep r m \<Longrightarrow> look r k = Some (m k)"
    and rep_seek: "rep r m \<Longrightarrow> seek_all r op up k = Some (scan op up k (entries m))"
begin

lemma run_look_seek:
  assumes "rep r m"
  shows "\<exists>r'. run_map ins del r ops = Some (fst (spec_map m ops), r') \<and> (\<forall>k. look r' k = Some (snd (spec_map m ops) k)) \<and>
    (\<forall>op up k. seek_all r' op up k = Some (scan op up k (entries (snd (spec_map m ops)))))"
  using run_ok [OF assms, of ops] rep_look rep_seek by blast

end

subsection \<open>The radix tree keeps it\<close>

definition rax_scan :: "'v rax \<Rightarrow> seek_op \<Rightarrow> bool \<Rightarrow> bytes \<Rightarrow> (bytes \<times> 'v) list option" where
  "rax_scan r op up key = do {
     it \<leftarrow> (if up then rax_seek r op key else rax_seek_rev r op key);
     (xs, _) \<leftarrow> collect_pairs r it;
     Some xs }"

lemma entries_pairs:
  assumes "rt_wf t"
  shows "entries (map_of (pairs t)) = pairs t"
proof -
  have s: "sorted (map fst (pairs t))" "distinct (map fst (pairs t))" using pairs_sorted [OF assms] by (auto simp: strict_sorted_iff)
  then have "sorted_list_of_set (dom (map_of (pairs t))) = map fst (pairs t)"
    by (simp add: dom_map_of_conv_image_fst sorted_list_of_set.idem_if_sorted_distinct flip: set_map)
  then show ?thesis using s(2) by (auto simp: entries_def intro!: map_idI)
qed

interpretation radix: ordered_byte_map represents rax_insert rax_remove rax_find rax_scan
proof unfold_locales
  fix r :: "'a rax" and m k v op up
  assume "represents r m"
  then obtain t where t: "rax_holds r t" "map_of (pairs t) = m" by (auto simp: represents_def)
  then have h: "sits r [] t" "rt_wf t" by (simp_all add: rax_holds_def)
  show "\<exists>r'. rax_insert r k v = Some (m k, r') \<and> represents r' (m(k \<mapsto> v))"
    using insert_ok [OF t(1), of k v] t(2) unfolding represents_def by metis
  show "\<exists>r'. rax_remove r k = Some (m k, r') \<and> represents r' (m(k := None))"
    using remove_ok [OF t(1), of k] t(2) unfolding represents_def by metis
  show "rax_find r k = Some (m k)" using find_ok [OF h] t(2) by simp
  show "rax_scan r op up k = Some (scan op up k (entries m))"
    using seek_ok [OF h, of op k] entries_pairs [OF h(2)] t(2) by (auto simp: rax_scan_def)
qed

lemma represents_new: "represents rax_new Map.empty"
  using new_ok by (force simp: represents_def)

lemma represents_len: "represents r m \<Longrightarrow> rax_len r = card (dom m)"
  by (auto simp: represents_def rax_holds_def rax_len_def numele_card)

lemma represents_node_count:
  assumes "represents r m"
  obtains t where "rax_holds r t" "map_of (pairs t) = m" "rax_node_count r = length (ids t)"
proof -
  obtain t where t: "rax_holds r t" "map_of (pairs t) = m" using assms by (auto simp: represents_def)
  then have "size (mset (ids t) + mset (rx_free r)) = length (rx_nodes r)" by (simp add: rax_holds_def sits_def covers_def)
  then show thesis using that t by (simp add: rax_node_count_def)
qed

text \<open>No node leaks: a tree with no key but the empty one is its root alone.\<close>

lemma represents_one_node:
  assumes "represents r m"
  shows "rax_node_count r = 1 \<longleftrightarrow> dom m \<subseteq> {[]}"
proof -
  obtain t where t: "rax_holds r t" "map_of (pairs t) = m" "rax_node_count r = length (ids t)" by (rule represents_node_count [OF assms])
  obtain i v es where e: "t = RT i v es" by (cases t)
  have w: "rt_wf t" using t(1) by (simp add: rax_holds_def)
  have d: "dom m = fst ` set (pairs t)" unfolding t(2) [symmetric] by (rule dom_map_of_conv_image_fst)
  have "rax_node_count r = 1 \<longleftrightarrow> es = []" using t(3) by (cases es) (auto simp: e, metis ids.simps list.distinct(1) rt.exhaust)
  moreover have "es = [] \<longleftrightarrow> dom m \<subseteq> {[]}"
  proof
    assume "dom m \<subseteq> {[]}"
    show "es = []"
    proof (rule ccontr)
      assume "es \<noteq> []"
      then obtain l c es' where es: "es = (l, c) # es'" by (cases es) auto
      have "pairs c \<noteq> []" using w alive_pairs [of c] by (simp add: e es)
      then obtain k x where "(k, x) \<in> set (kids es)" by (cases "pairs c") (auto simp: es)
      then show False using kids_nonempty [of es k x] w \<open>dom m \<subseteq> {[]}\<close> d by (force simp: e)
    qed
  qed (use d e in \<open>cases v; auto\<close>)
  ultimately show ?thesis by simp
qed

lemma represents_find_mut: "represents r m \<Longrightarrow> \<exists>r'. rax_find_mut r k f = Some r' \<and> represents r' (m(k := map_option f (m k)))"
  unfolding represents_def using find_mut_ok by metis

lemma represents_clear: "represents (rax_clear r) Map.empty"
  using represents_new by (simp add: rax_clear_def rax_new_def)

text \<open>All entries, from either end.\<close>

definition rax_all :: "'v rax \<Rightarrow> bool \<Rightarrow> (bytes \<times> 'v) list option" where
  "rax_all r up = do {
     it \<leftarrow> (if up then rax_iter r else rax_iter_rev r);
     (xs, _) \<leftarrow> collect_pairs r it;
     Some xs }"

lemma represents_iter:
  assumes "represents r m"
  shows "rax_all r up = Some (if up then entries m else rev (entries m))"
    and "rax_first r = Some (if entries m = [] then None else Some (hd (entries m)))" "rax_last r = Some (if entries m = [] then None else Some (last (entries m)))"
proof -
  obtain t where t: "rax_holds r t" "map_of (pairs t) = m" using assms by (auto simp: represents_def)
  then have h: "sits r [] t" "rt_wf t" by (simp_all add: rax_holds_def)
  have e: "pairs t = entries m" using entries_pairs [OF h(2)] t(2) by simp
  note i = rax_iter_ok [OF h, unfolded e]
  show "rax_all r up = Some (if up then entries m else rev (entries m))" using i(1,2) by (auto simp: rax_all_def)
  show "rax_first r = Some (if entries m = [] then None else Some (hd (entries m)))" "rax_last r = Some (if entries m = [] then None else Some (last (entries m)))"
    using i(3,4) by simp_all
qed

subsection \<open>Properties\<close>



text \<open>A scan on concrete entries: seeking the last key at most the target and going up from it.\<close>

lemma scan_example:
  "do { (_, r) \<leftarrow> run_map rax_insert rax_remove rax_new [Put [1, 2, 3] (10 :: nat), Put [1, 2] 20, Put [5] 30, Put [9] 40, Del [9]]; rax_scan r Le True [4] }
     = Some [([1, 2, 3], 10), ([5], 30)]"
  by code_simp

text \<open>A key that ends inside the label of a compressed node leaves a chain of two nodes below it, each with one child and the lower one
  without a value, where a removal of a sibling would leave one compressed node: the same keys take four nodes or three.\<close>

lemma insert_leaves_chain:
  "map_option (rax_node_count \<circ> snd) (run_map rax_insert rax_remove rax_new [Put [1, 2, 3, 4, 5, 6] (1 :: nat), Put [1, 2, 3] 2]) = Some 4"
  "map_option (rax_node_count \<circ> snd) (run_map rax_insert rax_remove rax_new [Put [1, 2, 3, 4, 5, 6] (1 :: nat), Put [1, 2, 3] 2, Put [1, 2, 3, 7] 3, Del [1, 2, 3, 7]]) = Some 3"
  by code_simp+

end
