(* ===== verification/Resp_Parser.thy ===== *)
theory Resp_Parser
  imports Strnum
begin

text \<open>
  The request parser of \<^verbatim>\<open>src/src/resp/parser.rs\<close>: a resumable state machine over the connection's
  read buffer. Each iteration of the loop of \<^verbatim>\<open>RequestParser::parse\<close> is \<open>parse_step\<close>, which either
  continues in a new state or returns; \<open>parse\<close> iterates it and always ends. A frame is consumed
  from the buffer only when it is complete.
\<close>

unbundle bit_operations_syntax

subsection \<open>Types and limits\<close>

definition INLINE_MAX_SIZE :: nat where "INLINE_MAX_SIZE = 65536"

definition MULTIBULK_MAX :: int where "MULTIBULK_MAX = 1048576"

definition PROTO_MAX_BULK_LEN :: nat where "PROTO_MAX_BULK_LEN = 536870912"

datatype proto_error =
  InvalidMultibulkLength | InvalidBulkLength | ExpectedDollar byte | TooBigInline
| UnbalancedQuotes | TooBigMbulkCount | TooBigBulkCount

datatype parsed = Command "bytes list" | EmptyFrame | Incomplete

datatype pstate =
  Start
| MbulkHeader (mb_scanned: nat)
| BulkHeader (bh_pos: nat) (bh_remaining: nat) (bh_scanned: nat)
| BulkBody (bb_start: nat) (bb_len: nat) (bb_remaining: nat)
| Inline (in_scanned: nat)

record request_parser =
  proto_max_bulk_len :: nat
  pr_state :: pstate
  ranges :: "(nat \<times> nat) list"

definition parser_new :: "nat \<Rightarrow> request_parser" where
  "parser_new m = \<lparr>proto_max_bulk_len = m, pr_state = Start, ranges = []\<rparr>"

definition set_proto_max_bulk_len :: "request_parser \<Rightarrow> nat \<Rightarrow> request_parser" where
  "set_proto_max_bulk_len p v = p\<lparr>proto_max_bulk_len := v\<rparr>"

definition is_mid_frame :: "request_parser \<Rightarrow> bool" where
  "is_mid_frame p \<longleftrightarrow> pr_state p \<noteq> Start"

definition scan_position :: "request_parser \<Rightarrow> nat" where
  "scan_position p =
     (case pr_state p of Start \<Rightarrow> 0 | MbulkHeader s \<Rightarrow> s | Inline s \<Rightarrow> s
      | BulkHeader pos _ _ \<Rightarrow> pos | BulkBody start len _ \<Rightarrow> min (start + len) (2 ^ 64 - 1))"

definition reset :: "request_parser \<Rightarrow> request_parser" where
  "reset p = p\<lparr>pr_state := Start, ranges := []\<rparr>"

subsection \<open>Header lines and numbers\<close>

datatype line = LFound nat nat nat | LIncomplete nat | LMalformed

definition line_end :: "(byte \<Rightarrow> bytes \<Rightarrow> nat option) \<Rightarrow> bytes \<Rightarrow> nat \<Rightarrow> nat \<Rightarrow> line" where
  "line_end mc buf from scanned =
     (let scan_from = max scanned from in
      case slice_get buf scan_from (length buf) of
        None \<Rightarrow> LIncomplete (length buf)
      | Some rest \<Rightarrow>
          (case mc 13 rest of
             None \<Rightarrow> LIncomplete (length buf)
           | Some rel \<Rightarrow>
               (let cr = scan_from + rel in
                case nth_opt buf (cr + 1) of
                  None \<Rightarrow> LIncomplete cr
                | Some b \<Rightarrow> if b = 10 then LFound from cr (cr + 2) else LMalformed)))"

definition I64_MAX :: int where "I64_MAX = 2 ^ 63 - 1"

fun strict_digits_loop :: "bytes \<Rightarrow> int \<Rightarrow> int option" where
  "strict_digits_loop [] v = Some v"
| "strict_digits_loop (c # cs) v =
     (if \<not> is_digit c then None
      else if v * 10 > I64_MAX \<or> v * 10 < - (2 ^ 63) then None
      else let v = v * 10 + int (digit_val c) in
        if v > I64_MAX then None else strict_digits_loop cs v)"

definition parse_i64_strict :: "bytes \<Rightarrow> int option" where
  "parse_i64_strict s =
     (if s = [] then None
      else (case (if nth_opt s 0 = Some 45 then (True, drop 1 s) else (False, s)) of (neg, ds) \<Rightarrow>
              if ds = [] then None
              else map_option (\<lambda>v. if neg then - v else v) (strict_digits_loop ds 0)))"

subsection \<open>Inline commands\<close>

definition is_ascii_whitespace :: "byte \<Rightarrow> bool" where
  "is_ascii_whitespace c \<longleftrightarrow> c = 32 \<or> c = 9 \<or> c = 10 \<or> c = 12 \<or> c = 13"

definition hex_val :: "byte \<Rightarrow> byte option" where
  "hex_val c =
     (if 48 \<le> c \<and> c \<le> 57 then Some (c - 48)
      else if 97 \<le> c \<and> c \<le> 102 then Some (c - 97 + 10)
      else if 65 \<le> c \<and> c \<le> 70 then Some (c - 65 + 10)
      else None)"

definition unescape :: "byte \<Rightarrow> byte" where
  "unescape esc =
     (if esc = 110 then 10 else if esc = 114 then 13 else if esc = 116 then 9
      else if esc = 98 then 8 else if esc = 97 then 7 else esc)"

definition hex_pair :: "bytes \<Rightarrow> (byte \<times> bytes) option" where
  "hex_pair r = (case r of h1 # h2 # r' \<Rightarrow>
       (case (hex_val h1, hex_val h2) of (Some a, Some b) \<Rightarrow> Some (push_bit 4 a OR b, r') | _ \<Rightarrow> None)
     | _ \<Rightarrow> None)"

lemma hex_pair_length: "hex_pair r = Some (b, r') \<Longrightarrow> length r = Suc (Suc (length r'))"
  by (auto simp: hex_pair_def split: list.splits option.splits)

text \<open>The loops of \<^verbatim>\<open>split_inline\<close> advance an index; the models walk the rest of the line from there.
  A quoted argument returns the collected bytes and what follows the closing quote.\<close>

definition close_quote :: "bytes \<Rightarrow> bytes \<Rightarrow> proto_error + bytes \<times> bytes" where
  "close_quote acc r =
     (case r of c # _ \<Rightarrow> if \<not> is_ascii_whitespace c then Inl UnbalancedQuotes else Inr (acc, r)
      | [] \<Rightarrow> Inr (acc, r))"

function dquote_loop :: "bytes \<Rightarrow> bytes \<Rightarrow> proto_error + bytes \<times> bytes" where
  "dquote_loop [] acc = Inl UnbalancedQuotes"
| "dquote_loop (c # r) acc =
     (if c = 92 then
        (case r of
           [] \<Rightarrow> Inl UnbalancedQuotes
         | esc # r1 \<Rightarrow>
             (case (if esc = 120 then hex_pair r1 else None) of
                Some (b, r2) \<Rightarrow> dquote_loop r2 (acc @ [b])
              | None \<Rightarrow> dquote_loop r1 (acc @ [unescape esc])))
      else if c = 34 then close_quote acc r
      else dquote_loop r (acc @ [c]))"
  by pat_completeness auto
termination
  by (relation "measure (\<lambda>(r, acc). length r)") (auto dest!: hex_pair_length split: if_splits)

fun squote_loop :: "bytes \<Rightarrow> bytes \<Rightarrow> proto_error + bytes \<times> bytes" where
  "squote_loop [] acc = Inl UnbalancedQuotes"
| "squote_loop (c # r) acc =
     (if c = 92 \<and> nth_opt r 0 = Some 39 then squote_loop (drop 1 r) (acc @ [39])
      else if c = 39 then close_quote acc r
      else squote_loop r (acc @ [c]))"

lemma close_quote_length: "close_quote acc r = Inr (b, r') \<Longrightarrow> r' = r"
  by (auto simp: close_quote_def split: list.splits if_splits)

lemma dquote_loop_length: "dquote_loop r acc = Inr (b, r') \<Longrightarrow> length r' < length r"
proof (induction r acc rule: dquote_loop.induct)
  case (2 c r acc)
  then show ?case
    by (auto split: if_splits list.splits option.splits dest!: hex_pair_length close_quote_length)
      (force dest!: hex_pair_length)+
qed simp

lemma squote_loop_length: "squote_loop r acc = Inr (b, r') \<Longrightarrow> length r' < length r"
proof (induction r acc rule: squote_loop.induct)
  case (2 c r acc)
  then show ?case
    by (auto split: if_splits dest!: close_quote_length simp del: nth_opt_Some)
qed simp

function split_inline_loop :: "bytes \<Rightarrow> bytes list \<Rightarrow> proto_error + bytes list" where
  "split_inline_loop line out =
     (case dropWhile is_ascii_whitespace line of
        [] \<Rightarrow> Inr out
      | c # r \<Rightarrow>
          if c = 34 then
            (case dquote_loop r [] of Inl e \<Rightarrow> Inl e | Inr (b, r') \<Rightarrow> split_inline_loop r' (out @ [b]))
          else if c = 39 then
            (case squote_loop r [] of Inl e \<Rightarrow> Inl e | Inr (b, r') \<Rightarrow> split_inline_loop r' (out @ [b]))
          else split_inline_loop (dropWhile (\<lambda>c. \<not> is_ascii_whitespace c) (c # r))
                 (out @ [takeWhile (\<lambda>c. \<not> is_ascii_whitespace c) (c # r)]))"
  by pat_completeness auto

lemma split_inline_progress:
  assumes "dropWhile is_ascii_whitespace line = c # r"
  shows "length r < length line" "length (dropWhile (\<lambda>c. \<not> is_ascii_whitespace c) (c # r)) < length line"
proof -
  have "\<not> is_ascii_whitespace c" using assms hd_dropWhile [of is_ascii_whitespace line] by simp
  moreover have "length (c # r) \<le> length line" using assms length_dropWhile_le [of is_ascii_whitespace line] by simp
  moreover have "length (dropWhile (\<lambda>c. \<not> is_ascii_whitespace c) r) \<le> length r" by (rule length_dropWhile_le)
  ultimately show "length r < length line" "length (dropWhile (\<lambda>c. \<not> is_ascii_whitespace c) (c # r)) < length line" by auto
qed

termination split_inline_loop
  by (relation "measure (\<lambda>(line, out). length line)")
    (use split_inline_progress dquote_loop_length squote_loop_length in \<open>fastforce+\<close>)

declare split_inline_loop.simps [simp del]

definition split_inline :: "bytes \<Rightarrow> proto_error + bytes list" where
  "split_inline line = split_inline_loop line []"

subsection \<open>The state machine\<close>

datatype pstep = Continue request_parser | Return request_parser bytes "proto_error + parsed"

definition header_digits :: "bytes \<Rightarrow> nat \<Rightarrow> nat \<Rightarrow> bytes" where
  "header_digits buf s e = (case slice_get buf s e of Some d \<Rightarrow> d | None \<Rightarrow> [])"

definition frame_args :: "bytes \<Rightarrow> (nat \<times> nat) list \<Rightarrow> bytes list" where
  "frame_args frame rs = map (\<lambda>(s, e). take (e - s) (drop s frame)) rs"

definition step_mbulk_header :: "(byte \<Rightarrow> bytes \<Rightarrow> nat option) \<Rightarrow> request_parser \<Rightarrow> bytes \<Rightarrow> nat \<Rightarrow> pstep" where
  "step_mbulk_header mc p buf scanned =
     (case line_end mc buf 1 scanned of
        LIncomplete nxt \<Rightarrow>
          if length buf > INLINE_MAX_SIZE then Return p buf (Inl TooBigMbulkCount)
          else Return (p\<lparr>pr_state := MbulkHeader nxt\<rparr>) buf (Inr Incomplete)
      | LMalformed \<Rightarrow> Return p buf (Inl InvalidMultibulkLength)
      | LFound s e nxt \<Rightarrow>
          (case parse_i64_strict (header_digits buf s e) of
             None \<Rightarrow> Return p buf (Inl InvalidMultibulkLength)
           | Some count \<Rightarrow>
               if count > MULTIBULK_MAX then Return p buf (Inl InvalidMultibulkLength)
               else if count \<le> 0 then Return (reset p) (drop nxt buf) (Inr EmptyFrame)
               else Continue (p\<lparr>ranges := [], pr_state := BulkHeader nxt (nat count) nxt\<rparr>)))"

definition step_bulk_header ::
  "(byte \<Rightarrow> bytes \<Rightarrow> nat option) \<Rightarrow> request_parser \<Rightarrow> bytes \<Rightarrow> nat \<Rightarrow> nat \<Rightarrow> nat \<Rightarrow> pstep" where
  "step_bulk_header mc p buf pos remaining scanned =
     (case nth_opt buf pos of
        None \<Rightarrow> Return p buf (Inr Incomplete)
      | Some c \<Rightarrow>
          if c \<noteq> 36 then Return p buf (Inl (ExpectedDollar c))
          else (case line_end mc buf (pos + 1) scanned of
                  LIncomplete nxt \<Rightarrow>
                    if length buf - pos > INLINE_MAX_SIZE then Return p buf (Inl TooBigBulkCount)
                    else Return (p\<lparr>pr_state := BulkHeader pos remaining nxt\<rparr>) buf (Inr Incomplete)
                | LMalformed \<Rightarrow> Return p buf (Inl InvalidBulkLength)
                | LFound s e nxt \<Rightarrow>
                    (case parse_i64_strict (header_digits buf s e) of
                       None \<Rightarrow> Return p buf (Inl InvalidBulkLength)
                     | Some len \<Rightarrow>
                         if len < 0 \<or> len > int (proto_max_bulk_len p) then Return p buf (Inl InvalidBulkLength)
                         else Continue (p\<lparr>pr_state := BulkBody nxt (nat len) (remaining - 1)\<rparr>))))"

definition step_bulk_body :: "request_parser \<Rightarrow> bytes \<Rightarrow> nat \<Rightarrow> nat \<Rightarrow> nat \<Rightarrow> pstep" where
  "step_bulk_body p buf start len remaining =
     (case Option.bind (checked_add start len) (\<lambda>e. checked_add e 2) of
        None \<Rightarrow> Return p buf (Inl InvalidBulkLength)
      | Some after \<Rightarrow>
          if length buf < after then Return p buf (Inr Incomplete)
          else
            (let p = p\<lparr>ranges := ranges p @ [(start, after - 2)]\<rparr> in
             if remaining = 0 then
               Return (reset p) (drop after buf) (Inr (Command (frame_args (take after buf) (ranges p))))
             else Continue (p\<lparr>pr_state := BulkHeader after remaining after\<rparr>)))"

definition step_inline :: "(byte \<Rightarrow> bytes \<Rightarrow> nat option) \<Rightarrow> request_parser \<Rightarrow> bytes \<Rightarrow> nat \<Rightarrow> pstep" where
  "step_inline mc p buf scanned =
     (let rest = (case slice_get buf scanned (length buf) of Some r \<Rightarrow> r | None \<Rightarrow> []) in
      case mc 10 rest of
        None \<Rightarrow>
          if length buf > INLINE_MAX_SIZE then Return p buf (Inl TooBigInline)
          else Return (p\<lparr>pr_state := Inline (length buf)\<rparr>) buf (Inr Incomplete)
      | Some rel \<Rightarrow>
          (let nl = scanned + rel in
           if nl > INLINE_MAX_SIZE then Return p buf (Inl TooBigInline)
           else
             (let end = (if nl > 0 \<and> nth_opt buf (nl - 1) = Some 13 then nl - 1 else nl);
                  line = take (nl + 1) buf in
              case split_inline (take end line) of
                Inl e \<Rightarrow> Return (reset p) (drop (nl + 1) buf) (Inl e)
              | Inr args \<Rightarrow>
                  Return (reset p) (drop (nl + 1) buf) (Inr (if args = [] then EmptyFrame else Command args)))))"

definition parse_step :: "(byte \<Rightarrow> bytes \<Rightarrow> nat option) \<Rightarrow> request_parser \<Rightarrow> bytes \<Rightarrow> pstep" where
  "parse_step mc p buf =
     (case pr_state p of
        Start \<Rightarrow>
          (case nth_opt buf 0 of
             None \<Rightarrow> Return p buf (Inr Incomplete)
           | Some c \<Rightarrow> Continue (p\<lparr>pr_state := (if c = 42 then MbulkHeader 1 else Inline 0)\<rparr>))
      | MbulkHeader scanned \<Rightarrow> step_mbulk_header mc p buf scanned
      | BulkHeader pos remaining scanned \<Rightarrow> step_bulk_header mc p buf pos remaining scanned
      | BulkBody start len remaining \<Rightarrow> step_bulk_body p buf start len remaining
      | Inline scanned \<Rightarrow> step_inline mc p buf scanned)"

lemma line_end_Found:
  "line_end mc buf from scanned = LFound s e nxt \<Longrightarrow> s = from \<and> from \<le> e \<and> nxt = e + 2 \<and> nxt \<le> length buf"
  by (auto simp: line_end_def Let_def split: option.splits if_splits)

fun state_left :: "nat \<Rightarrow> pstate \<Rightarrow> nat" where
  "state_left n Start = n + 2"
| "state_left n (MbulkHeader s) = n + 1"
| "state_left n (Inline s) = n + 1"
| "state_left n (BulkHeader pos _ _) = n - pos"
| "state_left n (BulkBody start _ _) = n - start"

lemma parse_step_progress:
  "parse_step mc p buf = Continue p' \<Longrightarrow> state_left (length buf) (pr_state p') < state_left (length buf) (pr_state p)"
  by (auto simp: parse_step_def step_mbulk_header_def step_bulk_header_def step_bulk_body_def step_inline_def Let_def
      checked_add_def bind_eq_Some_conv
      split: pstate.splits option.splits line.splits if_splits sum.splits dest!: line_end_Found)

function parse :: "(byte \<Rightarrow> bytes \<Rightarrow> nat option) \<Rightarrow> request_parser \<Rightarrow> bytes \<Rightarrow> request_parser \<times> bytes \<times> (proto_error + parsed)" where
  "parse mc p buf =
     (case parse_step mc p buf of Return p' buf' r \<Rightarrow> (p', buf', r) | Continue p' \<Rightarrow> parse mc p' buf)"
  by pat_completeness auto
termination
  by (relation "measure (\<lambda>(mc, p, buf). state_left (length buf) (pr_state p))") (auto dest: parse_step_progress)

declare parse.simps [simp del]

end
