(* ===== verification/Resp_Proofs.thy ===== *)
theory Resp_Proofs
  imports Resp_Parser
begin

text \<open>
  Correctness of the request parser: resuming after an incomplete read gives the outcome of parsing
  the whole input at once, an encoded command parses back to its arguments, nothing is consumed
  before a frame is complete, and the buffered header lines stay within their limits.
\<close>

unbundle bit_operations_syntax

subsection \<open>Searches on a longer buffer\<close>

text \<open>The position a search from \<open>j\<close> finds, in the whole buffer.\<close>

definition find_abs :: "byte \<Rightarrow> bytes \<Rightarrow> nat \<Rightarrow> nat option" where
  "find_abs c buf j = map_option ((+) j) (find_byte c (drop j buf))"

lemma find_abs_bound: "find_abs c buf j = Some i \<Longrightarrow> j \<le> i \<and> i < length buf"
  by (auto simp: find_abs_def find_byte_Some)

lemma find_abs_extend: "find_abs c buf j = Some i \<Longrightarrow> find_abs c (buf @ xs) j = Some i"
  by (auto simp: find_abs_def find_byte_append split: option.splits)

lemma find_abs_resume:
  assumes "find_abs c buf j = None" "j \<le> length buf" shows "find_abs c (buf @ xs) (length buf) = find_abs c (buf @ xs) j"
proof -
  have "find_byte c (drop j buf) = None" using assms(1) by (simp add: find_abs_def)
  then show ?thesis using assms(2) by (cases "find_byte c xs") (simp_all add: find_abs_def find_byte_append)
qed

lemma find_abs_self: "find_abs c buf j = Some i \<Longrightarrow> find_abs c buf i = Some i"
proof -
  assume a: "find_abs c buf j = Some i"
  then have "i < length buf" "buf ! i = c" by (auto simp: find_abs_def find_byte_Some)
  then have "drop i buf = c # drop (Suc i) buf" by (simp add: Cons_nth_drop_Suc [symmetric])
  then show ?thesis by (simp add: find_abs_def)
qed

lemma line_end_eq:
  "max k from \<le> length buf \<Longrightarrow> line_end find_byte buf from k =
     (case find_abs 13 buf (max k from) of None \<Rightarrow> LIncomplete (length buf)
      | Some cr \<Rightarrow> (case nth_opt buf (cr + 1) of None \<Rightarrow> LIncomplete cr
          | Some b \<Rightarrow> if b = 10 then LFound from cr (cr + 2) else LMalformed))"
  by (cases "find_byte 13 (drop (max k from) buf)") (simp_all add: line_end_def find_abs_def slice_get_def Let_def)

lemma line_end_extend:
  assumes "line_end find_byte buf from k = l" "\<And>i. l \<noteq> LIncomplete i" "max k from \<le> length buf"
  shows "line_end find_byte (buf @ xs) from k = l"
proof -
  have l: "l = (case find_abs 13 buf (max k from) of None \<Rightarrow> LIncomplete (length buf)
      | Some cr \<Rightarrow> (case nth_opt buf (cr + 1) of None \<Rightarrow> LIncomplete cr
          | Some b \<Rightarrow> if b = 10 then LFound from cr (cr + 2) else LMalformed))"
    using assms(1,3) by (simp only: line_end_eq)
  obtain cr where cr: "find_abs 13 buf (max k from) = Some cr"
    using l assms(2) by (cases "find_abs 13 buf (max k from)") auto
  moreover obtain b where b: "nth_opt buf (cr + 1) = Some b"
    using l cr assms(2) by (cases "nth_opt buf (cr + 1)") (auto simp del: nth_opt_None)
  moreover have "nth_opt (buf @ xs) (cr + 1) = Some b" using b by (simp add: nth_append)
  ultimately show ?thesis using assms(3) l find_abs_extend [OF cr, of xs] by (simp add: line_end_eq del: nth_opt_Some)
qed

lemma line_end_resume:
  assumes "line_end find_byte buf from k = LIncomplete k'" "max k from \<le> length buf"
  shows "line_end find_byte (buf @ xs) from k' = line_end find_byte (buf @ xs) from k \<and> max k' from \<le> length buf"
proof (cases "find_abs 13 buf (max k from)")
  case None
  then have k': "k' = length buf" using assms by (simp add: line_end_eq)
  then have "max k' from = length buf" using assms(2) by simp
  with find_abs_resume [OF None assms(2), of xs] k' assms(2) show ?thesis by (simp add: line_end_eq)
next
  case (Some cr)
  then have "k' = cr" using assms by (auto simp: line_end_eq split: option.splits if_splits)
  moreover from this have "max k' from = cr" using find_abs_bound [OF Some] by simp
  moreover note find_abs_extend [OF Some, of xs]
  moreover note find_abs_self [OF this]
  ultimately show ?thesis using assms(2) find_abs_bound [OF Some] by (simp add: line_end_eq)
qed

fun state_ok :: "nat \<Rightarrow> pstate \<Rightarrow> bool" where
  "state_ok n Start = True"
| "state_ok n (MbulkHeader s) = (s \<le> n \<and> 1 \<le> n)"
| "state_ok n (BulkHeader pos r s) = (pos \<le> n \<and> s \<le> n \<and> 0 < r)"
| "state_ok n (BulkBody start len r) = (start \<le> n)"
| "state_ok n (Inline s) = (s \<le> n)"

lemma header_digits_extend: "e \<le> length buf \<Longrightarrow> header_digits (buf @ xs) s e = header_digits buf s e"
  by (auto simp: header_digits_def slice_get_def)

lemma step_inline_eq:
  "s \<le> length buf \<Longrightarrow> step_inline find_byte p buf s =
     (case find_abs 10 buf s of
        None \<Rightarrow> if length buf > INLINE_MAX_SIZE then Return p buf (Inl TooBigInline)
                else Return (p\<lparr>pr_state := Inline (length buf)\<rparr>) buf (Inr Incomplete)
      | Some nl \<Rightarrow> if nl > INLINE_MAX_SIZE then Return p buf (Inl TooBigInline)
           else (case split_inline (take (if nl > 0 \<and> nth_opt buf (nl - 1) = Some 13 then nl - 1 else nl) buf) of
                Inl e \<Rightarrow> Return (reset p) (drop (nl + 1) buf) (Inl e)
              | Inr args \<Rightarrow> Return (reset p) (drop (nl + 1) buf) (Inr (if args = [] then EmptyFrame else Command args))))"
  by (cases "find_byte 10 (drop s buf)")
    (simp_all add: step_inline_def find_abs_def slice_get_def Let_def min_absorb1 del: nth_opt_Some)

subsection \<open>One step on a longer buffer\<close>

lemma continue_extend:
  assumes "parse_step find_byte p buf = Continue p'" "state_ok (length buf) (pr_state p)"
  shows "parse_step find_byte p (buf @ xs) = Continue p' \<and> state_ok (length buf) (pr_state p')"
proof (cases "pr_state p")
  case Start
  then show ?thesis using assms by (cases buf) (auto simp: parse_step_def)
next
  case (MbulkHeader s)
  then obtain a e nxt where l: "line_end find_byte buf 1 s = LFound a e nxt"
    using assms by (auto simp: parse_step_def step_mbulk_header_def split: line.splits if_splits)
  then have "line_end find_byte (buf @ xs) 1 s = LFound a e nxt"
    using assms MbulkHeader by (intro line_end_extend) auto
  then show ?thesis using assms MbulkHeader l line_end_Found [OF l]
    by (auto simp: parse_step_def step_mbulk_header_def header_digits_extend split: option.splits if_splits)
next
  case (BulkHeader pos r s)
  then have pos: "nth_opt buf pos = Some 36" using assms
    by (auto simp: parse_step_def step_bulk_header_def split: option.splits if_splits)
  then obtain a e nxt where l: "line_end find_byte buf (pos + 1) s = LFound a e nxt"
    using assms BulkHeader by (auto simp: parse_step_def step_bulk_header_def simp del: nth_opt_Some split: line.splits if_splits)
  then have "line_end find_byte (buf @ xs) (pos + 1) s = LFound a e nxt"
    using assms BulkHeader pos by (intro line_end_extend) auto
  moreover have "nth_opt (buf @ xs) pos = Some 36" using pos by (simp add: nth_append)
  ultimately show ?thesis using assms BulkHeader pos l line_end_Found [OF l]
    by (auto simp: parse_step_def step_bulk_header_def header_digits_extend simp del: nth_opt_Some split: option.splits if_splits)
next
  case (BulkBody start len r)
  then show ?thesis using assms
    by (auto simp: parse_step_def step_bulk_body_def Let_def checked_add_def bind_eq_Some_conv split: option.splits if_splits)
next
  case (Inline s)
  then show ?thesis using assms by (auto simp: parse_step_def step_inline_eq simp del: nth_opt_Some split: option.splits if_splits sum.splits)
qed

lemma incomplete_extend:
  assumes "parse_step find_byte p buf = Return p' buf' (Inr Incomplete)" "state_ok (length buf) (pr_state p)"
  shows "buf' = buf \<and> state_ok (length buf) (pr_state p') \<and> proto_max_bulk_len p' = proto_max_bulk_len p \<and> ranges p' = ranges p
    \<and> (pr_state p' = pr_state p
       \<or> (\<exists>s s'. pr_state p = MbulkHeader s \<and> pr_state p' = MbulkHeader s'
             \<and> (\<forall>xs. line_end find_byte (buf @ xs) 1 s' = line_end find_byte (buf @ xs) 1 s))
       \<or> (\<exists>pos r s s'. pr_state p = BulkHeader pos r s \<and> pr_state p' = BulkHeader pos r s' \<and> pos < length buf
             \<and> (\<forall>xs. line_end find_byte (buf @ xs) (pos + 1) s' = line_end find_byte (buf @ xs) (pos + 1) s))
       \<or> (\<exists>s s'. pr_state p = Inline s \<and> pr_state p' = Inline s' \<and> s' \<le> length buf
             \<and> (\<forall>xs. find_abs 10 (buf @ xs) s' = find_abs 10 (buf @ xs) s)))"
proof (cases "pr_state p")
  case Start
  then show ?thesis using assms by (auto simp: parse_step_def split: option.splits)
next
  case (MbulkHeader s)
  then obtain k where l: "line_end find_byte buf 1 s = LIncomplete k" and p': "p' = p\<lparr>pr_state := MbulkHeader k\<rparr>" "buf' = buf"
    using assms by (auto simp: parse_step_def step_mbulk_header_def split: line.splits if_splits option.splits)
  have "max s 1 \<le> length buf" using assms MbulkHeader by simp
  from line_end_resume [OF l this] show ?thesis using p' MbulkHeader by auto
next
  case (BulkHeader pos r s)
  show ?thesis
  proof (cases "nth_opt buf pos")
    case None
    then show ?thesis using assms BulkHeader by (simp add: parse_step_def step_bulk_header_def del: nth_opt_None)
  next
    case (Some c)
    then obtain k where l: "line_end find_byte buf (pos + 1) s = LIncomplete k" and p': "p' = p\<lparr>pr_state := BulkHeader pos r k\<rparr>" "buf' = buf"
      using assms BulkHeader
      by (auto simp: parse_step_def step_bulk_header_def simp del: nth_opt_Some split: line.splits if_splits option.splits)
    have "max s (pos + 1) \<le> length buf" using assms BulkHeader Some by simp
    from line_end_resume [OF l this] show ?thesis using p' BulkHeader assms(2) Some by auto
  qed
next
  case (BulkBody start len r)
  then show ?thesis using assms by (auto simp: parse_step_def step_bulk_body_def Let_def split: option.splits if_splits)
next
  case (Inline s)
  then have s: "s \<le> length buf" using assms by simp
  then have n: "find_abs 10 buf s = None" and p': "p' = p\<lparr>pr_state := Inline (length buf)\<rparr>" "buf' = buf"
    using assms Inline by (auto simp: parse_step_def step_inline_eq simp del: nth_opt_Some split: option.splits if_splits sum.splits)
  show ?thesis using find_abs_resume [OF n s] p' Inline by auto
qed

text \<open>Two outcomes that a connection cannot tell apart: the same result and remaining bytes, and the
  same parser unless the connection is about to close on an error.\<close>

fun same_outcome :: "request_parser \<times> bytes \<times> (proto_error + parsed) \<Rightarrow> request_parser \<times> bytes \<times> (proto_error + parsed) \<Rightarrow> bool" where
  "same_outcome (p1, b1, r1) (p2, b2, r2) \<longleftrightarrow> b1 = b2 \<and> r1 = r2 \<and> (isl r1 \<or> p1 = p2)"

lemma same_outcome_refl [simp]: "same_outcome x x"
  by (cases x rule: prod_cases3) simp

lemma same_outcome_trans: "same_outcome x y \<Longrightarrow> same_outcome y z \<Longrightarrow> same_outcome x z"
  by (cases x rule: prod_cases3; cases y rule: prod_cases3; cases z rule: prod_cases3) auto

lemma parse_step_same:
  assumes "parse_step find_byte p1 buf = Continue q \<and> parse_step find_byte p2 buf = Continue q
    \<or> (\<exists>q1 q2 b r. parse_step find_byte p1 buf = Return q1 b r \<and> parse_step find_byte p2 buf = Return q2 b r \<and> (isl r \<or> q1 = q2))"
  shows "same_outcome (parse find_byte p1 buf) (parse find_byte p2 buf)"
  using assms parse.simps [of find_byte p1 buf] parse.simps [of find_byte p2 buf] by auto

lemma resume_same:
  assumes "parse_step find_byte p buf = Return p' buf' (Inr Incomplete)" "state_ok (length buf) (pr_state p)"
  shows "same_outcome (parse find_byte p' (buf @ xs)) (parse find_byte p (buf @ xs))"
proof -
  note inc = incomplete_extend [OF assms]
  have ok: "state_ok (length (buf @ xs)) (pr_state p)" using assms(2) by (cases "pr_state p") auto
  from inc consider "p' = p"
    | s s' where "pr_state p = MbulkHeader s" "p' = p\<lparr>pr_state := MbulkHeader s'\<rparr>"
        "line_end find_byte (buf @ xs) 1 s' = line_end find_byte (buf @ xs) 1 s"
    | pos r s s' where "pr_state p = BulkHeader pos r s" "p' = p\<lparr>pr_state := BulkHeader pos r s'\<rparr>" "pos < length buf"
        "line_end find_byte (buf @ xs) (pos + 1) s' = line_end find_byte (buf @ xs) (pos + 1) s"
    | s s' where "pr_state p = Inline s" "p' = p\<lparr>pr_state := Inline s'\<rparr>" "s' \<le> length buf"
        "find_abs 10 (buf @ xs) s' = find_abs 10 (buf @ xs) s"
    by (cases p, cases p') auto
  then show ?thesis
  proof cases
    case 1 then show ?thesis by simp
  next
    case 2
    show ?thesis by (rule parse_step_same [where q = "case parse_step find_byte p (buf @ xs) of Continue q \<Rightarrow> q"])
        (use 2 in \<open>auto simp: parse_step_def step_mbulk_header_def reset_def split: line.splits option.splits if_splits\<close>)
  next
    case 3
    show ?thesis by (rule parse_step_same [where q = "case parse_step find_byte p (buf @ xs) of Continue q \<Rightarrow> q"])
        (use 3 in \<open>auto simp: parse_step_def step_bulk_header_def split: line.splits option.splits if_splits\<close>)
  next
    case 4
    have "s \<le> length (buf @ xs)" "s' \<le> length (buf @ xs)" using 4 ok by simp_all
    then show ?thesis by (intro parse_step_same [where q = p])
        (use 4 in \<open>auto simp: parse_step_def step_inline_eq reset_def simp del: nth_opt_Some split: option.splits if_splits sum.splits\<close>)
  qed
qed

lemma parse_resume:
  "parse find_byte p buf = (p', buf', Inr Incomplete) \<Longrightarrow> state_ok (length buf) (pr_state p) \<Longrightarrow>
   buf' = buf \<and> state_ok (length buf) (pr_state p')
   \<and> same_outcome (parse find_byte p' (buf @ xs)) (parse find_byte p (buf @ xs))"
proof (induction "state_left (length buf) (pr_state p)" arbitrary: p rule: less_induct)
  case less
  show ?case
  proof (cases "parse_step find_byte p buf")
    case (Continue q)
    with less.prems have "parse find_byte q buf = (p', buf', Inr Incomplete)" by (simp add: parse.simps [of _ p])
    moreover note continue_extend [OF Continue less.prems(2), of xs]
    moreover from this have "parse find_byte p (buf @ xs) = parse find_byte q (buf @ xs)" by (subst parse.simps) simp
    ultimately show ?thesis using less.hyps [OF parse_step_progress [OF Continue]] by simp
  next
    case (Return q b r)
    with less.prems have "parse_step find_byte p buf = Return p' buf' (Inr Incomplete)" by (simp add: parse.simps)
    with incomplete_extend [OF this less.prems(2)] resume_same [OF this less.prems(2)] show ?thesis by blast
  qed
qed

definition too_big :: "proto_error + parsed \<Rightarrow> bool" where
  "too_big r \<longleftrightarrow> r \<in> {Inl TooBigMbulkCount, Inl TooBigBulkCount, Inl TooBigInline}"

lemma return_extend:
  assumes "parse_step find_byte p buf = Return p' buf' r" "state_ok (length buf) (pr_state p)" "r \<noteq> Inr Incomplete" "\<not> too_big r"
  shows "parse_step find_byte p (buf @ xs) = Return p' (buf' @ xs) r"
proof (cases "pr_state p")
  case Start
  then show ?thesis using assms by (auto simp: parse_step_def split: option.splits)
next
  case (MbulkHeader s)
  have "line_end find_byte (buf @ xs) 1 s = line_end find_byte buf 1 s"
    using assms MbulkHeader
    by (intro line_end_extend) (auto simp: parse_step_def step_mbulk_header_def too_big_def split: if_splits)
  then show ?thesis using assms MbulkHeader line_end_Found [of find_byte buf 1 s]
    by (auto simp: parse_step_def step_mbulk_header_def header_digits_extend too_big_def split: line.splits option.splits if_splits)
next
  case (BulkHeader pos rem s)
  show ?thesis
  proof (cases "nth_opt buf pos = Some 36")
    case True
    have "line_end find_byte (buf @ xs) (pos + 1) s = line_end find_byte buf (pos + 1) s"
      using assms BulkHeader True
      by (intro line_end_extend) (auto simp: parse_step_def step_bulk_header_def too_big_def simp del: nth_opt_Some split: if_splits, auto)
    moreover have "nth_opt (buf @ xs) pos = Some 36" using True by (simp add: nth_append)
    ultimately show ?thesis using assms BulkHeader True line_end_Found [of find_byte buf "pos + 1" s]
      by (auto simp: parse_step_def step_bulk_header_def header_digits_extend too_big_def simp del: nth_opt_Some
          split: line.splits option.splits if_splits)
  next
    case False
    then show ?thesis using assms BulkHeader
      by (auto simp: parse_step_def step_bulk_header_def nth_append split: option.splits if_splits)
  qed
next
  case (BulkBody start len rem)
  then show ?thesis using assms
    by (auto simp: parse_step_def step_bulk_body_def Let_def split: option.splits if_splits)
next
  case (Inline s)
  then have s: "s \<le> length buf" using assms by simp
  obtain nl where nl: "find_abs 10 buf s = Some nl"
    using assms Inline s by (cases "find_abs 10 buf s") (auto simp: parse_step_def step_inline_eq too_big_def split: if_splits)
  have lt: "nl < length buf" using find_abs_bound [OF nl] by simp
  then have "nth_opt (buf @ xs) (nl - 1) = nth_opt buf (nl - 1)" by (intro nth_opt_append_left) simp
  then show ?thesis using assms Inline s nl lt find_abs_extend [OF nl, of xs]
    by (auto simp: parse_step_def step_inline_eq too_big_def simp del: nth_opt_Some split: if_splits sum.splits)
qed

lemma parse_extend:
  "parse find_byte p buf = (p', buf', r) \<Longrightarrow> state_ok (length buf) (pr_state p) \<Longrightarrow> r \<noteq> Inr Incomplete \<Longrightarrow> \<not> too_big r \<Longrightarrow>
   parse find_byte p (buf @ xs) = (p', buf' @ xs, r)"
proof (induction "state_left (length buf) (pr_state p)" arbitrary: p rule: less_induct)
  case less
  show ?case
  proof (cases "parse_step find_byte p buf")
    case (Continue q)
    with less.prems have "parse find_byte q buf = (p', buf', r)" by (simp add: parse.simps [of _ p])
    then have "parse find_byte q (buf @ xs) = (p', buf' @ xs, r)"
      using less.hyps [OF parse_step_progress [OF Continue]] continue_extend [OF Continue less.prems(2)] less.prems by simp
    with continue_extend [OF Continue less.prems(2), of xs] show ?thesis by (subst parse.simps) simp
  next
    case (Return q b r')
    with less.prems have "parse_step find_byte p buf = Return p' buf' r" by (simp add: parse.simps)
    from return_extend [OF this less.prems(2,3,4), of xs] show ?thesis by (subst parse.simps) simp
  qed
qed

subsection \<open>The wire form of a command\<close>

definition crlf :: bytes where "crlf = [13, 10]"

definition bulk :: "bytes \<Rightarrow> bytes" where
  "bulk a = 36 # digits (length a) @ crlf @ a @ crlf"

definition encode_command :: "bytes list \<Rightarrow> bytes" where
  "encode_command args = 42 # digits (length args) @ crlf @ concat (map bulk args)"

lemma strict_digits:
  "list_all is_digit cs \<Longrightarrow> int (dec_val v cs) \<le> I64_MAX \<Longrightarrow> strict_digits_loop cs (int v) = Some (int (dec_val v cs))"
proof (induction cs arbitrary: v)
  case (Cons c cs)
  have "v * 10 + digit_val c \<le> dec_val (v * 10 + digit_val c) cs" by (rule dec_val_ge)
  then have "int (v * 10 + digit_val c) \<le> I64_MAX" using Cons.prems by simp
  then show ?case using Cons.IH [of "v * 10 + digit_val c"] Cons.prems by (simp add: Let_def)
qed simp

lemma parse_digits: "int n \<le> I64_MAX \<Longrightarrow> parse_i64_strict (digits n) = Some (int n)"
proof -
  assume n: "int n \<le> I64_MAX"
  have "nth_opt (digits n) 0 \<noteq> Some 45" using digits_no_minus [of n] by (cases "digits n") (auto simp del: digits_no_minus)
  with n show ?thesis using strict_digits [OF digits_all_digit [of n], of 0] by (simp add: parse_i64_strict_def)
qed

lemma digits_no_cr: "13 \<notin> set (digits n)"
  using digits_all_digit [of n] by (auto simp: list_all_iff is_digit_def)

lemma line_end_digits:
  assumes "buf = pre @ digits n @ crlf @ rest" "from = length pre" "scanned \<le> from"
  shows "line_end find_byte buf from scanned = LFound from (from + length (digits n)) (from + length (digits n) + 2)
    \<and> header_digits buf from (from + length (digits n)) = digits n"
proof -
  have "find_byte 13 (digits n @ 13 # 10 # rest) = Some (length (digits n))"
    by (rule find_byte_absent_append) (rule digits_no_cr)
  moreover have "slice_get buf from (length buf) = Some (digits n @ 13 # 10 # rest)"
    using assms by (simp add: slice_get_def crlf_def)
  moreover have "nth_opt buf (from + length (digits n) + 1) = Some 10"
    using assms by (simp add: crlf_def nth_append)
  moreover have "slice_get buf from (from + length (digits n)) = Some (digits n)"
    unfolding assms(1,2) by (rule slice_get_midI) simp_all
  ultimately show ?thesis using assms(3) by (simp add: line_end_def Let_def max_absorb2 header_digits_def del: nth_opt_Some)
qed

definition sendable :: "nat \<Rightarrow> bytes list \<Rightarrow> bool" where
  "sendable m args \<longleftrightarrow> 0 < length args \<and> int (length args) \<le> MULTIBULK_MAX
     \<and> list_all (\<lambda>a. length a \<le> m) args \<and> length (encode_command args) < 2 ^ 63"

lemma parse_bulks:
  assumes "pr_state p = BulkHeader pos (length args) pos" "args \<noteq> []" "length pre = pos" "buf = pre @ concat (map bulk args) @ rest"
    "list_all (\<lambda>a. length a \<le> proto_max_bulk_len p) args" "length (pre @ concat (map bulk args)) < 2 ^ 63"
    "\<forall>(s, e) \<in> set (ranges p). e \<le> length pre"
  shows "parse find_byte p buf = (reset p, rest, Inr (Command (frame_args buf (ranges p) @ args)))"
  using assms
proof (induction args arbitrary: p pos pre)
  case (Cons a args)
  let ?d = "digits (length a)" and ?tl = "concat (map bulk args) @ rest"
  have buf: "buf = (pre @ [36]) @ ?d @ crlf @ (a @ crlf @ ?tl)" using Cons.prems(4) by (simp add: bulk_def [of a])
  let ?nxt = "pos + 1 + length ?d + 2"
  have le: "length a < 2 ^ 63" using Cons.prems by (simp add: bulk_def)
  have line: "line_end find_byte buf (pos + 1) pos = LFound (pos + 1) (pos + 1 + length ?d) ?nxt"
      "header_digits buf (pos + 1) (pos + 1 + length ?d) = ?d"
    using line_end_digits [OF buf, of "pos + 1" pos] Cons.prems(3) by simp_all
  have dollar: "nth_opt buf pos = Some 36" using Cons.prems(3) buf by (simp add: nth_append)
  have num: "parse_i64_strict ?d = Some (int (length a))" using le by (intro parse_digits) (simp add: I64_MAX_def)
  let ?p1 = "p\<lparr>pr_state := BulkBody ?nxt (length a) (length args)\<rparr>"
  have s1: "parse_step find_byte p buf = Continue ?p1"
    using Cons.prems(1,5) dollar line num by (simp add: parse_step_def step_bulk_header_def del: nth_opt_Some)
  let ?after = "?nxt + length a + 2"
  have len: "length (pre @ bulk a) = ?after" using Cons.prems(3) by (simp add: bulk_def crlf_def)
  have add: "Option.bind (checked_add ?nxt (length a)) (\<lambda>e. checked_add e 2) = Some ?after"
    using Cons.prems(6) len by (simp add: checked_add_def bulk_def)
  have long: "?after \<le> length buf" using len Cons.prems(4) by simp
  let ?p2 = "?p1\<lparr>ranges := ranges p @ [(?nxt, ?nxt + length a)]\<rparr>"
  have arg: "take (length a) (drop ?nxt buf) = a"
  proof -
    let ?X = "pre @ 36 # ?d @ crlf"
    have "take (length a) (drop (length ?X) (?X @ a @ crlf @ ?tl)) = a" by simp
    moreover have "length ?X = ?nxt" "buf = ?X @ a @ crlf @ ?tl" using Cons.prems(3) buf by (simp_all add: crlf_def)
    ultimately show ?thesis by metis
  qed
  show ?case
  proof (cases "args = []")
    case True
    have "parse_step find_byte ?p1 buf = Return (reset ?p2) rest (Inr (Command (frame_args (take ?after buf) (ranges ?p2))))"
      using add long True Cons.prems(3,4) len by (simp add: parse_step_def step_bulk_body_def Let_def)
    moreover have "frame_args (take ?after buf) (ranges ?p2) = frame_args buf (ranges p) @ [a]"
      using Cons.prems(7) arg len Cons.prems(3) by (auto simp: frame_args_def drop_take min_def intro!: map_cong)
    ultimately show ?thesis using s1 True by (subst parse.simps, simp, subst parse.simps) (simp add: reset_def)
  next
    case False
    let ?p3 = "?p2\<lparr>pr_state := BulkHeader ?after (length args) ?after\<rparr>"
    have s2: "parse_step find_byte ?p1 buf = Continue ?p3"
      using add long False by (simp add: parse_step_def step_bulk_body_def Let_def)
    have "parse find_byte ?p3 buf = (reset ?p3, rest, Inr (Command (frame_args buf (ranges ?p3) @ args)))"
      by (rule Cons.IH [of _ ?after "pre @ bulk a"]) (use False Cons.prems len in \<open>auto simp: bulk_def\<close>)
    then show ?thesis using s1 s2 arg
      by (subst parse.simps, simp, subst parse.simps) (simp add: reset_def frame_args_def)
  qed
qed simp

lemma parse_encoded:
  assumes "sendable m args"
  shows "parse find_byte (parser_new m) (encode_command args @ rest) = (parser_new m, rest, Inr (Command args))"
proof -
  let ?buf = "encode_command args @ rest" and ?d = "digits (length args)"
  have buf: "?buf = [42] @ ?d @ crlf @ (concat (map bulk args) @ rest)" by (simp add: encode_command_def)
  have line: "line_end find_byte ?buf 1 1 = LFound 1 (1 + length ?d) (1 + length ?d + 2)" "header_digits ?buf 1 (1 + length ?d) = ?d"
    using line_end_digits [OF buf, of 1 1] by simp_all
  have num: "parse_i64_strict ?d = Some (int (length args))"
    using assms by (intro parse_digits) (simp add: sendable_def MULTIBULK_MAX_def I64_MAX_def)
  let ?pos = "1 + length ?d + 2"
  let ?p = "(parser_new m)\<lparr>pr_state := BulkHeader ?pos (length args) ?pos\<rparr>"
  have "parse find_byte (parser_new m) ?buf = parse find_byte ?p ?buf"
    using line num assms
    by (subst parse.simps, simp add: parse_step_def parser_new_def encode_command_def, subst parse.simps)
      (simp add: parse_step_def step_mbulk_header_def sendable_def encode_command_def)
  also have "\<dots> = (reset ?p, rest, Inr (Command (frame_args ?buf (ranges ?p) @ args)))"
    by (rule parse_bulks [of _ ?pos _ "42 # ?d @ crlf"])
      (use assms in \<open>auto simp: sendable_def encode_command_def crlf_def parser_new_def\<close>)
  finally show ?thesis by (simp add: reset_def parser_new_def frame_args_def)
qed

subsection \<open>Reading in chunks\<close>

text \<open>The connection's read loop: append what arrived, parse, and read again while the frame is
  incomplete. Bytes after the frame stay in the buffer.\<close>

fun feed :: "(byte \<Rightarrow> bytes \<Rightarrow> nat option) \<Rightarrow> request_parser \<Rightarrow> bytes \<Rightarrow> bytes list \<Rightarrow> request_parser \<times> bytes \<times> (proto_error + parsed)" where
  "feed mc p buf [] = (p, buf, Inr Incomplete)"
| "feed mc p buf (c # cs) =
     (case parse mc p (buf @ c) of (p', buf', r) \<Rightarrow>
        if r = Inr Incomplete then feed mc p' buf' cs else (p', buf' @ concat cs, r))"

lemma state_ok_mono: "state_ok n s \<Longrightarrow> n \<le> k \<Longrightarrow> state_ok k s"
  by (cases s) auto

lemma feed_same:
  "(\<And>xs. same_outcome (parse find_byte p (buf @ xs)) (parse find_byte p0 (buf @ xs))) \<Longrightarrow>
   parse find_byte p buf = (p, buf, Inr Incomplete) \<Longrightarrow> state_ok (length buf) (pr_state p) \<Longrightarrow>
   feed find_byte p buf cs = (p', b', r) \<Longrightarrow> \<not> too_big r \<Longrightarrow>
   same_outcome (p', b', r) (parse find_byte p0 (buf @ concat cs))"
proof (induction cs arbitrary: p buf)
  case Nil
  then show ?case using Nil.prems(1) [of "[]"] by simp
next
  case (Cons c cs)
  obtain p1 b1 r1 where one: "parse find_byte p (buf @ c) = (p1, b1, r1)" by (cases "parse find_byte p (buf @ c)") auto
  have ok: "state_ok (length (buf @ c)) (pr_state p)" using Cons.prems(3) by (rule state_ok_mono) simp
  show ?case
  proof (cases "r1 = Inr Incomplete")
    case True
    note res = parse_resume [OF one [unfolded True] ok]
    have b1: "b1 = buf @ c" using res by blast
    have "same_outcome (parse find_byte p1 (b1 @ xs)) (parse find_byte p0 (b1 @ xs))" for xs
      using same_outcome_trans [OF conjunct2 [OF conjunct2 [OF res [of xs]]]] Cons.prems(1) [of "c @ xs"] b1 by simp
    moreover have "parse find_byte p1 b1 = (p1, b1, Inr Incomplete)"
      using res [of "[]"] one True b1 by (cases "parse find_byte p1 (buf @ c)" rule: prod_cases3) auto
    ultimately show ?thesis
      using Cons.IH [of p1 b1] res Cons.prems(4,5) one True b1 by simp
  next
    case False
    then have r: "p' = p1" "b' = b1 @ concat cs" "r = r1" using Cons.prems(4) one by auto
    have "parse find_byte p (buf @ c @ concat cs) = (p1, b1 @ concat cs, r1)"
      using parse_extend [OF one ok False, of "concat cs"] Cons.prems(5) r by simp
    then show ?thesis using Cons.prems(1) [of "c @ concat cs"] r by simp
  qed
qed

subsection \<open>Bounds\<close>

text \<open>What holds of the parser between two steps on a buffer of \<open>n\<close> bytes.\<close>

definition parser_inv :: "nat \<Rightarrow> request_parser \<Rightarrow> bool" where
  "parser_inv n p \<longleftrightarrow> state_ok n (pr_state p) \<and>
     (case pr_state p of
        BulkHeader pos r s \<Rightarrow> int (length (ranges p) + r) \<le> MULTIBULK_MAX
      | BulkBody start len r \<Rightarrow> int (length (ranges p) + r + 1) \<le> MULTIBULK_MAX \<and> len \<le> proto_max_bulk_len p
      | _ \<Rightarrow> ranges p = [])"

lemma parser_inv_continue:
  assumes "parse_step find_byte p buf = Continue p'" "parser_inv (length buf) p"
  shows "parser_inv (length buf) p' \<and> proto_max_bulk_len p' = proto_max_bulk_len p"
proof -
  have "state_ok (length buf) (pr_state p')"
    using continue_extend [OF assms(1), of "[]"] assms(2) by (simp add: parser_inv_def)
  then show ?thesis using assms
    by (auto simp: parse_step_def step_mbulk_header_def step_bulk_header_def step_bulk_body_def step_inline_def Let_def parser_inv_def
      split: pstate.splits option.splits line.splits if_splits sum.splits)
qed

definition incomplete_bounds :: "bytes \<Rightarrow> request_parser \<Rightarrow> bool" where
  "incomplete_bounds buf p \<longleftrightarrow>
     (case pr_state p of
        Start \<Rightarrow> buf = []
      | MbulkHeader s \<Rightarrow> length buf \<le> INLINE_MAX_SIZE
      | Inline s \<Rightarrow> length buf \<le> INLINE_MAX_SIZE
      | BulkHeader pos r s \<Rightarrow> length buf - pos \<le> INLINE_MAX_SIZE \<and> int (length (ranges p) + r) \<le> MULTIBULK_MAX
      | BulkBody start len r \<Rightarrow> length buf < start + len + 2 \<and> len \<le> proto_max_bulk_len p
          \<and> int (length (ranges p) + r + 1) \<le> MULTIBULK_MAX)"

lemma parse_step_consumes:
  assumes "parse_step find_byte p buf = Return p' buf' r"
  shows "\<exists>k. buf' = drop k buf \<and> (r = Inr Incomplete \<longrightarrow> k = 0)"
proof -
  have "buf' = buf \<or> r \<noteq> Inr Incomplete \<and> (\<exists>k. buf' = drop k buf)"
    using assms unfolding parse_step_def step_mbulk_header_def step_bulk_header_def step_bulk_body_def step_inline_def Let_def
    by (cases "pr_state p") (auto simp del: nth_opt_Some nth_opt_None split: option.splits line.splits if_splits sum.splits)
  then show ?thesis by (auto intro: exI [of _ 0])
qed

lemma parse_step_resets:
  assumes "parse_step find_byte p buf = Return p' buf' (Inr a)" "a \<noteq> Incomplete" shows "p' = reset p"
  using assms unfolding parse_step_def step_mbulk_header_def step_bulk_header_def step_bulk_body_def step_inline_def Let_def
  by (cases "pr_state p") (auto simp: reset_def simp del: nth_opt_Some nth_opt_None split: option.splits line.splits if_splits sum.splits)

lemma parse_step_bounds:
  assumes "parse_step find_byte p buf = Return p' buf' (Inr Incomplete)" "parser_inv (length buf) p"
  shows "incomplete_bounds buf p'"
proof (cases "pr_state p")
  case (MbulkHeader s)
  then show ?thesis using assms
    by (auto simp: parse_step_def step_mbulk_header_def incomplete_bounds_def split: line.splits option.splits if_splits)
next
  case (BulkHeader pos r s)
  then show ?thesis using assms
    by (auto simp: parse_step_def step_bulk_header_def incomplete_bounds_def parser_inv_def split: line.splits option.splits if_splits)
next
  case (BulkBody start len r)
  then show ?thesis using assms
    by (auto simp: parse_step_def step_bulk_body_def incomplete_bounds_def parser_inv_def Let_def checked_add_def bind_eq_Some_conv
        split: option.splits if_splits)
qed (use assms in \<open>auto simp: parse_step_def step_inline_def incomplete_bounds_def Let_def simp del: nth_opt_Some split: option.splits if_splits sum.splits\<close>)

lemma parse_bounds:
  "parse find_byte p buf = (p', buf', r) \<Longrightarrow> parser_inv (length buf) p \<Longrightarrow>
   (r = Inr Incomplete \<longrightarrow> incomplete_bounds buf p') \<and> (\<exists>k. buf' = drop k buf \<and> (r = Inr Incomplete \<longrightarrow> k = 0))
   \<and> (\<forall>a. r = Inr a \<and> a \<noteq> Incomplete \<longrightarrow> p' = parser_new (proto_max_bulk_len p))"
proof (induction "state_left (length buf) (pr_state p)" arbitrary: p rule: less_induct)
  case less
  show ?case
  proof (cases "parse_step find_byte p buf")
    case (Continue q)
    with less.prems have "parse find_byte q buf = (p', buf', r)" by (simp add: parse.simps [of _ p])
    then show ?thesis using less.hyps [OF parse_step_progress [OF Continue]] parser_inv_continue [OF Continue less.prems(2)] by simp
  next
    case (Return q b r')
    with less.prems have s: "parse_step find_byte p buf = Return p' buf' r" by (simp add: parse.simps)
    have "reset p = parser_new (proto_max_bulk_len p)" by (cases p) (simp add: reset_def parser_new_def)
    with parse_step_consumes [OF s] parse_step_resets [of p buf p' buf'] parse_step_bounds [of p buf p' buf'] s less.prems(2)
    show ?thesis by auto
  qed
qed

subsection \<open>Quoted inline arguments\<close>

definition hex_digit :: "nat \<Rightarrow> byte" where
  "hex_digit d = (if d < 10 then 48 + word_of_nat d else 87 + word_of_nat d)"

definition quote_byte :: "byte \<Rightarrow> bytes" where
  "quote_byte b = [92, 120, hex_digit (unat b div 16), hex_digit (unat b mod 16)]"

definition quote_arg :: "bytes \<Rightarrow> bytes" where
  "quote_arg a = 34 # concat (map quote_byte a) @ [34]"

definition quote_line :: "bytes list \<Rightarrow> bytes" where
  "quote_line args = concat (map (\<lambda>a. quote_arg a @ [32]) args)"

lemma hex_val_digit: "d < 16 \<Longrightarrow> hex_val (hex_digit d) = Some (word_of_nat d)"
  by (cases "d < 10") (simp_all add: hex_val_def hex_digit_def word_le_nat_alt unat_word_ariths unat_of_nat)

lemma nibbles: "push_bit 4 (word_of_nat (unat b div 16)) OR word_of_nat (unat b mod 16) = (b :: byte)"
proof -
  have "unat b div 16 = drop_bit 4 (unat b)" "unat b mod 16 = take_bit 4 (unat b)"
    by (simp_all add: drop_bit_eq_div take_bit_eq_mod)
  then have "(word_of_nat (unat b div 16) :: byte) = drop_bit 4 b" "(word_of_nat (unat b mod 16) :: byte) = take_bit 4 b"
    by (simp_all add: unat_drop_bit_eq [symmetric] flip: unsigned_take_bit_eq)
  then show ?thesis by (simp only:, intro bit_word_eqI) (auto simp: bit_simps)
qed

lemma hex_pair_byte: "hex_pair (hex_digit (unat b div 16) # hex_digit (unat b mod 16) # r) = Some (b, r)"
proof -
  have "unat b div 16 < 16" using unat_byte_less [of b] by (simp add: less_mult_imp_div_less)
  then show ?thesis by (simp add: hex_pair_def hex_val_digit nibbles)
qed

lemma dquote_quoted: "dquote_loop (concat (map quote_byte a) @ 34 # 32 # r) acc = Inr (acc @ a, 32 # r)"
  by (induction a arbitrary: acc) (simp_all add: close_quote_def is_ascii_whitespace_def quote_byte_def hex_pair_byte)

lemma split_quoted: "split_inline_loop (quote_line args) out = Inr (out @ args)"
proof (induction args arbitrary: out)
  case Nil
  show ?case by (subst split_inline_loop.simps) (simp add: quote_line_def)
next
  case (Cons a args)
  have "quote_line (a # args) = 34 # concat (map quote_byte a) @ 34 # 32 # quote_line args" by (simp add: quote_line_def quote_arg_def)
  then have "split_inline_loop (quote_line (a # args)) out = split_inline_loop (32 # quote_line args) (out @ [a])"
    by (subst split_inline_loop.simps) (simp add: is_ascii_whitespace_def dquote_quoted)
  also have "\<dots> = split_inline_loop (quote_line args) (out @ [a])"
    by (subst split_inline_loop.simps, subst (2) split_inline_loop.simps) (simp add: is_ascii_whitespace_def)
  finally show ?case by (simp add: Cons.IH)
qed

subsection \<open>Properties\<close>

abbreviation demo_args :: "bytes list" where
  "demo_args \<equiv> [[80, 73], [78]]"

lemma demo_sendable: "sendable 100 demo_args"
proof -
  have "digits (Suc (Suc 0)) = [50]" "digits (Suc 0) = [49]" by (simp_all add: digits.simps)
  then show ?thesis by (simp add: sendable_def MULTIBULK_MAX_def encode_command_def bulk_def crlf_def)
qed



text \<open>C6. A command of up to 1048576 arguments, none longer than the bulk limit, parses back from its
  wire form to exactly its arguments; what follows it stays in the buffer and the parser is ready
  for the next frame.\<close>

theorem parse_encode_roundtrip:
  assumes "memchr_spec mc" and "sendable m args"
  shows "parse mc (parser_new m) (encode_command args @ rest) = (parser_new m, rest, Inr (Command args))"
  using parse_encoded [OF assms(2)] memchr_spec_eq [OF assms(1)] by simp

theorem parse_encode_roundtrip_witness:
  "parse find_byte (parser_new 100) (encode_command demo_args @ [42, 49]) = (parser_new 100, [42, 49], Inr (Command demo_args))"
  by (rule parse_encode_roundtrip [OF memchr_spec_find_byte demo_sendable])

text \<open>C36. What one call does to the buffer and what a waiting connection holds: bytes are only taken
  off the front, none while the frame is incomplete; after a frame the parser is fresh; and while
  it waits, an unterminated header or inline line is at most 64 KB, the collected and the announced
  arguments together at most 1048576, and an announced bulk within the configured limit.\<close>

theorem parse_is_bounded:
  assumes "memchr_spec mc" and "parse mc (parser_new m) buf = (p', buf', r)"
  shows "(\<exists>k. buf' = drop k buf \<and> (r = Inr Incomplete \<longrightarrow> k = 0)) \<and> (r = Inr Incomplete \<longrightarrow> incomplete_bounds buf p')
    \<and> (\<forall>a. r = Inr a \<and> a \<noteq> Incomplete \<longrightarrow> p' = parser_new m)"
proof -
  have "parser_inv (length buf) (parser_new m)" by (simp add: parser_inv_def parser_new_def)
  with parse_bounds [of "parser_new m" buf p' buf' r] assms(2) memchr_spec_eq [OF assms(1)]
  show ?thesis by (simp add: parser_new_def)
qed

theorem parse_is_bounded_witness: "parse find_byte (parser_new 9) [42] = (\<lparr>proto_max_bulk_len = 9, pr_state = MbulkHeader 1, ranges = []\<rparr>, [42], Inr Incomplete)
  \<and> incomplete_bounds [42] \<lparr>proto_max_bulk_len = 9, pr_state = MbulkHeader 1, ranges = []\<rparr>"
proof -
  have p: "parse find_byte (parser_new 9) [42] = (\<lparr>proto_max_bulk_len = 9, pr_state = MbulkHeader 1, ranges = []\<rparr>, [42], Inr Incomplete)"
    by (simp add: parse.simps parse_step_def parser_new_def step_mbulk_header_def line_end_def slice_get_def INLINE_MAX_SIZE_def)
  from parse_is_bounded [OF memchr_spec_find_byte p] p show ?thesis by simp
qed

text \<open>Quoting is faithful: a line of double-quoted arguments with every byte written as a
  hexadecimal escape splits back into exactly those arguments, whatever bytes they hold.\<close>

theorem split_inline_quoted: "split_inline (quote_line args) = Inr args"
  using split_quoted [of args "[]"] by (simp add: split_inline_def)


end
