(* ===== verification/Object.thy ===== *)
theory Object
  imports Strnum
begin

text \<open>
  Values and their metadata, from \<^verbatim>\<open>src/src/object.rs\<close> and \<^verbatim>\<open>src/src/types/string.rs\<close>: the string
  object with its three encodings, the value enum, the keyspace entry, and the 24-bit LRU clock and
  LFU counter packed in its \<^verbatim>\<open>u32\<close>. The list, hash, set, sorted-set and stream objects are
  placeholders in the source (always empty), so their constructors carry no payload here.
\<close>

unbundle bit_operations_syntax

type_synonym key = bytes

subsection \<open>The string object\<close>

definition EMBSTR_LIMIT :: nat where "EMBSTR_LIMIT = 44"

definition INT_ENCODING_MAX_LEN :: nat where "INT_ENCODING_MAX_LEN = 20"

datatype strobj = StrInt int | StrBytes bytes bool

definition strobj_default :: strobj where
  "strobj_default = StrBytes [] True"

definition str_from_bytes :: "bytes \<Rightarrow> strobj" where
  "str_from_bytes data =
     (case (if length data \<le> INT_ENCODING_MAX_LEN then string2ll data else None) of
        Some v \<Rightarrow> StrInt v
      | None \<Rightarrow> StrBytes data (length data \<le> EMBSTR_LIMIT))"

definition str_raw :: "bytes \<Rightarrow> strobj" where
  "str_raw data = StrBytes data False"

definition str_from_i64 :: "int \<Rightarrow> strobj" where
  "str_from_i64 v = StrInt v"

definition str_as_slice :: "strobj \<Rightarrow> bytes option" where
  "str_as_slice o' = (case o' of StrInt _ \<Rightarrow> None | StrBytes d _ \<Rightarrow> Some d)"

definition str_as_i64 :: "strobj \<Rightarrow> int option" where
  "str_as_i64 o' = (case o' of StrInt v \<Rightarrow> Some v | StrBytes d _ \<Rightarrow> string2ll d)"

definition str_to_bytes :: "(int \<Rightarrow> bytes) \<Rightarrow> strobj \<Rightarrow> bytes" where
  "str_to_bytes itoa o' = (case o' of StrInt v \<Rightarrow> itoa v | StrBytes d _ \<Rightarrow> d)"

definition str_len :: "(int \<Rightarrow> bytes) \<Rightarrow> strobj \<Rightarrow> nat" where
  "str_len itoa o' = (case o' of StrInt v \<Rightarrow> length (itoa v) | StrBytes d _ \<Rightarrow> length d)"

definition str_is_empty :: "(int \<Rightarrow> bytes) \<Rightarrow> strobj \<Rightarrow> bool" where
  "str_is_empty itoa o' \<longleftrightarrow> str_len itoa o' = 0"

definition str_encoding :: "strobj \<Rightarrow> string" where
  "str_encoding o' =
     (case o' of StrInt _ \<Rightarrow> ''int'' | StrBytes _ embstr \<Rightarrow> if embstr then ''embstr'' else ''raw'')"

subsection \<open>The value enum\<close>

datatype robj = RStr strobj | RList | RHash | RSet | RZSet | RStream

definition robj_type_name :: "robj \<Rightarrow> string" where
  "robj_type_name r =
     (case r of RStr _ \<Rightarrow> ''string'' | RList \<Rightarrow> ''list'' | RHash \<Rightarrow> ''hash'' | RSet \<Rightarrow> ''set''
      | RZSet \<Rightarrow> ''zset'' | RStream \<Rightarrow> ''stream'')"

definition robj_type_id :: "robj \<Rightarrow> nat" where
  "robj_type_id r =
     (case r of RStr _ \<Rightarrow> 0 | RList \<Rightarrow> 1 | RSet \<Rightarrow> 2 | RZSet \<Rightarrow> 3 | RHash \<Rightarrow> 4 | RStream \<Rightarrow> 6)"

definition is_empty_collection :: "robj \<Rightarrow> bool" where
  "is_empty_collection r =
     (case r of RStr _ \<Rightarrow> False | RStream \<Rightarrow> False | _ \<Rightarrow> True)"

subsection \<open>The LRU clock and the LFU counter\<close>

type_synonym u32 = "32 word"

definition LRU_BITS :: nat where "LRU_BITS = 24"

definition LRU_CLOCK_MAX :: u32 where "LRU_CLOCK_MAX = 2 ^ LRU_BITS - 1"

definition LFU_INIT_VAL :: u32 where "LFU_INIT_VAL = 5"

definition lru_clock :: "nat \<Rightarrow> u32" where
  "lru_clock now_ms = word_of_nat (now_ms div 1000) AND LRU_CLOCK_MAX"

definition lfu_clock :: "nat \<Rightarrow> u32" where
  "lfu_clock now_ms = word_of_nat (now_ms div 60000) AND 0xffff"

definition lru_initial :: "nat \<Rightarrow> bool \<Rightarrow> u32" where
  "lru_initial now_ms lfu = (if lfu then push_bit 8 (lfu_clock now_ms) OR LFU_INIT_VAL else lru_clock now_ms)"

definition idle_ms :: "u32 \<Rightarrow> nat \<Rightarrow> nat" where
  "idle_ms value now_ms =
     (let now = lru_clock now_ms; thn = value AND LRU_CLOCK_MAX;
          secs = (if now \<ge> thn then unat (now - thn) else unat (LRU_CLOCK_MAX - thn + now + 1))
      in secs * 1000)"

definition lfu_counter :: "u32 \<Rightarrow> byte" where
  "lfu_counter value = ucast (value AND 0xff)"

text \<open>\<^verbatim>\<open>lfu_bump\<close> increments when a uniform draw falls below \<^verbatim>\<open>1 / (baseval * log_factor + 1)\<close>; the
  outcome of that floating-point comparison is the parameter \<open>hit\<close>.\<close>

definition lfu_bump :: "(nat \<Rightarrow> u32 \<Rightarrow> bool) \<Rightarrow> u32 \<Rightarrow> nat \<Rightarrow> u32 \<Rightarrow> u32 \<Rightarrow> u32" where
  "lfu_bump hit value now_ms log_factor decay_minutes =
     (let ldt = drop_bit 8 value AND 0xffff;
          counter = value AND 0xff;
          now = lfu_clock now_ms;
          elapsed_min = (if now \<ge> ldt then now - ldt else 65535 - ldt + now);
          counter = (if decay_minutes > 0
                     then (let periods = elapsed_min div decay_minutes
                           in if periods \<le> counter then counter - periods else 0)
                     else counter);
          counter = (if counter < 255
                     then (let baseval = (if LFU_INIT_VAL \<le> counter then counter - LFU_INIT_VAL else 0)
                           in if hit (unat baseval) log_factor then counter + 1 else counter)
                     else counter)
      in push_bit 8 now OR counter)"

definition lru_touch :: "(nat \<Rightarrow> u32 \<Rightarrow> bool) \<Rightarrow> u32 \<Rightarrow> nat \<Rightarrow> bool \<Rightarrow> u32 \<Rightarrow> u32 \<Rightarrow> u32" where
  "lru_touch hit cell now_ms lfu log_factor decay_minutes =
     (if lfu then lfu_bump hit cell now_ms log_factor decay_minutes else lru_clock now_ms)"

subsection \<open>Keyspace entries\<close>

record entry =
  obj :: robj
  expire_at_ms :: "nat option"
  lru :: u32

definition entry_new :: "robj \<Rightarrow> nat option \<Rightarrow> nat \<Rightarrow> bool \<Rightarrow> entry" where
  "entry_new o' at now_ms lfu = \<lparr>obj = o', expire_at_ms = at, lru = lru_initial now_ms lfu\<rparr>"

definition entry_is_expired :: "entry \<Rightarrow> nat \<Rightarrow> bool" where
  "entry_is_expired e now_ms = (case expire_at_ms e of Some at \<Rightarrow> at \<le> now_ms | None \<Rightarrow> False)"

definition ttl_ms :: "entry \<Rightarrow> nat \<Rightarrow> nat option" where
  "ttl_ms e now_ms = map_option (\<lambda>at. at - now_ms) (expire_at_ms e)"

subsection \<open>Lemmas\<close>

lemma unat_and_mask: "unat (w AND mask n) = unat (w :: u32) mod 2 ^ n"
  by (simp flip: take_bit_eq_mask add: unsigned_take_bit_eq take_bit_nat_def)

lemma u32_masks: "0xff = (mask 8 :: u32)" "0xffff = (mask 16 :: u32)" "LRU_CLOCK_MAX = mask 24"
  by (simp_all add: LRU_CLOCK_MAX_def LRU_BITS_def mask_eq_exp_minus_1)

lemma unat_lru_clock: "unat (lru_clock t) = t div 1000 mod 2 ^ 24"
  by (simp add: lru_clock_def u32_masks unat_and_mask unat_of_nat mod_mod_cancel)

lemma unat_lfu_clock: "unat (lfu_clock t) = t div 60000 mod 65536"
  by (simp add: lfu_clock_def u32_masks unat_and_mask unat_of_nat mod_mod_cancel)

lemma mod_diff_wrap:
  fixes a b n :: nat assumes "b \<le> a" "a - b < n"
  shows "(if b mod n \<le> a mod n then a mod n - b mod n else n - b mod n + a mod n) = a - b"
proof -
  have n: "0 < n" using assms by simp
  obtain d where a: "a = b + d" "d < n" using assms le_Suc_ex by (metis add_diff_cancel_left')
  define r where "r = b mod n"
  have r: "r < n" "b mod n = r" using n by (simp_all add: r_def)
  have am: "a mod n = (r + d) mod n" by (simp add: a r_def mod_add_left_eq)
  show ?thesis
  proof (cases "r + d < n")
    case True then show ?thesis using am r a by simp
  next
    case False
    then have "(r + d) mod n = r + d - n" using a r by (simp add: mod_if)
    then show ?thesis using am r a False by simp
  qed
qed

lemma unat_wrap:
  fixes u v :: u32
  assumes "unat u = 2 ^ 24 - 1 - x" "unat v = y" "x < 2 ^ 24" "y < 2 ^ 24"
  shows "unat (u + v + 1) = 2 ^ 24 - x + y"
  using assms by (simp add: unat_word_ariths)

lemma idle_correct:
  assumes "t0 \<le> t1" and "t1 div 1000 - t0 div 1000 < 2 ^ 24"
  shows "idle_ms (lru_clock t0) t1 = (t1 div 1000 - t0 div 1000) * 1000"
proof -
  let ?a = "t1 div 1000" and ?b = "t0 div 1000"
  have le: "?b \<le> ?a" using assms(1) by (rule div_le_mono)
  have lt: "unat (lru_clock t0) < 2 ^ 24" "unat (lru_clock t1) < 2 ^ 24" by (simp_all add: unat_lru_clock)
  have thn: "lru_clock t0 AND LRU_CLOCK_MAX = lru_clock t0"
    by (simp add: lru_clock_def and.assoc)
  have M: "unat LRU_CLOCK_MAX = 2 ^ 24 - 1" by (simp add: LRU_CLOCK_MAX_def LRU_BITS_def)
  have ge: "unat (lru_clock t1 - lru_clock t0) = ?a mod 2 ^ 24 - ?b mod 2 ^ 24" if "lru_clock t0 \<le> lru_clock t1"
    using that by (simp add: unat_sub unat_lru_clock)
  have wrap: "unat (LRU_CLOCK_MAX - lru_clock t0 + lru_clock t1 + 1) = 2 ^ 24 - ?b mod 2 ^ 24 + ?a mod 2 ^ 24"
  proof -
    have "lru_clock t0 \<le> LRU_CLOCK_MAX" using lt M by (simp add: word_le_nat_alt)
    then have s: "unat (LRU_CLOCK_MAX - lru_clock t0) = 2 ^ 24 - 1 - ?b mod 2 ^ 24" by (simp add: unat_sub M unat_lru_clock)
    show ?thesis by (rule unat_wrap [OF s unat_lru_clock]) simp_all
  qed
  have "(if ?b mod 2 ^ 24 \<le> ?a mod 2 ^ 24 then ?a mod 2 ^ 24 - ?b mod 2 ^ 24 else 2 ^ 24 - ?b mod 2 ^ 24 + ?a mod 2 ^ 24) = ?a - ?b"
    by (rule mod_diff_wrap [OF le assms(2)])
  moreover have "lru_clock t0 \<le> lru_clock t1 \<longleftrightarrow> ?b mod 2 ^ 24 \<le> ?a mod 2 ^ 24" by (simp only: word_le_nat_alt unat_lru_clock)
  moreover have "idle_ms (lru_clock t0) t1 = (if lru_clock t0 \<le> lru_clock t1 then ?a mod 2 ^ 24 - ?b mod 2 ^ 24
      else 2 ^ 24 - ?b mod 2 ^ 24 + ?a mod 2 ^ 24) * 1000"
    unfolding idle_ms_def Let_def thn wrap using ge by (simp only: cong: if_cong)
  ultimately show ?thesis by (simp only:)
qed

lemma u32_or_disjoint: "(w :: u32) < 256 \<Longrightarrow> (push_bit 8 v OR w) AND 0xff = w"
proof -
  assume "w < 256"
  then have "unat w < 2 ^ 8" by (simp add: word_less_nat_alt)
  then have "take_bit 8 w = w" by (simp add: word_unat_eq_iff unsigned_take_bit_eq take_bit_nat_eq_self)
  then show ?thesis
    by (simp add: u32_masks flip: take_bit_eq_mask) (simp add: take_bit_or take_bit_push_bit)
qed

text \<open>The counter after \<^verbatim>\<open>lfu_bump\<close>: decayed first, then incremented at most once.\<close>

definition lfu_decayed :: "u32 \<Rightarrow> nat \<Rightarrow> u32 \<Rightarrow> u32" where
  "lfu_decayed value now_ms decay =
     (let ldt = drop_bit 8 value AND 0xffff; now = lfu_clock now_ms;
          elapsed = (if now \<ge> ldt then now - ldt else 65535 - ldt + now);
          periods = elapsed div decay; counter = value AND 0xff
      in if decay > 0 then (if periods \<le> counter then counter - periods else 0) else counter)"

lemma lfu_decayed_le: "lfu_decayed v t d \<le> v AND 0xff"
  by (auto simp: lfu_decayed_def Let_def word_le_nat_alt unat_sub)

lemma lfu_byte: "(v :: u32) AND 0xff \<le> 255"
  by (simp add: u32_masks word_le_nat_alt unat_and_mask) (simp add: mask_eq_exp_minus_1)

lemma lfu_bump_counter:
  "lfu_bump hit v t lf d AND 0xff =
     (let c = lfu_decayed v t d
      in if c < 255 \<and> hit (unat (if LFU_INIT_VAL \<le> c then c - LFU_INIT_VAL else 0)) lf then c + 1 else c)"
proof -
  define c where "c = lfu_decayed v t d"
  define c' where "c' = (if c < 255 then (if hit (unat (if LFU_INIT_VAL \<le> c then c - LFU_INIT_VAL else 0)) lf then c + 1 else c) else c)"
  have c: "unat c \<le> 255"
    using order_trans [OF lfu_decayed_le lfu_byte, of v t d] by (simp add: c_def word_le_nat_alt)
  have "unat c' \<le> 255"
    using c by (auto simp: c'_def word_less_nat_alt unat_word_ariths)
  then have "c' < 256" by (simp add: word_less_nat_alt)
  moreover have "lfu_bump hit v t lf d = push_bit 8 (lfu_clock t) OR c'"
    unfolding lfu_bump_def c'_def c_def lfu_decayed_def Let_def by (simp cong: if_cong)
  ultimately have "lfu_bump hit v t lf d AND 0xff = c'" by (simp only: u32_or_disjoint)
  then show ?thesis by (simp add: c_def c'_def Let_def)
qed

subsection \<open>Properties\<close>

text \<open>The idle time of a key last touched at \<open>t0\<close>, read at \<open>t1\<close>, is the difference of the two
  clocks in whole seconds, also when the 24-bit clock has wrapped in between, as long as fewer
  than \<open>2 ^ 24\<close> seconds have passed.\<close>

theorem idle_ms_wraps:
  assumes "t0 \<le> t1" and "t1 div 1000 - t0 div 1000 < 2 ^ 24"
  shows "idle_ms (lru_touch hit cell t0 False lf decay) t1 = (t1 div 1000 - t0 div 1000) * 1000
    \<and> idle_ms (lru_initial t0 False) t1 = (t1 div 1000 - t0 div 1000) * 1000"
  using idle_correct [OF assms] by (simp add: lru_touch_def lru_initial_def)

theorem idle_ms_wraps_witness: "idle_ms (lru_initial 16777215000 False) 16777217999 = 2000"
  using conjunct2 [OF idle_ms_wraps [of 16777215000 16777217999]] by simp

lemma str_from_bytes_roundtrip:
  assumes "itoa_spec itoa"
  shows "str_to_bytes itoa (str_from_bytes d) = d \<and> str_len itoa (str_from_bytes d) = length d
    \<and> (str_encoding (str_from_bytes d) = ''int'' \<longleftrightarrow> (\<exists>v. fits 8 v \<and> d = decimal v))"
proof -
  have int: "string2ll d = Some v \<Longrightarrow> itoa v = d" for v using assms by (simp add: itoa_spec_def string2ll_Some_iff)
  have short: "length (decimal v) \<le> 20" if "fits 8 v" for v using length_decimal [OF that] .
  show ?thesis
  proof (cases "length d \<le> INT_ENCODING_MAX_LEN \<and> string2ll d \<noteq> None")
    case True
    then obtain v where v: "string2ll d = Some v" by auto
    then have "str_from_bytes d = StrInt v" using True by (simp add: str_from_bytes_def)
    moreover have "fits 8 v \<and> d = decimal v" using v by (simp add: string2ll_Some_iff)
    ultimately show ?thesis using int [OF v] by (auto simp: str_to_bytes_def str_len_def str_encoding_def)
  next
    case False
    then have "\<not> (\<exists>v. fits 8 v \<and> d = decimal v)" 
      using short string2ll_Some_iff INT_ENCODING_MAX_LEN_def by (metis option.distinct(1))
    then show ?thesis using False
      by (auto simp: str_from_bytes_def str_to_bytes_def str_len_def str_encoding_def split: option.splits)
  qed
qed

text \<open>The string object keeps the value it was built from: whatever encoding \<^verbatim>\<open>from_bytes\<close> picks, the
  materialised bytes and the length are those of the input, and an integer encoding is chosen
  exactly for the canonical decimal forms of 64-bit integers.\<close>

theorem strobj_roundtrip:
  assumes "itoa_spec itoa"
  shows "str_to_bytes itoa (str_from_bytes d) = d \<and> str_len itoa (str_from_bytes d) = length d
    \<and> (str_encoding (str_from_bytes d) = ''int'' \<longleftrightarrow> (\<exists>v. fits 8 v \<and> d = decimal v))"
  by (rule str_from_bytes_roundtrip [OF assms])

theorem strobj_roundtrip_witness: "str_to_bytes decimal (str_from_bytes [45, 49, 50]) = [45, 49, 50]"
  using strobj_roundtrip [OF itoa_spec_decimal, of "[45, 49, 50]"] by simp

end
