(* ===== verification/Shard.thy ===== *)
theory Shard
  imports Object Crc "HOL-Library.Finite_Map"
begin

text \<open>
  The sharded keyspace of \<^verbatim>\<open>src/src/shard/mod.rs\<close>: databases with their dictionary, expiry index
  and watch counters, shards, the shard map with its power-of-two mask, the sorted shard sets that
  lock ordering rests on, and the guards through which a command reaches its shards. Hash maps are
  finite maps: their iteration order is not modelled. Counters of type \<^verbatim>\<open>u64\<close> that only grow by one
  per operation are natural numbers.
\<close>

unbundle bit_operations_syntax

definition DEFAULT_DATABASES :: nat where "DEFAULT_DATABASES = 16"

subsection \<open>Databases\<close>

record propagation =
  prop_db :: nat
  prop_argv :: "bytes list"

record db =
  db_index :: nat
  dict :: "(key, entry) fmap"
  expires :: "(key, nat) fmap"
  watch :: "(key, nat) fmap"
  watch_seq :: nat

definition db_new :: "nat \<Rightarrow> db" where
  "db_new i = \<lparr>db_index = i, dict = fmempty, expires = fmempty, watch = fmempty, watch_seq = 0\<rparr>"

definition db_len :: "db \<Rightarrow> nat" where
  "db_len d = fcard (fmdom (dict d))"

definition db_is_empty :: "db \<Rightarrow> bool" where
  "db_is_empty d \<longleftrightarrow> dict d = fmempty"

definition expires_len :: "db \<Rightarrow> nat" where
  "expires_len d = fcard (fmdom (expires d))"

definition set_entry :: "db \<Rightarrow> key \<Rightarrow> entry \<Rightarrow> db" where
  "set_entry d k e =
     (let d = (case expire_at_ms e of
                 Some at \<Rightarrow> d\<lparr>expires := fmupd k at (expires d)\<rparr>
               | None \<Rightarrow> d\<lparr>expires := fmdrop k (expires d)\<rparr>)
      in d\<lparr>dict := fmupd k e (dict d)\<rparr>)"

definition remove_entry :: "db \<Rightarrow> key \<Rightarrow> entry option \<times> db" where
  "remove_entry d k =
     (let d = d\<lparr>expires := fmdrop k (expires d)\<rparr>
      in (fmlookup (dict d) k, d\<lparr>dict := fmdrop k (dict d)\<rparr>))"

definition db_set_expire :: "db \<Rightarrow> key \<Rightarrow> nat option \<Rightarrow> bool \<times> db" where
  "db_set_expire d k at_ms =
     (case fmlookup (dict d) k of
        None \<Rightarrow> (False, d)
      | Some e \<Rightarrow>
          (let d = d\<lparr>dict := fmupd k (e\<lparr>expire_at_ms := at_ms\<rparr>) (dict d)\<rparr>
           in (True, case at_ms of
                       Some at \<Rightarrow> d\<lparr>expires := fmupd k at (expires d)\<rparr>
                     | None \<Rightarrow> d\<lparr>expires := fmdrop k (expires d)\<rparr>)))"

definition db_is_expired :: "db \<Rightarrow> key \<Rightarrow> nat \<Rightarrow> bool" where
  "db_is_expired d k now_ms =
     (case fmlookup (dict d) k of Some e \<Rightarrow> entry_is_expired e now_ms | None \<Rightarrow> False)"

definition signal_watch :: "db \<Rightarrow> key \<Rightarrow> db" where
  "signal_watch d k =
     (if watch d = fmempty then d
      else (let sq = watch_seq d + 1; d = d\<lparr>watch_seq := sq\<rparr> in
            case fmlookup (watch d) k of
              Some _ \<Rightarrow> d\<lparr>watch := fmupd k sq (watch d)\<rparr>
            | None \<Rightarrow> d))"

definition watch_key :: "db \<Rightarrow> key \<Rightarrow> nat \<times> db" where
  "watch_key d k =
     (case fmlookup (watch d) k of
        Some v \<Rightarrow> (v, d)
      | None \<Rightarrow> (0, d\<lparr>watch := fmupd k 0 (watch d)\<rparr>))"

definition watch_version :: "db \<Rightarrow> key \<Rightarrow> nat option" where
  "watch_version d k = fmlookup (watch d) k"

definition unwatch_key :: "db \<Rightarrow> key \<Rightarrow> db" where
  "unwatch_key d k = d\<lparr>watch := fmdrop k (watch d)\<rparr>"

definition db_clear :: "db \<Rightarrow> db" where
  "db_clear d =
     (let d = (if watch d \<noteq> fmempty
               then (let sq = watch_seq d + 1
                     in d\<lparr>watch_seq := sq, watch := fmmap (\<lambda>_. sq) (watch d)\<rparr>)
               else d)
      in d\<lparr>dict := fmempty, expires := fmempty\<rparr>)"

subsection \<open>Shards\<close>

record shard =
  sh_index :: nat
  dbs :: "db list"
  sh_dirty :: nat
  repl_buf :: "propagation list"
  sh_seq :: nat

definition shard_new :: "nat \<Rightarrow> nat \<Rightarrow> shard" where
  "shard_new i databases =
     \<lparr>sh_index = i, dbs = map db_new [0..<databases], sh_dirty = 0, repl_buf = [], sh_seq = 0\<rparr>"

definition shard_db :: "shard \<Rightarrow> nat \<Rightarrow> db option" where
  "shard_db s n = nth_opt (dbs s) n"

definition shard_put_db :: "shard \<Rightarrow> nat \<Rightarrow> db \<Rightarrow> shard" where
  "shard_put_db s n d = s\<lparr>dbs := (dbs s)[n := d]\<rparr>"

definition shard_propagate :: "shard \<Rightarrow> nat \<Rightarrow> bytes list \<Rightarrow> shard" where
  "shard_propagate s n argv =
     s\<lparr>sh_seq := sh_seq s + 1, repl_buf := repl_buf s @ [\<lparr>prop_db = n, prop_argv = argv\<rparr>]\<rparr>"

definition drain_propagation :: "shard \<Rightarrow> propagation list \<times> shard" where
  "drain_propagation s = (repl_buf s, s\<lparr>repl_buf := []\<rparr>)"

definition key_count :: "shard \<Rightarrow> nat" where
  "key_count s = sum_list (map db_len (dbs s))"

text \<open>A shard behind its lock, with the counters mirrored outside it.\<close>

record shard_handle =
  h_shard :: shard
  h_dirty :: nat
  h_keys :: nat
  h_expires :: nat
  h_mem :: nat

definition sync_stats :: "shard_handle \<Rightarrow> shard \<Rightarrow> shard_handle" where
  "sync_stats h s =
     h\<lparr>h_dirty := sh_dirty s, h_keys := sum_list (map db_len (dbs s)),
       h_expires := sum_list (map expires_len (dbs s))\<rparr>"

subsection \<open>The shard map\<close>

fun next_power_of_two :: "nat \<Rightarrow> nat" where
  "next_power_of_two n = (if n \<le> 1 then 1 else 2 * next_power_of_two ((n + 1) div 2))"

declare next_power_of_two.simps [simp del]

record shard_map =
  sm_shards :: "shard_handle list"
  sm_mask :: nat
  sm_databases :: nat

definition shard_map_new :: "nat \<Rightarrow> nat \<Rightarrow> shard_map" where
  "shard_map_new count databases =
     (let n = next_power_of_two (max count 1); dbs = max databases 1 in
      \<lparr>sm_shards = map (\<lambda>i. \<lparr>h_shard = shard_new i dbs, h_dirty = 0, h_keys = 0, h_expires = 0, h_mem = 0\<rparr>) [0..<n],
       sm_mask = n - 1, sm_databases = dbs\<rparr>)"

definition sm_len :: "shard_map \<Rightarrow> nat" where
  "sm_len m = length (sm_shards m)"

definition sm_get :: "shard_map \<Rightarrow> nat \<Rightarrow> shard_handle option" where
  "sm_get m i = nth_opt (sm_shards m) i"

definition shard_index :: "(byte \<Rightarrow> bytes \<Rightarrow> nat option) \<Rightarrow> shard_map \<Rightarrow> key \<Rightarrow> nat" where
  "shard_index mc m k = unat (key_hash_slot mc k) AND sm_mask m"

definition shard_for :: "(byte \<Rightarrow> bytes \<Rightarrow> nat option) \<Rightarrow> shard_map \<Rightarrow> key \<Rightarrow> shard_handle option" where
  "shard_for mc m k = sm_get m (shard_index mc m k)"

definition sm_db_size :: "shard_map \<Rightarrow> nat \<Rightarrow> nat" where
  "sm_db_size m n =
     sum_list (map (\<lambda>h. case shard_db (h_shard h) n of None \<Rightarrow> 0 | Some d \<Rightarrow> db_len d) (sm_shards m))"

subsection \<open>Shard sets\<close>

text \<open>Indices are stored as \<^verbatim>\<open>u16\<close>; \<^verbatim>\<open>dedup\<close> drops repeated neighbours.\<close>

type_synonym shard_set = "nat list"

definition set_all :: "shard_map \<Rightarrow> shard_set" where
  "set_all m = [0..<sm_len m mod 65536]"

definition set_single :: "nat \<Rightarrow> shard_set" where
  "set_single i = [i mod 65536]"

definition set_insert :: "shard_set \<Rightarrow> nat \<Rightarrow> shard_set" where
  "set_insert v i = v @ [i mod 65536]"

definition set_finish :: "shard_set \<Rightarrow> shard_set" where
  "set_finish v = remdups_adj (sort v)"

fun is_sorted_and_unique :: "shard_set \<Rightarrow> bool" where
  "is_sorted_and_unique (a # b # v) = (a < b \<and> is_sorted_and_unique (b # v))"
| "is_sorted_and_unique _ = True"

subsection \<open>Guards\<close>

text \<open>The locked shards of one command, in acquisition order. A handler reads a shard and puts the
  changed one back; \<open>release\<close> publishes the statistics and leaves the shards in the map.\<close>

record guards =
  g_guards :: "(nat \<times> shard) list"
  g_mask :: nat

definition lock_set :: "shard_map \<Rightarrow> shard_set \<Rightarrow> guards" where
  "lock_set m v =
     \<lparr>g_guards = concat (map (\<lambda>i. case sm_get m i of Some h \<Rightarrow> [(i, h_shard h)] | None \<Rightarrow> []) v),
      g_mask = sm_mask m\<rparr>"

definition lock_all :: "shard_map \<Rightarrow> guards" where
  "lock_all m =
     \<lparr>g_guards = map (\<lambda>i. (i, h_shard (sm_shards m ! i))) [0..<sm_len m], g_mask = sm_mask m\<rparr>"

definition primary_index :: "guards \<Rightarrow> nat option" where
  "primary_index g = (case g_guards g of [] \<Rightarrow> None | (i, _) # _ \<Rightarrow> Some i)"

fun assoc_put :: "nat \<Rightarrow> 'a \<Rightarrow> (nat \<times> 'a) list \<Rightarrow> (nat \<times> 'a) list" where
  "assoc_put i x [] = []"
| "assoc_put i x ((j, y) # r) = (if j = i then (j, x) # r else (j, y) # assoc_put i x r)"

definition guard_shard :: "guards \<Rightarrow> nat \<Rightarrow> shard option" where
  "guard_shard g i = map_of (g_guards g) i"

definition put_shard :: "guards \<Rightarrow> nat \<Rightarrow> shard \<Rightarrow> guards" where
  "put_shard g i s = g\<lparr>g_guards := assoc_put i s (g_guards g)\<rparr>"

definition key_shard_index :: "(byte \<Rightarrow> bytes \<Rightarrow> nat option) \<Rightarrow> guards \<Rightarrow> key \<Rightarrow> nat" where
  "key_shard_index mc g k = unat (key_hash_slot mc k) AND g_mask g"

definition for_key :: "(byte \<Rightarrow> bytes \<Rightarrow> nat option) \<Rightarrow> guards \<Rightarrow> key \<Rightarrow> shard option" where
  "for_key mc g k = guard_shard g (key_shard_index mc g k)"

definition release_one :: "nat \<times> shard \<Rightarrow> shard_map \<Rightarrow> shard_map" where
  "release_one p m =
     (case p of (i, s) \<Rightarrow>
        (case sm_get m i of
           Some h \<Rightarrow> m\<lparr>sm_shards := (sm_shards m)[i := sync_stats (h\<lparr>h_shard := s\<rparr>) s]\<rparr>
         | None \<Rightarrow> m))"

definition release :: "shard_map \<Rightarrow> guards \<Rightarrow> shard_map" where
  "release m g = fold release_one (g_guards g) m"

end
