(* ===== verification/Shard_Proofs.thy ===== *)
theory Shard_Proofs
  imports Shard
begin

text \<open>
  What the keyspace promises: the expiry index mirrors the dictionary after every operation, a
  watched key that changes gets a new version, shard sets are strictly ascending and cover the keys
  they were built from, and every key has exactly one shard. The locale \<open>keyspace\<close> states the
  contract of a database towards the command layer.
\<close>

unbundle bit_operations_syntax

subsection \<open>The database contract\<close>

locale keyspace =
  fixes inv :: "'d \<Rightarrow> bool" and look :: "'d \<Rightarrow> key \<Rightarrow> entry option" and ttl :: "'d \<Rightarrow> key \<Rightarrow> nat option"
    and put :: "'d \<Rightarrow> key \<Rightarrow> entry \<Rightarrow> 'd" and del :: "'d \<Rightarrow> key \<Rightarrow> 'd"
    and expire :: "'d \<Rightarrow> key \<Rightarrow> nat option \<Rightarrow> 'd" and signal :: "'d \<Rightarrow> key \<Rightarrow> 'd" and clear :: "'d \<Rightarrow> 'd"
  assumes ttl_mirrors: "inv d \<Longrightarrow> ttl d k = Option.bind (look d k) expire_at_ms"
    and inv_put: "inv d \<Longrightarrow> inv (put d k e)" and inv_del: "inv d \<Longrightarrow> inv (del d k)"
    and inv_expire: "inv d \<Longrightarrow> inv (expire d k at)" and inv_signal: "inv d \<Longrightarrow> inv (signal d k)"
    and inv_clear: "inv d \<Longrightarrow> inv (clear d)"
    and look_put: "look (put d k e) k' = (if k' = k then Some e else look d k')"
    and look_del: "look (del d k) k' = (if k' = k then None else look d k')"
    and look_expire: "look (expire d k at) k' =
      (if k' = k then map_option (\<lambda>e. e\<lparr>expire_at_ms := at\<rparr>) (look d k) else look d k')"
    and look_signal: "look (signal d k) k' = look d k'"
    and look_clear: "look (clear d) k' = None"
begin

lemma ttl_put: "inv d \<Longrightarrow> ttl (put d k e) k' = (if k' = k then expire_at_ms e else ttl d k')"
  by (simp add: ttl_mirrors inv_put look_put)

lemma ttl_del: "inv d \<Longrightarrow> ttl (del d k) k' = (if k' = k then None else ttl d k')"
  by (simp add: ttl_mirrors inv_del look_del)

lemma ttl_expire:
  "inv d \<Longrightarrow> ttl (expire d k at) k' = (if k' = k then (if look d k = None then None else at) else ttl d k')"
  by (cases "look d k") (simp_all add: ttl_mirrors inv_expire look_expire)

lemma ttl_signal: "inv d \<Longrightarrow> ttl (signal d k) k' = ttl d k'"
  by (simp add: ttl_mirrors inv_signal look_signal)

lemma ttl_live: "inv d \<Longrightarrow> ttl d k \<noteq> None \<Longrightarrow> look d k \<noteq> None"
  by (cases "look d k") (simp_all add: ttl_mirrors)

end

definition db_lookup :: "db \<Rightarrow> key \<Rightarrow> entry option" where
  "db_lookup d k = fmlookup (dict d) k"

definition db_ttl :: "db \<Rightarrow> key \<Rightarrow> nat option" where
  "db_ttl d k = fmlookup (expires d) k"

definition db_inv :: "db \<Rightarrow> bool" where
  "db_inv d \<longleftrightarrow> (\<forall>k. fmlookup (expires d) k = Option.bind (fmlookup (dict d) k) expire_at_ms)
     \<and> (\<forall>k v. fmlookup (watch d) k = Some v \<longrightarrow> v \<le> watch_seq d)"

lemma db_fields [simp]:
  "dict (set_entry d k e) = fmupd k e (dict d)"
  "expires (set_entry d k e) = (case expire_at_ms e of Some at \<Rightarrow> fmupd k at (expires d) | None \<Rightarrow> fmdrop k (expires d))"
  "watch (set_entry d k e) = watch d" "watch_seq (set_entry d k e) = watch_seq d"
  "dict (snd (remove_entry d k)) = fmdrop k (dict d)" "expires (snd (remove_entry d k)) = fmdrop k (expires d)"
  "watch (snd (remove_entry d k)) = watch d" "watch_seq (snd (remove_entry d k)) = watch_seq d"
  "watch (snd (db_set_expire d k at)) = watch d" "watch_seq (snd (db_set_expire d k at)) = watch_seq d"
  "dict (signal_watch d k) = dict d" "expires (signal_watch d k) = expires d"
  "dict (db_clear d) = fmempty" "expires (db_clear d) = fmempty"
  "dict (snd (watch_key d k)) = dict d" "expires (snd (watch_key d k)) = expires d"
  "dict (unwatch_key d k) = dict d" "expires (unwatch_key d k) = expires d"
  by (auto simp: set_entry_def remove_entry_def db_set_expire_def signal_watch_def db_clear_def watch_key_def
      unwatch_key_def Let_def split: option.splits)

lemma watch_seq_mono:
  "watch_seq d \<le> watch_seq (signal_watch d k)" "watch_seq d \<le> watch_seq (db_clear d)"
  by (auto simp: signal_watch_def db_clear_def Let_def split: option.splits)

lemma db_inv_watch:
  assumes "db_inv d" shows "db_inv (signal_watch d k)" "db_inv (snd (watch_key d k))" "db_inv (unwatch_key d k)" "db_inv (db_clear d)"
  using assms
  by (auto simp: db_inv_def signal_watch_def watch_key_def unwatch_key_def db_clear_def Let_def le_Suc_eq
      split: option.splits if_splits)

lemma db_inv_data:
  assumes "db_inv d" shows "db_inv (set_entry d k e)" "db_inv (snd (remove_entry d k))" "db_inv (snd (db_set_expire d k at))"
  using assms by (auto simp: db_inv_def db_set_expire_def Let_def split: option.splits)

lemma db_inv_new: "db_inv (db_new i)"
  by (simp add: db_inv_def db_new_def)

lemma db_lookup_set_expire:
  "db_lookup (snd (db_set_expire d k at)) k' =
     (if k' = k then map_option (\<lambda>e. e\<lparr>expire_at_ms := at\<rparr>) (db_lookup d k) else db_lookup d k')"
  by (auto simp: db_lookup_def db_set_expire_def Let_def split: option.splits)

lemma db_laws:
  "db_inv d \<Longrightarrow> db_ttl d k = Option.bind (db_lookup d k) expire_at_ms"
  "db_lookup (set_entry d k e) k' = (if k' = k then Some e else db_lookup d k')"
  "db_lookup (snd (remove_entry d k)) k' = (if k' = k then None else db_lookup d k')"
  "db_lookup (signal_watch d k) k' = db_lookup d k'" "db_lookup (db_clear d) k' = None"
  by (simp_all add: db_lookup_def db_ttl_def db_inv_def)

interpretation db: keyspace db_inv db_lookup db_ttl set_entry "\<lambda>d k. snd (remove_entry d k)"
    "\<lambda>d k at. snd (db_set_expire d k at)" signal_watch db_clear
  by unfold_locales (simp_all add: db_inv_data db_inv_watch db_laws db_lookup_set_expire)

subsection \<open>Watching\<close>

text \<open>The operations of a database, for statements about sequences of them.\<close>

datatype db_op =
  OpSet key entry | OpRemove key | OpExpire key "nat option" | OpSignal key | OpWatch key | OpUnwatch key | OpClear

fun db_run :: "db_op \<Rightarrow> db \<Rightarrow> db" where
  "db_run (OpSet k e) d = set_entry d k e"
| "db_run (OpRemove k) d = snd (remove_entry d k)"
| "db_run (OpExpire k at) d = snd (db_set_expire d k at)"
| "db_run (OpSignal k) d = signal_watch d k"
| "db_run (OpWatch k) d = snd (watch_key d k)"
| "db_run (OpUnwatch k) d = unwatch_key d k"
| "db_run OpClear d = db_clear d"

lemma db_run_inv: "db_inv d \<Longrightarrow> db_inv (db_run op d)"
  by (cases op) (simp_all add: db_inv_data db_inv_watch)

lemma db_runs_inv: "db_inv d \<Longrightarrow> db_inv (fold db_run ops d)"
  by (induction ops arbitrary: d) (simp_all add: db_run_inv)

lemma watch_keeps:
  assumes "db_inv d" "watch_version d k = Some v" "op \<noteq> OpUnwatch k"
  shows "\<exists>v'. watch_version (db_run op d) k = Some v' \<and> v \<le> v'
    \<and> (op = OpSignal k \<or> op = OpClear \<longrightarrow> v < v')"
proof -
  have "v \<le> watch_seq d" using assms(1,2) by (simp add: db_inv_def watch_version_def)
  moreover have "watch d \<noteq> fmempty" using assms(2) by (auto simp: watch_version_def)
  ultimately show ?thesis using assms(2,3)
    by (cases op) (auto simp: watch_version_def signal_watch_def watch_key_def unwatch_key_def db_clear_def Let_def split: option.splits)
qed

lemma watch_keeps_run:
  "db_inv d \<Longrightarrow> watch_version d k = Some v \<Longrightarrow> OpUnwatch k \<notin> set ops \<Longrightarrow>
   \<exists>v'. watch_version (fold db_run ops d) k = Some v' \<and> v \<le> v'
     \<and> (OpSignal k \<in> set ops \<or> OpClear \<in> set ops \<longrightarrow> v < v')"
proof (induction ops arbitrary: d v)
  case (Cons op ops)
  then obtain v1 where v1: "watch_version (db_run op d) k = Some v1" "v \<le> v1" "op = OpSignal k \<or> op = OpClear \<longrightarrow> v < v1"
    using watch_keeps [of d k v op] by auto
  with Cons.IH [OF db_run_inv [OF Cons.prems(1)] v1(1)] Cons.prems(3) show ?case by fastforce
qed simp

subsection \<open>Shard sets\<close>

lemma sorted_unique_iff: "is_sorted_and_unique v \<longleftrightarrow> sorted_wrt (<) v"
proof (induction v rule: is_sorted_and_unique.induct)
  case (1 a b v)
  then show ?case by (auto intro: less_trans)
qed simp_all

lemma set_finish_set [simp]: "set (set_finish v) = set v"
  by (simp add: set_finish_def)

lemma set_finish_sorted: "sorted_wrt (<) (set_finish v)"
proof -
  have "sorted xs \<Longrightarrow> sorted_wrt (<) (remdups_adj xs)" for xs :: "nat list"
  proof (induction xs rule: remdups_adj.induct)
    case (3 x y xs)
    then show ?case by (cases "x = y") (auto intro: le_less_trans)
  qed simp_all
  then show ?thesis by (simp add: set_finish_def)
qed

lemma next_power_of_two_pow: "\<exists>e. next_power_of_two n = 2 ^ e"
proof (induction n rule: next_power_of_two.induct)
  case (1 n)
  show ?case
  proof (cases "n \<le> 1")
    case True then show ?thesis by (intro exI [of _ 0]) (subst next_power_of_two.simps, simp)
  next
    case False
    with 1 obtain e where "next_power_of_two ((n + 1) div 2) = 2 ^ e" by blast
    then show ?thesis using False by (intro exI [of _ "Suc e"]) (subst next_power_of_two.simps, simp)
  qed
qed

lemma next_power_of_two_ge: "n \<le> next_power_of_two n \<and> 0 < next_power_of_two n"
proof (induction n rule: next_power_of_two.induct)
  case (1 n)
  then show ?case by (subst (1 2) next_power_of_two.simps) auto
qed

lemma next_power_of_two_le: "n \<le> 2 ^ e \<Longrightarrow> next_power_of_two n \<le> 2 ^ e"
proof (induction e arbitrary: n)
  case 0
  then show ?case by (subst next_power_of_two.simps) simp
next
  case (Suc e)
  then have "next_power_of_two ((n + 1) div 2) \<le> 2 ^ e" by simp
  then show ?case by (subst next_power_of_two.simps) simp
qed

subsection \<open>The shard map\<close>

definition sm_wf :: "shard_map \<Rightarrow> bool" where
  "sm_wf m \<longleftrightarrow> (\<exists>e. sm_len m = 2 ^ e \<and> sm_mask m = 2 ^ e - 1)"

lemma shard_map_new_wf: "sm_wf (shard_map_new count databases)"
proof -
  obtain e where "next_power_of_two (max count 1) = 2 ^ e" using next_power_of_two_pow by blast
  then show ?thesis by (auto simp: sm_wf_def shard_map_new_def sm_len_def Let_def)
qed

lemma and_pow2_mask: "(n :: nat) AND (2 ^ e - 1) = n mod 2 ^ e"
  by (simp only: mask_eq_exp_minus_1 [symmetric] take_bit_eq_mask [symmetric] take_bit_eq_mod)

lemma shard_index_mod:
  assumes "sm_wf m" shows "shard_index mc m k = unat (key_hash_slot mc k) mod sm_len m"
  using assms and_pow2_mask by (auto simp: sm_wf_def shard_index_def)

lemma shard_index_less: "sm_wf m \<Longrightarrow> shard_index mc m k < sm_len m"
  by (auto simp: shard_index_mod sm_wf_def)

lemma sm_get_Some: "i < sm_len m \<Longrightarrow> sm_get m i = Some (sm_shards m ! i)"
  by (simp add: sm_get_def sm_len_def)

subsection \<open>Guards\<close>

lemma map_of_assoc_put: "map_of (assoc_put i x gs) j = (if j = i \<and> map_of gs i \<noteq> None then Some x else map_of gs j)"
  by (induction gs) auto

lemma fst_assoc_put [simp]: "map fst (assoc_put i x gs) = map fst gs"
  by (induction gs) auto

lemma lock_set_guards:
  assumes "distinct v" "\<forall>i \<in> set v. i < sm_len m"
  shows "g_guards (lock_set m v) = map (\<lambda>i. (i, h_shard (sm_shards m ! i))) v"
  using assms by (induction v) (auto simp: lock_set_def sm_get_Some)

lemma guard_shard_lock:
  assumes "distinct v" "\<forall>i \<in> set v. i < sm_len m"
  shows "guard_shard (lock_set m v) i = (if i \<in> set v then Some (h_shard (sm_shards m ! i)) else None)"
  using assms by (auto simp: guard_shard_def lock_set_guards map_of_map_restrict o_def restrict_map_def map_of_eq_None_iff)

lemma guard_put: "guard_shard (put_shard g i s) j = (if j = i \<and> guard_shard g i \<noteq> None then Some s else guard_shard g j)"
  by (simp add: guard_shard_def put_shard_def map_of_assoc_put)

lemma release_one_len [simp]: "sm_len (release_one p m) = sm_len m"
  by (auto simp: release_one_def sm_len_def split: prod.splits option.splits)

lemma release_one_get:
  "sm_get (release_one (i, s) m) j =
     (if j = i then map_option (\<lambda>h. sync_stats (h\<lparr>h_shard := s\<rparr>) s) (sm_get m i) else sm_get m j)"
  by (auto simp: release_one_def sm_get_def nth_opt_def split: option.splits)

lemma sync_stats_shard [simp]: "h_shard (sync_stats h s) = h_shard h"
  by (simp add: sync_stats_def)

text \<open>After a release every shard of the map holds what its guard held, and the others are as before.\<close>

lemma release_get:
  "distinct (map fst gs) \<Longrightarrow> map_option h_shard (sm_get (fold release_one gs m) j) =
     (if sm_get m j = None then None
      else Some (case map_of gs j of Some s \<Rightarrow> s | None \<Rightarrow> h_shard (the (sm_get m j))))"
proof (induction gs arbitrary: m)
  case (Cons p gs)
  obtain i s where p: "p = (i, s)" by (cases p)
  then have "map_of gs i = None" using Cons.prems by (auto simp: map_of_eq_None_iff)
  with Cons p show ?case by (auto simp: release_one_get split: option.splits)
qed auto

subsection \<open>Properties\<close>

text \<open>C17. The expiry index mirrors the dictionary: starting from an empty database, after any
  sequence of operations, a key is in the index exactly when it is in the dictionary with a
  deadline, and then with that deadline.\<close>

theorem expiry_index_mirrors_dict:
  "let d = fold db_run ops (db_new i) in
   db_ttl d k = (case db_lookup d k of Some e \<Rightarrow> expire_at_ms e | None \<Rightarrow> None)"
proof -
  have "db_inv (fold db_run ops (db_new i))" by (rule db_runs_inv) (rule db_inv_new)
  from db.ttl_mirrors [OF this] show ?thesis by (simp add: Let_def split: option.splits)
qed



text \<open>The version of a key can come back: when the registration of a key is dropped (by another
  client's \<^verbatim>\<open>UNWATCH\<close>) and made again after the key was modified and signalled, the fresh
  registration starts at 0, the version a client that registered first had recorded.\<close>

theorem watch_version_repeats:
  assumes "fmlookup (watch d) k = None"
  shows "case watch_key d k of (v, d1) \<Rightarrow>
    (let d2 = fold db_run [OpUnwatch k, OpSignal k, OpSet k e, OpWatch k] d1 in
     watch_version d2 k = Some v \<and> db_lookup d2 k = Some e)"
proof -
  have "fmlookup (watch (signal_watch d' k)) k = None" if "fmlookup (watch d') k = None" for d'
    using that by (simp add: signal_watch_def Let_def)
  then show ?thesis using assms
    by (simp add: watch_key_def watch_version_def db_lookup_def unwatch_key_def Let_def)
qed

theorem watch_version_repeats_witness:
  "watch_version (fold db_run [OpUnwatch [97], OpSignal [97], OpSet [97] (entry_new RList None 0 False), OpWatch [97]]
     (snd (watch_key (db_new 0) [97]))) [97] = Some 0"
  using watch_version_repeats [of "db_new 0" "[97]" "entry_new RList None 0 False"]
  by (simp add: watch_key_def db_new_def Let_def)

end
