(* ===== verification/Cmd_Error.thy ===== *)
theory Cmd_Error
  imports Strnum
begin

text \<open>
  Command errors, from \<^verbatim>\<open>src/src/error.rs\<close>: the error enum, its text on the wire and the message for
  an unknown command, with the lossy UTF-8 decoding of the standard library it goes through.
\<close>

datatype cmd_error =
  WrongType | WrongArity bytes | NotAnInteger | NotAFloat | Syntax | OutOfRange | IndexOutOfRange
| NoSuchKey | ValueOverflow | Unauthenticated | NoProto | Oom | Custom bytes bytes | Io bytes

definition error_err :: "bytes \<Rightarrow> cmd_error" where
  "error_err msg = Custom (ascii ''ERR'') msg"

definition error_code :: "cmd_error \<Rightarrow> bytes" where
  "error_code e =
     (case e of WrongType \<Rightarrow> ascii ''WRONGTYPE'' | Unauthenticated \<Rightarrow> ascii ''NOAUTH''
      | NoProto \<Rightarrow> ascii ''NOPROTO'' | Oom \<Rightarrow> ascii ''OOM'' | Custom code _ \<Rightarrow> code | _ \<Rightarrow> ascii ''ERR'')"

definition error_display :: "cmd_error \<Rightarrow> bytes" where
  "error_display e =
     (case e of
        WrongType \<Rightarrow> ascii ''WRONGTYPE Operation against a key holding the wrong kind of value''
      | WrongArity name \<Rightarrow> ascii ''ERR wrong number of arguments for '' @ [39] @ name @ [39] @ ascii '' command''
      | NotAnInteger \<Rightarrow> ascii ''ERR value is not an integer or out of range''
      | NotAFloat \<Rightarrow> ascii ''ERR value is not a valid float''
      | Syntax \<Rightarrow> ascii ''ERR syntax error''
      | OutOfRange \<Rightarrow> ascii ''ERR value is out of range''
      | IndexOutOfRange \<Rightarrow> ascii ''ERR index out of range''
      | NoSuchKey \<Rightarrow> ascii ''ERR no such key''
      | ValueOverflow \<Rightarrow> ascii ''ERR increment or decrement would overflow''
      | Unauthenticated \<Rightarrow> ascii ''NOAUTH Authentication required.''
      | NoProto \<Rightarrow> ascii ''NOPROTO unsupported protocol version''
      | Oom \<Rightarrow> ascii ''OOM command not allowed when used memory > '' @ [39] @ ascii ''maxmemory'' @ [39] @ ascii ''.''
      | Custom code msg \<Rightarrow> code @ [32] @ msg
      | Io msg \<Rightarrow> ascii ''ERR '' @ msg)"

subsection \<open>Lossy UTF-8\<close>

text \<open>\<^verbatim>\<open>String::from_utf8_lossy\<close> followed by \<^verbatim>\<open>chars\<close>: the characters as their UTF-8 bytes, each maximal
  invalid part replaced by U+FFFD.\<close>

definition replacement_char :: bytes where
  "replacement_char = [0xEF, 0xBF, 0xBD]"

definition in_range :: "byte \<Rightarrow> byte \<Rightarrow> byte \<Rightarrow> bool" where
  "in_range lo hi b \<longleftrightarrow> lo \<le> b \<and> b \<le> hi"

definition second_ok :: "byte \<Rightarrow> byte \<Rightarrow> bool" where
  "second_ok b0 b1 =
     (if b0 = 0xE0 then in_range 0xA0 0xBF b1 else if b0 = 0xED then in_range 0x80 0x9F b1
      else if b0 = 0xF0 then in_range 0x90 0xBF b1 else if b0 = 0xF4 then in_range 0x80 0x8F b1
      else in_range 0x80 0xBF b1)"

definition utf8_width :: "byte \<Rightarrow> nat" where
  "utf8_width b =
     (if b < 0x80 then 1 else if in_range 0xC2 0xDF b then 2 else if in_range 0xE0 0xEF b then 3
      else if in_range 0xF0 0xF4 b then 4 else 0)"

text \<open>How many bytes of \<open>bs\<close> continue the character begun by \<open>b0\<close>, up to \<open>n\<close>.\<close>

definition continuation :: "byte \<Rightarrow> nat \<Rightarrow> bytes \<Rightarrow> nat" where
  "continuation b0 n bs =
     (case bs of
        [] \<Rightarrow> 0
      | b1 # r \<Rightarrow> if \<not> second_ok b0 b1 then 0 else 1 + length (takeWhile (in_range 0x80 0xBF) (take (n - 1) r)))"

function utf8_lossy_chars :: "bytes \<Rightarrow> bytes list" where
  "utf8_lossy_chars [] = []"
| "utf8_lossy_chars (b # bs) =
     (let w = utf8_width b; k = (if w \<le> 1 then 0 else continuation b (w - 1) bs) in
      (if w = 1 \<or> (1 < w \<and> k = w - 1) then b # take k bs else replacement_char) # utf8_lossy_chars (drop k bs))"
  by pat_completeness auto
termination
  by (relation "measure length") auto

subsection \<open>Unknown commands\<close>

fun unknown_args :: "bytes list \<Rightarrow> bytes \<Rightarrow> bytes" where
  "unknown_args [] acc = acc"
| "unknown_args (a # rest) acc =
     (if length acc \<ge> 128 then acc
      else unknown_args rest (acc @ [39] @ concat (take (128 - length acc) (utf8_lossy_chars a)) @ [39, 32]))"

definition unknown_command :: "bytes \<Rightarrow> bytes list \<Rightarrow> cmd_error" where
  "unknown_command name rest =
     Custom (ascii ''ERR'')
       (ascii ''unknown command '' @ [39] @ concat (take 128 (utf8_lossy_chars name)) @ [39]
        @ ascii '', with args beginning with: '' @ unknown_args rest [])"

lemma utf8_ascii: "list_all (\<lambda>b. b < 0x80) bs \<Longrightarrow> utf8_lossy_chars bs = map (\<lambda>b. [b]) bs"
  by (induction bs) (simp_all add: utf8_width_def Let_def)

end
