(* ===== verification/Reply.thy ===== *)
theory Reply
  imports Cmd_Error
begin

text \<open>
  The reply writer of \<^verbatim>\<open>src/src/reply.rs\<close>: every method appends to the connection's output buffer,
  choosing between the RESP2 and RESP3 forms. \<open>frame\<close> is the grammar of a RESP value, against
  which the methods are checked. Doubles are not modelled (their digits come from \<^verbatim>\<open>ryu\<close>).
\<close>

record reply_writer =
  rw_buf :: bytes
  rw_proto :: nat

definition RESP2 :: nat where "RESP2 = 2"

definition RESP3 :: nat where "RESP3 = 3"

definition CRLF :: bytes where "CRLF = [13, 10]"

definition writer_new :: "bytes \<Rightarrow> nat \<Rightarrow> reply_writer" where
  "writer_new buf proto = \<lparr>rw_buf = buf, rw_proto = proto\<rparr>"

definition is_resp3 :: "reply_writer \<Rightarrow> bool" where
  "is_resp3 w \<longleftrightarrow> RESP3 \<le> rw_proto w"

definition emit :: "reply_writer \<Rightarrow> bytes \<Rightarrow> reply_writer" where
  "emit w b = w\<lparr>rw_buf := rw_buf w @ b\<rparr>"

definition reply_mark :: "reply_writer \<Rightarrow> nat" where
  "reply_mark w = length (rw_buf w)"

definition rollback :: "reply_writer \<Rightarrow> nat \<Rightarrow> reply_writer" where
  "rollback w mark = (if mark \<le> length (rw_buf w) then w\<lparr>rw_buf := take mark (rw_buf w)\<rparr> else w)"

subsection \<open>Scalars\<close>

definition reply_ok :: "reply_writer \<Rightarrow> reply_writer" where
  "reply_ok w = emit w (ascii ''+OK'' @ CRLF)"

definition reply_simple :: "reply_writer \<Rightarrow> bytes \<Rightarrow> reply_writer" where
  "reply_simple w s = emit w (43 # s @ CRLF)"

definition reply_error :: "reply_writer \<Rightarrow> cmd_error \<Rightarrow> reply_writer" where
  "reply_error w e = emit w (45 # error_display e @ CRLF)"

definition reply_error_str :: "reply_writer \<Rightarrow> bytes \<Rightarrow> reply_writer" where
  "reply_error_str w msg = emit w (45 # msg @ CRLF)"

definition reply_int :: "(int \<Rightarrow> bytes) \<Rightarrow> reply_writer \<Rightarrow> int \<Rightarrow> reply_writer" where
  "reply_int itoa w v = emit w (58 # itoa v @ CRLF)"

definition reply_bulk :: "(int \<Rightarrow> bytes) \<Rightarrow> reply_writer \<Rightarrow> bytes \<Rightarrow> reply_writer" where
  "reply_bulk itoa w b = emit w (36 # itoa (int (length b)) @ CRLF @ b @ CRLF)"

definition reply_bulk_i64 :: "(int \<Rightarrow> bytes) \<Rightarrow> reply_writer \<Rightarrow> int \<Rightarrow> reply_writer" where
  "reply_bulk_i64 itoa w v = reply_bulk itoa w (itoa v)"

definition reply_bulk2 :: "(int \<Rightarrow> bytes) \<Rightarrow> reply_writer \<Rightarrow> bytes \<Rightarrow> bytes \<Rightarrow> reply_writer" where
  "reply_bulk2 itoa w a b = emit w (36 # itoa (int (length a + length b)) @ CRLF @ a @ b @ CRLF)"

definition reply_null :: "reply_writer \<Rightarrow> reply_writer" where
  "reply_null w = emit w (if is_resp3 w then ascii ''_'' @ CRLF else ascii ''$-1'' @ CRLF)"

definition reply_null_array :: "reply_writer \<Rightarrow> reply_writer" where
  "reply_null_array w = emit w (if is_resp3 w then ascii ''_'' @ CRLF else ascii ''*-1'' @ CRLF)"

definition reply_boolean :: "reply_writer \<Rightarrow> bool \<Rightarrow> reply_writer" where
  "reply_boolean w v =
     emit w (if is_resp3 w then ascii (if v then ''#t'' else ''#f'') @ CRLF
             else ascii (if v then '':1'' else '':0'') @ CRLF)"

definition reply_verbatim :: "(int \<Rightarrow> bytes) \<Rightarrow> reply_writer \<Rightarrow> bytes \<Rightarrow> bytes \<Rightarrow> reply_writer" where
  "reply_verbatim itoa w fmt b =
     (if is_resp3 w
      then emit w (61 # itoa (int (length b + 4)) @ CRLF
             @ map (\<lambda>i. case nth_opt fmt i of Some c \<Rightarrow> c | None \<Rightarrow> 32) [0..<3] @ 58 # b @ CRLF)
      else reply_bulk itoa w b)"

definition reply_big_number :: "(int \<Rightarrow> bytes) \<Rightarrow> reply_writer \<Rightarrow> bytes \<Rightarrow> reply_writer" where
  "reply_big_number itoa w s = (if is_resp3 w then emit w (40 # s @ CRLF) else reply_bulk itoa w s)"

subsection \<open>Aggregates\<close>

definition reply_array :: "(int \<Rightarrow> bytes) \<Rightarrow> reply_writer \<Rightarrow> nat \<Rightarrow> reply_writer" where
  "reply_array itoa w n = emit w (42 # itoa (int n) @ CRLF)"

definition reply_map :: "(int \<Rightarrow> bytes) \<Rightarrow> reply_writer \<Rightarrow> nat \<Rightarrow> reply_writer" where
  "reply_map itoa w n =
     (if is_resp3 w then emit w (37 # itoa (int n) @ CRLF)
      else emit w (42 # itoa (int (min (n * 2) (2 ^ 64 - 1))) @ CRLF))"

definition reply_set_header :: "(int \<Rightarrow> bytes) \<Rightarrow> reply_writer \<Rightarrow> nat \<Rightarrow> reply_writer" where
  "reply_set_header itoa w n = emit w ((if is_resp3 w then 126 else 42) # itoa (int n) @ CRLF)"

definition reply_push :: "(int \<Rightarrow> bytes) \<Rightarrow> reply_writer \<Rightarrow> nat \<Rightarrow> reply_writer" where
  "reply_push itoa w n = emit w ((if is_resp3 w then 62 else 42) # itoa (int n) @ CRLF)"

definition reply_empty_array :: "reply_writer \<Rightarrow> reply_writer" where
  "reply_empty_array w = emit w (ascii ''*0'' @ CRLF)"

definition reply_empty_bulk :: "reply_writer \<Rightarrow> reply_writer" where
  "reply_empty_bulk w = emit w (ascii ''$0'' @ CRLF @ CRLF)"

subsection \<open>The grammar of replies\<close>

definition no_crlf :: "bytes \<Rightarrow> bool" where
  "no_crlf s \<longleftrightarrow> 13 \<notin> set s \<and> 10 \<notin> set s"

inductive frame :: "bytes \<Rightarrow> bool" and frames :: "nat \<Rightarrow> bytes \<Rightarrow> bool" where
  simple: "no_crlf s \<Longrightarrow> frame (43 # s @ CRLF)"
| error: "no_crlf s \<Longrightarrow> frame (45 # s @ CRLF)"
| number: "frame (58 # decimal v @ CRLF)"
| bulk: "frame (36 # digits (length b) @ CRLF @ b @ CRLF)"
| null_bulk: "frame (ascii ''$-1'' @ CRLF)"
| null_array: "frame (ascii ''*-1'' @ CRLF)"
| null3: "frame (ascii ''_'' @ CRLF)"
| boolean: "frame (ascii (if v then ''#t'' else ''#f'') @ CRLF)"
| verbatim: "length f = 3 \<Longrightarrow> frame (61 # digits (length b + 4) @ CRLF @ f @ 58 # b @ CRLF)"
| big_number: "no_crlf s \<Longrightarrow> frame (40 # s @ CRLF)"
| array: "frames n bs \<Longrightarrow> frame (42 # digits n @ CRLF @ bs)"
| set3: "frames n bs \<Longrightarrow> frame (126 # digits n @ CRLF @ bs)"
| push3: "frames n bs \<Longrightarrow> frame (62 # digits n @ CRLF @ bs)"
| map3: "frames (2 * n) bs \<Longrightarrow> frame (37 # digits n @ CRLF @ bs)"
| none: "frames 0 []"
| more: "frame a \<Longrightarrow> frames n b \<Longrightarrow> frames (Suc n) (a @ b)"

lemmas frame_intros = frame_frames.intros

text \<open>What a writer appended.\<close>

definition appended :: "reply_writer \<Rightarrow> reply_writer \<Rightarrow> bytes" where
  "appended w w' = drop (length (rw_buf w)) (rw_buf w')"

lemma emit_simps [simp]: "rw_buf (emit w b) = rw_buf w @ b" "rw_proto (emit w b) = rw_proto w" "is_resp3 (emit w b) = is_resp3 w"
  by (simp_all add: emit_def is_resp3_def)

lemma appended_emit [simp]: "appended w (emit w b) = b"
  by (simp add: appended_def)

lemma decimal_nat [simp]: "decimal (int n) = digits n"
  by (simp add: decimal_def)

lemma frames_one: "frame a \<Longrightarrow> frames (Suc 0) a"
  using more [OF _ none] by simp

lemma frames_append: "frames m a \<Longrightarrow> frames n b \<Longrightarrow> frames (m + n) (a @ b)"
proof (induction m arbitrary: a)
  case 0
  then show ?case by (auto elim: frames.cases)
next
  case (Suc m)
  then obtain x y where "a = x @ y" "frame x" "frames m y" by (auto elim: frames.cases)
  then show ?case using more [of x "m + n" "y @ b"] Suc.IH [of y] Suc.prems by simp
qed

lemma frames_concat: "list_all frame xs \<Longrightarrow> frames (length xs) (concat xs)"
  by (induction xs) (auto intro: none more)

lemma no_crlf_digits: "no_crlf (digits n)"
  using digits_all_digit [of n] by (auto simp: no_crlf_def list_all_iff is_digit_def)

lemma no_crlf_decimal: "no_crlf (decimal v)"
  using no_crlf_digits by (auto simp: decimal_def no_crlf_def)

lemma no_crlf_append [simp]: "no_crlf (a @ b) \<longleftrightarrow> no_crlf a \<and> no_crlf b" "no_crlf (c # a) \<longleftrightarrow> c \<noteq> 13 \<and> c \<noteq> 10 \<and> no_crlf a" "no_crlf []"
  by (auto simp: no_crlf_def)

lemma ok_frame: "frame (ascii ''+OK'' @ CRLF)"
  using simple [of "ascii ''OK''"] by (simp add: ascii_def)

lemma bool2_frame: "frame (ascii (if v then '':1'' else '':0'') @ CRLF)"
  using number [of 1] number [of 0] by (simp add: ascii_def decimal_def digits.simps)

lemma empty_frames: "frame (ascii ''*0'' @ CRLF)" "frame (ascii ''$0'' @ CRLF @ CRLF)"
  using array [OF none] bulk [of "[]"] by (simp_all add: ascii_def)

subsection \<open>Properties\<close>



text \<open>The error for an unknown command repeats the client's bytes unescaped: a name holding a CR LF
  ends the error line at that point, and the rest of the name starts the next reply.\<close>

theorem unknown_command_splits_reply:
  assumes "list_all (\<lambda>b. b < 0x80) (x @ y)" and "no_crlf x" and "length x + length y \<le> 126"
  shows "\<exists>b. appended w (reply_error w (unknown_command (x @ CRLF @ y) []))
      = (45 # ascii ''ERR unknown command '' @ [39] @ x @ CRLF) @ y @ b
    \<and> frame (45 # ascii ''ERR unknown command '' @ [39] @ x @ CRLF)"
proof -
  have "utf8_lossy_chars (x @ CRLF @ y) = map (\<lambda>b. [b]) (x @ CRLF @ y)"
    using assms(1) by (intro utf8_ascii) (simp add: CRLF_def)
  then have name: "concat (take 128 (utf8_lossy_chars (x @ CRLF @ y))) = x @ CRLF @ y" using assms(3) by (simp add: CRLF_def)
  have "no_crlf (ascii ''ERR unknown command '')" by (simp add: ascii_def)
  then have "frame (45 # (ascii ''ERR unknown command '' @ [39] @ x) @ CRLF)" using assms(2) by (intro error) simp
  then show ?thesis
    unfolding reply_error_def appended_emit unknown_command_def name error_display_def cmd_error.case by (simp add: ascii_def)
qed

theorem unknown_command_splits_reply_witness:
  "\<exists>b. appended (writer_new [] 2) (reply_error (writer_new [] 2) (unknown_command ([120] @ CRLF @ [43, 79, 75]) []))
     = (45 # ascii ''ERR unknown command '' @ [39] @ [120] @ CRLF) @ [43, 79, 75] @ b"
  using unknown_command_splits_reply [of "[120]" "[43, 79, 75]" "writer_new [] 2"] by auto

end
