(* ===== verification/Command_Table.thy ===== *)
theory Command_Table
  imports Cmd_Error "HOL-Library.Finite_Map"
begin

text \<open>
  Command specifications and the command table, from \<^verbatim>\<open>src/src/command/mod.rs\<close>: arity, key positions,
  registration with its assertions (a failed assertion is \<open>None\<close>) and the case-insensitive lookup;
  the argument helpers; and the byte comparison of \<^verbatim>\<open>src/src/util/mod.rs\<close>. The handler of a command
  is left abstract (a type parameter), the documentation fields of a specification are omitted.
  Positions and arities are small integers: a request has at most 1048576 arguments, so the \<^verbatim>\<open>i32\<close>
  arithmetic on them does not wrap.
\<close>

unbundle bit_operations_syntax

subsection \<open>Flags\<close>

type_synonym cmd_flags = "32 word"

definition WRITE :: cmd_flags where "WRITE = push_bit 0 1"

definition READONLY :: cmd_flags where "READONLY = push_bit 1 1"

definition DENYOOM :: cmd_flags where "DENYOOM = push_bit 2 1"

definition ADMIN :: cmd_flags where "ADMIN = push_bit 3 1"

definition PUBSUB :: cmd_flags where "PUBSUB = push_bit 4 1"

definition NOSCRIPT :: cmd_flags where "NOSCRIPT = push_bit 5 1"

definition BLOCKING :: cmd_flags where "BLOCKING = push_bit 6 1"

definition FAST :: cmd_flags where "FAST = push_bit 7 1"

definition LOADING :: cmd_flags where "LOADING = push_bit 8 1"

definition STALE :: cmd_flags where "STALE = push_bit 9 1"

definition NO_MULTI :: cmd_flags where "NO_MULTI = push_bit 10 1"

definition MOVABLE_KEYS :: cmd_flags where "MOVABLE_KEYS = push_bit 11 1"

definition ALL_SHARDS :: cmd_flags where "ALL_SHARDS = push_bit 12 1"

definition NO_SHARDS :: cmd_flags where "NO_SHARDS = push_bit 13 1"

definition flags_contain :: "cmd_flags \<Rightarrow> cmd_flags \<Rightarrow> bool" where
  "flags_contain f g \<longleftrightarrow> f AND g = g"

subsection \<open>Specifications\<close>

record 'h command_spec =
  cs_name :: bytes
  arity :: int
  flags :: cmd_flags
  first_key :: int
  last_key :: int
  key_step :: int
  handler :: 'h
  get_keys :: "(bytes list \<Rightarrow> nat list) option"

definition arity_ok :: "'h command_spec \<Rightarrow> nat \<Rightarrow> bool" where
  "arity_ok s argc = (if arity s \<ge> 0 then int argc = arity s else int argc \<ge> - arity s)"

definition is_write :: "'h command_spec \<Rightarrow> bool" where
  "is_write s \<longleftrightarrow> flags_contain (flags s) WRITE"

definition is_readonly :: "'h command_spec \<Rightarrow> bool" where
  "is_readonly s \<longleftrightarrow> flags_contain (flags s) READONLY"

function key_loop :: "int \<Rightarrow> int \<Rightarrow> int \<Rightarrow> int \<Rightarrow> nat list \<Rightarrow> nat list" where
  "key_loop lst argc step i acc =
     (if i \<le> lst \<and> i < argc \<and> 0 < step
      then key_loop lst argc step (i + step) (if i > 0 then acc @ [nat i] else acc) else acc)"
  by pat_completeness auto
termination
  by (relation "measure (\<lambda>(lst, argc, step, i, acc). nat (argc - i))") auto

declare key_loop.simps [simp del]

definition key_positions :: "'h command_spec \<Rightarrow> bytes list \<Rightarrow> nat list" where
  "key_positions s args =
     (if flags_contain (flags s) MOVABLE_KEYS then
        (case get_keys s of Some f \<Rightarrow> filter (\<lambda>pos. pos < length args) (f args) | None \<Rightarrow> [])
      else if first_key s \<le> 0 \<or> key_step s \<le> 0 then []
      else (let argc = int (length args);
                lst = (if last_key s < 0 then argc + last_key s else last_key s)
            in key_loop lst argc (key_step s) (first_key s) []))"

subsection \<open>The table\<close>

definition MAX_CMD_NAME :: nat where "MAX_CMD_NAME = 32"

record 'h command_table =
  specs :: "'h command_spec list"
  index :: "(bytes, nat) fmap"

definition table_new :: "'h command_table" where
  "table_new = \<lparr>specs = [], index = fmempty\<rparr>"

definition is_ascii_uppercase :: "byte \<Rightarrow> bool" where
  "is_ascii_uppercase b \<longleftrightarrow> 65 \<le> b \<and> b \<le> 90"

definition to_ascii_lowercase :: "byte \<Rightarrow> byte" where
  "to_ascii_lowercase b = (if is_ascii_uppercase b then b + 32 else b)"

definition table_add :: "'h command_table \<Rightarrow> 'h command_spec \<Rightarrow> 'h command_table option" where
  "table_add t s =
     (if \<not> length (cs_name s) \<le> MAX_CMD_NAME then None
      else if \<not> list_all (\<lambda>b. \<not> is_ascii_uppercase b) (cs_name s) then None
      else if \<not> (\<not> flags_contain (flags s) MOVABLE_KEYS \<or> get_keys s \<noteq> None) then None
      else if \<not> (first_key s \<le> 0 \<or> key_step s > 0) then None
      else if fmlookup (index t) (cs_name s) \<noteq> None then None
      else Some (t\<lparr>index := fmupd (cs_name s) (length (specs t)) (index t), specs := specs t @ [s]\<rparr>))"

definition lowercase_into :: "bytes \<Rightarrow> bytes option" where
  "lowercase_into name =
     (if name = [] \<or> length name > MAX_CMD_NAME then None else Some (map to_ascii_lowercase name))"

definition table_lookup :: "'h command_table \<Rightarrow> bytes \<Rightarrow> 'h command_spec option" where
  "table_lookup t name = do {
     lowered \<leftarrow> lowercase_into name;
     idx \<leftarrow> fmlookup (index t) lowered;
     nth_opt (specs t) idx }"

fun table_add_all :: "'h command_table \<Rightarrow> 'h command_spec list \<Rightarrow> 'h command_table option" where
  "table_add_all t [] = Some t"
| "table_add_all t (s # ss) = do { t' \<leftarrow> table_add t s; table_add_all t' ss }"

subsection \<open>Arguments\<close>

definition args_name :: "bytes list \<Rightarrow> bytes" where
  "args_name args = (case args of [] \<Rightarrow> [] | a # _ \<Rightarrow> a)"

definition args_at :: "bytes list \<Rightarrow> nat \<Rightarrow> cmd_error + bytes" where
  "args_at args i = (case nth_opt args i of Some a \<Rightarrow> Inr a | None \<Rightarrow> Inl Syntax)"

definition eq_ignore_ascii_case :: "bytes \<Rightarrow> bytes \<Rightarrow> bool" where
  "eq_ignore_ascii_case a b \<longleftrightarrow> length a = length b \<and>
     list_all (\<lambda>(x, y). to_ascii_lowercase x = to_ascii_lowercase y) (zip a b)"

definition i64_at :: "bytes list \<Rightarrow> nat \<Rightarrow> cmd_error + int" where
  "i64_at args i =
     (case args_at args i of
        Inl e \<Rightarrow> Inl e
      | Inr a \<Rightarrow> (case string2ll a of Some v \<Rightarrow> Inr v | None \<Rightarrow> Inl NotAnInteger))"

definition kw_at :: "bytes list \<Rightarrow> nat \<Rightarrow> bytes \<Rightarrow> bool" where
  "kw_at args i kw = (case nth_opt args i of Some a \<Rightarrow> eq_ignore_ascii_case a kw | None \<Rightarrow> False)"

subsection \<open>Lemmas\<close>

definition table_inv :: "'h command_table \<Rightarrow> bool" where
  "table_inv t \<longleftrightarrow> (\<forall>n i. fmlookup (index t) n = Some i \<longleftrightarrow> i < length (specs t) \<and> cs_name (specs t ! i) = n)"

lemma table_inv_new: "table_inv table_new"
  by (simp add: table_inv_def table_new_def)

lemma table_add_inv:
  assumes "table_inv t" "table_add t s = Some t'" shows "table_inv t' \<and> specs t' = specs t @ [s]"
proof -
  have t': "t' = t\<lparr>index := fmupd (cs_name s) (length (specs t)) (index t), specs := specs t @ [s]\<rparr>"
    and new: "fmlookup (index t) (cs_name s) = None"
    using assms(2) by (auto simp: table_add_def split: if_splits)
  have inv: "fmlookup (index t) n = Some i \<longleftrightarrow> i < length (specs t) \<and> cs_name (specs t ! i) = n" for n i
    using assms(1) by (simp add: table_inv_def)
  have "cs_name (specs t ! i) \<noteq> cs_name s" if "i < length (specs t)" for i
    using inv [of "cs_name s" i] new that by simp
  then have "fmlookup (index t') n = Some i \<longleftrightarrow> i < length (specs t') \<and> cs_name (specs t' ! i) = n" for n i
    by (cases "n = cs_name s"; cases "i < length (specs t)") (auto simp: t' inv nth_append)
  then show ?thesis by (simp add: table_inv_def t')
qed

lemma table_add_all_inv:
  "table_inv t \<Longrightarrow> table_add_all t ss = Some t' \<Longrightarrow> table_inv t' \<and> specs t' = specs t @ ss"
proof (induction ss arbitrary: t)
  case (Cons s ss)
  then obtain t1 where "table_add t s = Some t1" "table_add_all t1 ss = Some t'" by (auto simp: bind_eq_Some_conv)
  with Cons.IH [of t1] table_add_inv [OF Cons.prems(1)] show ?case by simp
qed simp

lemma lowercase_idem: "to_ascii_lowercase (to_ascii_lowercase b) = to_ascii_lowercase b"
  by (auto simp: to_ascii_lowercase_def is_ascii_uppercase_def word_le_nat_alt unat_word_ariths)

lemma eq_ignore_case_map: "eq_ignore_ascii_case a b \<longleftrightarrow> map to_ascii_lowercase a = map to_ascii_lowercase b"
  by (auto simp: eq_ignore_ascii_case_def list_all_length list_eq_iff_nth_eq)

lemma key_loop_set:
  "0 < step \<Longrightarrow> 0 < i \<Longrightarrow> set (key_loop lst argc step i acc) = set acc \<union> {nat (i + int n * step) | n. i + int n * step \<le> lst \<and> i + int n * step < argc}"
proof (induction lst argc step i acc rule: key_loop.induct)
  case (1 lst argc step i acc)
  let ?S = "\<lambda>j. {nat (j + int n * step) | n. j + int n * step \<le> lst \<and> j + int n * step < argc}"
  show ?case
  proof (cases "i \<le> lst \<and> i < argc")
    case True
    have "?S i = insert (nat i) (?S (i + step))"
    proof -
      have "?S i = {nat (i + int n * step) | n. n = 0 \<and> i + int n * step \<le> lst \<and> i + int n * step < argc}
          \<union> {nat (i + int (Suc n) * step) | n. i + int (Suc n) * step \<le> lst \<and> i + int (Suc n) * step < argc}"
        using not0_implies_Suc by blast
      then show ?thesis using True by (auto simp: algebra_simps)
    qed
    then show ?thesis using 1 True by (subst key_loop.simps) auto
  next
    case False
    have "\<not> (i + int n * step \<le> lst \<and> i + int n * step < argc)" for n
    proof -
      have "0 \<le> int n * step" using 1(2) by simp
      then show ?thesis using False by linarith
    qed
    then have "?S i = {}" by blast
    then show ?thesis using False by (subst key_loop.simps) auto
  qed
qed

lemma table_lookup_iff:
  assumes "table_add_all table_new ss = Some t"
  shows "table_lookup t name = Some s \<longleftrightarrow>
    s \<in> set ss \<and> name \<noteq> [] \<and> length name \<le> MAX_CMD_NAME \<and> cs_name s = map to_ascii_lowercase name"
proof -
  have inv: "table_inv t" and specs: "specs t = ss"
    using table_add_all_inv [OF table_inv_new assms] by (simp_all add: table_new_def)
  show ?thesis
  proof
    assume "table_lookup t name = Some s"
    then obtain l i where "lowercase_into name = Some l" "fmlookup (index t) l = Some i" "nth_opt (specs t) i = Some s"
      by (auto simp: table_lookup_def bind_eq_Some_conv simp del: nth_opt_Some)
    then show "s \<in> set ss \<and> name \<noteq> [] \<and> length name \<le> MAX_CMD_NAME \<and> cs_name s = map to_ascii_lowercase name"
      using inv specs by (auto simp: table_inv_def lowercase_into_def split: if_splits)
  next
    assume s: "s \<in> set ss \<and> name \<noteq> [] \<and> length name \<le> MAX_CMD_NAME \<and> cs_name s = map to_ascii_lowercase name"
    then obtain i where "i < length (specs t)" "specs t ! i = s" using specs by (auto simp: in_set_conv_nth)
    moreover from this have "fmlookup (index t) (map to_ascii_lowercase name) = Some i" using inv s by (simp add: table_inv_def)
    ultimately show "table_lookup t name = Some s" using s by (simp add: table_lookup_def lowercase_into_def)
  qed
qed

subsection \<open>Properties\<close>

text \<open>The command table finds exactly the registered commands: after a registration that did not
  panic, looking up a name returns the specification whose registered name is the lower-case form
  of it, whatever case the client used, and nothing for the empty name or for one no command has.\<close>

theorem table_lookup_correct:
  assumes "table_add_all table_new ss = Some t"
  shows "table_lookup t name = Some s \<longleftrightarrow>
    s \<in> set ss \<and> name \<noteq> [] \<and> length name \<le> MAX_CMD_NAME \<and> cs_name s = map to_ascii_lowercase name"
  by (rule table_lookup_iff [OF assms])

abbreviation demo_spec :: "unit command_spec" where
  "demo_spec \<equiv> \<lparr>cs_name = [103, 101, 116], arity = 2, flags = READONLY, first_key = 1, last_key = 1, key_step = 1, handler = (), get_keys = None\<rparr>"

theorem table_lookup_correct_witness:
  "\<exists>t. table_add_all table_new [demo_spec] = Some t \<and> table_lookup t [71, 69, 116] = Some demo_spec"
proof -
  have "flags_contain READONLY MOVABLE_KEYS = False"
    by (simp add: flags_contain_def READONLY_def MOVABLE_KEYS_def)
  then obtain t where t: "table_add_all table_new [demo_spec] = Some t"
    by (simp add: table_add_def table_new_def MAX_CMD_NAME_def is_ascii_uppercase_def)
  then show ?thesis using table_lookup_correct [OF t, of "[71, 69, 116]" demo_spec]
    by (simp add: MAX_CMD_NAME_def to_ascii_lowercase_def is_ascii_uppercase_def)
qed

end
