(* ===== verification/Notify.thy ===== *)
theory Notify
  imports Strnum
begin

text \<open>
  Keyspace notifications, from \<^verbatim>\<open>src/src/notify.rs\<close>: the event classes as bit flags, the
  configuration string they are written as, and the two messages an event is published as. The
  sink that messages go to is installed by another part of the server; \<open>dispatch\<close> returns the
  messages it publishes.
\<close>

unbundle bit_operations_syntax

type_synonym notify_class = "32 word"

definition KEYSPACE :: notify_class where "KEYSPACE = 1"

definition KEYEVENT :: notify_class where "KEYEVENT = 2"

definition GENERIC :: notify_class where "GENERIC = 4"

definition STRING :: notify_class where "STRING = 8"

definition LIST :: notify_class where "LIST = 16"

definition SET :: notify_class where "SET = 32"

definition HASH :: notify_class where "HASH = 64"

definition ZSET :: notify_class where "ZSET = 128"

definition EXPIRED :: notify_class where "EXPIRED = 256"

definition EVICTED :: notify_class where "EVICTED = 512"

definition STREAM :: notify_class where "STREAM = 1024"

definition KEY_MISS :: notify_class where "KEY_MISS = 2048"

definition NEW :: notify_class where "NEW = 4096"

definition MODULE :: notify_class where "MODULE = 8192"

definition NC_ALL :: notify_class where
  "NC_ALL = GENERIC OR STRING OR LIST OR SET OR HASH OR ZSET OR EXPIRED OR EVICTED OR STREAM OR MODULE"

definition nc_contains :: "notify_class \<Rightarrow> notify_class \<Rightarrow> bool" where
  "nc_contains f g \<longleftrightarrow> f AND g = g"

definition nc_intersects :: "notify_class \<Rightarrow> notify_class \<Rightarrow> bool" where
  "nc_intersects f g \<longleftrightarrow> f AND g \<noteq> 0"

definition class_of_char :: "char \<Rightarrow> notify_class option" where
  "class_of_char c =
     map_of [(CHR ''K'', KEYSPACE), (CHR ''E'', KEYEVENT), (CHR ''g'', GENERIC), (CHR ''$'', STRING),
       (CHR ''l'', LIST), (CHR ''s'', SET), (CHR ''h'', HASH), (CHR ''z'', ZSET), (CHR ''x'', EXPIRED),
       (CHR ''e'', EVICTED), (CHR ''t'', STREAM), (CHR ''m'', KEY_MISS), (CHR ''n'', NEW),
       (CHR ''d'', MODULE), (CHR ''A'', NC_ALL)] c"

fun nc_parse_loop :: "string \<Rightarrow> notify_class \<Rightarrow> notify_class option" where
  "nc_parse_loop [] flags = Some flags"
| "nc_parse_loop (c # cs) flags =
     (case class_of_char c of None \<Rightarrow> None | Some f \<Rightarrow> nc_parse_loop cs (flags OR f))"

definition nc_parse :: "string \<Rightarrow> notify_class option" where
  "nc_parse s = nc_parse_loop s 0"

definition push_if :: "notify_class \<Rightarrow> notify_class \<times> char \<Rightarrow> string" where
  "push_if f p = (case p of (flag, ch) \<Rightarrow> if nc_contains f flag then [ch] else [])"

definition class_chars :: "(notify_class \<times> char) list" where
  "class_chars =
     [(GENERIC, CHR ''g''), (STRING, CHR ''$''), (LIST, CHR ''l''), (SET, CHR ''s''), (HASH, CHR ''h''),
      (ZSET, CHR ''z''), (EXPIRED, CHR ''x''), (EVICTED, CHR ''e''), (STREAM, CHR ''t''), (MODULE, CHR ''d'')]"

definition to_config_string :: "notify_class \<Rightarrow> string" where
  "to_config_string f =
     (if nc_contains f NC_ALL then ''A'' else concat (map (push_if f) class_chars))
     @ push_if f (KEY_MISS, CHR ''m'') @ push_if f (NEW, CHR ''n'')
     @ push_if f (KEYSPACE, CHR ''K'') @ push_if f (KEYEVENT, CHR ''E'')"

definition is_enabled_by :: "notify_class \<Rightarrow> notify_class \<Rightarrow> bool" where
  "is_enabled_by c configured \<longleftrightarrow> nc_intersects configured (KEYSPACE OR KEYEVENT) \<and> nc_intersects configured c"

definition keyspace_channel :: "(int \<Rightarrow> bytes) \<Rightarrow> nat \<Rightarrow> bytes \<Rightarrow> bytes" where
  "keyspace_channel itoa d key = ascii ''__keyspace@'' @ itoa (int d) @ ascii ''__:'' @ key"

definition keyevent_channel :: "(int \<Rightarrow> bytes) \<Rightarrow> nat \<Rightarrow> bytes \<Rightarrow> bytes" where
  "keyevent_channel itoa d event = ascii ''__keyevent@'' @ itoa (int d) @ ascii ''__:'' @ event"

text \<open>The \<open>(channel, message)\<close> pairs handed to the sink, in order; \<open>sink\<close> says whether one is installed.\<close>

definition notify_dispatch ::
  "(int \<Rightarrow> bytes) \<Rightarrow> bool \<Rightarrow> notify_class \<Rightarrow> notify_class \<Rightarrow> bytes \<Rightarrow> nat \<Rightarrow> bytes \<Rightarrow> (bytes \<times> bytes) list" where
  "notify_dispatch itoa sink configured c event d key =
     (if \<not> is_enabled_by c configured then []
      else if \<not> sink then []
      else (if nc_contains configured KEYSPACE then [(keyspace_channel itoa d key, event)] else [])
         @ (if nc_contains configured KEYEVENT then [(keyevent_channel itoa d event, key)] else []))"

subsection \<open>Lemmas\<close>

lemmas class_defs = KEYSPACE_def KEYEVENT_def GENERIC_def STRING_def LIST_def SET_def HASH_def ZSET_def
  EXPIRED_def EVICTED_def STREAM_def KEY_MISS_def NEW_def MODULE_def

lemma parse_append: "nc_parse_loop (s @ t) f = Option.bind (nc_parse_loop s f) (nc_parse_loop t)"
  by (induction s f rule: nc_parse_loop.induct) (auto split: option.splits)

definition part :: "notify_class \<Rightarrow> notify_class \<Rightarrow> notify_class" where
  "part f flag = (if nc_contains f flag then flag else 0)"

lemma parse_push_if:
  "class_of_char ch = Some flag \<Longrightarrow> nc_parse_loop (push_if f (flag, ch)) acc = Some (acc OR part f flag)"
  by (simp add: push_if_def part_def)

text \<open>Reading back the characters pushed for a list of classes adds the classes contained.\<close>

lemma parse_pushes:
  "list_all (\<lambda>(flag, ch). class_of_char ch = Some flag) ps \<Longrightarrow>
   nc_parse_loop (concat (map (push_if f) ps)) acc = Some (acc OR foldr (\<lambda>(flag, _) a. part f flag OR a) ps 0)"
proof (induction ps arbitrary: acc)
  case (Cons p ps)
  obtain flag ch where p: "p = (flag, ch)" by (cases p)
  then show ?case using Cons.prems by (simp add: parse_append parse_push_if Cons.IH or.assoc)
qed simp

lemma part_single: "part f (push_bit k 1) = f AND push_bit k 1"
proof -
  have "f AND push_bit k 1 = push_bit k 1 \<or> f AND push_bit k 1 = 0"
  proof (cases "bit f k")
    case True
    then have "f AND push_bit k 1 = push_bit k 1" by (intro bit_word_eqI) (auto simp: bit_simps)
    then show ?thesis by simp
  next
    case False
    then have "f AND push_bit k 1 = 0" by (intro bit_word_eqI) (auto simp: bit_simps)
    then show ?thesis by simp
  qed
  then show ?thesis by (auto simp: part_def nc_contains_def)
qed

lemma parts:
  "part f KEYSPACE = f AND KEYSPACE" "part f KEYEVENT = f AND KEYEVENT" "part f GENERIC = f AND GENERIC" "part f STRING = f AND STRING"
  "part f LIST = f AND LIST" "part f SET = f AND SET" "part f HASH = f AND HASH" "part f ZSET = f AND ZSET" "part f EXPIRED = f AND EXPIRED"
  "part f EVICTED = f AND EVICTED" "part f STREAM = f AND STREAM" "part f KEY_MISS = f AND KEY_MISS" "part f NEW = f AND NEW" "part f MODULE = f AND MODULE"
  using part_single [of f 0] part_single [of f 1] part_single [of f 2] part_single [of f 3] part_single [of f 4] part_single [of f 5]
    part_single [of f 6] part_single [of f 7] part_single [of f 8] part_single [of f 9] part_single [of f 10] part_single [of f 11]
    part_single [of f 12] part_single [of f 13]
  by (simp_all add: class_defs)

lemma class_chars_ok: "list_all (\<lambda>(flag, ch). class_of_char ch = Some flag) class_chars"
  by (simp add: class_chars_def class_of_char_def)

lemma class_chars_parts: "foldr (\<lambda>(flag, _) a. part f flag OR a) class_chars 0 = f AND NC_ALL"
  by (simp add: class_chars_def parts NC_ALL_def bit.conj_disj_distrib or.assoc)

definition known_classes :: notify_class where
  "known_classes = NC_ALL OR KEY_MISS OR NEW OR KEYSPACE OR KEYEVENT"

lemma parse_config_string: "nc_parse (to_config_string f) = Some (f AND known_classes)"
proof -
  have first: "nc_parse_loop (if nc_contains f NC_ALL then ''A'' else concat (map (push_if f) class_chars)) 0 = Some (f AND NC_ALL)"
    using parse_pushes [OF class_chars_ok, of f 0] class_chars_parts [of f]
    by (simp add: class_of_char_def nc_contains_def)
  have chars: "class_of_char CHR ''m'' = Some KEY_MISS" "class_of_char CHR ''n'' = Some NEW"
    "class_of_char CHR ''K'' = Some KEYSPACE" "class_of_char CHR ''E'' = Some KEYEVENT"
    by (simp_all add: class_of_char_def)
  show ?thesis
    unfolding nc_parse_def to_config_string_def parse_append first bind.bind_lunit
    by (simp add: parse_append parse_push_if chars parts known_classes_def bit.conj_disj_distrib or.assoc)
qed

subsection \<open>Properties\<close>

text \<open>The configuration string is faithful: parsing what \<^verbatim>\<open>to_config_string\<close> wrote gives back the
  same classes, the alias \<^verbatim>\<open>A\<close> included.\<close>

theorem notify_config_roundtrip:
  assumes "f AND known_classes = f" shows "nc_parse (to_config_string f) = Some f"
  using parse_config_string [of f] assms by simp

theorem notify_config_roundtrip_witness: "nc_parse (to_config_string (GENERIC OR KEYEVENT)) = Some (GENERIC OR KEYEVENT)"
  by (rule notify_config_roundtrip) (simp add: known_classes_def NC_ALL_def class_defs)

end
