(* ===== verification/Config.thy ===== *)
theory Config
  imports Shard Notify
begin

text \<open>
  Server configuration, from \<^verbatim>\<open>src/src/config.rs\<close>: the configuration record with its defaults, one
  setter per directive, the configuration-file reader and the copy-validate-store update behind
  \<^verbatim>\<open>CONFIG SET\<close>. Text is the UTF-8 bytes of a Rust string, written as a list of characters. Reading a
  file and joining paths are parameters of the reader.
\<close>

subsection \<open>Text primitives of the standard library\<close>

definition char_lower :: "char \<Rightarrow> char" where
  "char_lower c = (if 65 \<le> (of_char c :: nat) \<and> (of_char c :: nat) \<le> 90 then char_of ((of_char c :: nat) + 32) else c)"

definition str_lower :: "string \<Rightarrow> string" where
  "str_lower s = map char_lower s"

text \<open>The number of bytes of the white-space character a text begins with, or 0: the ASCII ones, then
  U+0085, U+00A0, U+1680, U+2000 to U+200A, U+2028, U+2029, U+202F, U+205F and U+3000.\<close>

definition ws_len :: "string \<Rightarrow> nat" where
  "ws_len s =
     (case map (of_char :: char \<Rightarrow> nat) (take 3 s) of
        [] \<Rightarrow> 0
      | x # r \<Rightarrow>
          if x \<in> {9, 10, 11, 12, 13, 32} then 1
          else (case r of
                  [] \<Rightarrow> 0
                | y # r' \<Rightarrow>
                    if x = 0xC2 \<and> y \<in> {0x85, 0xA0} then 2
                    else (case r' of
                            [] \<Rightarrow> 0
                          | z # _ \<Rightarrow>
                              if x = 0xE1 \<and> y = 0x9A \<and> z = 0x80 \<or> x = 0xE2 \<and> y = 0x80 \<and> (0x80 \<le> z \<and> z \<le> 0x8A \<or> z \<in> {0xA8, 0xA9, 0xAF})
                                \<or> x = 0xE2 \<and> y = 0x81 \<and> z = 0x9F \<or> x = 0xE3 \<and> y = 0x80 \<and> z = 0x80
                              then 3 else 0)))"

lemma ws_len_Nil: "0 < ws_len s \<Longrightarrow> s \<noteq> []"
  by (auto simp: ws_len_def)

function trim_start :: "string \<Rightarrow> string" where
  "trim_start s = (if 0 < ws_len s then trim_start (drop (ws_len s) s) else s)"
  by pat_completeness auto
termination
proof (relation "measure length")
  fix s assume "0 < ws_len s"
  with ws_len_Nil [OF this] show "(drop (ws_len s) s, s) \<in> measure length" by simp
qed simp

definition ws_suffix :: "string \<Rightarrow> nat" where
  "ws_suffix s =
     (case filter (\<lambda>k. k \<le> length s \<and> ws_len (drop (length s - k) s) = k) [1, 2, 3] of [] \<Rightarrow> 0 | k # _ \<Rightarrow> k)"

lemma ws_suffix_Nil: "0 < ws_suffix s \<Longrightarrow> s \<noteq> []"
  by (auto simp: ws_suffix_def ws_len_def)

function trim_end :: "string \<Rightarrow> string" where
  "trim_end s = (if 0 < ws_suffix s then trim_end (take (length s - ws_suffix s) s) else s)"
  by pat_completeness auto
termination
proof (relation "measure length")
  fix s assume "0 < ws_suffix s"
  with ws_suffix_Nil [OF this] show "(take (length s - ws_suffix s) s, s) \<in> measure length" by simp
qed simp

declare trim_start.simps [simp del] trim_end.simps [simp del]

definition str_trim :: "string \<Rightarrow> string" where
  "str_trim s = trim_end (trim_start s)"

definition strip_suffix :: "string \<Rightarrow> string \<Rightarrow> string option" where
  "strip_suffix s suf =
     (if length suf \<le> length s \<and> drop (length s - length suf) s = suf then Some (take (length s - length suf) s) else None)"

definition char_digit :: "char \<Rightarrow> nat option" where
  "char_digit c = (if 48 \<le> (of_char c :: nat) \<and> (of_char c :: nat) \<le> 57 then Some (of_char c - 48) else None)"

fun digits_value :: "string \<Rightarrow> nat \<Rightarrow> nat option" where
  "digits_value [] acc = Some acc"
| "digits_value (c # s) acc = (case char_digit c of Some d \<Rightarrow> digits_value s (acc * 10 + d) | None \<Rightarrow> None)"

definition str_parse_nat :: "string \<Rightarrow> nat option" where
  "str_parse_nat s = (if s = [] then None else digits_value s 0)"

definition str_parse_u64 :: "string \<Rightarrow> nat option" where
  "str_parse_u64 s =
     (case str_parse_nat (case s of c # r \<Rightarrow> if c = CHR ''+'' then r else s | [] \<Rightarrow> []) of
        Some n \<Rightarrow> if n < 2 ^ 64 then Some n else None
      | None \<Rightarrow> None)"

definition str_parse_i64 :: "string \<Rightarrow> int option" where
  "str_parse_i64 s =
     (case s of
        c # r \<Rightarrow>
          (case str_parse_nat (if c = CHR ''-'' \<or> c = CHR ''+'' then r else s) of
             Some n \<Rightarrow> let v = (if c = CHR ''-'' then - int n else int n) in if fits 8 v then Some v else None
           | None \<Rightarrow> None)
      | [] \<Rightarrow> None)"

subsection \<open>Enumerations\<close>

datatype maxmemory_policy =
  NoEviction | AllkeysLru | AllkeysLfu | AllkeysRandom | VolatileLru | VolatileLfu | VolatileRandom | VolatileTtl

fun policy_as_str :: "maxmemory_policy \<Rightarrow> string" where
  "policy_as_str NoEviction = ''noeviction''"
| "policy_as_str AllkeysLru = ''allkeys-lru''"
| "policy_as_str AllkeysLfu = ''allkeys-lfu''"
| "policy_as_str AllkeysRandom = ''allkeys-random''"
| "policy_as_str VolatileLru = ''volatile-lru''"
| "policy_as_str VolatileLfu = ''volatile-lfu''"
| "policy_as_str VolatileRandom = ''volatile-random''"
| "policy_as_str VolatileTtl = ''volatile-ttl''"

definition policy_parse :: "string \<Rightarrow> maxmemory_policy option" where
  "policy_parse s =
     map_of [(''noeviction'', NoEviction), (''allkeys-lru'', AllkeysLru), (''allkeys-lfu'', AllkeysLfu),
       (''allkeys-random'', AllkeysRandom), (''volatile-lru'', VolatileLru), (''volatile-lfu'', VolatileLfu),
       (''volatile-random'', VolatileRandom), (''volatile-ttl'', VolatileTtl)] (str_lower s)"

definition policy_is_lfu :: "maxmemory_policy \<Rightarrow> bool" where
  "policy_is_lfu p \<longleftrightarrow> p = AllkeysLfu \<or> p = VolatileLfu"

datatype append_fsync = FsyncAlways | FsyncEverySec | FsyncNo

fun fsync_as_str :: "append_fsync \<Rightarrow> string" where
  "fsync_as_str FsyncAlways = ''always''"
| "fsync_as_str FsyncEverySec = ''everysec''"
| "fsync_as_str FsyncNo = ''no''"

definition fsync_parse :: "string \<Rightarrow> append_fsync option" where
  "fsync_parse s = map_of [(''always'', FsyncAlways), (''everysec'', FsyncEverySec), (''no'', FsyncNo)] (str_lower s)"

record save_point =
  sp_seconds :: nat
  sp_changes :: nat

subsection \<open>The configuration\<close>

record config =
  cfg_port :: nat
  cfg_bind :: "string list"
  cfg_unixsocket :: "string option"
  cfg_tcp_backlog :: int
  cfg_tcp_keepalive :: nat
  cfg_timeout :: nat
  cfg_maxclients :: nat
  cfg_proto_max_bulk_len :: nat
  cfg_databases :: nat
  cfg_shard_count :: nat
  cfg_maxmemory :: nat
  cfg_maxmemory_policy :: maxmemory_policy
  cfg_maxmemory_samples :: u32
  cfg_maxmemory_eviction_tenacity :: u32
  cfg_lfu_log_factor :: u32
  cfg_lfu_decay_time :: u32
  cfg_hash_max_listpack_entries :: nat
  cfg_hash_max_listpack_value :: nat
  cfg_list_max_listpack_size :: int
  cfg_list_compress_depth :: int
  cfg_set_max_intset_entries :: nat
  cfg_set_max_listpack_entries :: nat
  cfg_set_max_listpack_value :: nat
  cfg_zset_max_listpack_entries :: nat
  cfg_zset_max_listpack_value :: nat
  cfg_hll_sparse_max_bytes :: nat
  cfg_stream_node_max_entries :: nat
  cfg_stream_node_max_bytes :: nat
  cfg_dir :: string
  cfg_dbfilename :: string
  cfg_save :: "save_point list"
  cfg_rdbcompression :: bool
  cfg_rdbchecksum :: bool
  cfg_stop_writes_on_bgsave_error :: bool
  cfg_appendonly :: bool
  cfg_appendfilename :: string
  cfg_appenddirname :: string
  cfg_appendfsync :: append_fsync
  cfg_no_appendfsync_on_rewrite :: bool
  cfg_auto_aof_rewrite_percentage :: u32
  cfg_auto_aof_rewrite_min_size :: nat
  cfg_aof_use_rdb_preamble :: bool
  cfg_aof_timestamp_enabled :: bool
  cfg_requirepass :: "string option"
  cfg_notify_keyspace_events :: notify_class
  cfg_loglevel :: string
  cfg_logfile :: string
  cfg_slowlog_log_slower_than :: int
  cfg_slowlog_max_len :: nat
  cfg_latency_monitor_threshold :: nat
  cfg_latency_tracking :: bool
  cfg_activerehashing :: bool
  cfg_activeexpire :: bool
  cfg_lazyfree_lazy_expire :: bool
  cfg_lazyfree_lazy_eviction :: bool
  cfg_lazyfree_lazy_server_del :: bool
  cfg_lazyfree_lazy_user_del :: bool
  cfg_lazyfree_lazy_user_flush :: bool
  cfg_io_threads :: nat
  cfg_enable_protected_configs :: bool
  cfg_enable_debug_command :: bool
  cfg_daemonize :: bool
  cfg_pidfile :: "string option"
  cfg_set_proc_title :: bool

definition config_default :: config where
  "config_default =
     \<lparr>cfg_port = 6379, cfg_bind = [''127.0.0.1'', ''-::1''], cfg_unixsocket = None, cfg_tcp_backlog = 511,
      cfg_tcp_keepalive = 300, cfg_timeout = 0, cfg_maxclients = 10000, cfg_proto_max_bulk_len = 512 * 1024 * 1024,
      cfg_databases = 16, cfg_shard_count = 0, cfg_maxmemory = 0, cfg_maxmemory_policy = NoEviction,
      cfg_maxmemory_samples = 5, cfg_maxmemory_eviction_tenacity = 10, cfg_lfu_log_factor = 10, cfg_lfu_decay_time = 1,
      cfg_hash_max_listpack_entries = 128, cfg_hash_max_listpack_value = 64, cfg_list_max_listpack_size = 128,
      cfg_list_compress_depth = 0, cfg_set_max_intset_entries = 512, cfg_set_max_listpack_entries = 128,
      cfg_set_max_listpack_value = 64, cfg_zset_max_listpack_entries = 128, cfg_zset_max_listpack_value = 64,
      cfg_hll_sparse_max_bytes = 3000, cfg_stream_node_max_entries = 100, cfg_stream_node_max_bytes = 4096,
      cfg_dir = ''.'', cfg_dbfilename = ''dump.rdb'',
      cfg_save = [\<lparr>sp_seconds = 3600, sp_changes = 1\<rparr>, \<lparr>sp_seconds = 300, sp_changes = 100\<rparr>, \<lparr>sp_seconds = 60, sp_changes = 10000\<rparr>],
      cfg_rdbcompression = True, cfg_rdbchecksum = True, cfg_stop_writes_on_bgsave_error = True, cfg_appendonly = False,
      cfg_appendfilename = ''appendonly.aof'', cfg_appenddirname = ''appendonlydir'', cfg_appendfsync = FsyncEverySec,
      cfg_no_appendfsync_on_rewrite = False, cfg_auto_aof_rewrite_percentage = 100,
      cfg_auto_aof_rewrite_min_size = 64 * 1024 * 1024, cfg_aof_use_rdb_preamble = True, cfg_aof_timestamp_enabled = False,
      cfg_requirepass = None, cfg_notify_keyspace_events = 0, cfg_loglevel = ''notice'', cfg_logfile = '''',
      cfg_slowlog_log_slower_than = 10000, cfg_slowlog_max_len = 128, cfg_latency_monitor_threshold = 0,
      cfg_latency_tracking = True, cfg_activerehashing = True, cfg_activeexpire = True, cfg_lazyfree_lazy_expire = False,
      cfg_lazyfree_lazy_eviction = False, cfg_lazyfree_lazy_server_del = False, cfg_lazyfree_lazy_user_del = False,
      cfg_lazyfree_lazy_user_flush = False, cfg_io_threads = 1, cfg_enable_protected_configs = False,
      cfg_enable_debug_command = False, cfg_daemonize = False, cfg_pidfile = None, cfg_set_proc_title = True\<rparr>"


subsection \<open>Directive arguments\<close>

datatype config_error = BadDirective | CNotAnInteger | NotABoolean | Invalid string | Unknown string | IoError

type_synonym setter = "string list \<Rightarrow> config \<Rightarrow> config_error + config"

definition memory_suffix :: "string \<Rightarrow> string \<times> nat" where
  "memory_suffix lower =
     (case strip_suffix lower ''kb'' of Some d \<Rightarrow> (d, 1024)
      | None \<Rightarrow> case strip_suffix lower ''mb'' of Some d \<Rightarrow> (d, 1024 * 1024)
      | None \<Rightarrow> case strip_suffix lower ''gb'' of Some d \<Rightarrow> (d, 1024 * 1024 * 1024)
      | None \<Rightarrow> case strip_suffix lower ''k'' of Some d \<Rightarrow> (d, 1000)
      | None \<Rightarrow> case strip_suffix lower ''m'' of Some d \<Rightarrow> (d, 1000000)
      | None \<Rightarrow> case strip_suffix lower ''g'' of Some d \<Rightarrow> (d, 1000000000)
      | None \<Rightarrow> case strip_suffix lower ''b'' of Some d \<Rightarrow> (d, 1)
      | None \<Rightarrow> (lower, 1))"

definition parse_memory :: "string \<Rightarrow> nat option" where
  "parse_memory s0 =
     (let s = str_trim s0 in
      if s = [] then None
      else (case memory_suffix (str_lower s) of (ds, mult) \<Rightarrow>
              Option.bind (str_parse_u64 (str_trim ds)) (\<lambda>n. checked_mul n mult)))"

definition unquote :: "string \<Rightarrow> string" where
  "unquote s =
     (if 2 \<le> length s \<and> ((hd s = CHR 0x22 \<and> List.last s = CHR 0x22) \<or> (hd s = CHR 0x27 \<and> List.last s = CHR 0x27))
      then butlast (tl s) else s)"

definition one_arg :: "string list \<Rightarrow> config_error + string" where
  "one_arg args = ok_or (case args of a # _ \<Rightarrow> Some a | [] \<Rightarrow> None) BadDirective"

definition to_int :: "string \<Rightarrow> config_error + int" where
  "to_int s = ok_or (str_parse_i64 s) CNotAnInteger"

definition to_mem :: "string \<Rightarrow> config_error + nat" where
  "to_mem s = ok_or (parse_memory s) CNotAnInteger"

definition to_bool :: "string \<Rightarrow> config_error + bool" where
  "to_bool s =
     (let l = str_lower s in
      if l \<in> {''yes'', ''true'', ''1''} then Inr True
      else if l \<in> {''no'', ''false'', ''0''} then Inr False
      else Inl NotABoolean)"

definition to_uint :: "string \<Rightarrow> config_error + nat" where
  "to_uint s = rbind (to_int s) (\<lambda>v. if 0 \<le> v then Inr (nat v) else Inl CNotAnInteger)"

definition to_u16 :: "string \<Rightarrow> config_error + nat" where
  "to_u16 s = rbind (to_int s) (\<lambda>v. if 0 \<le> v \<and> v < 65536 then Inr (nat v) else Inl CNotAnInteger)"

definition to_i32 :: "string \<Rightarrow> config_error + int" where
  "to_i32 s = rbind (to_int s) (\<lambda>v. if fits 4 v then Inr v else Inl CNotAnInteger)"

definition to_u32_sat :: "string \<Rightarrow> config_error + u32" where
  "to_u32_sat s = rbind (to_uint s) (\<lambda>v. Inr (of_nat (min v (2 ^ 32 - 1))))"

subsection \<open>Directives, in the order of the source\<close>

definition network_directives :: "(string \<times> setter) list" where
  "network_directives =
     [(''port'', \<lambda>a c. rbind (rbind (one_arg a) to_u16) (\<lambda>v. Inr (c\<lparr>cfg_port := v\<rparr>))),
      (''bind'', \<lambda>a c. if a = [] then Inl BadDirective else Inr (c\<lparr>cfg_bind := a\<rparr>)),
      (''unixsocket'', \<lambda>a c. rbind (one_arg a) (\<lambda>v. Inr (c\<lparr>cfg_unixsocket := Some v\<rparr>))),
      (''tcp-backlog'', \<lambda>a c. rbind (rbind (one_arg a) to_i32) (\<lambda>v. Inr (c\<lparr>cfg_tcp_backlog := v\<rparr>))),
      (''tcp-keepalive'', \<lambda>a c. rbind (rbind (one_arg a) to_uint) (\<lambda>v. Inr (c\<lparr>cfg_tcp_keepalive := v\<rparr>))),
      (''timeout'', \<lambda>a c. rbind (rbind (one_arg a) to_uint) (\<lambda>v. Inr (c\<lparr>cfg_timeout := v\<rparr>))),
      (''maxclients'', \<lambda>a c. rbind (rbind (one_arg a) to_uint) (\<lambda>v. Inr (c\<lparr>cfg_maxclients := v\<rparr>))),
      (''proto-max-bulk-len'', \<lambda>a c. rbind (rbind (one_arg a) to_mem) (\<lambda>v. Inr (c\<lparr>cfg_proto_max_bulk_len := v\<rparr>)))]"

definition keyspace_directives :: "(string \<times> setter) list" where
  "keyspace_directives =
     [(''databases'', \<lambda>a c. rbind (rbind (one_arg a) to_uint) (\<lambda>n.
         if n = 0 then Inl (Invalid ''databases must be >= 1'') else Inr (c\<lparr>cfg_databases := n\<rparr>))),
      (''shard-count'', \<lambda>a c. rbind (rbind (one_arg a) to_uint) (\<lambda>v. Inr (c\<lparr>cfg_shard_count := v\<rparr>)))]"

definition memory_directives :: "(string \<times> setter) list" where
  "memory_directives =
     [(''maxmemory'', \<lambda>a c. rbind (rbind (one_arg a) to_mem) (\<lambda>v. Inr (c\<lparr>cfg_maxmemory := v\<rparr>))),
      (''maxmemory-policy'', \<lambda>a c. rbind (one_arg a) (\<lambda>s.
         rbind (ok_or (policy_parse s) (Invalid (''invalid policy '' @ [CHR 0x27] @ s @ [CHR 0x27])))
           (\<lambda>p. Inr (c\<lparr>cfg_maxmemory_policy := p\<rparr>)))),
      (''maxmemory-samples'', \<lambda>a c. rbind (rbind (one_arg a) to_u32_sat) (\<lambda>v. Inr (c\<lparr>cfg_maxmemory_samples := v\<rparr>))),
      (''maxmemory-eviction-tenacity'', \<lambda>a c. rbind (rbind (one_arg a) to_u32_sat) (\<lambda>v. Inr (c\<lparr>cfg_maxmemory_eviction_tenacity := v\<rparr>))),
      (''lfu-log-factor'', \<lambda>a c. rbind (rbind (one_arg a) to_u32_sat) (\<lambda>v. Inr (c\<lparr>cfg_lfu_log_factor := v\<rparr>))),
      (''lfu-decay-time'', \<lambda>a c. rbind (rbind (one_arg a) to_u32_sat) (\<lambda>v. Inr (c\<lparr>cfg_lfu_decay_time := v\<rparr>)))]"

definition encoding_directives :: "(string \<times> setter) list" where
  "encoding_directives =
     [(''hash-max-listpack-entries'', \<lambda>a c. rbind (rbind (one_arg a) to_uint) (\<lambda>v. Inr (c\<lparr>cfg_hash_max_listpack_entries := v\<rparr>))),
      (''hash-max-ziplist-entries'', \<lambda>a c. rbind (rbind (one_arg a) to_uint) (\<lambda>v. Inr (c\<lparr>cfg_hash_max_listpack_entries := v\<rparr>))),
      (''hash-max-listpack-value'', \<lambda>a c. rbind (rbind (one_arg a) to_uint) (\<lambda>v. Inr (c\<lparr>cfg_hash_max_listpack_value := v\<rparr>))),
      (''hash-max-ziplist-value'', \<lambda>a c. rbind (rbind (one_arg a) to_uint) (\<lambda>v. Inr (c\<lparr>cfg_hash_max_listpack_value := v\<rparr>))),
      (''list-max-listpack-size'', \<lambda>a c. rbind (rbind (one_arg a) to_int) (\<lambda>v. Inr (c\<lparr>cfg_list_max_listpack_size := v\<rparr>))),
      (''list-max-ziplist-size'', \<lambda>a c. rbind (rbind (one_arg a) to_int) (\<lambda>v. Inr (c\<lparr>cfg_list_max_listpack_size := v\<rparr>))),
      (''list-compress-depth'', \<lambda>a c. rbind (rbind (one_arg a) to_i32) (\<lambda>v. Inr (c\<lparr>cfg_list_compress_depth := v\<rparr>))),
      (''set-max-intset-entries'', \<lambda>a c. rbind (rbind (one_arg a) to_uint) (\<lambda>v. Inr (c\<lparr>cfg_set_max_intset_entries := v\<rparr>))),
      (''set-max-listpack-entries'', \<lambda>a c. rbind (rbind (one_arg a) to_uint) (\<lambda>v. Inr (c\<lparr>cfg_set_max_listpack_entries := v\<rparr>))),
      (''set-max-listpack-value'', \<lambda>a c. rbind (rbind (one_arg a) to_uint) (\<lambda>v. Inr (c\<lparr>cfg_set_max_listpack_value := v\<rparr>))),
      (''zset-max-listpack-entries'', \<lambda>a c. rbind (rbind (one_arg a) to_uint) (\<lambda>v. Inr (c\<lparr>cfg_zset_max_listpack_entries := v\<rparr>))),
      (''zset-max-ziplist-entries'', \<lambda>a c. rbind (rbind (one_arg a) to_uint) (\<lambda>v. Inr (c\<lparr>cfg_zset_max_listpack_entries := v\<rparr>))),
      (''zset-max-listpack-value'', \<lambda>a c. rbind (rbind (one_arg a) to_uint) (\<lambda>v. Inr (c\<lparr>cfg_zset_max_listpack_value := v\<rparr>))),
      (''zset-max-ziplist-value'', \<lambda>a c. rbind (rbind (one_arg a) to_uint) (\<lambda>v. Inr (c\<lparr>cfg_zset_max_listpack_value := v\<rparr>))),
      (''hll-sparse-max-bytes'', \<lambda>a c. rbind (rbind (one_arg a) to_uint) (\<lambda>v. Inr (c\<lparr>cfg_hll_sparse_max_bytes := v\<rparr>))),
      (''stream-node-max-entries'', \<lambda>a c. rbind (rbind (one_arg a) to_uint) (\<lambda>v. Inr (c\<lparr>cfg_stream_node_max_entries := v\<rparr>))),
      (''stream-node-max-bytes'', \<lambda>a c. rbind (rbind (one_arg a) to_uint) (\<lambda>v. Inr (c\<lparr>cfg_stream_node_max_bytes := v\<rparr>)))]"

fun save_pairs :: "string list \<Rightarrow> save_point list \<Rightarrow> config_error + save_point list" where
  "save_pairs (s # c # rest) acc =
     rbind (to_uint s) (\<lambda>sec. rbind (to_uint c) (\<lambda>chg. save_pairs rest (acc @ [\<lparr>sp_seconds = sec, sp_changes = chg\<rparr>])))"
| "save_pairs _ acc = Inr acc"

definition set_save :: setter where
  "set_save a c =
     (if a = [[]] then Inr (c\<lparr>cfg_save := []\<rparr>)
      else if length a mod 2 = 0 \<and> a \<noteq> [] then rbind (save_pairs a (cfg_save c)) (\<lambda>sv. Inr (c\<lparr>cfg_save := sv\<rparr>))
      else Inl BadDirective)"

definition persistence_directives :: "(string \<times> setter) list" where
  "persistence_directives =
     [(''dir'', \<lambda>a c. rbind (one_arg a) (\<lambda>v. Inr (c\<lparr>cfg_dir := v\<rparr>))),
      (''dbfilename'', \<lambda>a c. rbind (one_arg a) (\<lambda>v. Inr (c\<lparr>cfg_dbfilename := v\<rparr>))),
      (''save'', set_save),
      (''rdbcompression'', \<lambda>a c. rbind (rbind (one_arg a) to_bool) (\<lambda>v. Inr (c\<lparr>cfg_rdbcompression := v\<rparr>))),
      (''rdbchecksum'', \<lambda>a c. rbind (rbind (one_arg a) to_bool) (\<lambda>v. Inr (c\<lparr>cfg_rdbchecksum := v\<rparr>))),
      (''stop-writes-on-bgsave-error'', \<lambda>a c. rbind (rbind (one_arg a) to_bool) (\<lambda>v. Inr (c\<lparr>cfg_stop_writes_on_bgsave_error := v\<rparr>))),
      (''appendonly'', \<lambda>a c. rbind (rbind (one_arg a) to_bool) (\<lambda>v. Inr (c\<lparr>cfg_appendonly := v\<rparr>))),
      (''appendfilename'', \<lambda>a c. rbind (one_arg a) (\<lambda>v. Inr (c\<lparr>cfg_appendfilename := unquote v\<rparr>))),
      (''appenddirname'', \<lambda>a c. rbind (one_arg a) (\<lambda>v. Inr (c\<lparr>cfg_appenddirname := unquote v\<rparr>))),
      (''appendfsync'', \<lambda>a c. rbind (one_arg a) (\<lambda>s.
         rbind (ok_or (fsync_parse s) (Invalid ''invalid appendfsync'')) (\<lambda>p. Inr (c\<lparr>cfg_appendfsync := p\<rparr>)))),
      (''no-appendfsync-on-rewrite'', \<lambda>a c. rbind (rbind (one_arg a) to_bool) (\<lambda>v. Inr (c\<lparr>cfg_no_appendfsync_on_rewrite := v\<rparr>))),
      (''auto-aof-rewrite-percentage'', \<lambda>a c. rbind (rbind (one_arg a) to_u32_sat) (\<lambda>v. Inr (c\<lparr>cfg_auto_aof_rewrite_percentage := v\<rparr>))),
      (''auto-aof-rewrite-min-size'', \<lambda>a c. rbind (rbind (one_arg a) to_mem) (\<lambda>v. Inr (c\<lparr>cfg_auto_aof_rewrite_min_size := v\<rparr>))),
      (''aof-use-rdb-preamble'', \<lambda>a c. rbind (rbind (one_arg a) to_bool) (\<lambda>v. Inr (c\<lparr>cfg_aof_use_rdb_preamble := v\<rparr>))),
      (''aof-timestamp-enabled'', \<lambda>a c. rbind (rbind (one_arg a) to_bool) (\<lambda>v. Inr (c\<lparr>cfg_aof_timestamp_enabled := v\<rparr>)))]"

definition service_directives :: "(string \<times> setter) list" where
  "service_directives =
     [(''requirepass'', \<lambda>a c. rbind (one_arg a) (\<lambda>v. Inr (c\<lparr>cfg_requirepass := if v = [] then None else Some v\<rparr>))),
      (''notify-keyspace-events'', \<lambda>a c. rbind (one_arg a) (\<lambda>s.
         rbind (ok_or (nc_parse s) (Invalid (''Invalid event class character. Some possible classes are: '' @ [CHR 0x27] @ ''g$lshzxeKE'' @ [CHR 0x27])))
           (\<lambda>p. Inr (c\<lparr>cfg_notify_keyspace_events := p\<rparr>)))),
      (''loglevel'', \<lambda>a c. rbind (one_arg a) (\<lambda>v. Inr (c\<lparr>cfg_loglevel := v\<rparr>))),
      (''logfile'', \<lambda>a c. rbind (one_arg a) (\<lambda>v. Inr (c\<lparr>cfg_logfile := unquote v\<rparr>))),
      (''slowlog-log-slower-than'', \<lambda>a c. rbind (rbind (one_arg a) to_int) (\<lambda>v. Inr (c\<lparr>cfg_slowlog_log_slower_than := v\<rparr>))),
      (''slowlog-max-len'', \<lambda>a c. rbind (rbind (one_arg a) to_uint) (\<lambda>v. Inr (c\<lparr>cfg_slowlog_max_len := v\<rparr>))),
      (''latency-monitor-threshold'', \<lambda>a c. rbind (rbind (one_arg a) to_uint) (\<lambda>v. Inr (c\<lparr>cfg_latency_monitor_threshold := v\<rparr>))),
      (''latency-tracking'', \<lambda>a c. rbind (rbind (one_arg a) to_bool) (\<lambda>v. Inr (c\<lparr>cfg_latency_tracking := v\<rparr>)))]"

definition misc_directives :: "(string \<times> setter) list" where
  "misc_directives =
     [(''activerehashing'', \<lambda>a c. rbind (rbind (one_arg a) to_bool) (\<lambda>v. Inr (c\<lparr>cfg_activerehashing := v\<rparr>))),
      (''activeexpire'', \<lambda>a c. rbind (rbind (one_arg a) to_bool) (\<lambda>v. Inr (c\<lparr>cfg_activeexpire := v\<rparr>))),
      (''lazyfree-lazy-expire'', \<lambda>a c. rbind (rbind (one_arg a) to_bool) (\<lambda>v. Inr (c\<lparr>cfg_lazyfree_lazy_expire := v\<rparr>))),
      (''lazyfree-lazy-eviction'', \<lambda>a c. rbind (rbind (one_arg a) to_bool) (\<lambda>v. Inr (c\<lparr>cfg_lazyfree_lazy_eviction := v\<rparr>))),
      (''lazyfree-lazy-server-del'', \<lambda>a c. rbind (rbind (one_arg a) to_bool) (\<lambda>v. Inr (c\<lparr>cfg_lazyfree_lazy_server_del := v\<rparr>))),
      (''lazyfree-lazy-user-del'', \<lambda>a c. rbind (rbind (one_arg a) to_bool) (\<lambda>v. Inr (c\<lparr>cfg_lazyfree_lazy_user_del := v\<rparr>))),
      (''lazyfree-lazy-user-flush'', \<lambda>a c. rbind (rbind (one_arg a) to_bool) (\<lambda>v. Inr (c\<lparr>cfg_lazyfree_lazy_user_flush := v\<rparr>))),
      (''io-threads'', \<lambda>a c. rbind (rbind (one_arg a) to_uint) (\<lambda>v. Inr (c\<lparr>cfg_io_threads := v\<rparr>))),
      (''enable-protected-configs'', \<lambda>a c. rbind (rbind (one_arg a) to_bool) (\<lambda>v. Inr (c\<lparr>cfg_enable_protected_configs := v\<rparr>))),
      (''enable-debug-command'', \<lambda>a c. rbind (rbind (one_arg a) to_bool) (\<lambda>v. Inr (c\<lparr>cfg_enable_debug_command := v\<rparr>))),
      (''daemonize'', \<lambda>a c. rbind (rbind (one_arg a) to_bool) (\<lambda>v. Inr (c\<lparr>cfg_daemonize := v\<rparr>))),
      (''pidfile'', \<lambda>a c. rbind (one_arg a) (\<lambda>v. Inr (c\<lparr>cfg_pidfile := Some v\<rparr>))),
      (''set-proc-title'', \<lambda>a c. rbind (rbind (one_arg a) to_bool) (\<lambda>v. Inr (c\<lparr>cfg_set_proc_title := v\<rparr>)))]"

definition ignored_directives :: "string list" where
  "ignored_directives =
     [''protected-mode'', ''supervised'', ''always-show-logo'', ''syslog-enabled'', ''repl-diskless-sync'', ''repl-diskless-load'', ''replica-read-only'', ''replica-serve-stale-data'', ''repl-disable-tcp-nodelay'', ''acllog-max-len'', ''aclfile'', ''dynamic-hz'', ''hz'', ''crash-log-enabled'', ''propagation-error-behavior'', ''shutdown-on-sigterm'', ''locale-collate'']"

definition directives :: "(string \<times> setter) list" where
  "directives = network_directives @ keyspace_directives @ memory_directives @ encoding_directives
     @ persistence_directives @ service_directives @ misc_directives"

definition config_apply :: "config \<Rightarrow> string \<Rightarrow> string list \<Rightarrow> config_error + config" where
  "config_apply c name args =
     (let lname = str_lower name in
      case map_of directives lname of
        Some f \<Rightarrow> f args c
      | None \<Rightarrow> if lname \<in> set ignored_directives then Inr c else Inl (Unknown lname))"

definition config_validate :: "config \<Rightarrow> config_error + unit" where
  "config_validate c =
     (if cfg_databases c = 0 then Inl (Invalid ''databases must be >= 1'')
      else if cfg_maxmemory_samples c = 0 then Inl (Invalid ''maxmemory-samples must be >= 1'')
      else Inr ())"

text \<open>\<^verbatim>\<open>ConfigHandle::update\<close>: change a copy, validate it, store it. On an error the stored value stays.\<close>

definition config_update :: "config \<Rightarrow> (config \<Rightarrow> config_error + config) \<Rightarrow> (config_error + unit) \<times> config" where
  "config_update stored f =
     (case f stored of
        Inl e \<Rightarrow> (Inl e, stored)
      | Inr c \<Rightarrow> (case config_validate c of Inl e \<Rightarrow> (Inl e, stored) | Inr _ \<Rightarrow> (Inr (), c)))"

definition effective_shard_count :: "nat \<Rightarrow> config \<Rightarrow> nat" where
  "effective_shard_count cpus c =
     next_power_of_two (max (if cfg_shard_count c = 0 then cpus else cfg_shard_count c) 1)"

subsection \<open>Reading configuration text\<close>

text \<open>\<open>split_line\<close>: the state of the loop is the current token, the two quote flags and whether a
  token has started.\<close>

function split_line_loop :: "string \<Rightarrow> string list \<Rightarrow> string \<Rightarrow> bool \<Rightarrow> bool \<Rightarrow> bool \<Rightarrow> string list" where
  "split_line_loop [] acc cur dq sq started = (if started \<or> cur \<noteq> [] then acc @ [cur] else acc)"
| "split_line_loop (c # s) acc cur dq sq started =
     (if c = CHR 0x5C \<and> dq then
        (case s of
           [] \<Rightarrow> split_line_loop [] acc cur dq sq started
         | n # s' \<Rightarrow>
             split_line_loop s' acc
               (cur @ [if n = CHR ''n'' then CHR 0x0A else if n = CHR ''r'' then CHR 0x0D else if n = CHR ''t'' then CHR 0x09 else n])
               dq sq started)
      else if c = CHR 0x22 \<and> \<not> sq then split_line_loop s acc cur (\<not> dq) sq True
      else if c = CHR 0x27 \<and> \<not> dq then split_line_loop s acc cur dq (\<not> sq) True
      else if 0 < ws_len (c # s) \<and> \<not> dq \<and> \<not> sq then
        (if started \<or> cur \<noteq> [] then split_line_loop (drop (ws_len (c # s) - 1) s) (acc @ [cur]) [] dq sq False
         else split_line_loop (drop (ws_len (c # s) - 1) s) acc cur dq sq started)
      else split_line_loop s acc (cur @ [c]) dq sq True)"
  by pat_completeness auto
termination
  by (relation "measure (\<lambda>(s, acc, cur, dq, sq, started). length s)") auto

definition split_line :: "string \<Rightarrow> string list" where
  "split_line l = split_line_loop l [] [] False False False"

fun str_lines :: "string \<Rightarrow> string \<Rightarrow> string list" where
  "str_lines [] cur = (if cur = [] then [] else [cur])"
| "str_lines (c # s) cur = (if c = CHR 0x0A then cur # str_lines s [] else str_lines s (cur @ [c]))"

text \<open>Files are read through \<open>read_file\<close>, which gives the text and the directory the file is in;
  \<open>join\<close> resolves a path against a directory. \<^verbatim>\<open>include\<close> recurses, so the reader takes fuel: \<open>None\<close>
  when it runs out.\<close>

fun load_lines :: "(string \<Rightarrow> (string \<times> string option) option) \<Rightarrow> (string \<Rightarrow> string \<Rightarrow> string) \<Rightarrow> nat \<Rightarrow> string option
    \<Rightarrow> string list \<Rightarrow> config \<Rightarrow> (config_error + config) option"
  and load_file :: "(string \<Rightarrow> (string \<times> string option) option) \<Rightarrow> (string \<Rightarrow> string \<Rightarrow> string) \<Rightarrow> nat \<Rightarrow> string
    \<Rightarrow> config \<Rightarrow> (config_error + config) option" where
  "load_lines rd join fuel base [] c = Some (Inr c)"
| "load_lines rd join fuel base (raw # rest) c =
     (let l = str_trim raw in
      if l = [] \<or> hd l = CHR ''#'' then load_lines rd join fuel base rest c
      else (case split_line l of
              [] \<Rightarrow> load_lines rd join fuel base rest c
            | name # args \<Rightarrow>
                if str_lower name = ''include'' then
                  (case args of
                     [] \<Rightarrow> load_lines rd join fuel base rest c
                   | rel # _ \<Rightarrow>
                       (case load_file rd join fuel (case base of Some b \<Rightarrow> join b rel | None \<Rightarrow> rel) c of
                          Some (Inr c) \<Rightarrow> load_lines rd join fuel base rest c
                        | r \<Rightarrow> r))
                else (case config_apply c name args of
                        Inl e \<Rightarrow> Some (Inl e)
                      | Inr c \<Rightarrow> load_lines rd join fuel base rest c)))"
| "load_file rd join 0 path c = None"
| "load_file rd join (Suc fuel) path c =
     (case rd path of
        None \<Rightarrow> Some (Inl IoError)
      | Some (txt, parent) \<Rightarrow> load_lines rd join fuel parent (str_lines txt []) c)"

text \<open>\<^verbatim>\<open>Config::bind_addrs\<close>: the optional-address prefix is stripped and a star is the wildcard address.\<close>

definition bind_addrs :: "config \<Rightarrow> string list" where
  "bind_addrs c =
     map (\<lambda>b. if b = ''*'' then ''0.0.0.0'' else b) (map (dropWhile (\<lambda>ch. ch = CHR ''-'')) (cfg_bind c))"

subsection \<open>Command line\<close>

record cli =
  config_file :: "string option"
  overrides :: "string list"

text \<open>\<open>None\<close> stands for the help and version texts, after which the process exits.\<close>

definition cli_from_args :: "string list \<Rightarrow> cli option" where
  "cli_from_args args =
     (if ''--help'' \<in> set args \<or> ''-h'' \<in> set args then None
      else if ''--version'' \<in> set args \<or> ''-V'' \<in> set args then None
      else (case args of
              [] \<Rightarrow> Some \<lparr>config_file = None, overrides = []\<rparr>
            | a # rest \<Rightarrow>
                if take 1 a \<noteq> ''-'' then Some \<lparr>config_file = Some a, overrides = rest\<rparr>
                else Some \<lparr>config_file = None, overrides = args\<rparr>))"

definition is_negative_number :: "string \<Rightarrow> bool" where
  "is_negative_number s \<longleftrightarrow> take 2 s = ''--'' \<and> str_parse_i64 (drop 2 s) \<noteq> None"

definition starts_override :: "string \<Rightarrow> bool" where
  "starts_override s \<longleftrightarrow> take 2 s = ''--'' \<and> length s > 2 \<and> \<not> is_negative_number s"

function apply_overrides :: "config \<Rightarrow> string list \<Rightarrow> config_error + config" where
  "apply_overrides c [] = Inr c"
| "apply_overrides c (tok # rest) =
     (if take 2 tok \<noteq> ''--'' then Inl (Invalid (''Bad directive or wrong number of arguments: '' @ tok))
      else
        (let name = drop 2 tok;
             args = takeWhile (\<lambda>s. \<not> starts_override s) rest;
             rest' = dropWhile (\<lambda>s. \<not> starts_override s) rest;
             c = (if str_lower name = ''save'' then c\<lparr>cfg_save := []\<rparr> else c)
         in if str_lower name = ''save'' \<and> args = [[]] then apply_overrides c rest'
            else rbind (config_apply c name args) (\<lambda>c. apply_overrides c rest')))"
  by pat_completeness auto
termination
  by (relation "measure (\<lambda>(c, ts). length ts)") (auto simp: length_dropWhile_le less_Suc_eq_le)

definition into_config :: "(string \<Rightarrow> (string \<times> string option) option) \<Rightarrow> (string \<Rightarrow> string \<Rightarrow> string) \<Rightarrow> nat \<Rightarrow> cli
    \<Rightarrow> (config_error + config) option" where
  "into_config rd join fuel cl =
     (case (case config_file cl of Some path \<Rightarrow> load_file rd join fuel path config_default | None \<Rightarrow> Some (Inr config_default)) of
        None \<Rightarrow> None
      | Some r \<Rightarrow>
          Some (rbind r (\<lambda>c. rbind (apply_overrides c (overrides cl)) (\<lambda>c. rbind (config_validate c) (\<lambda>_. Inr c)))))"

end
