(* ===== verification/Config_Proofs.thy ===== *)
theory Config_Proofs
  imports Config
begin

text \<open>
  Theorems about the configuration: a quoted line is split back into its words, loading a file ends
  when the include files are not cyclic and never ends on a file that includes itself, directives are
  idempotent and keep a validated configuration valid.
\<close>

subsection \<open>Splitting a quoted line\<close>

text \<open>The rendering a line of words has: each in double quotes, with the quote and the backslash
  escaped.\<close>

definition quote_char :: "char \<Rightarrow> string" where
  "quote_char c = (if c = CHR 0x22 \<or> c = CHR 0x5C then [CHR 0x5C, c] else [c])"

definition quote_word :: "string \<Rightarrow> string" where
  "quote_word w = CHR 0x22 # concat (map quote_char w) @ [CHR 0x22]"

fun quote_line :: "string list \<Rightarrow> string" where
  "quote_line [] = []"
| "quote_line (w # ws) = quote_word w @ CHR '' '' # quote_line ws"

lemma split_quoted_chars:
  "split_line_loop (concat (map quote_char w) @ CHR 0x22 # s) acc cur True False st = split_line_loop (CHR 0x22 # s) acc (cur @ w) True False (st \<or> w \<noteq> [])"
  if "st"
  using that
proof (induction w arbitrary: cur)
  case (Cons c w)
  then show ?case by (auto simp: quote_char_def simp del: split_line_loop.simps(1))
qed simp

lemma split_quoted_word:
  "split_line_loop (quote_word w @ CHR '' '' # s) acc [] False False False = split_line_loop s (acc @ [w]) [] False False False"
  by (simp add: quote_word_def split_quoted_chars ws_len_def)

lemma split_quoted_line:
  "split_line_loop (quote_line ws) acc [] False False False = acc @ ws"
  by (induction ws arbitrary: acc) (simp_all add: split_quoted_word)

subsection \<open>Include files\<close>

definition include_target :: "(string \<Rightarrow> string \<Rightarrow> string) \<Rightarrow> string option \<Rightarrow> string \<Rightarrow> string option" where
  "include_target join base raw =
     (let l = str_trim raw in
      if l = [] \<or> hd l = CHR ''#'' then None
      else (case split_line l of
              name # rel # _ \<Rightarrow>
                if str_lower name = ''include'' then Some (case base of Some b \<Rightarrow> join b rel | None \<Rightarrow> rel) else None
            | _ \<Rightarrow> None))"

lemma load_lines_step:
  "load_lines rd join fuel base (raw # rest) c =
     (case include_target join base raw of
        Some q \<Rightarrow> (case load_file rd join fuel q c of Some (Inr c) \<Rightarrow> load_lines rd join fuel base rest c | r \<Rightarrow> r)
      | None \<Rightarrow>
          (case split_line (str_trim raw) of
             [] \<Rightarrow> load_lines rd join fuel base rest c
           | name # args \<Rightarrow>
               if str_trim raw = [] \<or> hd (str_trim raw) = CHR ''#'' \<or> str_lower name = ''include'' then load_lines rd join fuel base rest c
               else (case config_apply c name args of Inl e \<Rightarrow> Some (Inl e) | Inr c \<Rightarrow> load_lines rd join fuel base rest c)))"
  by (auto simp: include_target_def Let_def split: list.split)

declare load_lines.simps(2) [simp del]

lemma load_lines_returns:
  assumes "\<And>raw q c. raw \<in> set ls \<Longrightarrow> include_target join base raw = Some q \<Longrightarrow> load_file rd join fuel q c \<noteq> None"
  shows "load_lines rd join fuel base ls c \<noteq> None"
  using assms
proof (induction ls arbitrary: c)
  case (Cons raw ls)
  have IH: "load_lines rd join fuel base ls c \<noteq> None" for c using Cons.prems by (intro Cons.IH) auto
  show ?case
  proof (cases "include_target join base raw")
    case None
    then show ?thesis using IH by (auto simp: load_lines_step split: list.splits sum.splits)
  next
    case (Some q)
    then obtain r where "load_file rd join fuel q c = Some r" using Cons.prems [of raw q c] by auto
    then show ?thesis using Some IH by (auto simp: load_lines_step split: sum.splits)
  qed
qed simp

lemma load_file_returns_aux:
  assumes "\<And>p body base raw q. rd p = Some (body, base) \<Longrightarrow> raw \<in> set (str_lines body []) \<Longrightarrow> include_target join base raw = Some q \<Longrightarrow> depth q < depth p"
  shows "depth p < fuel \<Longrightarrow> load_file rd join fuel p c \<noteq> None"
proof (induction fuel arbitrary: p c)
  case (Suc fuel)
  have "load_lines rd join fuel base (str_lines body []) c \<noteq> None" if "rd p = Some (body, base)" for body base
    using assms [OF that] Suc by (intro load_lines_returns) fastforce
  then show ?case by (auto split: option.split)
qed simp

lemma load_file_cycle:
  assumes "rd p = Some (body, base)" and "str_lines body [] = raw # ls" and "include_target join base raw = Some p"
  shows "load_file rd join fuel p c = None"
proof (induction fuel arbitrary: c)
  case (Suc fuel)
  then show ?case using assms by (simp add: load_lines_step)
qed simp

subsection \<open>Directives\<close>

definition idempotent :: "setter \<Rightarrow> bool" where
  "idempotent f \<longleftrightarrow> (\<forall>a c c'. f a c = Inr c' \<longrightarrow> f a c' = Inr c')"

definition keeps_valid :: "setter \<Rightarrow> bool" where
  "keeps_valid f \<longleftrightarrow> (\<forall>a c c'. f a c = Inr c' \<longrightarrow> cfg_databases c \<noteq> 0 \<longrightarrow> cfg_databases c' \<noteq> 0)"

lemma rbind_Inr: "rbind r f = Inr y \<longleftrightarrow> (\<exists>x. r = Inr x \<and> f x = Inr y)"
  by (cases r) auto

lemma set_save_valid: "set_save a c = Inr c' \<Longrightarrow> cfg_databases c' = cfg_databases c"
  by (auto simp: set_save_def rbind_Inr split: if_splits)

lemma idempotent_intros:
  "(\<And>v c. u1 v (u1 v c) = u1 v c) \<Longrightarrow> idempotent (\<lambda>a c. rbind (f1 a) (\<lambda>v. Inr (u1 v c)))"
  "(\<And>v c. u2 v (u2 v c) = u2 v c) \<Longrightarrow> idempotent (\<lambda>a c. rbind (f2 a) (\<lambda>s. rbind (g s) (\<lambda>v. Inr (u2 v c))))"
  "(\<And>v c. u3 v (u3 v c) = u3 v c) \<Longrightarrow> idempotent (\<lambda>a c. rbind (f3 a) (\<lambda>v. if P3 v then Inl e else Inr (u3 v c)))"
  "(\<And>v c. u4 v (u4 v c) = u4 v c) \<Longrightarrow> idempotent (\<lambda>a c. if P4 a then Inl e else Inr (u4 a c))"
  by (auto simp: idempotent_def rbind_Inr)

lemma keeps_valid_intros:
  "(\<And>v c. cfg_databases (u1 v c) = cfg_databases c) \<Longrightarrow> keeps_valid (\<lambda>a c. rbind (f1 a) (\<lambda>v. Inr (u1 v c)))"
  "(\<And>v c. cfg_databases (u2 v c) = cfg_databases c) \<Longrightarrow> keeps_valid (\<lambda>a c. rbind (f2 a) (\<lambda>s. rbind (g s) (\<lambda>v. Inr (u2 v c))))"
  "(\<And>v c. \<not> P3 v \<Longrightarrow> cfg_databases (u3 v c) \<noteq> 0) \<Longrightarrow> keeps_valid (\<lambda>a c. rbind (f3 a) (\<lambda>v. if P3 v then Inl e else Inr (u3 v c)))"
  "(\<And>v c. cfg_databases (u4 v c) = cfg_databases c) \<Longrightarrow> keeps_valid (\<lambda>a c. if P4 a then Inl e else Inr (u4 a c))"
  by (auto simp: keeps_valid_def rbind_Inr)

lemmas directive_groups = network_directives_def keyspace_directives_def memory_directives_def encoding_directives_def
  persistence_directives_def service_directives_def misc_directives_def list.pred_inject prod.case

lemma directives_idempotent: "list_all (\<lambda>(n, f). n \<noteq> ''save'' \<longrightarrow> idempotent f) directives"
  unfolding directives_def list_all_append directive_groups
  by (intro conjI TrueI impI idempotent_intros) simp_all

lemma directives_valid: "list_all (\<lambda>(n, f). keeps_valid f) directives"
  unfolding directives_def list_all_append directive_groups
  by (intro conjI TrueI impI keeps_valid_intros) (simp_all add: keeps_valid_def set_save_valid)

lemma map_of_list_all: "list_all (\<lambda>(n, f). P n f) xs \<Longrightarrow> map_of xs n = Some f \<Longrightarrow> P n f"
  by (induction xs) (auto split: if_splits)

lemma config_apply_idem: "config_apply c name args = Inr c' \<Longrightarrow> str_lower name \<noteq> ''save'' \<Longrightarrow> config_apply c' name args = Inr c'"
  using map_of_list_all [OF directives_idempotent, of "str_lower name"]
  by (auto simp: config_apply_def idempotent_def Let_def split: option.splits if_splits)

lemma config_apply_databases: "config_apply c name args = Inr c' \<Longrightarrow> cfg_databases c \<noteq> 0 \<Longrightarrow> cfg_databases c' \<noteq> 0"
  using map_of_list_all [OF directives_valid, of "str_lower name"]
  by (fastforce simp: config_apply_def keeps_valid_def Let_def split: option.splits if_splits)

lemma config_save_one: "config_apply c ''save'' [v] = (if v = [] then Inr (c\<lparr>cfg_save := []\<rparr>) else Inl BadDirective)"
proof -
  have "map_of directives ''save'' = Some set_save"
    by (simp add: directives_def directive_groups)
  moreover have "str_lower ''save'' = ''save''" by (simp add: str_lower_def char_lower_def)
  ultimately show ?thesis by (simp add: config_apply_def set_save_def)
qed

subsection \<open>Properties\<close>

text \<open>A configuration line whose words are written in double quotes, with the quote and the
  backslash escaped, is split back into exactly those words, whatever characters they hold.\<close>

theorem split_line_quoted: "split_line (quote_line ws) = ws"
  using split_quoted_line [of ws "[]"] by (simp add: split_line_def)

text \<open>Loading a configuration file ends: when the files include each other without a cycle (some
  depth falls along every include), fuel above the depth of the file always gives a result.\<close>

theorem load_file_returns:
  assumes "\<forall>p body base raw q. rd p = Some (body, base) \<and> raw \<in> set (str_lines body []) \<and> include_target join base raw = Some q
      \<longrightarrow> depth q < depth p"
    and "depth p < fuel"
  shows "\<exists>r. load_file rd join fuel p c = Some r"
proof -
  have "load_file rd join fuel p c \<noteq> None" using load_file_returns_aux [of rd join depth p fuel c] assms by blast
  then show ?thesis by simp
qed

definition demo_files :: "string \<Rightarrow> (string \<times> string option) option" where
  "demo_files p = (if p = ''a'' then Some (''include b'', None) else if p = ''b'' then Some (''port 1'', None) else None)"

lemma demo_includes:
  "include_target (\<lambda>b r. r) None ''include b'' = Some ''b''" "include_target (\<lambda>b r. r) None ''port 1'' = None"
  by code_simp+

theorem load_file_returns_witness: "\<exists>r. load_file demo_files (\<lambda>b r. r) 3 ''a'' config_default = Some r"
proof (rule load_file_returns [where depth = "\<lambda>p. if p = ''a'' then 1 else 0"])
  show "\<forall>p body base raw q. demo_files p = Some (body, base) \<and> raw \<in> set (str_lines body []) \<and> include_target (\<lambda>b r. r) base raw = Some q
      \<longrightarrow> (if q = ''a'' then 1 else 0) < (if p = ''a'' then 1 else (0 :: nat))"
    using demo_includes by (auto simp: demo_files_def split: if_splits)
qed simp

text \<open>An include cycle is not detected: a file whose first line includes the file itself makes the
  loader recurse for every amount of fuel, so loading it never returns.\<close>

theorem load_file_include_cycle:
  assumes "rd p = Some (body, base)" and "str_lines body [] = raw # ls" and "include_target join base raw = Some p"
  shows "load_file rd join fuel p c = None"
  using assms by (rule load_file_cycle)

theorem load_file_include_cycle_witness:
  "load_file (\<lambda>p. Some (''include me'', None)) (\<lambda>b r. r) 100 ''me'' config_default = None"
  by (rule load_file_include_cycle [where raw = "''include me''" and body = "''include me''" and ls = "[]" and base = None])
    (simp, simp, code_simp)

text \<open>Applying a directive: the number of databases stays positive, and, except for \<^verbatim>\<open>save\<close>, which
  adds to the save points, applying the directive again changes nothing.\<close>

theorem config_apply_stable:
  assumes "config_apply c name args = Inr c'"
  shows "(cfg_databases c \<noteq> 0 \<longrightarrow> cfg_databases c' \<noteq> 0)
    \<and> (str_lower name \<noteq> ''save'' \<longrightarrow> config_apply c' name args = Inr c')"
  using config_apply_databases [OF assms] config_apply_idem [OF assms] by blast

theorem config_apply_stable_witness:
  "config_apply (config_default\<lparr>cfg_port := 70\<rparr>) ''Port'' [''70''] = Inr (config_default\<lparr>cfg_port := 70\<rparr>)"
proof -
  have "str_lower ''Port'' = ''port''" by code_simp
  moreover have "map_of directives ''port'' = Some (\<lambda>a c. rbind (rbind (one_arg a) to_u16) (\<lambda>v. Inr (c\<lparr>cfg_port := v\<rparr>)))"
    by (simp add: directives_def network_directives_def)
  ultimately have "config_apply config_default ''Port'' [''70''] = Inr (config_default\<lparr>cfg_port := 70\<rparr>)"
    by (simp add: config_apply_def one_arg_def to_u16_def to_int_def str_parse_i64_def str_parse_nat_def char_digit_def fits_def)
  from config_apply_stable [OF this] show ?thesis by (simp add: str_lower_def char_lower_def)
qed

end
