(* ===== verification/Ctx.thy ===== *)
theory Ctx
  imports Config Reply Command_Table
begin

text \<open>
  The handler-facing API of \<^verbatim>\<open>src/src/ctx.rs\<close>: the context a command runs in, with its locked shards,
  reply writer, dirty counters and propagation mode, and every keyspace operation a handler may
  call. Server-wide counters and published notifications are fields of the context. The crates and
  the random draw are the fields of \<open>env\<close>.
\<close>

unbundle bit_operations_syntax

record env =
  env_mc :: "byte \<Rightarrow> bytes \<Rightarrow> nat option"
  env_itoa :: "int \<Rightarrow> bytes"
  env_hit :: "nat \<Rightarrow> u32 \<Rightarrow> bool"

definition env_ok :: "env \<Rightarrow> bool" where
  "env_ok E \<longleftrightarrow> memchr_spec (env_mc E) \<and> itoa_spec (env_itoa E)"

datatype prop_mode = PropDefault | PropExplicit | PropSuppressed

text \<open>Per-connection state. The subscription and blocking sub-states hold nothing yet and the
  out-of-band channel belongs to the network layer, so they are left out.\<close>

definition CLOSE_AFTER_REPLY :: u32 where "CLOSE_AFTER_REPLY = push_bit 0 1"

definition CF_MULTI :: u32 where "CF_MULTI = push_bit 1 1"

definition DIRTY_CAS :: u32 where "DIRTY_CAS = push_bit 2 1"

definition DIRTY_EXEC :: u32 where "DIRTY_EXEC = push_bit 3 1"

definition CF_MONITOR :: u32 where "CF_MONITOR = push_bit 4 1"

definition REPLY_OFF :: u32 where "REPLY_OFF = push_bit 5 1"

definition REPLY_SKIP_NEXT :: u32 where "REPLY_SKIP_NEXT = push_bit 6 1"

definition REPLY_SKIP :: u32 where "REPLY_SKIP = push_bit 7 1"

definition NO_EVICT :: u32 where "NO_EVICT = push_bit 8 1"

definition NO_TOUCH :: u32 where "NO_TOUCH = push_bit 9 1"

definition UNIX_SOCKET :: u32 where "UNIX_SOCKET = push_bit 10 1"

record client_state =
  cl_id :: nat
  cl_name :: bytes
  cl_db :: nat
  cl_proto :: nat
  cl_flags :: u32
  cl_authenticated :: bool
  cl_addr :: bytes
  cl_laddr :: bytes
  cl_fd :: int
  cl_created_ms :: nat
  cl_last_interaction_ms :: nat
  cl_lib_name :: bytes
  cl_lib_ver :: bytes
  cl_last_command :: bytes
  cl_queue :: "bytes list list"
  cl_watched :: "(nat \<times> key \<times> nat) list"

definition client_new :: "nat \<Rightarrow> bytes \<Rightarrow> bytes \<Rightarrow> nat \<Rightarrow> bool \<Rightarrow> client_state" where
  "client_new i addr laddr now requires_auth =
     \<lparr>cl_id = i, cl_name = [], cl_db = 0, cl_proto = RESP2, cl_flags = 0, cl_authenticated = (\<not> requires_auth),
      cl_addr = addr, cl_laddr = laddr, cl_fd = - 1, cl_created_ms = now, cl_last_interaction_ms = now, cl_lib_name = [],
      cl_lib_ver = [], cl_last_command = [], cl_queue = [], cl_watched = []\<rparr>"

definition has_flag :: "client_state \<Rightarrow> u32 \<Rightarrow> bool" where
  "has_flag c f \<longleftrightarrow> cl_flags c AND f = f"

definition add_flag :: "u32 \<Rightarrow> client_state \<Rightarrow> client_state" where
  "add_flag f c = c\<lparr>cl_flags := cl_flags c OR f\<rparr>"

definition remove_flag :: "u32 \<Rightarrow> client_state \<Rightarrow> client_state" where
  "remove_flag f c = c\<lparr>cl_flags := cl_flags c AND NOT f\<rparr>"

definition should_close :: "client_state \<Rightarrow> bool" where
  "should_close c = has_flag c CLOSE_AFTER_REPLY"

definition close_after_reply :: "client_state \<Rightarrow> client_state" where
  "close_after_reply c = add_flag CLOSE_AFTER_REPLY c"

definition reply_suppressed :: "client_state \<Rightarrow> bool" where
  "reply_suppressed c \<longleftrightarrow> cl_flags c AND (REPLY_OFF OR REPLY_SKIP) \<noteq> 0"

datatype block_kind = BlockList | BlockListMove | BlockListMPop | BlockZSet | BlockZSetMPop | BlockStream | BlockWait

record block_request =
  br_kind :: block_kind
  br_keys :: "key list"
  br_deadline_ms :: "nat option"
  br_db :: nat
  br_extra :: "bytes list"

record ctx =
  out :: reply_writer
  client :: client_state
  srv_map :: shard_map
  shards :: guards
  now_ms :: nat
  cfg :: config
  srv_cfg :: config
  lfu :: bool
  propagating :: bool
  sink :: bool
  srv_dirty :: nat
  expired_keys :: nat
  keyspace_hits :: nat
  keyspace_misses :: nat
  published :: "(bytes \<times> bytes) list"
  dirty :: nat
  prop_kind :: prop_mode
  prop_buf :: "bytes list list"
  block :: "block_request option"

abbreviation client_db :: "ctx \<Rightarrow> nat" where
  "client_db c \<equiv> cl_db (client c)"

abbreviation no_touch :: "ctx \<Rightarrow> bool" where
  "no_touch c \<equiv> has_flag (client c) NO_TOUCH"

subsection \<open>Reaching the shard and the database of a key\<close>

definition key_idx :: "env \<Rightarrow> ctx \<Rightarrow> key \<Rightarrow> nat" where
  "key_idx E c k = key_shard_index (env_mc E) (shards c) k"

definition ctx_shard :: "env \<Rightarrow> ctx \<Rightarrow> key \<Rightarrow> shard option" where
  "ctx_shard E c k = for_key (env_mc E) (shards c) k"

definition ctx_db :: "env \<Rightarrow> ctx \<Rightarrow> key \<Rightarrow> db option" where
  "ctx_db E c k = Option.bind (ctx_shard E c k) (\<lambda>s. shard_db s (client_db c))"

definition map_shard :: "env \<Rightarrow> key \<Rightarrow> (shard \<Rightarrow> shard) \<Rightarrow> ctx \<Rightarrow> ctx" where
  "map_shard E k f c =
     (case ctx_shard E c k of
        Some s \<Rightarrow> c\<lparr>shards := put_shard (shards c) (key_idx E c k) (f s)\<rparr>
      | None \<Rightarrow> c)"

definition map_db :: "env \<Rightarrow> key \<Rightarrow> (db \<Rightarrow> db) \<Rightarrow> ctx \<Rightarrow> ctx" where
  "map_db E k f c =
     (case ctx_db E c k of
        Some d \<Rightarrow> map_shard E k (\<lambda>s. shard_put_db s (client_db c) (f d)) c
      | None \<Rightarrow> c)"

definition bump_shard_dirty :: "env \<Rightarrow> key \<Rightarrow> ctx \<Rightarrow> ctx" where
  "bump_shard_dirty E k c = map_shard E k (\<lambda>s. s\<lparr>sh_dirty := sh_dirty s + 1\<rparr>) c"

subsection \<open>Side effects\<close>

definition signal_modified :: "env \<Rightarrow> ctx \<Rightarrow> key \<Rightarrow> ctx" where
  "signal_modified E c k =
     (let c = c\<lparr>dirty := dirty c + 1, srv_dirty := srv_dirty c + 1\<rparr> in
      map_db E k (\<lambda>d. signal_watch d k) (bump_shard_dirty E k c))"

definition publish :: "env \<Rightarrow> ctx \<Rightarrow> notify_class \<Rightarrow> bytes \<Rightarrow> key \<Rightarrow> ctx" where
  "publish E c cls event k =
     c\<lparr>published := published c
         @ notify_dispatch (env_itoa E) (sink c) (cfg_notify_keyspace_events (cfg c)) cls event (client_db c) k\<rparr>"

definition ctx_notify :: "env \<Rightarrow> ctx \<Rightarrow> notify_class \<Rightarrow> bytes \<Rightarrow> key \<Rightarrow> ctx" where
  "ctx_notify E c cls event k = (if \<not> is_enabled_by cls (cfg_notify_keyspace_events (cfg c)) then c else publish E c cls event k)"

definition propagate_argv :: "ctx \<Rightarrow> bytes list \<Rightarrow> ctx" where
  "propagate_argv c argv =
     (if \<not> propagating c then c\<lparr>prop_kind := PropExplicit\<rparr>
      else c\<lparr>prop_kind := PropExplicit, prop_buf := prop_buf c @ [argv]\<rparr>)"

definition propagate_none :: "ctx \<Rightarrow> ctx" where
  "propagate_none c = c\<lparr>prop_kind := PropSuppressed, prop_buf := []\<rparr>"

subsection \<open>Lookups\<close>

definition expire_if_needed :: "env \<Rightarrow> ctx \<Rightarrow> key \<Rightarrow> bool \<times> ctx" where
  "expire_if_needed E c k =
     (case ctx_db E c k of
        None \<Rightarrow> (False, c)
      | Some d \<Rightarrow>
          if \<not> db_is_expired d k (now_ms c) then (False, c)
          else
            (let c = map_db E k (\<lambda>d. signal_watch (snd (remove_entry d k)) k) c;
                 c = bump_shard_dirty E k c;
                 c = (if propagating c
                      then map_shard E k (\<lambda>s. shard_propagate s (client_db c) [ascii ''DEL'', k]) c else c);
                 c = c\<lparr>srv_dirty := srv_dirty c + 1, expired_keys := expired_keys c + 1\<rparr>
             in (True, publish E c EXPIRED (ascii ''expired'') k)))"

definition touch_key :: "env \<Rightarrow> key \<Rightarrow> ctx \<Rightarrow> ctx" where
  "touch_key E k c =
     (if no_touch c then c
      else map_db E k (\<lambda>d. case fmlookup (dict d) k of
             Some e \<Rightarrow> d\<lparr>dict := fmupd k (e\<lparr>lru := lru_touch (env_hit E) (lru e) (now_ms c) (lfu c) (cfg_lfu_log_factor (cfg c)) (cfg_lfu_decay_time (cfg c))\<rparr>) (dict d)\<rparr>
           | None \<Rightarrow> d) c)"

definition lookup_read :: "env \<Rightarrow> ctx \<Rightarrow> key \<Rightarrow> robj option \<times> ctx" where
  "lookup_read E c k =
     (let c = snd (expire_if_needed E c k) in
      case Option.bind (ctx_db E c k) (\<lambda>d. fmlookup (dict d) k) of
        None \<Rightarrow> (None, c\<lparr>keyspace_misses := keyspace_misses c + 1\<rparr>)
      | Some e \<Rightarrow> (Some (obj e), touch_key E k (c\<lparr>keyspace_hits := keyspace_hits c + 1\<rparr>)))"

definition exists_now :: "env \<Rightarrow> ctx \<Rightarrow> key \<Rightarrow> bool" where
  "exists_now E c k = (case ctx_db E c k of Some d \<Rightarrow> fmlookup (dict d) k \<noteq> None | None \<Rightarrow> False)"

definition lookup_write :: "env \<Rightarrow> ctx \<Rightarrow> key \<Rightarrow> robj option \<times> ctx" where
  "lookup_write E c k =
     (let c = snd (expire_if_needed E c k) in
      if \<not> exists_now E c k then (None, c)
      else (let c = signal_modified E c k in
            (map_option obj (Option.bind (ctx_db E c k) (\<lambda>d. fmlookup (dict d) k)), touch_key E k c)))"

definition ctx_exists :: "env \<Rightarrow> ctx \<Rightarrow> key \<Rightarrow> bool \<times> ctx" where
  "ctx_exists E c k = (let c = snd (expire_if_needed E c k) in (exists_now E c k, c))"

definition ctx_type_name :: "env \<Rightarrow> ctx \<Rightarrow> key \<Rightarrow> string option \<times> ctx" where
  "ctx_type_name E c k = (case lookup_read E c k of (r, c) \<Rightarrow> (map_option robj_type_name r, c))"

definition ctx_expire_at :: "env \<Rightarrow> ctx \<Rightarrow> key \<Rightarrow> nat option \<times> ctx" where
  "ctx_expire_at E c k =
     (let c = snd (expire_if_needed E c k) in
      (do { d \<leftarrow> ctx_db E c k; e \<leftarrow> fmlookup (dict d) k; expire_at_ms e }, c))"

definition ctx_set_expire :: "env \<Rightarrow> ctx \<Rightarrow> key \<Rightarrow> nat option \<Rightarrow> bool \<times> ctx" where
  "ctx_set_expire E c k at =
     (let c = snd (expire_if_needed E c k);
          ok = (case ctx_db E c k of Some d \<Rightarrow> fst (db_set_expire d k at) | None \<Rightarrow> False);
          c = map_db E k (\<lambda>d. snd (db_set_expire d k at)) c
      in (ok, if ok then signal_modified E c k else c))"

definition ctx_insert :: "env \<Rightarrow> ctx \<Rightarrow> key \<Rightarrow> robj \<Rightarrow> nat option \<Rightarrow> ctx" where
  "ctx_insert E c k o' at =
     (let c = c\<lparr>dirty := dirty c + 1, srv_dirty := srv_dirty c + 1\<rparr>;
          c = bump_shard_dirty E k c
      in map_db E k (\<lambda>d. set_entry (signal_watch d k) k (entry_new o' at (now_ms c) (lfu c))) c)"

definition ctx_remove :: "env \<Rightarrow> ctx \<Rightarrow> key \<Rightarrow> bool \<times> ctx" where
  "ctx_remove E c k =
     (let c = snd (expire_if_needed E c k) in
      case ctx_shard E c k of
        None \<Rightarrow> (False, c)
      | Some _ \<Rightarrow>
          (let gone = exists_now E c k;
               c = map_db E k (\<lambda>d. snd (remove_entry d k)) c;
               c = (if gone then map_db E k (\<lambda>d. signal_watch d k) (bump_shard_dirty E k c) else c)
           in (gone, if gone then c\<lparr>dirty := dirty c + 1, srv_dirty := srv_dirty c + 1\<rparr> else c)))"

definition block_on :: "ctx \<Rightarrow> key list \<Rightarrow> nat \<Rightarrow> block_kind \<Rightarrow> ctx" where
  "block_on c keys timeout_ms on =
     c\<lparr>block := Some \<lparr>br_kind = on, br_keys = keys,
        br_deadline_ms = (if timeout_ms = 0 then None else Some (min (now_ms c + timeout_ms) (2 ^ 64 - 1))),
        br_db = client_db c, br_extra = []\<rparr>\<rparr>"

subsection \<open>Typed accessors\<close>

definition peek_type :: "env \<Rightarrow> ctx \<Rightarrow> key \<Rightarrow> nat option" where
  "peek_type E c k = map_option (\<lambda>e. robj_type_id (obj e)) (Option.bind (ctx_db E c k) (\<lambda>d. fmlookup (dict d) k))"

text \<open>The mutable accessor for the type with identifier \<open>t\<close> returns the object, which a handler then
  changes in place; the read accessor for strings.\<close>

definition get_typed :: "env \<Rightarrow> nat \<Rightarrow> ctx \<Rightarrow> key \<Rightarrow> (cmd_error + robj option) \<times> ctx" where
  "get_typed E t c k =
     (let c = snd (expire_if_needed E c k) in
      case peek_type E c k of
        None \<Rightarrow> (Inr None, c)
      | Some t' \<Rightarrow>
          if t' \<noteq> t then (Inl WrongType, c)
          else (let c = touch_key E k (signal_modified E c k) in
                (Inr (map_option obj (Option.bind (ctx_db E c k) (\<lambda>d. fmlookup (dict d) k))), c)))"

definition get_str_read :: "env \<Rightarrow> ctx \<Rightarrow> key \<Rightarrow> (cmd_error + strobj option) \<times> ctx" where
  "get_str_read E c k =
     (case lookup_read E c k of
        (None, c) \<Rightarrow> (Inr None, c)
      | (Some (RStr o'), c) \<Rightarrow> (Inr (Some o'), c)
      | (Some _, c) \<Rightarrow> (Inl WrongType, c))"

end
