(* ===== verification/Ctx_Proofs.thy ===== *)
theory Ctx_Proofs
  imports Ctx Shard_Proofs
begin

text \<open>
  What a handler sees of the keyspace. \<open>kv E c k\<close> is the value and deadline under \<open>k\<close> that are live
  at the context's time; every operation of the context is described by its effect on \<open>kv\<close>, and
  that is the contract the locale \<open>handler_api\<close> states for the command layer.
\<close>

subsection \<open>Contexts and the field updates\<close>

lemma g_mask_put [simp]: "g_mask (put_shard g i s) = g_mask g"
  by (simp add: put_shard_def)

lemma map_shard_fields [simp]:
  "out (map_shard E k f c) = out c" "client (map_shard E k f c) = client c" "srv_map (map_shard E k f c) = srv_map c"
  "now_ms (map_shard E k f c) = now_ms c" "lfu (map_shard E k f c) = lfu c" "cfg (map_shard E k f c) = cfg c"
  "propagating (map_shard E k f c) = propagating c" "dirty (map_shard E k f c) = dirty c" "prop_kind (map_shard E k f c) = prop_kind c"
  "prop_buf (map_shard E k f c) = prop_buf c" "g_mask (shards (map_shard E k f c)) = g_mask (shards c)" "sink (map_shard E k f c) = sink c" "block (map_shard E k f c) = block c"
  by (simp_all add: map_shard_def split: option.split)

lemma map_db_fields [simp]:
  "out (map_db E k f c) = out c" "client (map_db E k f c) = client c" "srv_map (map_db E k f c) = srv_map c"
  "now_ms (map_db E k f c) = now_ms c" "lfu (map_db E k f c) = lfu c" "cfg (map_db E k f c) = cfg c"
  "propagating (map_db E k f c) = propagating c" "dirty (map_db E k f c) = dirty c" "prop_kind (map_db E k f c) = prop_kind c"
  "prop_buf (map_db E k f c) = prop_buf c" "g_mask (shards (map_db E k f c)) = g_mask (shards c)" "sink (map_db E k f c) = sink c" "block (map_db E k f c) = block c"
  by (simp_all add: map_db_def split: option.split)

lemma key_idx_cong: "g_mask (shards c') = g_mask (shards c) \<Longrightarrow> key_idx E c' k = key_idx E c k"
  by (simp add: key_idx_def key_shard_index_def)

lemma ctx_db_cong: "shards c' = shards c \<Longrightarrow> client_db c' = client_db c \<Longrightarrow> ctx_db E c' k = ctx_db E c k"
  by (simp add: ctx_db_def ctx_shard_def)

lemma ctx_shard_map_shard:
  "ctx_shard E (map_shard E k f c) k' = (if key_idx E c k' = key_idx E c k then map_option f (ctx_shard E c k') else ctx_shard E c k')"
  by (auto simp: map_shard_def ctx_shard_def for_key_def key_idx_def key_shard_index_def guard_put split: option.split)

lemma ctx_db_map_shard:
  assumes "\<And>s. dbs (f s) = dbs s" shows "ctx_db E (map_shard E k f c) k' = ctx_db E c k'"
  by (cases "ctx_shard E c k'") (auto simp: ctx_db_def ctx_shard_map_shard shard_db_def assms)

lemma ctx_db_map_db:
  "ctx_db E (map_db E k f c) k' = (if key_idx E c k' = key_idx E c k then map_option f (ctx_db E c k') else ctx_db E c k')"
proof (cases "ctx_db E c k")
  case None
  then have "ctx_db E c k' = None" if "key_idx E c k' = key_idx E c k"
    using that by (simp add: ctx_db_def ctx_shard_def for_key_def key_idx_def)
  then show ?thesis using None by (simp add: map_db_def)
next
  case (Some d)
  then obtain s where s: "ctx_shard E c k = Some s" "shard_db s (client_db c) = Some d" by (auto simp: ctx_db_def bind_eq_Some_conv)
  have same: "ctx_shard E c k' = Some s" if "key_idx E c k' = key_idx E c k"
    using that s by (simp add: ctx_shard_def for_key_def key_idx_def)
  have put: "shard_db (shard_put_db s (client_db c) (f d)) (client_db c) = Some (f d)"
    using s(2) by (simp add: shard_db_def shard_put_db_def)
  show ?thesis
    by (cases "key_idx E c k' = key_idx E c k") (simp_all add: map_db_def Some ctx_db_def ctx_shard_map_shard same put s)
qed

subsection \<open>The live keyspace\<close>

definition view :: "env \<Rightarrow> ctx \<Rightarrow> key \<Rightarrow> entry option" where
  "view E c k = Option.bind (ctx_db E c k) (\<lambda>d. db_lookup d k)"

definition data :: "entry \<Rightarrow> robj \<times> nat option" where
  "data e = (obj e, expire_at_ms e)"

definition live :: "nat \<Rightarrow> robj \<times> nat option \<Rightarrow> bool" where
  "live t v = (case snd v of Some at \<Rightarrow> t < at | None \<Rightarrow> True)"

definition if_live :: "nat \<Rightarrow> (robj \<times> nat option) option \<Rightarrow> (robj \<times> nat option) option" where
  "if_live t v = (case v of Some x \<Rightarrow> if live t x then Some x else None | None \<Rightarrow> None)"

definition kv :: "env \<Rightarrow> ctx \<Rightarrow> key \<Rightarrow> (robj \<times> nat option) option" where
  "kv E c k = if_live (now_ms c) (map_option data (view E c k))"

definition reach :: "env \<Rightarrow> ctx \<Rightarrow> key \<Rightarrow> bool" where
  "reach E c k \<longleftrightarrow> ctx_db E c k \<noteq> None"

lemma if_live_idem [simp]: "if_live t (if_live t v) = if_live t v"
  by (auto simp: if_live_def split: option.splits)

lemma expired_live: "entry_is_expired e t \<longleftrightarrow> \<not> live t (data e)"
  by (auto simp: entry_is_expired_def live_def data_def split: option.splits)

lemma view_map_db:
  "view E (map_db E k f c) k' =
     (if key_idx E c k' = key_idx E c k then Option.bind (ctx_db E c k') (\<lambda>d. db_lookup (f d) k') else view E c k')"
  by (cases "ctx_db E c k'") (simp_all add: view_def ctx_db_map_db)

lemma view_map_db_other:
  assumes "\<And>d. db_lookup (f d) k' = db_lookup d k'" shows "view E (map_db E k f c) k' = view E c k'"
  by (simp add: view_map_db assms) (simp add: view_def)

lemma view_map_shard:
  assumes "\<And>s. dbs (f s) = dbs s" shows "view E (map_shard E k f c) k' = view E c k'"
  by (simp add: view_def ctx_db_map_shard [of f, OF assms])

lemma reach_map_db [simp]: "reach E (map_db E k f c) k' = reach E c k'"
  by (simp add: reach_def ctx_db_map_db)

lemma view_cong: "shards c' = shards c \<Longrightarrow> client_db c' = client_db c \<Longrightarrow> view E c' k = view E c k"
  using ctx_db_cong [of c' c E k] by (simp add: view_def)

lemma kv_cong: "shards c' = shards c \<Longrightarrow> client_db c' = client_db c \<Longrightarrow> now_ms c' = now_ms c \<Longrightarrow> kv E c' k = kv E c k"
  using view_cong [of c' c E k] by (simp add: kv_def)

lemma reach_cong: "shards c' = shards c \<Longrightarrow> client_db c' = client_db c \<Longrightarrow> reach E c' k = reach E c k"
  using ctx_db_cong [of c' c E k] by (simp add: reach_def)

text \<open>\<open>same_kv c c'\<close>: nothing a handler can see of the keyspace changed, nor the reply or the propagation.\<close>

definition same_kv :: "env \<Rightarrow> ctx \<Rightarrow> ctx \<Rightarrow> bool" where
  "same_kv E c c' \<longleftrightarrow> (\<forall>k. kv E c' k = kv E c k) \<and> (\<forall>k. reach E c' k = reach E c k) \<and> out c' = out c \<and> now_ms c' = now_ms c
     \<and> lfu c' = lfu c \<and> client c' = client c \<and> cfg c' = cfg c \<and> block c' = block c \<and> propagating c' = propagating c \<and> prop_kind c' = prop_kind c
     \<and> prop_buf c' = prop_buf c \<and> g_mask (shards c') = g_mask (shards c)"

lemma same_kv_refl: "same_kv E c c"
  by (simp add: same_kv_def)

lemma same_kv_trans: "same_kv E a b \<Longrightarrow> same_kv E b c \<Longrightarrow> same_kv E a c"
  by (simp add: same_kv_def)

lemma same_kvI:
  assumes "\<And>k. view E c' k = view E c k \<or> if_live (now_ms c) (map_option data (view E c' k)) = if_live (now_ms c) (map_option data (view E c k))"
    and "\<And>k. reach E c' k = reach E c k" and "out c' = out c" "now_ms c' = now_ms c" "lfu c' = lfu c" "client c' = client c" "cfg c' = cfg c" "block c' = block c"
      "propagating c' = propagating c" "prop_kind c' = prop_kind c" "prop_buf c' = prop_buf c" "g_mask (shards c') = g_mask (shards c)"
  shows "same_kv E c c'"
proof -
  have "kv E c' k = kv E c k" for k using assms(1) [of k] assms(4) by (auto simp: kv_def)
  then show ?thesis using assms by (simp add: same_kv_def)
qed

lemma view_upd [simp]:
  "view E (c\<lparr>srv_dirty := a, expired_keys := b\<rparr>) k = view E c k" "view E (c\<lparr>dirty := a, srv_dirty := b\<rparr>) k = view E c k"
  "view E (c\<lparr>keyspace_misses := a\<rparr>) k = view E c k" "view E (c\<lparr>keyspace_hits := a\<rparr>) k = view E c k"
  "view E (c\<lparr>published := p\<rparr>) k = view E c k" "view E (c\<lparr>out := w\<rparr>) k = view E c k" "view E (c\<lparr>prop_kind := q\<rparr>) k = view E c k"
  "view E (c\<lparr>prop_kind := q, prop_buf := bf\<rparr>) k = view E c k"
  by (rule view_cong; simp)+

lemma reach_upd [simp]:
  "reach E (c\<lparr>srv_dirty := a, expired_keys := b\<rparr>) k = reach E c k" "reach E (c\<lparr>dirty := a, srv_dirty := b\<rparr>) k = reach E c k"
  "reach E (c\<lparr>keyspace_misses := a\<rparr>) k = reach E c k" "reach E (c\<lparr>keyspace_hits := a\<rparr>) k = reach E c k"
  "reach E (c\<lparr>published := p\<rparr>) k = reach E c k" "reach E (c\<lparr>out := w\<rparr>) k = reach E c k" "reach E (c\<lparr>prop_kind := q\<rparr>) k = reach E c k"
  "reach E (c\<lparr>prop_kind := q, prop_buf := bf\<rparr>) k = reach E c k"
  by (rule reach_cong; simp)+

lemma view_effects [simp]:
  "view E (bump_shard_dirty E k c) k' = view E c k'"
  "view E (map_shard E k (\<lambda>s. shard_propagate s n argv) c) k' = view E c k'"
  "view E (publish E c cls ev k) k' = view E c k'"
  by (simp_all add: bump_shard_dirty_def view_map_shard shard_propagate_def publish_def)

lemma reach_effects [simp]:
  "reach E (bump_shard_dirty E k c) k' = reach E c k'"
  "reach E (map_shard E k (\<lambda>s. shard_propagate s n argv) c) k' = reach E c k'"
  "reach E (publish E c cls ev k) k' = reach E c k'"
  by (simp_all add: bump_shard_dirty_def reach_def ctx_db_map_shard shard_propagate_def publish_def) 
    (simp add: ctx_db_def ctx_shard_def)

lemma effect_fields [simp]:
  "out (bump_shard_dirty E k c) = out c" "client (bump_shard_dirty E k c) = client c" "cfg (bump_shard_dirty E k c) = cfg c" "now_ms (bump_shard_dirty E k c) = now_ms c"
  "lfu (bump_shard_dirty E k c) = lfu c" "propagating (bump_shard_dirty E k c) = propagating c" "prop_kind (bump_shard_dirty E k c) = prop_kind c"
  "prop_buf (bump_shard_dirty E k c) = prop_buf c" "block (bump_shard_dirty E k c) = block c" "g_mask (shards (bump_shard_dirty E k c)) = g_mask (shards c)"
  "out (publish E c cls ev k) = out c" "client (publish E c cls ev k) = client c" "cfg (publish E c cls ev k) = cfg c" "now_ms (publish E c cls ev k) = now_ms c"
  "lfu (publish E c cls ev k) = lfu c" "propagating (publish E c cls ev k) = propagating c" "prop_kind (publish E c cls ev k) = prop_kind c"
  "prop_buf (publish E c cls ev k) = prop_buf c" "block (publish E c cls ev k) = block c" "g_mask (shards (publish E c cls ev k)) = g_mask (shards c)"
  by (simp_all add: bump_shard_dirty_def publish_def)

subsection \<open>Lazy expiry and reads\<close>

lemma db_expired_view: "ctx_db E c k = Some d \<Longrightarrow> db_is_expired d k t \<longleftrightarrow> (\<exists>e. view E c k = Some e \<and> entry_is_expired e t)"
  by (auto simp: db_is_expired_def view_def db_lookup_def split: option.splits)

lemma expire_view:
  "view E (snd (expire_if_needed E c k)) k' =
     (if k' = k \<and> (\<exists>e. view E c k = Some e \<and> entry_is_expired e (now_ms c)) then None else view E c k')"
proof (cases "ctx_db E c k")
  case None
  then show ?thesis by (simp add: expire_if_needed_def view_def)
next
  case (Some d)
  have lk: "db_lookup (signal_watch (snd (remove_entry d k)) k) k' = (if k' = k then None else db_lookup d k')" for d k'
    by (simp add: db_laws)
  have other: "view E (map_db E k (\<lambda>d. signal_watch (snd (remove_entry d k)) k) c) k' = (if k' = k then None else view E c k')"
    using Some view_map_db_other [of "\<lambda>d. signal_watch (snd (remove_entry d k)) k" k' E k c] by (simp add: lk view_map_db)
  show ?thesis
  proof (cases "db_is_expired d k (now_ms c)")
    case True
    then have ex: "\<exists>e. view E c k = Some e \<and> entry_is_expired e (now_ms c)" by (simp only: db_expired_view [OF Some])
    have "view E (snd (expire_if_needed E c k)) k' = view E (map_db E k (\<lambda>d. signal_watch (snd (remove_entry d k)) k) c) k'"
      using Some True by (simp add: expire_if_needed_def Let_def)
    then show ?thesis using ex other by (simp only: simp_thms if_cancel)
  next
    case False
    then have "\<not> (\<exists>e. view E c k = Some e \<and> entry_is_expired e (now_ms c))" by (simp only: db_expired_view [OF Some] simp_thms)
    then show ?thesis using Some False by (auto simp: expire_if_needed_def)
  qed
qed

lemma expire_same: "same_kv E c (snd (expire_if_needed E c k))"
proof (rule same_kvI)
  fix k'
  show "view E (snd (expire_if_needed E c k)) k' = view E c k' \<or>
      if_live (now_ms c) (map_option data (view E (snd (expire_if_needed E c k)) k')) = if_live (now_ms c) (map_option data (view E c k'))"
    by (auto simp: expire_view if_live_def expired_live split: option.splits)
qed (simp_all add: expire_if_needed_def Let_def split: option.split)

lemma kv_expire: "kv E c k = map_option data (view E (snd (expire_if_needed E c k)) k)"
  by (auto simp: kv_def expire_view if_live_def expired_live split: option.splits)

lemma touch_view: "map_option data (view E (touch_key E k c) k') = map_option data (view E c k')"
proof (cases "no_touch c")
  case False
  let ?f = "\<lambda>d. case fmlookup (dict d) k of
      Some e \<Rightarrow> d\<lparr>dict := fmupd k (e\<lparr>lru := lru_touch (env_hit E) (lru e) (now_ms c) (lfu c) (cfg_lfu_log_factor (cfg c)) (cfg_lfu_decay_time (cfg c))\<rparr>) (dict d)\<rparr>
    | None \<Rightarrow> d"
  have "map_option data (db_lookup (?f d) k') = map_option data (db_lookup d k')" for d
    by (auto simp: db_lookup_def data_def split: option.splits)
  then show ?thesis using False by (cases "ctx_db E c k'") (simp_all add: touch_key_def view_def ctx_db_map_db)
qed (simp add: touch_key_def)

lemma touch_same: "same_kv E c (touch_key E k c)"
proof (rule same_kvI)
  fix k'
  show "view E (touch_key E k c) k' = view E c k' \<or>
      if_live (now_ms c) (map_option data (view E (touch_key E k c) k')) = if_live (now_ms c) (map_option data (view E c k'))"
    by (simp add: touch_view)
qed (simp_all add: touch_key_def)

lemma view_lookup: "Option.bind (ctx_db E c k) (\<lambda>d. fmlookup (dict d) k) = view E c k"
  by (simp add: view_def db_lookup_def)

lemma exists_now_view: "exists_now E c k \<longleftrightarrow> view E c k \<noteq> None"
  by (auto simp: exists_now_def view_def db_lookup_def split: option.splits)

lemma count_same: "same_kv E c (c\<lparr>keyspace_misses := m\<rparr>)" "same_kv E c (c\<lparr>keyspace_hits := m\<rparr>)"
  by (rule same_kvI; simp)+

lemma lookup_read_kv: "fst (lookup_read E c k) = map_option fst (kv E c k) \<and> same_kv E c (snd (lookup_read E c k))"
proof -
  let ?c = "snd (expire_if_needed E c k)"
  show ?thesis
  proof (cases "view E ?c k")
    case None
    then show ?thesis using same_kv_trans [OF expire_same [of E c k] count_same(1)]
      by (simp add: lookup_read_def Let_def view_lookup kv_expire)
  next
    case (Some e)
    then show ?thesis
      using same_kv_trans [OF expire_same [of E c k] same_kv_trans [OF count_same(2) touch_same [of E _ k]]]
      by (simp add: lookup_read_def Let_def view_lookup kv_expire data_def)
  qed
qed

lemma ctx_exists_kv: "fst (ctx_exists E c k) \<longleftrightarrow> kv E c k \<noteq> None" "same_kv E c (snd (ctx_exists E c k))"
  using expire_same [of E c k] by (simp_all add: ctx_exists_def Let_def exists_now_view kv_expire)

lemma ctx_expire_at_kv: "fst (ctx_expire_at E c k) = Option.bind (kv E c k) snd" "same_kv E c (snd (ctx_expire_at E c k))"
proof -
  let ?c = "snd (expire_if_needed E c k)"
  have "fst (ctx_expire_at E c k) = Option.bind (view E ?c k) expire_at_ms"
    by (simp add: ctx_expire_at_def Let_def view_def db_lookup_def)
  then show "fst (ctx_expire_at E c k) = Option.bind (kv E c k) snd"
    by (cases "view E ?c k") (simp_all add: kv_expire data_def)
  show "same_kv E c (snd (ctx_expire_at E c k))" using expire_same by (simp add: ctx_expire_at_def Let_def)
qed

lemma get_str_read_kv:
  "fst (get_str_read E c k) =
     (case kv E c k of None \<Rightarrow> Inr None | Some (RStr s, _) \<Rightarrow> Inr (Some s) | Some _ \<Rightarrow> Inl WrongType)"
  "same_kv E c (snd (get_str_read E c k))"
  using lookup_read_kv [of E c k]
  by (cases "lookup_read E c k"; auto simp: get_str_read_def split: option.splits robj.splits)+

subsection \<open>Writes\<close>

text \<open>\<open>only_at k c c'\<close>: of the live keyspace, at most the entry under \<open>k\<close> changed.\<close>

definition only_at :: "env \<Rightarrow> key \<Rightarrow> ctx \<Rightarrow> ctx \<Rightarrow> bool" where
  "only_at E k c c' \<longleftrightarrow> (\<forall>k'. k' \<noteq> k \<longrightarrow> kv E c' k' = kv E c k') \<and> (\<forall>k'. reach E c' k' = reach E c k') \<and> out c' = out c
     \<and> now_ms c' = now_ms c \<and> lfu c' = lfu c \<and> client c' = client c \<and> cfg c' = cfg c \<and> block c' = block c \<and> propagating c' = propagating c \<and> prop_kind c' = prop_kind c
     \<and> prop_buf c' = prop_buf c \<and> g_mask (shards c') = g_mask (shards c)"

lemma same_kv_only_at: "same_kv E c c' \<Longrightarrow> only_at E k c c'"
  by (simp add: same_kv_def only_at_def)

lemma only_at_trans: "only_at E k a b \<Longrightarrow> only_at E k b c \<Longrightarrow> only_at E k a c"
  by (simp add: only_at_def)

lemma only_atI:
  assumes "\<And>k'. k' \<noteq> k \<Longrightarrow> view E c' k' = view E c k'" "\<And>k'. reach E c' k' = reach E c k'"
    "out c' = out c" "now_ms c' = now_ms c" "lfu c' = lfu c" "client c' = client c" "cfg c' = cfg c" "block c' = block c"
      "propagating c' = propagating c" "prop_kind c' = prop_kind c" "prop_buf c' = prop_buf c" "g_mask (shards c') = g_mask (shards c)"
  shows "only_at E k c c'"
  using assms by (simp add: only_at_def kv_def)

lemma signal_modified_same: "same_kv E c (signal_modified E c k)"
proof (rule same_kvI)
  fix k'
  show "view E (signal_modified E c k) k' = view E c k' \<or>
      if_live (now_ms c) (map_option data (view E (signal_modified E c k) k')) = if_live (now_ms c) (map_option data (view E c k'))"
    by (simp add: signal_modified_def Let_def view_map_db_other db_laws)
qed (simp_all add: signal_modified_def Let_def)

lemma ctx_insert_kv:
  "only_at E k c (ctx_insert E c k o' at)"
  "reach E c k \<Longrightarrow> view E (ctx_insert E c k o' at) k = Some (entry_new o' at (now_ms c) (lfu c))"
proof -
  let ?f = "\<lambda>d. set_entry (signal_watch d k) k (entry_new o' at (now_ms c) (lfu c))"
  let ?c = "bump_shard_dirty E k (c\<lparr>dirty := dirty c + 1, srv_dirty := srv_dirty c + 1\<rparr>)"
  have ins: "ctx_insert E c k o' at = map_db E k ?f ?c" by (simp add: ctx_insert_def Let_def)
  have lk: "db_lookup (?f d) k' = (if k' = k then Some (entry_new o' at (now_ms c) (lfu c)) else db_lookup d k')" for d k'
    by (simp add: db_laws)
  show "only_at E k c (ctx_insert E c k o' at)"
    unfolding ins by (rule only_atI) (simp_all add: view_map_db_other lk)
  assume "reach E c k"
  then have "reach E ?c k" by simp
  then obtain d where "ctx_db E ?c k = Some d" by (auto simp: reach_def)
  then show "view E (ctx_insert E c k o' at) k = Some (entry_new o' at (now_ms c) (lfu c))"
    unfolding ins by (simp add: view_map_db lk)
qed

lemma ctx_insert_live:
  "reach E c k \<Longrightarrow> kv E (ctx_insert E c k o' at) k = (if live (now_ms c) (o', at) then Some (o', at) else None)"
  using ctx_insert_kv(1) [of E k c o' at] ctx_insert_kv(2) [of E c k o' at] by (simp add: kv_def only_at_def if_live_def data_def entry_new_def)

lemma ctx_remove_kv:
  "fst (ctx_remove E c k) \<longleftrightarrow> kv E c k \<noteq> None" "kv E (snd (ctx_remove E c k)) k = None" "only_at E k c (snd (ctx_remove E c k))"
proof -
  let ?c = "snd (expire_if_needed E c k)"
  have lk: "db_lookup (snd (remove_entry d k)) k' = (if k' = k then None else db_lookup d k')"
    "db_lookup (signal_watch d k) k' = db_lookup d k'" for d k' by (simp_all add: db_laws)
  have gone: "exists_now E ?c k \<longleftrightarrow> kv E c k \<noteq> None" by (simp add: exists_now_view kv_expire)
  have noshard: "view E ?c k = None" if "ctx_shard E ?c k = None" using that by (simp add: view_def ctx_db_def)
  show "fst (ctx_remove E c k) \<longleftrightarrow> kv E c k \<noteq> None"
    using gone noshard by (simp add: ctx_remove_def Let_def kv_expire split: option.split)
  have "view E (snd (ctx_remove E c k)) k = None"
  proof (cases "ctx_shard E ?c k")
    case None then show ?thesis using noshard by (simp add: ctx_remove_def Let_def)
  next
    case (Some s)
    have rm: "view E (map_db E k (\<lambda>d. snd (remove_entry d k)) ?c) k = None"
      by (cases "ctx_db E ?c k") (simp_all add: view_map_db lk)
    then show ?thesis using Some by (simp add: ctx_remove_def Let_def view_map_db_other lk)
  qed
  then show "kv E (snd (ctx_remove E c k)) k = None" by (simp add: kv_def if_live_def)
  have "only_at E k ?c (snd (ctx_remove E c k))"
    by (rule only_atI) (simp_all add: ctx_remove_def Let_def view_map_db_other lk split: option.split)
  then show "only_at E k c (snd (ctx_remove E c k))"
    by (rule only_at_trans [OF same_kv_only_at [OF expire_same]])
qed

lemma ctx_set_expire_kv:
  "fst (ctx_set_expire E c k at) \<longleftrightarrow> kv E c k \<noteq> None" "only_at E k c (snd (ctx_set_expire E c k at))"
  "kv E (snd (ctx_set_expire E c k at)) k = if_live (now_ms c) (map_option (\<lambda>v. (fst v, at)) (kv E c k))"
proof -
  let ?c = "snd (expire_if_needed E c k)"
  let ?c1 = "map_db E k (\<lambda>d. snd (db_set_expire d k at)) ?c"
  have now: "now_ms ?c = now_ms c" using expire_same [of E c k] by (simp add: same_kv_def)
  have ok: "(case ctx_db E ?c k of Some d \<Rightarrow> fst (db_set_expire d k at) | None \<Rightarrow> False) \<longleftrightarrow> view E ?c k \<noteq> None"
    by (auto simp: view_def db_lookup_def db_set_expire_def Let_def split: option.splits)
  then show "fst (ctx_set_expire E c k at) \<longleftrightarrow> kv E c k \<noteq> None" by (simp add: ctx_set_expire_def Let_def kv_expire)
  have res: "snd (ctx_set_expire E c k at) = (if view E ?c k \<noteq> None then signal_modified E ?c1 k else ?c1)"
    using ok by (simp add: ctx_set_expire_def Let_def)
  have v: "view E ?c1 k' = (if k' = k then map_option (\<lambda>e. e\<lparr>expire_at_ms := at\<rparr>) (view E ?c k) else view E ?c k')" for k'
  proof (cases "k' = k")
    case True
    then show ?thesis by (cases "ctx_db E ?c k") (simp_all add: view_map_db db_lookup_set_expire, simp_all add: view_def)
  next
    case False
    then show ?thesis by (simp add: view_map_db_other db_lookup_set_expire)
  qed
  have "only_at E k ?c ?c1" by (rule only_atI) (simp_all add: v)
  then have "only_at E k ?c (snd (ctx_set_expire E c k at))"
    unfolding res using only_at_trans [OF _ same_kv_only_at [OF signal_modified_same]] by simp
  then show "only_at E k c (snd (ctx_set_expire E c k at))" by (rule only_at_trans [OF same_kv_only_at [OF expire_same]])
  have "kv E (snd (ctx_set_expire E c k at)) k = kv E ?c1 k"
    unfolding res using signal_modified_same [of E ?c1 k] by (simp add: same_kv_def)
  also have "\<dots> = if_live (now_ms c) (map_option (\<lambda>v. (fst v, at)) (kv E c k))"
    unfolding kv_expire [of E c k]
    by (cases "view E ?c k") (simp_all add: kv_def [of E ?c1] v now data_def)
  finally show "kv E (snd (ctx_set_expire E c k at)) k = if_live (now_ms c) (map_option (\<lambda>v. (fst v, at)) (kv E c k))" .
qed

subsection \<open>The shape of the locked shards\<close>

text \<open>No operation adds, drops or reorders locks, or changes the number of databases: \<open>shape\<close> stays.\<close>

definition guards_shape :: "guards \<Rightarrow> (nat \<times> nat) list \<times> nat" where
  "guards_shape g = (map (\<lambda>(i, s). (i, length (dbs s))) (g_guards g), g_mask g)"

definition shape :: "ctx \<Rightarrow> ((nat \<times> nat) list \<times> nat) \<times> nat \<times> shard_map" where
  "shape c = (guards_shape (shards c), now_ms c, srv_map c)"

lemma shape_cong: "shards c' = shards c \<Longrightarrow> now_ms c' = now_ms c \<Longrightarrow> srv_map c' = srv_map c \<Longrightarrow> shape c' = shape c"
  by (simp add: shape_def)

lemma assoc_put_shape:
  "map_of gs i = Some s \<Longrightarrow> length (dbs x) = length (dbs s) \<Longrightarrow>
     map (\<lambda>(i, s). (i, length (dbs s))) (assoc_put i x gs) = map (\<lambda>(i, s). (i, length (dbs s))) gs"
  by (induction gs) (auto split: if_splits)

lemma put_shard_shape:
  "guard_shard g i = Some s \<Longrightarrow> length (dbs x) = length (dbs s) \<Longrightarrow> guards_shape (put_shard g i x) = guards_shape g"
  by (simp add: guards_shape_def guard_shard_def put_shard_def assoc_put_shape)

lemma map_shard_shape:
  assumes "\<And>s. length (dbs (f s)) = length (dbs s)" shows "shape (map_shard E k f c) = shape c"
proof (cases "ctx_shard E c k")
  case (Some s)
  then have "guard_shard (shards c) (key_idx E c k) = Some s" by (simp add: ctx_shard_def for_key_def key_idx_def)
  from put_shard_shape [OF this, of "f s"] show ?thesis by (simp add: map_shard_def Some shape_def assms)
qed (simp add: map_shard_def)

lemma map_db_shape [simp]: "shape (map_db E k f c) = shape c"
  by (auto simp: map_db_def shard_put_db_def intro: map_shard_shape split: option.split)

lemma effects_shape [simp]:
  "shape (bump_shard_dirty E k c) = shape c" "shape (map_shard E k (\<lambda>s. shard_propagate s n argv) c) = shape c"
  "shape (publish E c cls ev k) = shape c" "shape (ctx_notify E c cls ev k) = shape c"
  "shape (propagate_argv c argv) = shape c" "shape (propagate_none c) = shape c"
  by (auto simp: bump_shard_dirty_def shard_propagate_def publish_def ctx_notify_def propagate_argv_def propagate_none_def
      intro: map_shard_shape shape_cong)

lemma shape_upd [simp]:
  "shape (c\<lparr>srv_dirty := a, expired_keys := b\<rparr>) = shape c" "shape (c\<lparr>dirty := a, srv_dirty := b\<rparr>) = shape c"
  "shape (c\<lparr>keyspace_misses := a\<rparr>) = shape c" "shape (c\<lparr>keyspace_hits := a\<rparr>) = shape c" "shape (c\<lparr>out := w\<rparr>) = shape c"
  "shape (c\<lparr>client := cl\<rparr>) = shape c"
  by (simp_all add: shape_def)

lemma lookup_shape [simp]:
  "shape (snd (expire_if_needed E c k)) = shape c" "shape (touch_key E k c) = shape c" "shape (signal_modified E c k) = shape c"
  by (simp_all add: expire_if_needed_def touch_key_def signal_modified_def Let_def split: option.split)

lemma ops_shape [simp]:
  "shape (snd (lookup_read E c k)) = shape c" "shape (snd (lookup_write E c k)) = shape c" "shape (snd (ctx_exists E c k)) = shape c"
  "shape (snd (ctx_expire_at E c k)) = shape c" "shape (snd (ctx_set_expire E c k at)) = shape c" "shape (ctx_insert E c k r at) = shape c"
  "shape (snd (ctx_remove E c k)) = shape c"
  by (simp_all add: lookup_read_def lookup_write_def ctx_exists_def ctx_expire_at_def ctx_set_expire_def ctx_insert_def ctx_remove_def
      Let_def split: option.split)

lemma read_shape [simp]: "shape (snd (get_str_read E c k)) = shape c"
proof -
  obtain r c1 where l: "lookup_read E c k = (r, c1)" by (rule prod.exhaust)
  then have "shape c1 = shape c" using ops_shape(1) [of E c k] by (simp only: l snd_conv)
  then show ?thesis by (simp add: get_str_read_def l split: option.split robj.split)
qed

text \<open>The connection side of a context: its client and its block request. Keyspace operations leave
  both alone.\<close>

definition conn :: "ctx \<Rightarrow> client_state \<times> block_request option \<times> reply_writer" where
  "conn c = (client c, block c, out c)"

lemma conn_cong: "client c' = client c \<Longrightarrow> block c' = block c \<Longrightarrow> out c' = out c \<Longrightarrow> conn c' = conn c"
  by (simp add: conn_def)

lemma effects_conn [simp]:
  "conn (map_db E k f c) = conn c" "conn (map_shard E k g c) = conn c" "conn (bump_shard_dirty E k c) = conn c"
  "conn (publish E c cls ev k) = conn c" "conn (ctx_notify E c cls ev k) = conn c" "conn (propagate_argv c argv) = conn c"
  "conn (propagate_none c) = conn c"
  by (simp_all add: conn_def ctx_notify_def propagate_argv_def propagate_none_def)

lemma conn_upd [simp]:
  "conn (c\<lparr>srv_dirty := a, expired_keys := b\<rparr>) = conn c" "conn (c\<lparr>dirty := a, srv_dirty := b\<rparr>) = conn c"
  "conn (c\<lparr>keyspace_misses := a\<rparr>) = conn c" "conn (c\<lparr>keyspace_hits := a\<rparr>) = conn c"
  by (simp_all add: conn_def)

lemma ops_conn [simp]:
  "conn (snd (expire_if_needed E c k)) = conn c" "conn (touch_key E k c) = conn c" "conn (signal_modified E c k) = conn c"
  "conn (ctx_insert E c k r at) = conn c"
  by (simp_all add: expire_if_needed_def touch_key_def signal_modified_def ctx_insert_def Let_def split: option.split)

lemma lookups_conn [simp]:
  "conn (snd (lookup_read E c k)) = conn c" "conn (snd (lookup_write E c k)) = conn c" "conn (snd (ctx_exists E c k)) = conn c"
  "conn (snd (ctx_expire_at E c k)) = conn c" "conn (snd (ctx_set_expire E c k at)) = conn c" "conn (snd (ctx_remove E c k)) = conn c"
  by (simp_all add: lookup_read_def lookup_write_def ctx_exists_def ctx_expire_at_def ctx_set_expire_def ctx_remove_def
      Let_def split: option.split)

lemma read_conn [simp]: "conn (snd (get_str_read E c k)) = conn c"
proof -
  obtain r c1 where l: "lookup_read E c k = (r, c1)" by (rule prod.exhaust)
  then have "conn c1 = conn c" using lookups_conn(1) [of E c k] by (simp only: l snd_conv)
  then show ?thesis by (simp add: get_str_read_def l split: option.split robj.split)
qed

subsection \<open>The contract for handlers\<close>

locale handler_api =
  fixes val :: "'s \<Rightarrow> key \<Rightarrow> (robj \<times> nat option) option" and has :: "'s \<Rightarrow> key \<Rightarrow> bool" and time :: "'s \<Rightarrow> nat"
    and rd :: "'s \<Rightarrow> key \<Rightarrow> robj option \<times> 's" and ex :: "'s \<Rightarrow> key \<Rightarrow> bool \<times> 's"
    and ins :: "'s \<Rightarrow> key \<Rightarrow> robj \<Rightarrow> nat option \<Rightarrow> 's" and del :: "'s \<Rightarrow> key \<Rightarrow> bool \<times> 's"
  assumes rd_val: "fst (rd s k) = map_option fst (val s k)" and rd_keeps: "val (snd (rd s k)) k' = val s k'"
    and ex_val: "fst (ex s k) \<longleftrightarrow> val s k \<noteq> None" and ex_keeps: "val (snd (ex s k)) k' = val s k'"
    and ins_val: "has s k \<Longrightarrow> val (ins s k r at) k = (if live (time s) (r, at) then Some (r, at) else None)"
    and ins_keeps: "k' \<noteq> k \<Longrightarrow> val (ins s k r at) k' = val s k'" and ins_has: "has (ins s k r at) k' = has s k'"
    and ins_time: "time (ins s k r at) = time s"
    and del_val: "fst (del s k) \<longleftrightarrow> val s k \<noteq> None" and del_gone: "val (snd (del s k)) k = None"
    and del_keeps: "k' \<noteq> k \<Longrightarrow> val (snd (del s k)) k' = val s k'"
begin

lemma read_after_insert: "has s k \<Longrightarrow> live (time s) (r, at) \<Longrightarrow> fst (rd (ins s k r at) k) = Some r"
  by (simp add: rd_val ins_val)

lemma read_after_delete: "fst (rd (snd (del s k)) k) = None \<and> \<not> fst (ex (snd (del s k)) k)"
  by (simp add: rd_val ex_val del_gone)

lemma read_twice: "fst (rd (snd (rd s k)) k') = fst (rd s k')"
  by (simp add: rd_val rd_keeps)

text \<open>Inserting a list of values: the last one for each key is what remains.\<close>

fun ins_all :: "'s \<Rightarrow> (key \<times> robj) list \<Rightarrow> 's" where
  "ins_all s [] = s"
| "ins_all s ((k, r) # ps) = ins_all (ins s k r None) ps"

lemma ins_all_val:
  "(\<forall>(k, r) \<in> set ps. has s k) \<Longrightarrow> val (ins_all s ps) k = (case map_of (rev ps) k of Some r \<Rightarrow> Some (r, None) | None \<Rightarrow> val s k)"
proof (induction ps arbitrary: s)
  case (Cons p ps)
  obtain k1 r1 where p: "p = (k1, r1)" by (cases p)
  have "val (ins_all s (p # ps)) k = (case map_of (rev ps) k of Some r \<Rightarrow> Some (r, None) | None \<Rightarrow> val (ins s k1 r1 None) k)"
    using Cons p by (simp add: ins_has)
  then show ?case using Cons.prems p
    by (cases "k = k1") (auto simp: ins_val ins_keeps live_def map_add_def split: option.splits)
qed simp

end

interpretation ctx: handler_api "kv E" "reach E" now_ms "lookup_read E" "ctx_exists E" "ctx_insert E" "ctx_remove E" for E
proof unfold_locales
  fix s k k' r at
  show "fst (lookup_read E s k) = map_option fst (kv E s k)" "kv E (snd (lookup_read E s k)) k' = kv E s k'"
    using lookup_read_kv [of E s k] by (simp_all add: same_kv_def)
  show "fst (ctx_exists E s k) \<longleftrightarrow> kv E s k \<noteq> None" "kv E (snd (ctx_exists E s k)) k' = kv E s k'"
    using ctx_exists_kv [of E s k] by (simp_all add: same_kv_def)
  show "reach E s k \<Longrightarrow> kv E (ctx_insert E s k r at) k = (if live (now_ms s) (r, at) then Some (r, at) else None)"
    by (rule ctx_insert_live)
  show "k' \<noteq> k \<Longrightarrow> kv E (ctx_insert E s k r at) k' = kv E s k'" "reach E (ctx_insert E s k r at) k' = reach E s k'"
    "now_ms (ctx_insert E s k r at) = now_ms s"
    using ctx_insert_kv(1) [of E k s r at] by (simp_all add: only_at_def)
  show "fst (ctx_remove E s k) \<longleftrightarrow> kv E s k \<noteq> None" "kv E (snd (ctx_remove E s k)) k = None" by (rule ctx_remove_kv)+
  show "k' \<noteq> k \<Longrightarrow> kv E (snd (ctx_remove E s k)) k' = kv E s k'" using ctx_remove_kv(3) [of E k s] by (simp add: only_at_def)
qed

end
