(* ===== verification/String_Cmd.thy ===== *)
theory String_Cmd
  imports Ctx
begin

text \<open>
  The string commands of \<^verbatim>\<open>src/src/command/string.rs\<close>: \<^verbatim>\<open>GET\<close>, \<^verbatim>\<open>STRLEN\<close>, \<^verbatim>\<open>SET\<close> with its options,
  \<^verbatim>\<open>MGET\<close> and \<^verbatim>\<open>MSET\<close>, as handlers from a context and the arguments to a result and the context
  left behind, and their registration.
\<close>

type_synonym handler_result = "(cmd_error + unit) \<times> ctx"

datatype str_value = VRaw bytes | VInt int

definition detach :: "strobj \<Rightarrow> str_value" where
  "detach o' =
     (case str_as_slice o' of
        Some b \<Rightarrow> VRaw b
      | None \<Rightarrow> VInt (case str_as_i64 o' of Some v \<Rightarrow> v | None \<Rightarrow> 0))"

definition with_out :: "(reply_writer \<Rightarrow> reply_writer) \<Rightarrow> ctx \<Rightarrow> ctx" where
  "with_out f c = c\<lparr>out := f (out c)\<rparr>"

definition write_opt :: "env \<Rightarrow> ctx \<Rightarrow> str_value option \<Rightarrow> ctx" where
  "write_opt E c v =
     with_out (\<lambda>w. case v of
         None \<Rightarrow> reply_null w
       | Some (VRaw b) \<Rightarrow> reply_bulk (env_itoa E) w b
       | Some (VInt i) \<Rightarrow> reply_bulk_i64 (env_itoa E) w i) c"

definition cmd_get :: "env \<Rightarrow> ctx \<Rightarrow> bytes list \<Rightarrow> handler_result" where
  "cmd_get E c args =
     (case args_at args 1 of
        Inl e \<Rightarrow> (Inl e, c)
      | Inr k \<Rightarrow>
          (case get_str_read E c k of
             (Inl e, c) \<Rightarrow> (Inl e, c)
           | (Inr v, c) \<Rightarrow> (Inr (), write_opt E c (map_option detach v))))"

definition cmd_strlen :: "env \<Rightarrow> ctx \<Rightarrow> bytes list \<Rightarrow> handler_result" where
  "cmd_strlen E c args =
     (case args_at args 1 of
        Inl e \<Rightarrow> (Inl e, c)
      | Inr k \<Rightarrow>
          (case get_str_read E c k of
             (Inl e, c) \<Rightarrow> (Inl e, c)
           | (Inr v, c) \<Rightarrow>
               (let len = (case v of Some o' \<Rightarrow> str_len (env_itoa E) o' | None \<Rightarrow> 0) in
                (Inr (), with_out (\<lambda>w. reply_int (env_itoa E) w (as_i64 len)) c))))"

subsection \<open>SET\<close>

record set_options =
  o_nx :: bool
  o_xx :: bool
  o_get :: bool
  o_keepttl :: bool
  o_expire_at_ms :: "nat option"
  o_has_expire :: bool

definition set_options_default :: set_options where
  "set_options_default =
     \<lparr>o_nx = False, o_xx = False, o_get = False, o_keepttl = False, o_expire_at_ms = None, o_has_expire = False\<rparr>"

definition saturating_add_i64 :: "int \<Rightarrow> int \<Rightarrow> int" where
  "saturating_add_i64 a b = max (- (2 ^ 63)) (min (2 ^ 63 - 1) (a + b))"

definition invalid_expire :: cmd_error where
  "invalid_expire = error_err (ascii ''invalid expire time in '' @ [39] @ ascii ''set'' @ [39] @ ascii '' command'')"

definition is_kw :: "bytes \<Rightarrow> string \<Rightarrow> bool" where
  "is_kw tok s = eq_ignore_ascii_case tok (ascii s)"

definition expire_option :: "bytes \<Rightarrow> bytes \<Rightarrow> nat \<Rightarrow> cmd_error + nat" where
  "expire_option tok raw now =
     (case string2ll raw of
        None \<Rightarrow> Inl NotAnInteger
      | Some v \<Rightarrow>
          (let is_relative = is_kw tok ''EX'' \<or> is_kw tok ''PX'';
               is_seconds = is_kw tok ''EX'' \<or> is_kw tok ''EXAT'' in
           if is_relative \<and> v \<le> 0 then Inl invalid_expire
           else if is_seconds \<and> \<not> fits 8 (v * 1000) then Inl invalid_expire
           else
             (let ms = (if is_seconds then v * 1000 else v);
                  at = (if is_relative then saturating_add_i64 (as_i64 now) ms else ms)
              in Inr (nat (max at 0)))))"

fun parse_set_options_loop :: "bytes list \<Rightarrow> nat \<Rightarrow> set_options \<Rightarrow> cmd_error + set_options" where
  "parse_set_options_loop [] now opt = Inr opt"
| "parse_set_options_loop (tok # rest) now opt =
     (if is_kw tok ''NX'' then
        (if o_xx opt then Inl Syntax else parse_set_options_loop rest now (opt\<lparr>o_nx := True\<rparr>))
      else if is_kw tok ''XX'' then
        (if o_nx opt then Inl Syntax else parse_set_options_loop rest now (opt\<lparr>o_xx := True\<rparr>))
      else if is_kw tok ''GET'' then parse_set_options_loop rest now (opt\<lparr>o_get := True\<rparr>)
      else if is_kw tok ''KEEPTTL'' then
        (if o_has_expire opt then Inl Syntax else parse_set_options_loop rest now (opt\<lparr>o_keepttl := True\<rparr>))
      else if is_kw tok ''EX'' \<or> is_kw tok ''PX'' \<or> is_kw tok ''EXAT'' \<or> is_kw tok ''PXAT'' then
        (if o_has_expire opt \<or> o_keepttl opt then Inl Syntax
         else (case rest of
                 [] \<Rightarrow> Inl Syntax
               | raw # rest' \<Rightarrow>
                   (case expire_option tok raw now of
                      Inl e \<Rightarrow> Inl e
                    | Inr at \<Rightarrow>
                        parse_set_options_loop rest' now (opt\<lparr>o_expire_at_ms := Some at, o_has_expire := True\<rparr>))))
      else Inl Syntax)"

definition parse_set_options :: "bytes list \<Rightarrow> nat \<Rightarrow> cmd_error + set_options" where
  "parse_set_options args now = parse_set_options_loop (drop 3 args) now set_options_default"

definition set_reply :: "env \<Rightarrow> ctx \<Rightarrow> str_value option option \<Rightarrow> (reply_writer \<Rightarrow> reply_writer) \<Rightarrow> ctx" where
  "set_reply E c old f = (case old of Some v \<Rightarrow> write_opt E c v | None \<Rightarrow> with_out f c)"

definition set_store :: "env \<Rightarrow> ctx \<Rightarrow> key \<Rightarrow> bytes \<Rightarrow> nat option \<Rightarrow> str_value option option \<Rightarrow> ctx" where
  "set_store E c k value expire_at old =
     (let c = ctx_insert E c k (RStr (str_from_bytes value)) expire_at;
          c = ctx_notify E c STRING (ascii ''set'') k;
          c = (case expire_at of
                 Some at \<Rightarrow> propagate_argv c [ascii ''SET'', k, value, ascii ''PXAT'', env_itoa E (int at)]
               | None \<Rightarrow> c)
      in set_reply E c old reply_ok)"

definition cmd_set :: "env \<Rightarrow> ctx \<Rightarrow> bytes list \<Rightarrow> handler_result" where
  "cmd_set E c args =
     (case (args_at args 1, args_at args 2) of
        (Inl e, _) \<Rightarrow> (Inl e, c)
      | (_, Inl e) \<Rightarrow> (Inl e, c)
      | (Inr k, Inr value) \<Rightarrow>
          (case parse_set_options args (now_ms c) of
             Inl e \<Rightarrow> (Inl e, c)
           | Inr opts \<Rightarrow>
               (case (if o_get opts
                      then (case get_str_read E c k of
                              (Inl e, c) \<Rightarrow> (Inl e, c)
                            | (Inr v, c) \<Rightarrow> (Inr (Some (map_option detach v)), c))
                      else (Inr None, c)) of
                  (Inl e, c) \<Rightarrow> (Inl e, c)
                | (Inr old, c) \<Rightarrow>
                    (case ctx_exists E c k of (ex, c) \<Rightarrow>
                       if (o_nx opts \<and> ex) \<or> (o_xx opts \<and> \<not> ex)
                       then (Inr (), set_reply E (propagate_none c) old reply_null)
                       else
                         (case (if o_keepttl opts then ctx_expire_at E c k else (o_expire_at_ms opts, c)) of
                            (expire_at, c) \<Rightarrow> (Inr (), set_store E c k value expire_at old))))))"

subsection \<open>MGET and MSET\<close>

fun mget_loop :: "env \<Rightarrow> ctx \<Rightarrow> bytes list \<Rightarrow> ctx" where
  "mget_loop E c [] = c"
| "mget_loop E c (k # ks) =
     (case get_str_read E c k of (r, c) \<Rightarrow>
        mget_loop E (write_opt E c (case r of Inr v \<Rightarrow> map_option detach v | Inl _ \<Rightarrow> None)) ks)"

definition cmd_mget :: "env \<Rightarrow> ctx \<Rightarrow> bytes list \<Rightarrow> handler_result" where
  "cmd_mget E c args =
     (Inr (), mget_loop E (with_out (\<lambda>w. reply_array (env_itoa E) w (length args - 1)) c) (drop 1 args))"

fun mset_loop :: "env \<Rightarrow> ctx \<Rightarrow> bytes list \<Rightarrow> ctx" where
  "mset_loop E c (k # value # rest) =
     mset_loop E (ctx_notify E (ctx_insert E c k (RStr (str_from_bytes value)) None) STRING (ascii ''set'') k) rest"
| "mset_loop E c _ = c"

definition cmd_mset :: "env \<Rightarrow> ctx \<Rightarrow> bytes list \<Rightarrow> handler_result" where
  "cmd_mset E c args =
     (if length args < 3 \<or> (length args - 1) mod 2 \<noteq> 0 then (Inl (WrongArity (ascii ''mset'')), c)
      else (Inr (), with_out reply_ok (mset_loop E c (drop 1 args))))"

fun mset_keys_loop :: "nat \<Rightarrow> nat \<Rightarrow> nat list" where
  "mset_keys_loop 0 i = []"
| "mset_keys_loop (Suc 0) i = [i]"
| "mset_keys_loop (Suc (Suc n)) i = i # mset_keys_loop n (i + 2)"

definition mset_keys :: "bytes list \<Rightarrow> nat list" where
  "mset_keys args = mset_keys_loop (length args - 1) 1"

subsection \<open>Registration\<close>

type_synonym handler = "env \<Rightarrow> ctx \<Rightarrow> bytes list \<Rightarrow> handler_result"

unbundle bit_operations_syntax

definition string_specs :: "handler command_spec list" where
  "string_specs =
     [\<lparr>cs_name = ascii ''set'', arity = - 3, flags = WRITE OR DENYOOM, first_key = 1, last_key = 1, key_step = 1,
        handler = cmd_set, get_keys = None\<rparr>,
      \<lparr>cs_name = ascii ''get'', arity = 2, flags = READONLY OR FAST, first_key = 1, last_key = 1, key_step = 1,
        handler = cmd_get, get_keys = None\<rparr>,
      \<lparr>cs_name = ascii ''strlen'', arity = 2, flags = READONLY OR FAST, first_key = 1, last_key = 1, key_step = 1,
        handler = cmd_strlen, get_keys = None\<rparr>,
      \<lparr>cs_name = ascii ''mget'', arity = - 2, flags = READONLY OR FAST, first_key = 1, last_key = - 1, key_step = 1,
        handler = cmd_mget, get_keys = None\<rparr>,
      \<lparr>cs_name = ascii ''mset'', arity = - 3, flags = WRITE OR DENYOOM, first_key = 1, last_key = - 1, key_step = 2,
        handler = cmd_mset, get_keys = None\<rparr>]"

definition string_register :: "handler command_table \<Rightarrow> handler command_table option" where
  "string_register t = table_add_all t string_specs"

end
