(* ===== verification/String_Proofs.thy ===== *)
theory String_Proofs
  imports String_Cmd Ctx_Proofs
begin

text \<open>
  Correctness of the string commands over the live keyspace: what every branch of \<^verbatim>\<open>SET\<close> stores and
  propagates, what \<^verbatim>\<open>GET\<close> and \<^verbatim>\<open>MGET\<close> reply, and that replaying a propagated \<^verbatim>\<open>SET\<close> stores the same
  value with the same deadline.
\<close>

subsection \<open>Replies\<close>

lemma with_out_kv [simp]:
  "kv E (with_out f c) k = kv E c k" "reach E (with_out f c) k = reach E c k" "out (with_out f c) = f (out c)"
  "prop_kind (with_out f c) = prop_kind c" "prop_buf (with_out f c) = prop_buf c" "now_ms (with_out f c) = now_ms c"
  by (simp_all add: with_out_def kv_def)

lemma write_opt_kv [simp]:
  "kv E (write_opt E c v) k = kv E c k" "reach E (write_opt E c v) k = reach E c k" "prop_kind (write_opt E c v) = prop_kind c"
  "prop_buf (write_opt E c v) = prop_buf c" "now_ms (write_opt E c v) = now_ms c"
  by (simp_all add: write_opt_def)

definition str_reply :: "env \<Rightarrow> reply_writer \<Rightarrow> strobj option \<Rightarrow> reply_writer" where
  "str_reply E w v = (case v of None \<Rightarrow> reply_null w | Some s \<Rightarrow> reply_bulk (env_itoa E) w (str_to_bytes (env_itoa E) s))"

lemma write_opt_out: "out (write_opt E c (map_option detach v)) = str_reply E (out c) v"
  by (auto simp: write_opt_def str_reply_def detach_def str_as_slice_def str_as_i64_def str_to_bytes_def reply_bulk_i64_def
      split: option.splits strobj.splits)

definition kv_str :: "(robj \<times> nat option) option \<Rightarrow> strobj option" where
  "kv_str v = (case v of Some (RStr s, _) \<Rightarrow> Some s | _ \<Rightarrow> None)"

subsection \<open>SET\<close>

lemma notify_kv [simp]:
  "kv E (ctx_notify E c cls ev k) k' = kv E c k'" "reach E (ctx_notify E c cls ev k) k' = reach E c k'"
  "prop_kind (ctx_notify E c cls ev k) = prop_kind c" "prop_buf (ctx_notify E c cls ev k) = prop_buf c"
  "out (ctx_notify E c cls ev k) = out c" "propagating (ctx_notify E c cls ev k) = propagating c" "now_ms (ctx_notify E c cls ev k) = now_ms c"
  by (simp_all add: ctx_notify_def kv_def)

lemma propagate_kv [simp]:
  "kv E (propagate_argv c argv) k = kv E c k" "reach E (propagate_argv c argv) k = reach E c k" "kv E (propagate_none c) k = kv E c k"
  "out (propagate_argv c argv) = out c" "out (propagate_none c) = out c"
  by (simp_all add: propagate_argv_def propagate_none_def kv_def)

lemma set_reply_kv [simp]:
  "kv E (set_reply E c old f) k = kv E c k" "prop_kind (set_reply E c old f) = prop_kind c" "prop_buf (set_reply E c old f) = prop_buf c"
  "now_ms (set_reply E c old f) = now_ms c" "reach E (set_reply E c old f) k = reach E c k"
  by (simp_all add: set_reply_def split: option.split)

lemma set_store_kv:
  assumes "reach E c k"
  shows "kv E (set_store E c k v at old) k =
      (if live (now_ms c) (RStr (str_from_bytes v), at) then Some (RStr (str_from_bytes v), at) else None)"
    and "k' \<noteq> k \<Longrightarrow> kv E (set_store E c k v at old) k' = kv E c k'"
  using ctx.ins_val [OF assms, of "RStr (str_from_bytes v)" at] ctx.ins_keeps [of k' k E c "RStr (str_from_bytes v)" at]
  by (cases at; simp add: set_store_def Let_def)+

lemma set_store_prop:
  "prop_buf (set_store E c k v at old) = (case at of
     Some t \<Rightarrow> if propagating c then prop_buf c @ [[ascii ''SET'', k, v, ascii ''PXAT'', env_itoa E (int t)]] else prop_buf c
   | None \<Rightarrow> prop_buf c)"
  using ctx_insert_kv(1) [of E k c "RStr (str_from_bytes v)" at]
  by (cases at) (simp_all add: set_store_def Let_def only_at_def propagate_argv_def)

text \<open>The value \<^verbatim>\<open>GET\<close> would have to report under the \<^verbatim>\<open>GET\<close> option: not a string is an error.\<close>

definition wrong_type :: "(robj \<times> nat option) option \<Rightarrow> bool" where
  "wrong_type v \<longleftrightarrow> v \<noteq> None \<and> kv_str v = None"

lemma get_str_cases:
  "get_str_read E c k = (r, c1) \<Longrightarrow> same_kv E c c1 \<and> (if wrong_type (kv E c k) then r = Inl WrongType else r = Inr (kv_str (kv E c k)))"
  using get_str_read_kv [of E c k] by (auto simp: wrong_type_def kv_str_def split: option.splits prod.splits robj.splits)

lemma cmd_set_cases:
  assumes opts: "parse_set_options (nm # k # v # rest) (now_ms c) = Inr opt"
    and r: "cmd_set E c (nm # k # v # rest) = (r, c')"
  shows "\<exists>c1 old. same_kv E c c1 \<and> old = (if o_get opt then Some (map_option detach (kv_str (kv E c k))) else None) \<and>
    (if o_get opt \<and> wrong_type (kv E c k) then r = Inl WrongType \<and> c' = c1
     else r = Inr () \<and>
       (if (o_nx opt \<and> kv E c k \<noteq> None) \<or> (o_xx opt \<and> kv E c k = None)
        then c' = set_reply E (propagate_none c1) old reply_null
        else c' = set_store E c1 k v (if o_keepttl opt then Option.bind (kv E c k) snd else o_expire_at_ms opt) old))"
proof -
  have a: "args_at (nm # k # v # rest) 1 = Inr k" "args_at (nm # k # v # rest) 2 = Inr v"
    by (simp_all add: args_at_def nth_opt_def)
  obtain g c1 where g: "(if o_get opt then (case get_str_read E c k of (Inl e, c) \<Rightarrow> (Inl e, c)
        | (Inr v, c) \<Rightarrow> (Inr (Some (map_option detach v)), c)) else (Inr None, c)) = (g, c1)" by (rule prod.exhaust)
  have same1: "same_kv E c c1" and gt: "isl g \<longleftrightarrow> o_get opt \<and> wrong_type (kv E c k)" "isl g \<Longrightarrow> g = Inl WrongType"
    using g get_str_cases [of E c k] same_kv_refl
    by (auto split: if_splits prod.splits sum.splits)
  have gv: "g = Inr old \<Longrightarrow> old = (if o_get opt then Some (map_option detach (kv_str (kv E c k))) else None)" for old
    using g get_str_cases [of E c k] by (auto split: if_splits prod.splits sum.splits)
  show ?thesis
  proof (cases g)
    case (Inl e)
    then show ?thesis using r opts a g gt same1 by (auto simp: cmd_set_def)
  next
    case (Inr old)
    obtain ex c2 where x: "ctx_exists E c1 k = (ex, c2)" by (rule prod.exhaust)
    have kv1: "kv E c1 k = kv E c k" using same1 by (simp add: same_kv_def)
    have ex: "ex \<longleftrightarrow> kv E c k \<noteq> None" and same2: "same_kv E c c2"
      using ctx_exists_kv [of E c1 k] x kv1 same_kv_trans [OF same1] by auto
    obtain at c3 where t: "(if o_keepttl opt then ctx_expire_at E c2 k else (o_expire_at_ms opt, c2)) = (at, c3)" by (rule prod.exhaust)
    have kv2: "kv E c2 k = kv E c k" using same2 by (simp add: same_kv_def)
    have at: "at = (if o_keepttl opt then Option.bind (kv E c k) snd else o_expire_at_ms opt)" and same3: "same_kv E c c3"
      using ctx_expire_at_kv [of E c2 k] t kv2 same2 same_kv_trans [OF same2] by (auto split: if_splits)
    have res: "(r, c') = (if (o_nx opt \<and> ex) \<or> (o_xx opt \<and> \<not> ex) then (Inr (), set_reply E (propagate_none c2) old reply_null)
        else (Inr (), set_store E c3 k v at old))"
      using r opts a g Inr x t by (simp add: cmd_set_def cong: if_cong)
    have ok: "\<not> (o_get opt \<and> wrong_type (kv E c k))" using gt(1) Inr by simp
    show ?thesis
    proof (cases "(o_nx opt \<and> ex) \<or> (o_xx opt \<and> \<not> ex)")
      case True
      then show ?thesis using res ok same2 ex gv [OF Inr]
        by (intro exI [of _ c2] exI [of _ old]) auto
    next
      case False
      then show ?thesis using res ok same3 ex at gv [OF Inr]
        by (intro exI [of _ c3] exI [of _ old]) auto
    qed
  qed
qed


text \<open>\<open>set_deadline\<close> is the deadline a \<^verbatim>\<open>SET\<close> stores, \<open>set_skips\<close> the condition under which \<^verbatim>\<open>NX\<close> or \<^verbatim>\<open>XX\<close> abort it.\<close>

definition set_deadline :: "set_options \<Rightarrow> (robj \<times> nat option) option \<Rightarrow> nat option" where
  "set_deadline opt old = (if o_keepttl opt then Option.bind old snd else o_expire_at_ms opt)"

definition set_skips :: "set_options \<Rightarrow> (robj \<times> nat option) option \<Rightarrow> bool" where
  "set_skips opt old \<longleftrightarrow> (o_nx opt \<and> old \<noteq> None) \<or> (o_xx opt \<and> old = None)"

lemma set_reply_out:
  "out (set_reply E c (if g then Some (map_option detach v) else None) f) = (if g then str_reply E (out c) v else f (out c))"
  by (simp add: set_reply_def write_opt_out)

lemma set_store_out:
  "out (set_store E c k v at (if g then Some (map_option detach x) else None)) = (if g then str_reply E (out c) x else reply_ok (out c))"
  using ctx_insert_kv(1) [of E k c "RStr (str_from_bytes v)" at]
  by (cases at) (simp_all add: set_store_def Let_def set_reply_out only_at_def)

lemma propagate_none_fields [simp]: "prop_kind (propagate_none c) = PropSuppressed" "prop_buf (propagate_none c) = []"
  by (simp_all add: propagate_none_def)

lemma set_options_at_loop:
  "parse_set_options_loop args now opt = Inr opt' \<Longrightarrow> (\<forall>t. o_expire_at_ms opt = Some t \<longrightarrow> t < 2 ^ 63) \<Longrightarrow>
     o_expire_at_ms opt' = Some t \<Longrightarrow> t < 2 ^ 63"
proof (induction args now opt rule: parse_set_options_loop.induct)
  case (2 tok rest now opt)
  have ex: "t < 2 ^ 63" if "expire_option tok raw now = Inr t" for raw t
    using that by (auto simp: expire_option_def saturating_add_i64_def fits_def Let_def string2ll_Some_iff split: option.splits if_splits)
  show ?case using 2 ex by (auto split: if_splits list.splits sum.splits)
qed simp

lemma set_options_at: "parse_set_options args now = Inr opt \<Longrightarrow> o_expire_at_ms opt = Some t \<Longrightarrow> t < 2 ^ 63"
  using set_options_at_loop [of "drop 3 args" now set_options_default opt t] by (simp add: parse_set_options_def set_options_default_def)


lemma fits_nat: "t < 2 ^ 63 \<Longrightarrow> fits 8 (int t)"
  by (simp add: fits_def)

lemma parse_pxat:
  assumes "env_ok E" and "t < 2 ^ 63"
  shows "parse_set_options [ascii ''SET'', k, v, ascii ''PXAT'', env_itoa E (int t)] now
    = Inr (set_options_default\<lparr>o_expire_at_ms := Some t, o_has_expire := True\<rparr>)"
proof -
  have "string2ll (env_itoa E (int t)) = Some (int t)"
    using assms by (simp add: env_ok_def itoa_spec_def string2ll_Some_iff fits_nat)
  then show ?thesis
    by (simp add: parse_set_options_def expire_option_def is_kw_def eq_ignore_ascii_case_def ascii_def set_options_default_def
        to_ascii_lowercase_def Let_def)
qed

lemma cmd_set_effect:
  assumes "parse_set_options (nm # k # v # rest) (now_ms c) = Inr opt" and "reach E c k"
    and "cmd_set E c (nm # k # v # rest) = (r, c')" and "old = kv E c k"
  shows "if o_get opt \<and> wrong_type old then r = Inl WrongType \<and> same_kv E c c'
    else r = Inr () \<and> (\<forall>k'. k' \<noteq> k \<longrightarrow> kv E c' k' = kv E c k') \<and>
      (if set_skips opt old
       then kv E c' k = old \<and> prop_kind c' = PropSuppressed \<and> prop_buf c' = []
         \<and> out c' = (if o_get opt then str_reply E (out c) (kv_str old) else reply_null (out c))
       else kv E c' k = if_live (now_ms c) (Some (RStr (str_from_bytes v), set_deadline opt old))
         \<and> out c' = (if o_get opt then str_reply E (out c) (kv_str old) else reply_ok (out c))
         \<and> prop_buf c' = prop_buf c @ (case set_deadline opt old of
              Some t \<Rightarrow> if propagating c then [[ascii ''SET'', k, v, ascii ''PXAT'', env_itoa E (int t)]] else []
            | None \<Rightarrow> []))"
proof -
  obtain c1 o1 where c1: "same_kv E c c1" and o1: "o1 = (if o_get opt then Some (map_option detach (kv_str old)) else None)"
    and res: "if o_get opt \<and> wrong_type old then r = Inl WrongType \<and> c' = c1
     else r = Inr () \<and> (if set_skips opt old then c' = set_reply E (propagate_none c1) o1 reply_null
        else c' = set_store E c1 k v (set_deadline opt old) o1)"
    using cmd_set_cases [OF assms(1,3)] unfolding assms(4) set_skips_def set_deadline_def by blast
  have f: "kv E c1 k' = kv E c k'" "reach E c1 k" "out c1 = out c" "now_ms c1 = now_ms c" "propagating c1 = propagating c" "prop_buf c1 = prop_buf c" for k'
    using c1 assms(2) by (simp_all add: same_kv_def)
  consider "o_get opt \<and> wrong_type old" | "\<not> (o_get opt \<and> wrong_type old)" "set_skips opt old" | "\<not> (o_get opt \<and> wrong_type old)" "\<not> set_skips opt old" by blast
  then show ?thesis
  proof cases
    case 1 then show ?thesis using res c1 by (simp only: if_True simp_thms)
  next
    case 2
    then have "r = Inr ()" "c' = set_reply E (propagate_none c1) o1 reply_null" using res by (simp_all only: if_False if_True)
    then show ?thesis using 2 f assms(4) by (simp only: if_False if_True) (simp add: o1 set_reply_out)
  next
    case 3
    then have "r = Inr ()" "c' = set_store E c1 k v (set_deadline opt old) o1" using res by (simp_all only: if_False)
    then show ?thesis using 3 set_store_kv(1) [OF f(2), of v "set_deadline opt old" o1] set_store_kv(2) [OF f(2)] f
      by (simp only: if_False) (auto simp: o1 set_store_out set_store_prop if_live_def split: option.splits)
  qed
qed


subsection \<open>MGET and MSET\<close>

definition str_frame :: "bool \<Rightarrow> bytes option \<Rightarrow> bytes" where
  "str_frame resp3 v =
     (case v of None \<Rightarrow> ascii (if resp3 then ''_'' else ''$-1'') @ CRLF
      | Some b \<Rightarrow> 36 # digits (length b) @ CRLF @ b @ CRLF)"

lemma str_frame_frame: "frame (str_frame resp3 v)"
  using null3 null_bulk bulk by (auto simp: str_frame_def split: option.split)

lemma str_reply_buf:
  assumes "env_ok E"
  shows "rw_buf (str_reply E w v) = rw_buf w @ str_frame (is_resp3 w) (map_option (str_to_bytes decimal) v)"
    "is_resp3 (str_reply E w v) = is_resp3 w"
proof -
  have "env_itoa E = decimal" using assms by (auto simp: env_ok_def itoa_spec_def)
  then show "rw_buf (str_reply E w v) = rw_buf w @ str_frame (is_resp3 w) (map_option (str_to_bytes decimal) v)"
    "is_resp3 (str_reply E w v) = is_resp3 w"
    by (auto simp: str_reply_def str_frame_def reply_null_def reply_bulk_def split: option.split)
qed

lemma mget_loop_kv: "kv E (mget_loop E c ks) k = kv E c k"
proof (induction ks arbitrary: c)
  case (Cons k' ks)
  then show ?case using get_str_read_kv(2) [of E c k'] by (simp add: case_prod_beta same_kv_def)
qed simp

lemma mget_loop_out:
  assumes "env_ok E"
  shows "rw_buf (out (mget_loop E c ks)) = rw_buf (out c) @ concat (map (\<lambda>k. str_frame (is_resp3 (out c)) (map_option (str_to_bytes decimal) (kv_str (kv E c k)))) ks)"
proof (induction ks arbitrary: c)
  case (Cons k' ks)
  obtain r c1 where g: "get_str_read E c k' = (r, c1)" by (rule prod.exhaust)
  have s: "same_kv E c c1" and v: "(case r of Inr v \<Rightarrow> map_option detach v | Inl _ \<Rightarrow> None) = map_option detach (kv_str (kv E c k'))"
    using get_str_cases [OF g] by (auto simp: wrong_type_def split: if_splits)
  have o: "out c1 = out c" "kv E c1 = kv E c" using s by (auto simp: same_kv_def)
  have kvw: "kv E (write_opt E c1 x) = kv E c" for x using o(2) by (intro ext) simp
  show ?case
    by (simp add: g v Cons.IH kvw write_opt_out o str_reply_buf [OF assms])
qed simp

definition mset_args :: "(bytes \<times> bytes) list \<Rightarrow> bytes list" where
  "mset_args ps = concat (map (\<lambda>(k, v). [k, v]) ps)"

lemma length_mset_args [simp]: "length (mset_args ps) = 2 * length ps"
  by (induction ps) (auto simp: mset_args_def)

lemma mset_loop_kv:
  "\<forall>p \<in> set ps. reach E c (fst p) \<Longrightarrow>
     kv E (mset_loop E c (mset_args ps)) k =
       (case map_of (rev ps) k of Some v \<Rightarrow> Some (RStr (str_from_bytes v), None) | None \<Rightarrow> kv E c k)
     \<and> out (mset_loop E c (mset_args ps)) = out c"
proof (induction ps arbitrary: c)
  case (Cons p ps)
  obtain k1 v1 where p: "p = (k1, v1)" by (cases p)
  let ?r = "RStr (str_from_bytes v1)"
  let ?c = "ctx_notify E (ctx_insert E c k1 ?r None) STRING (ascii ''set'') k1"
  have step: "mset_loop E c (mset_args (p # ps)) = mset_loop E ?c (mset_args ps)" by (simp add: p mset_args_def)
  have keep: "reach E ?c k' = reach E c k'" "out ?c = out c" for k' using ctx_insert_kv(1) [of E k1 c ?r None] by (simp_all add: only_at_def)
  have val: "kv E ?c k = (if k = k1 then Some (?r, None) else kv E c k)"
    using ctx.ins_val [of E c k1 ?r None] ctx.ins_keeps [of k k1 E c ?r None] Cons.prems p by (simp add: live_def)
  have "\<forall>q \<in> set ps. reach E ?c (fst q)" using Cons.prems unfolding keep by simp
  from Cons.IH [OF this] show ?case
    unfolding step keep val by (auto simp: p map_add_def split: option.splits)
qed (simp add: mset_args_def)


subsection \<open>A server with one shard, for concrete runs\<close>

definition demo_env :: env where
  "demo_env = \<lparr>env_mc = find_byte, env_itoa = decimal, env_hit = (\<lambda>_ _. True)\<rparr>"

definition demo_ctx :: "nat \<Rightarrow> ctx" where
  "demo_ctx t = \<lparr>out = writer_new [] 2, client = client_new 1 [] [] t False, srv_map = shard_map_new 1 1,
     shards = lock_all (shard_map_new 1 1), now_ms = t, cfg = config_default, srv_cfg = config_default, lfu = False, propagating = True, sink = False, srv_dirty = 0, expired_keys = 0,
     keyspace_hits = 0, keyspace_misses = 0, published = [], dirty = 0, prop_kind = PropDefault, prop_buf = [], block = None\<rparr>"

lemma demo_env_ok: "env_ok demo_env"
  by (simp add: env_ok_def demo_env_def memchr_spec_find_byte itoa_spec_decimal)

lemma demo_db: "ctx_db demo_env (demo_ctx t) k = Some (db_new 0)"
proof -
  have "shard_map_new 1 1 = \<lparr>sm_shards = [\<lparr>h_shard = shard_new 0 1, h_dirty = 0, h_keys = 0, h_expires = 0, h_mem = 0\<rparr>], sm_mask = 0, sm_databases = 1\<rparr>"
    by (simp add: shard_map_new_def Let_def next_power_of_two.simps)
  then show ?thesis
    by (simp add: ctx_db_def ctx_shard_def demo_ctx_def client_new_def for_key_def lock_all_def sm_len_def key_shard_index_def guard_shard_def
        shard_db_def shard_new_def)
qed

lemma demo_reach: "reach demo_env (demo_ctx t) k"
  by (simp add: reach_def demo_db)

lemma demo_kv: "kv demo_env (demo_ctx t) k = None"
  by (simp add: kv_def view_def demo_db db_lookup_def db_new_def if_live_def)

lemma demo_fields [simp]:
  "now_ms (demo_ctx t) = t" "out (demo_ctx t) = writer_new [] 2" "propagating (demo_ctx t)" "prop_buf (demo_ctx t) = []"
  by (simp_all add: demo_ctx_def)

lemma parse_plain: "parse_set_options [nm, k, v] now = Inr set_options_default"
  by (simp add: parse_set_options_def)


lemma cmd_get_string:
  assumes "env_ok E" and "kv E c k = Some (RStr (str_from_bytes v), at)" and "cmd_get E c [nm, k] = (r, c')"
  shows "r = Inr () \<and> rw_buf (out c') = rw_buf (out c) @ str_frame (is_resp3 (out c)) (Some v) \<and> (\<forall>k'. kv E c' k' = kv E c k')"
proof -
  have a: "args_at [nm, k] 1 = Inr k" by (simp add: args_at_def nth_opt_def)
  obtain g c1 where g: "get_str_read E c k = (g, c1)" by (rule prod.exhaust)
  have s: "same_kv E c c1" "g = Inr (Some (str_from_bytes v))"
    using get_str_cases [OF g] assms(2) by (auto simp: wrong_type_def kv_str_def)
  have "str_to_bytes decimal (str_from_bytes v) = v" using str_from_bytes_roundtrip [OF itoa_spec_decimal] by simp
  then show ?thesis using assms(3) s a g write_opt_out [of E c1 "Some (str_from_bytes v)"] str_reply_buf [OF assms(1)]
    by (auto simp: cmd_get_def same_kv_def)
qed

lemma cmd_mset_kv:
  assumes "ps \<noteq> []" and "\<forall>p \<in> set ps. reach E c (fst p)" and "cmd_mset E c (nm # mset_args ps) = (r, c')"
  shows "r = Inr ()" "out c' = reply_ok (out c)"
    "kv E c' k = (case map_of (rev ps) k of Some v \<Rightarrow> Some (RStr (str_from_bytes v), None) | None \<Rightarrow> kv E c k)"
proof -
  have "length ps \<ge> 1" using assms(1) by (cases ps) auto
  then have "(r, c') = (Inr (), with_out reply_ok (mset_loop E c (mset_args ps)))"
    using assms(3) by (auto simp: cmd_mset_def split: if_splits)
  then show "r = Inr ()" "out c' = reply_ok (out c)"
    "kv E c' k = (case map_of (rev ps) k of Some v \<Rightarrow> Some (RStr (str_from_bytes v), None) | None \<Rightarrow> kv E c k)"
    using mset_loop_kv [OF assms(2)] by simp_all
qed

subsection \<open>Properties\<close>



text \<open>A value that was set is what a \<^verbatim>\<open>GET\<close> of the same connection replies: byte for byte, whatever
  encoding the string object chose.\<close>

theorem get_after_set:
  assumes "env_ok E" and "reach E c k"
    and "cmd_set E c [nm, k, v] = (r, c1)" and "cmd_get E c1 [nm', k] = (r', c2)"
  shows "r = Inr () \<and> r' = Inr ()
    \<and> rw_buf (out c2) = rw_buf (out c) @ (ascii ''+OK'' @ CRLF) @ (36 # digits (length v) @ CRLF @ v @ CRLF)"
proof -
  have set: "r = Inr ()" "kv E c1 k = Some (RStr (str_from_bytes v), None)" "out c1 = reply_ok (out c)"
    using cmd_set_effect [OF parse_plain assms(2,3) refl]
    by (simp_all add: set_options_default_def set_skips_def set_deadline_def if_live_def live_def)
  then show ?thesis using cmd_get_string [OF assms(1) set(2) assms(4)] by (simp add: str_frame_def reply_ok_def)
qed

theorem get_after_set_witness:
  "rw_buf (out (snd (cmd_get demo_env (snd (cmd_set demo_env (demo_ctx 5) [[115], [107], [48, 55]])) [[103], [107]])))
     = (ascii ''+OK'' @ CRLF) @ (36 # digits 2 @ CRLF @ [48, 55] @ CRLF)"
  using get_after_set [OF demo_env_ok demo_reach surjective_pairing surjective_pairing, of 5 "[115]" "[107]" "[48, 55]" "[103]"]
  by (simp add: writer_new_def numeral_2_eq_2)



text \<open>\<^verbatim>\<open>MSET\<close> followed by \<^verbatim>\<open>MGET\<close>, across any shards the command locked: every key holds the last value
  given for it and no deadline, the other keys are unchanged, and the reply to \<^verbatim>\<open>MGET\<close> is one array
  with, in order, each key's value or the null where the key is missing or holds no string.\<close>

theorem mset_then_mget:
  assumes "env_ok E" and "ps \<noteq> []" and "\<forall>p \<in> set ps. reach E c (fst p)"
    and "cmd_mset E c (nm # mset_args ps) = (r, c1)" and "cmd_mget E c1 (nm' # ks) = (r', c2)"
    and "value_of = (\<lambda>k. case map_of (rev ps) k of Some v \<Rightarrow> Some v | None \<Rightarrow> map_option (str_to_bytes decimal) (kv_str (kv E c k)))"
    and "reply = 42 # digits (length ks) @ CRLF @ concat (map (\<lambda>k. str_frame (is_resp3 (out c)) (value_of k)) ks)"
  shows "r = Inr () \<and> r' = Inr () \<and> rw_buf (out c2) = rw_buf (out c) @ (ascii ''+OK'' @ CRLF) @ reply \<and> frame reply
    \<and> (\<forall>k. kv E c2 k = (case map_of (rev ps) k of Some v \<Rightarrow> Some (RStr (str_from_bytes v), None) | None \<Rightarrow> kv E c k))"
proof -
  have itoa: "env_itoa E = decimal" using assms(1) by (auto simp: env_ok_def itoa_spec_def)
  note m = cmd_mset_kv [OF assms(2-4)]
  have g: "r' = Inr ()" "c2 = mget_loop E (with_out (\<lambda>w. reply_array (env_itoa E) w (length ks)) c1) ks"
    using assms(5) by (simp_all add: cmd_mget_def)
  have rt: "str_to_bytes decimal (str_from_bytes v) = v" for v using str_from_bytes_roundtrip [OF itoa_spec_decimal] by simp
  have val: "map_option (str_to_bytes decimal) (kv_str (kv E c1 k)) = value_of k" for k
    by (simp add: m(3) assms(6) kv_str_def rt split: option.split)
  have "frames (length ks) (concat (map (\<lambda>k. str_frame (is_resp3 (out c)) (value_of k)) ks))"
    using frames_concat [of "map (\<lambda>k. str_frame (is_resp3 (out c)) (value_of k)) ks"] str_frame_frame by (simp add: list_all_iff)
  then have "frame reply" unfolding assms(7) by (rule array)
  moreover have "rw_buf (out c2) = rw_buf (out c) @ (ascii ''+OK'' @ CRLF) @ reply"
    by (simp add: g(2) mget_loop_out [OF assms(1)] itoa reply_array_def m(2) reply_ok_def val assms(7))
  moreover have "kv E c2 k = kv E c1 k" for k by (simp add: g(2) mget_loop_kv)
  ultimately show ?thesis using m(1) m(3) g(1) by simp
qed

theorem mset_then_mget_witness:
  "rw_buf (out (snd (cmd_mget demo_env (snd (cmd_mset demo_env (demo_ctx 5) ([109] # mset_args [([97], [49]), ([97], [120])]))) ([103] # [[97], [98]]))))
     = (ascii ''+OK'' @ CRLF) @ 42 # digits 2 @ CRLF @ (36 # digits 1 @ CRLF @ [120] @ CRLF) @ ascii ''$-1'' @ CRLF"
proof -
  have r: "\<forall>p \<in> set [([97], [49]), ([97], [120])]. reach demo_env (demo_ctx 5) (fst p)" by (simp add: demo_reach)
  have "is_resp3 (writer_new [] 2) = False" by (simp add: is_resp3_def writer_new_def RESP3_def)
  then show ?thesis
    using mset_then_mget [OF demo_env_ok _ r surjective_pairing surjective_pairing refl refl, of "[109]" "[103]" "[[97], [98]]"]
    by (simp add: str_frame_def demo_kv kv_str_def writer_new_def numeral_2_eq_2)
qed

end
