(* ===== verification/Evict.thy ===== *)
theory Evict
  imports Config Cmd_Error
begin

text \<open>
  The memory limit of \<^verbatim>\<open>src/src/shard/evict.rs\<close>: the lock-free totals over the shards, the check that
  refuses commands under memory pressure, the scores of eviction candidates and the bounded pool
  they are kept in.
\<close>

definition EVICTION_POOL_SIZE :: nat where "EVICTION_POOL_SIZE = 16"

subsection \<open>Totals and the out-of-memory check\<close>

definition used_memory :: "shard_map \<Rightarrow> nat" where
  "used_memory m = sum_list (map h_mem (sm_shards m))"

definition volatile_keys :: "shard_map \<Rightarrow> nat" where
  "volatile_keys m = sum_list (map h_expires (sm_shards m))"

definition over_limit :: "shard_map \<Rightarrow> config \<Rightarrow> bool" where
  "over_limit m c \<longleftrightarrow> cfg_maxmemory c \<noteq> 0 \<and> used_memory m > cfg_maxmemory c"

definition is_volatile_policy :: "maxmemory_policy \<Rightarrow> bool" where
  "is_volatile_policy p \<longleftrightarrow> p \<in> {VolatileLru, VolatileLfu, VolatileRandom, VolatileTtl}"

definition check_oom :: "shard_map \<Rightarrow> config \<Rightarrow> cmd_error + unit" where
  "check_oom m c =
     (if \<not> over_limit m c then Inr ()
      else
        (let hopeless =
           (case cfg_maxmemory_policy c of
              NoEviction \<Rightarrow> True
            | VolatileLru \<Rightarrow> volatile_keys m = 0
            | VolatileLfu \<Rightarrow> volatile_keys m = 0
            | VolatileRandom \<Rightarrow> volatile_keys m = 0
            | VolatileTtl \<Rightarrow> volatile_keys m = 0
            | _ \<Rightarrow> False)
         in if hopeless then Inl Oom else Inr ()))"

subsection \<open>Candidates\<close>

record candidate =
  cd_key :: key
  cd_score :: nat

text \<open>The pool is kept sorted by falling score: a candidate goes before the first strictly smaller
  score, and what falls off the end is dropped.\<close>

fun pool_position :: "candidate list \<Rightarrow> nat \<Rightarrow> nat" where
  "pool_position [] s = 0"
| "pool_position (e # v) s = (if cd_score e < s then 0 else Suc (pool_position v s))"

definition pool_push :: "candidate list \<Rightarrow> candidate \<Rightarrow> candidate list" where
  "pool_push v c =
     (let at = pool_position v (cd_score c) in
      if EVICTION_POOL_SIZE \<le> at then v
      else take EVICTION_POOL_SIZE (take at v @ c # drop at v))"

definition score :: "nat \<Rightarrow> maxmemory_policy \<Rightarrow> entry \<Rightarrow> nat \<Rightarrow> nat" where
  "score rnd p e now =
     (if p = AllkeysLru \<or> p = VolatileLru then idle_ms (lru e) now
      else if p = AllkeysLfu \<or> p = VolatileLfu then 255 - unat (lfu_counter (lru e))
      else if p = VolatileTtl then (2 ^ 64 - 1) - (case expire_at_ms e of Some t \<Rightarrow> t | None \<Rightarrow> 2 ^ 64 - 1)
      else rnd)"

end
