(* ===== verification/Engine.thy ===== *)
theory Engine
  imports Evict String_Cmd
begin

text \<open>
  The engine of \<^verbatim>\<open>src/src/engine.rs\<close>: which shards a command locks, the whole dispatch of one command
  (lookup, arity, authentication, memory check, locking, handler, propagation, release, reply), and
  the per-command client flags. The server's shared counters and its published notifications are
  fields of the server record; the context of a handler starts from them and they are taken over
  from the context it leaves.
\<close>

unbundle bit_operations_syntax

record server =
  sv_config :: config
  sv_shards :: shard_map
  sv_now :: nat
  sv_commands :: "handler command_table"
  sv_commands_processed :: nat
  sv_error_replies :: nat
  sv_expired_keys :: nat
  sv_keyspace_hits :: nat
  sv_keyspace_misses :: nat
  sv_dirty :: nat
  sv_propagating :: bool
  sv_sink :: bool
  sv_published :: "(bytes \<times> bytes) list"

definition server_new :: "nat \<Rightarrow> config \<Rightarrow> nat \<Rightarrow> handler command_table \<Rightarrow> server" where
  "server_new cpus c now table =
     \<lparr>sv_config = c, sv_shards = shard_map_new (effective_shard_count cpus c) (cfg_databases c), sv_now = now,
      sv_commands = table, sv_commands_processed = 0, sv_error_replies = 0, sv_expired_keys = 0, sv_keyspace_hits = 0,
      sv_keyspace_misses = 0, sv_dirty = 0, sv_propagating = cfg_appendonly c, sv_sink = False, sv_published = []\<rparr>"

datatype outcome = Done | Blocked block_request | Close

subsection \<open>Lock sets\<close>

definition insert_key_shard :: "env \<Rightarrow> shard_map \<Rightarrow> bytes list \<Rightarrow> nat \<Rightarrow> shard_set \<Rightarrow> shard_set" where
  "insert_key_shard E m args pos v =
     (case nth_opt args pos of Some k \<Rightarrow> set_insert v (shard_index (env_mc E) m k) | None \<Rightarrow> v)"

definition shard_set_for :: "env \<Rightarrow> 'h command_spec \<Rightarrow> bytes list \<Rightarrow> shard_map \<Rightarrow> shard_set" where
  "shard_set_for E spec args m =
     (if flags_contain (flags spec) ALL_SHARDS then set_finish (set_all m)
      else set_finish (fold (insert_key_shard E m args) (key_positions spec args) []))"

subsection \<open>Dispatch\<close>

definition err_reply :: "server \<Rightarrow> bytes \<Rightarrow> nat \<Rightarrow> cmd_error \<Rightarrow> server \<times> bytes" where
  "err_reply s buf proto e =
     (s\<lparr>sv_error_replies := sv_error_replies s + 1\<rparr>, rw_buf (reply_error (writer_new buf proto) e))"

definition intercept :: "server \<Rightarrow> client_state \<Rightarrow> bytes \<Rightarrow> bytes list \<Rightarrow> bool" where
  "intercept s cl buf args = False"

definition ctx_new :: "server \<Rightarrow> client_state \<Rightarrow> reply_writer \<Rightarrow> guards \<Rightarrow> ctx" where
  "ctx_new s cl w g =
     \<lparr>out = w, client = cl, srv_map = sv_shards s, shards = g, now_ms = sv_now s, cfg = sv_config s, srv_cfg = sv_config s,
      lfu = policy_is_lfu (cfg_maxmemory_policy (sv_config s)), propagating = sv_propagating s, sink = sv_sink s,
      srv_dirty = sv_dirty s, expired_keys = sv_expired_keys s, keyspace_hits = sv_keyspace_hits s,
      keyspace_misses = sv_keyspace_misses s, published = sv_published s, dirty = 0, prop_kind = PropDefault,
      prop_buf = [], block = None\<rparr>"

definition propagate_primary :: "nat \<Rightarrow> bytes list list \<Rightarrow> guards \<Rightarrow> guards" where
  "propagate_primary n argvs g =
     (case g_guards g of
        [] \<Rightarrow> g
      | (i, s) # rest \<Rightarrow> g\<lparr>g_guards := (i, fold (\<lambda>argv s. shard_propagate s n argv) argvs s) # rest\<rparr>)"

definition propagate_command :: "server \<Rightarrow> 'h command_spec \<Rightarrow> nat \<Rightarrow> bytes list \<Rightarrow> cmd_error + unit \<Rightarrow> ctx \<Rightarrow> guards" where
  "propagate_command s spec n args r c =
     (if \<not> isl r \<and> sv_propagating s then
        (case prop_kind c of
           PropSuppressed \<Rightarrow> shards c
         | PropExplicit \<Rightarrow> propagate_primary n (prop_buf c) (shards c)
         | PropDefault \<Rightarrow>
             if is_write spec \<and> 0 < dirty c then propagate_primary n [args] (shards c) else shards c)
      else shards c)"

definition server_after :: "server \<Rightarrow> ctx \<Rightarrow> guards \<Rightarrow> server" where
  "server_after s c g =
     s\<lparr>sv_config := srv_cfg c, sv_shards := release (sv_shards s) g, sv_expired_keys := expired_keys c, sv_keyspace_hits := keyspace_hits c,
       sv_keyspace_misses := keyspace_misses c, sv_dirty := srv_dirty c, sv_published := published c\<rparr>"

definition run_command :: "env \<Rightarrow> server \<Rightarrow> client_state \<Rightarrow> bytes \<Rightarrow> handler command_spec \<Rightarrow> bytes list
    \<Rightarrow> outcome \<times> server \<times> client_state \<times> bytes" where
  "run_command E s cl buf spec args =
     (let proto = cl_proto cl;
          g = lock_set (sv_shards s) (shard_set_for E spec args (sv_shards s))
      in case handler spec E (ctx_new s cl (writer_new buf proto) g) args of
           (r, c) \<Rightarrow>
             (let s = server_after s c (propagate_command s spec (cl_db cl) args r c);
                  cl' = client c;
                  buf' = rw_buf (out c)
              in case r of
                   Inl e \<Rightarrow>
                     (let buf' = (if length buf < length buf' then take (length buf) buf' else buf') in
                      case err_reply s buf' proto e of (s, buf') \<Rightarrow> (Done, s, cl', buf'))
                 | Inr _ \<Rightarrow>
                     (case block c of
                        Some req \<Rightarrow> (Blocked req, s, cl', buf')
                      | None \<Rightarrow> (if should_close cl' then Close else Done, s, cl', buf'))))"

definition no_auth_commands :: "bytes list" where
  "no_auth_commands = [ascii ''auth'', ascii ''hello'', ascii ''quit'', ascii ''reset'']"

definition dispatch :: "env \<Rightarrow> server \<Rightarrow> client_state \<Rightarrow> bytes \<Rightarrow> bytes list \<Rightarrow> outcome \<times> server \<times> client_state \<times> bytes" where
  "dispatch E s cl buf args =
     (if args = [] then (Done, s, cl, buf)
      else
        (let s = s\<lparr>sv_commands_processed := sv_commands_processed s + 1\<rparr>; proto = cl_proto cl in
         case table_lookup (sv_commands s) (args_name args) of
           None \<Rightarrow>
             (case err_reply s buf proto (unknown_command (args_name args) (drop 1 args)) of (s, buf) \<Rightarrow> (Done, s, cl, buf))
         | Some spec \<Rightarrow>
             (let cl = cl\<lparr>cl_last_command := cs_name spec\<rparr> in
              if \<not> arity_ok spec (length args) then
                (case err_reply s buf proto (WrongArity (cs_name spec)) of (s, buf) \<Rightarrow> (Done, s, cl, buf))
              else if \<not> cl_authenticated cl \<and> cs_name spec \<notin> set no_auth_commands then
                (case err_reply s buf proto Unauthenticated of (s, buf) \<Rightarrow> (Done, s, cl, buf))
              else if intercept s cl buf args then (Done, s, cl, buf)
              else
                (case (if flags_contain (flags spec) DENYOOM then check_oom (sv_shards s) (sv_config s) else Inr ()) of
                   Inl e \<Rightarrow> (case err_reply s buf proto e of (s, buf) \<Rightarrow> (Done, s, cl, buf))
                 | Inr _ \<Rightarrow> run_command E s cl buf spec args))))"

definition post_command :: "client_state \<Rightarrow> client_state" where
  "post_command c =
     (let c = (if has_flag c REPLY_SKIP then remove_flag REPLY_SKIP c else c) in
      if has_flag c REPLY_SKIP_NEXT then add_flag REPLY_SKIP (remove_flag REPLY_SKIP_NEXT c) else c)"

definition total_dirty :: "server \<Rightarrow> nat" where
  "total_dirty s = sv_dirty s"

subsection \<open>Threads acquiring shard locks\<close>

text \<open>A worker thread is idle, or acquires the locks of its command one after the other, or runs its
  handler with all of them; \<^verbatim>\<open>lock_set\<close> and \<^verbatim>\<open>lock_all\<close> block on a shard another thread holds. \<open>wants\<close> are
  the lock lists the code asks for: the set of a command, every shard, or one shard (the background
  cycles and \<^verbatim>\<open>SCAN\<close>, which hold nothing else).\<close>

datatype thread = Idle | Acquiring "nat list" "nat list" | Running "nat list"

fun holds :: "thread \<Rightarrow> nat list" where
  "holds Idle = []"
| "holds (Acquiring got todo) = got"
| "holds (Running got) = got"

inductive wants :: "env \<Rightarrow> shard_map \<Rightarrow> nat list \<Rightarrow> bool" for E m where
  want_command: "wants E m (shard_set_for E (spec :: handler command_spec) args m)"
| want_all: "wants E m [0..<sm_len m]"
| want_one: "wants E m (set_single i)"

inductive start_step :: "env \<Rightarrow> shard_map \<Rightarrow> thread list \<Rightarrow> thread list \<Rightarrow> bool" for E m where
  start: "i < length ts \<Longrightarrow> ts ! i = Idle \<Longrightarrow> wants E m v \<Longrightarrow> start_step E m ts (ts[i := Acquiring [] v])"

inductive work_step :: "thread list \<Rightarrow> thread list \<Rightarrow> bool" where
  acquire: "i < length ts \<Longrightarrow> ts ! i = Acquiring got (a # todo) \<Longrightarrow> (\<forall>t \<in> set ts. a \<notin> set (holds t)) \<Longrightarrow>
     work_step ts (ts[i := Acquiring (got @ [a]) todo])"
| acquired: "i < length ts \<Longrightarrow> ts ! i = Acquiring got [] \<Longrightarrow> work_step ts (ts[i := Running got])"
| finished: "i < length ts \<Longrightarrow> ts ! i = Running got \<Longrightarrow> work_step ts (ts[i := Idle])"

inductive reachable :: "env \<Rightarrow> shard_map \<Rightarrow> nat \<Rightarrow> thread list \<Rightarrow> bool" for E m n where
  init: "reachable E m n (replicate n Idle)"
| starts: "reachable E m n ts \<Longrightarrow> start_step E m ts ts' \<Longrightarrow> reachable E m n ts'"
| works: "reachable E m n ts \<Longrightarrow> work_step ts ts' \<Longrightarrow> reachable E m n ts'"

end
