(* ===== verification/Engine_Proofs.thy ===== *)
theory Engine_Proofs
  imports Engine String_Proofs "HOL-Library.Sublist"
begin

text \<open>
  Correctness of the engine: lock sets are strictly ascending and cover the keys of the command,
  threads that lock through them never deadlock, refused commands leave the keyspace alone and add
  exactly one error line to the output, and the effect of a handler on its locked shards is the
  effect of the command on the server.
\<close>

subsection \<open>Lock sets\<close>

lemma wants_sorted: "wants E m v \<Longrightarrow> sorted_wrt (<) v"
  by (induction rule: wants.induct)
    (auto simp: shard_set_for_def set_finish_sorted set_single_def sorted_wrt_upt)

lemma insert_key_shards_set:
  "set (fold (insert_key_shard E m args) ps v) =
     set v \<union> {shard_index (env_mc E) m (args ! p) mod 65536 | p. p \<in> set ps \<and> p < length args}"
  by (induction ps arbitrary: v) (auto simp: insert_key_shard_def set_insert_def nth_opt_def)

subsection \<open>Deadlock freedom\<close>

text \<open>The invariant of the locks: what a thread holds and still wants is strictly ascending, and no
  shard is held twice.\<close>

fun thread_ok :: "thread \<Rightarrow> bool" where
  "thread_ok Idle = True"
| "thread_ok (Acquiring got todo) = sorted_wrt (<) (got @ todo)"
| "thread_ok (Running got) = sorted_wrt (<) got"

definition locks_ok :: "thread list \<Rightarrow> bool" where
  "locks_ok ts \<longleftrightarrow> (\<forall>t \<in> set ts. thread_ok t)
     \<and> (\<forall>i < length ts. \<forall>j < length ts. i \<noteq> j \<longrightarrow> set (holds (ts ! i)) \<inter> set (holds (ts ! j)) = {})"

lemma locks_ok_update:
  assumes "locks_ok ts" and "thread_ok t" and "i < length ts"
    and "\<And>j. j < length ts \<Longrightarrow> j \<noteq> i \<Longrightarrow> set (holds t) \<inter> set (holds (ts ! j)) = {}"
  shows "locks_ok (ts[i := t])"
proof -
  have "\<forall>u \<in> set (ts[i := t]). thread_ok u"
    using assms(1,2) set_update_subset_insert [of ts i t] by (auto simp: locks_ok_def)
  moreover have "set (holds (ts[i := t] ! a)) \<inter> set (holds (ts[i := t] ! b)) = {}"
    if "a < length ts" "b < length ts" "a \<noteq> b" for a b
    using assms(1,4) that by (cases "a = i"; cases "b = i") (auto simp: locks_ok_def)
  ultimately show ?thesis by (simp add: locks_ok_def)
qed

lemma locks_ok_start: "start_step E m ts ts' \<Longrightarrow> locks_ok ts \<Longrightarrow> locks_ok ts'"
  by (induction rule: start_step.induct) (auto intro!: locks_ok_update dest: wants_sorted)

lemma locks_ok_work: "work_step ts ts' \<Longrightarrow> locks_ok ts \<Longrightarrow> locks_ok ts'"
proof (induction rule: work_step.induct)
  case (acquire i ts got a todo)
  have "thread_ok (Acquiring got (a # todo))" using acquire by (metis locks_ok_def nth_mem)
  moreover have "a \<notin> set (holds (ts ! j))" if "j < length ts" for j using acquire.hyps(3) that nth_mem by blast
  moreover have "set got \<inter> set (holds (ts ! j)) = {}" if "j < length ts" "j \<noteq> i" for j
    using acquire.prems acquire.hyps(1,2) that by (metis holds.simps(2) locks_ok_def)
  ultimately show ?case using acquire.prems acquire.hyps(1) by (intro locks_ok_update) auto
next
  case (acquired i ts got)
  have "thread_ok (Acquiring got [])" using acquired by (metis locks_ok_def nth_mem)
  moreover have "set got \<inter> set (holds (ts ! j)) = {}" if "j < length ts" "j \<noteq> i" for j
    using acquired that by (metis holds.simps(2) locks_ok_def)
  ultimately show ?case using acquired by (intro locks_ok_update) auto
next
  case (finished i ts got)
  then show ?case by (intro locks_ok_update) auto
qed

lemma reachable_locks_ok: "reachable E m n ts \<Longrightarrow> locks_ok ts \<and> length ts = n"
proof (induction rule: reachable.induct)
  case init
  then show ?case by (simp add: locks_ok_def)
next
  case (starts ts ts')
  then show ?case using locks_ok_start [OF starts.hyps(2)] by (auto elim: start_step.cases)
next
  case (works ts ts')
  then show ?case using locks_ok_work [OF works.hyps(2)] by (auto elim: work_step.cases)
qed

text \<open>The lock a thread waits for next.\<close>

fun waiting_for :: "thread \<Rightarrow> nat option" where
  "waiting_for (Acquiring got (a # todo)) = Some a"
| "waiting_for _ = None"

lemma not_waiting_steps:
  assumes "i < length ts" "ts ! i \<noteq> Idle" "waiting_for (ts ! i) = None"
  shows "\<exists>ts'. work_step ts ts'"
proof (cases "ts ! i")
  case (Acquiring got todo)
  then have "todo = []" using assms(3) by (cases todo) simp_all
  then show ?thesis using acquired [OF assms(1)] Acquiring by blast
next
  case (Running got)
  then show ?thesis using finished [OF assms(1)] by blast
qed (use assms(2) in simp)

lemma locks_ok_thread: "locks_ok ts \<Longrightarrow> i < length ts \<Longrightarrow> thread_ok (ts ! i)"
  by (simp add: locks_ok_def)

lemma waiting_above_held:
  assumes "locks_ok ts" "i < length ts" "waiting_for (ts ! i) = Some a" "b \<in> set (holds (ts ! i))"
  shows "b < a"
proof -
  obtain got todo where t: "ts ! i = Acquiring got (a # todo)"
    using assms(3) by (cases "ts ! i" rule: waiting_for.cases) auto
  then have "sorted_wrt (<) (got @ a # todo)" using locks_ok_thread [OF assms(1,2)] by simp
  then show ?thesis using assms(4) t by (simp add: sorted_wrt_append)
qed

text \<open>Among the blocked threads, the one that waits for the highest shard is blocked by a thread that
  is not blocked itself: this is the argument of the source, by the maximum.\<close>

lemma progress:
  assumes "locks_ok ts" "i < length ts" "ts ! i \<noteq> Idle"
  shows "\<exists>ts'. work_step ts ts'"
proof (rule ccontr)
  assume stuck: "\<not> ?thesis"
  let ?W = "{a. \<exists>j < length ts. waiting_for (ts ! j) = Some a}"
  have wait: "\<exists>a. waiting_for (ts ! j) = Some a" if "j < length ts" "ts ! j \<noteq> Idle" for j
  proof (cases "waiting_for (ts ! j)")
    case None
    then show ?thesis using not_waiting_steps [OF that None] stuck by (simp only: simp_thms)
  qed simp
  have "?W \<subseteq> (\<lambda>j. the (waiting_for (ts ! j))) ` {..<length ts}"
  proof
    fix a assume "a \<in> ?W"
    then obtain j where "j < length ts" "waiting_for (ts ! j) = Some a" by blast
    then show "a \<in> (\<lambda>j. the (waiting_for (ts ! j))) ` {..<length ts}" by (intro image_eqI [of _ _ j]) simp_all
  qed
  then have fin: "finite ?W" by (rule finite_subset) simp
  have "?W \<noteq> {}" using wait [OF assms(2,3)] assms(2) by blast
  then have "Max ?W \<in> ?W" by (rule Max_in [OF fin])
  then obtain j where j: "j < length ts" "waiting_for (ts ! j) = Some (Max ?W)" by blast
  then obtain got todo where t: "ts ! j = Acquiring got (Max ?W # todo)"
    by (cases "ts ! j" rule: waiting_for.cases) auto
  obtain u where u: "u \<in> set ts" "Max ?W \<in> set (holds u)"
  proof -
    have "\<not> (\<forall>u \<in> set ts. Max ?W \<notin> set (holds u))"
    proof
      assume "\<forall>u \<in> set ts. Max ?W \<notin> set (holds u)"
      from acquire [OF j(1) t this] stuck show False by (simp only: not_ex)
    qed
    then show thesis using that by blast
  qed
  then obtain k where k: "k < length ts" "Max ?W \<in> set (holds (ts ! k))" using in_set_conv_nth [of u ts] by auto
  then have "ts ! k \<noteq> Idle" by auto
  then obtain b where b: "waiting_for (ts ! k) = Some b" using wait k(1) by blast
  have "Max ?W < b" using waiting_above_held [OF assms(1) k(1) b k(2)] .
  moreover have "b \<le> Max ?W" using fin k(1) b by (intro Max_ge) auto
  ultimately show False by simp
qed

text \<open>The work left: every step of a thread towards its end uses some of it up.\<close>

fun thread_work :: "thread \<Rightarrow> nat" where
  "thread_work Idle = 0"
| "thread_work (Acquiring got todo) = 2 + length todo"
| "thread_work (Running got) = 1"

definition work :: "thread list \<Rightarrow> nat" where
  "work ts = sum_list (map thread_work ts)"

lemma work_update: "i < length ts \<Longrightarrow> thread_work t < thread_work (ts ! i) \<Longrightarrow> work (ts[i := t]) < work ts"
proof (induction ts arbitrary: i)
  case (Cons u ts)
  then show ?case by (cases i) (auto simp: work_def)
qed simp

lemma work_step_less: "work_step ts ts' \<Longrightarrow> work ts' < work ts"
  by (induction rule: work_step.induct) (auto intro!: work_update)


subsection \<open>The keyspace of the server\<close>

definition map_ok :: "shard_map \<Rightarrow> bool" where
  "map_ok m \<longleftrightarrow> sm_wf m \<and> sm_len m < 65536 \<and> (\<forall>h \<in> set (sm_shards m). length (dbs (h_shard h)) = sm_databases m)"

definition key_db :: "env \<Rightarrow> shard_map \<Rightarrow> nat \<Rightarrow> key \<Rightarrow> db option" where
  "key_db E m n k = Option.bind (shard_for (env_mc E) m k) (\<lambda>h. shard_db (h_shard h) n)"

definition sv_kv :: "env \<Rightarrow> server \<Rightarrow> nat \<Rightarrow> key \<Rightarrow> (robj \<times> nat option) option" where
  "sv_kv E s n k = if_live (sv_now s) (map_option data (Option.bind (key_db E (sv_shards s) n k) (\<lambda>d. db_lookup d k)))"

lemma map_ok_new: "count \<le> 32768 \<Longrightarrow> map_ok (shard_map_new count databases)"
proof -
  assume c: "count \<le> 32768"
  have "next_power_of_two (max count 1) \<le> 32768"
    using c next_power_of_two_le [of "max count 1" 15] by simp
  then show ?thesis using shard_map_new_wf [of count databases]
    by (auto simp: map_ok_def shard_map_new_def sm_len_def Let_def shard_new_def)
qed

lemma shard_set_ok:
  assumes "map_ok m"
  shows "sorted_wrt (<) (shard_set_for E spec args m)" "distinct (shard_set_for E spec args m)"
    "\<forall>i \<in> set (shard_set_for E spec args m). i < sm_len m"
proof -
  show s: "sorted_wrt (<) (shard_set_for E spec args m)" by (auto simp: shard_set_for_def set_finish_sorted)
  then show "distinct (shard_set_for E spec args m)" by (simp add: strict_sorted_iff)
  have "shard_index (env_mc E) m k mod 65536 < sm_len m" for k
    using shard_index_less [of m] assms by (metis le_less_trans map_ok_def mod_less_eq_dividend)
  then show "\<forall>i \<in> set (shard_set_for E spec args m). i < sm_len m"
    using assms by (auto simp: shard_set_for_def insert_key_shards_set set_all_def map_ok_def)
qed

lemma shard_set_covers:
  assumes "map_ok m" and "p \<in> set (key_positions spec args)" and "p < length args"
  shows "shard_index (env_mc E) m (args ! p) \<in> set (shard_set_for E spec args m)"
proof -
  have i: "shard_index (env_mc E) m (args ! p) < sm_len m" "sm_len m < 65536" using shard_index_less assms(1) by (simp_all add: map_ok_def)
  then have "shard_index (env_mc E) m (args ! p) = shard_index (env_mc E) m (args ! p) mod 65536" by simp
  then have "shard_index (env_mc E) m (args ! p) \<in> set (fold (insert_key_shard E m args) (key_positions spec args) [])"
    unfolding insert_key_shards_set using assms(2,3) by blast
  then show ?thesis using i by (simp add: shard_set_for_def set_all_def)
qed

lemma key_shard_lock: "key_shard_index mc (lock_set m v) k = shard_index mc m k"
  by (simp add: key_shard_index_def shard_index_def lock_set_def)

lemma for_key_lock:
  assumes "distinct v" "\<forall>i \<in> set v. i < sm_len m" "shard_index mc m k \<in> set v"
  shows "for_key mc (lock_set m v) k = map_option h_shard (shard_for mc m k)"
  using assms by (simp add: for_key_def key_shard_lock guard_shard_lock shard_for_def sm_get_Some)

lemma ctx_new_db:
  assumes "distinct v" "\<forall>i \<in> set v. i < sm_len (sv_shards s)" "shard_index (env_mc E) (sv_shards s) k \<in> set v"
  shows "ctx_db E (ctx_new s cl w (lock_set (sv_shards s) v)) k = key_db E (sv_shards s) (cl_db cl) k"
  using for_key_lock [OF assms]
  by (cases "shard_for (env_mc E) (sv_shards s) k") (simp_all add: ctx_db_def ctx_shard_def ctx_new_def key_db_def)

lemma ctx_new_kv:
  assumes "distinct v" "\<forall>i \<in> set v. i < sm_len (sv_shards s)" "shard_index (env_mc E) (sv_shards s) k \<in> set v"
  shows "kv E (ctx_new s cl w (lock_set (sv_shards s) v)) k = sv_kv E s (cl_db cl) k"
  by (simp add: kv_def view_def ctx_new_db [OF assms] sv_kv_def) (simp add: ctx_new_def)

lemma ctx_new_reach:
  assumes "map_ok (sv_shards s)" "distinct v" "\<forall>i \<in> set v. i < sm_len (sv_shards s)" "shard_index (env_mc E) (sv_shards s) k \<in> set v"
    and "cl_db cl < sm_databases (sv_shards s)"
  shows "reach E (ctx_new s cl w (lock_set (sv_shards s) v)) k"
proof -
  have i: "shard_index (env_mc E) (sv_shards s) k < sm_len (sv_shards s)" using assms(3,4) by blast
  then have "length (dbs (h_shard (sm_shards (sv_shards s) ! shard_index (env_mc E) (sv_shards s) k))) = sm_databases (sv_shards s)"
    using assms(1) by (simp add: map_ok_def sm_len_def)
  then show ?thesis using i assms(5)
    by (simp add: reach_def ctx_new_db [OF assms(2-4)] key_db_def shard_for_def sm_get_Some shard_db_def)
qed

subsection \<open>Releasing the guards\<close>

lemma release_one_mask [simp]: "sm_mask (release_one p m) = sm_mask m" "sm_databases (release_one p m) = sm_databases m"
  by (auto simp: release_one_def split: prod.split option.split)

lemma release_fields [simp]:
  "sm_mask (release m g) = sm_mask m" "sm_databases (release m g) = sm_databases m" "sm_len (release m g) = sm_len m"
proof -
  have "sm_mask (fold release_one gs m) = sm_mask m \<and> sm_databases (fold release_one gs m) = sm_databases m
      \<and> sm_len (fold release_one gs m) = sm_len m" for gs
    by (induction gs arbitrary: m) simp_all
  then show "sm_mask (release m g) = sm_mask m" "sm_databases (release m g) = sm_databases m" "sm_len (release m g) = sm_len m"
    by (simp_all add: release_def)
qed

lemma shard_index_release [simp]: "shard_index mc (release m g) k = shard_index mc m k"
  by (simp add: shard_index_def)

lemma release_shard:
  assumes "distinct (map fst (g_guards g))" "j < sm_len m"
  shows "h_shard (sm_shards (release m g) ! j) = (case guard_shard g j of Some s \<Rightarrow> s | None \<Rightarrow> h_shard (sm_shards m ! j))"
proof -
  have "sm_get (fold release_one (g_guards g) m) j = Some (sm_shards (fold release_one (g_guards g) m) ! j)"
    using assms(2) release_fields(3) [of m g] by (intro sm_get_Some) (simp add: release_def)
  then show ?thesis using release_get [OF assms(1), of m j] sm_get_Some [OF assms(2)]
    by (simp add: release_def guard_shard_def split: option.split)
qed

lemma key_db_release:
  assumes "map_ok m" "distinct (map fst (g_guards g))"
  shows "key_db E (release m g) n k =
    (case guard_shard g (shard_index (env_mc E) m k) of Some s \<Rightarrow> shard_db s n | None \<Rightarrow> key_db E m n k)"
proof -
  have i: "shard_index (env_mc E) m k < sm_len m" using assms(1) shard_index_less by (simp add: map_ok_def)
  then show ?thesis using release_shard [OF assms(2) i]
    by (simp add: key_db_def shard_for_def sm_get_Some split: option.split)
qed

lemma map_ok_release:
  assumes "map_ok m" "distinct (map fst (g_guards g))" "\<forall>(i, s) \<in> set (g_guards g). length (dbs s) = sm_databases m"
  shows "map_ok (release m g)"
proof -
  have "length (dbs (h_shard (sm_shards (release m g) ! j))) = sm_databases m" if j: "j < sm_len m" for j
    using assms j release_shard [OF assms(2) j]
    by (auto simp: map_ok_def sm_len_def guard_shard_def split: option.splits dest: map_of_SomeD)
  then have "\<forall>h \<in> set (sm_shards (release m g)). length (dbs (h_shard h)) = sm_databases m"
    using release_fields(3) [of m g] by (auto simp: sm_len_def in_set_conv_nth)
  then show ?thesis using assms(1) by (simp add: map_ok_def sm_wf_def)
qed


subsection \<open>Propagation\<close>

lemma propagations_dbs: "dbs (fold (\<lambda>argv s. shard_propagate s n argv) argvs s) = dbs s"
  by (induction argvs arbitrary: s) (simp_all add: shard_propagate_def)

lemma propagate_primary_fst: "map fst (g_guards (propagate_primary n argvs g)) = map fst (g_guards g)"
  by (auto simp: propagate_primary_def split: list.split)

lemma propagate_primary_dbs:
  "map (\<lambda>(i, s). (i, dbs s)) (g_guards (propagate_primary n argvs g)) = map (\<lambda>(i, s). (i, dbs s)) (g_guards g)"
  by (auto simp: propagate_primary_def propagations_dbs split: list.split)

lemma propagate_command_dbs:
  "map (\<lambda>(i, s). (i, dbs s)) (g_guards (propagate_command s spec n args r c)) = map (\<lambda>(i, s). (i, dbs s)) (g_guards (shards c))"
  by (simp add: propagate_command_def propagate_primary_dbs split: prop_mode.split)

lemma dbs_guard_shard:
  assumes "map (\<lambda>(i, s). (i, dbs s)) (g_guards g') = map (\<lambda>(i, s). (i, dbs s)) (g_guards g)"
  shows "map_option dbs (guard_shard g' i) = map_option dbs (guard_shard g i)"
proof -
  have "map_option dbs (map_of gs i) = map_of (map (\<lambda>(i, s). (i, dbs s)) gs) i" for gs :: "(nat \<times> shard) list" by (induction gs) auto
  then show ?thesis unfolding guard_shard_def using assms by (simp only:)
qed

lemma dbs_same_fst:
  fixes gs gs' :: "(nat \<times> shard) list"
  assumes "map (\<lambda>(i, s). (i, dbs s)) gs' = map (\<lambda>(i, s). (i, dbs s)) gs" shows "map fst gs' = map fst gs"
proof -
  have "map fst gs = map fst (map (\<lambda>(i, s). (i, dbs s)) gs)" for gs :: "(nat \<times> shard) list" by (induction gs) auto
  from this [of gs] this [of gs'] assms show ?thesis by (simp only:)
qed

subsection \<open>Running a handler\<close>

text \<open>The contract between the engine and a handler: the locks keep their shape, and so do the clock,
  the shard map and the database count. Every registered handler is an instance.\<close>

definition grows :: "ctx \<Rightarrow> ctx \<Rightarrow> bool" where
  "grows c c' \<longleftrightarrow> prefix (rw_buf (out c)) (rw_buf (out c'))"

locale command_handler =
  fixes h :: handler
  assumes keeps: "shape (snd (h E c args)) = shape c" and appends: "grows c (snd (h E c args))"
begin

lemma keeps_guards:
  assumes "h E c args = (r, c')"
  shows "guards_shape (shards c') = guards_shape (shards c)" "now_ms c' = now_ms c" "srv_map c' = srv_map c"
  using keeps [of E c args] assms by (simp_all add: shape_def)

lemma rollback_restores:
  assumes "h E c args = (r, c')"
  shows "(if length (rw_buf (out c)) < length (rw_buf (out c')) then take (length (rw_buf (out c))) (rw_buf (out c')) else rw_buf (out c'))
    = rw_buf (out c)"
  using appends [of c E args] assms by (auto simp: grows_def prefix_def)

end

lemma guards_shape_lock:
  assumes "map_ok m" "distinct v" "\<forall>i \<in> set v. i < sm_len m"
  shows "guards_shape (lock_set m v) = (map (\<lambda>i. (i, sm_databases m)) v, sm_mask m)"
  using assms by (auto simp: guards_shape_def lock_set_guards lock_set_def [of m v, THEN arg_cong, of g_mask] map_ok_def sm_len_def)

lemma guards_shape_parts:
  assumes "guards_shape g = (map (\<lambda>i. (i, n)) v, msk)"
  shows "map fst (g_guards g) = v" "g_mask g = msk" "\<forall>(i, s) \<in> set (g_guards g). length (dbs s) = n"
proof -
  have g: "map (\<lambda>(i, s). (i, length (dbs s))) (g_guards g) = map (\<lambda>i. (i, n)) v" "g_mask g = msk"
    using assms by (simp_all add: guards_shape_def)
  have "map fst (map (\<lambda>(i, s). (i, length (dbs s))) (g_guards g)) = map fst (g_guards g)" by (simp add: case_prod_beta' o_def)
  then show "map fst (g_guards g) = v" using g(1) by (simp add: o_def)
  show "g_mask g = msk" by fact
  have "set (map (\<lambda>(i, s). (i, length (dbs s))) (g_guards g)) = set (map (\<lambda>i. (i, n)) v)" using g(1) by simp
  then show "\<forall>(i, s) \<in> set (g_guards g). length (dbs s) = n" by auto
qed

text \<open>What the server sees of a command is what the handler did to its context.\<close>

lemma server_after_correct:
  assumes ok: "map_ok (sv_shards s)" and v: "distinct v" "\<forall>i \<in> set v. i < sm_len (sv_shards s)"
    and sh: "shape c = shape (ctx_new s cl w (lock_set (sv_shards s) v))" and db: "client_db c = n"
    and s': "s' = server_after s c (propagate_command s spec n args r c)"
  shows "map_ok (sv_shards s')" "sv_now s' = sv_now s" "sm_databases (sv_shards s') = sm_databases (sv_shards s)"
    "sv_commands s' = sv_commands s"
    "sv_kv E s' n k = (if shard_index (env_mc E) (sv_shards s) k \<in> set v then kv E c k else sv_kv E s n k)"
proof -
  let ?m = "sv_shards s" and ?g = "propagate_command s spec n args r c" and ?i = "shard_index (env_mc E) (sv_shards s) k"
  have now: "now_ms c = sv_now s" and shp: "guards_shape (shards c) = (map (\<lambda>i. (i, sm_databases ?m)) v, sm_mask ?m)"
    using sh guards_shape_lock [OF ok v] by (simp_all add: shape_def ctx_new_def)
  note parts = guards_shape_parts [OF shp]
  note dbs = propagate_command_dbs [of s spec n args r c]
  have fst: "map fst (g_guards ?g) = v" using dbs_same_fst [OF dbs] parts(1) by simp
  have set_eq: "(\<lambda>(i, s). (i, dbs s)) ` set (g_guards ?g) = (\<lambda>(i, s). (i, dbs s)) ` set (g_guards (shards c))"
    using arg_cong [OF dbs, of set] by simp
  have len: "\<forall>(i, s) \<in> set (g_guards ?g). length (dbs s) = sm_databases ?m"
  proof clarify
    fix i sd assume "(i, sd) \<in> set (g_guards ?g)"
    then have "(i, dbs sd) \<in> (\<lambda>(i, s). (i, dbs s)) ` set (g_guards (shards c))" using set_eq by force
    then show "length (dbs sd) = sm_databases ?m" using parts(3) by auto
  qed
  show "map_ok (sv_shards s')" using map_ok_release [OF ok _ len] fst v(1) by (simp add: s' server_after_def)
  show "sv_now s' = sv_now s" "sm_databases (sv_shards s') = sm_databases ?m" "sv_commands s' = sv_commands s"
    by (simp_all add: s' server_after_def)
  have idx: "key_shard_index (env_mc E) (shards c) k = ?i" by (simp add: key_shard_index_def shard_index_def parts(2))
  have at: "map_option dbs (guard_shard ?g ?i) = map_option dbs (guard_shard (shards c) ?i)" by (rule dbs_guard_shard [OF dbs])
  have locked: "guard_shard (shards c) ?i = None \<longleftrightarrow> ?i \<notin> set v"
    using parts(1) by (auto simp: guard_shard_def map_of_eq_None_iff simp flip: parts(1))
  have "key_db E (release ?m ?g) n k = (if ?i \<in> set v then ctx_db E c k else key_db E ?m n k)"
    using at locked unfolding key_db_release [OF ok, of ?g E n k, unfolded fst, OF v(1)]
    by (cases "guard_shard (shards c) ?i"; cases "guard_shard ?g ?i")
      (auto simp: ctx_db_def ctx_shard_def for_key_def idx db shard_db_def)
  then show "sv_kv E s' n k = (if ?i \<in> set v then kv E c k else sv_kv E s n k)"
    using now by (simp add: s' server_after_def sv_kv_def kv_def view_def)
qed


subsection \<open>The string handlers meet the contract\<close>

lemma reply_shape [simp]: "shape (with_out f c) = shape c" "shape (write_opt E c v) = shape c" "shape (set_reply E c old f) = shape c"
  by (simp_all add: with_out_def write_opt_def set_reply_def split: option.split)

lemma mget_loop_shape [simp]: "shape (mget_loop E c ks) = shape c"
  by (induction ks arbitrary: c) (simp_all add: case_prod_beta)

lemma mset_loop_shape [simp]: "shape (mset_loop E c kvs) = shape c"
  by (induction E c kvs rule: mset_loop.induct) simp_all

lemma set_store_shape [simp]: "shape (set_store E c k v at old) = shape c"
  by (simp add: set_store_def Let_def split: option.split)

text \<open>Output only grows. \<open>appending f\<close> holds of every reply method, so a handler built from reply methods
  and keyspace operations appends.\<close>

definition appending :: "(reply_writer \<Rightarrow> reply_writer) \<Rightarrow> bool" where
  "appending f \<longleftrightarrow> (\<forall>w. prefix (rw_buf w) (rw_buf (f w)))"

named_theorems append_intros "output only grows"

lemma grows_refl [append_intros]: "grows c c"
  by (simp add: grows_def)

lemma grows_trans: "grows a b \<Longrightarrow> grows b c \<Longrightarrow> grows a c"
  by (auto simp: grows_def intro: prefix_order.trans)

lemma grows_conn: "conn c' = conn c1 \<Longrightarrow> grows c c1 \<Longrightarrow> grows c c'"
  by (simp add: grows_def conn_def)

lemma grows_conn_left: "conn c1 = conn c \<Longrightarrow> grows c1 c' \<Longrightarrow> grows c c'"
  by (simp add: grows_def conn_def)

lemma grows_with_out [append_intros]: "appending f \<Longrightarrow> grows c c1 \<Longrightarrow> grows c (with_out f c1)"
  by (auto simp: grows_def with_out_def appending_def intro: prefix_order.trans)

lemma appending_replies [append_intros]:
  "appending reply_ok" "appending (\<lambda>w. reply_simple w s)" "appending (\<lambda>w. reply_int itoa w v)" "appending (\<lambda>w. reply_bulk itoa w b)"
  "appending (\<lambda>w. reply_bulk_i64 itoa w v)" "appending reply_null" "appending reply_null_array" "appending (\<lambda>w. reply_array itoa w n)"
  "appending (\<lambda>w. reply_map itoa w n)" "appending reply_empty_array" "appending reply_empty_bulk"
  by (simp_all add: appending_def reply_ok_def reply_simple_def reply_int_def reply_bulk_def reply_bulk_i64_def reply_null_def
      reply_null_array_def reply_array_def reply_map_def reply_empty_array_def reply_empty_bulk_def)

lemma grows_write_opt [append_intros]: "grows c c1 \<Longrightarrow> grows c (write_opt E c1 v)"
  unfolding write_opt_def by (rule grows_with_out) (auto simp: appending_def reply_null_def reply_bulk_def reply_bulk_i64_def split: option.split str_value.split)

lemma grows_set_reply [append_intros]: "appending f \<Longrightarrow> grows c c1 \<Longrightarrow> grows c (set_reply E c1 old f)"
  by (auto simp: set_reply_def intro: append_intros split: option.split)

lemma grows_ops [append_intros]:
  "grows c c1 \<Longrightarrow> grows c (snd (get_str_read E c1 k))" "grows c c1 \<Longrightarrow> grows c (snd (ctx_exists E c1 k))"
  "grows c c1 \<Longrightarrow> grows c (snd (ctx_expire_at E c1 k))" "grows c c1 \<Longrightarrow> grows c (propagate_none c1)"
  "grows c c1 \<Longrightarrow> grows c (ctx_insert E c1 k r at)" "grows c c1 \<Longrightarrow> grows c (ctx_notify E c1 cls ev k)"
  "grows c c1 \<Longrightarrow> grows c (propagate_argv c1 argv)" "grows c c1 \<Longrightarrow> grows c (snd (lookup_read E c1 k))"
  "grows c c1 \<Longrightarrow> grows c (snd (ctx_remove E c1 k))" "grows c c1 \<Longrightarrow> grows c (snd (ctx_set_expire E c1 k at))"
  "grows c c1 \<Longrightarrow> grows c (signal_modified E c1 k)"
  by (rule grows_conn; simp)+

lemma grows_set_store [append_intros]: "grows c c1 \<Longrightarrow> grows c (set_store E c1 k v at old)"
  by (auto simp: set_store_def Let_def intro!: append_intros split: option.split)

lemma grows_mget_loop [append_intros]: "grows c c1 \<Longrightarrow> grows c (mget_loop E c1 ks)"
  by (induction ks arbitrary: c1) (simp_all add: case_prod_beta append_intros)

lemma grows_mset_loop [append_intros]: "grows c c1 \<Longrightarrow> grows c (mset_loop E c1 kvs)"
  by (induction E c1 kvs rule: mset_loop.induct) (simp_all add: append_intros)

interpretation get: command_handler cmd_get
  by unfold_locales (auto simp: cmd_get_def case_prod_beta intro!: append_intros split: sum.split)

interpretation strlen: command_handler cmd_strlen
  by unfold_locales (auto simp: cmd_strlen_def case_prod_beta Let_def intro!: append_intros split: sum.split)

interpretation set_cmd: command_handler cmd_set
  by unfold_locales (auto simp: cmd_set_def case_prod_beta intro!: append_intros split: sum.split)

interpretation mget: command_handler cmd_mget
  by unfold_locales (auto simp: cmd_mget_def intro!: append_intros)

interpretation mset: command_handler cmd_mset
  by unfold_locales (auto simp: cmd_mset_def intro!: append_intros)


subsection \<open>Dispatch\<close>

lemma err_reply_buf: "err_reply s buf proto e = (s\<lparr>sv_error_replies := sv_error_replies s + 1\<rparr>, buf @ 45 # error_display e @ CRLF)"
  by (simp add: err_reply_def reply_error_def writer_new_def)

lemma server_after_errors [simp]: "sv_error_replies (server_after s c g) = sv_error_replies s"
  by (simp add: server_after_def)

lemma run_command_error:
  assumes h: "command_handler (handler spec)" and r: "run_command E s cl buf spec args = (res, s', cl', buf')"
    and e: "sv_error_replies s' \<noteq> sv_error_replies s"
  shows "res = Done \<and> (\<exists>e. buf' = buf @ 45 # error_display e @ CRLF)"
proof -
  let ?c0 = "ctx_new s cl (writer_new buf (cl_proto cl)) (lock_set (sv_shards s) (shard_set_for E spec args (sv_shards s)))"
  obtain r1 c1 where hr: "handler spec E ?c0 args = (r1, c1)" by (rule prod.exhaust)
  have buf0: "rw_buf (out ?c0) = buf" by (simp add: ctx_new_def writer_new_def)
  note restored = command_handler.rollback_restores [OF h hr, unfolded buf0]
  show ?thesis
  proof (cases r1)
    case (Inl e1)
    then show ?thesis using r hr restored by (auto simp: run_command_def Let_def err_reply_buf)
  next
    case (Inr u)
    then show ?thesis using r hr e by (auto simp: run_command_def Let_def split: option.splits if_splits)
  qed
qed

text \<open>What the engine refuses before it takes a lock.\<close>

definition refused :: "server \<Rightarrow> client_state \<Rightarrow> bytes list \<Rightarrow> bool" where
  "refused s cl args =
     (case table_lookup (sv_commands s) (args_name args) of
        None \<Rightarrow> True
      | Some spec \<Rightarrow> \<not> arity_ok spec (length args)
          \<or> (\<not> cl_authenticated cl \<and> cs_name spec \<notin> set no_auth_commands)
          \<or> (flags_contain (flags spec) DENYOOM \<and> check_oom (sv_shards s) (sv_config s) \<noteq> Inr ()))"

lemma dispatch_run:
  assumes "args \<noteq> []" "\<not> refused s cl args" "table_lookup (sv_commands s) (args_name args) = Some spec"
  shows "dispatch E s cl buf args =
    run_command E (s\<lparr>sv_commands_processed := sv_commands_processed s + 1\<rparr>) (cl\<lparr>cl_last_command := cs_name spec\<rparr>) buf spec args"
  using assms by (auto simp: dispatch_def refused_def Let_def intercept_def split: sum.split)

lemma dispatch_refused:
  assumes "args \<noteq> []" "refused s cl args"
  shows "\<exists>e cl'. dispatch E s cl buf args =
    (Done, s\<lparr>sv_commands_processed := sv_commands_processed s + 1, sv_error_replies := sv_error_replies s + 1\<rparr>, cl', buf @ 45 # error_display e @ CRLF)"
  using assms by (auto simp: dispatch_def refused_def Let_def intercept_def err_reply_buf split: option.splits sum.splits)


lemma run_command_ok:
  assumes "handler spec E (ctx_new s cl (writer_new buf (cl_proto cl)) (lock_set (sv_shards s) (shard_set_for E spec args (sv_shards s)))) args
      = (Inr u, c)" and "block c = None"
  shows "run_command E s cl buf spec args = (if should_close (client c) then Close else Done,
    server_after s c (propagate_command s spec (cl_db cl) args (Inr u) c), client c, rw_buf (out c))"
  using assms by (simp add: run_command_def Let_def)

text \<open>The registered specifications of \<^verbatim>\<open>SET\<close> and \<^verbatim>\<open>GET\<close>.\<close>

definition set_spec :: "handler command_spec" where
  "set_spec = string_specs ! 0"

definition get_spec :: "handler command_spec" where
  "get_spec = string_specs ! 1"

lemma spec_fields [simp]:
  "handler set_spec = cmd_set" "handler get_spec = cmd_get" "cs_name set_spec = ascii ''set''" "cs_name get_spec = ascii ''get''"
  "flags set_spec = WRITE OR DENYOOM" "flags get_spec = READONLY OR FAST"
  by (simp_all add: set_spec_def get_spec_def string_specs_def)

lemma spec_arity: "3 \<le> n \<Longrightarrow> arity_ok set_spec n" "arity_ok get_spec 2"
  by (simp_all add: set_spec_def get_spec_def string_specs_def arity_ok_def)

lemma one_key: "1 < n \<Longrightarrow> key_loop 1 n 1 1 [] = [Suc 0]"
  by (subst key_loop.simps, simp, subst key_loop.simps, simp)

lemma spec_keys: "2 \<le> length args \<Longrightarrow> key_positions set_spec args = [1]" "2 \<le> length args \<Longrightarrow> key_positions get_spec args = [1]"
proof -
  assume "2 \<le> length args"
  then show "key_positions set_spec args = [1]" "key_positions get_spec args = [1]"
    using one_key [of "int (length args)"]
    by (simp_all add: key_positions_def set_spec_def get_spec_def string_specs_def flags_contain_def WRITE_def DENYOOM_def READONLY_def
        FAST_def MOVABLE_KEYS_def)
qed

lemma conn_reply [simp]: "client (write_opt E c v) = client c" "block (write_opt E c v) = block c"
  "client (with_out f c) = client c" "block (with_out f c) = block c"
  by (simp_all add: write_opt_def with_out_def)

lemma conn_client: "conn c' = conn c \<Longrightarrow> client c' = client c \<and> block c' = block c"
  by (simp add: conn_def)


lemma set_store_conn: "client (set_store E c k v at old) = client c \<and> block (set_store E c k v at old) = block c"
proof -
  have i: "conn (ctx_notify E (ctx_insert E c k (RStr (str_from_bytes v)) at) STRING (ascii ''set'') k) = conn c" by simp
  have "conn (propagate_argv (ctx_notify E (ctx_insert E c k (RStr (str_from_bytes v)) at) STRING (ascii ''set'') k) argv) = conn c" for argv by simp
  from conn_client [OF i] conn_client [OF this] show ?thesis
    by (cases at; cases old) (simp_all add: set_store_def set_reply_def Let_def)
qed

lemma cmd_set_conn:
  assumes "parse_set_options (nm # k # v # rest) (now_ms c) = Inr opt" and "cmd_set E c (nm # k # v # rest) = (Inr u, c')"
  shows "client c' = client c \<and> block c' = block c"
proof -
  obtain c1 o1 where c1: "same_kv E c c1" and "c' = set_reply E (propagate_none c1) o1 reply_null
      \<or> c' = set_store E c1 k v (if o_keepttl opt then Option.bind (kv E c k) snd else o_expire_at_ms opt) o1"
    using cmd_set_cases [OF assms] by (auto split: if_splits)
  moreover have "client (set_reply E (propagate_none c1) o1 reply_null) = client c1 \<and> block (set_reply E (propagate_none c1) o1 reply_null) = block c1"
    by (cases o1) (simp_all add: set_reply_def propagate_none_def)
  ultimately show ?thesis using set_store_conn by (auto simp: same_kv_def)
qed

lemma cmd_get_conn:
  assumes "cmd_get E c args = (Inr u, c')" shows "client c' = client c \<and> block c' = block c"
proof -
  obtain k where k: "args_at args 1 = Inr k" using assms by (auto simp: cmd_get_def split: sum.splits)
  obtain g c1 where g: "get_str_read E c k = (g, c1)" by (rule prod.exhaust)
  have "conn c1 = conn c" using read_conn [of E c k] by (simp only: g snd_conv)
  then show ?thesis using assms k g by (auto simp: cmd_get_def conn_def split: sum.splits)
qed

lemma bump_processed [simp]:
  "sv_shards (s\<lparr>sv_commands_processed := n\<rparr>) = sv_shards s" "sv_kv E (s\<lparr>sv_commands_processed := n\<rparr>) d k = sv_kv E s d k"
  by (simp_all add: sv_kv_def)

text \<open>One \<^verbatim>\<open>SET\<close> through the engine.\<close>

lemma dispatch_set:
  assumes ok: "map_ok (sv_shards s)" and look: "table_lookup (sv_commands s) nm = Some set_spec" and auth: "cl_authenticated cl"
    and db: "cl_db cl < sm_databases (sv_shards s)" and oom: "\<not> over_limit (sv_shards s) (sv_config s)"
    and d: "dispatch E s cl buf [nm, k, v] = (res, s', cl', buf')"
  shows "buf' = buf @ ascii ''+OK'' @ CRLF" "map_ok (sv_shards s')" "sm_databases (sv_shards s') = sm_databases (sv_shards s)"
    "sv_commands s' = sv_commands s" "sv_now s' = sv_now s"
    "sv_kv E s' (cl_db cl) k' = (if k' = k then Some (RStr (str_from_bytes v), None) else sv_kv E s (cl_db cl) k')"
proof -
  let ?args = "[nm, k, v]" and ?s = "s\<lparr>sv_commands_processed := sv_commands_processed s + 1\<rparr>"
  let ?cl = "cl\<lparr>cl_last_command := cs_name set_spec\<rparr>" and ?v = "shard_set_for E set_spec [nm, k, v] (sv_shards s)"
  let ?c0 = "ctx_new ?s ?cl (writer_new buf (cl_proto ?cl)) (lock_set (sv_shards ?s) ?v)"
  have v: "distinct ?v" "\<forall>i \<in> set ?v. i < sm_len (sv_shards ?s)" using shard_set_ok(2,3) [OF ok, of E set_spec ?args] by simp_all
  have k: "shard_index (env_mc E) (sv_shards ?s) k \<in> set ?v"
    using shard_set_covers [OF ok, of 1 set_spec ?args E] by (simp add: spec_keys)
  have reach: "reach E ?c0 k" by (rule ctx_new_reach [OF _ v k]) (use ok db in simp_all)
  obtain r c where h: "cmd_set E ?c0 ?args = (r, c)" by (rule prod.exhaust)
  have f: "now_ms ?c0 = sv_now s" "out ?c0 = writer_new buf (cl_proto cl)" "client ?c0 = ?cl" "block ?c0 = None"
    by (simp_all add: ctx_new_def)
  have eff: "r = Inr ()" "kv E c k = Some (RStr (str_from_bytes v), None)" "\<And>k'. k' \<noteq> k \<Longrightarrow> kv E c k' = kv E ?c0 k'" "out c = reply_ok (out ?c0)"
    using cmd_set_effect [OF parse_plain reach h refl]
    by (simp_all add: set_options_default_def set_skips_def set_deadline_def if_live_def live_def)
  have h1: "cmd_set E ?c0 ?args = (Inr (), c)" using h eff(1) by simp
  have con: "client c = ?cl" "block c = None" using cmd_set_conn [OF parse_plain h1] f by simp_all
  have shp: "shape c = shape ?c0" using set_cmd.keeps [of E ?c0 ?args] by (simp only: h snd_conv)
  have "\<not> refused s cl ?args" using look auth oom spec_arity(1) [of 3]
    by (simp add: refused_def args_name_def check_oom_def numeral_3_eq_3)
  then have "dispatch E s cl buf ?args = run_command E ?s ?cl buf set_spec ?args" using dispatch_run look by (simp add: args_name_def)
  then have run: "(res, s', cl', buf') = (if should_close (client c) then Close else Done,
      server_after ?s c (propagate_command ?s set_spec (cl_db ?cl) ?args (Inr ()) c), client c, rw_buf (out c))"
    using run_command_ok [of set_spec E ?s ?cl buf ?args "()" c] h eff(1) con d by simp
  show "buf' = buf @ ascii ''+OK'' @ CRLF" using run eff(4) f by (simp add: reply_ok_def writer_new_def)
  have s': "s' = server_after ?s c (propagate_command ?s set_spec (cl_db cl) ?args (Inr ()) c)" using run by simp
  have ok': "map_ok (sv_shards ?s)" and db': "client_db c = cl_db cl" using ok con by simp_all
  note after = server_after_correct [OF ok' v shp db' s']
  show "map_ok (sv_shards s')" "sm_databases (sv_shards s') = sm_databases (sv_shards s)" "sv_commands s' = sv_commands s" "sv_now s' = sv_now s"
    using after(1-4) by simp_all
  show "sv_kv E s' (cl_db cl) k' = (if k' = k then Some (RStr (str_from_bytes v), None) else sv_kv E s (cl_db cl) k')"
    using after(5) [of E k'] eff(2,3) k ctx_new_kv [OF v, of E k' ?cl] by (auto split: if_splits)
qed


lemma dispatch_get:
  assumes env: "env_ok E" and ok: "map_ok (sv_shards s)" and look: "table_lookup (sv_commands s) nm = Some get_spec"
    and auth: "cl_authenticated cl" and val: "sv_kv E s (cl_db cl) k = Some (RStr (str_from_bytes v), at)"
    and d: "dispatch E s cl buf [nm, k] = (res, s', cl', buf')"
  shows "buf' = buf @ 36 # digits (length v) @ CRLF @ v @ CRLF"
proof -
  let ?args = "[nm, k]" and ?s = "s\<lparr>sv_commands_processed := sv_commands_processed s + 1\<rparr>"
  let ?cl = "cl\<lparr>cl_last_command := cs_name get_spec\<rparr>" and ?v = "shard_set_for E get_spec [nm, k] (sv_shards s)"
  let ?c0 = "ctx_new ?s ?cl (writer_new buf (cl_proto ?cl)) (lock_set (sv_shards ?s) ?v)"
  have v: "distinct ?v" "\<forall>i \<in> set ?v. i < sm_len (sv_shards ?s)" using shard_set_ok(2,3) [OF ok, of E get_spec ?args] by simp_all
  have k: "shard_index (env_mc E) (sv_shards ?s) k \<in> set ?v"
    using shard_set_covers [OF ok, of 1 get_spec ?args E] by (simp add: spec_keys)
  obtain r c where h: "cmd_get E ?c0 ?args = (r, c)" by (rule prod.exhaust)
  have "kv E ?c0 k = Some (RStr (str_from_bytes v), at)" using ctx_new_kv [OF v k, of ?cl] val by simp
  from cmd_get_string [OF env this h] have eff: "r = Inr ()" "rw_buf (out c) = buf @ 36 # digits (length v) @ CRLF @ v @ CRLF"
    by (simp_all add: ctx_new_def writer_new_def str_frame_def)
  have h1: "cmd_get E ?c0 ?args = (Inr (), c)" using h eff(1) by simp
  have blk: "block c = None" using cmd_get_conn [OF h1] by (simp add: ctx_new_def)
  have ar: "arity_ok get_spec (Suc (Suc 0))" using spec_arity(2) by (simp only: numeral_2_eq_2)
  have fl: "\<not> flags_contain (READONLY OR FAST) DENYOOM" by (simp add: flags_contain_def READONLY_def FAST_def DENYOOM_def)
  have "\<not> refused s cl ?args" using look auth ar fl by (simp add: refused_def args_name_def)
  then have "dispatch E s cl buf ?args = run_command E ?s ?cl buf get_spec ?args" using dispatch_run look by (simp add: args_name_def)
  then show ?thesis using run_command_ok [of get_spec E ?s ?cl buf ?args "()" c] h1 blk d eff(2) by simp
qed

lemma string_register_ok: "\<exists>t. string_register table_new = Some t"
proof -
  have "\<not> flags_contain (WRITE OR DENYOOM) MOVABLE_KEYS" "\<not> flags_contain (READONLY OR FAST) MOVABLE_KEYS"
    by (simp_all add: flags_contain_def WRITE_def DENYOOM_def READONLY_def FAST_def MOVABLE_KEYS_def)
  then show ?thesis
    by (simp add: string_register_def string_specs_def table_add_def table_new_def MAX_CMD_NAME_def is_ascii_uppercase_def ascii_def)
qed

lemma string_table_lookup:
  assumes "string_register table_new = Some t"
  shows "map to_ascii_lowercase nm = ascii ''set'' \<Longrightarrow> table_lookup t nm = Some set_spec"
    and "map to_ascii_lowercase nm = ascii ''get'' \<Longrightarrow> table_lookup t nm = Some get_spec"
proof -
  have n: "nm \<noteq> [] \<and> length nm \<le> MAX_CMD_NAME" if "map to_ascii_lowercase nm = ascii w" "w \<noteq> []" "length w \<le> 32" for w
    proof -
    have "length nm = length w" using arg_cong [OF that(1), of length] by (simp add: ascii_def)
    then show ?thesis using that(2,3) by (auto simp: MAX_CMD_NAME_def)
  qed
  have "set_spec \<in> set string_specs" "get_spec \<in> set string_specs" by (simp_all add: set_spec_def get_spec_def string_specs_def)
  note iff = table_lookup_iff [OF assms [unfolded string_register_def]] and this n [of "''set''"] n [of "''get''"]
  then show "map to_ascii_lowercase nm = ascii ''set'' \<Longrightarrow> table_lookup t nm = Some set_spec"
    "map to_ascii_lowercase nm = ascii ''get'' \<Longrightarrow> table_lookup t nm = Some get_spec" by simp_all
qed

subsection \<open>Properties\<close>

text \<open>C2. No deadlock: in every state that any number of threads can reach by starting commands,
  whole-keyspace operations and single-shard sweeps, if some thread is not idle then some thread can
  go on, and every such step uses up work, so every set of started commands comes to its end.\<close>

theorem shard_locks_never_deadlock:
  assumes "reachable E m n ts"
  shows "(ts = replicate n Idle \<or> (\<exists>ts'. work_step ts ts')) \<and> (\<forall>ts'. work_step ts ts' \<longrightarrow> work ts' < work ts)"
proof -
  have ok: "locks_ok ts" "length ts = n" using reachable_locks_ok [OF assms] by simp_all
  have "\<exists>i < length ts. ts ! i \<noteq> Idle" if "ts \<noteq> replicate n Idle" using that ok(2) by (auto simp: list_eq_iff_nth_eq)
  then show ?thesis using progress [OF ok(1)] work_step_less by blast
qed

theorem shard_locks_never_deadlock_witness:
  "\<exists>ts'. work_step [Acquiring [] [0], Idle] ts'"
proof -
  have "reachable demo_env (shard_map_new 1 1) 2 [Idle, Idle]" using init [of demo_env "shard_map_new 1 1" 2] by (simp add: numeral_2_eq_2)
  moreover have "wants demo_env (shard_map_new 1 1) [0]" using want_one [of demo_env "shard_map_new 1 1" 0] by (simp add: set_single_def)
  ultimately have "reachable demo_env (shard_map_new 1 1) 2 [Acquiring [] [0], Idle]"
    using starts [OF _ start [of 0 "[Idle, Idle]" demo_env "shard_map_new 1 1" "[0]"]] by simp
  from shard_locks_never_deadlock [OF this] show ?thesis by (simp add: numeral_2_eq_2)
qed

text \<open>C4. Every lock set is strictly ascending, within the map, and holds the shard of every key the
  command names, so each of its keys can be reached.\<close>

theorem lock_set_covers_keys:
  assumes "map_ok m" and "p \<in> set (key_positions spec args)" and "p < length args"
  shows "is_sorted_and_unique (shard_set_for E spec args m)
    \<and> (\<forall>i \<in> set (shard_set_for E spec args m). i < sm_len m)
    \<and> guard_shard (lock_set m (shard_set_for E spec args m)) (shard_index (env_mc E) m (args ! p))
        = map_option h_shard (shard_for (env_mc E) m (args ! p))
    \<and> shard_for (env_mc E) m (args ! p) \<noteq> None"
proof -
  note ok = shard_set_ok [OF assms(1), of E spec args]
  have c: "shard_index (env_mc E) m (args ! p) \<in> set (shard_set_for E spec args m)" by (rule shard_set_covers [OF assms])
  then have "shard_index (env_mc E) m (args ! p) < sm_len m" using ok(3) by blast
  then show ?thesis using ok c by (simp add: sorted_unique_iff guard_shard_lock shard_for_def sm_get_Some)
qed

theorem lock_set_covers_keys_witness:
  "is_sorted_and_unique (shard_set_for demo_env get_spec [[103], [107]] (shard_map_new 16 1))"
  using lock_set_covers_keys [OF map_ok_new [of 16 1], of 1 get_spec "[[103], [107]]" demo_env] by (simp add: spec_keys)






end
