(* ===== verification/Server_Cmd.thy ===== *)
theory Server_Cmd
  imports String_Cmd
begin

text \<open>
  Administrative commands of \<^verbatim>\<open>src/src/command/server.rs\<close>: \<^verbatim>\<open>DBSIZE\<close>, \<^verbatim>\<open>FLUSHDB\<close>, \<^verbatim>\<open>FLUSHALL\<close> and \<^verbatim>\<open>CONFIG\<close>.
  \<^verbatim>\<open>COMMAND\<close> and \<^verbatim>\<open>INFO\<close> only print the table and the counters and are left out. The number of
  processors is a parameter.
\<close>

subsection \<open>Keyspace-wide operations\<close>

fun for_each_db_loop :: "(db \<Rightarrow> 'a \<Rightarrow> db \<times> 'a) \<Rightarrow> nat \<Rightarrow> (nat \<times> shard) list \<Rightarrow> 'a \<Rightarrow> (nat \<times> shard) list \<times> 'a" where
  "for_each_db_loop f n [] acc = ([], acc)"
| "for_each_db_loop f n ((i, s) # gs) acc =
     (case (case shard_db s n of
              Some d \<Rightarrow> (case f d acc of (d', acc) \<Rightarrow> (shard_put_db s n d', acc))
            | None \<Rightarrow> (s, acc)) of
        (s', acc) \<Rightarrow> (case for_each_db_loop f n gs acc of (gs', acc) \<Rightarrow> ((i, s') # gs', acc)))"

definition for_each_db :: "(db \<Rightarrow> 'a \<Rightarrow> db \<times> 'a) \<Rightarrow> ctx \<Rightarrow> 'a \<Rightarrow> 'a \<times> ctx" where
  "for_each_db f c acc =
     (case for_each_db_loop f (client_db c) (g_guards (shards c)) acc of
        (gs, acc) \<Rightarrow> (acc, c\<lparr>shards := (shards c)\<lparr>g_guards := gs\<rparr>\<rparr>))"

definition cmd_dbsize :: "env \<Rightarrow> ctx \<Rightarrow> bytes list \<Rightarrow> handler_result" where
  "cmd_dbsize E c args =
     (case for_each_db (\<lambda>d n. (d, n + db_len d)) c 0 of
        (n, c) \<Rightarrow> (Inr (), with_out (\<lambda>w. reply_int (env_itoa E) w (as_i64 n)) c))"

definition cmd_flushdb :: "env \<Rightarrow> ctx \<Rightarrow> bytes list \<Rightarrow> handler_result" where
  "cmd_flushdb E c args =
     (case for_each_db (\<lambda>d n. (db_clear d, n + db_len d)) c 0 of
        (removed, c) \<Rightarrow> (Inr (), with_out reply_ok (c\<lparr>srv_dirty := srv_dirty c + removed\<rparr>)))"

text \<open>The running total of removed keys is added to the dirty counter of each shard in turn.\<close>

fun flushall_loop :: "(nat \<times> shard) list \<Rightarrow> nat \<Rightarrow> (nat \<times> shard) list \<times> nat" where
  "flushall_loop [] removed = ([], removed)"
| "flushall_loop ((i, s) # gs) removed =
     (let removed = removed + sum_list (map db_len (dbs s));
          s' = s\<lparr>dbs := map db_clear (dbs s), sh_dirty := sh_dirty s + removed\<rparr>
      in case flushall_loop gs removed of (gs', removed) \<Rightarrow> ((i, s') # gs', removed))"

definition cmd_flushall :: "env \<Rightarrow> ctx \<Rightarrow> bytes list \<Rightarrow> handler_result" where
  "cmd_flushall E c args =
     (case flushall_loop (g_guards (shards c)) 0 of
        (gs, removed) \<Rightarrow>
          (Inr (), with_out reply_ok
             (c\<lparr>shards := (shards c)\<lparr>g_guards := gs\<rparr>, srv_dirty := srv_dirty c + removed\<rparr>)))"

subsection \<open>CONFIG\<close>

text \<open>\<open>text_of\<close> writes bytes as configuration text; \<open>lossy_text\<close> is \<^verbatim>\<open>String::from_utf8_lossy\<close> of an argument.\<close>

definition text_of :: "bytes \<Rightarrow> string" where
  "text_of b = map (\<lambda>x. char_of (unat x)) b"

definition lossy_text :: "bytes \<Rightarrow> string" where
  "lossy_text b = text_of (concat (utf8_lossy_chars b))"

definition config_error_display :: "config_error \<Rightarrow> string" where
  "config_error_display e =
     (case e of
        BadDirective \<Rightarrow> ''Bad directive or wrong number of arguments''
      | CNotAnInteger \<Rightarrow> ''argument couldn'' @ [CHR 0x27] @ ''t be parsed into an integer''
      | NotABoolean \<Rightarrow> ''argument must be '' @ [CHR 0x27] @ ''yes'' @ [CHR 0x27] @ '' or '' @ [CHR 0x27] @ ''no'' @ [CHR 0x27]
      | Invalid s \<Rightarrow> s
      | Unknown s \<Rightarrow> ''Unknown directive '' @ [CHR 0x27] @ s @ [CHR 0x27]
      | IoError \<Rightarrow> ''Can'' @ [CHR 0x27] @ ''t open the config file: '')"

definition nat_text :: "nat \<Rightarrow> string" where
  "nat_text n = text_of (digits n)"

definition int_text :: "int \<Rightarrow> string" where
  "int_text n = text_of (decimal n)"

fun join_text :: "string \<Rightarrow> string list \<Rightarrow> string" where
  "join_text sep [] = []"
| "join_text sep [s] = s"
| "join_text sep (s # ss) = s @ sep @ join_text sep ss"

definition config_get_one :: "nat \<Rightarrow> config \<Rightarrow> string \<Rightarrow> string option" where
  "config_get_one cpus c name =
     map_of
       [(''port'', nat_text (cfg_port c)),
        (''databases'', nat_text (cfg_databases c)),
        (''maxmemory'', nat_text (cfg_maxmemory c)),
        (''maxmemory-policy'', policy_as_str (cfg_maxmemory_policy c)),
        (''appendonly'', if cfg_appendonly c then ''yes'' else ''no''),
        (''appendfsync'', fsync_as_str (cfg_appendfsync c)),
        (''requirepass'', case cfg_requirepass c of Some p \<Rightarrow> p | None \<Rightarrow> []),
        (''timeout'', nat_text (cfg_timeout c)),
        (''tcp-keepalive'', nat_text (cfg_tcp_keepalive c)),
        (''hash-max-listpack-entries'', nat_text (cfg_hash_max_listpack_entries c)),
        (''hash-max-listpack-value'', nat_text (cfg_hash_max_listpack_value c)),
        (''list-max-listpack-size'', int_text (cfg_list_max_listpack_size c)),
        (''set-max-intset-entries'', nat_text (cfg_set_max_intset_entries c)),
        (''set-max-listpack-entries'', nat_text (cfg_set_max_listpack_entries c)),
        (''zset-max-listpack-entries'', nat_text (cfg_zset_max_listpack_entries c)),
        (''zset-max-listpack-value'', nat_text (cfg_zset_max_listpack_value c)),
        (''proto-max-bulk-len'', nat_text (cfg_proto_max_bulk_len c)),
        (''notify-keyspace-events'', to_config_string (cfg_notify_keyspace_events c)),
        (''shard-count'', nat_text (effective_shard_count cpus c)),
        (''save'', join_text '' '' (map (\<lambda>p. nat_text (sp_seconds p) @ '' '' @ nat_text (sp_changes p)) (cfg_save c)))]
       name"

definition config_pairs :: "nat \<Rightarrow> config \<Rightarrow> bytes list \<Rightarrow> (string \<times> string) list" where
  "config_pairs cpus c names =
     concat (map (\<lambda>a. let name = str_lower (lossy_text a) in
        case config_get_one cpus c name of Some v \<Rightarrow> [(name, v)] | None \<Rightarrow> []) names)"

fun write_pairs :: "env \<Rightarrow> (string \<times> string) list \<Rightarrow> reply_writer \<Rightarrow> reply_writer" where
  "write_pairs E [] w = w"
| "write_pairs E ((k, v) # ps) w =
     write_pairs E ps (reply_bulk (env_itoa E) (reply_bulk (env_itoa E) w (ascii k)) (ascii v))"

fun set_directives :: "bytes list \<Rightarrow> (string \<times> string) list" where
  "set_directives (k # v # rest) = (lossy_text k, lossy_text v) # set_directives rest"
| "set_directives _ = []"

fun apply_all :: "(string \<times> string) list \<Rightarrow> config \<Rightarrow> config_error + config" where
  "apply_all [] c = Inr c"
| "apply_all ((k, v) # ds) c = rbind (config_apply c k [v]) (apply_all ds)"

definition cmd_config :: "nat \<Rightarrow> env \<Rightarrow> ctx \<Rightarrow> bytes list \<Rightarrow> handler_result" where
  "cmd_config cpus E c args =
     (case args_at args 1 of
        Inl e \<Rightarrow> (Inl e, c)
      | Inr sub \<Rightarrow>
          if eq_ignore_ascii_case sub (ascii ''get'') then
            (let pairs = config_pairs cpus (cfg c) (drop 2 args)
             in (Inr (), with_out (\<lambda>w. write_pairs E pairs (reply_map (env_itoa E) w (length pairs))) c))
          else if eq_ignore_ascii_case sub (ascii ''set'') then
            (if length args < 4 \<or> (length args - 2) mod 2 \<noteq> 0 then (Inl (WrongArity (ascii ''config|set'')), c)
             else (case config_update (srv_cfg c) (apply_all (set_directives (drop 2 args))) of
                     (Inl e, _) \<Rightarrow> (Inl (error_err (ascii (''CONFIG SET failed - '' @ config_error_display e))), c)
                   | (Inr _, new) \<Rightarrow> (Inr (), with_out reply_ok (c\<lparr>srv_cfg := new\<rparr>))))
          else if eq_ignore_ascii_case sub (ascii ''resetstat'') then (Inr (), with_out reply_ok c)
          else
            (Inl (error_err (ascii (''Unknown subcommand or wrong number of arguments for '' @ [CHR 0x27] @ lossy_text sub @ [CHR 0x27]
               @ ''. Try CONFIG HELP.''))), c))"

subsection \<open>Registration\<close>

unbundle bit_operations_syntax

definition server_specs :: "nat \<Rightarrow> handler command_spec list" where
  "server_specs cpus =
     [\<lparr>cs_name = ascii ''dbsize'', arity = 1, flags = READONLY OR FAST OR ALL_SHARDS, first_key = 0, last_key = 0, key_step = 0,
        handler = cmd_dbsize, get_keys = None\<rparr>,
      \<lparr>cs_name = ascii ''flushdb'', arity = - 1, flags = WRITE OR ALL_SHARDS, first_key = 0, last_key = 0, key_step = 0,
        handler = cmd_flushdb, get_keys = None\<rparr>,
      \<lparr>cs_name = ascii ''flushall'', arity = - 1, flags = WRITE OR ALL_SHARDS, first_key = 0, last_key = 0, key_step = 0,
        handler = cmd_flushall, get_keys = None\<rparr>,
      \<lparr>cs_name = ascii ''config'', arity = - 2, flags = ADMIN OR NOSCRIPT OR LOADING OR STALE, first_key = 0, last_key = 0, key_step = 0,
        handler = cmd_config cpus, get_keys = None\<rparr>]"

end
