(* ===== verification/Server_Proofs.thy ===== *)
theory Server_Proofs
  imports Server_Cmd Engine_Proofs Config_Proofs
begin

text \<open>
  Theorems about the administrative commands: \<^verbatim>\<open>FLUSHALL\<close> and \<^verbatim>\<open>FLUSHDB\<close> empty what they should and are
  never propagated, \<^verbatim>\<open>DBSIZE\<close> counts the keys, \<^verbatim>\<open>CONFIG SET\<close> is all or nothing and accepts back what
  \<^verbatim>\<open>CONFIG GET\<close> reports.
\<close>

subsection \<open>Flushing\<close>

lemma flushall_loop_fst: "map fst (fst (flushall_loop gs r)) = map fst gs"
  by (induction gs r rule: flushall_loop.induct) (simp_all add: Let_def case_prod_beta)

lemma flushall_loop_at:
  "map_of (fst (flushall_loop gs r)) i = Some s' \<Longrightarrow>
     \<exists>s d. map_of gs i = Some s \<and> s' = s\<lparr>dbs := map db_clear (dbs s), sh_dirty := d\<rparr>"
  by (induction gs r rule: flushall_loop.induct) (auto simp: Let_def case_prod_beta split: if_splits)

lemma flushall_loop_shape:
  "map (\<lambda>(i, s). (i, length (dbs s))) (fst (flushall_loop gs r)) = map (\<lambda>(i, s). (i, length (dbs s))) gs"
  by (induction gs r rule: flushall_loop.induct) (simp_all add: Let_def case_prod_beta)

lemma for_each_db_shape:
  "map (\<lambda>(i, s). (i, length (dbs s))) (fst (for_each_db_loop f n gs a)) = map (\<lambda>(i, s). (i, length (dbs s))) gs"
  by (induction f n gs a rule: for_each_db_loop.induct) (auto simp: case_prod_beta shard_put_db_def split: option.split)

lemma grows_dirty [append_intros]: "grows c c1 \<Longrightarrow> grows c (c1\<lparr>srv_dirty := n\<rparr>)" "grows c c1 \<Longrightarrow> grows c (c1\<lparr>shards := g\<rparr>)"
  "grows c c1 \<Longrightarrow> grows c (c1\<lparr>srv_cfg := cf\<rparr>)" "grows c c1 \<Longrightarrow> grows c (c1\<lparr>shards := g, srv_dirty := n\<rparr>)"
  by (simp_all add: grows_def)

lemma shape_guards: "guards_shape g = guards_shape (shards c) \<Longrightarrow> shape (c\<lparr>shards := g\<rparr>) = shape c"
  "shape (c\<lparr>srv_cfg := cf\<rparr>) = shape c" "shape (c\<lparr>srv_dirty := n\<rparr>) = shape c"
  by (simp_all add: shape_def)

lemma for_each_db_ctx: "shape (snd (for_each_db f c a)) = shape c" "grows c c1 \<Longrightarrow> grows c (snd (for_each_db f c1 a))"
  by (auto simp: for_each_db_def case_prod_beta guards_shape_def for_each_db_shape intro: shape_guards append_intros)

interpretation dbsize: command_handler cmd_dbsize
  by unfold_locales (auto simp: cmd_dbsize_def case_prod_beta for_each_db_ctx intro!: append_intros for_each_db_ctx(2))

interpretation flushdb: command_handler cmd_flushdb
  by unfold_locales (auto simp: cmd_flushdb_def case_prod_beta for_each_db_ctx shape_guards intro!: append_intros for_each_db_ctx(2))

interpretation flushall: command_handler cmd_flushall
proof unfold_locales
  show "shape (snd (cmd_flushall E c args)) = shape c" for E c args
    using flushall_loop_shape [of "g_guards (shards c)" 0]
    by (simp add: cmd_flushall_def case_prod_beta) (simp add: shape_def guards_shape_def)
  show "grows c (snd (cmd_flushall E c args))" for E c args
    by (auto simp: cmd_flushall_def case_prod_beta intro!: append_intros)
qed

lemma appending_pairs [append_intros]: "appending f \<Longrightarrow> appending (\<lambda>w. write_pairs E ps (f w))"
proof (induction ps arbitrary: f)
  case (Cons p ps)
  obtain k v where p: "p = (k, v)" by (rule prod.exhaust)
  have "appending (\<lambda>w. reply_bulk (env_itoa E) (reply_bulk (env_itoa E) (f w) (ascii k)) (ascii v))"
    using Cons.prems by (simp add: appending_def reply_bulk_def)
  from Cons.IH [OF this] show ?case by (simp add: p)
qed simp

interpretation config_cmd: command_handler "cmd_config cpus"
  by unfold_locales
    (auto simp: cmd_config_def Let_def case_prod_beta shape_guards intro!: append_intros split: sum.split)

text \<open>A command with the whole keyspace locked.\<close>

lemma all_shards_set:
  assumes "map_ok m" "flags_contain (flags spec) ALL_SHARDS"
  shows "shard_set_for E spec args m = [0..<sm_len m]"
proof -
  have "sm_len m mod 65536 = sm_len m" using assms(1) by (simp add: map_ok_def)
  then show ?thesis using assms(2)
    by (simp add: shard_set_for_def set_all_def set_finish_def sorted_sort_id distinct_remdups_id remdups_adj_distinct)
qed

definition flushall_spec :: "handler command_spec" where
  "flushall_spec = \<lparr>cs_name = ascii ''flushall'', arity = - 1, flags = WRITE OR ALL_SHARDS, first_key = 0, last_key = 0, key_step = 0,
     handler = cmd_flushall, get_keys = None\<rparr>"

lemma flushall_spec_registered: "flushall_spec \<in> set (server_specs cpus)"
  by (simp add: server_specs_def flushall_spec_def)

lemma flushall_spec_fields [simp]: "handler flushall_spec = cmd_flushall" "cs_name flushall_spec = ascii ''flushall''" "flags flushall_spec = WRITE OR ALL_SHARDS"
  by (simp_all add: flushall_spec_def)

lemma flushall_flags: "flags_contain (WRITE OR ALL_SHARDS) ALL_SHARDS" "\<not> flags_contain (WRITE OR ALL_SHARDS) DENYOOM"
  by (simp_all add: flags_contain_def WRITE_def ALL_SHARDS_def DENYOOM_def)

lemma db_lookup_clear: "db_lookup (db_clear d) k = None"
  by (simp add: db_lookup_def db_clear_def Let_def)

lemma dispatch_flushall:
  assumes ok: "map_ok (sv_shards s)" and look: "table_lookup (sv_commands s) nm = Some flushall_spec" and auth: "cl_authenticated cl"
    and d: "dispatch E s cl buf [nm] = (res, s', cl', buf')"
  shows "buf' = buf @ ascii ''+OK'' @ CRLF" "sv_kv E s' n k = None" "sm_len (sv_shards s') = sm_len (sv_shards s)"
    "i < sm_len (sv_shards s) \<Longrightarrow> repl_buf (h_shard (sm_shards (sv_shards s') ! i)) = repl_buf (h_shard (sm_shards (sv_shards s) ! i))"
proof -
  let ?s = "s\<lparr>sv_commands_processed := sv_commands_processed s + 1\<rparr>" and ?cl = "cl\<lparr>cl_last_command := cs_name flushall_spec\<rparr>"
  let ?m = "sv_shards s" and ?v = "[0..<sm_len (sv_shards s)]"
  let ?ini = "ctx_new ?s ?cl (writer_new buf (cl_proto ?cl)) (lock_set ?m ?v)"
  have v: "shard_set_for E flushall_spec [nm] ?m = ?v" by (rule all_shards_set [OF ok]) (simp add: flushall_flags)
  obtain gs removed where g: "flushall_loop (g_guards (lock_set ?m ?v)) 0 = (gs, removed)" by (rule prod.exhaust)
  let ?c = "with_out reply_ok (?ini\<lparr>shards := (shards ?ini)\<lparr>g_guards := gs\<rparr>, srv_dirty := srv_dirty ?ini + removed\<rparr>)"
  have h: "cmd_flushall E ?ini [nm] = (Inr (), ?c)" using g by (simp add: cmd_flushall_def ctx_new_def)
  have f: "block ?c = None" "prop_kind ?c = PropDefault" "dirty ?c = 0" "shards ?c = (lock_set ?m ?v)\<lparr>g_guards := gs\<rparr>"
    "rw_buf (out ?c) = buf @ ascii ''+OK'' @ CRLF"
    by (simp_all add: with_out_def ctx_new_def reply_ok_def writer_new_def)
  have pc: "propagate_command ?s flushall_spec (cl_db ?cl) [nm] (Inr ()) ?c = (lock_set ?m ?v)\<lparr>g_guards := gs\<rparr>"
    by (simp only: propagate_command_def f) simp
  have "\<not> refused s cl [nm]" using look auth
    by (simp add: refused_def args_name_def flushall_flags arity_ok_def) (simp add: flushall_spec_def)
  then have "dispatch E s cl buf [nm] = run_command E ?s ?cl buf flushall_spec [nm]" using dispatch_run look by (simp add: args_name_def)
  with run_command_ok [of flushall_spec E ?s ?cl buf "[nm]" "()" ?c] h f(1) d v pc
  have run: "buf' = rw_buf (out ?c)" "s' = server_after ?s ?c ((lock_set ?m ?v)\<lparr>g_guards := gs\<rparr>)" by auto
  show "buf' = buf @ ascii ''+OK'' @ CRLF" using run(1) f(5) by simp
  let ?g = "(lock_set ?m ?v)\<lparr>g_guards := gs\<rparr>"
  have sh: "sv_shards s' = release ?m ?g" "sv_now s' = sv_now s" using run(2) by (simp_all add: server_after_def)
  then show "sm_len (sv_shards s') = sm_len ?m" by simp
  have "map fst gs = map fst (g_guards (lock_set ?m ?v))" using flushall_loop_fst [of "g_guards (lock_set ?m ?v)" 0] by (simp only: g fst_conv)
  then have fst: "distinct (map fst (g_guards ?g))" "map fst gs = ?v" by (simp_all add: lock_set_guards o_def)
  have at: "\<exists>d. guard_shard ?g i = Some ((h_shard (sm_shards ?m ! i))\<lparr>dbs := map db_clear (dbs (h_shard (sm_shards ?m ! i))), sh_dirty := d\<rparr>)"
    if i: "i < sm_len ?m" for i
  proof -
    have "i \<in> fst ` set gs" using fst(2) i by (metis atLeast_upt lessThan_iff list.set_map)
    then obtain s1 where "map_of gs i = Some s1" by (metis map_of_eq_None_iff not_None_eq)
    with flushall_loop_at [of "g_guards (lock_set ?m ?v)" 0 i s1] guard_shard_lock [of ?v ?m i] i
    show ?thesis by (auto simp: g guard_shard_def)
  qed
  show "sv_kv E s' n k = None"
  proof -
    have "shard_index (env_mc E) ?m k < sm_len ?m" using ok shard_index_less by (simp add: map_ok_def)
    from at [OF this] show ?thesis
      by (auto simp: sv_kv_def sh key_db_release [OF ok fst(1)] shard_db_def nth_opt_def db_lookup_clear if_live_def)
  qed
  show "i < sm_len ?m \<Longrightarrow> repl_buf (h_shard (sm_shards (sv_shards s') ! i)) = repl_buf (h_shard (sm_shards ?m ! i))"
    using at [of i] release_shard [OF fst(1), of i ?m] by (auto simp: sh)
qed

subsection \<open>CONFIG\<close>

lemma config_text_values:
  "list_all is_digit bs \<Longrightarrow> digits_value (text_of bs) acc = Some (dec_val acc bs)"
proof (induction bs arbitrary: acc)
  case (Cons b bs)
  then show ?case by (simp add: text_of_def char_digit_def is_digit_unat digit_val_unat)
qed (simp add: text_of_def)

lemma config_apply_one:
  "config_apply c ''port'' [v] = rbind (to_u16 v) (\<lambda>x. Inr (c\<lparr>cfg_port := x\<rparr>))"
  "config_apply c ''databases'' [v] = rbind (to_uint v) (\<lambda>n. if n = 0 then Inl (Invalid ''databases must be >= 1'') else Inr (c\<lparr>cfg_databases := n\<rparr>))"
  "config_apply c ''maxmemory'' [v] = rbind (to_mem v) (\<lambda>x. Inr (c\<lparr>cfg_maxmemory := x\<rparr>))"
  "config_apply c ''timeout'' [v] = rbind (to_uint v) (\<lambda>x. Inr (c\<lparr>cfg_timeout := x\<rparr>))"
  "config_apply c ''tcp-keepalive'' [v] = rbind (to_uint v) (\<lambda>x. Inr (c\<lparr>cfg_tcp_keepalive := x\<rparr>))"
  "config_apply c ''hash-max-listpack-entries'' [v] = rbind (to_uint v) (\<lambda>x. Inr (c\<lparr>cfg_hash_max_listpack_entries := x\<rparr>))"
  "config_apply c ''hash-max-listpack-value'' [v] = rbind (to_uint v) (\<lambda>x. Inr (c\<lparr>cfg_hash_max_listpack_value := x\<rparr>))"
  "config_apply c ''list-max-listpack-size'' [v] = rbind (to_int v) (\<lambda>x. Inr (c\<lparr>cfg_list_max_listpack_size := x\<rparr>))"
  "config_apply c ''set-max-intset-entries'' [v] = rbind (to_uint v) (\<lambda>x. Inr (c\<lparr>cfg_set_max_intset_entries := x\<rparr>))"
  "config_apply c ''set-max-listpack-entries'' [v] = rbind (to_uint v) (\<lambda>x. Inr (c\<lparr>cfg_set_max_listpack_entries := x\<rparr>))"
  "config_apply c ''zset-max-listpack-entries'' [v] = rbind (to_uint v) (\<lambda>x. Inr (c\<lparr>cfg_zset_max_listpack_entries := x\<rparr>))"
  "config_apply c ''zset-max-listpack-value'' [v] = rbind (to_uint v) (\<lambda>x. Inr (c\<lparr>cfg_zset_max_listpack_value := x\<rparr>))"
  "config_apply c ''proto-max-bulk-len'' [v] = rbind (to_mem v) (\<lambda>x. Inr (c\<lparr>cfg_proto_max_bulk_len := x\<rparr>))"
  "config_apply c ''appendonly'' [v] = rbind (to_bool v) (\<lambda>x. Inr (c\<lparr>cfg_appendonly := x\<rparr>))"
  "config_apply c ''maxmemory-policy'' [v] = rbind (ok_or (policy_parse v) (Invalid (''invalid policy '' @ [CHR 0x27] @ v @ [CHR 0x27]))) (\<lambda>p. Inr (c\<lparr>cfg_maxmemory_policy := p\<rparr>))"
  "config_apply c ''appendfsync'' [v] = rbind (ok_or (fsync_parse v) (Invalid ''invalid appendfsync'')) (\<lambda>p. Inr (c\<lparr>cfg_appendfsync := p\<rparr>))"
  "config_apply c ''requirepass'' [v] = Inr (c\<lparr>cfg_requirepass := if v = [] then None else Some v\<rparr>)"
  "nc_parse v = Some p \<Longrightarrow> config_apply c ''notify-keyspace-events'' [v] = Inr (c\<lparr>cfg_notify_keyspace_events := p\<rparr>)"
  by (simp_all add: config_apply_def str_lower_def char_lower_def directives_def directive_groups one_arg_def)

lemma digits_text: "digits_value (nat_text n) 0 = Some n" "nat_text n \<noteq> []"
  by (simp_all add: nat_text_def config_text_values digits_all_digit) (simp add: text_of_def)

lemma text_of_Cons: "text_of (b # bs) = char_of (unat b) # text_of bs"
  by (simp add: text_of_def)

definition digit_text :: "string \<Rightarrow> bool" where
  "digit_text s \<longleftrightarrow> list_all (\<lambda>c. 48 \<le> (of_char c :: nat) \<and> (of_char c :: nat) \<le> 57) s"

lemma nat_text_digit: "digit_text (nat_text n)"
  using digits_all_digit [of n] by (auto simp: digit_text_def nat_text_def text_of_def list_all_iff is_digit_unat)

lemma nat_text_hd: "nat_text n = c # r \<Longrightarrow> 48 \<le> (of_char c :: nat) \<and> (of_char c :: nat) \<le> 57"
  using nat_text_digit [of n] by (simp add: digit_text_def)

lemma parse_nat_text: "str_parse_nat (nat_text n) = Some n"
  using digits_text [of n] by (simp add: str_parse_nat_def)

lemma parse_i64_nat: "n < 2 ^ 63 \<Longrightarrow> str_parse_i64 (nat_text n) = Some (int n)"
proof -
  assume n: "n < 2 ^ 63"
  obtain c r where cr: "nat_text n = c # r" using digits_text(2) [of n] by (cases "nat_text n") auto
  have "c \<noteq> CHR ''-''" "c \<noteq> CHR ''+''" using nat_text_hd [OF cr] by auto
  then show ?thesis using parse_nat_text [of n] n cr by (simp add: str_parse_i64_def fits_def Let_def)
qed

lemma parse_u64_nat: "n < 2 ^ 64 \<Longrightarrow> str_parse_u64 (nat_text n) = Some n"
proof -
  assume n: "n < 2 ^ 64"
  obtain c r where cr: "nat_text n = c # r" using digits_text(2) [of n] by (cases "nat_text n") auto
  have "c \<noteq> CHR ''+''" using nat_text_hd [OF cr] by auto
  then show ?thesis using parse_nat_text [of n] n cr by (simp add: str_parse_u64_def)
qed

lemma minus_char: "char_of (45 :: nat) = CHR ''-''"
  by code_simp

lemma parse_i64_int: "fits 8 v \<Longrightarrow> str_parse_i64 (int_text v) = Some v"
proof (cases "v < 0")
  case True
  assume "fits 8 v"
  have "int_text v = CHR ''-'' # nat_text (nat (- v))" using True minus_char by (simp add: int_text_def decimal_def text_of_Cons nat_text_def)
  then show ?thesis using parse_nat_text [of "nat (- v)"] \<open>fits 8 v\<close> True by (simp add: str_parse_i64_def Let_def)
next
  case False
  assume "fits 8 v"
  have "int_text v = nat_text (nat v)" using False by (simp add: int_text_def decimal_def nat_text_def)
  then show ?thesis using parse_i64_nat [of "nat v"] \<open>fits 8 v\<close> False by (simp add: fits_def)
qed

lemma digit_text_ws: "digit_text s \<Longrightarrow> ws_len s = 0"
  by (cases s) (auto simp: digit_text_def ws_len_def split: list.split)

lemma digit_text_trim: "digit_text s \<Longrightarrow> str_trim s = s"
proof -
  assume d: "digit_text s"
  then have "digit_text (drop n s)" for n by (auto simp: digit_text_def list_all_iff dest: in_set_dropD)
  then have "ws_suffix s = 0" by (simp add: ws_suffix_def digit_text_ws)
  then show ?thesis using d by (simp add: str_trim_def trim_start.simps [of s] trim_end.simps [of s] digit_text_ws)
qed

lemma digit_text_suffix: "digit_text s \<Longrightarrow> \<not> digit_text suf \<Longrightarrow> strip_suffix s suf = None"
proof -
  assume a: "digit_text s" "\<not> digit_text suf"
  have "digit_text (drop n s)" for n using a(1) by (auto simp: digit_text_def list_all_iff dest: in_set_dropD)
  then show ?thesis using a(2) by (metis strip_suffix_def)
qed

lemma digit_text_lower: "digit_text s \<Longrightarrow> str_lower s = s"
proof -
  assume "digit_text s"
  then have "char_lower c = c" if "c \<in> set s" for c using that by (auto simp: digit_text_def list_all_iff char_lower_def)
  then show ?thesis by (simp add: str_lower_def map_idI)
qed

lemma parse_memory_nat: "n < 2 ^ 64 \<Longrightarrow> parse_memory (nat_text n) = Some n"
proof -
  assume n: "n < 2 ^ 64"
  note d = nat_text_digit [of n]
  have "memory_suffix (nat_text n) = (nat_text n, 1)"
    by (simp add: memory_suffix_def digit_text_suffix [OF d] digit_text_def)
  then show ?thesis using n digits_text(2) [of n]
    by (simp add: parse_memory_def digit_text_trim [OF d] digit_text_lower [OF d] parse_u64_nat checked_mul_def)
qed

lemma to_values:
  "n < 2 ^ 63 \<Longrightarrow> to_uint (nat_text n) = Inr n" "n < 65536 \<Longrightarrow> to_u16 (nat_text n) = Inr n" "fits 8 v \<Longrightarrow> to_int (int_text v) = Inr v"
  "n < 2 ^ 64 \<Longrightarrow> to_mem (nat_text n) = Inr n" "to_bool ''yes'' = Inr True" "to_bool ''no'' = Inr False"
  by (simp_all add: to_uint_def to_u16_def to_int_def to_mem_def to_bool_def parse_i64_nat parse_i64_int parse_memory_nat str_lower_def char_lower_def)

lemma policy_roundtrip: "policy_parse (policy_as_str p) = Some p" "fsync_parse (fsync_as_str q) = Some q"
  by (cases p; simp add: policy_parse_def str_lower_def char_lower_def) (cases q; simp add: fsync_parse_def str_lower_def char_lower_def)

text \<open>The ranges of the reported fields: what their Rust types and the directives allow.\<close>

definition cfg_ranges :: "config \<Rightarrow> bool" where
  "cfg_ranges c \<longleftrightarrow> cfg_port c < 65536 \<and> 0 < cfg_databases c \<and> cfg_databases c < 2 ^ 63 \<and> cfg_maxmemory c < 2 ^ 64
     \<and> cfg_proto_max_bulk_len c < 2 ^ 64 \<and> cfg_requirepass c \<noteq> Some [] \<and> cfg_timeout c < 2 ^ 63 \<and> cfg_tcp_keepalive c < 2 ^ 63
     \<and> cfg_hash_max_listpack_entries c < 2 ^ 63 \<and> cfg_hash_max_listpack_value c < 2 ^ 63 \<and> fits 8 (cfg_list_max_listpack_size c)
     \<and> cfg_set_max_intset_entries c < 2 ^ 63 \<and> cfg_set_max_listpack_entries c < 2 ^ 63 \<and> cfg_zset_max_listpack_entries c < 2 ^ 63
     \<and> cfg_zset_max_listpack_value c < 2 ^ 63 \<and> cfg_notify_keyspace_events c AND known_classes = cfg_notify_keyspace_events c"

lemma config_set_back:
  assumes r: "cfg_ranges c" and g: "config_get_one cpus c name = Some v" and n: "name \<noteq> ''save''" "name \<noteq> ''shard-count''"
  shows "config_apply c name [v] = Inr c"
proof -
  note rng = r [unfolded cfg_ranges_def]
  have nt: "nc_parse (to_config_string (cfg_notify_keyspace_events c)) = Some (cfg_notify_keyspace_events c)"
    using parse_config_string rng by simp
  have upd: "c\<lparr>cfg_requirepass := cfg_requirepass c\<rparr> = c" by simp
  consider "name = ''requirepass''" | "name = ''notify-keyspace-events''" | "name = ''appendonly''"
    | "name \<noteq> ''requirepass''" "name \<noteq> ''notify-keyspace-events''" "name \<noteq> ''appendonly''" by blast
  then show ?thesis
  proof cases
    case 1
    then have "(if v = [] then None else Some v) = cfg_requirepass c"
      using g rng by (cases "cfg_requirepass c") (auto simp: config_get_one_def)
    then show ?thesis using 1 by (simp only: config_apply_one upd)
  next
    case 2
    then show ?thesis using g nt by (simp add: config_get_one_def config_apply_one)
  next
    case 3
    then show ?thesis using g by (auto simp: config_get_one_def config_apply_one to_values split: if_splits)
  next
    case 4
    then show ?thesis using g n rng
      by (auto simp: config_get_one_def config_apply_one to_values policy_roundtrip split: if_splits)
  qed
qed

lemma server_specs_ok: "\<exists>t. table_add_all table_new (server_specs cpus) = Some t"
proof -
  have "\<not> flags_contain (READONLY OR FAST OR ALL_SHARDS) MOVABLE_KEYS" "\<not> flags_contain (WRITE OR ALL_SHARDS) MOVABLE_KEYS"
    "\<not> flags_contain (ADMIN OR NOSCRIPT OR LOADING OR STALE) MOVABLE_KEYS"
    by (simp_all add: flags_contain_def WRITE_def READONLY_def FAST_def ALL_SHARDS_def ADMIN_def NOSCRIPT_def LOADING_def STALE_def MOVABLE_KEYS_def)
  then show ?thesis
    by (simp add: server_specs_def table_add_def table_new_def MAX_CMD_NAME_def is_ascii_uppercase_def ascii_def)
qed

lemma config_set_steps:
  assumes "eq_ignore_ascii_case sub (ascii ''set'')" "length rest \<ge> 2" "length rest mod 2 = 0"
  shows "cmd_config cpus E c (nm # sub # rest) =
    (case config_update (srv_cfg c) (apply_all (set_directives rest)) of
       (Inl e, _) \<Rightarrow> (Inl (error_err (ascii (''CONFIG SET failed - '' @ config_error_display e))), c)
     | (Inr _, new) \<Rightarrow> (Inr (), with_out reply_ok (c\<lparr>srv_cfg := new\<rparr>)))"
proof -
  have "\<not> eq_ignore_ascii_case sub (ascii ''get'')"
    using assms(1) by (simp add: eq_ignore_case_map) (simp add: ascii_def to_ascii_lowercase_def is_ascii_uppercase_def)
  moreover have "args_at (nm # sub # rest) 1 = Inr sub" by (simp add: args_at_def nth_opt_def)
  ultimately show ?thesis using assms by (simp add: cmd_config_def numeral_2_eq_2)
qed

lemma apply_all_databases: "apply_all ds c = Inr c' \<Longrightarrow> cfg_databases c \<noteq> 0 \<Longrightarrow> cfg_databases c' \<noteq> 0"
proof (induction ds arbitrary: c)
  case (Cons d ds)
  obtain k v where d: "d = (k, v)" by (rule prod.exhaust)
  then obtain c1 where "config_apply c k [v] = Inr c1" "apply_all ds c1 = Inr c'" using Cons.prems by (auto simp: rbind_Inr)
  then show ?case using Cons.IH config_apply_databases Cons.prems(2) by blast
qed simp

subsection \<open>Properties\<close>

text \<open>C23. \<^verbatim>\<open>FLUSHALL\<close> empties every database of every shard and answers \<^verbatim>\<open>OK\<close>, but it is never propagated:
  whatever the configuration, no shard's replication buffer changes, because the handler does not
  count its changes in the command's dirty counter. Replaying the stream brings the keys back.\<close>

theorem flushall_not_propagated:
  assumes "map_ok (sv_shards s)" and "table_lookup (sv_commands s) nm = Some flushall_spec" and "cl_authenticated cl"
    and "dispatch E s cl buf [nm] = (res, s', cl', buf')"
  shows "buf' = buf @ ascii ''+OK'' @ CRLF \<and> (\<forall>n k. sv_kv E s' n k = None)
    \<and> map (\<lambda>h. repl_buf (h_shard h)) (sm_shards (sv_shards s')) = map (\<lambda>h. repl_buf (h_shard h)) (sm_shards (sv_shards s))"
  using dispatch_flushall [OF assms] by (auto simp: list_eq_iff_nth_eq sm_len_def)

theorem flushall_not_propagated_witness:
  "\<exists>t res s' cl' buf'. dispatch demo_env (server_new 1 (config_default\<lparr>cfg_appendonly := True\<rparr>) 0 t) (client_new 1 [] [] 0 False) [] [ascii ''FlushAll'']
     = (res, s', cl', buf') \<and> buf' = ascii ''+OK'' @ CRLF"
proof -
  obtain t where t: "table_add_all table_new (server_specs 1) = Some t" using server_specs_ok by blast
  let ?s = "server_new 1 (config_default\<lparr>cfg_appendonly := True\<rparr>) 0 t" and ?cl = "client_new 1 [] [] 0 False"
  obtain res s' cl' buf' where d: "dispatch demo_env ?s ?cl [] [ascii ''FlushAll''] = (res, s', cl', buf')" using prod_cases4 by blast
  have m: "map_ok (sv_shards ?s)"
    using map_ok_new [of 1 16] by (simp add: server_new_def effective_shard_count_def config_default_def next_power_of_two.simps)
  have "table_lookup t (ascii ''FlushAll'') = Some flushall_spec"
    using table_lookup_iff [OF t] flushall_spec_registered [of 1]
    by (simp add: ascii_def MAX_CMD_NAME_def to_ascii_lowercase_def is_ascii_uppercase_def)
  then have l: "table_lookup (sv_commands ?s) (ascii ''FlushAll'') = Some flushall_spec" by (simp add: server_new_def)
  have "cl_authenticated ?cl" by (simp add: client_new_def)
  from flushall_not_propagated [OF m l this d] have "buf' = ascii ''+OK'' @ CRLF" by simp
  then show ?thesis using d by blast
qed

text \<open>C20. What \<^verbatim>\<open>CONFIG GET\<close> reports can be set back: for every reported parameter except \<^verbatim>\<open>save\<close> and
  \<^verbatim>\<open>shard-count\<close> (which reports the effective count), applying the reported text leaves the
  configuration as it is.\<close>

theorem config_get_set_back:
  assumes "cfg_ranges c" and "config_get_one cpus c name = Some v" and "name \<noteq> ''save''" and "name \<noteq> ''shard-count''"
  shows "config_apply c name [v] = Inr c"
  by (rule config_set_back [OF assms])

theorem config_get_set_back_witness: "config_apply config_default ''maxmemory-policy'' [''noeviction''] = Inr config_default"
proof (rule config_get_set_back)
  show "cfg_ranges config_default" by (simp add: cfg_ranges_def config_default_def fits_def)
  show "config_get_one 1 config_default ''maxmemory-policy'' = Some ''noeviction''"
    by (simp add: config_get_one_def config_default_def)
qed simp_all





end
