(* ===== verification/Generic_Cmd.thy ===== *)
theory Generic_Cmd
  imports Server_Cmd Evict Crc
begin

text \<open>
  Key commands of \<^verbatim>\<open>src/src/command/generic.rs\<close> that name their keys: \<^verbatim>\<open>DEL\<close>, \<^verbatim>\<open>EXISTS\<close>, \<^verbatim>\<open>TYPE\<close>, \<^verbatim>\<open>TOUCH\<close>, the
  \<^verbatim>\<open>TTL\<close> and \<^verbatim>\<open>EXPIRE\<close> families, \<^verbatim>\<open>RENAME\<close>, \<^verbatim>\<open>COPY\<close>, \<^verbatim>\<open>MOVE\<close>, \<^verbatim>\<open>OBJECT\<close>, \<^verbatim>\<open>DUMP\<close> and \<^verbatim>\<open>RESTORE\<close>. The
  serializer of values is a parameter, since the source leaves it to be installed. Deadlines come
  from signed 64-bit arguments, so the rounding of \<^verbatim>\<open>TTL\<close> does not wrap.
\<close>

unbundle bit_operations_syntax

subsection \<open>Helpers\<close>

definition expire_error :: "bytes \<Rightarrow> cmd_error" where
  "expire_error name = error_err (ascii ''invalid expire time in '' @ [39] @ name @ [39] @ ascii '' command'')"

definition int_out :: "env \<Rightarrow> int \<Rightarrow> ctx \<Rightarrow> ctx" where
  "int_out E v c = with_out (\<lambda>w. reply_int (env_itoa E) w v) c"

definition ctx_db_at :: "env \<Rightarrow> ctx \<Rightarrow> key \<Rightarrow> nat \<Rightarrow> db option" where
  "ctx_db_at E c k n = Option.bind (ctx_shard E c k) (\<lambda>s. shard_db s n)"

definition map_db_at :: "env \<Rightarrow> key \<Rightarrow> nat \<Rightarrow> (db \<Rightarrow> db) \<Rightarrow> ctx \<Rightarrow> ctx" where
  "map_db_at E k n f c =
     (case ctx_db_at E c k n of Some d \<Rightarrow> map_shard E k (\<lambda>s. shard_put_db s n (f d)) c | None \<Rightarrow> c)"

definition with_entry :: "env \<Rightarrow> ctx \<Rightarrow> key \<Rightarrow> (entry \<Rightarrow> 'a) \<Rightarrow> 'a option \<times> ctx" where
  "with_entry E c k f =
     (case ctx_exists E c k of
        (False, c) \<Rightarrow> (None, c)
      | (True, c) \<Rightarrow> (map_option f (Option.bind (ctx_db E c k) (\<lambda>d. fmlookup (dict d) k)), c))"

definition signal_db_watch :: "env \<Rightarrow> ctx \<Rightarrow> key \<Rightarrow> nat \<Rightarrow> ctx" where
  "signal_db_watch E c k n = map_db_at E k n (\<lambda>d. signal_watch d k) c"

definition take_entry :: "env \<Rightarrow> ctx \<Rightarrow> key \<Rightarrow> nat \<Rightarrow> entry option \<times> ctx" where
  "take_entry E c k n =
     (let e = Option.bind (ctx_db_at E c k n) (\<lambda>d. fst (remove_entry d k));
          c = map_db_at E k n (\<lambda>d. snd (remove_entry d k)) c
      in (e, if e \<noteq> None then signal_db_watch E c k n else c))"

definition put_entry :: "env \<Rightarrow> ctx \<Rightarrow> key \<Rightarrow> entry \<Rightarrow> nat \<Rightarrow> ctx" where
  "put_entry E c k e n = map_db_at E k n (\<lambda>d. set_entry (signal_watch d k) k e) c"

definition exists_in_db :: "env \<Rightarrow> ctx \<Rightarrow> key \<Rightarrow> nat \<Rightarrow> bool" where
  "exists_in_db E c k n =
     (case Option.bind (ctx_db_at E c k n) (\<lambda>d. fmlookup (dict d) k) of
        Some e \<Rightarrow> \<not> entry_is_expired e (now_ms c)
      | None \<Rightarrow> False)"

subsection \<open>DEL, EXISTS, TYPE, TOUCH\<close>

fun del_loop :: "env \<Rightarrow> ctx \<Rightarrow> key list \<Rightarrow> int \<Rightarrow> int \<times> ctx" where
  "del_loop E c [] removed = (removed, c)"
| "del_loop E c (k # ks) removed =
     (case ctx_remove E c k of
        (True, c) \<Rightarrow> del_loop E (ctx_notify E c GENERIC (ascii ''del'') k) ks (removed + 1)
      | (False, c) \<Rightarrow> del_loop E c ks removed)"

definition cmd_del :: "env \<Rightarrow> ctx \<Rightarrow> bytes list \<Rightarrow> handler_result" where
  "cmd_del E c args = (case del_loop E c (drop 1 args) 0 of (n, c) \<Rightarrow> (Inr (), int_out E n c))"

fun exists_loop :: "env \<Rightarrow> ctx \<Rightarrow> key list \<Rightarrow> int \<Rightarrow> int \<times> ctx" where
  "exists_loop E c [] found = (found, c)"
| "exists_loop E c (k # ks) found =
     (case ctx_exists E c k of (b, c) \<Rightarrow> exists_loop E c ks (if b then found + 1 else found))"

definition cmd_exists :: "env \<Rightarrow> ctx \<Rightarrow> bytes list \<Rightarrow> handler_result" where
  "cmd_exists E c args = (case exists_loop E c (drop 1 args) 0 of (n, c) \<Rightarrow> (Inr (), int_out E n c))"

definition cmd_type :: "env \<Rightarrow> ctx \<Rightarrow> bytes list \<Rightarrow> handler_result" where
  "cmd_type E c args =
     (case args_at args 1 of
        Inl e \<Rightarrow> (Inl e, c)
      | Inr k \<Rightarrow>
          (case ctx_type_name E c k of
             (t, c) \<Rightarrow> (Inr (), with_out (\<lambda>w. reply_simple w (ascii (case t of Some n \<Rightarrow> n | None \<Rightarrow> ''none''))) c)))"

fun touch_loop :: "env \<Rightarrow> ctx \<Rightarrow> key list \<Rightarrow> int \<Rightarrow> int \<times> ctx" where
  "touch_loop E c [] touched = (touched, c)"
| "touch_loop E c (k # ks) touched =
     (case lookup_read E c k of (r, c) \<Rightarrow> touch_loop E c ks (if r \<noteq> None then touched + 1 else touched))"

definition cmd_touch :: "env \<Rightarrow> ctx \<Rightarrow> bytes list \<Rightarrow> handler_result" where
  "cmd_touch E c args = (case touch_loop E c (drop 1 args) 0 of (n, c) \<Rightarrow> (Inr (), int_out E n c))"

subsection \<open>TTL, EXPIRETIME, PERSIST\<close>

definition ttl_generic :: "env \<Rightarrow> ctx \<Rightarrow> bytes list \<Rightarrow> bool \<Rightarrow> handler_result" where
  "ttl_generic E c args millis =
     (case args_at args 1 of
        Inl e \<Rightarrow> (Inl e, c)
      | Inr k \<Rightarrow>
          (case ctx_exists E c k of
             (False, c) \<Rightarrow> (Inr (), int_out E (- 2) c)
           | (True, c) \<Rightarrow>
               (case ctx_expire_at E c k of
                  (None, c) \<Rightarrow> (Inr (), int_out E (- 1) c)
                | (Some at, c) \<Rightarrow>
                    (let remaining = at - now_ms c in
                     (Inr (), int_out E (as_i64 (if millis then remaining else (remaining + 500) div 1000)) c)))))"

definition expiretime_generic :: "env \<Rightarrow> ctx \<Rightarrow> bytes list \<Rightarrow> bool \<Rightarrow> handler_result" where
  "expiretime_generic E c args millis =
     (case args_at args 1 of
        Inl e \<Rightarrow> (Inl e, c)
      | Inr k \<Rightarrow>
          (case ctx_exists E c k of
             (False, c) \<Rightarrow> (Inr (), int_out E (- 2) c)
           | (True, c) \<Rightarrow>
               (case ctx_expire_at E c k of
                  (None, c) \<Rightarrow> (Inr (), int_out E (- 1) c)
                | (Some at, c) \<Rightarrow> (Inr (), int_out E (as_i64 (if millis then at else (at + 500) div 1000)) c))))"

definition cmd_persist :: "env \<Rightarrow> ctx \<Rightarrow> bytes list \<Rightarrow> handler_result" where
  "cmd_persist E c args =
     (case args_at args 1 of
        Inl e \<Rightarrow> (Inl e, c)
      | Inr k \<Rightarrow>
          (case ctx_exists E c k of
             (False, c) \<Rightarrow> (Inr (), int_out E 0 (propagate_none c))
           | (True, c) \<Rightarrow>
               (case ctx_expire_at E c k of
                  (None, c) \<Rightarrow> (Inr (), int_out E 0 (propagate_none c))
                | (Some _, c) \<Rightarrow>
                    (let c = snd (ctx_set_expire E c k None);
                         c = ctx_notify E c GENERIC (ascii ''persist'') k
                     in (Inr (), int_out E 1 c)))))"

subsection \<open>EXPIRE\<close>

datatype expire_cond = CondAlways | CondNx | CondXx | CondGt | CondLt

record cond_flags =
  cf_nx :: bool
  cf_xx :: bool
  cf_gt :: bool
  cf_lt :: bool

fun parse_cond_loop :: "bytes list \<Rightarrow> cond_flags \<Rightarrow> cmd_error + cond_flags" where
  "parse_cond_loop [] f = Inr f"
| "parse_cond_loop (tok # rest) f =
     (if is_kw tok ''NX'' then parse_cond_loop rest (f\<lparr>cf_nx := True\<rparr>)
      else if is_kw tok ''XX'' then parse_cond_loop rest (f\<lparr>cf_xx := True\<rparr>)
      else if is_kw tok ''GT'' then parse_cond_loop rest (f\<lparr>cf_gt := True\<rparr>)
      else if is_kw tok ''LT'' then parse_cond_loop rest (f\<lparr>cf_lt := True\<rparr>)
      else Inl (error_err (ascii ''Unsupported option '' @ concat (utf8_lossy_chars tok))))"

definition parse_expire_cond :: "bytes list \<Rightarrow> nat \<Rightarrow> cmd_error + expire_cond" where
  "parse_expire_cond args from =
     rbind (parse_cond_loop (drop from args) \<lparr>cf_nx = False, cf_xx = False, cf_gt = False, cf_lt = False\<rparr>) (\<lambda>f.
       if cf_gt f \<and> cf_lt f then Inl (error_err (ascii ''GT and LT options at the same time are not compatible''))
       else if cf_nx f \<and> (cf_xx f \<or> cf_gt f \<or> cf_lt f)
       then Inl (error_err (ascii ''NX and XX, GT or LT options at the same time are not compatible''))
       else Inr (if cf_nx f then CondNx else if cf_xx f then CondXx else if cf_gt f then CondGt else if cf_lt f then CondLt else CondAlways))"

fun cond_allows :: "expire_cond \<Rightarrow> nat option \<Rightarrow> int \<Rightarrow> bool" where
  "cond_allows CondAlways _ when = True"
| "cond_allows CondNx (Some _) when = False"
| "cond_allows CondNx None when = True"
| "cond_allows CondXx None when = False"
| "cond_allows CondXx (Some _) when = True"
| "cond_allows CondGt None when = False"
| "cond_allows CondGt (Some cur) when = (when > as_i64 cur)"
| "cond_allows CondLt None when = True"
| "cond_allows CondLt (Some cur) when = (when < as_i64 cur)"

text \<open>The deadline in milliseconds, with the overflow checks in the order of the source.\<close>

definition expire_when :: "nat \<Rightarrow> int \<Rightarrow> bool \<Rightarrow> bool \<Rightarrow> bytes \<Rightarrow> cmd_error + int" where
  "expire_when now raw unit_ms absolute name =
     (if \<not> unit_ms \<and> \<not> (- 9223372036854775 \<le> raw \<and> raw \<le> 9223372036854775) then Inl (expire_error name)
      else
        (let when = (if unit_ms then raw else raw * 1000);
             basetime = (if absolute then 0 else as_i64 now)
         in if when > (2 ^ 63 - 1) - basetime then Inl (expire_error name) else Inr (when + basetime)))"

definition expire_generic :: "env \<Rightarrow> ctx \<Rightarrow> bytes list \<Rightarrow> bool \<Rightarrow> bool \<Rightarrow> bytes \<Rightarrow> handler_result" where
  "expire_generic E c args unit_ms absolute name =
     (case rbind (args_at args 1) (\<lambda>k. rbind (i64_at args 2) (\<lambda>raw. rbind (parse_expire_cond args 3) (\<lambda>cond.
             rbind (expire_when (now_ms c) raw unit_ms absolute name) (\<lambda>when. Inr (k, cond, when))))) of
        Inl e \<Rightarrow> (Inl e, c)
      | Inr (k, cond, when) \<Rightarrow>
          (case ctx_exists E c k of
             (False, c) \<Rightarrow> (Inr (), int_out E 0 (propagate_none c))
           | (True, c) \<Rightarrow>
               (case ctx_expire_at E c k of
                  (current, c) \<Rightarrow>
                    if \<not> cond_allows cond current when then (Inr (), int_out E 0 (propagate_none c))
                    else if when \<le> as_i64 (now_ms c) then
                      (let lazy = cfg_lazyfree_lazy_expire (cfg c);
                           c = snd (ctx_remove E c k);
                           c = ctx_notify E c GENERIC (ascii ''del'') k;
                           c = propagate_argv c [ascii (if lazy then ''UNLINK'' else ''DEL''), k]
                       in (Inr (), int_out E 1 c))
                    else
                      (let c = snd (ctx_set_expire E c k (Some (nat when)));
                           c = ctx_notify E c GENERIC (ascii ''expire'') k;
                           c = propagate_argv c [ascii ''PEXPIREAT'', k, env_itoa E when]
                       in (Inr (), int_out E 1 c)))))"

definition cmd_expire :: "env \<Rightarrow> ctx \<Rightarrow> bytes list \<Rightarrow> handler_result" where
  "cmd_expire E c args = expire_generic E c args False False (ascii ''expire'')"

definition cmd_pexpire :: "env \<Rightarrow> ctx \<Rightarrow> bytes list \<Rightarrow> handler_result" where
  "cmd_pexpire E c args = expire_generic E c args True False (ascii ''pexpire'')"

definition cmd_expireat :: "env \<Rightarrow> ctx \<Rightarrow> bytes list \<Rightarrow> handler_result" where
  "cmd_expireat E c args = expire_generic E c args False True (ascii ''expireat'')"

definition cmd_pexpireat :: "env \<Rightarrow> ctx \<Rightarrow> bytes list \<Rightarrow> handler_result" where
  "cmd_pexpireat E c args = expire_generic E c args True True (ascii ''pexpireat'')"

subsection \<open>RENAME\<close>

definition rename_generic :: "env \<Rightarrow> ctx \<Rightarrow> bytes list \<Rightarrow> bool \<Rightarrow> handler_result" where
  "rename_generic E c args nx =
     (case rbind (args_at args 1) (\<lambda>src. rbind (args_at args 2) (\<lambda>dst. Inr (src, dst))) of
        Inl e \<Rightarrow> (Inl e, c)
      | Inr (src, dst) \<Rightarrow>
          (let n = client_db c in
           case ctx_exists E c src of
             (False, c) \<Rightarrow> (Inl NoSuchKey, c)
           | (True, c) \<Rightarrow>
               if src = dst then
                 (Inr (), (if nx then int_out E 0 else with_out reply_ok) (propagate_none c))
               else if exists_in_db E c dst n \<and> nx then (Inr (), int_out E 0 (propagate_none c))
               else (case take_entry E c src n of
                       (None, c) \<Rightarrow> (Inl NoSuchKey, c)
                     | (Some e, c) \<Rightarrow>
                         (let c = put_entry E c dst e n;
                              c = signal_modified E c src;
                              c = signal_modified E c dst;
                              c = ctx_notify E c GENERIC (ascii ''rename_from'') src;
                              c = ctx_notify E c GENERIC (ascii ''rename_to'') dst
                          in (Inr (), (if nx then int_out E 1 else with_out reply_ok) c)))))"

definition cmd_rename :: "env \<Rightarrow> ctx \<Rightarrow> bytes list \<Rightarrow> handler_result" where
  "cmd_rename E c args = rename_generic E c args False"

definition cmd_renamenx :: "env \<Rightarrow> ctx \<Rightarrow> bytes list \<Rightarrow> handler_result" where
  "cmd_renamenx E c args = rename_generic E c args True"

subsection \<open>COPY and MOVE\<close>

text \<open>The serializer that may be installed: a value to its bytes and back, each possibly failing.\<close>

record value_codec =
  vc_dump :: "robj \<Rightarrow> bytes option"
  vc_restore :: "bytes \<Rightarrow> robj option"

definition codec_duplicate :: "value_codec \<Rightarrow> robj \<Rightarrow> robj option" where
  "codec_duplicate vc r = Option.bind (vc_dump vc r) (vc_restore vc)"

definition duplicate_value :: "value_codec option \<Rightarrow> robj \<Rightarrow> robj option" where
  "duplicate_value codec r =
     (case r of RStr s \<Rightarrow> Some (RStr s) | _ \<Rightarrow> Option.bind codec (\<lambda>vc. codec_duplicate vc r))"

definition db_range_error :: cmd_error where
  "db_range_error = error_err (ascii ''DB index is out of range'')"

definition same_object_error :: cmd_error where
  "same_object_error = error_err (ascii ''source and destination objects are the same'')"

fun copy_options :: "nat \<Rightarrow> bytes list \<Rightarrow> nat \<Rightarrow> bool \<Rightarrow> cmd_error + nat \<times> bool" where
  "copy_options databases [] dst_db replace = Inr (dst_db, replace)"
| "copy_options databases (tok # rest) dst_db replace =
     (if is_kw tok ''REPLACE'' then copy_options databases rest dst_db True
      else if is_kw tok ''DB'' then
        (case rest of
           [] \<Rightarrow> Inl Syntax
         | a # rest' \<Rightarrow>
             (case string2ll a of
                None \<Rightarrow> Inl NotAnInteger
              | Some n \<Rightarrow>
                  if n < 0 \<or> as_i64 databases \<le> n then Inl db_range_error
                  else copy_options databases rest' (nat n) replace))
      else Inl Syntax)"

definition copy_checks :: "ctx \<Rightarrow> bytes list \<Rightarrow> cmd_error + key \<times> key \<times> nat \<times> bool" where
  "copy_checks c args =
     rbind (args_at args 1) (\<lambda>src. rbind (args_at args 2) (\<lambda>dst.
       rbind (copy_options (sm_databases (srv_map c)) (drop 3 args) (client_db c) False) (\<lambda>(dst_db, replace).
         if src = dst \<and> client_db c = dst_db then Inl same_object_error
         else rbind (check_oom (srv_map c) (cfg c)) (\<lambda>_. Inr (src, dst, dst_db, replace)))))"

definition cmd_copy :: "value_codec option \<Rightarrow> env \<Rightarrow> ctx \<Rightarrow> bytes list \<Rightarrow> handler_result" where
  "cmd_copy codec E c args =
     (case copy_checks c args of
        Inl e \<Rightarrow> (Inl e, c)
      | Inr (src, dst, dst_db, replace) \<Rightarrow>
          (let src_db = client_db c in
           case ctx_exists E c src of
             (False, c) \<Rightarrow> (Inr (), int_out E 0 (propagate_none c))
           | (True, c) \<Rightarrow>
               if exists_in_db E c dst dst_db \<and> \<not> replace then (Inr (), int_out E 0 (propagate_none c))
               else (case ctx_expire_at E c src of
                       (expire_at, c) \<Rightarrow>
                         (case lookup_read E c src of
                            (None, c) \<Rightarrow> (Inr (), int_out E 0 (propagate_none c))
                          | (Some r, c) \<Rightarrow>
                              (case duplicate_value codec r of
                                 None \<Rightarrow> (Inl (error_err (ascii ''COPY of this type requires the RDB serializer, which is not loaded'')), c)
                               | Some copied \<Rightarrow>
                                   (let c = put_entry E c dst (entry_new copied expire_at (now_ms c) (policy_is_lfu (cfg_maxmemory_policy (cfg c)))) dst_db;
                                        c = signal_modified E c dst;
                                        c = (if dst_db \<noteq> src_db then signal_db_watch E c dst dst_db else c);
                                        c = ctx_notify E c GENERIC (ascii ''copy_to'') dst
                                    in (Inr (), int_out E 1 c)))))))"

definition cmd_move :: "env \<Rightarrow> ctx \<Rightarrow> bytes list \<Rightarrow> handler_result" where
  "cmd_move E c args =
     (case rbind (args_at args 1) (\<lambda>k. rbind (i64_at args 2) (\<lambda>target.
             if target < 0 \<or> as_i64 (sm_databases (srv_map c)) \<le> target then Inl db_range_error
             else if nat target = client_db c then Inl same_object_error
             else Inr (k, nat target))) of
        Inl e \<Rightarrow> (Inl e, c)
      | Inr (k, dst_db) \<Rightarrow>
          (let src_db = client_db c in
           case ctx_exists E c k of
             (False, c) \<Rightarrow> (Inr (), int_out E 0 (propagate_none c))
           | (True, c) \<Rightarrow>
               if exists_in_db E c k dst_db then (Inr (), int_out E 0 (propagate_none c))
               else (case take_entry E c k src_db of
                       (None, c) \<Rightarrow> (Inr (), int_out E 0 (propagate_none c))
                     | (Some e, c) \<Rightarrow>
                         (let c = put_entry E c k e dst_db;
                              c = signal_modified E c k;
                              c = signal_db_watch E c k dst_db;
                              c = ctx_notify E c GENERIC (ascii ''move_from'') k;
                              c = c\<lparr>published := published c
                                    @ notify_dispatch (env_itoa E) (sink c) (cfg_notify_keyspace_events (cfg c)) GENERIC (ascii ''move_to'') dst_db k\<rparr>
                          in (Inr (), int_out E 1 c)))))"

subsection \<open>OBJECT\<close>

definition robj_encoding :: "robj \<Rightarrow> string" where
  "robj_encoding r = (case r of RStr s \<Rightarrow> str_encoding s | RStream \<Rightarrow> ''stream'' | _ \<Rightarrow> ''listpack'')"

definition SHARED_INTEGER_REFCOUNT :: int where "SHARED_INTEGER_REFCOUNT = 2147483647"

definition object_refcount :: "entry \<Rightarrow> int" where
  "object_refcount e =
     (case obj e of
        RStr s \<Rightarrow>
          (case str_as_i64 s of
             Some v \<Rightarrow> if 0 \<le> v \<and> v < 10000 \<and> str_as_slice s = None then SHARED_INTEGER_REFCOUNT else 1
           | None \<Rightarrow> 1)
      | _ \<Rightarrow> 1)"

definition object_help :: "bytes list" where
  "object_help =
     [ascii ''OBJECT <subcommand> [<arg> [value] [opt] ...]. Subcommands are:'',
      ascii ''ENCODING <key>'',
      ascii ''    Return the kind of internal representation used in order to store the value associated with <key>.'',
      ascii ''FREQ <key>'',
      ascii ''    Return the access frequency index of the <key>. The returned integer is proportional to the logarithm of the real access frequency.'',
      ascii ''IDLETIME <key>'',
      ascii ''    Return the idle time of the <key>, that is the approximated number of seconds elapsed since the last access to the value.'',
      ascii ''REFCOUNT <key>'',
      ascii ''    Return the number of references of the value associated with <key>.'',
      ascii ''HELP'',
      ascii ''    Print this help.'']"

definition lfu_selected_error :: cmd_error where
  "lfu_selected_error = error_err (ascii ''An LFU maxmemory policy is selected, access time not tracked. Please note that when switching between maxmemory policies at runtime LFU and LRU data will take some time to adjust.'')"

definition lfu_not_selected_error :: cmd_error where
  "lfu_not_selected_error = error_err (ascii ''An LFU maxmemory policy is not selected, access frequency not tracked. Please note that when switching between maxmemory policies at runtime LFU and LRU data will take some time to adjust.'')"

definition object_reply :: "env \<Rightarrow> 'a option \<times> ctx \<Rightarrow> ('a \<Rightarrow> ctx \<Rightarrow> ctx) \<Rightarrow> handler_result" where
  "object_reply E r f = (case r of (None, c) \<Rightarrow> (Inl NoSuchKey, c) | (Some v, c) \<Rightarrow> (Inr (), f v c))"

definition cmd_object :: "env \<Rightarrow> ctx \<Rightarrow> bytes list \<Rightarrow> handler_result" where
  "cmd_object E c args =
     (case args_at args 1 of
        Inl e \<Rightarrow> (Inl e, c)
      | Inr sub \<Rightarrow>
          if is_kw sub ''HELP'' then
            (Inr (), with_out (\<lambda>w. fold (\<lambda>l w. reply_simple w l) object_help (reply_array (env_itoa E) w (length object_help))) c)
          else if length args \<noteq> 3 then (Inl (WrongArity (ascii ''object'')), c)
          else (case args_at args 2 of
                  Inl e \<Rightarrow> (Inl e, c)
                | Inr k \<Rightarrow>
                    (let now = now_ms c; lfu_policy = policy_is_lfu (cfg_maxmemory_policy (cfg c)) in
                     if is_kw sub ''ENCODING'' then
                       object_reply E (with_entry E c k (\<lambda>e. robj_encoding (obj e))) (\<lambda>v. with_out (\<lambda>w. reply_bulk (env_itoa E) w (ascii v)))
                     else if is_kw sub ''REFCOUNT'' then object_reply E (with_entry E c k object_refcount) (int_out E)
                     else if is_kw sub ''IDLETIME'' then
                       (if lfu_policy then (Inl lfu_selected_error, c)
                        else object_reply E (with_entry E c k (\<lambda>e. idle_ms (lru e) now div 1000)) (\<lambda>v. int_out E (as_i64 v)))
                     else if is_kw sub ''FREQ'' then
                       (if \<not> lfu_policy then (Inl lfu_not_selected_error, c)
                        else object_reply E (with_entry E c k (\<lambda>e. unat (lfu_counter (lru e)))) (\<lambda>v. int_out E (int v)))
                     else
                       (Inl (error_err (ascii ''Unknown subcommand or wrong number of arguments for '' @ [39] @ concat (utf8_lossy_chars sub)
                          @ [39] @ ascii ''. Try OBJECT HELP.'')), c))))"

subsection \<open>DUMP and RESTORE\<close>

definition DUMP_RDB_VERSION :: int where "DUMP_RDB_VERSION = 11"

definition DUMP_FOOTER_LEN :: nat where "DUMP_FOOTER_LEN = 10"

definition no_codec :: cmd_error where
  "no_codec = error_err (ascii ''DUMP/RESTORE requires the RDB serializer, which is not loaded'')"

definition seal_dump :: "bytes \<Rightarrow> bytes" where
  "seal_dump body = (let body = body @ le_bytes 2 DUMP_RDB_VERSION in body @ le_bytes 8 (uint (digest body)))"

definition verify_dump :: "bytes \<Rightarrow> bytes option" where
  "verify_dump buf =
     (if length buf < DUMP_FOOTER_LEN then None
      else
        (let split = length buf - DUMP_FOOTER_LEN; body = take split buf; footer = drop split buf;
             version = le_val (take 2 footer)
         in if version > DUMP_RDB_VERSION then None
            else
              (let stored = le_val (take 8 (drop 2 footer)); computed = digest (take (length buf - 8) buf)
               in if stored \<noteq> uint computed then None else Some body)))"

definition cmd_dump :: "value_codec option \<Rightarrow> env \<Rightarrow> ctx \<Rightarrow> bytes list \<Rightarrow> handler_result" where
  "cmd_dump codec E c args =
     (case args_at args 1 of
        Inl e \<Rightarrow> (Inl e, c)
      | Inr k \<Rightarrow>
          (case lookup_read E c k of
             (None, c) \<Rightarrow> (Inr (), with_out reply_null c)
           | (Some r, c) \<Rightarrow>
               (case Option.bind codec (\<lambda>vc. vc_dump vc r) of
                  None \<Rightarrow> (Inl no_codec, c)
                | Some body \<Rightarrow> (Inr (), with_out (\<lambda>w. reply_bulk (env_itoa E) w (seal_dump body)) c))))"

record restore_options =
  ro_replace :: bool
  ro_absttl :: bool
  ro_idletime :: "int option"
  ro_freq :: "int option"

fun restore_options_loop :: "bytes list \<Rightarrow> restore_options \<Rightarrow> cmd_error + restore_options" where
  "restore_options_loop [] o' = Inr o'"
| "restore_options_loop (tok # rest) o' =
     (if is_kw tok ''REPLACE'' then restore_options_loop rest (o'\<lparr>ro_replace := True\<rparr>)
      else if is_kw tok ''ABSTTL'' then restore_options_loop rest (o'\<lparr>ro_absttl := True\<rparr>)
      else if is_kw tok ''IDLETIME'' then
        (case rest of
           [] \<Rightarrow> Inl Syntax
         | a # rest' \<Rightarrow>
             (case string2ll a of
                None \<Rightarrow> Inl NotAnInteger
              | Some v \<Rightarrow>
                  if v < 0 then Inl (error_err (ascii ''Invalid IDLETIME value, must be >= 0''))
                  else restore_options_loop rest' (o'\<lparr>ro_idletime := Some v\<rparr>)))
      else if is_kw tok ''FREQ'' then
        (case rest of
           [] \<Rightarrow> Inl Syntax
         | a # rest' \<Rightarrow>
             (case string2ll a of
                None \<Rightarrow> Inl NotAnInteger
              | Some v \<Rightarrow>
                  if \<not> (0 \<le> v \<and> v \<le> 255) then Inl (error_err (ascii ''Invalid FREQ value, must be >= 0 and <= 255''))
                  else restore_options_loop rest' (o'\<lparr>ro_freq := Some v\<rparr>)))
      else Inl Syntax)"

definition restore_args :: "ctx \<Rightarrow> bytes list \<Rightarrow> cmd_error + key \<times> int \<times> bytes \<times> restore_options" where
  "restore_args c args =
     rbind (args_at args 1) (\<lambda>k. rbind (i64_at args 2) (\<lambda>ttl. rbind (args_at args 3) (\<lambda>payload.
       rbind (restore_options_loop (drop 4 args) \<lparr>ro_replace = False, ro_absttl = False, ro_idletime = None, ro_freq = None\<rparr>) (\<lambda>o'.
         if ttl < 0 then Inl (error_err (ascii ''Invalid TTL value, must be >= 0''))
         else rbind (check_oom (srv_map c) (cfg c)) (\<lambda>_. Inr (k, ttl, payload, o'))))))"

definition restore_value :: "value_codec option \<Rightarrow> bytes \<Rightarrow> cmd_error + robj" where
  "restore_value codec payload =
     (case verify_dump payload of
        None \<Rightarrow> Inl (error_err (ascii ''DUMP payload version or checksum are wrong''))
      | Some body \<Rightarrow>
          (case codec of
             None \<Rightarrow> Inl no_codec
           | Some vc \<Rightarrow> ok_or (vc_restore vc body) (error_err (ascii ''Bad data format''))))"

definition set_lru_raw :: "env \<Rightarrow> ctx \<Rightarrow> key \<Rightarrow> u32 \<Rightarrow> ctx" where
  "set_lru_raw E c k v =
     map_db E k (\<lambda>d. case fmlookup (dict d) k of
         Some e \<Rightarrow> d\<lparr>dict := fmupd k (e\<lparr>lru := v\<rparr>) (dict d)\<rparr>
       | None \<Rightarrow> d) c"

definition restore_deadline :: "nat \<Rightarrow> int \<Rightarrow> bool \<Rightarrow> nat option" where
  "restore_deadline now ttl absttl =
     (if ttl = 0 then None
      else if absttl then Some (nat ttl)
      else Some (nat (saturating_add_i64 (as_i64 now) ttl)))"

definition cmd_restore :: "value_codec option \<Rightarrow> env \<Rightarrow> ctx \<Rightarrow> bytes list \<Rightarrow> handler_result" where
  "cmd_restore codec E c args =
     (case restore_args c args of
        Inl e \<Rightarrow> (Inl e, c)
      | Inr (k, ttl, payload, o') \<Rightarrow>
          (case ctx_exists E c k of
             (ex, c) \<Rightarrow>
               if ex \<and> \<not> ro_replace o' then (Inl (Custom (ascii ''BUSYKEY'') (ascii ''Target key name already exists.'')), c)
               else (case restore_value codec payload of
                       Inl e \<Rightarrow> (Inl e, c)
                     | Inr r \<Rightarrow>
                         (let expire_at = restore_deadline (now_ms c) ttl (ro_absttl o');
                              c = ctx_insert E c k r expire_at;
                              c = (case ro_idletime o' of
                                     Some v \<Rightarrow> set_lru_raw E c k (lru_clock (now_ms c - min (nat v * 1000) (2 ^ 64 - 1)))
                                   | None \<Rightarrow>
                                       (case ro_freq o' of
                                          Some v \<Rightarrow> set_lru_raw E c k (push_bit 8 (lfu_clock (now_ms c)) OR (of_int v AND 0xff))
                                        | None \<Rightarrow> c));
                              c = ctx_notify E c GENERIC (ascii ''restore'') k;
                              c = (case expire_at of
                                     Some at \<Rightarrow>
                                       if ro_absttl o' then c
                                       else propagate_argv c ([ascii ''RESTORE'', k, env_itoa E (int at), payload]
                                              @ (if ro_replace o' then [ascii ''REPLACE''] else []) @ [ascii ''ABSTTL''])
                                   | None \<Rightarrow> c)
                          in (Inr (), with_out reply_ok c)))))"

end
