(* ===== verification/Glob.thy ===== *)
theory Glob
  imports Prelude "HOL-Library.Sublist"
begin

text \<open>
  Glob matching, from \<^verbatim>\<open>src/src/command/generic.rs\<close>: the iterative matcher with star backtracking, as
  \<open>glob_match\<close>, and the recursive meaning of a pattern it is proved equal to. The matcher is a loop,
  so not returning is the value \<open>None\<close>; the theorem shows it always returns.
\<close>

subsection \<open>The matcher\<close>

function class_loop :: "bytes \<Rightarrow> nat \<Rightarrow> byte \<Rightarrow> bool \<Rightarrow> bool \<times> nat" where
  "class_loop pat p c matched =
     (case nth_opt pat p of
        None \<Rightarrow> (matched, p)
      | Some b \<Rightarrow>
          if b = 93 then (matched, p + 1)
          else if b = 92 then
            (case nth_opt pat (p + 1) of
               Some lit \<Rightarrow> class_loop pat (p + 2) c (if lit = c then True else matched)
             | None \<Rightarrow> class_loop pat (p + 1) c matched)
          else if nth_opt pat (p + 1) = Some 45 \<and> (case nth_opt pat (p + 2) of Some e \<Rightarrow> e \<noteq> 93 | None \<Rightarrow> False) then
            (let end = (case nth_opt pat (p + 2) of Some e \<Rightarrow> e | None \<Rightarrow> b);
                 lo = (if b \<le> end then b else end); hi = (if b \<le> end then end else b)
             in class_loop pat (p + 3) c (if lo \<le> c \<and> c \<le> hi then True else matched))
          else class_loop pat (p + 1) c (if b = c then True else matched))"
  by pat_completeness auto
termination
  by (relation "measure (\<lambda>(pat, p, c, matched). length pat - p)") (auto simp: nth_opt_def split: if_splits)

declare class_loop.simps [simp del]

definition match_class :: "bytes \<Rightarrow> nat \<Rightarrow> byte \<Rightarrow> bool \<times> nat" where
  "match_class pat open_pos c =
     (let p = open_pos + 1; negate = (nth_opt pat p = Some 94); p = (if negate then p + 1 else p) in
      case class_loop pat p c False of (matched, p) \<Rightarrow> (matched \<noteq> negate, p))"

text \<open>One step of the matcher on a pattern byte other than a star: the positions after it when the
  byte at \<open>s\<close> is matched.\<close>

definition glob_advance :: "bytes \<Rightarrow> bytes \<Rightarrow> nat \<Rightarrow> nat \<Rightarrow> (nat \<times> nat) option" where
  "glob_advance pat str p s =
     (case nth_opt pat p of
        None \<Rightarrow> None
      | Some b \<Rightarrow>
          if b = 63 then Some (p + 1, s + 1)
          else if b = 91 then
            (case match_class pat p (case nth_opt str s of Some c \<Rightarrow> c | None \<Rightarrow> 0) of
               (True, nxt) \<Rightarrow> Some (nxt, s + 1)
             | (False, _) \<Rightarrow> None)
          else if b = 92 then
            (case (nth_opt pat (p + 1), nth_opt str s) of
               (Some lit, Some c) \<Rightarrow> if lit = c then Some (p + 2, s + 1) else None
             | (None, Some c) \<Rightarrow> if c = 92 then Some (p + 1, s + 1) else None
             | _ \<Rightarrow> None)
          else (case nth_opt str s of Some c \<Rightarrow> if b = c then Some (p + 1, s + 1) else None | None \<Rightarrow> None))"

function skip_stars :: "bytes \<Rightarrow> nat \<Rightarrow> nat" where
  "skip_stars pat p = (if nth_opt pat p = Some 42 then skip_stars pat (p + 1) else p)"
  by pat_completeness auto
termination
  by (relation "measure (\<lambda>(pat, p). length pat - p)") (auto simp: nth_opt_def split: if_splits)

declare skip_stars.simps [simp del]

partial_function (option) glob_loop :: "bytes \<Rightarrow> bytes \<Rightarrow> nat \<Rightarrow> nat \<Rightarrow> nat option \<Rightarrow> nat \<Rightarrow> bool option" where
  "glob_loop pat str p s star_p star_s =
     (if s < length str then
        (if nth_opt pat p = Some 42 then glob_loop pat str (p + 1) s (Some p) s
         else (case glob_advance pat str p s of
                 Some ps \<Rightarrow> glob_loop pat str (fst ps) (snd ps) star_p star_s
               | None \<Rightarrow>
                   (case star_p of
                      None \<Rightarrow> Some False
                    | Some sp \<Rightarrow>
                        if star_s + 1 > length str then Some False
                        else glob_loop pat str (sp + 1) (star_s + 1) star_p (star_s + 1))))
      else Some (length pat \<le> skip_stars pat p))"

definition glob_match :: "bytes \<Rightarrow> bytes \<Rightarrow> bool option" where
  "glob_match pat str = glob_loop pat str 0 0 None 0"

subsection \<open>The meaning of a pattern\<close>

text \<open>A pattern is a sequence of stars and of one-byte tests; a class is a list of bytes and ranges,
  possibly negated, up to its bracket or the end of the pattern.\<close>

datatype glob_token = Star | One "byte \<Rightarrow> bool"

datatype class_item = Single byte | ByteRange byte byte

fun in_item :: "byte \<Rightarrow> class_item \<Rightarrow> bool" where
  "in_item c (Single b) = (c = b)"
| "in_item c (ByteRange a b) = (min a b \<le> c \<and> c \<le> max a b)"

fun parse_class :: "bytes \<Rightarrow> class_item list \<times> bytes" where
  "parse_class [] = ([], [])"
| "parse_class (b # r) =
     (if b = 93 then ([], r)
      else if b = 92 then
        (case r of
           [] \<Rightarrow> ([], [])
         | l # r' \<Rightarrow> (case parse_class r' of (is, rest) \<Rightarrow> (Single l # is, rest)))
      else (case r of
              d # e # r' \<Rightarrow>
                if d = 45 \<and> e \<noteq> 93 then (case parse_class r' of (is, rest) \<Rightarrow> (ByteRange b e # is, rest))
                else (case parse_class r of (is, rest) \<Rightarrow> (Single b # is, rest))
            | _ \<Rightarrow> (case parse_class r of (is, rest) \<Rightarrow> (Single b # is, rest))))"

definition parse_negated :: "bytes \<Rightarrow> (byte \<Rightarrow> bool) \<times> bytes" where
  "parse_negated r =
     (let neg = (case r of b # _ \<Rightarrow> b = 94 | [] \<Rightarrow> False) in
      case parse_class (if neg then tl r else r) of (is, rest) \<Rightarrow> (\<lambda>c. list_ex (in_item c) is \<noteq> neg, rest))"

lemma parse_class_Cons:
  assumes "b \<noteq> 93" "b \<noteq> 92" "\<not> (\<exists>e r'. r = 45 # e # r' \<and> e \<noteq> 93)"
  shows "parse_class (b # r) = (case parse_class r of (is, rest) \<Rightarrow> (Single b # is, rest))"
  unfolding parse_class.simps(2) [of b r] using assms by (auto simp del: parse_class.simps split: list.split)

lemma parse_class_length: "length (snd (parse_class r)) \<le> length r"
proof (induction r rule: measure_induct_rule [of length])
  case (less r)
  show ?case
  proof (cases r)
    case (Cons b q)
    have IH: "length (snd (parse_class x)) \<le> length x" if "length x \<le> length q" for x using less [of x] Cons that by simp
    consider "b = 93" | "b = 92" | e r' where "b \<noteq> 93" "b \<noteq> 92" "q = 45 # e # r'" "e \<noteq> 93"
      | "b \<noteq> 93" "b \<noteq> 92" "\<not> (\<exists>e r'. q = 45 # e # r' \<and> e \<noteq> 93)" by blast
    then show ?thesis
    proof cases
      case 2
      then show ?thesis using IH Cons by (cases q) (simp_all add: case_prod_beta le_SucI)
    next
      case 3
      then show ?thesis using IH [of r'] Cons by (simp add: case_prod_beta)
    next
      case 4
      then show ?thesis using IH [of q] Cons parse_class_Cons [of b q] by (simp add: case_prod_beta)
    qed (simp add: Cons)
  qed simp
qed

lemma parse_negated_length: "length (snd (parse_negated r)) \<le> length r"
proof -
  have "length (snd (parse_class (tl r))) \<le> length r" "length (snd (parse_class r)) \<le> length r"
    using parse_class_length [of "tl r"] parse_class_length [of r] by simp_all
  then show ?thesis by (auto simp: parse_negated_def Let_def case_prod_beta)
qed

function tokens :: "bytes \<Rightarrow> glob_token list" where
  "tokens [] = []"
| "tokens (b # r) =
     (if b = 42 then Star # tokens r
      else if b = 63 then One (\<lambda>_. True) # tokens r
      else if b = 91 then One (fst (parse_negated r)) # tokens (snd (parse_negated r))
      else if b = 92 then (case r of [] \<Rightarrow> [One (\<lambda>c. c = 92)] | l # r' \<Rightarrow> One (\<lambda>c. c = l) # tokens r')
      else One (\<lambda>c. c = b) # tokens r)"
  by pat_completeness auto
termination
  by (relation "measure length") (auto simp: le_imp_less_Suc parse_negated_length)

fun glob_means :: "glob_token list \<Rightarrow> bytes \<Rightarrow> bool" where
  "glob_means [] s = (s = [])"
| "glob_means (Star # ts) s = (glob_means ts s \<or> (case s of [] \<Rightarrow> False | _ # s' \<Rightarrow> glob_means (Star # ts) s'))"
| "glob_means (One f # ts) s = (case s of [] \<Rightarrow> False | c # s' \<Rightarrow> f c \<and> glob_means ts s')"

declare parse_class.simps [simp del] tokens.simps(2) [simp del]

subsection \<open>Classes\<close>

lemma nth_opt_drop: "nth_opt xs (p + i) = nth_opt (drop p xs) i"
  by (auto simp: nth_opt_def)

lemma nth_opt_head: "nth_opt xs p = (case drop p xs of [] \<Rightarrow> None | b # _ \<Rightarrow> Some b)"
  using nth_opt_drop [of xs p 0] by (simp split: list.split)

lemma drop_Cons_less: "drop p xs = b # r \<Longrightarrow> p < length xs \<and> drop (Suc p) xs = r"
  by (metis drop_Suc drop_eq_Nil2 linorder_not_less list.distinct(1) list.sel(3) tl_drop)

lemma parse_class_suffix: "suffix (snd (parse_class r)) r"
proof (induction r rule: measure_induct_rule [of length])
  case (less r)
  show ?case
  proof (cases r)
    case (Cons b q)
    have IH: "suffix (snd (parse_class x)) x" if "length x \<le> length q" for x using less [of x] Cons that by simp
    consider "b = 93" | "b = 92" | e r' where "b \<noteq> 93" "b \<noteq> 92" "q = 45 # e # r'" "e \<noteq> 93"
      | "b \<noteq> 93" "b \<noteq> 92" "\<not> (\<exists>e r'. q = 45 # e # r' \<and> e \<noteq> 93)" by blast
    then show ?thesis
    proof cases
      case 2
      then show ?thesis using IH [of "tl q"] Cons by (cases q) (simp_all add: parse_class.simps case_prod_beta suffix_ConsI)
    next
      case 3
      then show ?thesis using IH [of r'] Cons by (simp add: parse_class.simps case_prod_beta suffix_ConsI)
    next
      case 4
      then show ?thesis using IH [of q] Cons parse_class_Cons [of b q] by (simp add: case_prod_beta suffix_ConsI)
    qed (simp add: Cons parse_class.simps suffix_def)
  qed (simp add: parse_class.simps)
qed

lemma suffix_drop: "suffix r xs \<Longrightarrow> drop (length xs - length r) xs = r"
  by (auto simp: suffix_def)

lemma suffix_of_drop: "suffix r (drop p xs) \<Longrightarrow> suffix r xs"
  using suffix_drop suffix_order.trans by (metis append_take_drop_id suffixI)

lemma class_loop_correct:
  "p \<le> length pat \<Longrightarrow> class_loop pat p c m =
     (m \<or> list_ex (in_item c) (fst (parse_class (drop p pat))), length pat - length (snd (parse_class (drop p pat))))"
proof (induction "length pat - p" arbitrary: p m rule: less_induct)
  case less
  show ?case
  proof (cases "drop p pat")
    case Nil
    then show ?thesis using less.prems by (subst class_loop.simps) (simp add: nth_opt_head parse_class.simps)
  next
    case (Cons b r)
    then have p: "p < length pat" "drop (Suc p) pat = r" using drop_Cons_less [OF Cons] by simp_all
    have IH: "class_loop pat (p + k) c m' =
        (m' \<or> list_ex (in_item c) (fst (parse_class (drop (k - 1) r))), length pat - length (snd (parse_class (drop (k - 1) r))))"
      if "0 < k" "p + k \<le> length pat" for k m'
    proof -
      have "p + k = (k - 1) + Suc p" using that(1) by simp
      then have "drop (p + k) pat = drop (k - 1) r" by (simp only: p(2) [symmetric] drop_drop)
      then show ?thesis using less.hyps [of "p + k" m'] that p(1) by simp
    qed
    have h: "nth_opt pat p = Some b" by (simp add: nth_opt_head Cons)
    have len: "length r = length pat - Suc p" using p(2) by (metis length_drop)
    have n1: "nth_opt pat (p + 1) = (case r of [] \<Rightarrow> None | x # _ \<Rightarrow> Some x)" "nth_opt pat (p + 2) = (case tl r of [] \<Rightarrow> None | x # _ \<Rightarrow> Some x)"
      using p(2) by (simp_all add: nth_opt_head drop_Suc tl_drop flip: p(2))
    consider "b = 93" | "b = 92" | e r' where "b \<noteq> 93" "b \<noteq> 92" "r = 45 # e # r'" "e \<noteq> 93"
      | "b \<noteq> 93" "b \<noteq> 92" "\<not> (\<exists>e r'. r = 45 # e # r' \<and> e \<noteq> 93)" by blast
    then show ?thesis
    proof cases
      case 1
      then show ?thesis using h len p(1) Cons by (subst class_loop.simps) (simp add: parse_class.simps del: nth_opt_Some nth_opt_None)
    next
      case 2
      show ?thesis
      proof (cases r)
        case Nil
        then have "p + 1 \<le> length pat" "length pat \<le> p + 1" using len p(1) by simp_all
        then show ?thesis using 2 h n1 Cons Nil IH [of 1]
          by (subst class_loop.simps) (simp add: parse_class.simps del: nth_opt_Some nth_opt_None)
      next
        case r: (Cons l r')
        then have "p + 2 \<le> length pat" using len by simp
        then show ?thesis using 2 h n1 Cons r IH [of 2]
          by (subst class_loop.simps) (auto simp: parse_class.simps case_prod_beta simp del: nth_opt_Some nth_opt_None)
      qed
    next
      case (3 e r')
      then have "p + 3 \<le> length pat" using len by simp
      then show ?thesis using 3 h n1 Cons IH [of 3]
        by (subst class_loop.simps) (auto simp: parse_class.simps case_prod_beta Let_def min_def max_def simp del: nth_opt_Some nth_opt_None)
    next
      case 4
      then have "\<not> (nth_opt pat (p + 1) = Some 45 \<and> (case nth_opt pat (p + 2) of Some e \<Rightarrow> e \<noteq> 93 | None \<Rightarrow> False))"
        unfolding n1 by (cases r; cases "tl r") auto
      then show ?thesis using 4 h Cons IH [of 1] p(1) parse_class_Cons [OF 4]
        by (subst class_loop.simps) (auto simp: case_prod_beta simp del: nth_opt_Some nth_opt_None)
    qed
  qed
qed

lemma match_class_correct:
  assumes "drop p pat = 91 # r"
  shows "match_class pat p c = (fst (parse_negated r) c, length pat - length (snd (parse_negated r)))"
    and "drop (length pat - length (snd (parse_negated r))) pat = snd (parse_negated r)"
    and "length (snd (parse_negated r)) < length pat - p"
proof -
  have p: "p < length pat" "drop (Suc p) pat = r" using drop_Cons_less [OF assms] by simp_all
  have len: "length r = length pat - Suc p" using p(2) by (metis length_drop)
  have n: "nth_opt pat (Suc p) = (case r of [] \<Rightarrow> None | b # _ \<Rightarrow> Some b)" by (simp add: nth_opt_head p(2) del: nth_opt_Some nth_opt_None)
  show "match_class pat p c = (fst (parse_negated r) c, length pat - length (snd (parse_negated r)))"
  proof (cases "\<exists>q. r = 94 # q")
    case True
    then obtain q where r: "r = 94 # q" by blast
    then have "drop (Suc (Suc p)) pat = q" "Suc (Suc p) \<le> length pat" using p len by (metis drop_Cons_less, simp)
    then show ?thesis using n r class_loop_correct [of "Suc (Suc p)" pat c False]
      by (simp add: match_class_def parse_negated_def case_prod_beta del: nth_opt_Some nth_opt_None)
  next
    case False
    then have "nth_opt pat (Suc p) \<noteq> Some 94" "(case r of b # _ \<Rightarrow> b = 94 | [] \<Rightarrow> False) = False"
      by (auto simp: n split: list.split simp del: nth_opt_Some nth_opt_None)
    then show ?thesis using p class_loop_correct [of "Suc p" pat c False]
      by (simp add: match_class_def parse_negated_def case_prod_beta del: nth_opt_Some nth_opt_None)
  qed
  have "suffix (snd (parse_negated r)) r"
  proof (cases r)
    case (Cons b q)
    then show ?thesis using parse_class_suffix [of r] parse_class_suffix [of q]
      by (auto simp: parse_negated_def case_prod_beta Let_def suffix_ConsI)
  qed (simp add: parse_negated_def parse_class.simps)
  then have "suffix (snd (parse_negated r)) (drop (Suc p) pat)" using p(2) by simp
  from suffix_drop [OF suffix_of_drop [OF this]] show "drop (length pat - length (snd (parse_negated r))) pat = snd (parse_negated r)" .
  show "length (snd (parse_negated r)) < length pat - p" using parse_negated_length [of r] len p(1) by linarith
qed

subsection \<open>The matcher follows the tokens\<close>

lemma glob_advance_correct:
  assumes "s < length str" "drop p pat = b # r" "b \<noteq> 42"
  shows "\<exists>f p'. p < p' \<and> p' \<le> length pat \<and> tokens (drop p pat) = One f # tokens (drop p' pat)
    \<and> glob_advance pat str p s = (if f (str ! s) then Some (p', s + 1) else None)"
proof -
  have p: "p < length pat" "drop (Suc p) pat = r" using drop_Cons_less [OF assms(2)] by simp_all
  have h: "nth_opt pat p = Some b" by (simp add: nth_opt_head assms(2) del: nth_opt_Some nth_opt_None)
  have c: "nth_opt str s = Some (str ! s)" using assms(1) by (simp add: nth_opt_def)
  have n: "nth_opt pat (p + 1) = (case r of [] \<Rightarrow> None | b # _ \<Rightarrow> Some b)" by (simp add: nth_opt_head p(2) del: nth_opt_Some nth_opt_None)
  have len: "length r = length pat - Suc p" using p(2) by (metis length_drop)
  note defs = glob_advance_def tokens.simps(2) assms(2) h c
  consider "b = 63" | "b = 91" | "b = 92" "r = []" | l r' where "b = 92" "r = l # r'" | "b \<noteq> 63" "b \<noteq> 91" "b \<noteq> 92"
    by (cases r) auto
  then show ?thesis
  proof cases
    case 1
    then show ?thesis using p by (intro exI [of _ "\<lambda>_. True"] exI [of _ "Suc p"]) (simp add: defs del: nth_opt_Some nth_opt_None)
  next
    case 2
    note mc = match_class_correct(1) [OF assms(2) [unfolded 2], of "str ! s"] match_class_correct(2,3) [OF assms(2) [unfolded 2]]
    show ?thesis
      using 2 mc p assms(3)
      by (intro exI [of _ "fst (parse_negated r)"] exI [of _ "length pat - length (snd (parse_negated r))"])
        (auto simp: defs simp del: nth_opt_Some nth_opt_None)
  next
    case 3
    then show ?thesis using p n len
      by (intro exI [of _ "\<lambda>c. c = 92"] exI [of _ "Suc p"]) (simp add: defs del: nth_opt_Some nth_opt_None)
  next
    case (4 l r')
    then have "drop (p + 2) pat = r'" "p + 2 \<le> length pat" using p(2) len drop_Cons_less [of "Suc p" pat l r'] by simp_all
    then show ?thesis using 4 n
      by (intro exI [of _ "\<lambda>c. c = l"] exI [of _ "p + 2"]) (auto simp: defs simp del: nth_opt_Some nth_opt_None)
  next
    case 5
    then show ?thesis using p assms(3)
      by (intro exI [of _ "\<lambda>c. c = b"] exI [of _ "Suc p"]) (auto simp: defs simp del: nth_opt_Some nth_opt_None)
  qed
qed

lemma skip_stars_correct:
  "p \<le> length pat \<Longrightarrow> length pat \<le> skip_stars pat p \<longleftrightarrow> glob_means (tokens (drop p pat)) []"
proof (induction "length pat - p" arbitrary: p rule: less_induct)
  case less
  show ?case
  proof (cases "drop p pat")
    case Nil
    then show ?thesis using less.prems by (subst skip_stars.simps) (simp add: nth_opt_head)
  next
    case (Cons b r)
    then have p: "p < length pat" "drop (Suc p) pat = r" using drop_Cons_less [OF Cons] by simp_all
    have h: "nth_opt pat p = Some b" by (simp add: nth_opt_head Cons del: nth_opt_Some nth_opt_None)
    show ?thesis
    proof (cases "b = 42")
      case True
      then show ?thesis using less.hyps [of "Suc p"] p Cons h
        by (subst skip_stars.simps) (simp add: tokens.simps(2) del: nth_opt_Some nth_opt_None)
    next
      case False
      then show ?thesis using p Cons h
        by (subst skip_stars.simps) (simp add: tokens.simps(2) split: list.split del: nth_opt_Some nth_opt_None)
    qed
  qed
qed

lemma star_means: "glob_means (Star # ts) x \<longleftrightarrow> (\<exists>k \<le> length x. glob_means ts (drop k x))"
proof (induction x)
  case (Cons c x)
  have "(\<exists>k \<le> length (c # x). glob_means ts (drop k (c # x))) \<longleftrightarrow> glob_means ts (c # x) \<or> (\<exists>k \<le> length x. glob_means ts (drop k x))"
  proof
    assume "\<exists>k \<le> length (c # x). glob_means ts (drop k (c # x))"
    then obtain k where k: "k \<le> Suc (length x)" "glob_means ts (drop k (c # x))" by auto
    then show "glob_means ts (c # x) \<or> (\<exists>k \<le> length x. glob_means ts (drop k x))" by (cases k) auto
  next
    assume "glob_means ts (c # x) \<or> (\<exists>k \<le> length x. glob_means ts (drop k x))"
    then show "\<exists>k \<le> length (c # x). glob_means ts (drop k (c # x))"
    proof
      assume "glob_means ts (c # x)"
      then show ?thesis by (intro exI [of _ 0]) simp
    next
      assume "\<exists>k \<le> length x. glob_means ts (drop k x)"
      then obtain k where "k \<le> length x" "glob_means ts (drop k x)" by blast
      then show ?thesis by (intro exI [of _ "Suc k"]) simp
    qed
  qed
  then show ?case using Cons by simp
qed simp

lemma ones_means: "glob_means (map One fs @ ts) x \<Longrightarrow> length fs \<le> length x \<and> glob_means ts (drop (length fs) x)"
  by (induction fs arbitrary: x) (auto split: list.splits)


text \<open>What is left of the match at a pattern and a string position, and what a star remembered at
  \<open>sp\<close> can still try.\<close>

definition here :: "bytes \<Rightarrow> bytes \<Rightarrow> nat \<Rightarrow> nat \<Rightarrow> bool" where
  "here pat str p s \<longleftrightarrow> glob_means (tokens (drop p pat)) (drop s str)"

definition later :: "bytes \<Rightarrow> bytes \<Rightarrow> nat option \<Rightarrow> nat \<Rightarrow> bool" where
  "later pat str star_p star_s \<longleftrightarrow> (case star_p of None \<Rightarrow> False | Some sp \<Rightarrow> \<exists>k. star_s < k \<and> k \<le> length str \<and> here pat str (sp + 1) k)"

definition star_ok :: "bytes \<Rightarrow> nat \<Rightarrow> nat \<Rightarrow> nat option \<Rightarrow> nat \<Rightarrow> bool" where
  "star_ok pat p s star_p star_s \<longleftrightarrow> (case star_p of None \<Rightarrow> True | Some sp \<Rightarrow>
     sp < p \<and> star_s \<le> s \<and> (\<exists>fs. length fs = s - star_s \<and> tokens (drop (sp + 1) pat) = map One fs @ tokens (drop p pat)))"

lemma here_star:
  assumes "nth_opt pat p = Some 42" "s \<le> length str"
  shows "here pat str p s \<longleftrightarrow> (\<exists>k. s \<le> k \<and> k \<le> length str \<and> here pat str (p + 1) k)"
proof -
  have t: "tokens (drop p pat) = Star # tokens (drop (Suc p) pat)"
    using assms(1) by (auto simp: nth_opt_head tokens.simps(2) split: list.splits dest: drop_Cons_less simp del: nth_opt_Some)
  have "here pat str p s \<longleftrightarrow> (\<exists>k \<le> length str - s. here pat str (p + 1) (s + k))"
    by (simp only: here_def t star_means length_drop drop_drop) (simp add: add.commute)
  also have "\<dots> \<longleftrightarrow> (\<exists>k. s \<le> k \<and> k \<le> length str \<and> here pat str (p + 1) k)"
    by (metis (no_types, lifting) Nat.le_diff_conv2 add.commute assms(2) le_add1 le_add_diff_inverse)
  finally show ?thesis .
qed

lemma later_fits:
  assumes "star_ok pat p s star_p star_s" "later pat str star_p star_s" "s \<le> length str"
  shows "\<exists>j. s < j \<and> j \<le> length str \<and> here pat str p j"
proof -
  obtain sp k fs where sp: "star_p = Some sp" "star_s < k" "k \<le> length str" "here pat str (sp + 1) k" "star_s \<le> s"
    "length fs = s - star_s" "tokens (drop (sp + 1) pat) = map One fs @ tokens (drop p pat)"
    using assms by (auto simp: star_ok_def later_def split: option.splits)
  have "glob_means (map One fs @ tokens (drop p pat)) (drop k str)" using sp(4,7) by (simp add: here_def)
  from ones_means [OF this] sp show ?thesis
    by (intro exI [of _ "k + (s - star_s)"]) (auto simp: here_def add.commute)
qed

lemma le_split: "(\<exists>k \<ge> (s :: nat). Q k) \<longleftrightarrow> Q s \<or> (\<exists>k > s. Q k)"
  by (metis le_eq_less_or_eq)

lemma glob_loop_correct:
  "p \<le> length pat \<Longrightarrow> s \<le> length str \<Longrightarrow> star_ok pat p s star_p star_s \<Longrightarrow>
     glob_loop pat str p s star_p star_s = Some (here pat str p s \<or> later pat str star_p star_s)"
proof (induction "(p, s, star_p, star_s)" arbitrary: p s star_p star_s
    rule: wf_induct_rule [OF wf_measures [of "[\<lambda>(p, s, star_p, star_s). length pat - (case star_p of None \<Rightarrow> 0 | Some sp \<Rightarrow> Suc sp),
      \<lambda>(p, s, star_p, star_s). length str - star_s, \<lambda>(p, s, star_p, star_s). length str - s]"]])
  case less: (1 p s star_p star_s)
  note IH = less.hyps and pre = less.prems
  show ?case
  proof (cases "s < length str")
    case False
    then have s: "s = length str" using pre(2) by simp
    then have "\<not> later pat str star_p star_s" using later_fits [OF pre(3), of str] by auto
    then show ?thesis using s skip_stars_correct [OF pre(1)] by (subst glob_loop.simps) (simp add: here_def)
  next
    case s: True
    show ?thesis
    proof (cases "nth_opt pat p = Some 42")
      case star: True
      then have p: "p < length pat" by simp
      have ok: "star_ok pat (p + 1) s (Some p) s" by (simp add: star_ok_def)
      have smaller: "length pat - Suc p < length pat - (case star_p of None \<Rightarrow> 0 | Some sp \<Rightarrow> Suc sp)"
        using p pre(3) by (auto simp: star_ok_def split: option.splits)
      have "glob_loop pat str (p + 1) s (Some p) s = Some (here pat str (p + 1) s \<or> later pat str (Some p) s)"
        using IH [of "p + 1" s "Some p" s] smaller p pre(2) ok by simp
      moreover have "here pat str (p + 1) s \<or> later pat str (Some p) s \<longleftrightarrow> here pat str p s"
        using le_split [of s "\<lambda>k. k \<le> length str \<and> here pat str (p + 1) k"] pre(2)
        by (simp only: here_star [OF star pre(2)] later_def option.case) simp
      moreover have "here pat str p s" if l: "later pat str star_p star_s"
      proof -
        obtain j where j: "s < j" "j \<le> length str" "here pat str p j" using later_fits [OF pre(3) l pre(2)] by blast
        then obtain k where "j \<le> k" "k \<le> length str" "here pat str (p + 1) k" using here_star [OF star j(2)] by blast
        then show ?thesis using j(1) by (auto simp: here_star [OF star pre(2)] intro: exI [of _ k])
      qed
      ultimately show ?thesis using s star by (subst glob_loop.simps) auto
    next
      case nostar: False
      have fail: "glob_loop pat str p s star_p star_s = Some (here pat str p s \<or> later pat str star_p star_s)"
        if "glob_advance pat str p s = None" "\<not> here pat str p s"
      proof (cases star_p)
        case None
        then show ?thesis using s nostar that by (subst glob_loop.simps) (simp add: later_def del: nth_opt_Some)
      next
        case (Some sp)
        then have ss: "sp < p" "star_s \<le> s" using pre(3) by (simp_all add: star_ok_def)
        then have less_ss: "length str - Suc star_s < length str - star_s" using s by simp
        have "glob_loop pat str (sp + 1) (star_s + 1) star_p (star_s + 1) = Some (here pat str (sp + 1) (star_s + 1) \<or> later pat str star_p (star_s + 1))"
          using IH [of "sp + 1" "star_s + 1" star_p "star_s + 1"] Some ss s pre(1) less_ss by (simp add: star_ok_def)
        moreover have "here pat str (sp + 1) (star_s + 1) \<or> later pat str star_p (star_s + 1) \<longleftrightarrow> later pat str star_p star_s"
          using le_split [of "star_s + 1" "\<lambda>k. k \<le> length str \<and> here pat str (sp + 1) k"] Some ss s
          by (simp add: later_def Suc_le_eq)
        ultimately show ?thesis using s nostar that Some ss by (subst glob_loop.simps) (simp del: nth_opt_Some)
      qed
      show ?thesis
      proof (cases "drop p pat")
        case Nil
        then have "glob_advance pat str p s = None" "\<not> here pat str p s" using s by (simp_all add: glob_advance_def nth_opt_head here_def del: nth_opt_Some)
        then show ?thesis by (rule fail)
      next
        case (Cons b r)
        then have "b \<noteq> 42" using nostar by (simp add: nth_opt_head del: nth_opt_Some)
        from glob_advance_correct [OF s Cons this] obtain f p' where f: "p < p'" "p' \<le> length pat"
          "tokens (drop p pat) = One f # tokens (drop p' pat)" "glob_advance pat str p s = (if f (str ! s) then Some (p', s + 1) else None)" by blast
        have here: "here pat str p s \<longleftrightarrow> f (str ! s) \<and> here pat str p' (s + 1)"
          using s by (simp add: here_def f(3) Cons_nth_drop_Suc [symmetric])
        show ?thesis
        proof (cases "f (str ! s)")
          case False
          then show ?thesis using f(4) here fail by simp
        next
          case True
          have "star_ok pat p' (s + 1) star_p star_s"
          proof (cases star_p)
            case (Some sp)
            then obtain fs where fs: "sp < p" "star_s \<le> s" "length fs = s - star_s" "tokens (drop (sp + 1) pat) = map One fs @ tokens (drop p pat)"
              using pre(3) by (auto simp: star_ok_def)
            then show ?thesis using f(1,3) Some by (auto simp: star_ok_def intro!: exI [of _ "fs @ [f]"])
          qed (simp add: star_ok_def)
          then have "glob_loop pat str p' (s + 1) star_p star_s = Some (here pat str p' (s + 1) \<or> later pat str star_p star_s)"
            using IH [of p' "s + 1" star_p star_s] s f(2) by simp
          then show ?thesis using True f(4) here s nostar by (subst glob_loop.simps) (simp del: nth_opt_Some)
        qed
      qed
    qed
  qed
qed

text \<open>C19. The iterative glob matcher returns on every pattern and string, and its answer is the
  meaning of the pattern: a star stands for any run of bytes, a question mark, an escaped byte, a
  class and every other byte for one byte each.\<close>

theorem glob_match_correct: "glob_match pat str = Some (glob_means (tokens pat) str)"
  using glob_loop_correct [of 0 pat 0 str None 0] by (simp add: glob_match_def here_def later_def star_ok_def)

end
