(* ===== verification/Scan.thy ===== *)
theory Scan
  imports Generic_Cmd Glob
begin

text \<open>
  The commands of \<^verbatim>\<open>src/src/command/generic.rs\<close> that walk the keyspace: \<^verbatim>\<open>KEYS\<close>, \<^verbatim>\<open>RANDOMKEY\<close> and \<^verbatim>\<open>SCAN\<close>, and
  the registration of the generic commands. The order in which a hash table yields its entries, the
  hash of a key and the random draws come from third-party crates and are parameters; a cursor is a
  64-bit word.
\<close>

unbundle bit_operations_syntax

record externals =
  ex_iter :: "(key, entry) fmap \<Rightarrow> (key \<times> entry) list"
  ex_hash :: "key \<Rightarrow> 64 word"
  ex_below :: "nat \<Rightarrow> nat \<Rightarrow> nat"
  ex_codec :: "value_codec option"

subsection \<open>KEYS and RANDOMKEY\<close>

definition glob_hit :: "bytes \<Rightarrow> key \<Rightarrow> bool" where
  "glob_hit pattern k \<longleftrightarrow> glob_match pattern k = Some True"

definition keys_in_db :: "externals \<Rightarrow> nat \<Rightarrow> bytes \<Rightarrow> db \<Rightarrow> key list" where
  "keys_in_db X now pattern d =
     map fst (filter (\<lambda>(k, e). \<not> entry_is_expired e now \<and> (pattern = [42] \<or> glob_hit pattern k)) (ex_iter X (dict d)))"

definition write_keys :: "env \<Rightarrow> key list \<Rightarrow> reply_writer \<Rightarrow> reply_writer" where
  "write_keys E ks w = fold (\<lambda>k w. reply_bulk (env_itoa E) w k) ks (reply_array (env_itoa E) w (length ks))"

definition cmd_keys :: "externals \<Rightarrow> env \<Rightarrow> ctx \<Rightarrow> bytes list \<Rightarrow> handler_result" where
  "cmd_keys X E c args =
     (case args_at args 1 of
        Inl e \<Rightarrow> (Inl e, c)
      | Inr pattern \<Rightarrow>
          (case for_each_db (\<lambda>d found. (d, found @ keys_in_db X (now_ms c) pattern d)) c [] of
             (found, c) \<Rightarrow> (Inr (), with_out (write_keys E found) c)))"

definition RANDOMKEY_TRIES :: nat where "RANDOMKEY_TRIES = 16"

text \<open>One roll: the target index walks over the database slices; a pick that is expired is spent.\<close>

definition random_pick :: "externals \<Rightarrow> nat \<Rightarrow> db \<Rightarrow> nat \<times> key option \<Rightarrow> nat \<times> key option" where
  "random_pick X now d st =
     (case st of (target, picked) \<Rightarrow>
        if picked \<noteq> None then (target, picked)
        else if db_len d \<le> target then (target - db_len d, None)
        else (2 ^ 64 - 1,
              case nth_opt (ex_iter X (dict d)) target of
                Some (k, e) \<Rightarrow> if \<not> entry_is_expired e now then Some k else None
              | None \<Rightarrow> None))"

fun random_tries :: "externals \<Rightarrow> nat \<Rightarrow> nat \<Rightarrow> ctx \<Rightarrow> key option \<times> ctx" where
  "random_tries X 0 tot c = (None, c)"
| "random_tries X (Suc n) tot c =
     (case for_each_db (\<lambda>d st. (d, random_pick X (now_ms c) d st)) c (ex_below X n tot, None) of
        ((_, Some k), c) \<Rightarrow> (Some k, c)
      | ((_, None), c) \<Rightarrow> random_tries X n tot c)"

definition cmd_randomkey :: "externals \<Rightarrow> env \<Rightarrow> ctx \<Rightarrow> bytes list \<Rightarrow> handler_result" where
  "cmd_randomkey X E c args =
     (case for_each_db (\<lambda>d n. (d, n + db_len d)) c 0 of
        (tot, c) \<Rightarrow>
          if tot = 0 then (Inr (), with_out reply_null c)
          else (case random_tries X RANDOMKEY_TRIES tot c of
                  (Some k, c) \<Rightarrow> (Inr (), with_out (\<lambda>w. reply_bulk (env_itoa E) w k) c)
                | (None, c) \<Rightarrow> (Inr (), with_out reply_null c)))"

subsection \<open>SCAN\<close>

definition MAX_SCAN_BITS :: nat where "MAX_SCAN_BITS = 4"

definition SCAN_DEFAULT_COUNT :: nat where "SCAN_DEFAULT_COUNT = 10"

function scan_bits_loop :: "nat \<Rightarrow> nat \<Rightarrow> nat \<Rightarrow> nat" where
  "scan_bits_loop len count bits =
     (if bits < MAX_SCAN_BITS \<and> len div 2 ^ bits > count then scan_bits_loop len count (bits + 1) else bits)"
  by pat_completeness auto
termination
  by (relation "measure (\<lambda>(len, count, bits). MAX_SCAN_BITS - bits)") auto

declare scan_bits_loop.simps [simp del]

definition scan_bits :: "nat \<Rightarrow> nat \<Rightarrow> nat" where
  "scan_bits len count = scan_bits_loop len (max count 1) 0"

text \<open>\<^verbatim>\<open>u64::reverse_bits\<close>: bit \<open>i\<close> of the result is bit \<open>63 - i\<close>.\<close>

definition reverse_bits :: "64 word \<Rightarrow> 64 word" where
  "reverse_bits v = word_reverse v"

definition scan_advance :: "64 word \<Rightarrow> 64 word \<Rightarrow> 64 word" where
  "scan_advance cursor msk = reverse_bits (reverse_bits (cursor OR NOT msk) + 1)"

record scan_options =
  so_count :: nat
  so_pattern :: "bytes option"
  so_type :: "bytes option"

fun parse_scan_loop :: "bytes list \<Rightarrow> scan_options \<Rightarrow> cmd_error + scan_options" where
  "parse_scan_loop [] o' = Inr o'"
| "parse_scan_loop (tok # rest) o' =
     (if is_kw tok ''COUNT'' then
        (case rest of
           [] \<Rightarrow> Inl Syntax
         | a # rest' \<Rightarrow>
             (case string2ll a of
                None \<Rightarrow> Inl NotAnInteger
              | Some n \<Rightarrow> if n < 1 then Inl Syntax else parse_scan_loop rest' (o'\<lparr>so_count := nat n\<rparr>)))
      else if is_kw tok ''MATCH'' then
        (case rest of [] \<Rightarrow> Inl Syntax | a # rest' \<Rightarrow> parse_scan_loop rest' (o'\<lparr>so_pattern := Some a\<rparr>))
      else if is_kw tok ''TYPE'' then
        (case rest of [] \<Rightarrow> Inl Syntax | a # rest' \<Rightarrow> parse_scan_loop rest' (o'\<lparr>so_type := Some a\<rparr>))
      else Inl Syntax)"

definition parse_scan_options :: "bytes list \<Rightarrow> nat \<Rightarrow> cmd_error + scan_options" where
  "parse_scan_options args from =
     parse_scan_loop (drop from args) \<lparr>so_count = SCAN_DEFAULT_COUNT, so_pattern = None, so_type = None\<rparr>"

definition scan_wants :: "nat \<Rightarrow> scan_options \<Rightarrow> key \<Rightarrow> entry \<Rightarrow> bool" where
  "scan_wants now o' k e \<longleftrightarrow>
     \<not> entry_is_expired e now
     \<and> (case so_type o' of Some t \<Rightarrow> eq_ignore_ascii_case t (ascii (robj_type_name (obj e))) | None \<Rightarrow> True)
     \<and> (case so_pattern o' of Some p \<Rightarrow> p = [42] \<or> glob_hit p k | None \<Rightarrow> True)"

definition scan_db :: "externals \<Rightarrow> db \<Rightarrow> 64 word \<Rightarrow> nat \<Rightarrow> scan_options \<Rightarrow> key list \<times> nat \<times> 64 word" where
  "scan_db X d cursor now o' =
     (let msk = 2 ^ scan_bits (db_len d) (so_count o') - 1; bucket = cursor AND msk;
          entries = ex_iter X (dict d)
      in (map fst (filter (\<lambda>(k, e). ex_hash X k AND msk = bucket \<and> scan_wants now o' k e) entries),
          length entries, scan_advance cursor msk))"

text \<open>One round of the loop of \<open>cmd_scan\<close>: lock the shard of the cursor, visit one bucket, release.
  The result is the keys found, the entries examined, the next cursor and whether the loop ends
  there.\<close>

fun trailing_zeros :: "nat \<Rightarrow> nat" where
  "trailing_zeros n = (if n = 0 \<or> n mod 2 = 1 then 0 else Suc (trailing_zeros (n div 2)))"

declare trailing_zeros.simps [simp del]

definition scan_step :: "externals \<Rightarrow> shard_map \<Rightarrow> nat \<Rightarrow> nat \<Rightarrow> scan_options \<Rightarrow> 64 word \<Rightarrow> key list \<times> nat \<times> 64 word \<times> bool" where
  "scan_step X m db_idx now o' cursor =
     (let count = sm_len m; shard_bits = trailing_zeros count;
          i = unat (cursor AND (word_of_nat count - 1)); intra = drop_bit shard_bits cursor
      in case sm_get m i of
           None \<Rightarrow> ([], 0, 0, True)
         | Some h \<Rightarrow>
             (case (case shard_db (h_shard h) db_idx of
                      Some d \<Rightarrow> scan_db X d intra now o'
                    | None \<Rightarrow> ([], 0, 0)) of
                (ks, n, next_intra) \<Rightarrow>
                  if next_intra = 0 then
                    (if count \<le> i + 1 then (ks, n, 0, True) else (ks, n, word_of_nat (i + 1), False))
                  else (ks, n, push_bit shard_bits next_intra OR word_of_nat i, False)))"

partial_function (option) scan_loop :: "externals \<Rightarrow> shard_map \<Rightarrow> nat \<Rightarrow> nat \<Rightarrow> scan_options \<Rightarrow> 64 word \<Rightarrow> key list \<Rightarrow> nat
    \<Rightarrow> (key list \<times> 64 word) option" where
  "scan_loop X m db_idx now o' cursor ks examined =
     (let r = scan_step X m db_idx now o' cursor;
          ks' = ks @ fst r; examined' = examined + fst (snd r); cursor' = fst (snd (snd r))
      in if snd (snd (snd r)) then Some (ks', cursor')
         else if so_count o' \<le> examined' \<or> so_count o' \<le> length ks' then Some (ks', cursor')
         else scan_loop X m db_idx now o' cursor' ks' examined')"

text \<open>A call that does not return is \<open>None\<close>.\<close>

definition cmd_scan :: "externals \<Rightarrow> env \<Rightarrow> ctx \<Rightarrow> bytes list \<Rightarrow> handler_result option" where
  "cmd_scan X E c args =
     (case rbind (args_at args 1) (\<lambda>a. rbind (ok_or (string2ull a) (error_err (ascii ''invalid cursor''))) (\<lambda>cursor.
             rbind (parse_scan_options args 2) (\<lambda>o'.
               if g_guards (shards c) \<noteq> [] then Inl (error_err (ascii ''SCAN is not allowed while other keys are locked''))
               else Inr (cursor, o')))) of
        Inl e \<Rightarrow> Some (Inl e, c)
      | Inr (cursor, o') \<Rightarrow>
          map_option (\<lambda>(ks, cursor').
              (Inr (), with_out (\<lambda>w. write_keys E ks (reply_bulk (env_itoa E) (reply_array (env_itoa E) w 2) (env_itoa E (uint cursor')))) c))
            (scan_loop X (srv_map c) (client_db c) (now_ms c) o' (word_of_nat cursor) [] 0))"

definition scan_handler :: "externals \<Rightarrow> handler" where
  "scan_handler X E c args = (case cmd_scan X E c args of Some r \<Rightarrow> r | None \<Rightarrow> (Inl Syntax, c))"

subsection \<open>Registration\<close>

definition generic_spec :: "string \<Rightarrow> int \<Rightarrow> cmd_flags \<Rightarrow> int \<Rightarrow> int \<Rightarrow> int \<Rightarrow> handler \<Rightarrow> handler command_spec" where
  "generic_spec name ar fl first lst step h =
     \<lparr>cs_name = ascii name, arity = ar, flags = fl, first_key = first, last_key = lst, key_step = step, handler = h, get_keys = None\<rparr>"

definition generic_specs :: "externals \<Rightarrow> handler command_spec list" where
  "generic_specs X =
     [generic_spec ''del'' (- 2) (WRITE) 1 (- 1) 1 (cmd_del),
      generic_spec ''unlink'' (- 2) (WRITE OR FAST) 1 (- 1) 1 (cmd_del),
      generic_spec ''exists'' (- 2) (READONLY OR FAST) 1 (- 1) 1 (cmd_exists),
      generic_spec ''type'' (2) (READONLY OR FAST) 1 (1) 1 (cmd_type),
      generic_spec ''touch'' (- 2) (READONLY OR FAST) 1 (- 1) 1 (cmd_touch),
      generic_spec ''ttl'' (2) (READONLY OR FAST) 1 (1) 1 (\<lambda>E c a. ttl_generic E c a False),
      generic_spec ''pttl'' (2) (READONLY OR FAST) 1 (1) 1 (\<lambda>E c a. ttl_generic E c a True),
      generic_spec ''expiretime'' (2) (READONLY OR FAST) 1 (1) 1 (\<lambda>E c a. expiretime_generic E c a False),
      generic_spec ''pexpiretime'' (2) (READONLY OR FAST) 1 (1) 1 (\<lambda>E c a. expiretime_generic E c a True),
      generic_spec ''persist'' (2) (WRITE OR FAST) 1 (1) 1 (cmd_persist),
      generic_spec ''expire'' (- 3) (WRITE OR FAST) 1 (1) 1 (cmd_expire),
      generic_spec ''pexpire'' (- 3) (WRITE OR FAST) 1 (1) 1 (cmd_pexpire),
      generic_spec ''expireat'' (- 3) (WRITE OR FAST) 1 (1) 1 (cmd_expireat),
      generic_spec ''pexpireat'' (- 3) (WRITE OR FAST) 1 (1) 1 (cmd_pexpireat),
      generic_spec ''rename'' (3) (WRITE) 1 (2) 1 (cmd_rename),
      generic_spec ''renamenx'' (3) (WRITE OR FAST) 1 (2) 1 (cmd_renamenx),
      generic_spec ''copy'' (- 3) (WRITE OR DENYOOM) 1 (2) 1 (cmd_copy (ex_codec X)),
      generic_spec ''move'' (3) (WRITE OR FAST) 1 (1) 1 (cmd_move),
      generic_spec ''keys'' (2) (READONLY OR ALL_SHARDS) 0 (0) 0 (cmd_keys X),
      generic_spec ''randomkey'' (1) (READONLY OR ALL_SHARDS) 0 (0) 0 (cmd_randomkey X),
      generic_spec ''scan'' (- 2) (READONLY OR NO_MULTI) 0 (0) 0 (scan_handler X),
      generic_spec ''object'' (- 2) (READONLY) 2 (2) 1 (cmd_object),
      generic_spec ''dump'' (2) (READONLY) 1 (1) 1 (cmd_dump (ex_codec X)),
      generic_spec ''restore'' (- 4) (WRITE OR DENYOOM) 1 (1) 1 (cmd_restore (ex_codec X))]"

end
