(* ===== verification/Scan_Proofs.thy ===== *)
theory Scan_Proofs
  imports Scan Engine_Proofs "HOL-Library.List_Lexorder"
begin

text \<open>
  \<^verbatim>\<open>SCAN\<close>: the cursor counts in reversed bit order, so the buckets visited stay visited when the number
  of buckets changes between calls. Every call returns, and a key that is there during a whole
  iteration is reported.
\<close>

unbundle bit_operations_syntax

subsection \<open>The reversed cursor\<close>

text \<open>The position of a cursor is its value with the bits reversed: a bucket is an interval of
  positions, and advancing goes to the end of the interval.\<close>

definition rpos :: "64 word \<Rightarrow> nat" where
  "rpos v = unat (reverse_bits v)"

lemma rpos_less: "rpos v < 2 ^ 64"
  using unsigned_less [of "reverse_bits v", where ?'a = nat] by (simp add: rpos_def)

lemma rpos_0 [simp]: "rpos 0 = 0"
proof -
  have "reverse_bits 0 = 0" by (rule bit_word_eqI) (simp add: reverse_bits_def bit_simps)
  then show ?thesis by (simp add: rpos_def)
qed

lemma rpos_eq_0: "rpos v = 0 \<longleftrightarrow> v = 0"
proof
  assume "rpos v = 0"
  then have "reverse_bits v = 0" by (simp add: rpos_def unat_eq_0)
  then have "reverse_bits (reverse_bits v) = reverse_bits 0" by simp
  then show "v = 0" using rpos_0 by (simp add: reverse_bits_def rpos_def unat_eq_0)
qed simp

lemma reverse_mask:
  assumes "b \<le> 64"
  shows "reverse_bits (v OR NOT (2 ^ b - 1)) = reverse_bits v OR mask (64 - b)"
proof (rule bit_word_eqI)
  fix n assume "n < LENGTH(64)"
  then show "bit (reverse_bits (v OR NOT (2 ^ b - 1))) n = bit (reverse_bits v OR mask (64 - b)) n"
    using assms by (auto simp: reverse_bits_def bit_simps simp flip: mask_eq_exp_minus_1)
qed

lemma nat_or_mask: "(a :: nat) OR mask n = a div 2 ^ n * 2 ^ n + (2 ^ n - 1)"
proof -
  have "a OR mask n = push_bit n (drop_bit n a) OR mask n"
    by (rule bit_eqI) (auto simp: bit_simps)
  also have "\<dots> = push_bit n (drop_bit n a) + mask n"
    by (rule disjunctive_add [symmetric]) (auto simp: bit_simps)
  finally show ?thesis by (simp add: push_bit_eq_mult drop_bit_eq_div mask_eq_exp_minus_1)
qed

lemma unat_or_mask: "n \<le> 64 \<Longrightarrow> unat ((w :: 64 word) OR mask n) = unat w div 2 ^ n * 2 ^ n + (2 ^ n - 1)"
proof -
  assume n: "n \<le> 64"
  have "unat (mask n :: 64 word) = mask n" by (rule bit_eqI) (use n in \<open>auto simp: bit_simps\<close>)
  then show ?thesis by (simp add: unsigned_or_eq nat_or_mask)
qed

lemma rpos_advance:
  assumes "b \<le> 64"
  shows "rpos (scan_advance v (2 ^ b - 1)) = (rpos v div 2 ^ (64 - b) * 2 ^ (64 - b) + 2 ^ (64 - b)) mod 2 ^ 64"
proof -
  have "rpos (scan_advance v (2 ^ b - 1)) = unat ((reverse_bits v OR mask (64 - b)) + 1)"
    using reverse_mask [OF assms, of v] by (simp add: rpos_def scan_advance_def reverse_bits_def)
  also have "\<dots> = (unat (reverse_bits v OR mask (64 - b)) + 1) mod 2 ^ 64"
    by (simp add: unat_word_ariths)
  also have "\<dots> = (rpos v div 2 ^ (64 - b) * 2 ^ (64 - b) + 2 ^ (64 - b)) mod 2 ^ 64"
    by (simp add: unat_or_mask rpos_def)
  finally show ?thesis .
qed

lemma take_bit_unat: "take_bit 64 (unat (w :: 64 word)) = unat w"
  using unsigned_less [of w, where ?'a = nat] by (simp add: take_bit_nat_eq_self)

lemma same_bucket:
  assumes "b \<le> 64"
  shows "h AND (2 ^ b - 1) = v AND (2 ^ b - 1) \<longleftrightarrow> rpos h div 2 ^ (64 - b) = rpos v div 2 ^ (64 - b)"
proof -
  have "h AND (2 ^ b - 1) = v AND (2 ^ b - 1) \<longleftrightarrow> (\<forall>n < b. n < 64 \<longrightarrow> bit h n = bit v n)"
    by (auto simp: bit_eq_iff bit_simps simp flip: mask_eq_exp_minus_1)
  also have "\<dots> \<longleftrightarrow> (\<forall>n. 64 - b + n < 64 \<longrightarrow> bit h (64 - Suc (64 - b + n)) = bit v (64 - Suc (64 - b + n)))"
  proof safe
    fix n assume a: "\<forall>n < b. n < 64 \<longrightarrow> bit h n = bit v n" and n: "64 - b + n < 64"
    { assume "bit h (64 - Suc (64 - b + n))" then show "bit v (64 - Suc (64 - b + n))" using a n assms by auto }
    { assume "bit v (64 - Suc (64 - b + n))" then show "bit h (64 - Suc (64 - b + n))" using a n assms by auto }
  next
    fix n assume a: "\<forall>n. 64 - b + n < 64 \<longrightarrow> bit h (64 - Suc (64 - b + n)) = bit v (64 - Suc (64 - b + n))" and n: "n < b" "n < 64"
    have e: "64 - Suc (64 - b + (b - Suc n)) = n" "64 - b + (b - Suc n) < 64" using n assms by auto
    { assume "bit h n" then show "bit v n" using a [rule_format, OF e(2)] e(1) by simp }
    { assume "bit v n" then show "bit h n" using a [rule_format, OF e(2)] e(1) by simp }
  qed
  also have "\<dots> \<longleftrightarrow> drop_bit (64 - b) (reverse_bits h) = drop_bit (64 - b) (reverse_bits v)"
    by (auto simp: bit_eq_iff bit_simps reverse_bits_def) (meson le_add2 le_less_trans)+
  also have "\<dots> \<longleftrightarrow> rpos h div 2 ^ (64 - b) = rpos v div 2 ^ (64 - b)"
    by (simp only: rpos_def word_unat_eq_iff unsigned_drop_bit_eq) (simp add: drop_bit_eq_div take_bit_unat)
  finally show ?thesis .
qed
subsection \<open>The combined cursor\<close>

definition shard_of :: "nat \<Rightarrow> 64 word \<Rightarrow> nat" where
  "shard_of e cur = unat (cur AND (word_of_nat (2 ^ e) - 1))"

definition intra_of :: "nat \<Rightarrow> 64 word \<Rightarrow> 64 word" where
  "intra_of e cur = drop_bit e cur"

lemma shard_of_mask: "e < 64 \<Longrightarrow> shard_of e cur = unat (take_bit e cur)"
  by (simp add: shard_of_def take_bit_eq_mask mask_eq_exp_minus_1)

lemma shard_of_less: "e < 64 \<Longrightarrow> shard_of e cur < 2 ^ e"
  by (simp add: shard_of_mask unsigned_take_bit_eq take_bit_nat_def)

lemma trailing_zeros_pow: "trailing_zeros (2 ^ e) = e"
  by (induction e) (simp_all add: trailing_zeros.simps)

lemma small_intra:
  assumes "rpos v mod 2 ^ 60 = 0" shows "n \<ge> 4 \<Longrightarrow> \<not> bit v n"
proof
  assume n: "n \<ge> 4" and b: "bit v n"
  then have n64: "n < 64" using bit_imp_le_length [OF b] by simp
  have "bit (reverse_bits v) (63 - n)" using b n64 by (simp add: reverse_bits_def bit_simps)
  then have "bit (rpos v) (63 - n)" by (simp add: rpos_def bit_simps)
  moreover have "take_bit 60 (rpos v) = 0" using assms by (simp add: take_bit_eq_mod)
  ultimately show False using n n64 bit_take_bit_iff [of 60 "rpos v" "63 - n"] by simp
qed

lemma encode_cursor:
  assumes "e \<le> 15" "i < 2 ^ e" "\<And>n. n \<ge> 4 \<Longrightarrow> \<not> bit v n"
  shows "shard_of e (push_bit e v OR word_of_nat i) = i" "intra_of e (push_bit e v OR word_of_nat i) = v"
    "push_bit e v OR word_of_nat i = 0 \<longleftrightarrow> v = 0 \<and> i = 0"
proof -
  have ib: "\<not> bit i n" if "n \<ge> e" for n
    using assms(2) that by (metis bit_take_bit_iff leD take_bit_nat_eq_self_iff)
  have iw: "bit (word_of_nat i :: 64 word) n \<longleftrightarrow> bit i n" for n
    using ib [of n] assms(1) by (cases "n < 64") (auto simp: bit_simps bit_imp_le_length)
  have "take_bit e (push_bit e v OR word_of_nat i) = (word_of_nat i :: 64 word)"
    by (rule bit_word_eqI) (use ib in \<open>auto simp: bit_simps iw\<close>)
  moreover have "unat (word_of_nat i :: 64 word) = i"
  proof -
    have "i < 2 ^ 15" using assms(1,2) by (meson less_le_trans one_le_numeral power_increasing)
    then show ?thesis by (simp add: unat_of_nat)
  qed
  ultimately show s: "shard_of e (push_bit e v OR word_of_nat i) = i" using assms(1) by (simp add: shard_of_mask)
  show v: "intra_of e (push_bit e v OR word_of_nat i) = v"
  proof (rule bit_word_eqI)
    fix n assume "n < LENGTH(64)"
    then show "bit (intra_of e (push_bit e v OR word_of_nat i)) n = bit v n"
      using ib [of "e + n"] assms(1,3) by (cases "n < 4") (auto simp: intra_of_def bit_simps iw)
  qed
  show "push_bit e v OR word_of_nat i = 0 \<longleftrightarrow> v = 0 \<and> i = 0"
  proof
    assume z: "push_bit e v OR word_of_nat i = 0"
    from s v show "v = 0 \<and> i = 0" unfolding z by (simp add: intra_of_def shard_of_def)
  qed simp
qed

lemma scan_bits_le: "scan_bits len count \<le> 4"
proof -
  have "b \<le> 4 \<Longrightarrow> scan_bits_loop len c b \<le> 4" for c b
    by (induction len c b rule: scan_bits_loop.induct) (subst scan_bits_loop.simps, simp add: MAX_SCAN_BITS_def)
  then show ?thesis by (simp add: scan_bits_def)
qed


subsection \<open>One bucket\<close>

text \<open>A cursor stands at a position of the whole keyspace: its shard first, then the position inside
  the shard. A key stands at the position of its hash in its shard.\<close>

definition scan_pos :: "nat \<Rightarrow> 64 word \<Rightarrow> nat" where
  "scan_pos e cur = shard_of e cur * 2 ^ 64 + rpos (intra_of e cur)"

definition key_pos :: "externals \<Rightarrow> env \<Rightarrow> shard_map \<Rightarrow> key \<Rightarrow> nat" where
  "key_pos X E m k = shard_index (env_mc E) m k * 2 ^ 64 + rpos (ex_hash X k)"

definition iter_ok :: "externals \<Rightarrow> bool" where
  "iter_ok X \<longleftrightarrow> (\<forall>d. set (ex_iter X d) = {(k, v). fmlookup d k = Some v})"

text \<open>A key that a scan with these options has to report: stored in its shard and wanted.\<close>

definition scan_has :: "env \<Rightarrow> nat \<Rightarrow> shard_map \<times> nat \<times> scan_options \<Rightarrow> key \<Rightarrow> bool" where
  "scan_has E n ob k = (case ob of (m, now, o') \<Rightarrow>
     (case Option.bind (shard_for (env_mc E) m k) (\<lambda>h. shard_db (h_shard h) n) of
        Some d \<Rightarrow> (case fmlookup (dict d) k of Some v \<Rightarrow> scan_wants now o' k v | None \<Rightarrow> False)
      | None \<Rightarrow> False))"

definition scan_map_ok :: "nat \<Rightarrow> shard_map \<Rightarrow> bool" where
  "scan_map_ok e m \<longleftrightarrow> sm_wf m \<and> e \<le> 15 \<and> sm_len m = 2 ^ e"

lemma word_of_pow: "e < 64 \<Longrightarrow> (word_of_nat (2 ^ e) :: 64 word) = 2 ^ e"
  by simp

lemma advance_pos:
  fixes v h :: "64 word"
  assumes "b \<le> 4"
  defines "D \<equiv> (2 :: nat) ^ (64 - b)" and "v' \<equiv> scan_advance v (2 ^ b - 1)"
  shows "v' = 0 \<Longrightarrow> rpos h \<ge> rpos v \<Longrightarrow> h AND (2 ^ b - 1) = v AND (2 ^ b - 1)"
    and "v' \<noteq> 0 \<Longrightarrow> rpos v' = (rpos v div D + 1) * D"
    and "v' \<noteq> 0 \<Longrightarrow> rpos v div 2 ^ 60 < rpos v' div 2 ^ 60"
    and "v' \<noteq> 0 \<Longrightarrow> rpos v \<le> rpos h \<Longrightarrow> rpos h < rpos v' \<Longrightarrow> h AND (2 ^ b - 1) = v AND (2 ^ b - 1)"
    and "n \<ge> 4 \<Longrightarrow> \<not> bit v' n"
proof -
  have b: "b \<le> 64" using assms(1) by simp
  have D: "D * 2 ^ b = 2 ^ 64" "0 < D" using assms(1) by (simp_all add: D_def flip: power_add)
  have q: "rpos x div D < 2 ^ b" for x using rpos_less [of x] D by (simp add: less_mult_imp_div_less mult.commute)
  have le: "(rpos v div D + 1) * D \<le> 2 ^ 64" using q [of v] D by (metis Suc_eq_plus1 Suc_leI mult.commute mult_le_mono2)
  have r: "rpos v' = ((rpos v div D + 1) * D) mod 2 ^ 64" using rpos_advance [OF b, of v] by (simp add: D_def v'_def algebra_simps)
  have sb: "h AND (2 ^ b - 1) = v AND (2 ^ b - 1) \<longleftrightarrow> rpos h div D = rpos v div D" for h v unfolding D_def by (rule same_bucket [OF b])
  show pos: "v' \<noteq> 0 \<Longrightarrow> rpos v' = (rpos v div D + 1) * D"
    using r le rpos_eq_0 [of v'] by (cases "(rpos v div D + 1) * D = 2 ^ 64") auto
  show "v' = 0 \<Longrightarrow> rpos h \<ge> rpos v \<Longrightarrow> h AND (2 ^ b - 1) = v AND (2 ^ b - 1)"
  proof -
    assume "v' = 0" "rpos h \<ge> rpos v"
    then have "((rpos v div D + 1) * D) mod 2 ^ 64 = 0" using r by simp
    then have "(rpos v div D + 1) * D = 2 ^ 64" using le D(2) by (metis add_gr_0 le_neq_implies_less less_one mod_less mult_pos_pos neq0_conv)
    then have "rpos v div D + 1 = 2 ^ b" using D by (metis mult.commute mult_cancel1 neq0_conv)
    moreover have "rpos v div D \<le> rpos h div D" using \<open>rpos h \<ge> rpos v\<close> by (rule div_le_mono)
    ultimately show ?thesis using q [of h] by (simp add: sb)
  qed
  show "rpos v div 2 ^ 60 < rpos v' div 2 ^ 60" if "v' \<noteq> 0"
  proof -
    have "64 - b = (4 - b) + 60" using assms(1) by simp
    then have D60: "D = 2 ^ (4 - b) * 2 ^ 60" by (simp only: D_def power_add)
    have "rpos v div 2 ^ 60 < (rpos v div D + 1) * 2 ^ (4 - b)"
    proof -
      have "rpos v div 2 ^ 60 div 2 ^ (4 - b) = rpos v div D" unfolding D60 by (metis div_mult2_eq mult.commute)
      then show ?thesis using div_less_iff_less_mult [of "2 ^ (4 - b)" "rpos v div 2 ^ 60" "rpos v div D + 1"] by simp
    qed
    also have "\<dots> = rpos v' div 2 ^ 60" using pos [OF that] by (simp add: D60 mult.assoc)
    finally show ?thesis .
  qed
  show "h AND (2 ^ b - 1) = v AND (2 ^ b - 1)" if "v' \<noteq> 0" "rpos v \<le> rpos h" "rpos h < rpos v'"
  proof -
    have "rpos v div D \<le> rpos h div D" using that(2) by (rule div_le_mono)
    moreover have "rpos h div D < rpos v div D + 1" using that(3) pos [OF that(1)] D(2) by (simp add: less_mult_imp_div_less)
    ultimately show ?thesis by (simp add: sb)
  qed
  show "n \<ge> 4 \<Longrightarrow> \<not> bit v' n"
  proof (rule small_intra)
    have "(2 :: nat) ^ 60 dvd D" unfolding D_def using assms(1) by (intro le_imp_power_dvd) simp
    then have "2 ^ 60 dvd (rpos v div D + 1) * D" by (rule dvd_mult)
    moreover have "(2 :: nat) ^ 60 dvd 2 ^ 64" by (intro le_imp_power_dvd) simp
    ultimately show "rpos v' mod 2 ^ 60 = 0" unfolding r by (metis dvd_mod mod_eq_0_iff_dvd)
  qed
qed


lemma scan_step_bucket:
  assumes "scan_map_ok e m" and "scan_step X m n now o' cur = (ks, cnt, cur', fin)"
  obtains v' where "(cur', fin) = (if v' = 0 then (if 2 ^ e \<le> shard_of e cur + 1 then (0, True) else (word_of_nat (shard_of e cur + 1), False))
                      else (push_bit e v' OR word_of_nat (shard_of e cur), False))"
    and "v' \<noteq> 0 \<Longrightarrow> rpos (intra_of e cur) div 2 ^ 60 < rpos v' div 2 ^ 60" and "\<And>j. j \<ge> 4 \<Longrightarrow> \<not> bit v' j"
    and "\<And>E k. iter_ok X \<Longrightarrow> scan_has E n (m, now, o') k \<Longrightarrow> shard_index (env_mc E) m k = shard_of e cur \<Longrightarrow>
           rpos (intra_of e cur) \<le> rpos (ex_hash X k) \<Longrightarrow> v' = 0 \<or> rpos (ex_hash X k) < rpos v' \<Longrightarrow> k \<in> set ks"
proof -
  have e: "sm_len m = 2 ^ e" "e < 64" using assms(1) by (simp_all add: scan_map_ok_def)
  let ?i = "shard_of e cur" and ?v = "intra_of e cur"
  have i: "unat (cur AND (word_of_nat (sm_len m) - 1)) = ?i" by (simp add: shard_of_def e(1))
  have v: "drop_bit e cur = ?v" by (simp add: intra_of_def)
  have tz: "trailing_zeros (sm_len m) = e" by (simp add: e(1) trailing_zeros_pow)
  have "?i < sm_len m" using shard_of_less [OF e(2)] e(1) by simp
  then obtain h where h: "sm_get m ?i = Some h" by (auto simp: sm_get_def sm_len_def nth_opt_def)
  define r where "r = (case shard_db (h_shard h) n of Some d \<Rightarrow> scan_db X d ?v now o' | None \<Rightarrow> ([], 0, 0))"
  obtain v' where r: "r = (ks, cnt, v')" and next_cur: "(cur', fin) = (if v' = 0 then (if 2 ^ e \<le> ?i + 1 then (0, True) else (word_of_nat (?i + 1), False))
                      else (push_bit e v' OR word_of_nat ?i, False))"
    using assms(2) unfolding scan_step_def Let_def i tz h option.case v r_def [symmetric] unfolding e(1) by (cases r) (auto split: if_splits)
  show thesis
  proof (cases "shard_db (h_shard h) n")
    case None
    then have v': "v' = 0" using r by (simp add: r_def)
    have "\<not> scan_has E n (m, now, o') k" if "shard_index (env_mc E) m k = ?i" for E k
      using that None h by (simp add: scan_has_def shard_for_def)
    then show ?thesis using next_cur v' by (intro that [of v']) auto
  next
    case (Some d)
    define b where "b = scan_bits (db_len d) (so_count o')"
    have b: "b \<le> 4" by (simp add: b_def scan_bits_le)
    have v': "v' = scan_advance ?v (2 ^ b - 1)"
      and ks: "ks = map fst (filter (\<lambda>(k, e). ex_hash X k AND (2 ^ b - 1) = ?v AND (2 ^ b - 1) \<and> scan_wants now o' k e) (ex_iter X (dict d)))"
      using r Some by (simp_all add: r_def scan_db_def b_def Let_def)
    show ?thesis
    proof (rule that [of v'])
      show "k \<in> set ks" if "iter_ok X" "scan_has E n (m, now, o') k" "shard_index (env_mc E) m k = ?i"
        "rpos ?v \<le> rpos (ex_hash X k)" "v' = 0 \<or> rpos (ex_hash X k) < rpos v'" for E k
      proof -
        from that(2,3) h Some obtain en where en: "fmlookup (dict d) k = Some en" "scan_wants now o' k en"
          by (auto simp: scan_has_def shard_for_def split: option.splits)
        have "ex_hash X k AND (2 ^ b - 1) = ?v AND (2 ^ b - 1)"
          using advance_pos(1,4) [OF b, of ?v "ex_hash X k"] that(4,5) unfolding v' by blast
        moreover have "(k, en) \<in> set (ex_iter X (dict d))" using that(1) en(1) by (simp add: iter_ok_def)
        ultimately show ?thesis using en(2) unfolding ks by (auto intro!: image_eqI [of _ _ "(k, en)"])
      qed
    qed (use next_cur advance_pos(3,5) [OF b, where v = ?v, folded v'] in auto)
  qed
qed

lemma pos_less_iff:
  fixes r :: nat
  assumes "r < 2 ^ 64" "r' < 2 ^ 64"
  shows "i * 2 ^ 64 + r < j * 2 ^ 64 + r' \<longleftrightarrow> i < j \<or> (i = j \<and> r < r')"
proof (cases i j rule: linorder_cases)
  case less
  then have "Suc i * 2 ^ 64 \<le> j * 2 ^ 64" by (intro mult_le_mono) auto
  then show ?thesis using assms less by (simp add: algebra_simps)
next
  case greater
  then have "Suc j * 2 ^ 64 \<le> i * 2 ^ 64" by (intro mult_le_mono) auto
  then show ?thesis using assms greater by (simp add: algebra_simps)
qed auto

lemma pos_div: "scan_pos e cur div 2 ^ 60 = shard_of e cur * 16 + rpos (intra_of e cur) div 2 ^ 60"
proof -
  have "scan_pos e cur = rpos (intra_of e cur) + (shard_of e cur * 16) * 2 ^ 60" by (simp add: scan_pos_def)
  then show ?thesis by (simp only: div_mult_self1 [of "2 ^ 60"]) simp
qed

lemma scan_step_next:
  assumes "scan_map_ok e m" and "scan_step X m n now o' cur = (ks, cnt, cur', fin)"
  shows "fin \<longleftrightarrow> cur' = 0" and "\<not> fin \<Longrightarrow> scan_pos e cur div 2 ^ 60 < scan_pos e cur' div 2 ^ 60"
    and "\<not> fin \<Longrightarrow> scan_pos e cur' < 2 ^ e * 2 ^ 64"
    and "iter_ok X \<Longrightarrow> scan_has E n (m, now, o') k \<Longrightarrow> scan_pos e cur \<le> key_pos X E m k \<Longrightarrow> fin \<or> key_pos X E m k < scan_pos e cur' \<Longrightarrow> k \<in> set ks"
proof -
  let ?i = "shard_of e cur" and ?v = "intra_of e cur"
  have e: "e \<le> 15" "sm_len m = 2 ^ e" using assms(1) by (simp_all add: scan_map_ok_def)
  have i: "?i < 2 ^ e" using shard_of_less [of e cur] e(1) by simp
  obtain v' where v': "(cur', fin) = (if v' = 0 then (if 2 ^ e \<le> ?i + 1 then (0, True) else (word_of_nat (?i + 1), False))
                      else (push_bit e v' OR word_of_nat ?i, False))"
    "v' \<noteq> 0 \<Longrightarrow> rpos ?v div 2 ^ 60 < rpos v' div 2 ^ 60" "\<And>j. j \<ge> 4 \<Longrightarrow> \<not> bit v' j"
    "\<And>E k. iter_ok X \<Longrightarrow> scan_has E n (m, now, o') k \<Longrightarrow> shard_index (env_mc E) m k = ?i \<Longrightarrow>
           rpos ?v \<le> rpos (ex_hash X k) \<Longrightarrow> v' = 0 \<or> rpos (ex_hash X k) < rpos v' \<Longrightarrow> k \<in> set ks"
    using scan_step_bucket [OF assms] by blast
  have same: "shard_of e cur' = ?i" "intra_of e cur' = v'" "cur' \<noteq> 0" "\<not> fin" if "v' \<noteq> 0"
    using that v'(1) encode_cursor [OF e(1) i v'(3)] by auto
  have step: "shard_of e cur' = ?i + 1" "intra_of e cur' = 0" "cur' \<noteq> 0" "?i + 1 < 2 ^ e" if "v' = 0" "\<not> fin"
  proof -
    have c: "cur' = push_bit e 0 OR word_of_nat (?i + 1)" and l: "?i + 1 < 2 ^ e" using that v'(1) by (auto split: if_splits)
    show "shard_of e cur' = ?i + 1" "intra_of e cur' = 0" "cur' \<noteq> 0" unfolding c
      using encode_cursor [OF e(1) l, of 0] by simp_all
    show "?i + 1 < 2 ^ e" by (rule l)
  qed
  show "fin \<longleftrightarrow> cur' = 0" using v'(1) same(3,4) step(3) by (cases "v' = 0") (auto split: if_splits)
  have sp: "shard_of e cur' < 2 ^ e" using shard_of_less [of e cur'] e(1) by simp
  show "scan_pos e cur' < 2 ^ e * 2 ^ 64" if "\<not> fin"
    using pos_less_iff [of "rpos (intra_of e cur')" 0 "shard_of e cur'" "2 ^ e", OF rpos_less] sp by (simp add: scan_pos_def)
  show "scan_pos e cur div 2 ^ 60 < scan_pos e cur' div 2 ^ 60" if "\<not> fin"
  proof (cases "v' = 0")
    case True
    have "rpos ?v div 2 ^ 60 < 16" using rpos_less [of ?v] by (simp add: less_mult_imp_div_less)
    then show ?thesis using step(1,2) [OF True that] unfolding pos_div by simp
  next
    case False
    then show ?thesis using same(1,2) v'(2) unfolding pos_div by simp
  qed
  show "k \<in> set ks" if k: "iter_ok X" "scan_has E n (m, now, o') k" "scan_pos e cur \<le> key_pos X E m k" "fin \<or> key_pos X E m k < scan_pos e cur'"
  proof -
    let ?j = "shard_index (env_mc E) m k" and ?h = "rpos (ex_hash X k)"
    have j: "?j < 2 ^ e" using shard_index_less [of m "env_mc E" k] assms(1) by (simp add: scan_map_ok_def)
    have ge: "?i < ?j \<or> (?i = ?j \<and> rpos ?v \<le> ?h)"
      using k(3) pos_less_iff [of ?h "rpos ?v" ?j ?i] rpos_less by (auto simp: scan_pos_def key_pos_def not_less le_less)
    have lt: "?j < shard_of e cur' \<or> (?j = shard_of e cur' \<and> ?h < rpos (intra_of e cur'))" if "\<not> fin"
      using k(4) that pos_less_iff [of ?h "rpos (intra_of e cur')" ?j "shard_of e cur'"] rpos_less by (auto simp: scan_pos_def key_pos_def)
    have "?j = ?i \<and> (v' = 0 \<or> ?h < rpos v')"
    proof (cases fin)
      case True
      then have "v' = 0" "2 ^ e \<le> ?i + 1" using v'(1) by (auto split: if_splits)
      then show ?thesis using ge j by auto
    next
      case False
      then show ?thesis using lt [OF False] ge same(1,2) step(1,2) by (cases "v' = 0") auto
    qed
    then show ?thesis using v'(4) [OF k(1,2)] ge by auto
  qed
qed

subsection \<open>A call and an iteration\<close>

lemma scan_loop_step:
  assumes "scan_step X m n now o' cur = (ks1, cnt, cur1, fin)"
  shows "scan_loop X m n now o' cur ks ex =
    (if fin \<or> so_count o' \<le> ex + cnt \<or> so_count o' \<le> length (ks @ ks1) then Some (ks @ ks1, cur1)
     else scan_loop X m n now o' cur1 (ks @ ks1) (ex + cnt))"
  by (subst scan_loop.simps) (simp add: assms Let_def)

definition scan_left :: "nat \<Rightarrow> 64 word \<Rightarrow> nat" where
  "scan_left e cur = 16 * 2 ^ e - scan_pos e cur div 2 ^ 60"

lemma scan_left_step:
  assumes "scan_map_ok e m" and "scan_step X m n now o' cur = (ks, cnt, cur', fin)" and "\<not> fin"
  shows "scan_left e cur' < scan_left e cur" and "scan_pos e cur < scan_pos e cur'"
proof -
  have "scan_pos e cur' < 16 * 2 ^ e * 2 ^ 60" using scan_step_next(3) [OF assms] by (simp add: mult.commute)
  then have "scan_pos e cur' div 2 ^ 60 < 16 * 2 ^ e" by (rule less_mult_imp_div_less)
  then show "scan_left e cur' < scan_left e cur" using scan_step_next(2) [OF assms] by (simp add: scan_left_def)
  show "scan_pos e cur < scan_pos e cur'" using scan_step_next(2) [OF assms] by (meson div_le_mono leD not_le)
qed

lemma scan_loop_covers:
  assumes "scan_map_ok e m"
  shows "\<exists>ks' cur'. scan_loop X m n now o' cur ks ex = Some (ks @ ks', cur')
    \<and> (cur' \<noteq> 0 \<longrightarrow> scan_left e cur' < scan_left e cur \<and> scan_pos e cur < scan_pos e cur')
    \<and> (\<forall>k. iter_ok X \<longrightarrow> scan_has E n (m, now, o') k \<longrightarrow> scan_pos e cur \<le> key_pos X E m k \<longrightarrow> cur' = 0 \<or> key_pos X E m k < scan_pos e cur' \<longrightarrow> k \<in> set ks')"
proof (induction "scan_left e cur" arbitrary: cur ks ex rule: less_induct)
  case less
  obtain ks1 cnt cur1 fin where st: "scan_step X m n now o' cur = (ks1, cnt, cur1, fin)" using prod_cases4 by blast
  note nx = scan_step_next [OF assms st]
  show ?case
  proof (cases "fin \<or> so_count o' \<le> ex + cnt \<or> so_count o' \<le> length (ks @ ks1)")
    case True
    then show ?thesis using scan_loop_step [OF st] scan_left_step [OF assms st] nx(1,4)
      by (intro exI [of _ ks1] exI [of _ cur1]) auto
  next
    case False
    then have nf: "\<not> fin" by simp
    note left = scan_left_step [OF assms st nf]
    obtain ks2 cur2 where r: "scan_loop X m n now o' cur1 (ks @ ks1) (ex + cnt) = Some ((ks @ ks1) @ ks2, cur2)"
      "cur2 \<noteq> 0 \<longrightarrow> scan_left e cur2 < scan_left e cur1 \<and> scan_pos e cur1 < scan_pos e cur2"
      "\<forall>k. iter_ok X \<longrightarrow> scan_has E n (m, now, o') k \<longrightarrow> scan_pos e cur1 \<le> key_pos X E m k \<longrightarrow> cur2 = 0 \<or> key_pos X E m k < scan_pos e cur2 \<longrightarrow> k \<in> set ks2"
      using less.hyps [OF left(1)] by blast
    have "k \<in> set (ks1 @ ks2)" if "iter_ok X" "scan_has E n (m, now, o') k" "scan_pos e cur \<le> key_pos X E m k" "cur2 = 0 \<or> key_pos X E m k < scan_pos e cur2" for k
      using nx(4) [OF that(1-3)] r(3) that by (cases "key_pos X E m k < scan_pos e cur1") auto
    then show ?thesis using False r(1,2) left scan_loop_step [OF st, of ks ex]
      by (intro exI [of _ "ks1 @ ks2"] exI [of _ cur2]) auto
  qed
qed


text \<open>The calls of one iteration: each call sees the keyspace and the options of its own time, and the
  cursor it returns goes into the next. Cursor 0 ends the iteration.\<close>

fun scan_calls :: "externals \<Rightarrow> nat \<Rightarrow> (shard_map \<times> nat \<times> scan_options) list \<Rightarrow> 64 word \<Rightarrow> (key list \<times> 64 word) option" where
  "scan_calls X n [] cur = Some ([], cur)"
| "scan_calls X n ((m, now, o') # obs) cur =
     (case scan_loop X m n now o' cur [] 0 of
        None \<Rightarrow> None
      | Some (ks, cur') \<Rightarrow>
          if cur' = 0 then Some (ks, 0)
          else map_option (\<lambda>(ks', c). (ks @ ks', c)) (scan_calls X n obs cur'))"

lemma scan_left_pos: "e < 64 \<Longrightarrow> 0 < scan_left e cur"
proof -
  assume "e < 64"
  then have "scan_pos e cur < 16 * 2 ^ e * 2 ^ 60"
    using pos_less_iff [of "rpos (intra_of e cur)" 0 "shard_of e cur" "2 ^ e", OF rpos_less] shard_of_less [of e cur]
    by (simp add: scan_pos_def mult.commute)
  then show ?thesis using less_mult_imp_div_less by (simp add: scan_left_def)
qed

lemma key_pos_same: "scan_map_ok e m \<Longrightarrow> scan_map_ok e m' \<Longrightarrow> key_pos X E m k = key_pos X E m' k"
  by (simp add: key_pos_def shard_index_mod scan_map_ok_def)

lemma scan_calls_covers:
  assumes "\<forall>(m, _) \<in> set obs. scan_map_ok e m" "iter_ok X" "scan_left e cur \<le> length obs" "e < 64"
  shows "\<exists>ks. scan_calls X n obs cur = Some (ks, 0)
    \<and> (\<forall>k. (\<forall>ob \<in> set obs. scan_has E n ob k) \<longrightarrow> scan_pos e cur \<le> key_pos X E (fst (hd obs)) k \<longrightarrow> k \<in> set ks)"
  using assms
proof (induction obs arbitrary: cur)
  case Nil
  then show ?case using scan_left_pos [of e cur] by simp
next
  case (Cons ob obs)
  obtain m now o' where ob: "ob = (m, now, o')" by (rule prod_cases3)
  then have m: "scan_map_ok e m" using Cons.prems(1) by simp
  obtain ks' cur' where r: "scan_loop X m n now o' cur [] 0 = Some (ks', cur')"
    "cur' \<noteq> 0 \<longrightarrow> scan_left e cur' < scan_left e cur \<and> scan_pos e cur < scan_pos e cur'"
    "\<forall>k. iter_ok X \<longrightarrow> scan_has E n (m, now, o') k \<longrightarrow> scan_pos e cur \<le> key_pos X E m k \<longrightarrow> cur' = 0 \<or> key_pos X E m k < scan_pos e cur' \<longrightarrow> k \<in> set ks'"
    using scan_loop_covers [OF m, of X n now o' cur "[]" 0 E] by auto
  show ?case
  proof (cases "cur' = 0")
    case True
    then show ?thesis using r Cons.prems ob by auto
  next
    case False
    then have left: "scan_left e cur' \<le> length obs" using r(2) Cons.prems(3) by simp
    then obtain ks2 where ks2: "scan_calls X n obs cur' = Some (ks2, 0)"
      "\<forall>k. (\<forall>ob \<in> set obs. scan_has E n ob k) \<longrightarrow> scan_pos e cur' \<le> key_pos X E (fst (hd obs)) k \<longrightarrow> k \<in> set ks2"
      using Cons.IH Cons.prems(1,2,4) by fastforce
    have "obs \<noteq> []" using left scan_left_pos [OF Cons.prems(4), of cur'] by auto
    then have hd: "key_pos X E (fst (hd obs)) k = key_pos X E m k" for k
      using Cons.prems(1) m by (intro key_pos_same [of e]) (auto simp: case_prod_beta)
    show ?thesis
    proof (intro exI conjI allI impI)
      show "scan_calls X n (ob # obs) cur = Some (ks' @ ks2, 0)" using ks2(1) r(1) False by (simp add: ob)
      fix k assume k: "\<forall>ob \<in> set (ob # obs). scan_has E n ob k" "scan_pos e cur \<le> key_pos X E (fst (hd (ob # obs))) k"
      then show "k \<in> set (ks' @ ks2)"
        using r(3) ks2(2) hd Cons.prems(2) ob by (cases "key_pos X E m k < scan_pos e cur'") auto
    qed
  qed
qed

subsection \<open>A concrete keyspace\<close>

definition demo_ext :: externals where
  "demo_ext = \<lparr>ex_iter = sorted_list_of_fmap, ex_hash = (\<lambda>k. word_of_nat (length k)), ex_below = (\<lambda>_ _. 0), ex_codec = None\<rparr>"

definition demo_map :: shard_map where
  "demo_map = \<lparr>sm_shards = [\<lparr>h_shard = (shard_new 0 1)\<lparr>dbs := [set_entry (db_new 0) [107] (entry_new (RStr (StrInt 7)) None 0 False)]\<rparr>,
     h_dirty = 0, h_keys = 0, h_expires = 0, h_mem = 0\<rparr>], sm_mask = 0, sm_databases = 1\<rparr>"

definition demo_options :: scan_options where
  "demo_options = \<lparr>so_count = 10, so_pattern = None, so_type = None\<rparr>"

lemma demo_iter: "iter_ok demo_ext"
  by (auto simp: iter_ok_def demo_ext_def sorted_list_of_fmap_def image_iff fmlookup_dom_iff)

lemma demo_map_ok: "map_ok demo_map" "sm_len demo_map = 1"
  by (auto simp: map_ok_def demo_map_def sm_wf_def sm_len_def intro: exI [of _ 0])

lemma demo_has: "scan_has demo_env 0 (demo_map, 0, demo_options) [107]"
proof -
  have "shard_index (env_mc demo_env) demo_map [107] = 0"
    using shard_index_less [of demo_map "env_mc demo_env" "[107]"] demo_map_ok by (simp add: map_ok_def)
  then show ?thesis
    by (simp add: scan_has_def shard_for_def demo_map_def sm_get_def shard_db_def set_entry_def db_new_def entry_new_def
        scan_wants_def demo_options_def entry_is_expired_def Let_def)
qed

subsection \<open>Properties\<close>

text \<open>C25. \<^verbatim>\<open>SCAN\<close> returns: whatever cursor, options and locked shards the client comes with, the loop over
  the buckets ends.\<close>

theorem scan_always_returns:
  assumes "map_ok (srv_map c)"
  shows "\<exists>r. cmd_scan X E c args = Some r"
proof -
  from assms obtain e where e: "sm_len (srv_map c) = 2 ^ e" "sm_wf (srv_map c)" "2 ^ e < (65536 :: nat)" by (auto simp: map_ok_def sm_wf_def)
  have "(2 :: nat) ^ e < 2 ^ 16" using e(3) by simp
  then have "e < 16" by (rule power_less_imp_less_exp [rotated]) simp
  then have m: "scan_map_ok e (srv_map c)" using e by (simp add: scan_map_ok_def)
  have "\<exists>p. scan_loop X (srv_map c) (client_db c) (now_ms c) o' cur [] 0 = Some p" for o' cur
    using scan_loop_covers [OF m, of X "client_db c" "now_ms c" o' cur "[]" 0] by blast
  then show ?thesis by (fastforce simp: cmd_scan_def split: sum.split)
qed

theorem scan_always_returns_witness:
  "\<exists>r. cmd_scan demo_ext demo_env ((demo_ctx 0)\<lparr>shards := lock_set (shard_map_new 1 1) []\<rparr>) [ascii ''scan'', ascii ''17''] = Some r"
  by (rule scan_always_returns) (use map_ok_new [of 1 1] in \<open>simp add: demo_ctx_def\<close>)

text \<open>C24. The guarantee of \<^verbatim>\<open>SCAN\<close>: an iteration that starts at cursor 0 and passes each returned cursor to the
  next call ends within sixteen calls per shard, and it has reported every key that was stored, live and
  matched by the options during all of its calls, although writes, expiry and different \<^verbatim>\<open>COUNT\<close>s
  may change the number of virtual buckets between calls.\<close>

theorem scan_reports_every_key:
  assumes "iter_ok X" and "\<forall>(m, _) \<in> set obs. map_ok m \<and> sm_len m = shards_n" and "16 * shards_n \<le> length obs" and "0 < shards_n"
  shows "\<exists>ks. scan_calls X n obs 0 = Some (ks, 0) \<and> (\<forall>k. (\<forall>ob \<in> set obs. scan_has E n ob k) \<longrightarrow> k \<in> set ks)"
proof -
  obtain m0 r0 where m0: "(m0, r0) \<in> set obs" using assms(3,4) by (cases obs) (auto simp: neq_Nil_conv)
  then have w: "sm_wf m0" "sm_len m0 = shards_n" "shards_n < 65536" using assms(2) by (auto simp: map_ok_def)
  then obtain e where e: "shards_n = 2 ^ e" by (auto simp: sm_wf_def)
  have "(2 :: nat) ^ e < 2 ^ 16" using w(3) e by simp
  then have e16: "e < 16" by (rule power_less_imp_less_exp [rotated]) simp
  have ok: "\<forall>(m, _) \<in> set obs. scan_map_ok e m" using assms(2) e16 e by (auto simp: scan_map_ok_def map_ok_def)
  have p0: "scan_pos e 0 = 0" using e16 by (simp add: scan_pos_def shard_of_mask intra_of_def)
  have "scan_left e 0 \<le> length obs" using assms(3) e p0 by (simp add: scan_left_def)
  from scan_calls_covers [OF ok assms(1) this] e16 p0 show ?thesis by auto
qed

theorem scan_reports_every_key_witness:
  "\<exists>ks. scan_calls demo_ext 0 (replicate 16 (demo_map, 0, demo_options)) 0 = Some (ks, 0) \<and> [107] \<in> set ks"
proof -
  have "\<forall>(m, _) \<in> set (replicate 16 (demo_map, 0 :: nat, demo_options)). map_ok m \<and> sm_len m = 1" using demo_map_ok by simp
  from scan_reports_every_key [OF demo_iter this, of 0 demo_env] show ?thesis using demo_has by auto
qed

end
