(* ===== verification/Generic_Proofs.thy ===== *)
theory Generic_Proofs
  imports Generic_Cmd Server_Proofs
begin

text \<open>
  Correctness of the key commands over the live keyspace, in the client's database and across
  databases: \<^verbatim>\<open>DEL\<close> and \<^verbatim>\<open>EXISTS\<close>, the \<^verbatim>\<open>EXPIRE\<close> family with the replay of what it propagates, \<^verbatim>\<open>RENAME\<close>,
  \<^verbatim>\<open>MOVE\<close> and \<^verbatim>\<open>COPY\<close>, and the frame of a \<^verbatim>\<open>DUMP\<close> payload.
\<close>

subsection \<open>All the databases of a context\<close>

definition view_at :: "env \<Rightarrow> ctx \<Rightarrow> nat \<Rightarrow> key \<Rightarrow> entry option" where
  "view_at E c n k = Option.bind (ctx_db_at E c k n) (\<lambda>d. db_lookup d k)"

definition kv_at :: "env \<Rightarrow> ctx \<Rightarrow> nat \<Rightarrow> key \<Rightarrow> (robj \<times> nat option) option" where
  "kv_at E c n k = if_live (now_ms c) (map_option data (view_at E c n k))"

definition reach_at :: "env \<Rightarrow> ctx \<Rightarrow> nat \<Rightarrow> key \<Rightarrow> bool" where
  "reach_at E c n k \<longleftrightarrow> ctx_db_at E c k n \<noteq> None"

lemma own_db [simp]: "ctx_db_at E c k (client_db c) = ctx_db E c k"
  by (simp add: ctx_db_at_def ctx_db_def)

lemma own_view: "view_at E c (client_db c) k = view E c k" "kv_at E c (client_db c) k = kv E c k" "reach_at E c (client_db c) k = reach E c k"
  by (simp_all add: view_at_def view_def kv_at_def kv_def reach_at_def reach_def)

lemma map_db_own: "map_db E k f c = map_db_at E k (client_db c) f c"
  by (simp add: map_db_def map_db_at_def)

lemma map_db_at_fields [simp]:
  "out (map_db_at E k n f c) = out c" "client (map_db_at E k n f c) = client c" "srv_map (map_db_at E k n f c) = srv_map c"
  "now_ms (map_db_at E k n f c) = now_ms c" "lfu (map_db_at E k n f c) = lfu c" "cfg (map_db_at E k n f c) = cfg c"
  "propagating (map_db_at E k n f c) = propagating c" "dirty (map_db_at E k n f c) = dirty c" "prop_kind (map_db_at E k n f c) = prop_kind c"
  "prop_buf (map_db_at E k n f c) = prop_buf c" "g_mask (shards (map_db_at E k n f c)) = g_mask (shards c)"
  "sink (map_db_at E k n f c) = sink c" "block (map_db_at E k n f c) = block c"
  by (simp_all add: map_db_at_def split: option.split)

lemma map_db_at_shape [simp]: "shape (map_db_at E k n f c) = shape c"
  by (auto simp: map_db_at_def shard_put_db_def intro: map_shard_shape split: option.split)

lemma map_db_at_conn [simp]: "conn (map_db_at E k n f c) = conn c"
  by (simp add: conn_def)

lemma ctx_db_at_map:
  "ctx_db_at E (map_db_at E k n f c) k' n' =
     (if key_idx E c k' = key_idx E c k \<and> n' = n then map_option f (ctx_db_at E c k' n) else ctx_db_at E c k' n')"
proof (cases "ctx_db_at E c k n")
  case None
  then have "ctx_db_at E c k' n = None" if "key_idx E c k' = key_idx E c k"
    using that by (simp add: ctx_db_at_def ctx_shard_def for_key_def key_idx_def)
  then show ?thesis using None by (simp add: map_db_at_def)
next
  case (Some d)
  then obtain s where s: "ctx_shard E c k = Some s" "shard_db s n = Some d" by (auto simp: ctx_db_at_def bind_eq_Some_conv)
  have same: "ctx_shard E c k' = Some s" if "key_idx E c k' = key_idx E c k"
    using that s by (simp add: ctx_shard_def for_key_def key_idx_def)
  have put: "shard_db (shard_put_db s n (f d)) n' = (if n' = n then Some (f d) else shard_db s n')"
    using s(2) by (auto simp: shard_db_def shard_put_db_def nth_opt_def)
  show ?thesis
    by (cases "key_idx E c k' = key_idx E c k") (auto simp: map_db_at_def Some ctx_db_at_def ctx_shard_map_shard same put s)
qed

lemma view_at_map:
  "view_at E (map_db_at E k n f c) n' k' =
     (if key_idx E c k' = key_idx E c k \<and> n' = n then Option.bind (ctx_db_at E c k' n) (\<lambda>d. db_lookup (f d) k') else view_at E c n' k')"
  by (cases "ctx_db_at E c k' n") (simp_all add: view_at_def ctx_db_at_map)

lemma view_at_map_keeps:
  assumes "\<And>d. db_lookup (f d) k' = db_lookup d k'" shows "view_at E (map_db_at E k n f c) n' k' = view_at E c n' k'"
  by (simp add: view_at_map assms) (simp add: view_at_def)

lemma reach_at_map [simp]: "reach_at E (map_db_at E k n f c) n' k' = reach_at E c n' k'"
  by (simp add: reach_at_def ctx_db_at_map)

lemma at_cong:
  "shards c' = shards c \<Longrightarrow> view_at E c' n k = view_at E c n k" "shards c' = shards c \<Longrightarrow> reach_at E c' n k = reach_at E c n k"
  by (simp_all add: view_at_def reach_at_def ctx_db_at_def ctx_shard_def)

lemma at_map_shard:
  assumes "\<And>s. dbs (f s) = dbs s"
  shows "view_at E (map_shard E k f c) n k' = view_at E c n k'" "reach_at E (map_shard E k f c) n k' = reach_at E c n k'"
proof -
  have "ctx_db_at E (map_shard E k f c) k' n = ctx_db_at E c k' n"
    by (cases "ctx_shard E c k'") (auto simp: ctx_db_at_def ctx_shard_map_shard shard_db_def assms)
  then show "view_at E (map_shard E k f c) n k' = view_at E c n k'" "reach_at E (map_shard E k f c) n k' = reach_at E c n k'"
    by (simp_all add: view_at_def reach_at_def)
qed

text \<open>\<open>elsewhere c c'\<close>: nothing changed in the databases other than the client's, nor whether a key is
  locked in any of them.\<close>

definition elsewhere :: "env \<Rightarrow> ctx \<Rightarrow> ctx \<Rightarrow> bool" where
  "elsewhere E c c' \<longleftrightarrow> client c' = client c \<and> now_ms c' = now_ms c \<and> (\<forall>n k. n \<noteq> client_db c \<longrightarrow> view_at E c' n k = view_at E c n k)
     \<and> (\<forall>n k. reach_at E c' n k = reach_at E c n k)"

lemma elsewhere_refl: "elsewhere E c c"
  by (simp add: elsewhere_def)

lemma elsewhere_trans: "elsewhere E a b \<Longrightarrow> elsewhere E b c \<Longrightarrow> elsewhere E a c"
  by (simp add: elsewhere_def)

lemma elsewhere_cong: "shards c' = shards c \<Longrightarrow> client c' = client c \<Longrightarrow> now_ms c' = now_ms c \<Longrightarrow> elsewhere E c c'"
  by (simp add: elsewhere_def at_cong [of c' c])

lemma elsewhere_map [simp]:
  "elsewhere E c (map_db E k f c)" "elsewhere E c (bump_shard_dirty E k c)" "elsewhere E c (map_shard E k (\<lambda>s. shard_propagate s n argv) c)"
  by (simp_all add: elsewhere_def map_db_own view_at_map bump_shard_dirty_def at_map_shard shard_propagate_def)

lemma elsewhere_upd [simp]:
  "elsewhere E c (c\<lparr>srv_dirty := a, expired_keys := b\<rparr>)" "elsewhere E c (c\<lparr>dirty := a, srv_dirty := b\<rparr>)"
  "elsewhere E c (c\<lparr>keyspace_misses := a\<rparr>)" "elsewhere E c (c\<lparr>keyspace_hits := a\<rparr>)" "elsewhere E c (publish E c cls ev k)"
  "elsewhere E c (ctx_notify E c cls ev k)" "elsewhere E c (propagate_none c)" "elsewhere E c (propagate_argv c argv)" "elsewhere E c (with_out f c)"
  by (rule elsewhere_cong; simp add: publish_def ctx_notify_def propagate_none_def propagate_argv_def with_out_def)+

lemma elsewhere_expire: "elsewhere E c (snd (expire_if_needed E c k))"
proof (cases "ctx_db E c k")
  case (Some d)
  then show ?thesis
    using elsewhere_trans [OF elsewhere_map(1) elsewhere_trans [OF elsewhere_map(2) elsewhere_trans [OF elsewhere_upd(1) elsewhere_upd(5)]]]
      elsewhere_trans [OF elsewhere_map(1) elsewhere_trans [OF elsewhere_map(2) elsewhere_trans [OF elsewhere_map(3) elsewhere_trans [OF elsewhere_upd(1) elsewhere_upd(5)]]]]
    by (simp add: expire_if_needed_def Let_def elsewhere_refl)
qed (simp add: expire_if_needed_def elsewhere_refl)

lemma elsewhere_ops:
  "elsewhere E c (snd (ctx_exists E c k))" "elsewhere E c (snd (ctx_expire_at E c k))" "elsewhere E c (touch_key E k c)"
  "elsewhere E c (signal_modified E c k)" "elsewhere E c (snd (lookup_read E c k))"
proof -
  show "elsewhere E c (snd (ctx_exists E c k))" "elsewhere E c (snd (ctx_expire_at E c k))"
    using elsewhere_expire by (simp_all add: ctx_exists_def ctx_expire_at_def Let_def)
  show t: "elsewhere E c (touch_key E k c)" for c by (simp add: touch_key_def elsewhere_refl)
  show "elsewhere E c (signal_modified E c k)"
    using elsewhere_trans [OF elsewhere_upd(2) elsewhere_trans [OF elsewhere_map(2) elsewhere_map(1)]] by (simp add: signal_modified_def Let_def)
  show "elsewhere E c (snd (lookup_read E c k))"
    using elsewhere_trans [OF elsewhere_expire [of E c k] elsewhere_upd(3)] elsewhere_trans [OF elsewhere_expire [of E c k] elsewhere_trans [OF elsewhere_upd(4) t]]
    by (simp add: lookup_read_def Let_def split: option.split)
qed


subsection \<open>Moving whole entries\<close>

text \<open>\<open>kept c c'\<close>: what a command keeps beside the keyspace: reply, clock, client, propagation.\<close>

definition kept :: "ctx \<Rightarrow> ctx \<Rightarrow> bool" where
  "kept c c' \<longleftrightarrow> out c' = out c \<and> now_ms c' = now_ms c \<and> client c' = client c \<and> cfg c' = cfg c \<and> propagating c' = propagating c
     \<and> prop_kind c' = prop_kind c \<and> prop_buf c' = prop_buf c"

lemma kept_trans: "kept a b \<Longrightarrow> kept b c \<Longrightarrow> kept a c"
  by (simp add: kept_def)

lemma same_kv_kept: "same_kv E c c' \<Longrightarrow> kept c c'"
  by (simp add: kept_def same_kv_def)

lemma remove_entry_fst: "fst (remove_entry d k) = db_lookup d k"
  by (simp add: remove_entry_def db_lookup_def Let_def split: option.split)

lemma take_entry_view:
  "fst (take_entry E c k n) = view_at E c n k"
  "view_at E (snd (take_entry E c k n)) n' k' = (if n' = n \<and> k' = k then None else view_at E c n' k')"
  "reach_at E (snd (take_entry E c k n)) n' k' = reach_at E c n' k'" "kept c (snd (take_entry E c k n))"
proof -
  show "fst (take_entry E c k n) = view_at E c n k" by (simp add: take_entry_def Let_def view_at_def remove_entry_fst)
  have lk: "db_lookup (snd (remove_entry d k)) k' = (if k' = k then None else db_lookup d k')"
    "db_lookup (signal_watch d k) k' = db_lookup d k'" for d k' by (simp_all add: db_laws)
  have rm: "view_at E (map_db_at E k n (\<lambda>d. snd (remove_entry d k)) c) n' k' = (if n' = n \<and> k' = k then None else view_at E c n' k')"
    using view_at_map_keeps [of "\<lambda>d. snd (remove_entry d k)" k' E k n c n'] by (cases "k' = k") (auto simp: view_at_map lk)
  then show "view_at E (snd (take_entry E c k n)) n' k' = (if n' = n \<and> k' = k then None else view_at E c n' k')"
    unfolding rm [symmetric] by (simp add: take_entry_def Let_def signal_db_watch_def view_at_map_keeps lk)
  show "reach_at E (snd (take_entry E c k n)) n' k' = reach_at E c n' k'" "kept c (snd (take_entry E c k n))"
    by (simp_all add: take_entry_def Let_def signal_db_watch_def kept_def)
qed

lemma put_entry_view:
  "reach_at E c n k \<Longrightarrow> view_at E (put_entry E c k e n) n' k' = (if n' = n \<and> k' = k then Some e else view_at E c n' k')"
  "reach_at E (put_entry E c k e n) n' k' = reach_at E c n' k'" "kept c (put_entry E c k e n)"
proof -
  have lk: "db_lookup (set_entry (signal_watch d k) k e) k' = (if k' = k then Some e else db_lookup d k')" for d k' by (simp add: db_laws)
  show "view_at E (put_entry E c k e n) n' k' = (if n' = n \<and> k' = k then Some e else view_at E c n' k')" if "reach_at E c n k"
    using that view_at_map_keeps [of "\<lambda>d. set_entry (signal_watch d k) k e" k' E k n c n']
    by (cases "k' = k") (auto simp: put_entry_def view_at_map lk reach_at_def)
  show "reach_at E (put_entry E c k e n) n' k' = reach_at E c n' k'" "kept c (put_entry E c k e n)"
    by (simp_all add: put_entry_def kept_def)
qed

lemma signals_view:
  "view_at E (signal_modified E c k) n k' = view_at E c n k'" "view_at E (signal_db_watch E c k m) n k' = view_at E c n k'"
  "view_at E (ctx_notify E c cls ev k) n k' = view_at E c n k'" "view_at E (with_out f c) n k' = view_at E c n k'"
  "view_at E (propagate_none c) n k' = view_at E c n k'" "view_at E (c\<lparr>published := p\<rparr>) n k' = view_at E c n k'"
  "view_at E (propagate_argv c argv) n k' = view_at E c n k'"
proof -
  have "db_lookup (signal_watch d k) k' = db_lookup d k'" for d by (simp add: db_laws)
  then show "view_at E (signal_db_watch E c k m) n k' = view_at E c n k'"
    and "view_at E (signal_modified E c k) n k' = view_at E c n k'"
    using at_cong(1) [of "c\<lparr>dirty := dirty c + 1, srv_dirty := srv_dirty c + 1\<rparr>" c E n k']
    by (simp_all add: signal_db_watch_def signal_modified_def map_db_own view_at_map_keeps bump_shard_dirty_def at_map_shard Let_def)
qed (rule at_cong(1); simp add: ctx_notify_def publish_def with_out_def propagate_none_def propagate_argv_def)+

lemma signals_kept:
  "kept c (signal_modified E c k)" "kept c (signal_db_watch E c k m)" "kept c (ctx_notify E c cls ev k)" "kept c (c\<lparr>published := p\<rparr>)"
  using same_kv_kept [OF signal_modified_same] by (simp_all add: kept_def signal_db_watch_def ctx_notify_def)

lemma exists_in_db_kv: "exists_in_db E c k n \<longleftrightarrow> kv_at E c n k \<noteq> None"
  by (auto simp: exists_in_db_def kv_at_def view_at_def db_lookup_def if_live_def expired_live split: option.splits)

lemma own_same: "same_kv E c c' \<Longrightarrow> elsewhere E c c' \<Longrightarrow> kv_at E c' n k = kv_at E c n k"
  using own_view(2) [of E c k] own_view(2) [of E c' k] by (cases "n = client_db c") (auto simp: same_kv_def elsewhere_def kv_at_def)

text \<open>After the existence check, the entry a command takes is the live one.\<close>

lemma exists_step:
  assumes "ctx_exists E c k = (ex, c1)"
  shows "ex \<longleftrightarrow> kv E c k \<noteq> None" "same_kv E c c1" "kv_at E c1 n k' = kv_at E c n k'" "reach_at E c1 n k' = reach_at E c n k'"
    "map_option data (view E c1 k) = kv E c k"
proof -
  show "ex \<longleftrightarrow> kv E c k \<noteq> None" and s: "same_kv E c c1" using ctx_exists_kv [of E c k] assms by auto
  have e: "elsewhere E c c1" using elsewhere_ops(1) [of E c k] assms by simp
  show "kv_at E c1 n k' = kv_at E c n k'" by (rule own_same [OF s e])
  show "reach_at E c1 n k' = reach_at E c n k'" using e by (simp add: elsewhere_def)
  show "map_option data (view E c1 k) = kv E c k" using assms kv_expire [of E c k] by (auto simp: ctx_exists_def Let_def)
qed


subsection \<open>RENAME, MOVE and COPY\<close>

text \<open>Moving the entry of \<open>src\<close> in database \<open>n\<close> to \<open>dst\<close> in database \<open>m\<close>.\<close>

lemma transfer_view:
  assumes "take_entry E c src n = (Some e, c1)" and "reach_at E c m dst"
  shows "view_at E (put_entry E c1 dst e m) n' k =
      (if n' = m \<and> k = dst then view_at E c n src else if n' = n \<and> k = src then None else view_at E c n' k)"
    and "kept c (put_entry E c1 dst e m)"
proof -
  have c1: "c1 = snd (take_entry E c src n)" and e: "view_at E c n src = Some e" using assms(1) take_entry_view(1) [of E c src n] by simp_all
  have r: "reach_at E c1 m dst" using assms(2) take_entry_view(3) by (simp add: c1)
  show "view_at E (put_entry E c1 dst e m) n' k =
      (if n' = m \<and> k = dst then view_at E c n src else if n' = n \<and> k = src then None else view_at E c n' k)"
    unfolding put_entry_view(1) [OF r] unfolding c1 take_entry_view(2) by (simp add: e)
  show "kept c (put_entry E c1 dst e m)"
    using kept_trans [OF take_entry_view(4) put_entry_view(3)] by (simp add: c1)
qed

lemma kv_at_transfer:
  assumes "view_at E c' n' k = (if n' = m \<and> k = dst then view_at E c1 n src else if n' = n \<and> k = src then None else view_at E c1 n' k)"
    and "now_ms c' = now_ms c1"
  shows "kv_at E c' n' k = (if n' = m \<and> k = dst then kv_at E c1 n src else if n' = n \<and> k = src then None else kv_at E c1 n' k)"
  unfolding kv_at_def assms by (auto simp: if_live_def)

lemma int_out_fields [simp]:
  "out (int_out E v c) = reply_int (env_itoa E) (out c) v" "kv E (int_out E v c) k = kv E c k" "now_ms (int_out E v c) = now_ms c"
  "prop_kind (int_out E v c) = prop_kind c" "prop_buf (int_out E v c) = prop_buf c" "view_at E (int_out E v c) n k = view_at E c n k"
  "client (int_out E v c) = client c"
  by (simp_all add: int_out_def signals_view with_out_def [THEN arg_cong, of client])

definition yes_no :: "env \<Rightarrow> bool \<Rightarrow> bool \<Rightarrow> reply_writer \<Rightarrow> reply_writer" where
  "yes_no E nx b w = (if nx then reply_int (env_itoa E) w (if b then 1 else 0) else reply_ok w)"

lemma kv_at_none: "kv_at E (propagate_none c) n k = kv_at E c n k" "kv_at E (with_out f c) n k = kv_at E c n k" "kv_at E (int_out E v c) n k = kv_at E c n k"
  by (simp_all add: kv_at_def signals_view propagate_none_def [THEN arg_cong, of now_ms])

lemma rename_effect:
  assumes "rename_generic E c (nm # src # dst # rest) nx = (r, c')" and "reach E c dst"
  shows "if kv E c src = None then r = Inl NoSuchKey \<and> same_kv E c c'
    else r = Inr () \<and>
      (if src = dst \<or> (nx \<and> kv E c dst \<noteq> None)
       then (\<forall>k. kv E c' k = kv E c k) \<and> prop_kind c' = PropSuppressed \<and> out c' = yes_no E nx False (out c)
       else (\<forall>k. kv E c' k = (if k = dst then kv E c src else if k = src then None else kv E c k)) \<and> prop_kind c' = prop_kind c
         \<and> out c' = yes_no E nx True (out c))"
proof -
  let ?n = "client_db c"
  obtain ex c1 where x: "ctx_exists E c src = (ex, c1)" by (rule prod.exhaust)
  note x' = exists_step [OF x]
  have cl: "client c1 = client c" "out c1 = out c" "now_ms c1 = now_ms c" "prop_kind c1 = prop_kind c" using x'(2) by (simp_all add: same_kv_def)
  have kv1: "kv E c1 k = kv E c k" for k using x'(2) by (simp add: same_kv_def)
  have exd: "exists_in_db E c1 dst ?n \<longleftrightarrow> kv E c dst \<noteq> None" by (simp add: exists_in_db_kv x'(3) own_view)
  have r: "(r, c') = (if ex then
       if src = dst then (Inr (), (if nx then int_out E 0 else with_out reply_ok) (propagate_none c1))
       else if exists_in_db E c1 dst ?n \<and> nx then (Inr (), int_out E 0 (propagate_none c1))
       else (case take_entry E c1 src ?n of
               (None, c) \<Rightarrow> (Inl NoSuchKey, c)
             | (Some e, c) \<Rightarrow>
                 (Inr (), (if nx then int_out E 1 else with_out reply_ok)
                    (ctx_notify E (ctx_notify E (signal_modified E (signal_modified E (put_entry E c dst e ?n) src) dst) GENERIC (ascii ''rename_from'') src)
                       GENERIC (ascii ''rename_to'') dst)))
     else (Inl NoSuchKey, c1))"
    using assms(1) x unfolding rename_generic_def Let_def by (cases ex) (simp_all add: args_at_def nth_opt_def)
  show ?thesis
  proof (cases ex)
    case False
    then show ?thesis using r x'(1,2) by simp
  next
    case True
    then obtain v where v: "kv E c src = Some v" using x'(1) by auto
    then obtain e where e: "view_at E c1 ?n src = Some e" "data e = v" using x'(5) own_view(1) [of E c1 src] cl(1) by auto
    show ?thesis
    proof (cases "src = dst \<or> (nx \<and> kv E c dst \<noteq> None)")
      case same: True
      then show ?thesis using r v True kv1 cl exd by (auto simp: yes_no_def split: if_splits)
    next
      case False
      obtain c2 where t: "take_entry E c1 src ?n = (Some e, c2)" using take_entry_view(1) [of E c1 src ?n] e(1) by (metis surjective_pairing)
      have rd: "reach_at E c1 ?n dst" using assms(2) by (simp add: x'(4) own_view)
      note tv = transfer_view [OF t rd]
      let ?c3 = "put_entry E c2 dst e ?n"
      have c': "r = Inr ()" "c' = (if nx then int_out E 1 else with_out reply_ok)
          (ctx_notify E (ctx_notify E (signal_modified E (signal_modified E ?c3 src) dst) GENERIC (ascii ''rename_from'') src) GENERIC (ascii ''rename_to'') dst)"
        using r True False t exd by (auto split: if_splits)
      let ?c4 = "ctx_notify E (ctx_notify E (signal_modified E (signal_modified E ?c3 src) dst) GENERIC (ascii ''rename_from'') src) GENERIC (ascii ''rename_to'') dst"
      have k4: "kept c1 ?c4" by (intro kept_trans [OF _ signals_kept(3)] kept_trans [OF _ signals_kept(1)] tv(2))
      have "kv_at E ?c4 ?n k = (if k = dst then kv_at E c1 ?n src else if k = src then None else kv_at E c1 ?n k)" for k
        using kv_at_transfer [of E ?c4 ?n k ?n dst c1 ?n src] tv(1) [of ?n k] k4 by (simp add: signals_view kept_def)
      moreover have "kv_at E ?c4 ?n k = kv E ?c4 k" for k using own_view(2) [of E ?c4 k] k4 cl(1) by (simp add: kept_def)
      ultimately have "kv E ?c4 k = (if k = dst then kv E c src else if k = src then None else kv E c k)" for k
        by (simp add: x'(3) own_view)
      then show ?thesis using c' False v k4 cl unfolding kept_def by (simp only: if_False) (auto simp: yes_no_def)
    qed
  qed
qed


definition move_target :: "ctx \<Rightarrow> bytes \<Rightarrow> nat \<Rightarrow> bool" where
  "move_target c b m \<longleftrightarrow> string2ll b = Some (int m) \<and> int m < as_i64 (sm_databases (srv_map c)) \<and> m \<noteq> client_db c"

lemma move_effect:
  assumes "cmd_move E c [nm, k, b] = (r, c')" and "move_target c b m" and "reach_at E c m k"
  shows "r = Inr () \<and>
    (if kv E c k = None \<or> kv_at E c m k \<noteq> None
     then (\<forall>n k'. kv_at E c' n k' = kv_at E c n k') \<and> prop_kind c' = PropSuppressed \<and> out c' = reply_int (env_itoa E) (out c) 0
     else (\<forall>n k'. kv_at E c' n k' = (if n = m \<and> k' = k then kv E c k else if n = client_db c \<and> k' = k then None else kv_at E c n k'))
       \<and> prop_kind c' = prop_kind c \<and> out c' = reply_int (env_itoa E) (out c) 1)"
proof -
  let ?n = "client_db c"
  obtain ex c1 where x: "ctx_exists E c k = (ex, c1)" by (rule prod.exhaust)
  note x' = exists_step [OF x]
  have cl: "client c1 = client c" "out c1 = out c" "now_ms c1 = now_ms c" "prop_kind c1 = prop_kind c" using x'(2) by (simp_all add: same_kv_def)
  have exd: "exists_in_db E c1 k m \<longleftrightarrow> kv_at E c m k \<noteq> None" by (simp add: exists_in_db_kv x'(3))
  have ai: "i64_at [nm, k, b] 2 = Inr (int m)" "args_at [nm, k, b] 1 = Inr k"
    using assms(2) by (simp_all add: i64_at_def args_at_def nth_opt_def move_target_def)
  have r: "(r, c') = (if ex then
       if exists_in_db E c1 k m then (Inr (), int_out E 0 (propagate_none c1))
       else (case take_entry E c1 k ?n of
               (None, c) \<Rightarrow> (Inr (), int_out E 0 (propagate_none c))
             | (Some e, c) \<Rightarrow>
                 (let c = ctx_notify E (signal_db_watch E (signal_modified E (put_entry E c k e m) k) k m) GENERIC (ascii ''move_from'') k
                  in (Inr (), int_out E 1 (c\<lparr>published := published c
                                    @ notify_dispatch (env_itoa E) (sink c) (cfg_notify_keyspace_events (cfg c)) GENERIC (ascii ''move_to'') m k\<rparr>))))
     else (Inr (), int_out E 0 (propagate_none c1)))"
    using assms(1,2) x unfolding cmd_move_def Let_def by (cases ex) (simp_all add: ai ai(2) [unfolded One_nat_def] move_target_def)
  show ?thesis
  proof (cases "kv E c k = None \<or> kv_at E c m k \<noteq> None")
    case True
    then have "r = Inr ()" "c' = int_out E 0 (propagate_none c1)" using r x'(1) exd by (auto split: if_splits)
    then show ?thesis using True cl x'(3) by (simp add: kv_at_none)
  next
    case False
    then obtain v where v: "kv E c k = Some v" by auto
    then obtain e where e: "view_at E c1 ?n k = Some e" using x'(5) own_view(1) [of E c1 k] cl(1) by auto
    obtain c2 where t: "take_entry E c1 k ?n = (Some e, c2)" using take_entry_view(1) [of E c1 k ?n] e by (metis surjective_pairing)
    have "reach_at E c1 m k" using assms(3) by (simp add: x'(4))
    note tv = transfer_view [OF t this]
    let ?c3 = "ctx_notify E (signal_db_watch E (signal_modified E (put_entry E c2 k e m) k) k m) GENERIC (ascii ''move_from'') k"
    obtain pb where c': "r = Inr ()" "c' = int_out E 1 (?c3\<lparr>published := pb\<rparr>)"
      using r False x'(1) exd t by (auto simp: Let_def split: if_splits)
    let ?c4 = "?c3\<lparr>published := pb\<rparr>"
    have k4: "kept c1 ?c4"
      by (intro kept_trans [OF _ signals_kept(4)] kept_trans [OF _ signals_kept(3)] kept_trans [OF _ signals_kept(2)] kept_trans [OF _ signals_kept(1)] tv(2))
    have "kv_at E ?c4 n k' = (if n = m \<and> k' = k then kv_at E c1 ?n k else if n = ?n \<and> k' = k then None else kv_at E c1 n k')" for n k'
      using kv_at_transfer [of E ?c4 n k' m k c1 ?n k] tv(1) [of n k'] k4 by (simp add: signals_view kept_def)
    then have "kv_at E ?c4 n k' = (if n = m \<and> k' = k then kv E c k else if n = ?n \<and> k' = k then None else kv_at E c n k')" for n k'
      by (simp add: x'(3) own_view)
    then show ?thesis using c' False k4 cl unfolding kept_def by (simp only: if_False) (auto simp: kv_at_none)
  qed
qed

lemma steps_at:
  assumes "same_kv E a b" "elsewhere E a b" "same_kv E b c" "elsewhere E b c"
  shows "same_kv E a c" "elsewhere E a c"
  using assms same_kv_trans elsewhere_trans by blast+

lemma copy_effect:
  assumes "cmd_copy codec E c args = (r, c')" and "copy_checks c args = Inr (src, dst, m, replace)" and "reach_at E c m dst"
  shows "case kv E c src of
      None \<Rightarrow> r = Inr () \<and> (\<forall>n k. kv_at E c' n k = kv_at E c n k) \<and> prop_kind c' = PropSuppressed \<and> out c' = reply_int (env_itoa E) (out c) 0
    | Some (v, at) \<Rightarrow>
        if kv_at E c m dst \<noteq> None \<and> \<not> replace
        then r = Inr () \<and> (\<forall>n k. kv_at E c' n k = kv_at E c n k) \<and> prop_kind c' = PropSuppressed \<and> out c' = reply_int (env_itoa E) (out c) 0
        else (case duplicate_value codec v of
                None \<Rightarrow> (\<exists>err. r = Inl err) \<and> (\<forall>n k. kv_at E c' n k = kv_at E c n k)
              | Some v' \<Rightarrow> r = Inr () \<and> prop_kind c' = prop_kind c \<and> out c' = reply_int (env_itoa E) (out c) 1
                  \<and> (\<forall>n k. kv_at E c' n k = (if n = m \<and> k = dst then Some (v', at) else kv_at E c n k)))"
proof -
  let ?n = "client_db c"
  obtain ex c1 where x: "ctx_exists E c src = (ex, c1)" by (rule prod.exhaust)
  note x' = exists_step [OF x]
  obtain at c2 where a: "ctx_expire_at E c1 src = (at, c2)" by (rule prod.exhaust)
  obtain ov c3 where l: "lookup_read E c2 src = (ov, c3)" by (rule prod.exhaust)
  have s2: "same_kv E c c2" "elsewhere E c c2"
    using steps_at [OF ctx_exists_kv(2) elsewhere_ops(1), of E c src] ctx_expire_at_kv(2) [of E c1 src] elsewhere_ops(2) [of E c1 src] x a by auto
  have s3: "same_kv E c c3" "elsewhere E c c3" using steps_at [OF s2] lookup_read_kv [of E c2 src] elsewhere_ops(5) [of E c2 src] l by auto
  have exd: "exists_in_db E c1 dst m \<longleftrightarrow> kv_at E c m dst \<noteq> None" by (simp add: exists_in_db_kv x'(3))
  have at: "at = Option.bind (kv E c src) snd" using ctx_expire_at_kv(1) [of E c1 src] a x'(2) by (simp add: same_kv_def)
  have ov: "ov = map_option fst (kv E c src)" using lookup_read_kv [of E c2 src] l s2(1) by (simp add: same_kv_def)
  have kv1: "kv_at E c1 n k = kv_at E c n k" "kv_at E c3 n k = kv_at E c n k" for n k using x'(3) own_same [OF s3] by simp_all
  have cl: "out c1 = out c" "client c3 = client c" "out c3 = out c" "now_ms c3 = now_ms c" "prop_kind c3 = prop_kind c" "cfg c3 = cfg c"
    using x'(2) s3(1) by (simp_all add: same_kv_def)
  have r: "(r, c') = (if ex then
       if exists_in_db E c1 dst m \<and> \<not> replace then (Inr (), int_out E 0 (propagate_none c1))
       else (case ov of
               None \<Rightarrow> (Inr (), int_out E 0 (propagate_none c3))
             | Some v \<Rightarrow> (case duplicate_value codec v of
                 None \<Rightarrow> (Inl (error_err (ascii ''COPY of this type requires the RDB serializer, which is not loaded'')), c3)
               | Some v' \<Rightarrow>
                   (let c = signal_modified E (put_entry E c3 dst (entry_new v' at (now_ms c3) (policy_is_lfu (cfg_maxmemory_policy (cfg c3)))) m) dst;
                        c = (if m \<noteq> ?n then signal_db_watch E c dst m else c)
                    in (Inr (), int_out E 1 (ctx_notify E c GENERIC (ascii ''copy_to'') dst)))))
     else (Inr (), int_out E 0 (propagate_none c1)))"
    using assms(1,2) x a l unfolding cmd_copy_def Let_def by (cases ex; cases ov) (simp_all cong: if_cong)
  show ?thesis
  proof (cases "kv E c src")
    case None
    then show ?thesis using r x'(1) cl kv1 by (simp add: kv_at_none)
  next
    case (Some p)
    obtain v d where p: "p = (v, d)" by (rule prod.exhaust)
    then have v: "ov = Some v" "at = d" "ex" using Some ov at x'(1) by simp_all
    show ?thesis
    proof (cases "kv_at E c m dst \<noteq> None \<and> \<not> replace")
      case True
      then show ?thesis using r exd v Some p cl kv1 by (simp add: kv_at_none)
    next
      case False
      show ?thesis
      proof (cases "duplicate_value codec v")
        case None
        then have "(r, c') = (Inl (error_err (ascii ''COPY of this type requires the RDB serializer, which is not loaded'')), c3)"
          using r exd v False by auto
        then show ?thesis using None Some p kv1 False by (simp only: option.case prod.case if_False) auto
      next
        case (Some v')
        let ?e = "entry_new v' d (now_ms c3) (policy_is_lfu (cfg_maxmemory_policy (cfg c3)))"
        let ?c4 = "signal_modified E (put_entry E c3 dst ?e m) dst"
        let ?c5 = "ctx_notify E (if m \<noteq> ?n then signal_db_watch E ?c4 dst m else ?c4) GENERIC (ascii ''copy_to'') dst"
        have c': "r = Inr ()" "c' = int_out E 1 ?c5" using r exd v False Some by (auto simp: Let_def)
        have rd: "reach_at E c3 m dst" using assms(3) s3(2) by (simp add: elsewhere_def)
        have k5: "kept c3 ?c5"
          by (cases "m = ?n") (simp, intro kept_trans [OF _ signals_kept(3)] kept_trans [OF put_entry_view(3) signals_kept(1)],
              simp, intro kept_trans [OF _ signals_kept(3)] kept_trans [OF _ signals_kept(2)] kept_trans [OF put_entry_view(3) signals_kept(1)])
        have lv: "live (now_ms c3) (v', d)" using Some \<open>kv E c src = Some p\<close> p cl(4) by (auto simp: kv_def if_live_def live_def data_def split: option.splits if_splits)
        have "view_at E ?c5 n k = (if n = m \<and> k = dst then Some ?e else view_at E c3 n k)" for n k
          unfolding put_entry_view(1) [OF rd, of ?e, symmetric] by (simp add: signals_view)
        then have "kv_at E ?c5 n k = (if n = m \<and> k = dst then Some (v', d) else kv_at E c n k)" for n k
          using k5 lv kv1(2) by (simp add: kv_at_def kept_def if_live_def data_def entry_new_def)
        then show ?thesis using c' k5 cl Some \<open>kv E c src = Some p\<close> p False unfolding kept_def
          by (simp only: option.case prod.case if_False) (simp add: kv_at_none)
      qed
    qed
  qed
qed


subsection \<open>DEL and EXISTS\<close>

lemma notify_fields [simp]: "client (ctx_notify E c cls ev k) = client c" "cfg (ctx_notify E c cls ev k) = cfg c"
  by (simp_all add: ctx_notify_def)

lemma propagate_argv_fields [simp]:
  "prop_kind (propagate_argv c argv) = PropExplicit" "prop_buf (propagate_argv c argv) = prop_buf c @ (if propagating c then [argv] else [])"
  by (simp_all add: propagate_argv_def)

lemma del_loop_effect:
  assumes "del_loop E c ks n = (n', c')"
  shows "n' = n + int (card {k \<in> set ks. kv E c k \<noteq> None}) \<and> (\<forall>k. kv E c' k = (if k \<in> set ks then None else kv E c k)) \<and> out c' = out c"
  using assms
proof (induction ks arbitrary: c n)
  case (Cons k1 ks)
  obtain b c1 where rm: "ctx_remove E c k1 = (b, c1)" by (rule prod.exhaust)
  have b: "b \<longleftrightarrow> kv E c k1 \<noteq> None" "kv E c1 k1 = None" and o: "only_at E k1 c c1" using ctx_remove_kv(1,2) [of E c k1] ctx_remove_kv(3) [of E k1 c] rm by auto
  define c2 where "c2 = (if b then ctx_notify E c1 GENERIC (ascii ''del'') k1 else c1)"
  have c2: "kv E c2 k = (if k = k1 then None else kv E c k)" "out c2 = out c" for k using b(2) o by (auto simp: c2_def only_at_def)
  have l: "del_loop E c2 ks (if b then n + 1 else n) = (n', c')" using Cons.prems rm by (cases b) (simp_all add: c2_def)
  note IH = Cons.IH [OF l]
  have "{k \<in> set (k1 # ks). kv E c k \<noteq> None} = {k \<in> set ks. kv E c2 k \<noteq> None} \<union> (if b then {k1} else {})"
    using b(1) c2(1) by auto
  moreover have "card ({k \<in> set ks. kv E c2 k \<noteq> None} \<union> (if b then {k1} else {})) = card {k \<in> set ks. kv E c2 k \<noteq> None} + (if b then 1 else 0)"
    using c2(1) by (simp add: card_insert_if)
  ultimately show ?case using IH c2 by auto
qed auto

lemma exists_loop_effect:
  assumes "exists_loop E c ks n = (n', c')"
  shows "n' = n + int (length (filter (\<lambda>k. kv E c k \<noteq> None) ks)) \<and> same_kv E c c'"
  using assms
proof (induction ks arbitrary: c n)
  case (Cons k1 ks)
  obtain b c1 where x: "ctx_exists E c k1 = (b, c1)" by (rule prod.exhaust)
  note x' = exists_step(1,2) [OF x]
  have l: "exists_loop E c1 ks (if b then n + 1 else n) = (n', c')" using Cons.prems x by simp
  have kv1: "kv E c1 k = kv E c k" for k using x'(2) by (simp add: same_kv_def)
  then show ?case using Cons.IH [OF l] x'(1) same_kv_trans [OF x'(2)] by auto
qed (auto simp: same_kv_refl)

lemma del_effect:
  assumes "cmd_del E c (nm # ks) = (r, c')"
  shows "r = Inr ()" "out c' = reply_int (env_itoa E) (out c) (int (card {k \<in> set ks. kv E c k \<noteq> None}))"
    "kv E c' k = (if k \<in> set ks then None else kv E c k)"
proof -
  obtain n c1 where d: "del_loop E c ks 0 = (n, c1)" by (rule prod.exhaust)
  then have "r = Inr ()" "c' = int_out E n c1" using assms by (simp_all add: cmd_del_def)
  then show "r = Inr ()" "out c' = reply_int (env_itoa E) (out c) (int (card {k \<in> set ks. kv E c k \<noteq> None}))"
    "kv E c' k = (if k \<in> set ks then None else kv E c k)"
    using del_loop_effect [OF d] by simp_all
qed

subsection \<open>EXPIRE\<close>

lemma expire_effect:
  assumes "expire_generic E c (nm # k # b # rest) unit_ms absolute name = (r, c')" and "string2ll b = Some raw"
    and "parse_expire_cond (nm # k # b # rest) 3 = Inr cond" and "expire_when (now_ms c) raw unit_ms absolute name = Inr when"
  shows "r = Inr () \<and> (\<forall>k'. k' \<noteq> k \<longrightarrow> kv E c' k' = kv E c k') \<and>
    (case kv E c k of
       Some (v, at) \<Rightarrow>
         if cond_allows cond at when then
           out c' = reply_int (env_itoa E) (out c) 1 \<and> prop_kind c' = PropExplicit \<and>
           (if when \<le> as_i64 (now_ms c)
            then kv E c' k = None \<and> (propagating c \<longrightarrow>
              prop_buf c' = prop_buf c @ [[ascii (if cfg_lazyfree_lazy_expire (cfg c) then ''UNLINK'' else ''DEL''), k]])
            else kv E c' k = if_live (now_ms c) (Some (v, Some (nat when))) \<and> (propagating c \<longrightarrow>
              prop_buf c' = prop_buf c @ [[ascii ''PEXPIREAT'', k, env_itoa E when]]))
         else kv E c' k = kv E c k \<and> out c' = reply_int (env_itoa E) (out c) 0 \<and> prop_kind c' = PropSuppressed \<and> prop_buf c' = []
     | None \<Rightarrow> kv E c' k = None \<and> out c' = reply_int (env_itoa E) (out c) 0 \<and> prop_kind c' = PropSuppressed \<and> prop_buf c' = [])"
proof -
  obtain ex c1 where x: "ctx_exists E c k = (ex, c1)" by (rule prod.exhaust)
  note x' = exists_step(1,2) [OF x]
  obtain at c2 where a: "ctx_expire_at E c1 k = (at, c2)" by (rule prod.exhaust)
  have s2: "same_kv E c c2" using same_kv_trans [OF x'(2)] ctx_expire_at_kv(2) [of E c1 k] a by simp
  have at: "at = Option.bind (kv E c k) snd" using ctx_expire_at_kv(1) [of E c1 k] a x'(2) by (simp add: same_kv_def)
  have f1: "kv E c1 k' = kv E c k'" "out c1 = out c" for k' using x'(2) by (simp_all add: same_kv_def)
  have f2: "kv E c2 k' = kv E c k'" "out c2 = out c" "now_ms c2 = now_ms c" "cfg c2 = cfg c" "propagating c2 = propagating c" "prop_buf c2 = prop_buf c" for k'
    using s2 by (simp_all add: same_kv_def)
  have r: "(r, c') = (if ex then
       if \<not> cond_allows cond at when then (Inr (), int_out E 0 (propagate_none c2))
       else if when \<le> as_i64 (now_ms c2) then
         (Inr (), int_out E 1 (propagate_argv (ctx_notify E (snd (ctx_remove E c2 k)) GENERIC (ascii ''del'') k)
            [ascii (if cfg_lazyfree_lazy_expire (cfg c2) then ''UNLINK'' else ''DEL''), k]))
       else (Inr (), int_out E 1 (propagate_argv (ctx_notify E (snd (ctx_set_expire E c2 k (Some (nat when)))) GENERIC (ascii ''expire'') k)
            [ascii ''PEXPIREAT'', k, env_itoa E when]))
     else (Inr (), int_out E 0 (propagate_none c1)))"
    using assms x a unfolding expire_generic_def Let_def
    by (cases ex) (simp_all add: args_at_def i64_at_def nth_opt_def numeral_3_eq_3 cong: if_cong)
  show ?thesis
  proof (cases "kv E c k")
    case None
    then show ?thesis using r x'(1) f1 by simp
  next
    case (Some p)
    obtain v d where p: "p = (v, d)" by (rule prod.exhaust)
    then have d: "at = d" "ex" using Some at x'(1) by simp_all
    have rm: "kv E (snd (ctx_remove E c2 k)) k = None" "only_at E k c2 (snd (ctx_remove E c2 k))" by (rule ctx_remove_kv(2), rule ctx_remove_kv(3))
    have se: "kv E (snd (ctx_set_expire E c2 k (Some (nat when)))) k = if_live (now_ms c) (Some (v, Some (nat when)))"
      "only_at E k c2 (snd (ctx_set_expire E c2 k (Some (nat when))))"
      using ctx_set_expire_kv(2) [of E k c2 "Some (nat when)"] ctx_set_expire_kv(3) [of E c2 k "Some (nat when)"] Some p f2 by simp_all
    consider "\<not> cond_allows cond d when" | "cond_allows cond d when" "when \<le> as_i64 (now_ms c)" | "cond_allows cond d when" "\<not> when \<le> as_i64 (now_ms c)"
      by blast
    then show ?thesis
    proof cases
      case 1 then show ?thesis using r d Some p f2 by simp
    next
      case 2
      then show ?thesis using r d Some p f2 rm by (simp add: only_at_def)
    next
      case 3
      then show ?thesis using r d Some p f2 se by (simp add: only_at_def)
    qed
  qed
qed


lemma expire_when_bounds:
  assumes "expire_when now raw unit_ms absolute name = Inr when"
  shows "when \<le> 2 ^ 63 - 1"
  using assms by (auto simp: expire_when_def Let_def split: if_splits)

lemma no_conditions: "parse_expire_cond [nm, k, b] 3 = Inr CondAlways"
  by (simp add: parse_expire_cond_def)

lemma pexpireat_when: "when \<le> 2 ^ 63 - 1 \<Longrightarrow> expire_when now when True True name = Inr when"
  by (simp add: expire_when_def)

text \<open>How a server replays a command of the propagation stream of an expiry.\<close>

definition replay_expiry :: "env \<Rightarrow> ctx \<Rightarrow> bytes list \<Rightarrow> handler_result" where
  "replay_expiry E d argv = (if hd argv = ascii ''PEXPIREAT'' then cmd_pexpireat E d argv else cmd_del E d argv)"

lemma expire_replayed:
  assumes "env_ok E" and "expire_generic E c (nm # k # b # rest) unit_ms absolute name = (r, c')" and "string2ll b = Some raw"
    and "parse_expire_cond (nm # k # b # rest) 3 = Inr cond" and "expire_when (now_ms c) raw unit_ms absolute name = Inr when"
    and "propagating c" and "kv E c k = Some (v, at)" and "cond_allows cond at when"
    and "now_ms c \<le> now_ms d" and "now_ms d < 2 ^ 63" and "replay_expiry E d (List.last (prop_buf c')) = (r', d')"
  shows "r' = Inr () \<and> kv E d' k = if_live (now_ms d) (map_option (\<lambda>x. (fst x, Some (nat when))) (kv E d k))
    \<and> (\<forall>k'. k' \<noteq> k \<longrightarrow> kv E d' k' = kv E d k')"
proof -
  have itoa: "env_itoa E = decimal" using assms(1) by (auto simp: env_ok_def itoa_spec_def)
  note eff = expire_effect [OF assms(2-5)]
  have now: "as_i64 (now_ms c) = int (now_ms c)" "as_i64 (now_ms d) = int (now_ms d)" using assms(9,10) by (simp_all add: as_i64_def)
  show ?thesis
  proof (cases "when \<le> as_i64 (now_ms c)")
    case True
    then have "List.last (prop_buf c') = [ascii (if cfg_lazyfree_lazy_expire (cfg c) then ''UNLINK'' else ''DEL''), k]"
      using eff assms(6-8) by simp
    moreover have "ascii ''UNLINK'' \<noteq> ascii ''PEXPIREAT''" "ascii ''DEL'' \<noteq> ascii ''PEXPIREAT''" by (simp_all add: ascii_def)
    ultimately have "cmd_del E d [ascii (if cfg_lazyfree_lazy_expire (cfg c) then ''UNLINK'' else ''DEL''), k] = (r', d')"
      using assms(11) by (cases "cfg_lazyfree_lazy_expire (cfg c)") (simp_all add: replay_expiry_def)
    from del_effect [OF this] have "r' = Inr ()" "\<And>k'. kv E d' k' = (if k' = k then None else kv E d k')" by simp_all
    moreover have "\<not> now_ms d < nat when" using True now(1) assms(9) by linarith
    ultimately show ?thesis by (auto simp: if_live_def live_def split: option.split)
  next
    case False
    then have "List.last (prop_buf c') = [ascii ''PEXPIREAT'', k, env_itoa E when]" using eff assms(6-8) by simp
    then have p: "expire_generic E d (ascii ''PEXPIREAT'' # k # env_itoa E when # []) True True (ascii ''pexpireat'') = (r', d')"
      using assms(11) by (simp add: replay_expiry_def cmd_pexpireat_def)
    have w: "when \<le> 2 ^ 63 - 1" "0 < when" using expire_when_bounds [OF assms(5)] False now(1) by auto
    then have "string2ll (env_itoa E when) = Some when" by (simp add: itoa string2ll_Some_iff fits_def)
    from expire_effect [OF p this no_conditions pexpireat_when [OF w(1)]] show ?thesis
      using now(2) by (cases "kv E d k") (auto simp: if_live_def live_def split: if_splits)
  qed
qed

lemma xx_gt_parse: "parse_expire_cond [nm, k, b, ascii ''XX'', ascii ''GT''] 3 = Inr CondXx"
  by (simp add: parse_expire_cond_def is_kw_def eq_ignore_ascii_case_def ascii_def to_ascii_lowercase_def numeral_3_eq_3)


subsection \<open>The frame of a DUMP payload\<close>

lemma verify_dump_sealed: "0 \<le> v \<Longrightarrow> v \<le> DUMP_RDB_VERSION \<Longrightarrow>
    verify_dump (body @ le_bytes 2 v @ le_bytes 8 (uint (digest (body @ le_bytes 2 v)))) = Some body"
proof -
  assume v: "0 \<le> v" "v \<le> DUMP_RDB_VERSION"
  let ?crc = "le_bytes 8 (uint (digest (body @ le_bytes 2 v)))"
  let ?buf = "body @ le_bytes 2 v @ ?crc"
  have "le_val (le_bytes 2 v) = v" using v by (intro le_val_le_bytes_small) (simp_all add: DUMP_RDB_VERSION_def)
  moreover have "le_val ?crc = uint (digest (body @ le_bytes 2 v))"
    using uint_lt2p [of "digest (body @ le_bytes 2 v)"] by (intro le_val_le_bytes_small) simp_all
  moreover have "take (length ?buf - 8) ?buf = body @ le_bytes 2 v" by simp
  ultimately show ?thesis using v by (simp add: verify_dump_def DUMP_FOOTER_LEN_def Let_def)
qed

lemma verify_dump_accepts:
  assumes "verify_dump buf = Some body"
  shows "\<exists>v. 0 \<le> v \<and> v \<le> DUMP_RDB_VERSION \<and> buf = body @ le_bytes 2 v @ le_bytes 8 (uint (digest (body @ le_bytes 2 v)))"
proof -
  let ?split = "length buf - 10"
  have len: "10 \<le> length buf" and body: "body = take ?split buf" and v: "le_val (take 2 (drop ?split buf)) \<le> DUMP_RDB_VERSION"
    and crc: "le_val (take 8 (drop 2 (drop ?split buf))) = uint (digest (take (length buf - 8) buf))"
    using assms by (auto simp: verify_dump_def DUMP_FOOTER_LEN_def Let_def split: if_splits)
  let ?vb = "take 2 (drop ?split buf)" and ?cb = "drop 2 (drop ?split buf)"
  have vb: "le_bytes 2 (le_val ?vb) = ?vb" using le_bytes_le_val [of ?vb] len by simp
  have cb: "take 8 ?cb = ?cb" "length ?cb = 8" using len by simp_all
  have cl: "le_bytes 8 (le_val ?cb) = ?cb" using le_bytes_le_val [of ?cb] cb(2) by simp
  have parts: "buf = body @ ?vb @ ?cb" using body by (metis append_take_drop_id)
  have "take (length buf - 8) buf = body @ ?vb"
  proof -
    have "length buf - 8 = ?split + 2" using len by simp
    then show ?thesis using body by (simp only: take_add)
  qed
  then have "le_val ?cb = uint (digest (body @ ?vb))" using crc by (simp only: cb(1))
  then show ?thesis using v vb cl parts by (intro exI [of _ "le_val ?vb"]) (simp only: le_val_nonneg simp_thms)
qed

subsection \<open>The handlers as the engine runs them\<close>

lemma entries_shape [simp]:
  "shape (snd (take_entry E c k n)) = shape c" "shape (put_entry E c k e n) = shape c" "shape (signal_db_watch E c k n) = shape c"
  "shape (set_lru_raw E c k v) = shape c" "shape (int_out E i c) = shape c" "shape (c\<lparr>published := p\<rparr>) = shape c"
  "shape (snd (ctx_type_name E c k)) = shape c" "shape (snd (with_entry E c k g)) = shape c"
proof -
  obtain b c1 where x: "ctx_exists E c k = (b, c1)" by (rule prod.exhaust)
  then have "shape c1 = shape c" using ops_shape(3) [of E c k] by simp
  then show "shape (snd (with_entry E c k g)) = shape c" by (simp add: with_entry_def x split: bool.split)
  obtain t c2 where l: "lookup_read E c k = (t, c2)" by (rule prod.exhaust)
  then have "shape c2 = shape c" using ops_shape(1) [of E c k] by simp
  then show "shape (snd (ctx_type_name E c k)) = shape c" by (simp add: ctx_type_name_def l)
qed (simp_all add: take_entry_def put_entry_def signal_db_watch_def set_lru_raw_def int_out_def with_out_def Let_def shape_def [of "c\<lparr>published := p\<rparr>"] shape_def [of c])


lemma loops_keep [simp]:
  "shape (snd (del_loop E c ks n)) = shape c" "shape (snd (exists_loop E c ks n)) = shape c" "shape (snd (touch_loop E c ks n)) = shape c"
  "conn (snd (del_loop E c ks n)) = conn c" "conn (snd (exists_loop E c ks n)) = conn c" "conn (snd (touch_loop E c ks n)) = conn c"
  by (induction ks arbitrary: c n) (simp_all add: case_prod_beta split: bool.split)

lemma entries_conn [simp]:
  "conn (snd (take_entry E c k n)) = conn c" "conn (put_entry E c k e n) = conn c" "conn (signal_db_watch E c k n) = conn c"
  "conn (set_lru_raw E c k v) = conn c" "conn (c\<lparr>published := p\<rparr>) = conn c" "conn (snd (ctx_type_name E c k)) = conn c" "conn (snd (with_entry E c k g)) = conn c"
proof -
  obtain b c1 where x: "ctx_exists E c k = (b, c1)" by (rule prod.exhaust)
  then have "conn c1 = conn c" using lookups_conn(3) [of E c k] by simp
  then show "conn (snd (with_entry E c k g)) = conn c" by (simp add: with_entry_def x split: bool.split)
  obtain t c2 where l: "lookup_read E c k = (t, c2)" by (rule prod.exhaust)
  then have "conn c2 = conn c" using lookups_conn(1) [of E c k] by simp
  then show "conn (snd (ctx_type_name E c k)) = conn c" by (simp add: ctx_type_name_def l)
qed (simp_all add: take_entry_def put_entry_def signal_db_watch_def set_lru_raw_def Let_def, simp add: conn_def)

lemma grows_entries [append_intros]:
  "grows c c1 \<Longrightarrow> grows c (snd (take_entry E c1 k n))" "grows c c1 \<Longrightarrow> grows c (put_entry E c1 k e n)"
  "grows c c1 \<Longrightarrow> grows c (signal_db_watch E c1 k n)" "grows c c1 \<Longrightarrow> grows c (set_lru_raw E c1 k v)"
  "grows c c1 \<Longrightarrow> grows c (c1\<lparr>published := p\<rparr>)" "grows c c1 \<Longrightarrow> grows c (snd (ctx_type_name E c1 k))"
  "grows c c1 \<Longrightarrow> grows c (snd (with_entry E c1 k g))" "grows c c1 \<Longrightarrow> grows c (snd (del_loop E c1 ks i))"
  "grows c c1 \<Longrightarrow> grows c (snd (exists_loop E c1 ks i))" "grows c c1 \<Longrightarrow> grows c (snd (touch_loop E c1 ks i))"
  by (rule grows_conn; simp)+

lemma grows_int_out [append_intros]: "grows c c1 \<Longrightarrow> grows c (int_out E v c1)"
  unfolding int_out_def by (rule grows_with_out [OF appending_replies(3)])


interpretation del_cmd: command_handler cmd_del
  by unfold_locales (auto simp: cmd_del_def case_prod_beta intro!: append_intros)

interpretation exists_cmd: command_handler cmd_exists
  by unfold_locales (auto simp: cmd_exists_def case_prod_beta intro!: append_intros)

interpretation touch_cmd: command_handler cmd_touch
  by unfold_locales (auto simp: cmd_touch_def case_prod_beta intro!: append_intros)

interpretation type_cmd: command_handler cmd_type
  by unfold_locales (auto simp: cmd_type_def case_prod_beta intro!: append_intros split: sum.split)

interpretation ttl_cmd: command_handler "\<lambda>E c a. ttl_generic E c a millis"
  by unfold_locales (auto simp: ttl_generic_def case_prod_beta Let_def intro!: append_intros split: sum.split bool.split option.split)

interpretation expiretime_cmd: command_handler "\<lambda>E c a. expiretime_generic E c a millis"
  by unfold_locales (auto simp: expiretime_generic_def case_prod_beta Let_def intro!: append_intros split: sum.split bool.split option.split)

interpretation persist_cmd: command_handler cmd_persist
  by unfold_locales (auto simp: cmd_persist_def case_prod_beta Let_def intro!: append_intros split: sum.split bool.split option.split)

interpretation expire_cmd: command_handler "\<lambda>E c a. expire_generic E c a unit_ms absolute name"
  by unfold_locales (auto simp: expire_generic_def case_prod_beta Let_def intro!: append_intros split: sum.split bool.split)

interpretation rename_cmd: command_handler "\<lambda>E c a. rename_generic E c a nx"
  by unfold_locales (auto simp: rename_generic_def case_prod_beta Let_def intro!: append_intros split: sum.split bool.split option.split)

interpretation move_cmd: command_handler cmd_move
  by unfold_locales (auto simp: cmd_move_def case_prod_beta Let_def intro!: append_intros split: sum.split bool.split option.split)

interpretation copy_cmd: command_handler "cmd_copy codec"
  by unfold_locales (auto simp: cmd_copy_def case_prod_beta Let_def intro!: append_intros split: sum.split bool.split option.split)

interpretation dump_cmd: command_handler "cmd_dump codec"
  by unfold_locales (auto simp: cmd_dump_def case_prod_beta Let_def intro!: append_intros split: sum.split option.split)

interpretation restore_cmd: command_handler "cmd_restore codec"
  by unfold_locales (auto simp: cmd_restore_def case_prod_beta Let_def intro!: append_intros split: sum.split option.split)


lemma appending_lines: "appending f \<Longrightarrow> appending (\<lambda>w. fold (\<lambda>l w. reply_simple w l) ls (f w))"
proof (induction ls arbitrary: f)
  case (Cons l ls)
  have "appending (\<lambda>w. reply_simple (f w) l)" using Cons.prems by (simp add: appending_def reply_simple_def)
  from Cons.IH [OF this] show ?case by simp
qed simp

interpretation object_cmd: command_handler cmd_object
proof unfold_locales
  fix E c args
  show "shape (snd (cmd_object E c args)) = shape c"
    by (auto simp: cmd_object_def object_reply_def case_prod_beta Let_def split: sum.split option.split)
  show "grows c (snd (cmd_object E c args))"
    by (auto simp: cmd_object_def object_reply_def case_prod_beta Let_def intro!: append_intros appending_lines split: sum.split option.split)
qed

subsection \<open>A concrete keyspace\<close>

definition demo_stored :: "nat \<Rightarrow> ctx" where
  "demo_stored t = ctx_insert demo_env (demo_ctx t) [107] (RStr (StrInt 7)) None"

lemma demo_stored_kv: "kv demo_env (demo_stored t) [107] = Some (RStr (StrInt 7), None)" "k \<noteq> [107] \<Longrightarrow> kv demo_env (demo_stored t) k = None"
  "reach demo_env (demo_stored t) k" "now_ms (demo_stored t) = t" "propagating (demo_stored t)"
  using ctx_insert_live [OF demo_reach, of t "[107]" "RStr (StrInt 7)" None] ctx_insert_kv(1) [of demo_env "[107]" "demo_ctx t" "RStr (StrInt 7)" None]
    demo_kv [of t k] demo_reach [of t k]
  by (simp_all add: demo_stored_def live_def only_at_def demo_ctx_def [THEN arg_cong, of propagating])

text \<open>Two databases, the key stored in the first.\<close>

definition demo_two :: ctx where
  "demo_two = ctx_insert demo_env ((demo_ctx 5)\<lparr>srv_map := shard_map_new 1 2, shards := lock_all (shard_map_new 1 2)\<rparr>) [107] (RStr (StrInt 7)) None"

lemma demo_two_dbs:
  fixes c0 :: ctx
  defines "c0 \<equiv> (demo_ctx 5)\<lparr>srv_map := shard_map_new 1 2, shards := lock_all (shard_map_new 1 2)\<rparr>"
  shows "n < 2 \<Longrightarrow> ctx_db_at demo_env c0 k n = Some (db_new n)"
proof -
  have m: "shard_map_new 1 2 = \<lparr>sm_shards = [\<lparr>h_shard = shard_new 0 2, h_dirty = 0, h_keys = 0, h_expires = 0, h_mem = 0\<rparr>], sm_mask = 0, sm_databases = 2\<rparr>"
    by (simp add: shard_map_new_def Let_def next_power_of_two.simps numeral_2_eq_2)
  assume "n < 2"
  then show ?thesis
    by (simp add: c0_def m [unfolded One_nat_def] ctx_db_at_def ctx_shard_def for_key_def guard_shard_def key_shard_index_def lock_all_def sm_len_def shard_db_def shard_new_def nth_opt_def)
qed

lemma elsewhere_insert: "elsewhere E c (ctx_insert E c k r at)"
  using elsewhere_trans [OF elsewhere_upd(2) elsewhere_trans [OF elsewhere_map(2) elsewhere_map(1)]] by (simp add: ctx_insert_def Let_def)

lemma demo_two_kv:
  "kv demo_env demo_two [107] = Some (RStr (StrInt 7), None)" "kv_at demo_env demo_two 1 [107] = None" "reach_at demo_env demo_two 1 [107]"
  "move_target demo_two (ascii ''1'') 1"
proof -
  let ?c0 = "(demo_ctx 5)\<lparr>srv_map := shard_map_new 1 2, shards := lock_all (shard_map_new 1 2)\<rparr>"
  have db: "client_db ?c0 = 0" by (simp add: demo_ctx_def client_new_def)
  have "reach demo_env ?c0 [107]" using demo_two_dbs [of 0 "[107]"] own_view(3) [of demo_env ?c0 "[107]"] db by (simp add: reach_at_def)
  from ctx_insert_live [OF this, of "RStr (StrInt 7)" None] show "kv demo_env demo_two [107] = Some (RStr (StrInt 7), None)"
    by (simp add: demo_two_def live_def)
  have e: "elsewhere demo_env ?c0 demo_two" unfolding demo_two_def by (rule elsewhere_insert)
  then show "reach_at demo_env demo_two 1 [107]" using demo_two_dbs [of 1 "[107]"] by (simp add: elsewhere_def reach_at_def)
  have "view_at demo_env demo_two 1 [107] = None"
    using e db demo_two_dbs [of 1 "[107]"] by (simp add: elsewhere_def view_at_def db_lookup_def db_new_def)
  then show "kv_at demo_env demo_two 1 [107] = None" by (simp add: kv_at_def if_live_def)
  have "srv_map demo_two = shard_map_new 1 2" by (simp add: demo_two_def ctx_insert_def Let_def bump_shard_dirty_def)
  moreover have "string2ll (ascii ''1'') = Some 1" by (simp add: string2ll_Some_iff fits_def decimal_def digits.simps ascii_def)
  moreover have "client demo_two = client ?c0" using e by (simp add: elsewhere_def)
  ultimately show "move_target demo_two (ascii ''1'') 1" using db by (simp add: move_target_def as_i64_def shard_map_new_def Let_def)
qed

subsection \<open>Properties\<close>



text \<open>C27. \<^verbatim>\<open>RENAME\<close> and \<^verbatim>\<open>RENAMENX\<close> on every branch: a missing source is an error that changes nothing; renaming
  a key to itself, and \<^verbatim>\<open>RENAMENX\<close> onto a live key, change nothing and are not propagated; otherwise
  the destination holds the value and the deadline of the source, whatever it held before, the source is
  gone, and no other key changes.\<close>

theorem rename_correct:
  assumes "rename_generic E c (nm # src # dst # rest) nx = (r, c')" and "reach E c dst"
  shows "if kv E c src = None then r = Inl NoSuchKey \<and> same_kv E c c'
    else r = Inr () \<and>
      (if src = dst \<or> (nx \<and> kv E c dst \<noteq> None)
       then (\<forall>k. kv E c' k = kv E c k) \<and> prop_kind c' = PropSuppressed \<and> out c' = yes_no E nx False (out c)
       else (\<forall>k. kv E c' k = (if k = dst then kv E c src else if k = src then None else kv E c k)) \<and> prop_kind c' = prop_kind c
         \<and> out c' = yes_no E nx True (out c))"
  by (rule rename_effect [OF assms])

theorem rename_correct_witness:
  "kv demo_env (snd (cmd_rename demo_env (demo_stored 5) [ascii ''rename'', [107], [108]])) [108] = Some (RStr (StrInt 7), None)"
  using rename_correct [where nm = "ascii ''rename''" and rest = "[]" and nx = False and src = "[107]" and dst = "[108]", OF surjective_pairing demo_stored_kv(3)]
  by (simp add: cmd_rename_def demo_stored_kv)

text \<open>C28. \<^verbatim>\<open>MOVE\<close> across databases: unless the key is missing or live in the target (then nothing changes and
  nothing is propagated), the target database holds the value with its deadline, the client's
  database does not, and every other key of every database is unchanged.\<close>

theorem move_correct:
  assumes "cmd_move E c [nm, k, b] = (r, c')" and "move_target c b m" and "reach_at E c m k"
  shows "r = Inr () \<and>
    (if kv E c k = None \<or> kv_at E c m k \<noteq> None
     then (\<forall>n k'. kv_at E c' n k' = kv_at E c n k') \<and> prop_kind c' = PropSuppressed \<and> out c' = reply_int (env_itoa E) (out c) 0
     else (\<forall>n k'. kv_at E c' n k' = (if n = m \<and> k' = k then kv E c k else if n = client_db c \<and> k' = k then None else kv_at E c n k'))
       \<and> prop_kind c' = prop_kind c \<and> out c' = reply_int (env_itoa E) (out c) 1)"
  by (rule move_effect [OF assms])

theorem move_correct_witness:
  "kv_at demo_env (snd (cmd_move demo_env demo_two [ascii ''move'', [107], ascii ''1''])) 1 [107] = Some (RStr (StrInt 7), None)"
  using move_correct [where nm = "ascii ''move''", OF surjective_pairing demo_two_kv(4,3)] demo_two_kv(1,2) by simp

text \<open>C29. A \<^verbatim>\<open>DUMP\<close> payload is accepted by \<^verbatim>\<open>RESTORE\<close> exactly when it is a value followed by a version of at
  most 11 and the CRC64 of everything before; then the value is what is restored. In
  particular every sealed payload is accepted and gives its value back.\<close>

theorem dump_frame_iff:
  "verify_dump buf = Some body \<longleftrightarrow>
     (\<exists>v. 0 \<le> v \<and> v \<le> DUMP_RDB_VERSION \<and> buf = body @ le_bytes 2 v @ le_bytes 8 (uint (digest (body @ le_bytes 2 v))))"
  using verify_dump_accepts verify_dump_sealed by blast

text \<open>\<^verbatim>\<open>EXPIRE\<close> with \<^verbatim>\<open>XX\<close> and \<^verbatim>\<open>GT\<close> drops the \<^verbatim>\<open>GT\<close>: an earlier deadline replaces a later one.\<close>

lemma expire_xx_gt_shortens:
  assumes "expire_generic E c [nm, k, b, ascii ''XX'', ascii ''GT''] unit_ms absolute name = (r, c')" and "string2ll b = Some raw"
    and "expire_when (now_ms c) raw unit_ms absolute name = Inr when" and "kv E c k = Some (v, Some at)" and "when < int at"
    and "int (now_ms c) < when" and "now_ms c < 2 ^ 63"
  shows "kv E c' k = Some (v, Some (nat when))"
  using expire_effect [OF assms(1,2) xx_gt_parse assms(3)] assms(4-7) by (simp add: as_i64_def if_live_def live_def)

end
