(* ===== verification/Output.thy ===== *)
theory Output
  imports Prelude
begin

text \<open>
  The output buffer of a connection, \<^verbatim>\<open>src/src/net/output.rs\<close>: replies are staged, sealed into frames and written out
  with partial and vectored writes. The socket is not under the sources: a write is offered some bytes and the
  schedule of writes says how many it takes, which is never more than it was offered, or that it fails
  (\<open>None\<close>). Buffer capacities, which only the allocator sees, are left out; so is \<^verbatim>\<open>memory_usage\<close>, which sums them.
\<close>

subsection \<open>Limits\<close>

definition MAX_IOVECS :: nat where "MAX_IOVECS = 64"

definition VECTORED_MIN_BYTES :: nat where "VECTORED_MIN_BYTES = 2048"

datatype client_class = ClassNormal | ClassPubSub | ClassReplica

record class_limit =
  lim_hard :: nat
  lim_soft :: nat
  lim_soft_seconds :: nat

definition UNLIMITED :: class_limit where
  "UNLIMITED = \<lparr>lim_hard = 0, lim_soft = 0, lim_soft_seconds = 0\<rparr>"

record output_limits =
  ol_normal :: class_limit
  ol_pubsub :: class_limit
  ol_replica :: class_limit

definition output_limits_default :: output_limits where
  "output_limits_default =
     \<lparr>ol_normal = UNLIMITED,
      ol_pubsub = \<lparr>lim_hard = 32 * 2 ^ 20, lim_soft = 8 * 2 ^ 20, lim_soft_seconds = 60\<rparr>,
      ol_replica = \<lparr>lim_hard = 256 * 2 ^ 20, lim_soft = 64 * 2 ^ 20, lim_soft_seconds = 60\<rparr>\<rparr>"

fun for_class :: "output_limits \<Rightarrow> client_class \<Rightarrow> class_limit" where
  "for_class l ClassNormal = ol_normal l"
| "for_class l ClassPubSub = ol_pubsub l"
| "for_class l ClassReplica = ol_replica l"

datatype limit_breach = BreachHard | BreachSoft

subsection \<open>The buffer\<close>

record output_buffer =
  staging :: bytes
  queued :: "bytes list"
  queued_bytes :: nat
  head_off :: nat
  peak_pending :: nat
  soft_limit_since_ms :: "nat option"

definition output_new :: output_buffer where
  "output_new = \<lparr>staging = [], queued = [], queued_bytes = 0, head_off = 0, peak_pending = 0, soft_limit_since_ms = None\<rparr>"

text \<open>\<^verbatim>\<open>pending\<close> subtracts the written part of the head frame from the frames' total, which is never less.\<close>

definition pending :: "output_buffer \<Rightarrow> nat" where
  "pending b = length (staging b) + queued_bytes b - head_off b"

definition output_is_empty :: "output_buffer \<Rightarrow> bool" where
  "output_is_empty b \<longleftrightarrow> pending b = 0"

definition queued_frames :: "output_buffer \<Rightarrow> nat" where
  "queued_frames b = length (queued b)"

definition seal :: "output_buffer \<Rightarrow> output_buffer" where
  "seal b =
     (if staging b \<noteq> []
      then b\<lparr>staging := [], queued_bytes := queued_bytes b + length (staging b), queued := queued b @ [staging b]\<rparr>
      else b)"

definition should_queue :: "nat \<Rightarrow> bool" where
  "should_queue n \<longleftrightarrow> n \<ge> VECTORED_MIN_BYTES"

definition note_pending :: "output_buffer \<Rightarrow> output_buffer" where
  "note_pending b = (if pending b > peak_pending b then b\<lparr>peak_pending := pending b\<rparr> else b)"

definition push_bytes :: "output_buffer \<Rightarrow> bytes \<Rightarrow> output_buffer" where
  "push_bytes b f =
     (if f = [] then b
      else (let b = seal b in note_pending (b\<lparr>queued_bytes := queued_bytes b + length f, queued := queued b @ [f]\<rparr>)))"

definition check_limit :: "output_buffer \<Rightarrow> class_limit \<Rightarrow> nat \<Rightarrow> limit_breach option \<times> output_buffer" where
  "check_limit b lim now =
     (if lim_hard lim > 0 \<and> pending b > lim_hard lim then (Some BreachHard, b)
      else if lim_soft lim > 0 \<and> pending b > lim_soft lim then
        (case soft_limit_since_ms b of
           None \<Rightarrow> (None, b\<lparr>soft_limit_since_ms := Some now\<rparr>)
         | Some since \<Rightarrow>
             if now - since \<ge> min (lim_soft_seconds lim * 1000) (2 ^ 64 - 1) then (Some BreachSoft, b) else (None, b))
      else (None, b\<lparr>soft_limit_since_ms := None\<rparr>))"

definition discard :: "output_buffer \<Rightarrow> output_buffer" where
  "discard b = b\<lparr>staging := [], queued := [], queued_bytes := 0, head_off := 0\<rparr>"

subsection \<open>Writing\<close>

text \<open>The slices of one vectored write: the rest of the head frame, then whole frames up to the limit. The loop stops
  before the frame that would be one too many and skips empty ones.\<close>

fun more_slices :: "bytes list \<Rightarrow> bytes list \<Rightarrow> bytes list" where
  "more_slices [] slices = slices"
| "more_slices (f # fs) slices =
     (if length slices = MAX_IOVECS then slices else more_slices fs (if f \<noteq> [] then slices @ [f] else slices))"

text \<open>What one write offers to the socket, which can take vectored writes or not.\<close>

definition offered :: "bool \<Rightarrow> output_buffer \<Rightarrow> bytes" where
  "offered vectored b =
     (case queued b of
        [] \<Rightarrow> []
      | f # fs \<Rightarrow>
          (let head = (case slice_get f (head_off b) (length f) of Some h \<Rightarrow> h | None \<Rightarrow> []) in
           if length (queued b) = 1 \<or> \<not> vectored then head else concat (more_slices fs [head])))"

function advance :: "output_buffer \<Rightarrow> nat \<Rightarrow> output_buffer" where
  "advance b n =
     (if n > 0 then
        (case queued b of
           [] \<Rightarrow> b
         | f # fs \<Rightarrow>
             (let left = length f - head_off b in
              if n < left then b\<lparr>head_off := head_off b + n\<rparr>
              else advance (b\<lparr>queued_bytes := queued_bytes b - length f, queued := fs, head_off := 0\<rparr>) (n - left)))
      else b)"
  by pat_completeness auto
termination
  by (relation "measure (\<lambda>(b, n). length (queued b))") auto

declare advance.simps [simp del]

datatype flush_error = WriteFailed | WriteZero

text \<open>The loop of \<^verbatim>\<open>flush\<close> under a schedule of writes (how many bytes the socket is ready to take, or a failure): the
  bytes written, the result and the buffer. The loop is left waiting, \<open>None\<close>, when the schedule ends.\<close>

fun flush_loop :: "bool \<Rightarrow> nat option list \<Rightarrow> output_buffer \<Rightarrow> bytes \<Rightarrow> ((flush_error + nat) \<times> output_buffer \<times> bytes) option" where
  "flush_loop vectored sched b sent =
     (if queued b = [] then Some (Inr (length sent), b\<lparr>head_off := 0, queued_bytes := 0\<rparr>, sent)
      else (case sched of
              [] \<Rightarrow> None
            | None # _ \<Rightarrow> Some (Inl WriteFailed, b, sent)
            | Some k # rest \<Rightarrow>
                (let n = min k (length (offered vectored b)) in
                 if n = 0 then Some (Inl WriteZero, b, sent)
                 else flush_loop vectored rest (advance b n) (sent @ take n (offered vectored b)))))"

declare flush_loop.simps [simp del]

definition flush_out :: "bool \<Rightarrow> nat option list \<Rightarrow> output_buffer \<Rightarrow> ((flush_error + nat) \<times> output_buffer \<times> bytes) option" where
  "flush_out vectored sched b = flush_loop vectored sched (seal (note_pending b)) []"

subsection \<open>No byte is lost, repeated or reordered\<close>

definition out_bytes :: "output_buffer \<Rightarrow> bytes" where
  "out_bytes b = drop (head_off b) (concat (queued b)) @ staging b"

definition out_inv :: "output_buffer \<Rightarrow> bool" where
  "out_inv b \<longleftrightarrow> queued_bytes b = length (concat (queued b)) \<and> [] \<notin> set (queued b)
     \<and> (if queued b = [] then head_off b = 0 else head_off b < length (hd (queued b)))"

lemma head_off_le: "out_inv b \<Longrightarrow> head_off b \<le> length (concat (queued b))"
  by (cases "queued b") (auto simp: out_inv_def)

lemma pending_out_bytes: "out_inv b \<Longrightarrow> pending b = length (out_bytes b)"
  using head_off_le [of b] by (simp add: pending_def out_bytes_def) (simp add: out_inv_def)

lemma out_inv_new: "out_inv output_new" "out_bytes output_new = []"
  by (simp_all add: out_inv_def out_bytes_def output_new_def)

lemma out_inv_stage: "out_inv b \<Longrightarrow> out_inv (b\<lparr>staging := s\<rparr>)"
  by (simp add: out_inv_def)

lemma seal_inv: "out_inv b \<Longrightarrow> out_inv (seal b) \<and> out_bytes (seal b) = out_bytes b \<and> staging (seal b) = []"
  using head_off_le [of b] by (auto simp: seal_def out_inv_def out_bytes_def hd_append)

lemma note_pending_inv: "out_inv (note_pending b) = out_inv b" "out_bytes (note_pending b) = out_bytes b" "staging (note_pending b) = staging b"
  by (simp_all add: note_pending_def out_inv_def out_bytes_def)

lemma push_bytes_inv: "out_inv b \<Longrightarrow> out_inv (push_bytes b f) \<and> out_bytes (push_bytes b f) = out_bytes b @ f"
proof -
  assume "out_inv b"
  then have s: "out_inv (seal b)" "out_bytes (seal b) = out_bytes b" "staging (seal b) = []" using seal_inv by auto
  have "out_inv ((seal b)\<lparr>queued_bytes := queued_bytes (seal b) + length f, queued := queued (seal b) @ [f]\<rparr>)
    \<and> out_bytes ((seal b)\<lparr>queued_bytes := queued_bytes (seal b) + length f, queued := queued (seal b) @ [f]\<rparr>) = out_bytes b @ f" if "f \<noteq> []"
    using that s head_off_le [OF s(1)] by (auto simp: out_inv_def out_bytes_def hd_append)
  then show ?thesis using \<open>out_inv b\<close> by (auto simp: push_bytes_def Let_def note_pending_inv)
qed

lemma discard_inv: "out_inv (discard b)" "out_bytes (discard b) = []"
  by (simp_all add: discard_def out_inv_def out_bytes_def)

lemma check_limit_inv: "check_limit b lim now = (r, b') \<Longrightarrow> out_inv b' = out_inv b \<and> out_bytes b' = out_bytes b"
  by (auto simp: check_limit_def out_inv_def out_bytes_def split: if_splits option.splits)

lemma advance_inv:
  "out_inv b \<Longrightarrow> staging b = [] \<Longrightarrow> n \<le> length (out_bytes b) \<Longrightarrow>
   out_inv (advance b n) \<and> out_bytes (advance b n) = drop n (out_bytes b) \<and> staging (advance b n) = []"
proof (induction "queued b" arbitrary: b n)
  case Nil
  then show ?case by (subst (1 2 3) advance.simps) (simp add: out_bytes_def)
next
  case (Cons f fs)
  note q = Cons.hyps(2) [symmetric]
  have h: "head_off b < length f" using Cons.prems(1) q by (simp add: out_inv_def)
  let ?b = "b\<lparr>queued_bytes := queued_bytes b - length f, queued := fs, head_off := 0\<rparr>"
  have b: "out_inv ?b" "staging ?b = []" "out_bytes b = drop (head_off b) f @ out_bytes ?b"
    using Cons.prems(1,2) q h by (cases fs; auto simp: out_inv_def out_bytes_def)+
  consider "n = 0" | "0 < n" "n < length f - head_off b" | "0 < n" "length f - head_off b \<le> n" by linarith
  then show ?case
  proof cases
    case 1 then show ?thesis using Cons.prems by (subst (1 2 3) advance.simps) simp
  next
    case 2
    then have a: "advance b n = b\<lparr>head_off := head_off b + n\<rparr>" by (subst advance.simps) (simp add: q Let_def)
    show ?thesis unfolding a using 2 Cons.prems q h by (auto simp: out_inv_def out_bytes_def add.commute)
  next
    case 3
    then have a: "advance b n = advance ?b (n - (length f - head_off b))" by (subst advance.simps) (simp add: q Let_def)
    have "n - (length f - head_off b) \<le> length (out_bytes ?b)" using Cons.prems(3) b(3) by simp
    from Cons.hyps(1) [OF _ b(1,2) this] show ?thesis unfolding a using b(3) 3 h by simp
  qed
qed

lemma more_slices_prefix: "\<exists>k. concat (more_slices fs ss) = concat ss @ concat (take k fs)"
proof (induction fs ss rule: more_slices.induct)
  case (2 f fs ss)
  show ?case
  proof (cases "length ss = MAX_IOVECS")
    case True then show ?thesis by (auto intro: exI [of _ 0])
  next
    case False
    with 2 obtain k where "concat (more_slices fs (if f \<noteq> [] then ss @ [f] else ss)) = concat (if f \<noteq> [] then ss @ [f] else ss) @ concat (take k fs)" by blast
    then show ?thesis using False by (intro exI [of _ "Suc k"]) auto
  qed
qed simp

lemma offered_prefix:
  assumes "out_inv b" "staging b = []"
  shows "\<exists>rest. out_bytes b = offered vectored b @ rest"
proof (cases "queued b")
  case (Cons f fs)
  have h: "head_off b < length f" using assms(1) Cons by (simp add: out_inv_def)
  have s: "slice_get f (head_off b) (length f) = Some (drop (head_off b) f)" using h by (simp add: slice_get_def)
  have o': "out_bytes b = drop (head_off b) f @ concat fs" using assms(2) Cons h by (simp add: out_bytes_def)
  obtain k where k: "concat (more_slices fs [drop (head_off b) f]) = drop (head_off b) f @ concat (take k fs)"
    using more_slices_prefix [of fs "[drop (head_off b) f]"] by auto
  have "concat fs = concat (take k fs) @ concat (drop k fs)" by (simp flip: concat_append)
  then show ?thesis using o' s k by (auto simp: offered_def Cons Let_def)
qed (simp add: offered_def)

lemma offered_ne:
  assumes "out_inv b" "queued b \<noteq> []" shows "offered vectored b \<noteq> []"
proof -
  obtain f fs where q: "queued b = f # fs" using assms(2) by (cases "queued b") auto
  then have h: "head_off b < length f" using assms(1) by (simp add: out_inv_def)
  obtain k where "concat (more_slices fs [drop (head_off b) f]) = drop (head_off b) f @ concat (take k fs)"
    using more_slices_prefix [of fs "[drop (head_off b) f]"] by auto
  then have "concat (more_slices fs [drop (head_off b) f]) \<noteq> []" using h by simp
  then show ?thesis using h by (simp add: offered_def q slice_get_def Let_def del: concat_eq_Nil_conv Nil_eq_concat_conv)
qed

lemma flush_loop_inv:
  "flush_loop vectored sched b sent = Some (r, b', sent') \<Longrightarrow> out_inv b \<Longrightarrow> staging b = [] \<Longrightarrow>
   out_inv b' \<and> staging b' = [] \<and> sent' @ out_bytes b' = sent @ out_bytes b \<and> (\<forall>n. r = Inr n \<longrightarrow> n = length sent' \<and> out_bytes b' = [])"
proof (induction sched arbitrary: b sent)
  case Nil
  then show ?case by (subst (asm) flush_loop.simps) (auto simp: out_inv_def out_bytes_def split: if_splits)
next
  case (Cons k sched)
  show ?case
  proof (cases "queued b = []")
    case True
    then show ?thesis using Cons.prems by (subst (asm) flush_loop.simps) (auto simp: out_inv_def out_bytes_def)
  next
    case False
    let ?o = "offered vectored b"
    obtain rest where o': "out_bytes b = ?o @ rest" using offered_prefix [OF Cons.prems(2,3)] by blast
    have stop: ?thesis if "b' = b" "sent' = sent" "isl r" using that Cons.prems by (cases r) auto
    show ?thesis
    proof (cases k)
      case None
      then have "b' = b \<and> sent' = sent \<and> isl r" using Cons.prems(1) False by (subst (asm) flush_loop.simps) auto
      then show ?thesis using stop by blast
    next
      case (Some m)
      let ?n = "min m (length ?o)"
      have "?n \<le> length (out_bytes b)" using o' by simp
      note a = advance_inv [OF Cons.prems(2,3) this]
      have "take ?n ?o @ drop ?n (out_bytes b) = out_bytes b" unfolding o' by simp
      moreover have "?n = 0 \<and> b' = b \<and> sent' = sent \<and> isl r \<or> flush_loop vectored sched (advance b ?n) (sent @ take ?n ?o) = Some (r, b', sent')"
        using Cons.prems(1) False Some by (subst (asm) flush_loop.simps) (auto simp: Let_def split: if_splits)
      ultimately show ?thesis using Cons.IH [of "advance b ?n" "sent @ take ?n ?o"] a stop by auto
    qed
  qed
qed

lemma flush_loop_progress:
  "out_inv b \<Longrightarrow> staging b = [] \<Longrightarrow> \<forall>k \<in> set sched. \<exists>m. k = Some (Suc m) \<Longrightarrow> length (out_bytes b) \<le> length sched \<Longrightarrow>
   \<exists>b' sent'. flush_loop vectored sched b sent = Some (Inr (length sent'), b', sent')"
proof (induction sched arbitrary: b sent)
  case Nil
  then have "queued b = []" by (cases "queued b") (auto simp: out_inv_def out_bytes_def)
  then show ?case by (subst flush_loop.simps) simp
next
  case (Cons k sched)
  show ?case
  proof (cases "queued b = []")
    case True then show ?thesis by (subst flush_loop.simps) simp
  next
    case False
    from Cons.prems(3) obtain m where m: "k = Some (Suc m)" by auto
    let ?n = "min (Suc m) (length (offered vectored b))"
    have n: "0 < ?n" using offered_ne [OF Cons.prems(1) False] by (cases "offered vectored b") auto
    obtain rest where "out_bytes b = offered vectored b @ rest" using offered_prefix [OF Cons.prems(1,2)] by blast
    then have le: "?n \<le> length (out_bytes b)" by simp
    note a = advance_inv [OF Cons.prems(1,2) le]
    have "length (out_bytes (advance b ?n)) \<le> length sched" using a n Cons.prems(4) by (simp del: min_less_iff_conj)
    then show ?thesis using Cons.IH [of "advance b ?n" "sent @ take ?n (offered vectored b)"] a n Cons.prems(3) False
      by (subst flush_loop.simps) (simp add: m Let_def)
  qed
qed

lemma flush_out_inv:
  assumes "out_inv b" "flush_out vectored sched b = Some (r, b', sent)"
  shows "out_inv b' \<and> sent @ out_bytes b' = out_bytes b \<and> (\<forall>n. r = Inr n \<longrightarrow> n = length sent \<and> sent = out_bytes b)"
proof -
  have s: "out_inv (seal (note_pending b))" "out_bytes (seal (note_pending b)) = out_bytes b" "staging (seal (note_pending b)) = []"
    using seal_inv [of "note_pending b"] assms(1) by (simp_all add: note_pending_inv)
  show ?thesis using flush_loop_inv [OF assms(2) [unfolded flush_out_def] s(1,3)] unfolding s(2) by (cases r) auto
qed

subsection \<open>Properties\<close>

text \<open>C10. Flushing under any schedule of partial, vectored or failing writes: what was written followed by what is still
  pending is what was pending before, so no byte is lost, repeated or reordered, also when a write fails in the
  middle of a frame; a flush that succeeds has written everything and returns its length; and it
  succeeds when every write takes at least one byte.\<close>

theorem flush_writes_everything:
  assumes "out_inv b"
  shows "(flush_out vectored sched b = Some (r, b', sent) \<longrightarrow>
      out_inv b' \<and> sent @ out_bytes b' = out_bytes b \<and> (\<forall>n. r = Inr n \<longrightarrow> n = length sent \<and> sent = out_bytes b))
    \<and> ((\<forall>k \<in> set sched. \<exists>m. k = Some (Suc m)) \<and> pending b \<le> length sched \<longrightarrow>
      (\<exists>b' n. flush_out vectored sched b = Some (Inr n, b', out_bytes b)))"
proof -
  have s: "out_inv (seal (note_pending b))" "out_bytes (seal (note_pending b)) = out_bytes b" "staging (seal (note_pending b)) = []"
    using seal_inv [of "note_pending b"] assms by (simp_all add: note_pending_inv)
  have i: "out_inv b' \<and> sent @ out_bytes b' = out_bytes b \<and> (\<forall>n. r = Inr n \<longrightarrow> n = length sent \<and> sent = out_bytes b)"
    if "flush_out vectored sched b = Some (r, b', sent)" for r b' sent
    by (rule flush_out_inv [OF assms that])
  have prog: "\<exists>b' n. flush_out vectored sched b = Some (Inr n, b', out_bytes b)"
    if k: "\<forall>k \<in> set sched. \<exists>m. k = Some (Suc m)" "pending b \<le> length sched"
  proof -
    have "length (out_bytes (seal (note_pending b))) \<le> length sched" using k(2) pending_out_bytes [OF assms] s(2) by simp
    from flush_loop_progress [OF s(1,3) k(1) this, of vectored "[]"] obtain b' sent where
      f: "flush_out vectored sched b = Some (Inr (length sent), b', sent)" unfolding flush_out_def by blast
    with i [OF f] show ?thesis by simp
  qed
  show ?thesis by (rule conjI; intro impI; (rule i | rule prog); simp)
qed

theorem flush_writes_everything_witness:
  "\<exists>b' n. flush_out True [Some (Suc 1), Some (Suc 0), Some (Suc 8)] (push_bytes (output_new\<lparr>staging := [1, 2]\<rparr>) [3]) = Some (Inr n, b', [1, 2, 3])"
proof -
  have i: "out_inv (output_new\<lparr>staging := [1, 2]\<rparr>)" by (rule out_inv_stage [OF out_inv_new(1)])
  from push_bytes_inv [OF i, of "[3]"] have b: "out_inv (push_bytes (output_new\<lparr>staging := [1, 2]\<rparr>) [3])"
    "out_bytes (push_bytes (output_new\<lparr>staging := [1, 2]\<rparr>) [3]) = [1, 2, 3]" by (simp_all add: out_bytes_def output_new_def)
  from flush_writes_everything [OF b(1), of True "[Some (Suc 1), Some (Suc 0), Some (Suc 8)]"] b(2) pending_out_bytes [OF b(1)] show ?thesis by simp
qed

end
