(* ===== verification/Registry.thy ===== *)
theory Registry
  imports Ctx "HOL-Library.Product_Lexorder"
begin

text \<open>
  The table of live connections behind \<^verbatim>\<open>CLIENT LIST\<close> and \<^verbatim>\<open>CLIENT KILL\<close>, \<^verbatim>\<open>src/src/net/registry.rs\<close>. The process-wide table is
  keyed by a server's identity (a number that is only compared) and the connection's id. An entry's channel is
  its inbox and whether the connection still receives from it.
\<close>

datatype out_of_band = Frame bytes | Unblock bool | Kill

record conn_snapshot =
  sn_id :: nat
  sn_addr :: bytes
  sn_laddr :: bytes
  sn_fd :: int
  sn_name :: bytes
  sn_created_ms :: nat
  sn_last_interaction_ms :: nat
  sn_db :: nat
  sn_resp :: nat
  sn_flags :: u32
  sn_sub :: nat
  sn_psub :: nat
  sn_ssub :: nat
  sn_multi :: int
  sn_watch :: nat
  sn_qbuf :: nat
  sn_qbuf_free :: nat
  sn_argv_mem :: nat
  sn_multi_mem :: nat
  sn_tot_net_in :: nat
  sn_tot_net_out :: nat
  sn_rbs :: nat
  sn_rbp :: nat
  sn_obl :: nat
  sn_oll :: nat
  sn_omem :: nat
  sn_tot_mem :: nat
  sn_last_command :: bytes
  sn_lib_name :: bytes
  sn_lib_ver :: bytes

definition snapshot_new :: "client_state \<Rightarrow> int \<Rightarrow> conn_snapshot" where
  "snapshot_new cl fd =
     \<lparr>sn_id = cl_id cl, sn_addr = cl_addr cl, sn_laddr = cl_laddr cl, sn_fd = fd, sn_name = cl_name cl,
      sn_created_ms = cl_created_ms cl, sn_last_interaction_ms = cl_last_interaction_ms cl, sn_db = cl_db cl,
      sn_resp = cl_proto cl, sn_flags = cl_flags cl, sn_sub = 0, sn_psub = 0, sn_ssub = 0, sn_multi = - 1, sn_watch = 0,
      sn_qbuf = 0, sn_qbuf_free = 0, sn_argv_mem = 0, sn_multi_mem = 0, sn_tot_net_in = 0, sn_tot_net_out = 0, sn_rbs = 0,
      sn_rbp = 0, sn_obl = 0, sn_oll = 0, sn_omem = 0, sn_tot_mem = 0, sn_last_command = cl_last_command cl,
      sn_lib_name = cl_lib_name cl, sn_lib_ver = cl_lib_ver cl\<rparr>"

text \<open>A client's subscriptions are a placeholder whose count is 0.\<close>

definition refresh_from :: "conn_snapshot \<Rightarrow> client_state \<Rightarrow> conn_snapshot" where
  "refresh_from sn cl =
     sn\<lparr>sn_name := cl_name cl, sn_last_interaction_ms := cl_last_interaction_ms cl, sn_db := cl_db cl, sn_resp := cl_proto cl,
        sn_flags := cl_flags cl, sn_sub := 0, sn_last_command := cl_last_command cl, sn_lib_name := cl_lib_name cl,
        sn_lib_ver := cl_lib_ver cl\<rparr>"

definition flag_string :: "conn_snapshot \<Rightarrow> bytes" where
  "flag_string sn =
     (let has = (\<lambda>f. sn_flags sn AND f = f);
          s = (if has UNIX_SOCKET then ascii ''U'' else []) @ (if has CF_MULTI then ascii ''x'' else [])
            @ (if has DIRTY_CAS then ascii ''d'' else []) @ (if has CLOSE_AFTER_REPLY then ascii ''c'' else [])
            @ (if has CF_MONITOR then ascii ''O'' else []) @ (if has NO_EVICT then ascii ''e'' else [])
            @ (if has NO_TOUCH then ascii ''T'' else [])
      in if s = [] then ascii ''N'' else s)"

definition events :: "conn_snapshot \<Rightarrow> bytes" where
  "events sn = (if sn_oll sn > 0 \<or> sn_obl sn > 0 then ascii ''rw'' else ascii ''r'')"

record conn_entry =
  ce_id :: nat
  ce_open :: bool
  ce_inbox :: "out_of_band list"
  ce_snapshot :: conn_snapshot

definition conn_entry_new :: "conn_snapshot \<Rightarrow> conn_entry" where
  "conn_entry_new sn = \<lparr>ce_id = sn_id sn, ce_open = True, ce_inbox = [], ce_snapshot = sn\<rparr>"

definition entry_update :: "conn_entry \<Rightarrow> (conn_snapshot \<Rightarrow> conn_snapshot) \<Rightarrow> conn_entry" where
  "entry_update e f = e\<lparr>ce_snapshot := f (ce_snapshot e)\<rparr>"

text \<open>\<^verbatim>\<open>send\<close> on the unbounded channel of the runtime fails exactly when the receiver is gone.\<close>

definition entry_kill :: "conn_entry \<Rightarrow> bool \<times> conn_entry" where
  "entry_kill e = (if ce_open e then (True, e\<lparr>ce_inbox := ce_inbox e @ [Kill]\<rparr>) else (False, e))"

type_synonym registry = "(nat \<times> nat, conn_entry) fmap"

definition reg_register :: "registry \<Rightarrow> nat \<Rightarrow> conn_entry \<Rightarrow> registry" where
  "reg_register R server e = fmupd (server, ce_id e) e R"

definition reg_unregister :: "registry \<Rightarrow> nat \<Rightarrow> nat \<Rightarrow> registry" where
  "reg_unregister R server i = fmdrop (server, i) R"

definition reg_get :: "registry \<Rightarrow> nat \<Rightarrow> nat \<Rightarrow> conn_entry option" where
  "reg_get R server i = fmlookup R (server, i)"

text \<open>\<^verbatim>\<open>snapshot\<close> iterates the table in its internal order and then sorts by id, which is unique per server.\<close>

definition reg_snapshot :: "registry \<Rightarrow> nat \<Rightarrow> conn_entry list" where
  "reg_snapshot R server = sort_key ce_id (map snd (filter (\<lambda>((s, _), _). s = server) (sorted_list_of_fmap R)))"

definition reg_count :: "registry \<Rightarrow> nat \<Rightarrow> nat" where
  "reg_count R server = length (filter (\<lambda>((s, _), _). s = server) (sorted_list_of_fmap R))"

subsection \<open>What the table holds\<close>

definition reg_ok :: "registry \<Rightarrow> bool" where
  "reg_ok R \<longleftrightarrow> (\<forall>s i e. fmlookup R (s, i) = Some e \<longrightarrow> ce_id e = i \<and> sn_id (ce_snapshot e) = i)"

lemma set_reg_snapshot: "set (reg_snapshot R server) = {e. \<exists>i. fmlookup R (server, i) = Some e}"
  by (force simp: reg_snapshot_def sorted_list_of_fmap_def fmlookup_dom_iff image_iff)

lemma distinct_reg_snapshot:
  assumes "reg_ok R" shows "distinct (map ce_id (reg_snapshot R server))"
proof -
  let ?xs = "filter (\<lambda>((s, _), _). s = server) (sorted_list_of_fmap R)"
  have d: "distinct (map fst ?xs)"
  proof (rule distinct_map_filter)
    show "distinct (map fst (sorted_list_of_fmap R))" by (simp add: sorted_list_of_fmap_def comp_def sorted_list_of_fset.rep_eq)
  qed
  have "ce_id (snd x) = snd (fst x) \<and> fst (fst x) = server" if "x \<in> set ?xs" for x
    using that assms by (auto simp: sorted_list_of_fmap_def fmlookup_dom_iff reg_ok_def)
  then have "map fst ?xs = map (\<lambda>x. (server, ce_id (snd x))) ?xs" by (intro map_cong refl) (auto simp: prod_eq_iff)
  with d have "distinct (map (\<lambda>i. (server, i)) (map (ce_id \<circ> snd) ?xs))" by (simp add: comp_def)
  then have "distinct (map (ce_id \<circ> snd) ?xs)" by (rule distinct_map [THEN iffD1, THEN conjunct1])
  then have "distinct (map ce_id (map snd ?xs))" by simp
  then show ?thesis unfolding reg_snapshot_def by (metis (no_types, lifting) distinct_map distinct_sort set_sort)
qed

lemma sorted_reg_snapshot: "sorted (map ce_id (reg_snapshot R server))"
  by (simp add: reg_snapshot_def)

end
