(* ===== verification/Connection_Cmd.thy ===== *)
theory Connection_Cmd
  imports Generic_Cmd Registry
begin

text \<open>
  The connection commands, \<^verbatim>\<open>src/src/command/connection.rs\<close>: \<^verbatim>\<open>PING\<close>, \<^verbatim>\<open>ECHO\<close>, \<^verbatim>\<open>SELECT\<close>, \<^verbatim>\<open>QUIT\<close>, \<^verbatim>\<open>AUTH\<close>, \<^verbatim>\<open>HELLO\<close>, \<^verbatim>\<open>RESET\<close> and the
  \<^verbatim>\<open>CLIENT\<close> container. The subscription state of a client is a placeholder that is never in subscribe mode, so that branch of
  \<^verbatim>\<open>PING\<close> is not taken. \<^verbatim>\<open>CLIENT\<close> reads the table of connections and sends kill messages through it; the table is
  passed and returned explicitly.
\<close>

unbundle bit_operations_syntax

definition with_client :: "(client_state \<Rightarrow> client_state) \<Rightarrow> ctx \<Rightarrow> ctx" where
  "with_client f c = c\<lparr>client := f (client c)\<rparr>"

definition with_proto :: "nat \<Rightarrow> ctx \<Rightarrow> ctx" where
  "with_proto n c = with_out (\<lambda>w. w\<lparr>rw_proto := n\<rparr>) (with_client (\<lambda>cl. cl\<lparr>cl_proto := n\<rparr>) c)"

definition lossy :: "bytes \<Rightarrow> bytes" where
  "lossy b = concat (utf8_lossy_chars b)"

definition quoted :: "bytes \<Rightarrow> bytes" where
  "quoted b = [39] @ lossy b @ [39]"

definition REDIS_VERSION :: bytes where "REDIS_VERSION = ascii ''7.4.0''"

definition HELLO_FIELDS :: nat where "HELLO_FIELDS = 7"

subsection \<open>Simple commands\<close>

definition in_subscribe_mode :: "client_state \<Rightarrow> bool" where
  "in_subscribe_mode cl = False"

definition cmd_ping :: "env \<Rightarrow> ctx \<Rightarrow> bytes list \<Rightarrow> handler_result" where
  "cmd_ping E c args =
     (let sub = in_subscribe_mode (client c) \<and> rw_proto (out c) = RESP2; pong = (\<lambda>w. reply_bulk (env_itoa E) (reply_array (env_itoa E) w 2) (ascii ''pong'')) in
      case args of
        [_] \<Rightarrow> (Inr (), with_out (\<lambda>w. if sub then reply_bulk (env_itoa E) (pong w) [] else reply_simple w (ascii ''PONG'')) c)
      | [_, msg] \<Rightarrow> (Inr (), with_out (\<lambda>w. reply_bulk (env_itoa E) (if sub then pong w else w) msg) c)
      | _ \<Rightarrow> (Inl (WrongArity (ascii ''ping'')), c))"

definition cmd_echo :: "env \<Rightarrow> ctx \<Rightarrow> bytes list \<Rightarrow> handler_result" where
  "cmd_echo E c args =
     (case args_at args 1 of Inl e \<Rightarrow> (Inl e, c) | Inr msg \<Rightarrow> (Inr (), with_out (\<lambda>w. reply_bulk (env_itoa E) w msg) c))"

definition cmd_select :: "env \<Rightarrow> ctx \<Rightarrow> bytes list \<Rightarrow> handler_result" where
  "cmd_select E c args =
     (case args_at args 1 of
        Inl e \<Rightarrow> (Inl e, c)
      | Inr raw \<Rightarrow>
          (case string2ll raw of
             None \<Rightarrow> (Inl NotAnInteger, c)
           | Some n \<Rightarrow>
               if n < 0 \<or> n \<ge> as_i64 (sm_databases (srv_map c)) then (Inl (error_err (ascii ''DB index is out of range'')), c)
               else (Inr (), with_out reply_ok (with_client (\<lambda>cl. cl\<lparr>cl_db := nat n\<rparr>) c))))"

definition cmd_quit :: "env \<Rightarrow> ctx \<Rightarrow> bytes list \<Rightarrow> handler_result" where
  "cmd_quit E c args = (Inr (), with_out reply_ok (with_client close_after_reply c))"

subsection \<open>Authentication\<close>

definition wrongpass :: cmd_error where
  "wrongpass = Custom (ascii ''WRONGPASS'') (ascii ''invalid username-password pair or user is disabled.'')"

definition no_password_set :: cmd_error where
  "no_password_set = error_err (ascii ''Client sent AUTH, but no password is set. Did you mean AUTH <username> <password>?'')"

fun diff_bytes :: "bytes \<Rightarrow> bytes \<Rightarrow> byte \<Rightarrow> byte" where
  "diff_bytes (x # xs) (y # ys) diff = diff_bytes xs ys (diff OR (x XOR y))"
| "diff_bytes xs ys diff = diff"

definition constant_time_eq :: "bytes \<Rightarrow> bytes \<Rightarrow> bool" where
  "constant_time_eq a b = (if length a \<noteq> length b then False else diff_bytes a b 0 = 0)"

definition check_auth :: "ctx \<Rightarrow> bytes option \<Rightarrow> bytes \<Rightarrow> cmd_error + unit" where
  "check_auth c user pass =
     (case cfg_requirepass (cfg c) of
        None \<Rightarrow> Inl no_password_set
      | Some expected \<Rightarrow>
          if (case user of Some u \<Rightarrow> \<not> eq_ignore_ascii_case u (ascii ''default'') | None \<Rightarrow> False) then Inl wrongpass
          else if constant_time_eq pass (ascii expected) then Inr () else Inl wrongpass)"

definition set_authenticated :: "ctx \<Rightarrow> ctx" where
  "set_authenticated c = with_client (\<lambda>cl. cl\<lparr>cl_authenticated := True\<rparr>) c"

definition cmd_auth :: "env \<Rightarrow> ctx \<Rightarrow> bytes list \<Rightarrow> handler_result" where
  "cmd_auth E c args =
     (case (case args of
              [_, pass] \<Rightarrow> check_auth c None pass
            | [_, user, pass] \<Rightarrow> check_auth c (Some user) pass
            | _ \<Rightarrow> Inl (WrongArity (ascii ''auth''))) of
        Inl e \<Rightarrow> (Inl e, c)
      | Inr _ \<Rightarrow> (Inr (), with_out reply_ok (set_authenticated c)))"

definition validate_client_name :: "bytes \<Rightarrow> cmd_error + unit" where
  "validate_client_name name =
     (if \<exists>b \<in> set name. \<not> (33 \<le> b \<and> b \<le> 126)
      then Inl (error_err (ascii ''Client names cannot contain spaces, newlines or special characters.''))
      else Inr ())"

definition set_name :: "bytes \<Rightarrow> ctx \<Rightarrow> ctx" where
  "set_name name c = with_client (\<lambda>cl. cl\<lparr>cl_name := name\<rparr>) c"

text \<open>The options of \<^verbatim>\<open>HELLO\<close>, from left to right; what an option changed stays changed when a later one fails.\<close>

fun hello_options :: "ctx \<Rightarrow> bytes list \<Rightarrow> handler_result" where
  "hello_options c [] = (Inr (), c)"
| "hello_options c (a # rest) =
     (if eq_ignore_ascii_case a (ascii ''AUTH'') \<and> 2 \<le> length rest then
        (case check_auth c (Some (rest ! 0)) (rest ! 1) of
           Inl e \<Rightarrow> (Inl e, c)
         | Inr _ \<Rightarrow> hello_options (set_authenticated c) (drop 2 rest))
      else if eq_ignore_ascii_case a (ascii ''SETNAME'') \<and> 1 \<le> length rest then
        (case validate_client_name (rest ! 0) of
           Inl e \<Rightarrow> (Inl e, c)
         | Inr _ \<Rightarrow> hello_options (set_name (rest ! 0) c) (drop 1 rest))
      else (Inl (error_err (ascii ''unknown argument '' @ quoted a @ ascii '' to HELLO'')), c))"

definition noauth_hello :: cmd_error where
  "noauth_hello = Custom (ascii ''NOAUTH'')
     (ascii ''HELLO must be called with the client already authenticated, otherwise the HELLO <proto> AUTH <user> <pass> option can be used to authenticate the client and select the RESP protocol version at the same time'')"

definition hello_fields :: "env \<Rightarrow> nat \<Rightarrow> client_state \<Rightarrow> reply_writer \<Rightarrow> reply_writer" where
  "hello_fields E proto cl w =
     (let bulk = (\<lambda>s w. reply_bulk (env_itoa E) w s); num = (\<lambda>v w. reply_int (env_itoa E) w v);
          w = reply_map (env_itoa E) w HELLO_FIELDS;
          w = bulk (ascii ''redis'') (bulk (ascii ''server'') w);
          w = bulk REDIS_VERSION (bulk (ascii ''version'') w);
          w = num (int proto) (bulk (ascii ''proto'') w);
          w = num (as_i64 (cl_id cl)) (bulk (ascii ''id'') w);
          w = bulk (ascii ''standalone'') (bulk (ascii ''mode'') w);
          w = bulk (ascii ''master'') (bulk (ascii ''role'') w)
      in reply_array (env_itoa E) (bulk (ascii ''modules'') w) 0)"

definition hello_proto :: "ctx \<Rightarrow> bytes list \<Rightarrow> cmd_error + nat" where
  "hello_proto c args =
     (case nth_opt args 1 of
        None \<Rightarrow> Inr (cl_proto (client c))
      | Some raw \<Rightarrow>
          (case string2ll raw of
             None \<Rightarrow> Inl (error_err (ascii ''Protocol version is not an integer or out of range''))
           | Some v \<Rightarrow> if \<not> (2 \<le> v \<and> v \<le> 3) then Inl NoProto else Inr (nat v)))"

definition cmd_hello :: "env \<Rightarrow> ctx \<Rightarrow> bytes list \<Rightarrow> handler_result" where
  "cmd_hello E c args =
     (case hello_proto c args of
        Inl e \<Rightarrow> (Inl e, c)
      | Inr proto \<Rightarrow>
          (case hello_options c (drop 2 args) of
             (Inl e, c) \<Rightarrow> (Inl e, c)
           | (Inr _, c) \<Rightarrow>
               if \<not> cl_authenticated (client c) then (Inl noauth_hello, c)
               else (Inr (), with_out (hello_fields E proto (client c)) (with_proto proto c))))"

definition reset_flags :: u32 where
  "reset_flags = CF_MULTI OR DIRTY_CAS OR DIRTY_EXEC OR CF_MONITOR OR REPLY_OFF OR REPLY_SKIP OR REPLY_SKIP_NEXT"

definition multi_reset :: "client_state \<Rightarrow> client_state" where
  "multi_reset cl = cl\<lparr>cl_queue := [], cl_watched := []\<rparr>"

definition cmd_reset :: "env \<Rightarrow> ctx \<Rightarrow> bytes list \<Rightarrow> handler_result" where
  "cmd_reset E c args =
     (let c = with_client (\<lambda>cl. cl\<lparr>cl_db := 0\<rparr>) c;
          c = with_proto RESP2 c;
          c = set_name [] c;
          c = with_client (\<lambda>cl. remove_flag reset_flags (multi_reset cl)) c;
          c = (if cfg_requirepass (cfg c) \<noteq> None then with_client (\<lambda>cl. cl\<lparr>cl_authenticated := False\<rparr>) c else c)
      in (Inr (), with_out (\<lambda>w. reply_simple w (ascii ''RESET'')) c))"

subsection \<open>CLIENT: own state\<close>

definition unknown_subcommand :: "bytes \<Rightarrow> bytes \<Rightarrow> cmd_error" where
  "unknown_subcommand upper sub =
     error_err (ascii ''Unknown subcommand or wrong number of arguments for '' @ quoted sub @ ascii ''. Try '' @ upper @ ascii '' HELP.'')"

definition sub_arity :: "bytes list \<Rightarrow> nat \<Rightarrow> bytes \<Rightarrow> cmd_error + unit" where
  "sub_arity args exact name = (if length args = exact then Inr () else Inl (WrongArity name))"

definition set_flag :: "ctx \<Rightarrow> bytes list \<Rightarrow> u32 \<Rightarrow> handler_result" where
  "set_flag c args f =
     (if kw_at args 2 (ascii ''on'') then (Inr (), with_client (add_flag f) c)
      else if kw_at args 2 (ascii ''off'') then (Inr (), with_client (remove_flag f) c)
      else (Inl Syntax, c))"

definition client_reply :: "ctx \<Rightarrow> bytes list \<Rightarrow> handler_result" where
  "client_reply c args =
     (if kw_at args 2 (ascii ''on'') then
        (Inr (), with_out reply_ok (with_client (remove_flag (REPLY_OFF OR REPLY_SKIP OR REPLY_SKIP_NEXT)) c))
      else if kw_at args 2 (ascii ''off'') then (Inr (), with_client (add_flag REPLY_OFF) c)
      else if kw_at args 2 (ascii ''skip'') then
        (Inr (), if \<not> has_flag (client c) REPLY_OFF then with_client (add_flag REPLY_SKIP_NEXT) c else c)
      else (Inl Syntax, c))"

definition client_help_lines :: "bytes list" where
  "client_help_lines =
     [ascii ''CLIENT <subcommand> [<arg> [value] [opt] ...]. Subcommands are:'',
      ascii ''GETNAME'',
      ascii ''    Return the name of the current connection.'',
      ascii ''ID'',
      ascii ''    Return the ID of the current connection.'',
      ascii ''INFO'',
      ascii ''    Return information about the current client connection.'',
      ascii ''KILL <ip:port>'',
      ascii ''    Kill connection made from <ip:port>.'',
      ascii ''KILL <option> <value> [<option> <value> [...]]'',
      ascii ''    Kill connections. Options are:'',
      ascii ''    * ADDR (<ip:port>|<unixsocket>:0)'',
      ascii ''      Kill connections made from the specified address'',
      ascii ''    * LADDR (<ip:port>|<unixsocket>:0)'',
      ascii ''      Kill connections made to specified local address'',
      ascii ''    * TYPE (NORMAL|MASTER|REPLICA|PUBSUB)'',
      ascii ''      Kill connections by type.'',
      ascii ''    * ID <client-id>'',
      ascii ''      Kill connections by client id.'',
      ascii ''    * MAXAGE <maxage>'',
      ascii ''      Kill connections older than the specified age.'',
      ascii ''    * SKIPME (YES|NO)'',
      ascii ''      Skip killing current client (default: yes).'',
      ascii ''LIST [options ...]'',
      ascii ''    Return information about client connections. Options:'',
      ascii ''    * TYPE (NORMAL|MASTER|REPLICA|PUBSUB)'',
      ascii ''      Return clients of specified type.'',
      ascii ''    * ID <id> [<id>...]'',
      ascii ''      Return clients with the specified IDs.'',
      ascii ''NO-EVICT (ON|OFF)'',
      ascii ''    Protect current client connection from eviction.'',
      ascii ''NO-TOUCH (ON|OFF)'',
      ascii ''    Will not touch LRU/LFU stats when this mode is on.'',
      ascii ''REPLY (ON|OFF|SKIP)'',
      ascii ''    Control the replies sent to the current connection.'',
      ascii ''SETINFO <option> <value>'',
      ascii ''    Set client meta attr. Options are:'',
      ascii ''    * LIB-NAME: the client lib name.'',
      ascii ''    * LIB-VER: the client lib version.'',
      ascii ''SETNAME <name>'',
      ascii ''    Assign the name <name> to the current connection.'',
      ascii ''UNPAUSE'',
      ascii ''    Stop the current client pause, resuming traffic.'',
      ascii ''HELP'',
      ascii ''    Print this help.'']"

definition client_help :: "env \<Rightarrow> ctx \<Rightarrow> handler_result" where
  "client_help E c =
     (Inr (), with_out (\<lambda>w. fold (\<lambda>l w. reply_simple w l) client_help_lines (reply_array (env_itoa E) w (length client_help_lines))) c)"

subsection \<open>CLIENT: the table of connections\<close>

datatype client_type = TypeNormal | TypeMaster | TypeReplica | TypePubSub

definition client_type_parse :: "bytes \<Rightarrow> client_type option" where
  "client_type_parse raw =
     (if eq_ignore_ascii_case raw (ascii ''normal'') then Some TypeNormal
      else if eq_ignore_ascii_case raw (ascii ''master'') then Some TypeMaster
      else if eq_ignore_ascii_case raw (ascii ''replica'') \<or> eq_ignore_ascii_case raw (ascii ''slave'') then Some TypeReplica
      else if eq_ignore_ascii_case raw (ascii ''pubsub'') then Some TypePubSub
      else None)"

definition client_type_of :: "conn_snapshot \<Rightarrow> client_type" where
  "client_type_of sn = (if sn_sub sn + sn_psub sn > 0 then TypePubSub else TypeNormal)"

definition unknown_type :: "bytes \<Rightarrow> cmd_error" where
  "unknown_type raw = error_err (ascii ''Unknown client type '' @ quoted raw)"

definition self_snapshot :: "nat \<Rightarrow> registry \<Rightarrow> ctx \<Rightarrow> conn_snapshot" where
  "self_snapshot server R c =
     (let cl = client c;
          sn = (case reg_get R server (cl_id cl) of Some e \<Rightarrow> ce_snapshot e | None \<Rightarrow> snapshot_new cl (cl_fd cl))
      in (refresh_from sn cl)\<lparr>sn_db := cl_db cl,
            sn_multi := (if has_flag cl CF_MULTI then as_i64 (length (cl_queue cl)) else - 1),
            sn_watch := length (cl_watched cl)\<rparr>)"

definition field :: "string \<Rightarrow> bytes \<Rightarrow> bytes" where
  "field name v = ascii name @ [61] @ v"

fun join_fields :: "bytes list \<Rightarrow> bytes" where
  "join_fields [] = []"
| "join_fields [f] = f"
| "join_fields (f # fs) = f @ [32] @ join_fields fs"

definition info_fields :: "env \<Rightarrow> conn_snapshot \<Rightarrow> nat \<Rightarrow> bytes list" where
  "info_fields E sn now =
     (let num = (\<lambda>n :: nat. env_itoa E (int n)) in
      [field ''id'' (num (sn_id sn)), field ''addr'' (sn_addr sn), field ''laddr'' (sn_laddr sn), field ''fd'' (env_itoa E (sn_fd sn)),
       field ''name'' (lossy (sn_name sn)), field ''age'' (num ((now - sn_created_ms sn) div 1000)),
       field ''idle'' (num ((now - sn_last_interaction_ms sn) div 1000)), field ''flags'' (flag_string sn), field ''db'' (num (sn_db sn)),
       field ''sub'' (num (sn_sub sn)), field ''psub'' (num (sn_psub sn)), field ''ssub'' (num (sn_ssub sn)),
       field ''multi'' (env_itoa E (sn_multi sn)), field ''watch'' (num (sn_watch sn)), field ''qbuf'' (num (sn_qbuf sn)),
       field ''qbuf-free'' (num (sn_qbuf_free sn)), field ''argv-mem'' (num (sn_argv_mem sn)), field ''multi-mem'' (num (sn_multi_mem sn)),
       field ''tot-net-in'' (num (sn_tot_net_in sn)), field ''tot-net-out'' (num (sn_tot_net_out sn)), field ''rbs'' (num (sn_rbs sn)),
       field ''rbp'' (num (sn_rbp sn)), field ''obl'' (num (sn_obl sn)), field ''oll'' (num (sn_oll sn)), field ''omem'' (num (sn_omem sn)),
       field ''tot-mem'' (num (sn_tot_mem sn)), field ''events'' (events sn),
       field ''cmd'' (if sn_last_command sn = [] then ascii ''NULL'' else sn_last_command sn), field ''user'' (ascii ''default''),
       field ''redir'' (ascii ''-1''), field ''resp'' (num (sn_resp sn)), field ''lib-name'' (lossy (sn_lib_name sn)),
       field ''lib-ver'' (lossy (sn_lib_ver sn))])"

definition write_info_line :: "env \<Rightarrow> bytes \<Rightarrow> conn_snapshot \<Rightarrow> nat \<Rightarrow> bytes" where
  "write_info_line E acc sn now = acc @ join_fields (info_fields E sn now)"

fun list_ids :: "bytes list \<Rightarrow> cmd_error + nat list" where
  "list_ids [] = Inr []"
| "list_ids (a # rest) =
     (case string2ll a of
        None \<Rightarrow> Inl (error_err (ascii ''Invalid client ID''))
      | Some v \<Rightarrow> if v < 0 then Inl (error_err (ascii ''Invalid client ID'')) else rbind (list_ids rest) (\<lambda>ids. Inr (nat v # ids)))"

fun list_options :: "bytes list \<Rightarrow> client_type option \<Rightarrow> nat list \<Rightarrow> cmd_error + client_type option \<times> nat list" where
  "list_options [] ty ids = Inr (ty, ids)"
| "list_options (a # rest) ty ids =
     (if eq_ignore_ascii_case a (ascii ''type'') then
        (case rest of
           [] \<Rightarrow> Inl Syntax
         | raw # rest \<Rightarrow> (case client_type_parse raw of None \<Rightarrow> Inl (unknown_type raw) | Some t \<Rightarrow> list_options rest (Some t) ids))
      else if eq_ignore_ascii_case a (ascii ''id'') then
        (if rest = [] then Inl Syntax else rbind (list_ids rest) (\<lambda>more_ids. Inr (ty, ids @ more_ids)))
      else Inl Syntax)"

fun list_lines :: "env \<Rightarrow> conn_entry list \<Rightarrow> conn_snapshot \<Rightarrow> client_type option \<Rightarrow> nat list \<Rightarrow> nat \<Rightarrow> bytes \<Rightarrow> bytes" where
  "list_lines E [] me ty ids now body = body"
| "list_lines E (e # es) me ty ids now body =
     (let sn = (if ce_id e = sn_id me then me else ce_snapshot e) in
      if (case ty of Some t \<Rightarrow> t \<noteq> client_type_of sn | None \<Rightarrow> False) \<or> (ids \<noteq> [] \<and> sn_id sn \<notin> set ids)
      then list_lines E es me ty ids now body
      else list_lines E es me ty ids now (write_info_line E body sn now @ [10]))"

definition client_list :: "nat \<Rightarrow> registry \<Rightarrow> env \<Rightarrow> ctx \<Rightarrow> bytes list \<Rightarrow> handler_result" where
  "client_list server R E c args =
     (case list_options (drop 2 args) None [] of
        Inl e \<Rightarrow> (Inl e, c)
      | Inr (ty, ids) \<Rightarrow>
          (Inr (), with_out (\<lambda>w. reply_bulk (env_itoa E) w
             (list_lines E (reg_snapshot R server) (self_snapshot server R c) ty ids (now_ms c) [])) c))"

record kill_filter =
  kf_id :: "nat option"
  kf_addr :: "bytes option"
  kf_laddr :: "bytes option"
  kf_class :: "client_type option"
  kf_maxage_secs :: "nat option"
  kf_skipme :: bool

definition kill_filter_default :: kill_filter where
  "kill_filter_default = \<lparr>kf_id = None, kf_addr = None, kf_laddr = None, kf_class = None, kf_maxage_secs = None, kf_skipme = True\<rparr>"

definition filter_matches :: "kill_filter \<Rightarrow> conn_snapshot \<Rightarrow> nat \<Rightarrow> bool" where
  "filter_matches f sn now =
     (if (case kf_id f of Some i \<Rightarrow> sn_id sn \<noteq> i | None \<Rightarrow> False) then False
      else if (case kf_addr f of Some a \<Rightarrow> a \<noteq> sn_addr sn | None \<Rightarrow> False) then False
      else if (case kf_laddr f of Some a \<Rightarrow> a \<noteq> sn_laddr sn | None \<Rightarrow> False) then False
      else if (case kf_class f of Some t \<Rightarrow> t \<noteq> client_type_of sn | None \<Rightarrow> False) then False
      else if (case kf_maxage_secs f of Some m \<Rightarrow> (now - sn_created_ms sn) div 1000 < m | None \<Rightarrow> False) then False
      else True)"

definition client_id_error :: cmd_error where
  "client_id_error = error_err (ascii ''client-id should be greater than 0'')"

definition kill_option :: "bytes \<Rightarrow> bytes \<Rightarrow> kill_filter \<Rightarrow> cmd_error + kill_filter" where
  "kill_option opt value f =
     (if eq_ignore_ascii_case opt (ascii ''id'') then
        (case string2ll value of
           None \<Rightarrow> Inl client_id_error
         | Some v \<Rightarrow> if v < 1 then Inl client_id_error else Inr (f\<lparr>kf_id := Some (nat v)\<rparr>))
      else if eq_ignore_ascii_case opt (ascii ''addr'') then Inr (f\<lparr>kf_addr := Some value\<rparr>)
      else if eq_ignore_ascii_case opt (ascii ''laddr'') then Inr (f\<lparr>kf_laddr := Some value\<rparr>)
      else if eq_ignore_ascii_case opt (ascii ''type'') then
        (case client_type_parse value of None \<Rightarrow> Inl (unknown_type value) | Some t \<Rightarrow> Inr (f\<lparr>kf_class := Some t\<rparr>))
      else if eq_ignore_ascii_case opt (ascii ''user'') then
        (if \<not> eq_ignore_ascii_case value (ascii ''default'') then Inl (error_err (ascii ''No such user '' @ quoted value)) else Inr f)
      else if eq_ignore_ascii_case opt (ascii ''skipme'') then
        (if eq_ignore_ascii_case value (ascii ''yes'') then Inr (f\<lparr>kf_skipme := True\<rparr>)
         else if eq_ignore_ascii_case value (ascii ''no'') then Inr (f\<lparr>kf_skipme := False\<rparr>)
         else Inl Syntax)
      else if eq_ignore_ascii_case opt (ascii ''maxage'') then
        (case string2ll value of
           None \<Rightarrow> Inl NotAnInteger
         | Some v \<Rightarrow> if v < 0 then Inl NotAnInteger else Inr (f\<lparr>kf_maxage_secs := Some (nat v)\<rparr>))
      else Inl Syntax)"

fun kill_options :: "bytes list \<Rightarrow> kill_filter \<Rightarrow> cmd_error + kill_filter" where
  "kill_options [] f = Inr f"
| "kill_options [opt] f = Inl Syntax"
| "kill_options (opt # value # rest) f = rbind (kill_option opt value f) (kill_options rest)"

text \<open>The loop over the connections: the number killed, whether the caller is among them, and the table with the
  kill messages sent.\<close>

fun kill_loop :: "nat \<Rightarrow> kill_filter \<Rightarrow> nat \<Rightarrow> nat \<Rightarrow> conn_entry list \<Rightarrow> nat \<Rightarrow> bool \<Rightarrow> registry \<Rightarrow> nat \<times> bool \<times> registry" where
  "kill_loop server f me now [] killed kill_self R = (killed, kill_self, R)"
| "kill_loop server f me now (e # es) killed kill_self R =
     (let sn = ce_snapshot e in
      if \<not> filter_matches f sn now then kill_loop server f me now es killed kill_self R
      else if kf_skipme f \<and> sn_id sn = me then kill_loop server f me now es killed kill_self R
      else if sn_id sn = me then kill_loop server f me now es (killed + 1) True R
      else (case entry_kill e of
              (ok, e') \<Rightarrow> kill_loop server f me now es (if ok then killed + 1 else killed) kill_self (fmupd (server, ce_id e) e' R)))"

definition client_kill :: "nat \<Rightarrow> registry \<Rightarrow> env \<Rightarrow> ctx \<Rightarrow> bytes list \<Rightarrow> handler_result \<times> registry" where
  "client_kill server R E c args =
     (if length args < 3 then ((Inl (WrongArity (ascii ''client|kill'')), c), R)
      else
        (let old_form = (length args = 3) in
         case (if old_form then Inr (kill_filter_default\<lparr>kf_addr := Some (args ! 2), kf_skipme := False\<rparr>)
               else kill_options (drop 2 args) kill_filter_default) of
           Inl e \<Rightarrow> ((Inl e, c), R)
         | Inr f \<Rightarrow>
             (case kill_loop server f (cl_id (client c)) (now_ms c) (reg_snapshot R server) 0 False R of
                (killed, kill_self, R) \<Rightarrow>
                  if old_form \<and> killed = 0 then ((Inl (error_err (ascii ''No such client address in client list'')), c), R)
                  else
                    (let c = (if old_form then with_out reply_ok c else int_out E (as_i64 killed) c);
                         c = (if kill_self then with_client close_after_reply c else c)
                     in ((Inr (), c), R)))))"

definition mark_command :: "string \<Rightarrow> ctx \<Rightarrow> ctx" where
  "mark_command name c = with_client (\<lambda>cl. cl\<lparr>cl_last_command := ascii name\<rparr>) c"

definition guarded :: "cmd_error + unit \<Rightarrow> ctx \<Rightarrow> (ctx \<Rightarrow> handler_result) \<Rightarrow> handler_result" where
  "guarded g c f = (case g of Inl e \<Rightarrow> (Inl e, c) | Inr _ \<Rightarrow> f c)"

definition client_setinfo :: "ctx \<Rightarrow> bytes list \<Rightarrow> handler_result" where
  "client_setinfo c args =
     guarded (sub_arity args 4 (ascii ''client|setinfo'')) c (\<lambda>c.
       let attr = args ! 2; value = args ! 3 in
       guarded (validate_client_name value) c (\<lambda>c.
         if eq_ignore_ascii_case attr (ascii ''lib-name'') then (Inr (), with_out reply_ok (with_client (\<lambda>cl. cl\<lparr>cl_lib_name := value\<rparr>) c))
         else if eq_ignore_ascii_case attr (ascii ''lib-ver'') then (Inr (), with_out reply_ok (with_client (\<lambda>cl. cl\<lparr>cl_lib_ver := value\<rparr>) c))
         else (Inl (error_err (ascii ''Unrecognized option '' @ quoted attr)), c)))"

definition client_flag :: "ctx \<Rightarrow> bytes list \<Rightarrow> u32 \<Rightarrow> bytes \<Rightarrow> handler_result" where
  "client_flag c args f name =
     guarded (sub_arity args 3 name) c (\<lambda>c. case set_flag c args f of (Inl e, c) \<Rightarrow> (Inl e, c) | (Inr _, c) \<Rightarrow> (Inr (), with_out reply_ok c))"

definition client_own :: "nat \<Rightarrow> registry \<Rightarrow> env \<Rightarrow> ctx \<Rightarrow> bytes list \<Rightarrow> bytes \<Rightarrow> handler_result" where
  "client_own server R E c args sub =
     (let is = (\<lambda>s. eq_ignore_ascii_case sub (ascii s)) in
      if is ''id'' then
        guarded (sub_arity args 2 (ascii ''client|id'')) (mark_command ''client|id'' c) (\<lambda>c. (Inr (), int_out E (as_i64 (cl_id (client c))) c))
      else if is ''getname'' then
        guarded (sub_arity args 2 (ascii ''client|getname'')) (mark_command ''client|getname'' c) (\<lambda>c.
          (Inr (), with_out (\<lambda>w. if cl_name (client c) = [] then reply_null w else reply_bulk (env_itoa E) w (cl_name (client c))) c))
      else if is ''setname'' then
        guarded (sub_arity args 3 (ascii ''client|setname'')) (mark_command ''client|setname'' c) (\<lambda>c.
          guarded (validate_client_name (args ! 2)) c (\<lambda>c. (Inr (), with_out reply_ok (set_name (args ! 2) c))))
      else if is ''setinfo'' then client_setinfo (mark_command ''client|setinfo'' c) args
      else if is ''info'' then
        guarded (sub_arity args 2 (ascii ''client|info'')) (mark_command ''client|info'' c) (\<lambda>c.
          (Inr (), with_out (\<lambda>w. reply_bulk (env_itoa E) w (write_info_line E [] (self_snapshot server R c) (now_ms c))) c))
      else if is ''list'' then client_list server R E (mark_command ''client|list'' c) args
      else if is ''no-evict'' then client_flag (mark_command ''client|no-evict'' c) args NO_EVICT (ascii ''client|no-evict'')
      else if is ''no-touch'' then client_flag (mark_command ''client|no-touch'' c) args NO_TOUCH (ascii ''client|no-touch'')
      else if is ''unpause'' then
        guarded (sub_arity args 2 (ascii ''client|unpause'')) (mark_command ''client|unpause'' c) (\<lambda>c. (Inr (), with_out reply_ok c))
      else if is ''reply'' then
        guarded (sub_arity args 3 (ascii ''client|reply'')) (mark_command ''client|reply'' c) (\<lambda>c. client_reply c args)
      else if is ''help'' then client_help E (mark_command ''client|help'' c)
      else (Inl (unknown_subcommand (ascii ''CLIENT'') sub), c))"

definition cmd_client :: "nat \<Rightarrow> registry \<Rightarrow> env \<Rightarrow> ctx \<Rightarrow> bytes list \<Rightarrow> handler_result \<times> registry" where
  "cmd_client server R E c args =
     (case args_at args 1 of
        Inl e \<Rightarrow> ((Inl e, c), R)
      | Inr sub \<Rightarrow>
          if eq_ignore_ascii_case sub (ascii ''kill'') then client_kill server R E (mark_command ''client|kill'' c) args
          else (client_own server R E c args sub, R))"

subsection \<open>Registration\<close>

text \<open>In the command table \<^verbatim>\<open>CLIENT\<close> sees the connections as they are when the command runs; the kill messages it sends are
  the second result of \<open>cmd_client\<close>.\<close>

definition connection_specs :: "nat \<Rightarrow> registry \<Rightarrow> handler command_spec list" where
  "connection_specs server R =
     (let quick = FAST OR LOADING OR STALE; early = FAST OR LOADING OR STALE OR NOSCRIPT OR NO_SHARDS;
          spec = (\<lambda>name ar fl h. \<lparr>cs_name = ascii name, arity = ar, flags = fl, first_key = 0, last_key = 0, key_step = 0, handler = h, get_keys = None\<rparr>)
      in [spec ''ping'' (- 1) quick cmd_ping, spec ''echo'' 2 quick cmd_echo, spec ''select'' 2 quick cmd_select,
          spec ''quit'' (- 1) early cmd_quit, spec ''auth'' (- 2) early cmd_auth, spec ''hello'' (- 1) early cmd_hello,
          spec ''reset'' 1 early cmd_reset,
          spec ''client'' (- 2) (ADMIN OR NOSCRIPT OR LOADING OR STALE) (\<lambda>E c args. fst (cmd_client server R E c args))])"

end
