(* ===== verification/Conn.thy ===== *)
theory Conn
  imports Engine Resp_Parser Output Connection_Cmd
begin

text \<open>
  A connection, \<^verbatim>\<open>src/src/net/conn.rs\<close>: admission, the work done for each read (parse every complete request of the read
  buffer, dispatch it, suppress or keep its reply), the reaction to out-of-band messages and the state published for
  \<^verbatim>\<open>CLIENT LIST\<close>. The asynchronous runtime delivers reads, messages and timeouts; a step here is what the code does
  with one of them. Buffer capacities and memory sizes that only the allocator knows are parameters. The byte
  and read counters of the server's statistics are left out.
\<close>

definition READ_BUF :: nat where "READ_BUF = 16 * 1024"

definition BUF_SHRINK_THRESHOLD :: nat where "BUF_SHRINK_THRESHOLD = 256 * 1024"

definition CONFIG_RECHECK_BATCHES :: nat where "CONFIG_RECHECK_BATCHES = 256"

definition MAX_CLIENTS_ERROR :: bytes where
  "MAX_CLIENTS_ERROR = ascii ''-ERR max number of clients reached'' @ CRLF"

record conn =
  cn_read_buf :: bytes
  cn_out :: output_buffer
  cn_parser :: request_parser
  cn_limits :: output_limits
  cn_batches :: nat
  cn_read_size :: nat
  cn_read_peak :: nat
  cn_tot_net_in :: nat
  cn_tot_net_out :: nat

subsection \<open>Protocol errors\<close>

text \<open>A byte shown as a character: bytes from 0x80 are the Latin-1 characters, two bytes in UTF-8.\<close>

definition char_utf8 :: "byte \<Rightarrow> bytes" where
  "char_utf8 b = (if b < 0x80 then [b] else [0xC0 OR drop_bit 6 b, 0x80 OR (b AND 0x3F)])"

fun proto_error_text :: "proto_error \<Rightarrow> bytes" where
  "proto_error_text InvalidMultibulkLength = ascii ''Protocol error: invalid multibulk length''"
| "proto_error_text InvalidBulkLength = ascii ''Protocol error: invalid bulk length''"
| "proto_error_text (ExpectedDollar b) =
     ascii ''Protocol error: expected '' @ [39, 36, 39] @ ascii '', got '' @ [39] @ char_utf8 b @ [39]"
| "proto_error_text TooBigInline = ascii ''Protocol error: too big inline request''"
| "proto_error_text UnbalancedQuotes = ascii ''Protocol error: unbalanced quotes in request''"
| "proto_error_text TooBigMbulkCount = ascii ''Protocol error: too big mbulk count string''"
| "proto_error_text TooBigBulkCount = ascii ''Protocol error: too big bulk count string''"

definition wire_message :: "proto_error \<Rightarrow> bytes" where
  "wire_message e = ascii ''ERR '' @ proto_error_text e"

subsection \<open>Executing a batch\<close>

definition timeout_is_null_array :: "block_kind \<Rightarrow> bool" where
  "timeout_is_null_array k \<longleftrightarrow> k \<noteq> BlockWait"

definition staged :: "conn \<Rightarrow> bytes" where
  "staged cn = staging (cn_out cn)"

definition set_staged :: "bytes \<Rightarrow> conn \<Rightarrow> conn" where
  "set_staged b cn = cn\<lparr>cn_out := (cn_out cn)\<lparr>staging := b\<rparr>\<rparr>"

text \<open>One request: whether the connection closes, and what it leaves.\<close>

definition run_request :: "env \<Rightarrow> server \<Rightarrow> client_state \<Rightarrow> bytes \<Rightarrow> bytes list \<Rightarrow> bool \<times> server \<times> client_state \<times> bytes" where
  "run_request E s cl buf args =
     (let mark = length buf in
      case dispatch E s cl buf args of
        (Close, s, cl, buf) \<Rightarrow> (True, s, post_command cl, buf)
      | (oc, s, cl, buf) \<Rightarrow>
          (let buf = (case oc of
                        Blocked req \<Rightarrow>
                          rw_buf (if timeout_is_null_array (br_kind req) then reply_null_array (writer_new buf (cl_proto cl))
                                  else reply_int (env_itoa E) (writer_new buf (cl_proto cl)) 0)
                      | _ \<Rightarrow> buf);
               buf = (if reply_suppressed cl then take mark buf else buf)
           in (False, s, post_command cl, buf)))"

text \<open>The loop of \<^verbatim>\<open>execute_batch\<close>. That it returns is a property of the parser, so it is not assumed here.\<close>

partial_function (option) execute_batch :: "env \<Rightarrow> server \<Rightarrow> client_state \<Rightarrow> conn \<Rightarrow> (bool \<times> server \<times> client_state \<times> conn) option" where
  "execute_batch E s cl cn =
     (case parse (env_mc E) (cn_parser cn) (cn_read_buf cn) of
        (p, buf, r) \<Rightarrow>
          (let cn = cn\<lparr>cn_parser := p, cn_read_buf := buf\<rparr> in
           case r of
             Inl e \<Rightarrow>
               Some (True, s\<lparr>sv_error_replies := sv_error_replies s + 1\<rparr>, cl,
                 set_staged (rw_buf (reply_error_str (writer_new (staged cn) (cl_proto cl)) (wire_message e))) cn)
           | Inr Incomplete \<Rightarrow> Some (False, s, cl, cn)
           | Inr EmptyFrame \<Rightarrow> execute_batch E s cl cn
           | Inr (Command args) \<Rightarrow>
               (case run_request E s cl (staged cn) args of
                  (close, s, cl, b) \<Rightarrow>
                    if close then Some (True, s, cl, set_staged b cn) else execute_batch E s cl (set_staged b cn))))"

subsection \<open>The steps of a connection\<close>

definition admit :: "server \<Rightarrow> nat \<Rightarrow> nat \<Rightarrow> bytes \<Rightarrow> bytes \<Rightarrow> int \<Rightarrow> bool \<Rightarrow> bytes + client_state \<times> conn" where
  "admit s clients next_id addr laddr fd unix =
     (if clients \<ge> cfg_maxclients (sv_config s) then Inl MAX_CLIENTS_ERROR
      else
        (let cl = (client_new next_id addr laddr (sv_now s) (cfg_requirepass (sv_config s) \<noteq> None))\<lparr>cl_fd := fd\<rparr>;
             cl = (if unix then add_flag UNIX_SOCKET cl else cl)
         in Inr (cl, \<lparr>cn_read_buf = [], cn_out = output_new, cn_parser = parser_new (cfg_proto_max_bulk_len (sv_config s)),
                cn_limits = output_limits_default, cn_batches = 0, cn_read_size = READ_BUF, cn_read_peak = READ_BUF,
                cn_tot_net_in = 0, cn_tot_net_out = 0\<rparr>)))"

definition publish_conn :: "client_state \<Rightarrow> conn \<Rightarrow> nat \<Rightarrow> nat \<Rightarrow> conn_entry \<Rightarrow> conn_entry" where
  "publish_conn cl cn cap memory e =
     entry_update e (\<lambda>sn. (refresh_from sn cl)\<lparr>sn_qbuf := length (cn_read_buf cn), sn_qbuf_free := cap - length (cn_read_buf cn),
       sn_rbs := cn_read_size cn, sn_rbp := cn_read_peak cn, sn_obl := pending (cn_out cn), sn_oll := queued_frames (cn_out cn),
       sn_omem := peak_pending (cn_out cn), sn_tot_mem := memory + cn_read_size cn, sn_tot_net_in := cn_tot_net_in cn,
       sn_tot_net_out := cn_tot_net_out cn\<rparr>)"

text \<open>The bookkeeping for a read of \<open>chunk\<close>, which the runtime has appended to the read buffer, up to the batch.\<close>

definition note_read :: "server \<Rightarrow> client_state \<Rightarrow> conn \<Rightarrow> bytes \<Rightarrow> nat \<Rightarrow> nat \<Rightarrow> server \<times> client_state \<times> conn" where
  "note_read s cl cn chunk cap now =
     (let s = s\<lparr>sv_now := now\<rparr>;
          cn = cn\<lparr>cn_read_buf := cn_read_buf cn @ chunk, cn_tot_net_in := cn_tot_net_in cn + length chunk, cn_read_size := cap,
                  cn_read_peak := max cap (cn_read_peak cn), cn_batches := (cn_batches cn + 1) mod 2 ^ 32\<rparr>;
          cn = (if cn_batches cn mod CONFIG_RECHECK_BATCHES = 0
                then cn\<lparr>cn_parser := set_proto_max_bulk_len (cn_parser cn) (cfg_proto_max_bulk_len (sv_config s))\<rparr> else cn)
      in (s, cl\<lparr>cl_last_interaction_ms := now\<rparr>, cn))"

definition check_output_limit :: "client_state \<Rightarrow> conn \<Rightarrow> nat \<Rightarrow> limit_breach option \<times> conn" where
  "check_output_limit cl cn now =
     (let class = (if in_subscribe_mode cl then ClassPubSub else ClassNormal) in
      case check_limit (cn_out cn) (for_class (cn_limits cn) class) now of (r, o') \<Rightarrow> (r, cn\<lparr>cn_out := o'\<rparr>))"

definition conn_flush :: "bool \<Rightarrow> nat option list \<Rightarrow> conn \<Rightarrow> ((flush_error + unit) \<times> conn \<times> bytes) option" where
  "conn_flush vectored sched cn =
     (if output_is_empty (cn_out cn) then Some (Inr (), cn, [])
      else (case flush_out vectored sched (cn_out cn) of
              None \<Rightarrow> None
            | Some (Inl e, o', sent) \<Rightarrow> Some (Inl e, cn\<lparr>cn_out := o'\<rparr>, sent)
            | Some (Inr n, o', sent) \<Rightarrow> Some (Inr (), cn\<lparr>cn_out := o', cn_tot_net_out := cn_tot_net_out cn + n\<rparr>, sent)))"

text \<open>One turn of \<^verbatim>\<open>connection_loop\<close>: what the runtime's \<^verbatim>\<open>select\<close> delivers, the reaction to it, whether the loop ends and the
  bytes that reached the socket. \<open>None\<close> is a turn that waits for a socket that takes nothing more. The buffer
  capacity after the read, the clock and the schedule of writes are parameters; giving capacity back to the
  allocator (\<^verbatim>\<open>reclaim_buffers\<close>) changes no contents. A message of \<open>None\<close> is the closed channel.\<close>

datatype conn_event = Message "out_of_band option" | ReadSome bytes | ReadFailed | IdleTimeout

definition flush_then :: "bool \<Rightarrow> bool \<Rightarrow> nat option list \<Rightarrow> server \<Rightarrow> client_state \<Rightarrow> conn \<Rightarrow> (bool \<times> server \<times> client_state \<times> conn \<times> bytes) option" where
  "flush_then ends vectored sched s cl cn =
     (case conn_flush vectored sched cn of None \<Rightarrow> None | Some (r, cn, sent) \<Rightarrow> Some (isl r \<or> ends, s, cl, cn, sent))"

definition connection_step :: "env \<Rightarrow> bool \<Rightarrow> bool \<Rightarrow> nat option list \<Rightarrow> nat \<Rightarrow> nat \<Rightarrow> conn_event \<Rightarrow> server \<Rightarrow> client_state \<Rightarrow> conn
    \<Rightarrow> (bool \<times> server \<times> client_state \<times> conn \<times> bytes) option" where
  "connection_step E shutting_down vectored sched cap now ev s cl cn =
     (if shutting_down then Some (True, s, cl, cn, [])
      else (case ev of
              Message (Some (Frame f)) \<Rightarrow>
                (case check_output_limit cl (cn\<lparr>cn_out := push_bytes (cn_out cn) f\<rparr>) (sv_now s) of
                   (Some _, cn) \<Rightarrow> Some (True, s, cl, cn\<lparr>cn_out := discard (cn_out cn)\<rparr>, [])
                 | (None, cn) \<Rightarrow> flush_then False vectored sched s cl cn)
            | Message (Some (Unblock _)) \<Rightarrow> Some (False, s, cl, cn, [])
            | Message (Some Kill) \<Rightarrow> flush_then True vectored sched s cl cn
            | Message None \<Rightarrow> flush_then True vectored sched s cl cn
            | ReadSome chunk \<Rightarrow>
                if chunk = [] then Some (True, s, cl, cn, [])
                else (case note_read s cl cn chunk cap now of
                        (s, cl, cn) \<Rightarrow>
                          (case execute_batch E s cl cn of
                             None \<Rightarrow> None
                           | Some (close, s, cl, cn) \<Rightarrow> flush_then (close \<or> should_close cl) vectored sched s cl cn))
            | ReadFailed \<Rightarrow> Some (True, s, cl, cn, [])
            | IdleTimeout \<Rightarrow> Some (True, s, cl, cn, [])))"

end
