(* ===== verification/Connection_Proofs.thy ===== *)
theory Connection_Proofs
  imports Connection_Cmd Engine_Proofs Generic_Proofs
begin

text \<open>
  The connection commands: they change nothing but the client's own state and its output, and only the password
  authenticates a client. \<^verbatim>\<open>CLIENT KILL\<close> reaches exactly the connections its filter names.
\<close>

unbundle bit_operations_syntax

lemma xor_zero_iff: "x XOR y = 0 \<longleftrightarrow> x = (y :: 'a :: len word)"
  by (auto simp: bit_eq_iff bit_simps)

lemma diff_bytes_or: "diff_bytes xs ys d = d OR diff_bytes xs ys 0"
proof (induction xs arbitrary: ys d)
  case (Cons x xs)
  show ?case
  proof (cases ys)
    case [simp]: (Cons y zs)
    show ?thesis using Cons.IH [of zs "d OR (x XOR y)"] Cons.IH [of zs "x XOR y"] by (simp add: or.assoc)
  qed simp
qed simp

lemma constant_time_eq_iff: "constant_time_eq a b \<longleftrightarrow> a = b"
proof -
  have "length a = length b \<Longrightarrow> diff_bytes a b 0 = 0 \<longleftrightarrow> a = b"
  proof (induction a b rule: list_induct2)
    case (Cons x xs y ys)
    then show ?case using diff_bytes_or [of xs ys "x XOR y"] by (simp add: or_eq_0_iff xor_zero_iff)
  qed simp
  then show ?thesis by (auto simp: constant_time_eq_def)
qed

text \<open>The contract of a connection command: it writes to the output and to the client's own state and touches nothing
  else of its context; the output only grows; and a client it authenticates has sent the password.\<close>

definition quiet :: "ctx \<Rightarrow> ctx \<Rightarrow> bool" where
  "quiet c c' \<longleftrightarrow> c'\<lparr>out := out c, client := client c\<rparr> = c"

definition locked_out :: "string \<Rightarrow> ctx \<Rightarrow> bool" where
  "locked_out p c \<longleftrightarrow> cfg_requirepass (cfg c) = Some p \<and> \<not> cl_authenticated (client c)"

locale connection_handler =
  fixes h :: handler
  assumes touches_client: "quiet c (snd (h E c args))"
    and output_grows: "grows c (snd (h E c args))"
    and stays_out: "locked_out p c \<Longrightarrow> ascii p \<notin> set args \<Longrightarrow> locked_out p (snd (h E c args))"

lemma quiet_fields:
  assumes "quiet c c'" shows "c' = c\<lparr>out := out c', client := client c'\<rparr>"
proof -
  have "c\<lparr>out := out c', client := client c'\<rparr> = (c'\<lparr>out := out c, client := client c\<rparr>)\<lparr>out := out c', client := client c'\<rparr>"
    using assms by (simp add: quiet_def)
  then show ?thesis by simp
qed

lemma quiet_shape: "quiet c c' \<Longrightarrow> shape c' = shape c"
  by (subst quiet_fields) (simp_all add: shape_def)

sublocale connection_handler \<subseteq> command_handler
  by unfold_locales (simp_all add: quiet_shape touches_client output_grows)


subsection \<open>Every connection command keeps the contract\<close>

lemma quiet_refl [append_intros]: "quiet c c"
  by (simp add: quiet_def)

lemma quiet_steps [append_intros]:
  "quiet c c1 \<Longrightarrow> quiet c (with_out f c1)" "quiet c c1 \<Longrightarrow> quiet c (with_client g c1)" "quiet c c1 \<Longrightarrow> quiet c (int_out E v c1)"
  "quiet c c1 \<Longrightarrow> quiet c (with_proto n c1)" "quiet c c1 \<Longrightarrow> quiet c (set_name nm c1)" "quiet c c1 \<Longrightarrow> quiet c (set_authenticated c1)"
  "quiet c c1 \<Longrightarrow> quiet c (mark_command m c1)"
  by (auto simp: quiet_def with_out_def with_client_def int_out_def with_proto_def set_name_def set_authenticated_def mark_command_def)

lemma grows_client [append_intros]:
  "grows c c1 \<Longrightarrow> grows c (with_client g c1)" "grows c c1 \<Longrightarrow> grows c (with_proto n c1)" "grows c c1 \<Longrightarrow> grows c (set_name nm c1)"
  "grows c c1 \<Longrightarrow> grows c (set_authenticated c1)" "grows c c1 \<Longrightarrow> grows c (mark_command m c1)"
  by (auto simp: grows_def with_out_def with_client_def with_proto_def set_name_def set_authenticated_def mark_command_def)

named_theorems out_intros "a client without the password stays out"

lemma locked_steps [out_intros]:
  "locked_out p c \<Longrightarrow> locked_out p (with_out f c)" "locked_out p c \<Longrightarrow> locked_out p (int_out E v c)"
  "locked_out p c \<Longrightarrow> locked_out p (with_proto n c)" "locked_out p c \<Longrightarrow> locked_out p (set_name nm c)" "locked_out p c \<Longrightarrow> locked_out p (mark_command m c)"
  by (simp_all add: locked_out_def with_out_def with_client_def int_out_def with_proto_def set_name_def mark_command_def)

lemma locked_client [out_intros]: "(\<And>cl. cl_authenticated (g cl) \<Longrightarrow> cl_authenticated cl) \<Longrightarrow> locked_out p c \<Longrightarrow> locked_out p (with_client g c)"
  by (auto simp: locked_out_def with_client_def)

lemma check_auth_password: "locked_out p c \<Longrightarrow> check_auth c user pass = Inr u \<Longrightarrow> pass = ascii p"
  by (auto simp: check_auth_def locked_out_def constant_time_eq_iff split: if_splits)

interpretation ping_cmd: connection_handler cmd_ping
  by unfold_locales (auto simp: cmd_ping_def in_subscribe_mode_def Let_def intro!: append_intros out_intros split: list.split)

interpretation echo_cmd: connection_handler cmd_echo
  by unfold_locales (auto simp: cmd_echo_def intro!: append_intros out_intros split: sum.split)

interpretation select_cmd: connection_handler cmd_select
  by unfold_locales (auto simp: cmd_select_def intro!: append_intros out_intros split: sum.split option.split)

interpretation quit_cmd: connection_handler cmd_quit
  by unfold_locales (auto simp: cmd_quit_def close_after_reply_def add_flag_def intro!: append_intros out_intros)

interpretation auth_cmd: connection_handler cmd_auth
  by unfold_locales (auto simp: cmd_auth_def intro!: append_intros out_intros dest: check_auth_password split: sum.split list.split)

lemma hello_options_contract:
  "quiet c (snd (hello_options c opts))" "grows c (snd (hello_options c opts))"
  "locked_out p c \<Longrightarrow> ascii p \<notin> set opts \<Longrightarrow> locked_out p (snd (hello_options c opts))"
proof -
  have q: "quiet b c \<Longrightarrow> grows b c \<Longrightarrow> quiet b (snd (hello_options c opts)) \<and> grows b (snd (hello_options c opts))" for b
    by (induction c opts rule: hello_options.induct) (auto intro!: append_intros split: sum.split)
  show "quiet c (snd (hello_options c opts))" "grows c (snd (hello_options c opts))"
    using q [of c] by (simp_all add: append_intros)
  show "locked_out p c \<Longrightarrow> ascii p \<notin> set opts \<Longrightarrow> locked_out p (snd (hello_options c opts))"
  proof (induction c opts rule: hello_options.induct)
    case (2 c a rest)
    have d: "ascii p \<notin> set (drop n rest)" for n using 2(4) by (auto dest: in_set_dropD)
    have m: "2 \<le> length rest \<Longrightarrow> rest ! 1 \<in> set rest" by simp
    then have "check_auth c (Some (rest ! 0)) (rest ! 1) \<noteq> Inr u" if "2 \<le> length rest" for u
      using check_auth_password [OF 2(3), of "Some (rest ! 0)" "rest ! 1" u] m [OF that] 2(4) by auto
    then show ?case using 2 d by (auto intro!: out_intros split: sum.split)
  qed simp
qed

lemma appending_hello [append_intros]: "appending (hello_fields E proto cl)"
  by (simp add: appending_def hello_fields_def Let_def reply_bulk_def reply_int_def reply_array_def reply_map_def)

interpretation hello_cmd: connection_handler cmd_hello
proof unfold_locales
  fix E c args p
  note o = hello_options_contract [where c = c and opts = "drop 2 args"]
  obtain r c1 where h: "hello_options c (drop 2 args) = (r, c1)" by (rule prod.exhaust)
  show "quiet c (snd (cmd_hello E c args))" "grows c (snd (cmd_hello E c args))"
    using o h by (auto simp: cmd_hello_def intro!: append_intros split: sum.split)
  show "locked_out p (snd (cmd_hello E c args))" if "locked_out p c" "ascii p \<notin> set args"
    using o(3) [OF that(1)] that h by (auto simp: cmd_hello_def dest: in_set_dropD intro!: out_intros split: sum.split)
qed

interpretation reset_cmd: connection_handler cmd_reset
  by unfold_locales (auto simp: cmd_reset_def Let_def remove_flag_def multi_reset_def intro!: append_intros out_intros)

text \<open>The subcommands of \<^verbatim>\<open>CLIENT\<close>: one proof for each of the three parts of the contract.\<close>

lemma branches:
  "quiet c (snd x) \<Longrightarrow> quiet c (snd y) \<Longrightarrow> quiet c (snd (if b then x else y))"
  "grows c (snd x) \<Longrightarrow> grows c (snd y) \<Longrightarrow> grows c (snd (if b then x else y))"
  "locked_out p (snd x) \<Longrightarrow> locked_out p (snd y) \<Longrightarrow> locked_out p (snd (if b then x else y))"
  "quiet c c1 \<Longrightarrow> quiet c (snd (f c1)) \<Longrightarrow> quiet c (snd (guarded g c1 f))"
  "grows c c1 \<Longrightarrow> grows c (snd (f c1)) \<Longrightarrow> grows c (snd (guarded g c1 f))"
  "locked_out p c1 \<Longrightarrow> locked_out p (snd (f c1)) \<Longrightarrow> locked_out p (snd (guarded g c1 f))"
  by (simp_all add: guarded_def split: sum.split)

lemma set_flag_step:
  "quiet c c1 \<Longrightarrow> quiet c (snd (set_flag c1 args f))" "grows c c1 \<Longrightarrow> grows c (snd (set_flag c1 args f))"
  "locked_out p c \<Longrightarrow> locked_out p (snd (set_flag c args f))"
  by (auto simp: set_flag_def add_flag_def remove_flag_def intro!: append_intros out_intros)

lemma client_flag_step:
  "quiet c c1 \<Longrightarrow> quiet c (snd (client_flag c1 args f nm))" "grows c c1 \<Longrightarrow> grows c (snd (client_flag c1 args f nm))"
  "locked_out p c \<Longrightarrow> locked_out p (snd (client_flag c args f nm))"
  unfolding client_flag_def
  by (intro branches; simp add: case_prod_beta append_intros out_intros set_flag_step split: sum.split)+

lemma client_reply_step:
  "quiet c c1 \<Longrightarrow> quiet c (snd (client_reply c1 args))" "grows c c1 \<Longrightarrow> grows c (snd (client_reply c1 args))"
  "locked_out p c \<Longrightarrow> locked_out p (snd (client_reply c args))"
  by (auto simp: client_reply_def add_flag_def remove_flag_def intro!: append_intros out_intros)

lemma client_setinfo_step:
  "quiet c c1 \<Longrightarrow> quiet c (snd (client_setinfo c1 args))" "grows c c1 \<Longrightarrow> grows c (snd (client_setinfo c1 args))"
  "locked_out p c \<Longrightarrow> locked_out p (snd (client_setinfo c args))"
  by (auto simp: client_setinfo_def Let_def guarded_def intro!: append_intros out_intros split: sum.split)

lemma client_list_step:
  "quiet c c1 \<Longrightarrow> quiet c (snd (client_list sv R E c1 args))" "grows c c1 \<Longrightarrow> grows c (snd (client_list sv R E c1 args))"
  "locked_out p c \<Longrightarrow> locked_out p (snd (client_list sv R E c args))"
  by (auto simp: client_list_def intro!: append_intros out_intros split: sum.split)

lemma client_help_step:
  "quiet c c1 \<Longrightarrow> quiet c (snd (client_help E c1))" "grows c c1 \<Longrightarrow> grows c (snd (client_help E c1))"
  "locked_out p c \<Longrightarrow> locked_out p (snd (client_help E c))"
  by (auto simp: client_help_def intro!: append_intros out_intros appending_lines)

lemma client_kill_step:
  "quiet c c1 \<Longrightarrow> quiet c (snd (fst (client_kill sv R E c1 args)))" "grows c c1 \<Longrightarrow> grows c (snd (fst (client_kill sv R E c1 args)))"
  "locked_out p c \<Longrightarrow> locked_out p (snd (fst (client_kill sv R E c args)))"
  by (auto simp: client_kill_def case_prod_beta Let_def close_after_reply_def add_flag_def intro!: append_intros out_intros split: sum.split)

lemmas client_steps [append_intros, out_intros] = client_flag_step client_reply_step client_setinfo_step client_list_step client_help_step client_kill_step

lemma appending_name [append_intros]: "appending (\<lambda>w. if b then reply_null w else reply_bulk itoa w v)"
  by (cases b) (simp_all add: appending_replies)

lemma client_own_step:
  "quiet c c1 \<Longrightarrow> quiet c (snd (client_own sv R E c1 args sub))" "grows c c1 \<Longrightarrow> grows c (snd (client_own sv R E c1 args sub))"
  "locked_out p c \<Longrightarrow> locked_out p (snd (client_own sv R E c args sub))"
  unfolding client_own_def Let_def
  by (intro branches client_steps; simp add: append_intros out_intros)+

interpretation client_cmd: connection_handler "\<lambda>E c args. fst (cmd_client sv R E c args)" for sv R
  by unfold_locales (auto simp: cmd_client_def intro!: append_intros out_intros client_own_step split: sum.split)

lemma connection_handlers: "spec \<in> set (connection_specs sv R) \<Longrightarrow> connection_handler (handler spec)"
  by (auto simp: connection_specs_def Let_def ping_cmd.connection_handler_axioms echo_cmd.connection_handler_axioms
    select_cmd.connection_handler_axioms quit_cmd.connection_handler_axioms auth_cmd.connection_handler_axioms
    hello_cmd.connection_handler_axioms reset_cmd.connection_handler_axioms client_cmd.connection_handler_axioms)

subsection \<open>A client without the password\<close>

lemma connection_spec_keys:
  assumes "spec \<in> set (connection_specs sv R)"
  shows "shard_set_for E spec args m = []" "\<not> is_write spec" "\<not> flags_contain (flags spec) DENYOOM"
proof -
  have f: "flags spec \<in> {FAST OR LOADING OR STALE, FAST OR LOADING OR STALE OR NOSCRIPT OR NO_SHARDS, ADMIN OR NOSCRIPT OR LOADING OR STALE}" "first_key spec = 0"
    using assms by (auto simp: connection_specs_def Let_def)
  have "\<not> flags_contain (flags spec) x" if "x \<in> {ALL_SHARDS, MOVABLE_KEYS, WRITE, DENYOOM}" for x
    using f(1) that by (auto simp: flags_contain_def FAST_def LOADING_def STALE_def NOSCRIPT_def NO_SHARDS_def ADMIN_def
      ALL_SHARDS_def MOVABLE_KEYS_def WRITE_def DENYOOM_def)
  then show "shard_set_for E spec args m = []" "\<not> is_write spec" "\<not> flags_contain (flags spec) DENYOOM"
    using f(2) by (simp_all add: shard_set_for_def key_positions_def is_write_def set_finish_def)
qed

lemma run_connection_command:
  assumes spec: "spec \<in> set (connection_specs sv R)" and run: "run_command E s cl buf spec args = (oc, s', cl', buf')"
  shows "\<exists>n. s' = s\<lparr>sv_error_replies := n\<rparr>"
    and "cfg_requirepass (sv_config s) = Some p \<Longrightarrow> \<not> cl_authenticated cl \<Longrightarrow> ascii p \<notin> set args \<Longrightarrow> \<not> cl_authenticated cl'"
proof -
  let ?c = "ctx_new s cl (writer_new buf (cl_proto cl)) (lock_set (sv_shards s) [])"
  obtain r c where h: "handler spec E ?c args = (r, c)" by (rule prod.exhaust)
  note H = connection_handlers [OF spec] and keys = connection_spec_keys [OF spec]
  have q: "c = ?c\<lparr>out := out c, client := client c\<rparr>"
    using quiet_fields [OF connection_handler.touches_client [OF H, of ?c E args]] h by simp
  have fld: "shards c = lock_set (sv_shards s) []" "block c = None" "prop_kind c = PropDefault"
    by (subst q, simp add: ctx_new_def)+
  have rel: "release (sv_shards s) (lock_set (sv_shards s) []) = sv_shards s" by (simp add: release_def lock_set_def)
  have g: "propagate_command s spec n args x c = lock_set (sv_shards s) []" for n x
    by (simp add: propagate_command_def fld keys)
  have after: "server_after s c (lock_set (sv_shards s) []) = s"
    by (subst q) (simp add: server_after_def rel ctx_new_def)
  show "\<exists>n. s' = s\<lparr>sv_error_replies := n\<rparr>"
    using run h by (auto simp: run_command_def Let_def keys g after fld err_reply_def split: sum.splits
      intro: exI [of _ "sv_error_replies s"])
  have "cl' = client c" using run h by (auto simp: run_command_def Let_def keys g after fld err_reply_def split: sum.splits)
  then show "cfg_requirepass (sv_config s) = Some p \<Longrightarrow> \<not> cl_authenticated cl \<Longrightarrow> ascii p \<notin> set args \<Longrightarrow> \<not> cl_authenticated cl'"
    using connection_handler.stays_out [OF H, of p ?c args E] h by (simp add: locked_out_def ctx_new_def)
qed

text \<open>Registration refuses a second command of the same name, so the commands open to everybody are the ones of this
  component.\<close>

lemma open_commands:
  assumes "table_add_all table_new (connection_specs sv R @ others) = Some t" "table_lookup t nm = Some spec" "cs_name spec \<in> set no_auth_commands"
  shows "spec \<in> set (connection_specs sv R)"
proof -
  note iff = table_lookup_iff [OF assms(1)]
  have "cs_name spec \<in> cs_name ` set (connection_specs sv R)" using assms(3) by (auto simp: no_auth_commands_def connection_specs_def Let_def)
  then obtain x where x: "x \<in> set (connection_specs sv R)" "cs_name x = cs_name spec" by auto
  then have "table_lookup t nm = Some x" using assms(2) by (simp add: iff)
  then show ?thesis using assms(2) x by simp
qed

lemma dispatch_refused_client:
  assumes "args \<noteq> []" "refused s cl args"
  shows "\<exists>m b cl'. dispatch E s cl buf args = (Done, s\<lparr>sv_commands_processed := sv_commands_processed s + 1, sv_error_replies := m\<rparr>, cl', b)
    \<and> cl_authenticated cl' = cl_authenticated cl"
  using assms by (auto simp: dispatch_def refused_def Let_def intercept_def err_reply_def split: option.splits sum.splits)

lemma dispatch_locked_out:
  assumes table: "table_add_all table_new (connection_specs sv R @ others) = Some (sv_commands s)"
    and pass: "cfg_requirepass (sv_config s) = Some p" "\<not> cl_authenticated cl" "ascii p \<notin> set args"
    and d: "dispatch E s cl buf args = (oc, s', cl', buf')"
  shows "\<not> cl_authenticated cl'" "\<exists>n m. s' = s\<lparr>sv_commands_processed := n, sv_error_replies := m\<rparr>"
proof -
  have "\<not> cl_authenticated cl' \<and> (\<exists>n m. s' = s\<lparr>sv_commands_processed := n, sv_error_replies := m\<rparr>)"
  proof (cases "args = []")
    case True
    then have "cl' = cl" "s' = s\<lparr>sv_commands_processed := sv_commands_processed s, sv_error_replies := sv_error_replies s\<rparr>"
      using d by (simp_all add: dispatch_def)
    then show ?thesis using pass by blast
  next
    case args: False
    show ?thesis
    proof (cases "refused s cl args")
      case True
      show ?thesis using dispatch_refused_client [OF args True, of E buf] d pass(2) by auto
    next
      case False
      then obtain spec where l: "table_lookup (sv_commands s) (args_name args) = Some spec"
        by (auto simp: refused_def split: option.splits)
      with False pass(2) have "cs_name spec \<in> set no_auth_commands" by (auto simp: refused_def)
      note spec = open_commands [OF table l this]
      note run = run_connection_command [OF spec d [unfolded dispatch_run [OF args False l]]]
      from run(1) obtain n where "s' = s\<lparr>sv_commands_processed := sv_commands_processed s + 1, sv_error_replies := n\<rparr>" by auto
      then show ?thesis using run(2) [of p] pass by auto
    qed
  qed
  then show "\<not> cl_authenticated cl'" "\<exists>n m. s' = s\<lparr>sv_commands_processed := n, sv_error_replies := m\<rparr>" by simp_all
qed

text \<open>The right password opens the door.\<close>

definition auth_spec :: "handler command_spec" where
  "auth_spec = connection_specs 0 fmempty ! 4"

lemma auth_spec_registered: "auth_spec \<in> set (connection_specs sv R)" "cs_name auth_spec = ascii ''auth''" "arity auth_spec = - 2" "handler auth_spec = cmd_auth"
  by (simp_all add: auth_spec_def connection_specs_def Let_def)

lemma dispatch_auth:
  assumes table: "table_add_all table_new (connection_specs sv R @ others) = Some (sv_commands s)"
    and nm: "map to_ascii_lowercase nm = ascii ''auth''" and pass: "cfg_requirepass (sv_config s) = Some p"
    and d: "dispatch E s cl buf [nm, ascii p] = (oc, s', cl', buf')"
  shows "cl_authenticated cl'" "buf' = buf @ ascii ''+OK'' @ CRLF"
proof -
  have "length nm = 4" using arg_cong [OF nm, of length] by (simp add: ascii_def)
  then have l: "table_lookup (sv_commands s) nm = Some auth_spec"
    using auth_spec_registered by (auto simp: table_lookup_iff [OF table] nm MAX_CMD_NAME_def)
  note keys = connection_spec_keys [OF auth_spec_registered(1)]
  have "\<not> refused s cl [nm, ascii p]"
    by (simp add: refused_def l args_name_def arity_ok_def auth_spec_registered no_auth_commands_def keys)
  note run = dispatch_run [OF _ this, of auth_spec E buf, simplified args_name_def list.simps, OF _ l]
  show "cl_authenticated cl'" "buf' = buf @ ascii ''+OK'' @ CRLF"
    using d by (auto simp: run run_command_def Let_def auth_spec_registered keys cmd_auth_def check_auth_def pass ctx_new_def
      constant_time_eq_iff with_out_def set_authenticated_def with_client_def reply_ok_def writer_new_def emit_def)
qed

subsection \<open>Killing connections\<close>

definition kill_target :: "kill_filter \<Rightarrow> nat \<Rightarrow> conn_entry \<Rightarrow> bool" where
  "kill_target f now e \<longleftrightarrow> filter_matches f (ce_snapshot e) now"

text \<open>The connections a filter reaches, the caller apart, and what the caller's reply counts.\<close>

definition kills :: "kill_filter \<Rightarrow> nat \<Rightarrow> nat \<Rightarrow> conn_entry \<Rightarrow> bool" where
  "kills f me now e \<longleftrightarrow> kill_target f now e \<and> sn_id (ce_snapshot e) \<noteq> me"

definition kills_self :: "kill_filter \<Rightarrow> nat \<Rightarrow> nat \<Rightarrow> conn_entry \<Rightarrow> bool" where
  "kills_self f me now e \<longleftrightarrow> kill_target f now e \<and> sn_id (ce_snapshot e) = me \<and> \<not> kf_skipme f"

lemma kill_loop_step:
  "kill_loop server f me now (e # es) n b R =
   kill_loop server f me now es (if kills_self f me now e \<or> (kills f me now e \<and> ce_open e) then n + 1 else n) (b \<or> kills_self f me now e)
     (if kills f me now e then fmupd (server, ce_id e) (snd (entry_kill e)) R else R)"
  by (auto simp: Let_def kills_def kills_self_def kill_target_def entry_kill_def)

lemma kill_loop_result:
  "kill_loop server f me now es n b R = (n', b', R') \<Longrightarrow>
   n' = n + length (filter (\<lambda>e. kills_self f me now e \<or> (kills f me now e \<and> ce_open e)) es) \<and> (b' \<longleftrightarrow> b \<or> (\<exists>e \<in> set es. kills_self f me now e))"
proof (induction es arbitrary: n b R)
  case (Cons e es)
  from Cons.IH [OF Cons.prems [unfolded kill_loop_step]] show ?case by auto
qed simp

lemma kill_loop_table:
  "kill_loop server f me now es n b R = (n', b', R') \<Longrightarrow> distinct (map ce_id es) \<Longrightarrow> (\<forall>e \<in> set es. fmlookup R (server, ce_id e) = Some e) \<Longrightarrow>
   fmlookup R' k = (if \<exists>e \<in> set es. k = (server, ce_id e) \<and> kills f me now e then map_option (snd \<circ> entry_kill) (fmlookup R k) else fmlookup R k)"
proof (induction es arbitrary: n b R)
  case (Cons e es)
  let ?R = "if kills f me now e then fmupd (server, ce_id e) (snd (entry_kill e)) R else R"
  have ne: "ce_id e \<notin> ce_id ` set es" "distinct (map ce_id es)" using Cons.prems(2) by auto
  have "\<forall>x \<in> set es. fmlookup ?R (server, ce_id x) = Some x" using Cons.prems(3) ne(1) by (auto simp: image_iff)
  from Cons.IH [OF Cons.prems(1) [unfolded kill_loop_step] ne(2) this] show ?case
    using Cons.prems(3) ne(1) by (auto simp: image_iff)
qed simp

lemma reg_snapshot_lookup:
  assumes "reg_ok R" shows "\<forall>e \<in> set (reg_snapshot R server). fmlookup R (server, ce_id e) = Some e"
  using assms by (auto simp: set_reg_snapshot reg_ok_def)

lemma client_kill_new_form:
  assumes "3 < length args" "kill_options (drop 2 args) kill_filter_default = Inr f"
    "kill_loop server f (cl_id (client c)) (now_ms c) (reg_snapshot R server) 0 False R = (killed, kill_self, R')"
  shows "client_kill server R E c args = ((Inr (), if kill_self then with_client close_after_reply (int_out E (as_i64 killed) c) else int_out E (as_i64 killed) c), R')"
  using assms by (simp add: client_kill_def Let_def)

text \<open>C11. \<^verbatim>\<open>CLIENT KILL\<close> with filters reaches exactly the connections of this server that every filter matches: each of them but the
  caller receives one kill message, no other connection and no other server's is touched, the caller closes
  after its reply exactly when it matches and \<^verbatim>\<open>SKIPME no\<close> was given, and the reply is the number of connections reached.\<close>

theorem client_kill_exact:
  assumes "reg_ok R" and "3 < length args" and "kill_options (drop 2 args) kill_filter_default = Inr f"
    and "client_kill server R E c args = ((r, c'), R')"
  shows "fmlookup R' (srv, i) = map_option (\<lambda>e. if srv = server \<and> kills f (cl_id (client c)) (now_ms c) e then snd (entry_kill e) else e) (fmlookup R (srv, i))
    \<and> (let me = kills_self f (cl_id (client c)) (now_ms c);
           hit = (\<lambda>e. me e \<or> (kills f (cl_id (client c)) (now_ms c) e \<and> ce_open e));
           reply = int_out E (as_i64 (length (filter hit (reg_snapshot R server)))) c
       in r = Inr () \<and> c' = (if \<exists>e \<in> set (reg_snapshot R server). me e then with_client close_after_reply reply else reply))"
proof -
  obtain killed kill_self R1 where k: "kill_loop server f (cl_id (client c)) (now_ms c) (reg_snapshot R server) 0 False R = (killed, kill_self, R1)" by (rule prod_cases3)
  note res = kill_loop_result [OF k] and tab = kill_loop_table [OF k distinct_reg_snapshot [OF assms(1)] reg_snapshot_lookup [OF assms(1)], of "(srv, i)"]
  note new = client_kill_new_form [OF assms(2,3) k, of E, unfolded assms(4)]
  have "(\<exists>e \<in> set (reg_snapshot R server). (srv, i) = (server, ce_id e) \<and> kills f (cl_id (client c)) (now_ms c) e)
      \<longleftrightarrow> srv = server \<and> (\<exists>e. fmlookup R (srv, i) = Some e \<and> kills f (cl_id (client c)) (now_ms c) e)"
    using assms(1) by (auto simp: set_reg_snapshot reg_ok_def)
  then have "fmlookup R' (srv, i) = map_option (\<lambda>e. if srv = server \<and> kills f (cl_id (client c)) (now_ms c) e then snd (entry_kill e) else e) (fmlookup R (srv, i))"
    using tab new by (cases "fmlookup R (srv, i)") auto
  then show ?thesis using new res by (simp add: Let_def)
qed

abbreviation demo_entry :: "nat \<Rightarrow> byte \<Rightarrow> conn_entry" where
  "demo_entry i a \<equiv> conn_entry_new (snapshot_new (client_new i [a] [] 0 False) 3)"

abbreviation demo_registry :: registry where
  "demo_registry \<equiv> fmupd (0, 1) (demo_entry 1 97) (fmupd (0, 2) (demo_entry 2 98) fmempty)"

theorem client_kill_exact_witness:
  "\<exists>r c' R'. client_kill 0 demo_registry demo_env (demo_ctx 0) [ascii ''client'', ascii ''kill'', ascii ''ADDR'', [98]] = ((r, c'), R')
     \<and> map_option ce_inbox (fmlookup R' (0, 1)) = Some [] \<and> map_option ce_inbox (fmlookup R' (0, 2)) = Some [Kill]"
proof -
  let ?args = "[ascii ''client'', ascii ''kill'', ascii ''ADDR'', [98]]" and ?f = "kill_filter_default\<lparr>kf_addr := Some [98]\<rparr>"
  obtain r c' R' where k: "client_kill 0 demo_registry demo_env (demo_ctx 0) ?args = ((r, c'), R')" by (metis surj_pair)
  have ok: "reg_ok demo_registry" by (auto simp: reg_ok_def conn_entry_new_def snapshot_new_def client_new_def)
  have f: "kill_options (drop 2 ?args) kill_filter_default = Inr ?f"
    by (simp add: kill_option_def ascii_def eq_ignore_ascii_case_def to_ascii_lowercase_def is_ascii_uppercase_def)
  note x = client_kill_exact [OF ok _ f k, THEN conjunct1]
  have m: "cl_id (client (demo_ctx 0)) \<noteq> 2" by (simp add: demo_ctx_def client_new_def)
  have "map_option ce_inbox (fmlookup R' (0, 1)) = Some []" "map_option ce_inbox (fmlookup R' (0, 2)) = Some [Kill]"
    using x [of 0 1] x [of 0 2] m
    by (simp_all add: kills_def kill_target_def filter_matches_def kill_filter_default_def conn_entry_new_def snapshot_new_def client_new_def entry_kill_def)
  with k show ?thesis by blast
qed

end
