(* ===== verification/Conn_Proofs.thy ===== *)
theory Conn_Proofs
  imports Conn Resp_Proofs Connection_Proofs
begin

text \<open>
  Properties of whole connections: the batch loop returns and does not depend on how the network cuts the
  requests, and a client without the password stays harmless.
\<close>

subsection \<open>The batch loop\<close>

lemma parse_step_shrinks:
  assumes "parse_step find_byte p buf = Return p' buf' (Inr a)" "a \<noteq> Incomplete" "state_ok (length buf) (pr_state p)"
  shows "length buf' < length buf"
proof (cases "pr_state p")
  case (Inline sc)
  then obtain nl where nl: "find_abs 10 buf sc = Some nl" "buf' = drop (nl + 1) buf"
    using assms by (auto simp: parse_step_def step_inline_eq simp del: nth_opt_Some split: option.splits if_splits sum.splits)
  then show ?thesis using find_abs_bound [OF nl(1)] by auto
next
  case (MbulkHeader sc)
  then show ?thesis using assms
    by (auto simp: parse_step_def step_mbulk_header_def split: line.splits option.splits if_splits dest!: line_end_Found)
next
  case (BulkBody st len r)
  then show ?thesis using assms
    by (auto simp: parse_step_def step_bulk_body_def Let_def checked_add_def bind_eq_Some_conv split: option.splits if_splits)
qed (use assms in \<open>auto simp: parse_step_def step_bulk_header_def simp del: nth_opt_Some split: line.splits option.splits if_splits\<close>)

lemma parse_shrinks:
  "parse find_byte p buf = (p', buf', Inr a) \<Longrightarrow> a \<noteq> Incomplete \<Longrightarrow> state_ok (length buf) (pr_state p) \<Longrightarrow>
   length buf' < length buf \<and> pr_state p' = Start"
proof (induction "state_left (length buf) (pr_state p)" arbitrary: p rule: less_induct)
  case less
  show ?case
  proof (cases "parse_step find_byte p buf")
    case (Continue q)
    with less.prems have "parse find_byte q buf = (p', buf', Inr a)" by (simp add: parse.simps [of _ p])
    then show ?thesis using less.hyps [OF parse_step_progress [OF Continue]] continue_extend [OF Continue less.prems(3)] less.prems(2) by simp
  next
    case (Return q b r)
    with less.prems have s: "parse_step find_byte p buf = Return p' buf' (Inr a)" by (simp add: parse.simps)
    show ?thesis using parse_step_shrinks [OF s less.prems(2,3)] parse_step_resets [OF s less.prems(2)] by (simp add: reset_def)
  qed
qed

lemma set_staged_fields [simp]:
  "cn_parser (set_staged b cn) = cn_parser cn" "cn_read_buf (set_staged b cn) = cn_read_buf cn" "staged (set_staged b cn) = b"
  by (simp_all add: set_staged_def staged_def)

lemma batch_returns:
  assumes "memchr_spec (env_mc E)"
  shows "state_ok (length (cn_read_buf cn)) (pr_state (cn_parser cn)) \<Longrightarrow> \<exists>r. execute_batch E s cl cn = Some r"
proof (induction "length (cn_read_buf cn)" arbitrary: s cl cn rule: less_induct)
  case less
  have mc: "env_mc E = find_byte" using assms by (rule memchr_spec_eq)
  obtain p buf r where ps: "parse find_byte (cn_parser cn) (cn_read_buf cn) = (p, buf, r)" by (rule prod_cases3)
  have rec: "\<exists>x. execute_batch E s' cl' (set_staged b (cn\<lparr>cn_parser := p, cn_read_buf := buf\<rparr>)) = Some x"
    and rec': "\<exists>x. execute_batch E s' cl' (cn\<lparr>cn_parser := p, cn_read_buf := buf\<rparr>) = Some x"
    if "r = Inr a" "a \<noteq> Incomplete" for a s' cl' b
    using that parse_shrinks [OF ps [unfolded that(1)] that(2) less.prems]
    by (intro less.hyps; simp)+
  show ?case
    by (subst execute_batch.simps)
      (auto simp: mc ps Let_def simp del: split_paired_Ex split: sum.split parsed.split prod.split intro: rec rec' [of EmptyFrame])
qed

text \<open>Two ends of a batch that the client cannot tell apart: the same server, client, output and left-over bytes; the
  parser's state may differ only when the connection closes.\<close>

fun same_end :: "bool \<times> server \<times> client_state \<times> conn \<Rightarrow> bool \<times> server \<times> client_state \<times> conn \<Rightarrow> bool" where
  "same_end (c1, s1, cl1, cn1) (c2, s2, cl2, cn2) \<longleftrightarrow>
     c1 = c2 \<and> s1 = s2 \<and> cl1 = cl2 \<and> (\<exists>p. cn2 = cn1\<lparr>cn_parser := p\<rparr>) \<and> (c1 \<or> cn1 = cn2)"

lemma same_end_refl [simp]: "same_end x x"
  by (cases x rule: prod_cases4) (auto intro!: exI [of _ "cn_parser (snd (snd (snd x)))"])

lemma same_end_trans: "same_end x y \<Longrightarrow> same_end y z \<Longrightarrow> same_end x z"
  by (cases x rule: prod_cases4; cases y rule: prod_cases4; cases z rule: prod_cases4) auto

lemma rel_same_end_trans: "rel_option same_end x y \<Longrightarrow> rel_option same_end y z \<Longrightarrow> rel_option same_end x z"
  by (cases x; cases y; cases z) (auto dest: same_end_trans)

lemma rel_same_end_refl [simp]: "rel_option same_end x x"
  by (cases x) simp_all

lemma batch_same_parser:
  assumes "env_mc E = find_byte" "same_outcome (parse find_byte p1 b) (parse find_byte p2 b)"
  shows "rel_option same_end (execute_batch E s cl (cn\<lparr>cn_parser := p1, cn_read_buf := b\<rparr>)) (execute_batch E s cl (cn\<lparr>cn_parser := p2, cn_read_buf := b\<rparr>))"
proof -
  obtain q1 b1 r1 where 1: "parse find_byte p1 b = (q1, b1, r1)" by (rule prod_cases3)
  obtain q2 b2 r2 where 2: "parse find_byte p2 b = (q2, b2, r2)" by (rule prod_cases3)
  have e: "b2 = b1" "r2 = r1" "isl r1 \<or> q1 = q2" using assms(2) 1 2 by auto
  show ?thesis
  proof (cases r1)
    case (Inl x)
    then show ?thesis using e by (subst (1 2) execute_batch.simps) (simp add: assms(1) 1 2 Let_def set_staged_def staged_def, rule exI [of _ q2], simp)
  next
    case (Inr x)
    then have "q2 = q1" using e by simp
    then have "execute_batch E s cl (cn\<lparr>cn_parser := p1, cn_read_buf := b\<rparr>) = execute_batch E s cl (cn\<lparr>cn_parser := p2, cn_read_buf := b\<rparr>)"
      using e 1 2 assms(1) execute_batch.simps [of E s cl "cn\<lparr>cn_parser := p1, cn_read_buf := b\<rparr>"]
        execute_batch.simps [of E s cl "cn\<lparr>cn_parser := p2, cn_read_buf := b\<rparr>"] by simp
    then show ?thesis by simp
  qed
qed

lemma staged_fields [simp]: "staged (cn\<lparr>cn_read_buf := b\<rparr>) = staged cn" "staged (cn\<lparr>cn_parser := p\<rparr>) = staged cn"
  by (simp_all add: staged_def)

lemma set_staged_swap [simp]:
  "(set_staged a cn)\<lparr>cn_read_buf := b\<rparr> = set_staged a (cn\<lparr>cn_read_buf := b\<rparr>)" "(set_staged a cn)\<lparr>cn_parser := p\<rparr> = set_staged a (cn\<lparr>cn_parser := p\<rparr>)"
  by (simp_all add: set_staged_def)

lemma batch_split:
  assumes mc: "env_mc E = find_byte"
  shows "execute_batch E s cl cn = Some (False, s1, cl1, cn1) \<Longrightarrow> state_ok (length (cn_read_buf cn)) (pr_state (cn_parser cn)) \<Longrightarrow>
    state_ok (length (cn_read_buf cn1)) (pr_state (cn_parser cn1)) \<and>
    rel_option same_end (execute_batch E s1 cl1 (cn1\<lparr>cn_read_buf := cn_read_buf cn1 @ x\<rparr>)) (execute_batch E s cl (cn\<lparr>cn_read_buf := cn_read_buf cn @ x\<rparr>))"
proof (induction "length (cn_read_buf cn)" arbitrary: s cl cn rule: less_induct)
  case less
  let ?b = "cn_read_buf cn"
  obtain p buf r where ps: "parse find_byte (cn_parser cn) ?b = (p, buf, r)" by (rule prod_cases3)
  note run = less.prems(1) [unfolded execute_batch.simps [of E s cl cn] mc ps]
  consider (bad) e where "r = Inl e" | (inc) "r = Inr Incomplete" | (got) a where "r = Inr a" "a \<noteq> Incomplete" by (cases r) auto
  then show ?case
  proof cases
    case bad then show ?thesis using run by (simp add: Let_def)
  next
    case inc
    note res = parse_resume [OF ps [unfolded inc] less.prems(2), of x]
    have e: "s1 = s" "cl1 = cl" "cn1 = cn\<lparr>cn_parser := p, cn_read_buf := buf\<rparr>" using run inc by (auto simp: Let_def)
    have "rel_option same_end (execute_batch E s cl (cn\<lparr>cn_parser := p, cn_read_buf := ?b @ x\<rparr>)) (execute_batch E s cl (cn\<lparr>cn_parser := cn_parser cn, cn_read_buf := ?b @ x\<rparr>))"
      by (rule batch_same_parser [OF mc]) (use res in blast)
    then show ?thesis using res by (simp add: e)
  next
    case got
    have ext: "parse find_byte (cn_parser cn) (?b @ x) = (p, buf @ x, r)"
      by (rule parse_extend [OF ps less.prems(2)]) (use got in \<open>auto simp: too_big_def\<close>)
    note sh = parse_shrinks [OF ps [unfolded got(1)] got(2) less.prems(2)]
    let ?cn = "cn\<lparr>cn_parser := p, cn_read_buf := buf\<rparr>"
    note step = execute_batch.simps [of E s cl "cn\<lparr>cn_read_buf := ?b @ x\<rparr>"]
    show ?thesis
    proof (cases a)
      case (Command args)
      obtain close s2 cl2 b2 where rq: "run_request E s cl (staged cn) args = (close, s2, cl2, b2)" by (rule prod_cases4)
      then have go: "\<not> close" "execute_batch E s2 cl2 (set_staged b2 ?cn) = Some (False, s1, cl1, cn1)"
        using run got Command by (auto simp: Let_def split: if_splits)
      have "execute_batch E s cl (cn\<lparr>cn_read_buf := ?b @ x\<rparr>) = execute_batch E s2 cl2 ((set_staged b2 ?cn)\<lparr>cn_read_buf := buf @ x\<rparr>)"
        using go(1) rq got Command by (subst step) (simp add: mc ext Let_def)
      then show ?thesis using less.hyps [OF _ go(2)] sh by simp
    next
      case EmptyFrame
      then have go: "execute_batch E s cl ?cn = Some (False, s1, cl1, cn1)" using run got by (simp add: Let_def)
      have "execute_batch E s cl (cn\<lparr>cn_read_buf := ?b @ x\<rparr>) = execute_batch E s cl (?cn\<lparr>cn_read_buf := buf @ x\<rparr>)"
        using got EmptyFrame by (subst step) (simp add: mc ext Let_def)
      then show ?thesis using less.hyps [OF _ go] sh by simp
    qed (use got in simp)
  qed
qed

text \<open>A connection that receives its bytes in chunks, one batch for each.\<close>

fun serve :: "env \<Rightarrow> server \<Rightarrow> client_state \<Rightarrow> conn \<Rightarrow> bytes list \<Rightarrow> (bool \<times> server \<times> client_state \<times> conn) option" where
  "serve E s cl cn [] = Some (False, s, cl, cn)"
| "serve E s cl cn (c # cs) =
     (case execute_batch E s cl (cn\<lparr>cn_read_buf := cn_read_buf cn @ c\<rparr>) of
        None \<Rightarrow> None
      | Some (close, s, cl, cn) \<Rightarrow> if close then Some (True, s, cl, cn) else serve E s cl cn cs)"

lemma serve_joined:
  assumes mc: "env_mc E = find_byte"
  shows "serve E s cl cn cs = Some (False, s1, cl1, cn1) \<Longrightarrow> state_ok (length (cn_read_buf cn)) (pr_state (cn_parser cn)) \<Longrightarrow>
    rel_option same_end (execute_batch E s1 cl1 (cn1\<lparr>cn_read_buf := cn_read_buf cn1 @ x\<rparr>))
      (execute_batch E s cl (cn\<lparr>cn_read_buf := cn_read_buf cn @ concat cs @ x\<rparr>))"
proof (induction cs arbitrary: s cl cn)
  case (Cons c cs)
  let ?cn = "cn\<lparr>cn_read_buf := cn_read_buf cn @ c\<rparr>"
  from Cons.prems(1) obtain s2 cl2 cn2 where b: "execute_batch E s cl ?cn = Some (False, s2, cl2, cn2)" "serve E s2 cl2 cn2 cs = Some (False, s1, cl1, cn1)"
    by (auto split: option.splits if_splits)
  have ok: "state_ok (length (cn_read_buf ?cn)) (pr_state (cn_parser ?cn))" using Cons.prems(2) by (auto intro: state_ok_mono)
  note sp = batch_split [OF mc b(1) ok, of "concat cs @ x"]
  from rel_same_end_trans [OF Cons.IH [OF b(2) conjunct1 [OF sp]] conjunct2 [OF sp]] show ?case by simp
qed simp


lemma same_end_explicit:
  assumes "rel_option same_end a b" "\<exists>r. a = Some r"
  shows "\<exists>c s cl cn p. a = Some (c, s, cl, cn) \<and> b = Some (c, s, cl, cn\<lparr>cn_parser := p\<rparr>) \<and> (c \<or> p = cn_parser cn)"
proof -
  obtain c s cl cn where a: "a = Some (c, s, cl, cn)" using assms(2) by (cases a) auto
  from assms(1) obtain p cn2 where "b = Some (c, s, cl, cn2)" "cn2 = cn\<lparr>cn_parser := p\<rparr>" "c \<or> cn = cn2" by (cases b) (auto simp: a)
  then have "b = Some (c, s, cl, cn\<lparr>cn_parser := p\<rparr>) \<and> (c \<or> cn\<lparr>cn_parser := p\<rparr> = cn)" by auto
  then have "b = Some (c, s, cl, cn\<lparr>cn_parser := (if c then p else cn_parser cn)\<rparr>)" by auto
  with a show ?thesis by fastforce
qed

subsection \<open>Turns of the connection loop\<close>

text \<open>Between two turns a connection has sent everything, and its parser's state fits the buffered bytes.\<close>

definition conn_inv :: "conn \<Rightarrow> bool" where
  "conn_inv cn \<longleftrightarrow> out_inv (cn_out cn) \<and> out_bytes (cn_out cn) = [] \<and> state_ok (length (cn_read_buf cn)) (pr_state (cn_parser cn))"

lemma batch_writes_staging:
  assumes "execute_batch E s cl cn = Some y"
  shows "\<exists>b. cn_out (snd (snd (snd y))) = (cn_out cn)\<lparr>staging := b\<rparr>"
proof (rule execute_batch.raw_induct [where P = "\<lambda>E s cl cn y. \<exists>b. cn_out (snd (snd (snd y))) = (cn_out cn)\<lparr>staging := b\<rparr>", OF _ assms])
  fix batch :: "env \<Rightarrow> server \<Rightarrow> client_state \<Rightarrow> conn \<Rightarrow> (bool \<times> server \<times> client_state \<times> conn) option"
    and E :: env and s :: server and cl :: client_state and cn :: conn and y :: "bool \<times> server \<times> client_state \<times> conn"
  assume IH: "\<And>E s cl cn y. batch E s cl cn = Some y \<Longrightarrow> \<exists>b. cn_out (snd (snd (snd y))) = (cn_out cn)\<lparr>staging := b\<rparr>"
  have keep: "\<exists>b. out = (out :: output_buffer)\<lparr>staging := b\<rparr>" for out by (rule exI [of _ "staging out"]) simp
  assume "(case parse (env_mc E) (cn_parser cn) (cn_read_buf cn) of
        (p, buf, r) \<Rightarrow>
          (let cn = cn\<lparr>cn_parser := p, cn_read_buf := buf\<rparr> in
           case r of
             Inl e \<Rightarrow>
               Some (True, s\<lparr>sv_error_replies := sv_error_replies s + 1\<rparr>, cl,
                 set_staged (rw_buf (reply_error_str (writer_new (staged cn) (cl_proto cl)) (wire_message e))) cn)
           | Inr Incomplete \<Rightarrow> Some (False, s, cl, cn)
           | Inr EmptyFrame \<Rightarrow> batch E s cl cn
           | Inr (Command args) \<Rightarrow>
               (case run_request E s cl (staged cn) args of
                  (close, s, cl, b) \<Rightarrow>
                    if close then Some (True, s, cl, set_staged b cn) else batch E s cl (set_staged b cn)))) = Some y"
  then show "\<exists>b. cn_out (snd (snd (snd y))) = (cn_out cn)\<lparr>staging := b\<rparr>"
    by (auto simp: Let_def set_staged_def keep split: prod.splits sum.splits parsed.splits if_splits dest!: IH)
qed

lemma out_bytes_stage: "out_inv b \<Longrightarrow> out_bytes b = [] \<Longrightarrow> out_bytes (b\<lparr>staging := x\<rparr>) = x"
  by (auto simp: out_bytes_def)

lemma conn_flush_inv:
  assumes "out_inv (cn_out cn)" "conn_flush vectored sched cn = Some (r, cn', sent)"
  shows "out_inv (cn_out cn')" "sent @ out_bytes (cn_out cn') = out_bytes (cn_out cn)" "\<not> isl r \<Longrightarrow> out_bytes (cn_out cn') = []"
    "cn_read_buf cn' = cn_read_buf cn" "cn_parser cn' = cn_parser cn"
proof -
  have "out_inv (cn_out cn') \<and> sent @ out_bytes (cn_out cn') = out_bytes (cn_out cn) \<and> (\<not> isl r \<longrightarrow> out_bytes (cn_out cn') = [])
    \<and> cn_read_buf cn' = cn_read_buf cn \<and> cn_parser cn' = cn_parser cn"
  proof (cases "output_is_empty (cn_out cn)")
    case True
    then show ?thesis using assms by (auto simp: conn_flush_def output_is_empty_def pending_out_bytes)
  next
    case False
    then obtain q b' where f: "flush_out vectored sched (cn_out cn) = Some (q, b', sent)" "isl r = isl q" "cn_out cn' = b'"
      "cn_read_buf cn' = cn_read_buf cn" "cn_parser cn' = cn_parser cn"
      using assms(2) by (auto simp: conn_flush_def split: option.splits sum.splits)
    then show ?thesis using flush_out_inv [OF assms(1) f(1)] by (cases q) auto
  qed
  then show "out_inv (cn_out cn')" "sent @ out_bytes (cn_out cn') = out_bytes (cn_out cn)" "\<not> isl r \<Longrightarrow> out_bytes (cn_out cn') = []"
    "cn_read_buf cn' = cn_read_buf cn" "cn_parser cn' = cn_parser cn" by simp_all
qed

lemma flush_then_inv:
  assumes "flush_then ends vectored sched s cl cn = Some (ended, s', cl', cn', sent)" "out_inv (cn_out cn)"
    "\<not> ends \<Longrightarrow> state_ok (length (cn_read_buf cn)) (pr_state (cn_parser cn))"
  shows "sent @ out_bytes (cn_out cn') = out_bytes (cn_out cn)" "\<not> ended \<Longrightarrow> conn_inv cn' \<and> sent = out_bytes (cn_out cn)" "s' = s" "cl' = cl"
proof -
  from assms(1) obtain r where f: "conn_flush vectored sched cn = Some (r, cn', sent)" "ended = (isl r \<or> ends)" "s' = s" "cl' = cl"
    by (auto simp: flush_then_def split: option.splits)
  note i = conn_flush_inv [OF assms(2) f(1)]
  show "sent @ out_bytes (cn_out cn') = out_bytes (cn_out cn)" "s' = s" "cl' = cl" by (fact i(2) f(3,4))+
  show "\<not> ended \<Longrightarrow> conn_inv cn' \<and> sent = out_bytes (cn_out cn)" using i f(2) assms(3) by (auto simp: conn_inv_def)
qed

lemma note_read_fields:
  assumes "note_read s cl cn chunk cap now = (s1, cl1, cn1)" "conn_inv cn"
  shows "cn_out cn1 = cn_out cn" "cn_read_buf cn1 = cn_read_buf cn @ chunk" "state_ok (length (cn_read_buf cn1)) (pr_state (cn_parser cn1))"
  using assms by (auto simp: note_read_def Let_def conn_inv_def set_proto_max_bulk_len_def intro: state_ok_mono split: if_splits)

lemma connection_step_read:
  assumes mc: "memchr_spec (env_mc E)" and inv: "conn_inv cn" and chunk: "chunk \<noteq> []"
    and step: "connection_step E False vectored sched cap now (ReadSome chunk) s cl cn = Some (ended, s', cl', cn', sent)"
    and nr: "note_read s cl cn chunk cap now = (s1, cl1, cn1)"
  shows "\<exists>close cn2. execute_batch E s1 cl1 cn1 = Some (close, s', cl', cn2) \<and> sent @ out_bytes (cn_out cn') = staged cn2
    \<and> (\<not> ended \<longrightarrow> conn_inv cn' \<and> sent = staged cn2)"
proof -
  note n = note_read_fields [OF nr inv]
  from batch_returns [OF mc n(3)] obtain close s2 cl2 cn2 where b: "execute_batch E s1 cl1 cn1 = Some (close, s2, cl2, cn2)" by (metis prod_cases4)
  obtain x where x: "cn_out cn2 = (cn_out cn)\<lparr>staging := x\<rparr>" using batch_writes_staging [OF b] n(1) by auto
  have o: "out_inv (cn_out cn2)" "out_bytes (cn_out cn2) = staged cn2"
    using inv by (simp_all add: x conn_inv_def out_inv_stage out_bytes_stage staged_def)
  have ok: "\<not> (close \<or> should_close cl2) \<Longrightarrow> state_ok (length (cn_read_buf cn2)) (pr_state (cn_parser cn2))"
    using batch_split [OF memchr_spec_eq [OF mc], of s1 cl1 cn1 s2 cl2 cn2] b n(3) by auto
  have "flush_then (close \<or> should_close cl2) vectored sched s2 cl2 cn2 = Some (ended, s', cl', cn', sent)"
    using step chunk by (simp add: connection_step_def nr b)
  from flush_then_inv [OF this o(1) ok] b o(2) show ?thesis by auto
qed

lemma connection_step_inv:
  assumes "memchr_spec (env_mc E)" "conn_inv cn" "connection_step E down vectored sched cap now ev s cl cn = Some (ended, s', cl', cn', sent)" "\<not> ended"
  shows "conn_inv cn'"
proof (cases ev)
  case (ReadSome chunk)
  have c: "chunk \<noteq> []" "\<not> down" using assms(3,4) ReadSome by (auto simp: connection_step_def split: if_splits)
  obtain s1 cl1 cn1 where nr: "note_read s cl cn chunk cap now = (s1, cl1, cn1)" by (rule prod_cases3)
  have "connection_step E False vectored sched cap now (ReadSome chunk) s cl cn = Some (ended, s', cl', cn', sent)" using assms(3) ReadSome c(2) by simp
  from connection_step_read [OF assms(1,2) c(1) this nr] show ?thesis using assms(4) by blast
next
  case (Message m)
  show ?thesis
  proof (cases "\<exists>f. m = Some (Frame f)")
    case True
    then obtain f where f: "m = Some (Frame f)" by blast
    let ?cn = "cn\<lparr>cn_out := push_bytes (cn_out cn) f\<rparr>"
    obtain r cn1 where k: "check_output_limit cl ?cn (sv_now s) = (r, cn1)" by (rule prod.exhaust)
    have o: "out_inv (cn_out cn1)" "cn_read_buf cn1 = cn_read_buf cn" "cn_parser cn1 = cn_parser cn"
      using k assms(2) push_bytes_inv [of "cn_out cn" f]
      by (auto simp: check_output_limit_def conn_inv_def Let_def dest: check_limit_inv split: prod.splits)
    have "flush_then False vectored sched s cl cn1 = Some (ended, s', cl', cn', sent)"
      using assms(3,4) Message f k by (auto simp: connection_step_def split: if_splits option.splits)
    from flush_then_inv [OF this o(1)] assms(2,4) o show ?thesis by (auto simp: conn_inv_def)
  next
    case False
    then show ?thesis using assms(2-4) Message
      by (auto simp: connection_step_def flush_then_def split: if_splits option.splits out_of_band.splits)
  qed
qed (use assms in \<open>auto simp: connection_step_def split: if_splits\<close>)

subsection \<open>Sessions\<close>

text \<open>The requests of a session, one after the other until the connection closes.\<close>

fun run_requests :: "env \<Rightarrow> server \<Rightarrow> client_state \<Rightarrow> bytes \<Rightarrow> bytes list list \<Rightarrow> bool \<times> server \<times> client_state \<times> bytes" where
  "run_requests E s cl buf [] = (False, s, cl, buf)"
| "run_requests E s cl buf (args # reqs) =
     (case run_request E s cl buf args of (close, s, cl, buf) \<Rightarrow> if close then (True, s, cl, buf) else run_requests E s cl buf reqs)"

lemma post_command_auth [simp]: "cl_authenticated (post_command cl) = cl_authenticated cl"
  by (simp add: post_command_def Let_def add_flag_def remove_flag_def)

lemma run_request_dispatch:
  assumes "run_request E s cl buf args = (close, s', cl', buf')"
  shows "\<exists>oc cl1 buf1. dispatch E s cl buf args = (oc, s', cl1, buf1) \<and> cl' = post_command cl1"
  using assms by (auto simp: run_request_def Let_def split: prod.splits outcome.splits)

lemma run_requests_locked_out:
  "run_requests E s cl buf reqs = (close, s', cl', buf') \<Longrightarrow> table_add_all table_new (connection_specs sv R @ others) = Some (sv_commands s) \<Longrightarrow>
   cfg_requirepass (sv_config s) = Some p \<Longrightarrow> \<not> cl_authenticated cl \<Longrightarrow> (\<forall>args \<in> set reqs. ascii p \<notin> set args) \<Longrightarrow>
   \<not> cl_authenticated cl' \<and> (\<exists>n m. s' = s\<lparr>sv_commands_processed := n, sv_error_replies := m\<rparr>)"
proof (induction reqs arbitrary: s cl buf)
  case Nil
  have "s = s\<lparr>sv_commands_processed := sv_commands_processed s, sv_error_replies := sv_error_replies s\<rparr>" by simp
  then have "\<exists>n m. s = s\<lparr>sv_commands_processed := n, sv_error_replies := m\<rparr>" by blast
  then show ?case using Nil by simp
next
  case (Cons args reqs)
  obtain c1 s1 cl1 b1 where r: "run_request E s cl buf args = (c1, s1, cl1, b1)" by (rule prod_cases4)
  from run_request_dispatch [OF r] obtain oc cl2 b2 where d: "dispatch E s cl buf args = (oc, s1, cl2, b2)" "cl1 = post_command cl2" by auto
  have "ascii p \<notin> set args" using Cons.prems(5) by simp
  note step = dispatch_locked_out [OF Cons.prems(2-4) this d(1)]
  from step(2) obtain n m where s1: "s1 = s\<lparr>sv_commands_processed := n, sv_error_replies := m\<rparr>" by auto
  show ?case
  proof (cases c1)
    case True then show ?thesis using Cons.prems(1) r step d(2) s1 by auto
  next
    case False
    then have "run_requests E s1 cl1 b1 reqs = (close, s', cl', buf')" using Cons.prems(1) r by simp
    from Cons.IH [OF this] Cons.prems(2-5) step(1) d(2) show ?thesis by (auto simp: s1)
  qed
qed

subsection \<open>Properties\<close>

abbreviation demo_server :: server where
  "demo_server \<equiv> server_new 1 config_default 0 table_new"

abbreviation demo_client :: client_state where
  "demo_client \<equiv> client_new 1 [] [] 0 False"

abbreviation demo_conn :: conn where
  "demo_conn \<equiv> \<lparr>cn_read_buf = [], cn_out = output_new, cn_parser = parser_new 100, cn_limits = output_limits_default, cn_batches = 0,
     cn_read_size = READ_BUF, cn_read_peak = READ_BUF, cn_tot_net_in = 0, cn_tot_net_out = 0\<rparr>"



text \<open>C9. A turn of the connection loop that reads bytes answers them: the batch it runs returns, what reaches the socket followed by
  what stays buffered is exactly the batch's output, in order, whatever sizes the socket takes, and a turn after which the
  connection goes on has sent all of it and leaves the connection ready for the next turn. Every other turn that goes on
  leaves it ready too.\<close>

theorem connection_turn_answers:
  assumes "memchr_spec (env_mc E)" and "conn_inv cn"
    and "connection_step E down vectored sched cap now ev s cl cn = Some (ended, s', cl', cn', sent)"
  shows "(\<not> ended \<longrightarrow> conn_inv cn') \<and>
    (\<forall>chunk s1 cl1 cn1. ev = ReadSome chunk \<and> chunk \<noteq> [] \<and> \<not> down \<and> note_read s cl cn chunk cap now = (s1, cl1, cn1) \<longrightarrow>
      (\<exists>close cn2. execute_batch E s1 cl1 cn1 = Some (close, s', cl', cn2) \<and> sent @ out_bytes (cn_out cn') = staged cn2 \<and>
         (\<not> ended \<longrightarrow> sent = staged cn2)))"
proof (intro conjI allI impI)
  show "\<not> ended \<Longrightarrow> conn_inv cn'" by (rule connection_step_inv [OF assms])
next
  fix chunk s1 cl1 cn1
  assume a: "ev = ReadSome chunk \<and> chunk \<noteq> [] \<and> \<not> down \<and> note_read s cl cn chunk cap now = (s1, cl1, cn1)"
  then have "connection_step E False vectored sched cap now (ReadSome chunk) s cl cn = Some (ended, s', cl', cn', sent)" using assms(3) by simp
  from connection_step_read [OF assms(1,2) _ this] a
  show "\<exists>close cn2. execute_batch E s1 cl1 cn1 = Some (close, s', cl', cn2) \<and> sent @ out_bytes (cn_out cn') = staged cn2 \<and> (\<not> ended \<longrightarrow> sent = staged cn2)"
    by blast
qed

theorem connection_turn_answers_witness:
  "\<exists>s' cl' cn' ended. connection_step demo_env False True [] 16384 7 (ReadSome [42]) demo_server demo_client demo_conn = Some (ended, s', cl', cn', []) \<and> conn_inv cn'"
proof -
  let ?p = "(parser_new 100)\<lparr>pr_state := MbulkHeader 1\<rparr>"
  have "parse find_byte (parser_new 100) [42] = (?p, [42], Inr Incomplete)"
    by (simp add: parse.simps parse_step_def parser_new_def step_mbulk_header_def line_end_def slice_get_def INLINE_MAX_SIZE_def)
  then obtain s' cl' cn' where st: "connection_step demo_env False True [] 16384 7 (ReadSome [42]) demo_server demo_client demo_conn = Some (False, s', cl', cn', [])"
    by (simp add: connection_step_def note_read_def CONFIG_RECHECK_BATCHES_def execute_batch.simps demo_env_def Let_def flush_then_def conn_flush_def
      output_is_empty_def pending_def output_new_def should_close_def client_new_def has_flag_def CLOSE_AFTER_REPLY_def)
  have "memchr_spec (env_mc demo_env)" "conn_inv demo_conn"
    by (simp_all add: conn_inv_def out_inv_new demo_env_def memchr_spec_find_byte parser_new_def)
  from connection_turn_answers [OF this st] st show ?thesis by blast
qed

text \<open>C7. A password protects the data: with \<^verbatim>\<open>requirepass\<close> set, whatever a client that is not authenticated sends, as long as no
  argument is the password, it stays unauthenticated and the server stays as it was, keys, configuration and
  statistics of the keyspace included; only the counters of commands and of error replies move.\<close>

theorem password_protects_server:
  assumes "table_add_all table_new (connection_specs sv R @ others) = Some (sv_commands s)" and "cfg_requirepass (sv_config s) = Some p"
    and "\<not> cl_authenticated cl" and "\<forall>args \<in> set reqs. ascii p \<notin> set args"
    and "run_requests E s cl buf reqs = (close, s', cl', buf')"
  shows "\<not> cl_authenticated cl' \<and> (\<exists>n m. s' = s\<lparr>sv_commands_processed := n, sv_error_replies := m\<rparr>)"
  by (rule run_requests_locked_out [OF assms(5,1,2,3,4)])

lemma connection_table: "\<exists>t. table_add_all table_new (connection_specs 0 fmempty @ []) = Some t"
proof -
  have "\<not> flags_contain (FAST OR LOADING OR STALE) MOVABLE_KEYS" "\<not> flags_contain (FAST OR LOADING OR STALE OR NOSCRIPT OR NO_SHARDS) MOVABLE_KEYS"
    "\<not> flags_contain (ADMIN OR NOSCRIPT OR LOADING OR STALE) MOVABLE_KEYS"
    by (simp_all add: flags_contain_def FAST_def LOADING_def STALE_def NOSCRIPT_def NO_SHARDS_def ADMIN_def MOVABLE_KEYS_def)
  then show ?thesis
    by (simp add: connection_specs_def Let_def table_add_def table_new_def MAX_CMD_NAME_def is_ascii_uppercase_def ascii_def)
qed

theorem password_protects_server_witness:
  "\<exists>t close s' cl' buf'. table_add_all table_new (connection_specs 0 fmempty @ []) = Some t
     \<and> run_requests demo_env (server_new 1 (config_default\<lparr>cfg_requirepass := Some ''pw''\<rparr>) 0 t) (client_new 1 [] [] 0 True) []
         [[ascii ''GET'', [107]], [ascii ''AUTH'', ascii ''guess'']] = (close, s', cl', buf')
     \<and> \<not> cl_authenticated cl'"
proof -
  obtain t where t: "table_add_all table_new (connection_specs 0 fmempty @ []) = Some t" using connection_table by blast
  let ?s = "server_new 1 (config_default\<lparr>cfg_requirepass := Some ''pw''\<rparr>) 0 t" and ?r = "[[ascii ''GET'', [107]], [ascii ''AUTH'', ascii ''guess'']]"
  obtain close s' cl' buf' where r: "run_requests demo_env ?s (client_new 1 [] [] 0 True) [] ?r = (close, s', cl', buf')" by (rule prod_cases4)
  have "\<not> cl_authenticated cl'"
    using password_protects_server [of 0 fmempty "[]" ?s "''pw''" "client_new 1 [] [] 0 True" ?r, OF _ _ _ _ r] t
    by (simp add: server_new_def client_new_def ascii_def)
  with t r show ?thesis by blast
qed

text \<open>The password lets a client in: \<^verbatim>\<open>AUTH\<close> with the configured password, in any case of the command's name, authenticates the
  connection and replies \<^verbatim>\<open>+OK\<close>.\<close>

theorem password_admits:
  assumes "table_add_all table_new (connection_specs sv R @ others) = Some (sv_commands s)" and "cfg_requirepass (sv_config s) = Some p"
    and "map to_ascii_lowercase nm = ascii ''auth''" and "dispatch E s cl buf [nm, ascii p] = (oc, s', cl', buf')"
  shows "cl_authenticated cl' \<and> buf' = buf @ ascii ''+OK'' @ CRLF"
  using dispatch_auth [OF assms(1,3,2,4)] by simp

theorem password_admits_witness:
  "\<exists>t oc s' cl'. table_add_all table_new (connection_specs 0 fmempty @ []) = Some t
     \<and> dispatch demo_env (server_new 1 (config_default\<lparr>cfg_requirepass := Some ''pw''\<rparr>) 0 t) (client_new 1 [] [] 0 True) [] [ascii ''AuTH'', ascii ''pw'']
         = (oc, s', cl', ascii ''+OK'' @ CRLF) \<and> cl_authenticated cl'"
proof -
  obtain t where t: "table_add_all table_new (connection_specs 0 fmempty @ []) = Some t" using connection_table by blast
  let ?s = "server_new 1 (config_default\<lparr>cfg_requirepass := Some ''pw''\<rparr>) 0 t"
  obtain oc s' cl' buf' where r: "dispatch demo_env ?s (client_new 1 [] [] 0 True) [] [ascii ''AuTH'', ascii ''pw''] = (oc, s', cl', buf')" by (rule prod_cases4)
  have "cl_authenticated cl' \<and> buf' = [] @ ascii ''+OK'' @ CRLF"
    using password_admits [of 0 fmempty "[]" ?s "''pw''" "ascii ''AuTH''", OF _ _ _ r] t
    by (simp add: server_new_def ascii_def to_ascii_lowercase_def is_ascii_uppercase_def)
  with t r show ?thesis by auto
qed

end
