(* ===== verification/Expiry.thy ===== *)
theory Expiry
  imports Engine
begin

text \<open>
  The active expiry cycle, \<^verbatim>\<open>src/src/shard/expire.rs\<close>: sampling rounds over the expiry index of one shard, one lock
  acquisition each, until a sample is mostly fresh or the time is up. The order in which the hash table yields
  its entries, the random start of a sample, the clock and whether the budget is spent are parameters; the
  last three are indexed by the round. The background task that calls the cycle on a timer is not modelled.
\<close>

record sweep =
  sw_iter :: "(key, nat) fmap \<Rightarrow> (key \<times> nat) list"
  sw_below :: "nat \<Rightarrow> nat \<Rightarrow> nat"
  sw_late :: "nat \<Rightarrow> bool"
  sw_now :: "nat \<Rightarrow> nat"

definition KEYS_PER_LOOP :: nat where "KEYS_PER_LOOP = 20"

definition ACTIVE_EXPIRE_CYCLE_SLOW_TIME_PERC :: nat where "ACTIVE_EXPIRE_CYCLE_SLOW_TIME_PERC = 25"

definition CYCLE_CONTINUE_PCT :: nat where "CYCLE_CONTINUE_PCT = 25"

text \<open>Durations are nanoseconds.\<close>

definition CYCLE_PERIOD :: nat where "CYCLE_PERIOD = 100 * 1000000"

definition MIN_SHARD_BUDGET :: nat where "MIN_SHARD_BUDGET = 100 * 1000"

record cycle_stats =
  cy_sampled :: nat
  cy_expired :: nat
  cy_rounds :: nat
  cy_timed_out :: bool

definition cycle_stats_default :: cycle_stats where
  "cycle_stats_default = \<lparr>cy_sampled = 0, cy_expired = 0, cy_rounds = 0, cy_timed_out = False\<rparr>"

definition cycle_merge :: "cycle_stats \<Rightarrow> cycle_stats \<Rightarrow> cycle_stats" where
  "cycle_merge a b =
     \<lparr>cy_sampled = cy_sampled a + cy_sampled b, cy_expired = cy_expired a + cy_expired b, cy_rounds = cy_rounds a + cy_rounds b,
      cy_timed_out = (cy_timed_out a \<or> cy_timed_out b)\<rparr>"

text \<open>The shard count is cast to 32 bits; a count that becomes 0 panics in the division.\<close>

definition shard_budget :: "nat \<Rightarrow> nat option" where
  "shard_budget shard_count =
     (let tot = CYCLE_PERIOD * ACTIVE_EXPIRE_CYCLE_SLOW_TIME_PERC div 100; count = max shard_count 1 mod 2 ^ 32 in
      if count = 0 then None
      else Some (let each = tot div count in if each < MIN_SHARD_BUDGET then MIN_SHARD_BUDGET else each))"

text \<open>Removing the victims of a round from a database, with the versions of watched keys.\<close>

definition reap :: "key list \<Rightarrow> db \<Rightarrow> db" where
  "reap ks d = fold (\<lambda>k d. signal_watch (snd (remove_entry d k)) k) ks d"

definition sample_round :: "sweep \<Rightarrow> nat \<Rightarrow> db \<Rightarrow> nat \<Rightarrow> nat \<Rightarrow> nat \<times> key list \<times> db" where
  "sample_round X r d now want =
     (let n = expires_len d in
      if n = 0 then (0, [], d)
      else
        (let want = min want n; start = sw_below X r (n - want + 1); window = take want (drop start (sw_iter X (expires d)));
             victims = map fst (filter (\<lambda>(k, at). at \<le> now) window)
         in (length window, victims, reap victims d)))"

text \<open>What a round with victims does under the shard's lock after the removal, and after the lock is released.\<close>

definition propagate_dels :: "bytes \<Rightarrow> (nat \<times> key) list \<Rightarrow> shard \<Rightarrow> shard" where
  "propagate_dels verb victims sh = fold (\<lambda>(n, k) sh. shard_propagate sh n [verb, k]) victims sh"

definition settle_victims :: "bool \<Rightarrow> bytes \<Rightarrow> (nat \<times> key) list \<Rightarrow> shard \<Rightarrow> shard_handle \<Rightarrow> shard_handle" where
  "settle_victims repl verb victims sh h =
     (if victims \<noteq> [] then
        (let sh = sh\<lparr>sh_dirty := sh_dirty sh + length victims\<rparr>;
             sh = (if repl then propagate_dels verb victims sh else sh)
         in sync_stats (h\<lparr>h_shard := sh\<rparr>) sh)
      else h\<lparr>h_shard := sh\<rparr>)"

definition put_handle :: "nat \<Rightarrow> shard_handle \<Rightarrow> shard_map \<Rightarrow> shard_map" where
  "put_handle i h m = m\<lparr>sm_shards := (sm_shards m)[i := h]\<rparr>"

definition announce :: "env \<Rightarrow> notify_class \<Rightarrow> string \<Rightarrow> (nat \<times> key) list \<Rightarrow> server \<Rightarrow> server" where
  "announce E cls event victims s =
     s\<lparr>sv_dirty := sv_dirty s + length victims,
       sv_published := sv_published s
         @ concat (map (\<lambda>(n, k). notify_dispatch (env_itoa E) (sv_sink s) (cfg_notify_keyspace_events (sv_config s)) cls (ascii event) n k) victims)\<rparr>"

definition del_verb :: "bool \<Rightarrow> bytes" where
  "del_verb lazy = (if lazy then ascii ''UNLINK'' else ascii ''DEL'')"

definition expire_round :: "env \<Rightarrow> sweep \<Rightarrow> nat \<Rightarrow> nat \<Rightarrow> shard_handle \<Rightarrow> db \<Rightarrow> server \<Rightarrow> cycle_stats \<Rightarrow> nat \<times> nat \<times> server \<times> cycle_stats" where
  "expire_round E X i n h d s t =
     (case sample_round X (cy_rounds t) d (sw_now X (cy_rounds t)) KEYS_PER_LOOP of
        (sampled, victims, d) \<Rightarrow>
          (let vs = map (\<lambda>k. (n, k)) victims;
               h = settle_victims (sv_propagating s) (del_verb (cfg_lazyfree_lazy_expire (sv_config s))) vs (shard_put_db (h_shard h) n d) h;
               s = s\<lparr>sv_shards := put_handle i h (sv_shards s)\<rparr>;
               s = (if victims \<noteq> [] then announce E EXPIRED ''expired'' vs (s\<lparr>sv_expired_keys := sv_expired_keys s + length victims\<rparr>) else s);
               t = t\<lparr>cy_rounds := cy_rounds t + 1, cy_sampled := cy_sampled t + sampled, cy_expired := cy_expired t + length victims\<rparr>
           in (sampled, length victims, s, t)))"

text \<open>The loop over one database: whether the whole sweep stops, the server and the statistics. That it returns is proved.\<close>

partial_function (option) cycle_db :: "env \<Rightarrow> sweep \<Rightarrow> nat \<Rightarrow> nat \<Rightarrow> server \<Rightarrow> cycle_stats \<Rightarrow> (bool \<times> server \<times> cycle_stats) option" where
  "cycle_db E X i n s t =
     (if sw_late X (cy_rounds t) then Some (True, s, t\<lparr>cy_timed_out := True\<rparr>)
      else (case Option.bind (sm_get (sv_shards s) i) (\<lambda>h. map_option (Pair h) (shard_db (h_shard h) n)) of
              None \<Rightarrow> Some (False, s, t)
            | Some (h, d) \<Rightarrow>
                (case expire_round E X i n h d s t of
                   (sampled, expired, s, t) \<Rightarrow>
                     if sampled = 0 then Some (False, s, t)
                     else if expired * 100 \<le> sampled * CYCLE_CONTINUE_PCT then Some (False, s, t)
                     else cycle_db E X i n s t)))"

fun cycle_dbs :: "env \<Rightarrow> sweep \<Rightarrow> nat \<Rightarrow> nat list \<Rightarrow> server \<Rightarrow> cycle_stats \<Rightarrow> (server \<times> cycle_stats) option" where
  "cycle_dbs E X i [] s t = Some (s, t)"
| "cycle_dbs E X i (n # ns) s t =
     (case cycle_db E X i n s t of
        None \<Rightarrow> None
      | Some (stop, s, t) \<Rightarrow> if stop then Some (s, t) else cycle_dbs E X i ns s t)"

definition cycle_shard :: "env \<Rightarrow> sweep \<Rightarrow> nat \<Rightarrow> server \<Rightarrow> (server \<times> cycle_stats) option" where
  "cycle_shard E X i s =
     (if \<not> cfg_activeexpire (sv_config s) then Some (s, cycle_stats_default)
      else (case sm_get (sv_shards s) i of
              None \<Rightarrow> Some (s, cycle_stats_default)
            | Some h \<Rightarrow>
                if h_expires h = 0 then Some (s, cycle_stats_default)
                else cycle_dbs E X i [0..<sm_databases (sv_shards s)] s cycle_stats_default))"

text \<open>Every shard once, each with its own schedule.\<close>

fun cycle_shards :: "env \<Rightarrow> (nat \<Rightarrow> sweep) \<Rightarrow> nat list \<Rightarrow> server \<Rightarrow> cycle_stats \<Rightarrow> (server \<times> cycle_stats) option" where
  "cycle_shards E X [] s t = Some (s, t)"
| "cycle_shards E X (i # is) s t =
     (case cycle_shard E (X i) i s of None \<Rightarrow> None | Some (s, t') \<Rightarrow> cycle_shards E X is s (cycle_merge t t'))"

definition cycle_all :: "env \<Rightarrow> (nat \<Rightarrow> sweep) \<Rightarrow> server \<Rightarrow> (server \<times> cycle_stats) option" where
  "cycle_all E X s = cycle_shards E X [0..<sm_len (sv_shards s)] s cycle_stats_default"

end
