(* ===== verification/Evict_Cycle.thy ===== *)
theory Evict_Cycle
  imports Expiry
begin

text \<open>
  Eviction, \<^verbatim>\<open>src/src/shard/evict.rs\<close>: the cost estimate of the shards, the sampling of candidates into a pool, a batch of
  evictions from one shard under its lock, and the sweep that evicts from the fattest shard until the keyspace is under its
  limit. The inline size of each type of value, iteration orders of the hash tables, random draws, the clock and the spent budget
  are parameters, the last ones indexed by the round. The count of evicted keys is in the statistics of a sweep.
\<close>

record evictor =
  ev_key_size :: nat
  ev_entry_size :: nat
  ev_robj_size :: nat
  ev_value_size :: "robj \<Rightarrow> nat"
  ev_iter :: "(key, entry) fmap \<Rightarrow> (key \<times> entry) list"
  ev_iter_expires :: "(key, nat) fmap \<Rightarrow> (key \<times> nat) list"
  ev_below :: "nat \<Rightarrow> nat \<Rightarrow> nat \<Rightarrow> nat"
  ev_random :: "nat \<Rightarrow> key \<Rightarrow> nat"
  ev_late :: "nat \<Rightarrow> bool"
  ev_now :: "nat \<Rightarrow> nat"

definition DICT_ENTRY_OVERHEAD :: nat where "DICT_ENTRY_OVERHEAD = 16"

definition ESTIMATE_SAMPLE :: nat where "ESTIMATE_SAMPLE = 128"

definition MAX_EVICTIONS_PER_LOCK :: nat where "MAX_EVICTIONS_PER_LOCK = 16"

definition MAX_ROUNDS_PER_CYCLE :: nat where "MAX_ROUNDS_PER_CYCLE = 512"

subsection \<open>Accounting\<close>

text \<open>Sizes fit the machine's integers by far; the one product that may not saturates.\<close>

definition strobj_mem_usage :: "nat \<Rightarrow> strobj \<Rightarrow> nat" where
  "strobj_mem_usage inline o' = inline + (case o' of StrInt _ \<Rightarrow> 0 | StrBytes b _ \<Rightarrow> length b)"

definition mem_usage :: "evictor \<Rightarrow> robj \<Rightarrow> nat" where
  "mem_usage X v = (case v of RStr o' \<Rightarrow> strobj_mem_usage (ev_value_size X v) o' | _ \<Rightarrow> ev_value_size X v)"

definition entry_cost :: "evictor \<Rightarrow> key \<Rightarrow> entry \<Rightarrow> nat" where
  "entry_cost X k e =
     (let slot = ev_key_size X + ev_entry_size X + DICT_ENTRY_OVERHEAD;
          payload = mem_usage X (obj e) - ev_robj_size X;
          expires_slot = (if expire_at_ms e \<noteq> None then ev_key_size X + 8 + DICT_ENTRY_OVERHEAD + length k else 0)
      in slot + length k + payload + expires_slot)"

definition db_cost :: "evictor \<Rightarrow> db \<Rightarrow> nat" where
  "db_cost X d =
     (let len = db_len d in
      if len = 0 then 0
      else
        (let sample = take ESTIMATE_SAMPLE (ev_iter X (dict d)); sampled = length sample;
             tot = sum_list (map (\<lambda>(k, e). entry_cost X k e) sample)
         in if sampled = 0 then 0 else if sampled \<ge> len then tot else min (tot * len) (2 ^ 64 - 1) div sampled))"

definition refresh_shard_estimate :: "evictor \<Rightarrow> shard_handle \<Rightarrow> shard_handle" where
  "refresh_shard_estimate X h = h\<lparr>h_mem := sum_list (map (db_cost X) (dbs (h_shard h)))\<rparr>"

definition refresh_all :: "evictor \<Rightarrow> shard_map \<Rightarrow> shard_map" where
  "refresh_all X m = m\<lparr>sm_shards := map (refresh_shard_estimate X) (sm_shards m)\<rparr>"

subsection \<open>Candidates\<close>

definition push_candidate :: "evictor \<Rightarrow> nat \<Rightarrow> maxmemory_policy \<Rightarrow> nat \<Rightarrow> key \<Rightarrow> entry \<Rightarrow> candidate list \<Rightarrow> candidate list" where
  "push_candidate X r policy now k e pool = pool_push pool \<lparr>cd_key = k, cd_score = score (ev_random X r k) policy e now\<rparr>"

definition fill_pool :: "evictor \<Rightarrow> nat \<Rightarrow> nat \<Rightarrow> db \<Rightarrow> maxmemory_policy \<Rightarrow> nat \<Rightarrow> nat \<Rightarrow> candidate list \<Rightarrow> nat \<times> candidate list" where
  "fill_pool X r db_idx d policy now want pool =
     (let volatile = is_volatile_policy policy; n = (if volatile then expires_len d else db_len d) in
      if n = 0 \<or> want = 0 then (0, pool)
      else
        (let want = min want n; start = ev_below X r db_idx (n - want + 1);
             sample = (if volatile
                       then concat (map (\<lambda>(k, _). case fmlookup (dict d) k of Some e \<Rightarrow> [(k, e)] | None \<Rightarrow> [])
                              (take want (drop start (ev_iter_expires X (expires d)))))
                       else take want (drop start (ev_iter X (dict d))))
         in (length sample, fold (\<lambda>(k, e) pool. push_candidate X r policy now k e pool) sample pool)))"

subsection \<open>A batch\<close>

text \<open>The victims taken from the pool of one database: bytes freed, victims so far, the database.\<close>

fun take_victims :: "evictor \<Rightarrow> nat \<Rightarrow> nat \<Rightarrow> candidate list \<Rightarrow> nat \<Rightarrow> (nat \<times> key) list \<Rightarrow> db \<Rightarrow> nat \<times> (nat \<times> key) list \<times> db" where
  "take_victims X max_keys db_idx [] freed victims d = (freed, victims, d)"
| "take_victims X max_keys db_idx (c # cs) freed victims d =
     (if length victims \<ge> max_keys then (freed, victims, d)
      else (case fmlookup (dict d) (cd_key c) of
              None \<Rightarrow> take_victims X max_keys db_idx cs freed victims d
            | Some e \<Rightarrow>
                take_victims X max_keys db_idx cs (freed + entry_cost X (cd_key c) e) (victims @ [(db_idx, cd_key c)])
                  (signal_watch (snd (remove_entry d (cd_key c))) (cd_key c))))"

definition samples_of :: "config \<Rightarrow> nat" where
  "samples_of c = min (max (unat (cfg_maxmemory_samples c)) 1) 64"

fun evict_dbs :: "evictor \<Rightarrow> nat \<Rightarrow> config \<Rightarrow> nat \<Rightarrow> nat list \<Rightarrow> nat \<Rightarrow> (nat \<times> key) list \<Rightarrow> shard \<Rightarrow> nat \<times> (nat \<times> key) list \<times> shard" where
  "evict_dbs X r c max_keys [] freed victims sh = (freed, victims, sh)"
| "evict_dbs X r c max_keys (n # ns) freed victims sh =
     (if length victims \<ge> max_keys then (freed, victims, sh)
      else (case shard_db sh n of
              None \<Rightarrow> evict_dbs X r c max_keys ns freed victims sh
            | Some d \<Rightarrow>
                if db_is_empty d then evict_dbs X r c max_keys ns freed victims sh
                else (case take_victims X max_keys n (snd (fill_pool X r n d (cfg_maxmemory_policy c) (ev_now X r) (samples_of c * 4) [])) freed victims d of
                        (freed, victims, d) \<Rightarrow> evict_dbs X r c max_keys ns freed victims (shard_put_db sh n d))))"

definition evict_batch :: "evictor \<Rightarrow> nat \<Rightarrow> server \<Rightarrow> shard_handle \<Rightarrow> nat \<Rightarrow> nat \<times> (nat \<times> key) list \<times> shard_handle" where
  "evict_batch X r s h max_keys =
     (case evict_dbs X r (sv_config s) max_keys [0..<sm_databases (sv_shards s)] 0 [] (h_shard h) of
        (freed, victims, sh) \<Rightarrow>
          (let h = settle_victims (sv_propagating s) (del_verb (cfg_lazyfree_lazy_eviction (sv_config s))) victims sh h
           in (freed, victims, h\<lparr>h_mem := h_mem h - freed\<rparr>)))"

subsection \<open>The sweep\<close>

fun fattest :: "nat \<Rightarrow> shard_handle list \<Rightarrow> (nat \<times> nat) option \<Rightarrow> nat option" where
  "fattest i [] best = map_option fst best"
| "fattest i (h # hs) best =
     fattest (Suc i) hs (if h_mem h > 0 \<and> (case best of None \<Rightarrow> True | Some (_, b) \<Rightarrow> h_mem h > b) then Some (i, h_mem h) else best)"

definition fattest_shard :: "shard_map \<Rightarrow> nat option" where
  "fattest_shard m = fattest 0 (sm_shards m) None"

record evict_stats =
  es_evicted :: nat
  es_freed_bytes :: nat
  es_rounds :: nat
  es_over_limit :: bool
  es_exhausted :: bool

definition evict_stats_default :: evict_stats where
  "evict_stats_default = \<lparr>es_evicted = 0, es_freed_bytes = 0, es_rounds = 0, es_over_limit = False, es_exhausted = False\<rparr>"

definition finish_cycle :: "server \<Rightarrow> evict_stats \<Rightarrow> server \<times> evict_stats" where
  "finish_cycle s st = (s, st\<lparr>es_over_limit := used_memory (sv_shards s) > cfg_maxmemory (sv_config s)\<rparr>)"

fun evict_rounds :: "env \<Rightarrow> evictor \<Rightarrow> nat \<Rightarrow> nat \<Rightarrow> server \<Rightarrow> evict_stats \<Rightarrow> server \<times> evict_stats" where
  "evict_rounds E X 0 r s st = finish_cycle s st"
| "evict_rounds E X (Suc left) r s st =
     (if used_memory (sv_shards s) \<le> cfg_maxmemory (sv_config s) then (s, st)
      else if ev_late X r then finish_cycle s st
      else (case fattest_shard (sv_shards s) of
              None \<Rightarrow> finish_cycle s (st\<lparr>es_exhausted := True\<rparr>)
            | Some i \<Rightarrow>
                (case sm_get (sv_shards s) i of
                   None \<Rightarrow> finish_cycle s st
                 | Some h \<Rightarrow>
                     (case evict_batch X r s h MAX_EVICTIONS_PER_LOCK of
                        (freed, victims, h) \<Rightarrow>
                          (let st = st\<lparr>es_rounds := es_rounds st + 1\<rparr> in
                           if victims = [] then
                             (let s = s\<lparr>sv_shards := put_handle i (refresh_shard_estimate X h) (sv_shards s)\<rparr> in
                              if is_volatile_policy (cfg_maxmemory_policy (sv_config s)) \<and> volatile_keys (sv_shards s) = 0
                              then finish_cycle s (st\<lparr>es_exhausted := True\<rparr>)
                              else if es_rounds st > sm_len (sv_shards s) then finish_cycle s (st\<lparr>es_exhausted := True\<rparr>)
                              else evict_rounds E X left (Suc r) s st)
                           else
                             evict_rounds E X left (Suc r)
                               (announce E EVICTED ''evicted'' victims (s\<lparr>sv_shards := put_handle i h (sv_shards s)\<rparr>))
                               (st\<lparr>es_evicted := es_evicted st + length victims, es_freed_bytes := es_freed_bytes st + freed\<rparr>))))))"

definition evict_cycle :: "env \<Rightarrow> evictor \<Rightarrow> server \<Rightarrow> server \<times> evict_stats" where
  "evict_cycle E X s =
     (if cfg_maxmemory (sv_config s) = 0 then (s, evict_stats_default)
      else
        (let s = s\<lparr>sv_shards := refresh_all X (sv_shards s)\<rparr>; over = used_memory (sv_shards s) > cfg_maxmemory (sv_config s) in
         if cfg_maxmemory_policy (sv_config s) = NoEviction
         then (s, evict_stats_default\<lparr>es_over_limit := over, es_exhausted := over\<rparr>)
         else evict_rounds E X MAX_ROUNDS_PER_CYCLE 0 s evict_stats_default))"

end
