(* ===== verification/Expiry_Proofs.thy ===== *)
theory Expiry_Proofs
  imports Expiry Engine_Proofs "HOL-Library.List_Lexorder"
begin

text \<open>
  The expiry cycle returns, and no client can tell that it ran: it removes only keys whose deadline has passed, which
  read as missing already.
\<close>

subsection \<open>Removing victims\<close>

lemma reap_Cons [simp]: "reap [] d = d" "reap (k # ks) d = reap ks (signal_watch (snd (remove_entry d k)) k)"
  by (simp_all add: reap_def)

lemma reap_lookup [simp]:
  "db_lookup (reap ks d) k = (if k \<in> set ks then None else db_lookup d k)"
  "fmlookup (expires (reap ks d)) k = (if k \<in> set ks then None else fmlookup (expires d) k)"
  by (induction ks arbitrary: d) (auto simp: db_laws)

lemma reap_inv: "db_inv d \<Longrightarrow> db_inv (reap ks d)"
  by (induction ks arbitrary: d) (simp_all add: db_inv_data db_inv_watch)

lemma reap_expires_len:
  assumes "distinct ks" "set ks \<subseteq> fset (fmdom (expires d))"
  shows "expires_len (reap ks d) + length ks = expires_len d"
proof -
  have dom: "fset (fmdom (expires (reap ks d))) = fset (fmdom (expires d)) - set ks"
    by (auto simp: fmlookup_dom_iff split: if_splits)
  have "card (set ks) = length ks" using assms(1) by (rule distinct_card)
  moreover have "card (set ks) \<le> card (fset (fmdom (expires d)))" using assms(2) by (intro card_mono) simp_all
  ultimately show ?thesis using assms(2) by (simp add: expires_len_def fcard.rep_eq dom card_Diff_subset)
qed

text \<open>What a client sees of a database at a time.\<close>

definition db_view :: "nat \<Rightarrow> db \<Rightarrow> key \<Rightarrow> (robj \<times> nat option) option" where
  "db_view T d k = if_live T (map_option data (db_lookup d k))"

lemma reap_view:
  assumes "db_inv d" "\<forall>k \<in> set ks. \<exists>at. fmlookup (expires d) k = Some at \<and> at \<le> T"
  shows "db_view T (reap ks d) k = db_view T d k"
proof (cases "k \<in> set ks")
  case True
  then obtain at where at: "fmlookup (expires d) k = Some at" "at \<le> T" using assms(2) by blast
  with assms(1) obtain e where "fmlookup (dict d) k = Some e" "expire_at_ms e = Some at" by (auto simp: db_inv_def bind_eq_Some_conv)
  then show ?thesis using True at(2) by (simp add: db_view_def db_lookup_def [of d] if_live_def data_def live_def)
qed (simp add: db_view_def)

subsection \<open>One round\<close>

text \<open>What the hash table promises: its iteration yields every entry once.\<close>

definition iter_spec :: "(('k, 'v) fmap \<Rightarrow> ('k \<times> 'v) list) \<Rightarrow> bool" where
  "iter_spec it \<longleftrightarrow> (\<forall>m. distinct (map fst (it m)) \<and> (\<forall>k v. (k, v) \<in> set (it m) \<longleftrightarrow> fmlookup m k = Some v))"

lemma sample_round_victims:
  assumes "iter_spec (sw_iter X)" "sample_round X r d now want = (sampled, victims, d')"
  shows "d' = reap victims d" "distinct victims" "\<forall>k \<in> set victims. \<exists>at. fmlookup (expires d) k = Some at \<and> at \<le> now"
proof -
  let ?w = "\<lambda>start n. take n (drop start (sw_iter X (expires d)))"
  let ?v = "\<lambda>start n. map fst (filter (\<lambda>(k, at). at \<le> now) (?w start n))"
  have it: "distinct (map fst (sw_iter X (expires d)))" "\<And>k v. (k, v) \<in> set (sw_iter X (expires d)) \<longleftrightarrow> fmlookup (expires d) k = Some v"
    using assms(1) by (simp_all add: iter_spec_def)
  have "victims = [] \<and> d' = d \<or> (\<exists>start n. victims = ?v start n \<and> d' = reap (?v start n) d)"
    using assms(2) by (auto simp: sample_round_def Let_def split: if_splits)
  moreover have "distinct (?v start n)" for start n
    using it(1) by (intro distinct_map_filter) (simp add: take_map [symmetric] drop_map [symmetric])
  moreover have "\<forall>k \<in> set (?v start n). \<exists>at. fmlookup (expires d) k = Some at \<and> at \<le> now" for start n
    using it(2) by (auto dest!: in_set_takeD in_set_dropD)
  ultimately have "d' = reap victims d \<and> distinct victims \<and> (\<forall>k \<in> set victims. \<exists>at. fmlookup (expires d) k = Some at \<and> at \<le> now)"
    by (elim disjE exE conjE) (simp, blast)
  then show "d' = reap victims d" "distinct victims" "\<forall>k \<in> set victims. \<exists>at. fmlookup (expires d) k = Some at \<and> at \<le> now"
    by simp_all
qed

subsection \<open>Writing a shard back\<close>

lemma propagate_dels_dbs [simp]: "dbs (propagate_dels verb vs sh) = dbs sh"
  by (induction vs arbitrary: sh) (simp_all add: propagate_dels_def shard_propagate_def case_prod_beta)

lemma settle_dbs [simp]: "dbs (h_shard (settle_victims repl verb vs sh h)) = dbs sh"
  by (simp add: settle_victims_def Let_def sync_stats_def)

lemma put_handle_fields [simp]:
  "sm_len (put_handle i h m) = sm_len m" "sm_databases (put_handle i h m) = sm_databases m" "sm_mask (put_handle i h m) = sm_mask m"
  "shard_index mc (put_handle i h m) k = shard_index mc m k"
  by (simp_all add: put_handle_def sm_len_def shard_index_def)

lemma sm_get_put: "sm_get m i \<noteq> None \<Longrightarrow> sm_get (put_handle i h m) j = (if j = i then Some h else sm_get m j)"
  by (auto simp: sm_get_def put_handle_def nth_opt_def)

text \<open>Every database of every shard keeps its invariant.\<close>

definition shards_inv :: "shard_map \<Rightarrow> bool" where
  "shards_inv m \<longleftrightarrow> map_ok m \<and> (\<forall>i h n d. sm_get m i = Some h \<and> shard_db (h_shard h) n = Some d \<longrightarrow> db_inv d)"

lemma map_ok_put:
  assumes "map_ok m" "sm_get m i = Some h" "length (dbs (h_shard h')) = length (dbs (h_shard h))"
  shows "map_ok (put_handle i h' m)"
  using assms by (auto simp: map_ok_def sm_wf_def put_handle_def sm_len_def sm_get_def nth_opt_def dest!: set_update_subset_insert [THEN subsetD] split: if_splits)

lemma shards_inv_put:
  assumes "shards_inv m" "sm_get m i = Some h" "shard_db (h_shard h) n = Some d" "dbs (h_shard h') = (dbs (h_shard h))[n := d']" "db_inv d'"
  shows "shards_inv (put_handle i h' m)"
proof -
  have "map_ok (put_handle i h' m)" by (rule map_ok_put [OF _ assms(2)]) (use assms in \<open>simp_all add: shards_inv_def\<close>)
  then show ?thesis using assms by (auto simp: shards_inv_def sm_get_put shard_db_def nth_opt_def nth_list_update split: if_splits)
qed

text \<open>What clients see of the whole server at a time.\<close>

definition seen :: "env \<Rightarrow> nat \<Rightarrow> server \<Rightarrow> nat \<Rightarrow> key \<Rightarrow> (robj \<times> nat option) option" where
  "seen E T s n k = sv_kv E (s\<lparr>sv_now := T\<rparr>) n k"

lemma seen_put:
  assumes "sm_get (sv_shards s) i = Some h" "shard_db (h_shard h) n = Some d" "dbs (h_shard h') = (dbs (h_shard h))[n := d']"
    "\<And>k. db_view T d' k = db_view T d k" "sv_shards s' = put_handle i h' (sv_shards s)"
  shows "seen E T s' n' k = seen E T s n' k"
proof -
  have v: "if_live T (map_option data (db_lookup d' k)) = if_live T (map_option data (db_lookup d k))"
    using assms(4) by (simp add: db_view_def)
  show ?thesis using assms(1-3) v
    by (auto simp: seen_def sv_kv_def assms(5) key_db_def shard_for_def sm_get_put shard_db_def nth_opt_def nth_list_update split: if_splits)
qed

text \<open>A step that only removes keys, and appends a deletion to the shard's propagation buffer for each of them when there
  is somebody to propagate to.\<close>

definition drops :: "bool \<Rightarrow> bytes \<Rightarrow> shard_map \<Rightarrow> shard_map \<Rightarrow> bool" where
  "drops repl verb m m' \<longleftrightarrow> (\<forall>i h. sm_get m i = Some h \<longrightarrow>
     (\<exists>h' log. sm_get m' i = Some h' \<and> repl_buf (h_shard h') = repl_buf (h_shard h) @ log \<and>
       (\<forall>n d. shard_db (h_shard h) n = Some d \<longrightarrow> (\<exists>d'. shard_db (h_shard h') n = Some d' \<and>
         (\<forall>k. db_lookup d' k = db_lookup d k \<or> db_lookup d' k = None \<and> (repl \<longrightarrow> \<lparr>prop_db = n, prop_argv = [verb, k]\<rparr> \<in> set log))))))"

lemma drops_refl [simp]: "drops repl verb m m"
  by (simp add: drops_def)

lemma drops_trans:
  assumes "drops repl verb a b" "drops repl verb b c" shows "drops repl verb a c"
  unfolding drops_def
proof (intro allI impI)
  fix i h assume h: "sm_get a i = Some h"
  from assms(1) h obtain h1 log1 where 1: "sm_get b i = Some h1" "repl_buf (h_shard h1) = repl_buf (h_shard h) @ log1"
    "\<And>n d. shard_db (h_shard h) n = Some d \<Longrightarrow> \<exists>d'. shard_db (h_shard h1) n = Some d' \<and>
       (\<forall>k. db_lookup d' k = db_lookup d k \<or> db_lookup d' k = None \<and> (repl \<longrightarrow> \<lparr>prop_db = n, prop_argv = [verb, k]\<rparr> \<in> set log1))"
    unfolding drops_def by blast
  from assms(2) 1(1) obtain h2 log2 where 2: "sm_get c i = Some h2" "repl_buf (h_shard h2) = repl_buf (h_shard h1) @ log2"
    "\<And>n d. shard_db (h_shard h1) n = Some d \<Longrightarrow> \<exists>d'. shard_db (h_shard h2) n = Some d' \<and>
       (\<forall>k. db_lookup d' k = db_lookup d k \<or> db_lookup d' k = None \<and> (repl \<longrightarrow> \<lparr>prop_db = n, prop_argv = [verb, k]\<rparr> \<in> set log2))"
    unfolding drops_def by blast
  show "\<exists>h' log. sm_get c i = Some h' \<and> repl_buf (h_shard h') = repl_buf (h_shard h) @ log \<and>
       (\<forall>n d. shard_db (h_shard h) n = Some d \<longrightarrow> (\<exists>d'. shard_db (h_shard h') n = Some d' \<and>
         (\<forall>k. db_lookup d' k = db_lookup d k \<or> db_lookup d' k = None \<and> (repl \<longrightarrow> \<lparr>prop_db = n, prop_argv = [verb, k]\<rparr> \<in> set log))))"
  proof (intro exI [of _ h2] exI [of _ "log1 @ log2"] conjI allI impI)
    fix n d assume "shard_db (h_shard h) n = Some d"
    with 1(3) obtain d1 where d1: "shard_db (h_shard h1) n = Some d1"
      "\<And>k. db_lookup d1 k = db_lookup d k \<or> db_lookup d1 k = None \<and> (repl \<longrightarrow> \<lparr>prop_db = n, prop_argv = [verb, k]\<rparr> \<in> set log1)" by blast
    with 2(3) obtain d2 where d2: "shard_db (h_shard h2) n = Some d2"
      "\<And>k. db_lookup d2 k = db_lookup d1 k \<or> db_lookup d2 k = None \<and> (repl \<longrightarrow> \<lparr>prop_db = n, prop_argv = [verb, k]\<rparr> \<in> set log2)" by blast
    have "db_lookup d2 k = db_lookup d k \<or> db_lookup d2 k = None \<and> (repl \<longrightarrow> \<lparr>prop_db = n, prop_argv = [verb, k]\<rparr> \<in> set (log1 @ log2))" for k
      using d1(2) [of k] d2(2) [of k] by auto
    with d2(1) show "\<exists>d'. shard_db (h_shard h2) n = Some d' \<and>
         (\<forall>k. db_lookup d' k = db_lookup d k \<or> db_lookup d' k = None \<and> (repl \<longrightarrow> \<lparr>prop_db = n, prop_argv = [verb, k]\<rparr> \<in> set (log1 @ log2)))" by blast
  qed (use 1 2 in simp_all)
qed

lemma propagate_dels_buf [simp]: "repl_buf (propagate_dels verb vs sh) = repl_buf sh @ map (\<lambda>(n, k). \<lparr>prop_db = n, prop_argv = [verb, k]\<rparr>) vs"
  by (induction vs arbitrary: sh) (simp_all add: propagate_dels_def shard_propagate_def case_prod_beta)

lemma settle_buf:
  "repl_buf (h_shard (settle_victims repl verb vs sh h)) = repl_buf sh @ (if repl then map (\<lambda>(n, k). \<lparr>prop_db = n, prop_argv = [verb, k]\<rparr>) vs else [])"
  by (simp add: settle_victims_def Let_def sync_stats_def)

lemma drops_settle:
  assumes "sm_get m i = Some h" "repl_buf sh = repl_buf (h_shard h)" "h_shard h' = h_shard (settle_victims repl verb vs sh h0)"
    "\<And>n d. shard_db (h_shard h) n = Some d \<Longrightarrow> \<exists>d'. shard_db sh n = Some d' \<and> (\<forall>k. db_lookup d' k = db_lookup d k \<or> db_lookup d' k = None \<and> (n, k) \<in> set vs)"
  shows "drops repl verb m (put_handle i h' m)"
  unfolding drops_def
proof (intro allI impI)
  fix j g assume g: "sm_get m j = Some g"
  let ?log = "if repl then map (\<lambda>(n, k). \<lparr>prop_db = n, prop_argv = [verb, k]\<rparr>) vs else []"
  have db: "shard_db (h_shard h') n = shard_db sh n" for n by (simp add: assms(3) shard_db_def)
  show "\<exists>g' log. sm_get (put_handle i h' m) j = Some g' \<and> repl_buf (h_shard g') = repl_buf (h_shard g) @ log \<and>
       (\<forall>n d. shard_db (h_shard g) n = Some d \<longrightarrow> (\<exists>d'. shard_db (h_shard g') n = Some d' \<and>
         (\<forall>k. db_lookup d' k = db_lookup d k \<or> db_lookup d' k = None \<and> (repl \<longrightarrow> \<lparr>prop_db = n, prop_argv = [verb, k]\<rparr> \<in> set log))))"
  proof (cases "j = i")
    case True
    then have "g = h" using g assms(1) by simp
    moreover have "repl_buf (h_shard h') = repl_buf (h_shard h) @ ?log" by (simp add: assms(2,3) settle_buf)
    moreover have "\<exists>d'. shard_db (h_shard h') n = Some d' \<and>
         (\<forall>k. db_lookup d' k = db_lookup d k \<or> db_lookup d' k = None \<and> (repl \<longrightarrow> \<lparr>prop_db = n, prop_argv = [verb, k]\<rparr> \<in> set ?log))"
      if "shard_db (h_shard h) n = Some d" for n d using assms(4) [OF that] unfolding db by force
    ultimately show ?thesis using True assms(1) by (intro exI [of _ h'] exI [of _ ?log]) (simp add: sm_get_put)
  next
    case False
    then show ?thesis using g assms(1) by (intro exI [of _ g] exI [of _ "[]"]) (simp add: sm_get_put)
  qed
qed

subsection \<open>The loops\<close>

text \<open>What a part of the sweep does to the server, for clients that look at time \<open>T\<close> or later.\<close>

definition unseen :: "nat \<Rightarrow> server \<Rightarrow> server \<Rightarrow> bool" where
  "unseen T s s' \<longleftrightarrow> shards_inv (sv_shards s') \<and> sm_databases (sv_shards s') = sm_databases (sv_shards s) \<and> sm_len (sv_shards s') = sm_len (sv_shards s)
     \<and> sv_config s' = sv_config s \<and> sv_propagating s' = sv_propagating s \<and> (\<forall>E n k. seen E T s' n k = seen E T s n k)
     \<and> drops (sv_propagating s) (del_verb (cfg_lazyfree_lazy_expire (sv_config s))) (sv_shards s) (sv_shards s')"

lemma unseen_refl [simp]: "unseen T s s = shards_inv (sv_shards s)"
  by (simp add: unseen_def)

lemma unseen_trans: "unseen T a b \<Longrightarrow> unseen T b c \<Longrightarrow> unseen T a c"
  by (auto simp: unseen_def intro: drops_trans)

lemma announce_fields [simp]:
  "sv_shards (announce E cls ev vs s) = sv_shards s" "sv_config (announce E cls ev vs s) = sv_config s"
  "sv_propagating (announce E cls ev vs s) = sv_propagating s"
  "sv_expired_keys (announce E cls ev vs s) = sv_expired_keys s"
  by (simp_all add: announce_def)

lemma expire_round_unseen:
  assumes it: "iter_spec (sw_iter X)" and inv: "shards_inv (sv_shards s)" and now: "sw_now X (cy_rounds t) \<le> T"
    and h: "sm_get (sv_shards s) i = Some h" and d: "shard_db (h_shard h) n = Some d"
    and r: "expire_round E X i n h d s t = (sampled, expired, s', t')"
  shows "unseen T s s'" "sv_expired_keys s' + cy_expired t = sv_expired_keys s + cy_expired t'" "cy_rounds t' = Suc (cy_rounds t)"
    "\<exists>h' d'. sm_get (sv_shards s') i = Some h' \<and> shard_db (h_shard h') n = Some d' \<and> expires_len d' + expired = expires_len d"
proof -
  obtain victims d' where v: "sample_round X (cy_rounds t) d (sw_now X (cy_rounds t)) KEYS_PER_LOOP = (sampled, victims, d')" "expired = length victims"
    using r by (auto simp: expire_round_def Let_def split: prod.splits)
  note vs = sample_round_victims [OF it v(1)]
  have due: "\<forall>k \<in> set victims. \<exists>at. fmlookup (expires d) k = Some at \<and> at \<le> T" using vs(3) now by (meson le_trans)
  have "db_inv d" using inv h d by (auto simp: shards_inv_def)
  note view = reap_view [OF this due] and di = reap_inv [OF this, of victims]
  define h' where "h' = settle_victims (sv_propagating s) (del_verb (cfg_lazyfree_lazy_expire (sv_config s))) (map (Pair n) victims) (shard_put_db (h_shard h) n d') h"
  have dbs: "dbs (h_shard h') = (dbs (h_shard h))[n := reap victims d]" by (simp add: h'_def shard_put_db_def vs(1))
  have s': "sv_shards s' = put_handle i h' (sv_shards s)" "sv_config s' = sv_config s" "sv_propagating s' = sv_propagating s" "sv_expired_keys s' = sv_expired_keys s + length victims"
    and t': "cy_expired t' = cy_expired t + length victims" "cy_rounds t' = Suc (cy_rounds t)"
    using r v by (auto simp: expire_round_def Let_def h'_def split: if_splits)
  have "drops (sv_propagating s) (del_verb (cfg_lazyfree_lazy_expire (sv_config s))) (sv_shards s) (put_handle i h' (sv_shards s))"
    by (rule drops_settle [OF h _ arg_cong [OF h'_def, of h_shard]])
      (use d in \<open>auto simp: shard_put_db_def shard_db_def nth_opt_def nth_list_update vs(1) split: if_splits\<close>)
  then show "unseen T s s'"
    using shards_inv_put [OF inv h d dbs di] seen_put [OF h d dbs view s'(1)] s' by (simp add: unseen_def)
  show "sv_expired_keys s' + cy_expired t = sv_expired_keys s + cy_expired t'" "cy_rounds t' = Suc (cy_rounds t)" using s' t' by simp_all
  have "expires_len (reap victims d) + expired = expires_len d"
    using reap_expires_len [OF vs(2), of d] vs(3) v(2) by (force simp: fmlookup_dom_iff)
  moreover have "sm_get (sv_shards s') i = Some h'" using h by (simp add: s' sm_get_put)
  moreover have "shard_db (h_shard h') n = Some (reap victims d)" using d dbs by (auto simp: shard_db_def nth_opt_def split: if_splits)
  ultimately show "\<exists>h' d'. sm_get (sv_shards s') i = Some h' \<and> shard_db (h_shard h') n = Some d' \<and> expires_len d' + expired = expires_len d" by blast
qed

text \<open>The clock that clients read is at or after the sweep's.\<close>

definition sweep_ok :: "nat \<Rightarrow> sweep \<Rightarrow> bool" where
  "sweep_ok T X \<longleftrightarrow> iter_spec (sw_iter X) \<and> (\<forall>r. sw_now X r \<le> T)"

definition swept :: "nat \<Rightarrow> server \<Rightarrow> cycle_stats \<Rightarrow> server \<Rightarrow> cycle_stats \<Rightarrow> bool" where
  "swept T s t s' t' \<longleftrightarrow> unseen T s s' \<and> sv_expired_keys s' + cy_expired t = sv_expired_keys s + cy_expired t'"

lemma swept_trans: "swept T s t s1 t1 \<Longrightarrow> swept T s1 t1 s2 t2 \<Longrightarrow> swept T s t s2 t2"
  by (auto simp: swept_def intro: unseen_trans)

definition index_left :: "server \<Rightarrow> nat \<Rightarrow> nat \<Rightarrow> nat" where
  "index_left s i n = (case Option.bind (sm_get (sv_shards s) i) (\<lambda>h. shard_db (h_shard h) n) of Some d \<Rightarrow> expires_len d | None \<Rightarrow> 0)"

lemma cycle_db_swept:
  assumes X: "sweep_ok T X"
  shows "shards_inv (sv_shards s) \<Longrightarrow> \<exists>stop s' t'. cycle_db E X i n s t = Some (stop, s', t') \<and> swept T s t s' t'"
proof (induction "index_left s i n" arbitrary: s t rule: less_induct)
  case less
  show ?case
  proof (cases "sw_late X (cy_rounds t) \<or> Option.bind (sm_get (sv_shards s) i) (\<lambda>h. map_option (Pair h) (shard_db (h_shard h) n)) = None")
    case True
    then show ?thesis using less.prems by (subst cycle_db.simps) (auto simp: swept_def)
  next
    case False
    then obtain h d where hd: "sm_get (sv_shards s) i = Some h" "shard_db (h_shard h) n = Some d" by (auto simp: bind_eq_Some_conv)
    obtain sampled expired s1 t1 where r: "expire_round E X i n h d s t = (sampled, expired, s1, t1)" by (rule prod_cases4)
    note rd = expire_round_unseen [OF _ less.prems _ hd r, of T]
    have sw: "swept T s t s1 t1" using rd X by (simp add: swept_def sweep_ok_def)
    have step: "cycle_db E X i n s t = (if sampled = 0 \<or> expired * 100 \<le> sampled * CYCLE_CONTINUE_PCT then Some (False, s1, t1) else cycle_db E X i n s1 t1)"
      using False hd r by (subst cycle_db.simps) simp
    show ?thesis
    proof (cases "sampled = 0 \<or> expired * 100 \<le> sampled * CYCLE_CONTINUE_PCT")
      case False
      then have "0 < expired" by (cases expired) auto
      moreover have "index_left s1 i n + expired = index_left s i n" using rd(4) X hd by (auto simp: index_left_def sweep_ok_def)
      ultimately have "index_left s1 i n < index_left s i n" by simp
      moreover have "shards_inv (sv_shards s1)" using sw by (simp add: swept_def unseen_def)
      ultimately obtain stop s' t' where "cycle_db E X i n s1 t1 = Some (stop, s', t')" "swept T s1 t1 s' t'" using less.hyps by blast
      then show ?thesis using False step swept_trans [OF sw] by auto
    qed (use step sw in auto)
  qed
qed

lemma cycle_dbs_swept:
  "sweep_ok T X \<Longrightarrow> shards_inv (sv_shards s) \<Longrightarrow> \<exists>s' t'. cycle_dbs E X i ns s t = Some (s', t') \<and> swept T s t s' t'"
proof (induction ns arbitrary: s t)
  case (Cons n ns)
  from cycle_db_swept [OF Cons.prems] obtain stop s1 t1 where 1: "cycle_db E X i n s t = Some (stop, s1, t1)" "swept T s t s1 t1" by blast
  then have "shards_inv (sv_shards s1)" by (simp add: swept_def unseen_def)
  from Cons.IH [OF Cons.prems(1) this, of t1] obtain s2 t2 where "cycle_dbs E X i ns s1 t1 = Some (s2, t2)" "swept T s1 t1 s2 t2" by blast
  then show ?case using swept_trans [OF 1(2)] 1 by (cases stop) auto
qed (auto simp: swept_def)

lemma cycle_shard_swept:
  assumes "sweep_ok T X" "shards_inv (sv_shards s)"
  shows "\<exists>s' t'. cycle_shard E X i s = Some (s', t') \<and> swept T s cycle_stats_default s' t'"
  using cycle_dbs_swept [OF assms] assms(2) by (auto simp: cycle_shard_def swept_def split: option.split)

lemma cycle_shards_swept:
  "\<forall>i. sweep_ok T (X i) \<Longrightarrow> shards_inv (sv_shards s) \<Longrightarrow> \<exists>s' t'. cycle_shards E X is s t = Some (s', t') \<and> swept T s t s' t'"
proof (induction "is" arbitrary: s t)
  case (Cons i "is")
  from cycle_shard_swept [OF spec [OF Cons.prems(1), of i] Cons.prems(2)] obtain s1 t1 where
    1: "cycle_shard E (X i) i s = Some (s1, t1)" "swept T s cycle_stats_default s1 t1" by blast
  then have 2: "shards_inv (sv_shards s1)" "swept T s t s1 (cycle_merge t t1)" by (auto simp: swept_def unseen_def cycle_merge_def cycle_stats_default_def)
  from Cons.IH [OF Cons.prems(1) 2(1)] swept_trans [OF 2(2)] 1 show ?case by fastforce
qed (auto simp: swept_def)

subsection \<open>Properties\<close>


definition demo_sweep :: sweep where
  "demo_sweep = \<lparr>sw_iter = sorted_list_of_fmap, sw_below = (\<lambda>_ _. 0), sw_late = (\<lambda>_. False), sw_now = (\<lambda>_. 5)\<rparr>"

lemma iter_spec_sorted: "iter_spec (sorted_list_of_fmap :: (key, nat) fmap \<Rightarrow> (key \<times> nat) list)"
  by (auto simp: iter_spec_def sorted_list_of_fmap_def comp_def sorted_list_of_fset.rep_eq fmlookup_dom_iff)


end
