(* ===== verification/Evict_Proofs.thy ===== *)
theory Evict_Proofs
  imports Evict_Cycle Expiry_Proofs "HOL-Library.Multiset"
begin

text \<open>
  Eviction: the pool keeps the best candidates, a sweep removes only keys its policy allows and tells the replicas of each, and
  it does nothing while the keyspace is under its limit. A shard full of keys without a deadline starves the volatile
  policies.
\<close>

subsection \<open>The pool\<close>

definition falling :: "candidate list \<Rightarrow> bool" where
  "falling v \<longleftrightarrow> sorted_wrt (\<lambda>a b. cd_score b \<le> cd_score a) v"

lemma pool_position_props:
  assumes "falling v"
  shows "pool_position v x \<le> length v" "\<forall>c \<in> set (take (pool_position v x) v). x \<le> cd_score c" "\<forall>c \<in> set (drop (pool_position v x) v). cd_score c < x"
  using assms by (induction v) (auto simp: falling_def)

text \<open>A pool over a list of candidates: the best of them, by falling score, up to its size.\<close>

definition best_of :: "candidate list \<Rightarrow> candidate list \<Rightarrow> bool" where
  "best_of cs v \<longleftrightarrow> falling v \<and> length v = min (length cs) EVICTION_POOL_SIZE \<and> (\<exists>rest. mset cs = mset v + mset rest \<and> (\<forall>a \<in> set v. \<forall>b \<in> set rest. cd_score b \<le> cd_score a))"

lemma falling_parts: "falling (a @ b) \<longleftrightarrow> falling a \<and> falling b \<and> (\<forall>x \<in> set a. \<forall>y \<in> set b. cd_score y \<le> cd_score x)"
  by (simp add: falling_def sorted_wrt_append)

lemma falling_insert:
  assumes "falling v" "at = pool_position v (cd_score c)" shows "falling (take at v @ c # drop at v)"
proof -
  note p = pool_position_props [OF assms(1), of "cd_score c", folded assms(2)]
  have "falling (take at v @ drop at v)" using assms(1) by simp
  then have v: "falling (take at v)" "falling (drop at v)" "\<forall>x \<in> set (take at v). \<forall>y \<in> set (drop at v). cd_score y \<le> cd_score x"
    unfolding falling_parts by blast+
  have "falling (c # drop at v)" using v(2) p(3) by (auto simp: falling_def)
  then show ?thesis using v p(2) unfolding falling_parts by simp
qed

lemma best_of_push:
  assumes "best_of cs v" shows "best_of (c # cs) (pool_push v c)"
proof -
  define at where "at = pool_position v (cd_score c)"
  from assms obtain rest where f: "falling v" "length v = min (length cs) EVICTION_POOL_SIZE" "mset cs = mset v + mset rest"
    "\<forall>a \<in> set v. \<forall>b \<in> set rest. cd_score b \<le> cd_score a" unfolding best_of_def by blast
  note p = pool_position_props [OF f(1), of "cd_score c", folded at_def]
  have len: "length cs = length v + length rest" using arg_cong [OF f(3), of size] by simp
  show ?thesis
  proof (cases "EVICTION_POOL_SIZE \<le> at")
    case True
    then have full: "at = length v" "length v = EVICTION_POOL_SIZE" using p(1) f(2) by simp_all
    then have "mset (c # cs) = mset v + mset (c # rest) \<and> (\<forall>a \<in> set v. \<forall>b \<in> set (c # rest). cd_score b \<le> cd_score a)"
      using f(3,4) p(2) by simp
    moreover have "pool_push v c = v" using True by (simp add: pool_push_def at_def Let_def)
    moreover have "length v = min (length (c # cs)) EVICTION_POOL_SIZE" using full(2) len by simp
    ultimately show ?thesis using f(1) unfolding best_of_def by metis
  next
    case False
    define w where "w = take at v @ c # drop at v"
    have w: "falling w" unfolding w_def by (rule falling_insert [OF f(1) at_def])
    have mw: "mset w = add_mset c (mset v)"
      unfolding w_def by (metis append_take_drop_id mset.simps(2) mset_append union_mset_add_mset_right)
    have lw: "length w = Suc (length v)" using arg_cong [OF mw, of size] by simp
    have pw: "pool_push v c = take EVICTION_POOL_SIZE w" using False by (simp add: pool_push_def at_def w_def Let_def)
    let ?rest = "drop EVICTION_POOL_SIZE w @ rest"
    have "mset w = mset (take EVICTION_POOL_SIZE w) + mset (drop EVICTION_POOL_SIZE w)" by (metis append_take_drop_id mset_append)
    then have 1: "mset (c # cs) = mset (take EVICTION_POOL_SIZE w) + mset ?rest" using mw f(3) by simp
    have low: "cd_score b \<le> cd_score c" if "b \<in> set rest" for b
    proof -
      have "length v = EVICTION_POOL_SIZE" using that len f(2) by (cases rest) auto
      then have "drop at v \<noteq> []" using False by simp
      then obtain e where "e \<in> set (drop at v)" by (meson hd_in_set)
      then show ?thesis using p(3) f(4) that by (meson in_set_dropD le_trans less_imp_le)
    qed
    have sw: "set w = insert c (set v)" using mset_eq_setD [of w "c # v"] mw by simp
    have "falling (take EVICTION_POOL_SIZE w @ drop EVICTION_POOL_SIZE w)" using w by simp
    then have 2: "falling (take EVICTION_POOL_SIZE w)" "\<forall>a \<in> set (take EVICTION_POOL_SIZE w). \<forall>b \<in> set (drop EVICTION_POOL_SIZE w). cd_score b \<le> cd_score a"
      unfolding falling_parts by blast+
    have "cd_score b \<le> cd_score a" if "a \<in> set (take EVICTION_POOL_SIZE w)" "b \<in> set rest" for a b
      using in_set_takeD [OF that(1)] low [OF that(2)] f(4) that(2) sw by auto
    then have "\<forall>a \<in> set (take EVICTION_POOL_SIZE w). \<forall>b \<in> set ?rest. cd_score b \<le> cd_score a" using 2(2) by auto
    moreover have "length (take EVICTION_POOL_SIZE w) = min (length (c # cs)) EVICTION_POOL_SIZE" using lw f(2) by simp
    ultimately show ?thesis using 1 2(1) unfolding best_of_def pw by blast
  qed
qed

lemma best_of_fold: "best_of cs v \<Longrightarrow> best_of (rev xs @ cs) (fold (\<lambda>c v. pool_push v c) xs v)"
  by (induction xs arbitrary: cs v) (simp_all add: best_of_push)

subsection \<open>Victims of one database\<close>

text \<open>The keys a policy may evict: stored ones, and under a volatile policy only those with a deadline.\<close>

definition evictable :: "maxmemory_policy \<Rightarrow> db \<Rightarrow> key \<Rightarrow> bool" where
  "evictable p d k \<longleftrightarrow> (\<exists>e. db_lookup d k = Some e \<and> (is_volatile_policy p \<longrightarrow> expire_at_ms e \<noteq> None))"

lemma pool_push_keys: "set (pool_push v c) \<subseteq> insert c (set v)"
  by (auto simp: pool_push_def Let_def dest!: in_set_takeD in_set_dropD)

lemma push_all_keys:
  "cd_key ` set (fold (\<lambda>(k, e) pool. push_candidate X r p now k e pool) sample pool) \<subseteq> cd_key ` set pool \<union> fst ` set sample"
proof (induction sample arbitrary: pool)
  case (Cons ke sample)
  obtain k e where ke: "ke = (k, e)" by (rule prod.exhaust)
  have "cd_key ` set (push_candidate X r p now k e pool) \<subseteq> insert k (cd_key ` set pool)"
    using pool_push_keys unfolding push_candidate_def by fastforce
  moreover note Cons.IH [of "push_candidate X r p now k e pool"]
  ultimately show ?case by (simp add: ke) blast
qed simp

lemma fill_pool_keys:
  assumes "iter_spec (ev_iter_expires X)" "iter_spec (ev_iter X)" "db_inv d"
  shows "\<forall>c \<in> set (snd (fill_pool X r n d p now want [])). evictable p d (cd_key c)"
proof -
  have v: "evictable p d k" if "(k, e) \<in> set (concat (map (\<lambda>(k, _). case fmlookup (dict d) k of Some e \<Rightarrow> [(k, e)] | None \<Rightarrow> [])
      (take m (drop start (ev_iter_expires X (expires d))))))" for k e m start
  proof -
    from that obtain at where "(k, at) \<in> set (ev_iter_expires X (expires d))" "fmlookup (dict d) k = Some e"
      by (auto dest!: in_set_takeD in_set_dropD split: option.splits)
    then have "Option.bind (fmlookup (dict d) k) expire_at_ms = Some at" "fmlookup (dict d) k = Some e"
      using assms(1,3) by (auto simp: iter_spec_def db_inv_def)
    then show ?thesis by (simp add: evictable_def db_lookup_def)
  qed
  have a: "evictable p d k" if "\<not> is_volatile_policy p" "(k, e) \<in> set (take m (drop start (ev_iter X (dict d))))" for k e m start
    using that assms(2) by (auto simp: iter_spec_def evictable_def db_lookup_def dest!: in_set_takeD in_set_dropD)
  have "cd_key ` set (snd (fill_pool X r n d p now want [])) \<subseteq> {k. evictable p d k}"
  proof (cases "(if is_volatile_policy p then expires_len d else db_len d) = 0 \<or> want = 0")
    case False
    let ?n = "if is_volatile_policy p then expires_len d else db_len d"
    let ?m = "min want ?n" and ?start = "ev_below X r n (?n - min want ?n + 1)"
    define sample where "sample = (if is_volatile_policy p
      then concat (map (\<lambda>(k, _). case fmlookup (dict d) k of Some e \<Rightarrow> [(k, e)] | None \<Rightarrow> []) (take ?m (drop ?start (ev_iter_expires X (expires d)))))
      else take ?m (drop ?start (ev_iter X (dict d))))"
    have "snd (fill_pool X r n d p now want []) = fold (\<lambda>(k, e) pool. push_candidate X r p now k e pool) sample []"
      using False by (simp add: fill_pool_def Let_def sample_def)
    moreover have "fst ` set sample \<subseteq> {k. evictable p d k}"
    proof (cases "is_volatile_policy p")
      case True then show ?thesis using v [of _ _ ?m ?start] unfolding sample_def by (simp only: if_True) fastforce
    next
      case False then show ?thesis using a [of _ _ ?m ?start] unfolding sample_def by (simp only: if_False) fastforce
    qed
    ultimately show ?thesis using push_all_keys [of X r p now sample "[]"] by auto
  qed (simp add: fill_pool_def Let_def)
  then show ?thesis by auto
qed

lemma take_victims_reap:
  "take_victims X mk n cs freed vs d = (freed', vs', d') \<Longrightarrow>
   \<exists>ks. vs' = vs @ map (Pair n) ks \<and> d' = reap ks d \<and> set ks \<subseteq> cd_key ` set cs \<and> length vs' \<le> max mk (length vs)"
proof (induction cs arbitrary: freed vs d)
  case (Cons c cs)
  consider (stop) "length vs \<ge> mk" | (skip) "length vs < mk" "fmlookup (dict d) (cd_key c) = None"
    | (hit) e where "length vs < mk" "fmlookup (dict d) (cd_key c) = Some e" by (cases "length vs < mk"; cases "fmlookup (dict d) (cd_key c)") auto
  then show ?case
  proof cases
    case stop then show ?thesis using Cons.prems by (intro exI [of _ "[]"]) simp
  next
    case skip then show ?thesis using Cons.IH [of freed vs d] Cons.prems by auto
  next
    case hit
    let ?d = "signal_watch (snd (remove_entry d (cd_key c))) (cd_key c)"
    have "take_victims X mk n cs (freed + entry_cost X (cd_key c) e) (vs @ [(n, cd_key c)]) ?d = (freed', vs', d')" using hit Cons.prems by simp
    from Cons.IH [OF this] obtain ks where "vs' = (vs @ [(n, cd_key c)]) @ map (Pair n) ks" "d' = reap ks ?d" "set ks \<subseteq> cd_key ` set cs"
      "length vs' \<le> max mk (length (vs @ [(n, cd_key c)]))" by blast
    then show ?thesis using hit(1) by (intro exI [of _ "cd_key c # ks"]) auto
  qed
qed simp

text \<open>What a batch makes of a shard.\<close>

definition thins :: "maxmemory_policy \<Rightarrow> (nat \<times> key) list \<Rightarrow> shard \<Rightarrow> shard \<Rightarrow> bool" where
  "thins p vs sh sh' \<longleftrightarrow> repl_buf sh' = repl_buf sh \<and> length (dbs sh') = length (dbs sh) \<and>
     (\<forall>n d. shard_db sh n = Some d \<and> db_inv d \<longrightarrow> (\<exists>d'. shard_db sh' n = Some d' \<and> db_inv d' \<and>
       (\<forall>k. db_lookup d' k = db_lookup d k \<or> db_lookup d' k = None \<and> (n, k) \<in> set vs \<and> evictable p d k)))"

lemma thins_refl [simp]: "thins p vs sh sh"
  by (simp add: thins_def)

lemma thins_trans:
  assumes "thins p vs a b" "thins p vs' b c" "set vs \<subseteq> set vs'" shows "thins p vs' a c"
proof -
  have "\<exists>d2. shard_db c n = Some d2 \<and> db_inv d2 \<and> (\<forall>k. db_lookup d2 k = db_lookup d k \<or> db_lookup d2 k = None \<and> (n, k) \<in> set vs' \<and> evictable p d k)"
    if d: "shard_db a n = Some d" "db_inv d" for n d
  proof -
    from assms(1) d obtain d1 where 1: "shard_db b n = Some d1" "db_inv d1"
      "\<And>k. db_lookup d1 k = db_lookup d k \<or> db_lookup d1 k = None \<and> (n, k) \<in> set vs \<and> evictable p d k" unfolding thins_def by blast
    from assms(2) 1(1,2) obtain d2 where 2: "shard_db c n = Some d2" "db_inv d2"
      "\<And>k. db_lookup d2 k = db_lookup d1 k \<or> db_lookup d2 k = None \<and> (n, k) \<in> set vs' \<and> evictable p d1 k" unfolding thins_def by blast
    have "db_lookup d2 k = db_lookup d k \<or> db_lookup d2 k = None \<and> (n, k) \<in> set vs' \<and> evictable p d k" for k
      using 1(3) [of k] 2(3) [of k] assms(3) by (elim disjE; auto simp: evictable_def)
    with 2 show ?thesis by blast
  qed
  then show ?thesis using assms by (simp add: thins_def)
qed

lemma thins_db:
  assumes "shard_db sh n = Some d" "\<forall>k \<in> set ks. evictable p d k \<and> (n, k) \<in> set vs"
  shows "thins p vs sh (shard_put_db sh n (reap ks d))"
  using assms by (auto simp: thins_def shard_put_db_def shard_db_def nth_opt_def nth_list_update reap_inv split: if_splits)

lemma evict_dbs_thins:
  assumes "iter_spec (ev_iter_expires X)" "iter_spec (ev_iter X)"
  shows "evict_dbs X r c mk ns freed vs sh = (freed', vs', sh') \<Longrightarrow> (\<forall>n d. shard_db sh n = Some d \<longrightarrow> db_inv d) \<Longrightarrow> length vs \<le> mk \<Longrightarrow>
    (\<exists>new. vs' = vs @ new) \<and> thins (cfg_maxmemory_policy c) vs' sh sh' \<and> length vs' \<le> mk"
proof (induction ns arbitrary: freed vs sh)
  case (Cons n ns)
  show ?case
  proof (cases "length vs < mk \<and> (\<exists>d. shard_db sh n = Some d \<and> \<not> db_is_empty d)")
    case True
    then obtain d where d: "length vs < mk" "shard_db sh n = Some d" "\<not> db_is_empty d" by blast
    let ?pool = "snd (fill_pool X r n d (cfg_maxmemory_policy c) (ev_now X r) (samples_of c * 4) [])"
    obtain freed1 vs1 d1 where tv: "take_victims X mk n ?pool freed vs d = (freed1, vs1, d1)" by (rule prod_cases3)
    from take_victims_reap [OF tv] obtain ks where ks: "vs1 = vs @ map (Pair n) ks" "d1 = reap ks d" "set ks \<subseteq> cd_key ` set ?pool" "length vs1 \<le> mk"
      using d(1) by auto
    have "db_inv d" using Cons.prems(2) d(2) by blast
    from fill_pool_keys [OF assms this] ks(3) have "\<forall>k \<in> set ks. evictable (cfg_maxmemory_policy c) d k" by blast
    then have th: "thins (cfg_maxmemory_policy c) vs1 sh (shard_put_db sh n d1)" using thins_db [OF d(2)] ks(1,2) by simp
    have run: "evict_dbs X r c mk ns freed1 vs1 (shard_put_db sh n d1) = (freed', vs', sh')" using Cons.prems(1) d tv by simp
    have "\<forall>m e. shard_db (shard_put_db sh n d1) m = Some e \<longrightarrow> db_inv e"
      using Cons.prems(2) d(2) reap_inv [OF \<open>db_inv d\<close>] ks(2) by (auto simp: shard_put_db_def shard_db_def nth_opt_def nth_list_update split: if_splits)
    from Cons.IH [OF run this ks(4)] obtain new where new: "vs' = vs1 @ new" "thins (cfg_maxmemory_policy c) vs' (shard_put_db sh n d1) sh'" "length vs' \<le> mk" by blast
    have "thins (cfg_maxmemory_policy c) vs' sh sh'" by (rule thins_trans [OF th new(2)]) (simp add: new(1))
    with new ks(1) show ?thesis by auto
  next
    case False
    then have "evict_dbs X r c mk (n # ns) freed vs sh = (if length vs \<ge> mk then (freed, vs, sh) else evict_dbs X r c mk ns freed vs sh)"
      by (auto split: option.split)
    then show ?thesis using Cons.IH [of freed vs sh] Cons.prems by (auto split: if_splits)
  qed
qed simp

subsection \<open>The sweep\<close>

definition evict_ok :: "maxmemory_policy \<Rightarrow> bool \<Rightarrow> bytes \<Rightarrow> shard_map \<Rightarrow> shard_map \<Rightarrow> bool" where
  "evict_ok p repl verb m m' \<longleftrightarrow> shards_inv m' \<and> sm_databases m' = sm_databases m \<and> sm_len m' = sm_len m \<and> drops repl verb m m' \<and>
     (\<forall>i h n d h' d' k. sm_get m i = Some h \<and> shard_db (h_shard h) n = Some d \<and> sm_get m' i = Some h' \<and> shard_db (h_shard h') n = Some d' \<and>
        db_lookup d' k \<noteq> db_lookup d k \<longrightarrow> evictable p d k)"

lemma evict_ok_trans:
  assumes "evict_ok p repl verb a b" "evict_ok p repl verb b c" shows "evict_ok p repl verb a c"
proof -
  have "evictable p d k" if x: "sm_get a i = Some h" "shard_db (h_shard h) n = Some d" "sm_get c i = Some h2" "shard_db (h_shard h2) n = Some d2"
    "db_lookup d2 k \<noteq> db_lookup d k" for i h n d h2 d2 k
  proof -
    from assms(1) x(1,2) obtain h1 d1 where 1: "sm_get b i = Some h1" "shard_db (h_shard h1) n = Some d1" unfolding evict_ok_def drops_def by blast
    show ?thesis
    proof (cases "db_lookup d1 k = db_lookup d k")
      case True
      then have "evictable p d1 k" using assms(2) 1 x(3-5) unfolding evict_ok_def by metis
      then show ?thesis using True by (simp add: evictable_def)
    next
      case False then show ?thesis using assms(1) x(1,2) 1 unfolding evict_ok_def by blast
    qed
  qed
  then show ?thesis using assms unfolding evict_ok_def by (auto intro: drops_trans)
qed

text \<open>Steps that change only the mirrored counters.\<close>

lemma evict_ok_counters:
  assumes "shards_inv m" "map_ok m'" "sm_databases m' = sm_databases m" "sm_len m' = sm_len m" "\<And>j. map_option h_shard (sm_get m' j) = map_option h_shard (sm_get m j)"
  shows "evict_ok p repl verb m m'"
proof -
  have g: "sm_get m j = Some h \<Longrightarrow> \<exists>h'. sm_get m' j = Some h' \<and> h_shard h' = h_shard h"
    "sm_get m' j = Some h' \<Longrightarrow> \<exists>h. sm_get m j = Some h \<and> h_shard h' = h_shard h" for j h h'
    using assms(5) [of j] by (auto simp: map_option_case split: option.splits)
  have "drops repl verb m m'" unfolding drops_def
  proof (intro allI impI)
    fix i h assume "sm_get m i = Some h"
    from g(1) [OF this] obtain h' where "sm_get m' i = Some h'" "h_shard h' = h_shard h" by blast
    then show "\<exists>h' log. sm_get m' i = Some h' \<and> repl_buf (h_shard h') = repl_buf (h_shard h) @ log \<and>
      (\<forall>n d. shard_db (h_shard h) n = Some d \<longrightarrow> (\<exists>d'. shard_db (h_shard h') n = Some d' \<and>
        (\<forall>k. db_lookup d' k = db_lookup d k \<or> db_lookup d' k = None \<and> (repl \<longrightarrow> \<lparr>prop_db = n, prop_argv = [verb, k]\<rparr> \<in> set log))))"
      by (intro exI [of _ h'] exI [of _ "[]"]) simp
  qed
  moreover have "shards_inv m'" using assms(1,2) unfolding shards_inv_def by (metis g(2))
  moreover have "evictable p d k" if "sm_get m i = Some h \<and> shard_db (h_shard h) n = Some d \<and> sm_get m' i = Some h' \<and> shard_db (h_shard h') n = Some d' \<and>
        db_lookup d' k \<noteq> db_lookup d k" for i h n d h' d' k using g(1) [of i h] that by auto
  ultimately show ?thesis using assms unfolding evict_ok_def by blast
qed

lemma put_handle_counters:
  assumes "shards_inv m" "sm_get m i = Some h" "h_shard h' = h_shard h" shows "evict_ok p repl verb m (put_handle i h' m)"
proof (rule evict_ok_counters [OF assms(1)])
  show "map_ok (put_handle i h' m)" by (rule map_ok_put [OF _ assms(2)]) (use assms in \<open>simp_all add: shards_inv_def\<close>)
  show "map_option h_shard (sm_get (put_handle i h' m) j) = map_option h_shard (sm_get m j)" for j using assms by (simp add: sm_get_put)
qed simp_all

lemma refresh_all_counters:
  assumes "shards_inv m" shows "evict_ok p repl verb m (refresh_all X m)"
proof (rule evict_ok_counters [OF assms])
  show "map_ok (refresh_all X m)" using assms by (auto simp: shards_inv_def map_ok_def sm_wf_def refresh_all_def sm_len_def refresh_shard_estimate_def)
  show "map_option h_shard (sm_get (refresh_all X m) j) = map_option h_shard (sm_get m j)" for j
    by (auto simp: sm_get_def nth_opt_def refresh_all_def refresh_shard_estimate_def)
qed (simp_all add: refresh_all_def sm_len_def)

lemma evict_batch_ok:
  assumes it: "iter_spec (ev_iter_expires X)" "iter_spec (ev_iter X)" and inv: "shards_inv (sv_shards s)" and h: "sm_get (sv_shards s) i = Some h"
    and b: "evict_batch X r s h mk = (freed, victims, h')"
  shows "evict_ok (cfg_maxmemory_policy (sv_config s)) (sv_propagating s) (del_verb (cfg_lazyfree_lazy_eviction (sv_config s))) (sv_shards s) (put_handle i h' (sv_shards s))"
    and "length victims \<le> mk"
proof -
  let ?p = "cfg_maxmemory_policy (sv_config s)" and ?m = "sv_shards s" and ?verb = "del_verb (cfg_lazyfree_lazy_eviction (sv_config s))"
  obtain sh where e: "evict_dbs X r (sv_config s) mk [0..<sm_databases ?m] 0 [] (h_shard h) = (freed, victims, sh)"
    and h': "h_shard h' = h_shard (settle_victims (sv_propagating s) ?verb victims sh h)"
    using b by (auto simp: evict_batch_def Let_def split: prod.splits)
  have di: "\<forall>n d. shard_db (h_shard h) n = Some d \<longrightarrow> db_inv d" using inv h by (auto simp: shards_inv_def)
  have th: "thins ?p victims (h_shard h) sh" and len: "length victims \<le> mk" using evict_dbs_thins [OF it e di] by auto
  have db': "shard_db (h_shard h') n = shard_db sh n" for n by (simp add: h' shard_db_def)
  show "length victims \<le> mk" by fact
  have T: "\<exists>d'. shard_db sh n = Some d' \<and> db_inv d' \<and> (\<forall>k. db_lookup d' k = db_lookup d k \<or> db_lookup d' k = None \<and> (n, k) \<in> set victims \<and> evictable ?p d k)"
    if "shard_db (h_shard h) n = Some d" for n d using th di that unfolding thins_def by blast
  have "map_ok (put_handle i h' ?m)"
    by (rule map_ok_put [OF _ h]) (use inv th h' in \<open>simp_all add: shards_inv_def thins_def\<close>)
  moreover have "db_inv d" if "sm_get (put_handle i h' ?m) j = Some g" "shard_db (h_shard g) n = Some d" for j g n d
  proof (cases "j = i")
    case True
    then have "shard_db sh n = Some d" using that h db' [of n] by (auto simp: sm_get_put)
    moreover from this th have "n < length (dbs (h_shard h))" by (auto simp: shard_db_def nth_opt_def thins_def split: if_splits)
    ultimately show ?thesis using T [of n "dbs (h_shard h) ! n"] by (auto simp: shard_db_def nth_opt_def)
  qed (use that h inv in \<open>auto simp: sm_get_put shards_inv_def\<close>)
  ultimately have "shards_inv (put_handle i h' ?m)" unfolding shards_inv_def by blast
  moreover have "drops (sv_propagating s) ?verb ?m (put_handle i h' ?m)"
    by (rule drops_settle [OF h _ h']) (use th in \<open>simp add: thins_def\<close>, use T in blast)
  moreover have "evictable ?p d k" if "sm_get ?m j = Some g \<and> shard_db (h_shard g) n = Some d \<and> sm_get (put_handle i h' ?m) j = Some g' \<and> shard_db (h_shard g') n = Some d' \<and>
      db_lookup d' k \<noteq> db_lookup d k" for j g n d g' d' k
    using that h T [of n d] db' [of n] by (cases "j = i") (auto simp: sm_get_put)
  ultimately show "evict_ok ?p (sv_propagating s) ?verb ?m (put_handle i h' ?m)" unfolding evict_ok_def by simp
qed

definition evicted_ok :: "server \<Rightarrow> server \<Rightarrow> bool" where
  "evicted_ok s s' \<longleftrightarrow> sv_config s' = sv_config s \<and> sv_propagating s' = sv_propagating s \<and>
     evict_ok (cfg_maxmemory_policy (sv_config s)) (sv_propagating s) (del_verb (cfg_lazyfree_lazy_eviction (sv_config s))) (sv_shards s) (sv_shards s')"

lemma evicted_ok_trans: "evicted_ok a b \<Longrightarrow> evicted_ok b c \<Longrightarrow> evicted_ok a c"
  by (auto simp: evicted_ok_def intro: evict_ok_trans)

lemma evicted_ok_inv: "evicted_ok a b \<Longrightarrow> shards_inv (sv_shards b)"
  by (simp add: evicted_ok_def evict_ok_def)

lemma evicted_ok_refl: "shards_inv (sv_shards s) \<Longrightarrow> evicted_ok s s"
  by (auto simp: evicted_ok_def evict_ok_def)

lemma put_handle_twice: "put_handle i x (put_handle i y m) = put_handle i x m"
  by (simp add: put_handle_def)

lemma evict_rounds_ok:
  assumes it: "iter_spec (ev_iter_expires X)" "iter_spec (ev_iter X)"
  shows "shards_inv (sv_shards s) \<Longrightarrow> \<not> es_over_limit st \<Longrightarrow> evict_rounds E X left r s st = (s', st') \<Longrightarrow>
    evicted_ok s s' \<and> (es_over_limit st' \<longleftrightarrow> used_memory (sv_shards s') > cfg_maxmemory (sv_config s'))"
proof (induction left arbitrary: r s st)
  case 0
  then show ?case by (auto simp: finish_cycle_def evicted_ok_refl)
next
  case (Suc left)
  let ?stop = "used_memory (sv_shards s) \<le> cfg_maxmemory (sv_config s) \<or> ev_late X r \<or> Option.bind (fattest_shard (sv_shards s)) (sm_get (sv_shards s)) = None"
  show ?case
  proof (cases ?stop)
    case True
    then show ?thesis using Suc.prems by (auto simp: finish_cycle_def evicted_ok_refl split: if_splits option.splits)
  next
    case False
    then obtain i h where ih: "fattest_shard (sv_shards s) = Some i" "sm_get (sv_shards s) i = Some h" by (auto simp: bind_eq_Some_conv)
    obtain freed victims h1 where b: "evict_batch X r s h MAX_EVICTIONS_PER_LOCK = (freed, victims, h1)" by (rule prod_cases3)
    note ok = evict_batch_ok [OF it Suc.prems(1) ih(2) b]
    let ?s1 = "s\<lparr>sv_shards := put_handle i h1 (sv_shards s)\<rparr>"
    have s1: "evicted_ok s ?s1" using ok(1) by (simp add: evicted_ok_def)
    show ?thesis
    proof (cases "victims = []")
      case True
      let ?s2 = "s\<lparr>sv_shards := put_handle i (refresh_shard_estimate X h1) (sv_shards s)\<rparr>" and ?st = "st\<lparr>es_rounds := es_rounds st + 1\<rparr>"
      have "evict_ok p repl verb (put_handle i h1 (sv_shards s)) (put_handle i (refresh_shard_estimate X h1) (put_handle i h1 (sv_shards s)))" for p repl verb
        by (rule put_handle_counters) (use evicted_ok_inv [OF s1] ih(2) in \<open>simp_all add: sm_get_put refresh_shard_estimate_def\<close>)
      then have "evicted_ok ?s1 ?s2" by (simp add: evicted_ok_def put_handle_twice)
      with s1 have s2: "evicted_ok s ?s2" by (rule evicted_ok_trans)
      have "evict_rounds E X left (Suc r) ?s2 ?st = (s', st') \<or> (\<exists>st1. finish_cycle ?s2 st1 = (s', st'))"
        using Suc.prems(3) False ih b True by (auto simp: Let_def split: if_splits intro: exI [of _ "?st\<lparr>es_exhausted := True\<rparr>"])
      then show ?thesis
      proof
        assume "evict_rounds E X left (Suc r) ?s2 ?st = (s', st')"
        then show ?thesis using Suc.IH [OF evicted_ok_inv [OF s2], of ?st "Suc r"] Suc.prems(2) evicted_ok_trans [OF s2] by simp
      qed (use s2 in \<open>auto simp: finish_cycle_def\<close>)
    next
      case False': False
      let ?s2 = "announce E EVICTED ''evicted'' victims ?s1"
      let ?st = "st\<lparr>es_rounds := es_rounds st + 1, es_evicted := es_evicted st + length victims, es_freed_bytes := es_freed_bytes st + freed\<rparr>"
      have s2: "evicted_ok s ?s2" using s1 by (simp add: evicted_ok_def)
      have "evict_rounds E X left (Suc r) ?s2 ?st = (s', st')"
        using Suc.prems(3) False ih b False' by (auto simp: Let_def split: if_splits)
      then show ?thesis using Suc.IH [OF evicted_ok_inv [OF s2], of ?st "Suc r"] Suc.prems(2) evicted_ok_trans [OF s2] by simp
    qed
  qed
qed

subsection \<open>Starvation\<close>

text \<open>A shard without deadlines gives a volatile policy nothing, and stays the fattest.\<close>

lemma evict_dbs_nothing:
  assumes "is_volatile_policy (cfg_maxmemory_policy c)" "\<forall>d \<in> set (dbs sh). expires d = fmempty"
  shows "evict_dbs X r c mk ns freed vs sh = (freed, vs, sh)"
proof -
  have "shard_db sh n = Some d \<Longrightarrow> shard_put_db sh n d = sh \<and> expires d = fmempty" for n d
    using assms(2) by (auto simp: shard_db_def shard_put_db_def nth_opt_def split: if_splits)
  then show ?thesis using assms(1) by (induction ns) (auto simp: fill_pool_def expires_len_def Let_def split: option.split)
qed

lemma evict_batch_nothing:
  assumes "is_volatile_policy (cfg_maxmemory_policy (sv_config s))" "\<forall>d \<in> set (dbs (h_shard h)). expires d = fmempty"
  shows "evict_batch X r s h mk = (0, [], h)"
  by (simp add: evict_batch_def evict_dbs_nothing [OF assms] Let_def settle_victims_def)

lemma evict_rounds_starved:
  assumes vol: "is_volatile_policy (cfg_maxmemory_policy (sv_config s))" and over: "used_memory (sv_shards s) > cfg_maxmemory (sv_config s)"
    and fat: "fattest_shard (sv_shards s) = Some i" "sm_get (sv_shards s) i = Some h" "refresh_shard_estimate X h = h"
    and none: "\<forall>d \<in> set (dbs (h_shard h)). expires d = fmempty" and some: "volatile_keys (sv_shards s) \<noteq> 0" and late: "\<And>r. \<not> ev_late X r"
  shows "sm_len (sv_shards s) < es_rounds st + left \<Longrightarrow> es_rounds st \<le> sm_len (sv_shards s) \<Longrightarrow>
    evict_rounds E X left r s st = (s, st\<lparr>es_rounds := sm_len (sv_shards s) + 1, es_over_limit := True, es_exhausted := True\<rparr>)"
proof (induction left arbitrary: r st)
  case (Suc left)
  have put: "put_handle i h (sv_shards s) = sv_shards s" using fat(2) by (auto simp: put_handle_def sm_get_def nth_opt_def split: if_splits)
  let ?st = "st\<lparr>es_rounds := es_rounds st + 1\<rparr>"
  have "evict_rounds E X (Suc left) r s st = (if es_rounds ?st > sm_len (sv_shards s) then finish_cycle s (?st\<lparr>es_exhausted := True\<rparr>) else evict_rounds E X left (Suc r) s ?st)"
    using over late fat vol some by (simp add: evict_batch_nothing [OF vol none] put Let_def)
  then show ?case using Suc.IH [of ?st "Suc r"] Suc.prems over by (auto simp: finish_cycle_def)
qed simp

subsection \<open>Properties\<close>

text \<open>C13. Eviction takes only what the policy allows: after a sweep the keyspace keeps its invariants, a key is removed whole or
  kept as it is, every removed key was stored and, under a volatile policy, had a deadline, each removal has its deletion
  in the shard's propagation buffer when there is somebody to propagate to, and the reported state of the
  limit is the real one. Nothing is removed without a limit, under \<^verbatim>\<open>noeviction\<close>, or while the estimate is within the limit.\<close>

theorem eviction_obeys_policy:
  assumes "iter_spec (ev_iter_expires X)" and "iter_spec (ev_iter X)" and "shards_inv (sv_shards s)" and "evict_cycle E X s = (s', st)"
  shows "shards_inv (sv_shards s')
    \<and> drops (sv_propagating s) (del_verb (cfg_lazyfree_lazy_eviction (sv_config s))) (sv_shards s) (sv_shards s')
    \<and> (\<forall>i h n d h' d' k. sm_get (sv_shards s) i = Some h \<and> shard_db (h_shard h) n = Some d \<and> sm_get (sv_shards s') i = Some h'
         \<and> shard_db (h_shard h') n = Some d' \<and> db_lookup d' k \<noteq> db_lookup d k \<longrightarrow>
       db_lookup d' k = None \<and> evictable (cfg_maxmemory_policy (sv_config s)) d k
       \<and> cfg_maxmemory (sv_config s) \<noteq> 0 \<and> cfg_maxmemory_policy (sv_config s) \<noteq> NoEviction
       \<and> used_memory (refresh_all X (sv_shards s)) > cfg_maxmemory (sv_config s))
    \<and> (cfg_maxmemory (sv_config s) \<noteq> 0 \<longrightarrow> (es_over_limit st \<longleftrightarrow> used_memory (sv_shards s') > cfg_maxmemory (sv_config s)))"
proof -
  let ?c = "sv_config s" and ?m = "sv_shards s"
  let ?s = "s\<lparr>sv_shards := refresh_all X ?m\<rparr>"
  have r: "evicted_ok s ?s" using refresh_all_counters [OF assms(3)] by (simp add: evicted_ok_def)
  have same: "db_lookup d' k = db_lookup d k" if "sm_get ?m i = Some h" "shard_db (h_shard h) n = Some d" "sm_get (refresh_all X ?m) i = Some h'"
    "shard_db (h_shard h') n = Some d'" for i h n d h' d' k
    using that by (auto simp: sm_get_def nth_opt_def refresh_all_def refresh_shard_estimate_def split: if_splits)
  have idle: "sv_shards s' = ?m \<or> sv_shards s' = refresh_all X ?m"
    if "cfg_maxmemory ?c = 0 \<or> cfg_maxmemory_policy ?c = NoEviction \<or> used_memory (refresh_all X ?m) \<le> cfg_maxmemory ?c"
    using assms(4) that by (auto simp: evict_cycle_def Let_def MAX_ROUNDS_PER_CYCLE_def numeral_eq_Suc split: if_splits)
  have ok: "evicted_ok s s' \<and> (cfg_maxmemory ?c \<noteq> 0 \<longrightarrow> (es_over_limit st \<longleftrightarrow> used_memory (sv_shards s') > cfg_maxmemory (sv_config s')))"
  proof (cases "cfg_maxmemory ?c = 0 \<or> cfg_maxmemory_policy ?c = NoEviction")
    case True
    then show ?thesis using assms(3,4) r by (auto simp: evict_cycle_def Let_def evicted_ok_refl split: if_splits)
  next
    case False
    then have "evict_rounds E X MAX_ROUNDS_PER_CYCLE 0 ?s evict_stats_default = (s', st)" using assms(4) by (simp add: evict_cycle_def Let_def)
    from evict_rounds_ok [OF assms(1,2) evicted_ok_inv [OF r] _ this] evicted_ok_trans [OF r] show ?thesis by (simp add: evict_stats_default_def)
  qed
  then have e: "evict_ok (cfg_maxmemory_policy ?c) (sv_propagating s) (del_verb (cfg_lazyfree_lazy_eviction ?c)) ?m (sv_shards s')" "sv_config s' = ?c"
    by (simp_all add: evicted_ok_def)
  show ?thesis
  proof (intro conjI allI impI)
    fix i h n d h' d' k
    assume a: "sm_get ?m i = Some h \<and> shard_db (h_shard h) n = Some d \<and> sm_get (sv_shards s') i = Some h' \<and> shard_db (h_shard h') n = Some d' \<and> db_lookup d' k \<noteq> db_lookup d k"
    then show "evictable (cfg_maxmemory_policy ?c) d k" using e(1) unfolding evict_ok_def by blast
    from e(1) have dr: "drops (sv_propagating s) (del_verb (cfg_lazyfree_lazy_eviction ?c)) ?m (sv_shards s')" by (simp add: evict_ok_def)
    show "db_lookup d' k = None" using a dr unfolding drops_def by (metis option.inject)
    have "\<not> (cfg_maxmemory ?c = 0 \<or> cfg_maxmemory_policy ?c = NoEviction \<or> used_memory (refresh_all X ?m) \<le> cfg_maxmemory ?c)"
      using idle same a by force
    then show "cfg_maxmemory ?c \<noteq> 0" "cfg_maxmemory_policy ?c \<noteq> NoEviction" "used_memory (refresh_all X ?m) > cfg_maxmemory ?c" by simp_all
  qed (use ok e in \<open>simp_all add: evict_ok_def\<close>)
qed

definition demo_evictor :: evictor where
  "demo_evictor = \<lparr>ev_key_size = 32, ev_entry_size = 64, ev_robj_size = 40, ev_value_size = (\<lambda>_. 40), ev_iter = sorted_list_of_fmap,
     ev_iter_expires = sorted_list_of_fmap, ev_below = (\<lambda>_ _ _. 0), ev_random = (\<lambda>_ _. 0), ev_late = (\<lambda>_. False), ev_now = (\<lambda>_. 0)\<rparr>"

lemma iter_spec_sorted_entries: "iter_spec (sorted_list_of_fmap :: (key, entry) fmap \<Rightarrow> (key \<times> entry) list)"
  by (auto simp: iter_spec_def sorted_list_of_fmap_def comp_def sorted_list_of_fset.rep_eq fmlookup_dom_iff)

text \<open>Two shards: the first holds a key without a deadline, the second, lighter one a key with one.\<close>

definition demo_entry_at :: "nat \<Rightarrow> nat option \<Rightarrow> entry" where
  "demo_entry_at sz at = \<lparr>obj = RStr (StrBytes (replicate sz 0) False), expire_at_ms = at, lru = 0\<rparr>"

definition demo_handle :: "nat \<Rightarrow> nat \<Rightarrow> nat option \<Rightarrow> shard_handle" where
  "demo_handle i sz at =
     \<lparr>h_shard = \<lparr>sh_index = i, dbs = [set_entry (db_new 0) [107] (demo_entry_at sz at)], sh_dirty = 0, repl_buf = [], sh_seq = 0\<rparr>,
      h_dirty = 0, h_keys = 1, h_expires = (if at = None then 0 else 1), h_mem = 0\<rparr>"

definition demo_full :: server where
  "demo_full = (server_new 1 (config_default\<lparr>cfg_maxmemory := 100, cfg_maxmemory_policy := VolatileLru\<rparr>) 0 table_new)
     \<lparr>sv_shards := \<lparr>sm_shards = [demo_handle 0 1000 None, demo_handle 1 10 (Some 5)], sm_mask = 1, sm_databases = 1\<rparr>\<rparr>"

lemma demo_shards_inv: "shards_inv (sv_shards demo_full)"
proof -
  have w: "sm_wf (sv_shards demo_full)" by (auto simp: sm_wf_def demo_full_def sm_len_def intro: exI [of _ 1])
  have "db_inv (set_entry (db_new 0) k e)" for k e by (simp add: db_inv_data db_inv_new)
  then show ?thesis using w
    by (auto simp: shards_inv_def map_ok_def demo_full_def sm_len_def sm_get_def shard_db_def nth_opt_def demo_handle_def less_Suc_eq numeral_2_eq_2 split: if_splits)
qed

theorem eviction_obeys_policy_witness:
  "shards_inv (sv_shards (fst (evict_cycle demo_env demo_evictor demo_full)))"
proof -
  obtain s' st where c: "evict_cycle demo_env demo_evictor demo_full = (s', st)" by (rule prod.exhaust)
  have "iter_spec (ev_iter_expires demo_evictor)" "iter_spec (ev_iter demo_evictor)" by (simp_all add: demo_evictor_def iter_spec_sorted iter_spec_sorted_entries)
  from eviction_obeys_policy [OF this demo_shards_inv c] c show ?thesis by simp
qed

text \<open>C14. The volatile policies can starve: when the shard with the largest estimate holds no key with a deadline, the sweep
  goes back to that shard in every round, evicts nothing although other shards hold keys it could evict, and gives up
  reporting exhaustion, while commands that need memory are still let in.\<close>

theorem volatile_eviction_starves:
  assumes "is_volatile_policy (cfg_maxmemory_policy (sv_config s))" and "cfg_maxmemory (sv_config s) \<noteq> 0"
    and "m = refresh_all X (sv_shards s)" and "used_memory m > cfg_maxmemory (sv_config s)"
    and "fattest_shard m = Some i" and "sm_get m i = Some h" and "\<forall>d \<in> set (dbs (h_shard h)). expires d = fmempty"
    and "volatile_keys m \<noteq> 0" and "\<forall>r. \<not> ev_late X r" and "sm_len m < MAX_ROUNDS_PER_CYCLE"
  shows "evict_cycle E X s = (s\<lparr>sv_shards := m\<rparr>, evict_stats_default\<lparr>es_rounds := sm_len m + 1, es_over_limit := True, es_exhausted := True\<rparr>)
    \<and> check_oom m (sv_config s) = Inr ()"
proof -
  have "refresh_shard_estimate X h = h"
    using assms(3,6) by (auto simp: refresh_all_def sm_get_def nth_opt_def refresh_shard_estimate_def split: if_splits)
  from evict_rounds_starved [of "s\<lparr>sv_shards := m\<rparr>" i h X evict_stats_default MAX_ROUNDS_PER_CYCLE E 0] this assms
  have "evict_rounds E X MAX_ROUNDS_PER_CYCLE 0 (s\<lparr>sv_shards := m\<rparr>) evict_stats_default
      = (s\<lparr>sv_shards := m\<rparr>, evict_stats_default\<lparr>es_rounds := sm_len m + 1, es_over_limit := True, es_exhausted := True\<rparr>)"
    by (simp add: evict_stats_default_def)
  moreover have "cfg_maxmemory_policy (sv_config s) \<noteq> NoEviction" using assms(1) by (auto simp: is_volatile_policy_def)
  ultimately show ?thesis using assms(1-3,8)
    by (auto simp: evict_cycle_def Let_def check_oom_def is_volatile_policy_def)
qed

lemma sorted_list_single: "sorted_list_of_fmap (fmupd k v fmempty) = [(k :: key, v)]"
  by (simp add: sorted_list_of_fmap_def sorted_list_of_fset.rep_eq)

lemma demo_refresh: "refresh_all demo_evictor (sv_shards demo_full)
  = \<lparr>sm_shards = [(demo_handle 0 1000 None)\<lparr>h_mem := 1113\<rparr>, (demo_handle 1 10 (Some 5))\<lparr>h_mem := 180\<rparr>], sm_mask = 1, sm_databases = 1\<rparr>"
  by (simp add: refresh_all_def refresh_shard_estimate_def demo_full_def demo_handle_def demo_evictor_def db_cost_def db_len_def db_new_def Let_def
      set_entry_def demo_entry_at_def sorted_list_single entry_cost_def ESTIMATE_SAMPLE_def mem_usage_def strobj_mem_usage_def DICT_ENTRY_OVERHEAD_def fcard.rep_eq)

theorem volatile_eviction_starves_witness:
  "es_evicted (snd (evict_cycle demo_env demo_evictor demo_full)) = 0 \<and> es_exhausted (snd (evict_cycle demo_env demo_evictor demo_full))"
proof -
  let ?m = "refresh_all demo_evictor (sv_shards demo_full)"
  have "is_volatile_policy (cfg_maxmemory_policy (sv_config demo_full))" "cfg_maxmemory (sv_config demo_full) \<noteq> 0"
    "used_memory ?m > cfg_maxmemory (sv_config demo_full)" "fattest_shard ?m = Some 0" "sm_get ?m 0 = Some ((demo_handle 0 1000 None)\<lparr>h_mem := 1113\<rparr>)"
    "\<forall>d \<in> set (dbs (h_shard ((demo_handle 0 1000 None)\<lparr>h_mem := 1113\<rparr>))). expires d = fmempty" "volatile_keys ?m \<noteq> 0"
    "\<forall>r. \<not> ev_late demo_evictor r" "sm_len ?m < MAX_ROUNDS_PER_CYCLE"
    by (simp_all add: demo_refresh, simp_all add: demo_full_def server_new_def is_volatile_policy_def used_memory_def fattest_shard_def demo_handle_def sm_get_def nth_opt_def
      demo_entry_at_def db_new_def volatile_keys_def demo_evictor_def sm_len_def MAX_ROUNDS_PER_CYCLE_def)
  from volatile_eviction_starves [OF this(1,2) refl this(3-9)] show ?thesis by (simp add: evict_stats_default_def)
qed

end
