(* ===== verification/Spec2Isabelle.thy ===== *)
theory Spec2Isabelle
  imports Crc Lzf Strnum Intset Quicklist_Seq Rax_Map Resp_Proofs Object Shard_Proofs Reply Command_Table Notify Config_Proofs
    Ctx_Proofs String_Proofs Engine_Proofs Server_Proofs Scan_Proofs Generic_Proofs Conn_Proofs Evict_Proofs
begin

text \<open>
  rsdis is a server that speaks the Redis protocol: clients send commands as byte strings, the server keeps databases of keys
  with values and deadlines, split over shards that are locked one by one. This development models the program's own logic
  from \<^verbatim>\<open>src/src\<close> and proves what makes it correct.

  \<^bold>\<open>How the parts interact.\<close> A connection (\<^verbatim>\<open>net/conn.rs\<close>) appends what it reads to a buffer and runs a batch: the request parser
  (\<^verbatim>\<open>resp/parser.rs\<close>) takes complete requests off the buffer, and each goes to the engine (\<^verbatim>\<open>engine.rs\<close>), which looks the command up in
  the command table (\<^verbatim>\<open>command/mod.rs\<close>), checks arity, authentication and memory, locks the shards of its keys, and runs its handler on a
  context (\<^verbatim>\<open>ctx.rs\<close>). A handler reads and writes the keyspace (\<^verbatim>\<open>shard/mod.rs\<close>, \<^verbatim>\<open>object.rs\<close>) through the context, which expires keys on
  access, counts changes, notifies (\<^verbatim>\<open>notify.rs\<close>) and records what a replica must replay, and appends its reply
  (\<^verbatim>\<open>reply.rs\<close>). The engine then releases the shards, appends to their propagation buffers or turns an error into an error line. The connection
  flushes its output buffer (\<^verbatim>\<open>net/output.rs\<close>). In the background, expiry (\<^verbatim>\<open>shard/expire.rs\<close>) and eviction (\<^verbatim>\<open>shard/evict.rs\<close>) sweep the
  shards. Values are stored in packed encodings (\<^verbatim>\<open>encoding/\<close>), and \<^verbatim>\<open>util/\<close> holds checksums, compression and number text.

  \<^bold>\<open>Conventions.\<close> A byte is an \<^verbatim>\<open>8 word\<close> and a byte string a list; \<^verbatim>\<open>u32\<close>, cursors, flags and checksums are words; \<^verbatim>\<open>usize\<close> and \<^verbatim>\<open>u64\<close> quantities are
  naturals and \<^verbatim>\<open>i64\<close> are integers, with the casts, saturations and range checks the code has written out. Structs are records, enums datatypes,
  hash maps finite maps. A function that can panic or may not return gives an option, one that can fail a sum with the
  error on the left. State is passed and returned; a handler maps a context to a result and a context. Loops are structural
  recursion or functions with a proved measure; where returning is itself a property (the batch loop, glob matching, sweeps,
  quicklist merges) the loop is a partial function into an option and its return is proved. Fuel occurs only where the
  code has it, such as the 512 rounds of an eviction sweep. Code of other crates is a parameter: the record \<^verbatim>\<open>env\<close> holds the byte
  search, the integer printer and the LFU coin; hash table orders, key hashes, random draws, clocks, file contents and the
  sockets' acceptance of bytes are arguments, with their documented behaviour as named hypotheses (\<open>env_ok\<close>,
  \<open>memchr_spec\<close>, \<open>iter_ok\<close>, \<open>iter_spec\<close>).

  \<^bold>\<open>Theories.\<close>
  \<^item> \<open>Prelude\<close>: types, result combinators, checked list access, facts on lists and words.
  \<^item> \<open>Crc\<close>, \<open>Lzf\<close>, \<open>Strnum\<close>, \<open>Glob\<close>: \<^verbatim>\<open>util/crc16.rs\<close>, \<^verbatim>\<open>util/crc64.rs\<close>, \<^verbatim>\<open>util/lzf.rs\<close>, \<^verbatim>\<open>util/strnum.rs\<close>, the glob matcher of \<^verbatim>\<open>command/generic.rs\<close>. The table-driven
    checksums equal the bitwise ones (locale \<open>table_crc\<close>, two interpretations), compression round trips, number text is exactly the canonical forms,
    the iterative matcher equals the recursive meaning of a pattern.
  \<^item> \<open>Intset\<close>, \<open>Listpack\<close>, \<open>Listpack_Proofs\<close>, \<open>Listpack_Seq\<close>, \<open>Quicklist\<close>, \<open>Quicklist_Proofs\<close>, \<open>Quicklist_Seq\<close>, \<open>Rax\<close>, \<open>Rax_Iter\<close>, \<open>Rax_Tree\<close>, \<open>Rax_Proofs\<close>, \<open>Rax_Iter_Proofs\<close>, \<open>Rax_Map\<close>: \<^verbatim>\<open>encoding/\<close>. The byte-level encodings are
    sets, sequences and maps: locales \<open>int_set\<close>, \<open>packed_seq\<close>, \<open>deque\<close>, \<open>byte_map\<close>, \<open>ordered_byte_map\<close> state the abstract contracts, interpreted on the models. The radix tree's
    arena is read as a tree with positions, which its stacks of frames stand for.
  \<^item> \<open>Resp_Parser\<close>, \<open>Resp_Proofs\<close>: the resumable parser as a state machine; chunk independence, round trip with the encoder, bounds.
  \<^item> \<open>Object\<close>, \<open>Shard\<close>, \<open>Shard_Proofs\<close>: values, entries, clocks, databases, shards, lock sets and guards. Locale \<open>keyspace\<close> is the contract of
    a database; the expiry index mirrors the dictionary, a \<^verbatim>\<open>WATCH\<close> notices changes.
  \<^item> \<open>Cmd_Error\<close>, \<open>Reply\<close>, \<open>Command_Table\<close>, \<open>Notify\<close>, \<open>Config\<close>, \<open>Config_Proofs\<close>: errors and their wire text, the reply writer against a grammar of
    the protocol, command specifications and lookup, notifications, the configuration with its directives and files.
  \<^item> \<open>Ctx\<close>, \<open>Ctx_Proofs\<close>: the handler context; locale \<open>handler_api\<close> is what handlers may rely on.
  \<^item> \<open>String_Cmd\<close>, \<open>Generic_Cmd\<close>, \<open>Scan\<close>, \<open>Server_Cmd\<close>, \<open>Connection_Cmd\<close> and their \<open>_Proofs\<close>: the commands of \<^verbatim>\<open>command/string.rs\<close>, \<^verbatim>\<open>command/generic.rs\<close>,
    \<^verbatim>\<open>command/server.rs\<close> and \<^verbatim>\<open>command/connection.rs\<close>. Each handler's effect on every branch, that what it propagates replays to the same state, and
    that \<^verbatim>\<open>SCAN\<close> misses no key.
  \<^item> \<open>Engine\<close>, \<open>Engine_Proofs\<close>: dispatch, and the acquisition of shard locks by threads as a step relation. Locale \<open>command_handler\<close> is the contract
    between the engine and a handler, interpreted for the handlers; \<open>connection_handler\<close> extends it for commands that touch nothing but their client.
    Lock sets cover the keys and never deadlock, error answers are clean, a write by one client is read by another.
  \<^item> \<open>Evict\<close>, \<open>Expiry\<close>, \<open>Evict_Cycle\<close>, \<open>Expiry_Proofs\<close>, \<open>Evict_Proofs\<close>: the memory check, active expiry and eviction. Expiry is invisible to
    clients; eviction takes what the policy allows, and can starve.
  \<^item> \<open>Output\<close>, \<open>Registry\<close>, \<open>Conn\<close>, \<open>Conn_Proofs\<close>: the output buffer under partial writes, the table of connections, and the turns of a
    connection. Serving does not depend on how the network cuts the requests, every byte of output is sent once and in order, and a
    client without the password changes nothing.

  \<^bold>\<open>Not modelled.\<close> Sockets, listeners, timers and tasks of the asynchronous runtime and the program's start (\<^verbatim>\<open>net/listener.rs\<close>, \<^verbatim>\<open>main.rs\<close>): they
  only call what is modelled. Floating-point text and replies, and \<^verbatim>\<open>SORT\<close>, which rest on the standard library's float parser and printer;
  the skiplist, whose scores are floating-point numbers. \<^verbatim>\<open>INFO\<close> and \<^verbatim>\<open>COMMAND\<close>, which print counters and the command table. Sizes of
  allocations. Collection types and commands, transactions, publish/subscribe, persistence, the slow log and geohashes are placeholders in the
  source; the model has the placeholders' behaviour where other code calls them.
\<close>

end
